(* ===== verification/Prelude.thy ===== *)
theory Prelude
  imports Main "HOL-Library.Word" "HOL-Library.Multiset"
begin

text \<open>
  Shared vocabulary of the development: names for the C integer types of the target (a 32-bit
  ARM: \<open>int\<close>, \<open>long\<close> and \<open>size_t\<close> have 32 bits), the named collection of rewrite rules that the
  GPS receiver extends, generic lemmas on lists and words, and the contract shared by every
  sequential component (a step function and what it preserves).

  A value of type \<open>'a option\<close> in result position means that the C code may abort: \<open>None\<close> is a NULL
  dereference, a failed \<open>DEBUGASSERT\<close> (the retail configuration sets \<open>CONFIG_DEBUG\<close>, so the
  assertions are compiled in) or, for a pointer walk, a loop that does not end.
\<close>

unbundle bit_operations_syntax

type_synonym u8 = "8 word"
type_synonym u16 = "16 word"
type_synonym u32 = "32 word"
type_synonym bytes = "u8 list"

named_theorems ubx_simps "unfolding rules of the GPS message receiver"

section \<open>Lists\<close>

lemma sorted_wrt_cong_set:
  assumes "\<And>x y. x \<in> set xs \<Longrightarrow> y \<in> set xs \<Longrightarrow> P x y = Q x y"
  shows "sorted_wrt P xs = sorted_wrt Q xs"
  using assms by (induction xs) auto

lemma take_Suc_update [simp]:
  assumes "n < length xs"
  shows "take (Suc n) (xs[n := v]) = take n xs @ [v]"
  using assms by (simp add: take_Suc_conv_app_nth)

lemma take_update_beyond [simp]: "n \<le> i \<Longrightarrow> take n (xs[i := v]) = take n xs"
  by (rule take_update_cancel)

lemma remove1_mid:
  assumes "x \<notin> set xs"
  shows "remove1 x (xs @ x # ys) = xs @ ys"
  using assms by (simp add: remove1_append)

lemma in_set_splitE:
  assumes "x \<in> set xs"
  obtains ys zs where "xs = ys @ x # zs" and "x \<notin> set ys"
  using split_list_first [OF assms] by blast

lemma length_takeWhile_less:
  assumes "\<exists>x \<in> set xs. \<not> P x"
  shows "length (takeWhile P xs) < length xs"
  using assms by (induction xs) auto

section \<open>Words\<close>

lemma unat_u8_less [simp]: "unat (w :: u8) < 256"
  using unsigned_less [of w] by simp

lemma u8_cases:
  assumes "list_all P (map word_of_nat [0..<256])"
  shows "P (v :: u8)"
proof -
  have "unat v \<in> {0..<256}" by simp
  then have "word_of_nat (unat v) \<in> set (map word_of_nat [0..<256] :: u8 list)"
    unfolding set_map set_upt by (rule imageI)
  with assms have "P (word_of_nat (unat v))" unfolding list_all_iff by blast
  then show ?thesis by simp
qed

lemma unat_u16_less [simp]: "unat (w :: u16) < 65536"
  using unsigned_less [of w] by simp

lemma word_of_nat_unat_id [simp]: "word_of_nat (unat (w :: 'a::len word)) = w"
  by simp

section \<open>The contract of a sequential component\<close>

text \<open>
  Several components consume a sequence of inputs one at a time: the modem parser and the GPS
  receiver take bytes, the event loop takes calls of its interface. Each is a step function that
  may abort. The run over a list of inputs, and the fact that a property kept by one step is kept
  by a whole run and that the run does not abort, are shared by all of them.
\<close>

fun run_steps :: "('i \<Rightarrow> 's \<Rightarrow> 's option) \<Rightarrow> 'i list \<Rightarrow> 's \<Rightarrow> 's option" where
  "run_steps f [] s = Some s"
| "run_steps f (i # is) s = (case f i s of None \<Rightarrow> None | Some s' \<Rightarrow> run_steps f is s')"

lemma run_steps_append:
  "run_steps f (is @ js) s = Option.bind (run_steps f is s) (run_steps f js)"
  by (induction "is" arbitrary: s) (auto split: option.splits)

locale safe_machine =
  fixes step :: "'i \<Rightarrow> 's \<Rightarrow> 's option"
    and good :: "'i \<Rightarrow> bool"
    and inv :: "'s \<Rightarrow> bool"
  assumes step_safe: "inv s \<Longrightarrow> good i \<Longrightarrow> \<exists>s'. step i s = Some s' \<and> inv s'"
begin

lemma run_safe:
  assumes "inv s" and "list_all good is"
  shows "\<exists>s'. run_steps step is s = Some s' \<and> inv s'"
  using assms
proof (induction "is" arbitrary: s)
  case Nil
  then show ?case by simp
next
  case (Cons i "is")
  then obtain s1 where "step i s = Some s1" and "inv s1"
    using step_safe by fastforce
  with Cons show ?case by simp
qed

lemma run_inv:
  assumes "inv s" and "list_all good is" and "run_steps step is s = Some s'"
  shows "inv s'"
  using run_safe [OF assms(1,2)] assms(3) by auto

end

end
