(* ===== verification/Ts_Time.thy ===== *)
theory Ts_Time
  imports Prelude "HOL-Library.Signed_Division"
begin

text \<open>
  The time arithmetic of \<open>apps/thingsee/lib/ts_core.c\<close>: \<open>struct timespec\<close> with a 32-bit unsigned
  \<open>tv_sec\<close> (\<open>nuttx/include/time.h\<close>) and a 32-bit signed \<open>tv_nsec\<close>, and the helpers that compare,
  add and convert. Word operations are those of the C expression, with the usual arithmetic
  conversions written out; the 64-bit intermediate results of \<open>timespec_cmp\<close> and
  \<open>timespec_to_msec\<close> are integers, and \<open>timespec_int64_range\<close> shows that they fit \<open>int64_t\<close>.
  \<open>timespec_add\<close> and \<open>timespec_add_msec\<close> are shown to compute modulo the range of \<open>tv_sec\<close> and
  to normalise their result.
\<close>

record timespec =
  tv_sec :: u32
  tv_nsec :: u32

abbreviation NSEC_PER_SEC :: int where "NSEC_PER_SEC \<equiv> 1000000000"

definition ns_of :: "timespec \<Rightarrow> int" where
  "ns_of ts = uint (tv_sec ts) * NSEC_PER_SEC + sint (tv_nsec ts)"

definition timespec_cmp :: "timespec \<Rightarrow> timespec \<Rightarrow> int" where
  "timespec_cmp a b =
     (let a_nsec = uint (tv_sec a) * (1000 * 1000 * 1000) + sint (tv_nsec a);
          b_nsec = uint (tv_sec b) * (1000 * 1000 * 1000) + sint (tv_nsec b)
      in if a_nsec > b_nsec then 1 else if a_nsec < b_nsec then -1 else 0)"

text \<open>The bodies of the two normalising loops of \<open>timespec_add\<close>, on (seconds, nanoseconds).\<close>

lemma sint_sub_sec:
  assumes "NSEC_PER_SEC \<le> sint (n :: u32)"
  shows "sint (n - 1000000000) = sint n - NSEC_PER_SEC"
proof -
  have "sint n < 2 ^ 31" using sint_lt [of n] by simp
  then have "- (2 ^ 31) \<le> sint n - sint (1000000000 :: u32)" "sint n - sint (1000000000 :: u32) < 2 ^ 31"
    using assms by auto
  then show ?thesis
    by (simp add: sint_word_ariths signed_take_bit_int_eq_self)
qed

lemma sint_add_sec:
  assumes "sint (n :: u32) < 0"
  shows "sint (n + 1000000000) = sint n + NSEC_PER_SEC"
proof -
  have "- (2 ^ 31) \<le> sint n" using sint_ge [of n] by simp
  then have "- (2 ^ 31) \<le> sint n + sint (1000000000 :: u32)" "sint n + sint (1000000000 :: u32) < 2 ^ 31"
    using assms by auto
  then show ?thesis
    by (simp add: sint_word_ariths signed_take_bit_int_eq_self)
qed

function carry_up :: "u32 \<Rightarrow> u32 \<Rightarrow> u32 \<times> u32" where
  "carry_up sec nsec =
     (if sint nsec \<ge> 1000 * 1000 * 1000 then carry_up (sec + 1) (nsec - 1000 * 1000 * 1000)
      else (sec, nsec))"
  by pat_completeness auto
termination
  by (relation "measure (\<lambda>(sec, nsec). nat (sint nsec))") (auto simp: sint_sub_sec)

function carry_down :: "u32 \<Rightarrow> u32 \<Rightarrow> u32 \<times> u32" where
  "carry_down sec nsec =
     (if sint nsec < 0 then carry_down (sec - 1) (nsec + 1000 * 1000 * 1000)
      else (sec, nsec))"
  by pat_completeness auto
termination
  by (relation "measure (\<lambda>(sec, nsec). nat (- sint nsec))") (auto simp: sint_add_sec)

declare carry_up.simps [simp del] carry_down.simps [simp del]

definition timespec_add :: "timespec \<Rightarrow> timespec \<Rightarrow> timespec" where
  "timespec_add ts add =
     (let (s1, n1) = carry_up (tv_sec ts + tv_sec add) (tv_nsec ts + tv_nsec add);
          (s2, n2) = carry_down s1 n1
      in ts\<lparr>tv_sec := s2, tv_nsec := n2\<rparr>)"

text \<open>
  \<open>msec\<close> is a \<open>long\<close>. The division is C's (towards zero); in \<open>msec - add.tv_sec * 1000\<close> the
  unsigned \<open>tv_sec\<close> makes the whole expression unsigned, and the result is stored to a \<open>long\<close>.
\<close>

definition timespec_add_msec :: "timespec \<Rightarrow> u32 \<Rightarrow> timespec" where
  "timespec_add_msec ts msec =
     (let sec = word_of_int (sint msec sdiv 1000);
          nsec = (msec - sec * 1000) * (1000 * 1000)
      in timespec_add ts \<lparr>tv_sec = sec, tv_nsec = nsec\<rparr>)"

definition timespec_to_msec :: "timespec \<Rightarrow> int" where
  "timespec_to_msec ts = uint (tv_sec ts) * 1000 + sint (tv_nsec ts) sdiv (1000 * 1000)"

section \<open>Comparison\<close>

definition normal_ts :: "timespec \<Rightarrow> bool" where
  "normal_ts ts \<longleftrightarrow> 0 \<le> sint (tv_nsec ts) \<and> sint (tv_nsec ts) < NSEC_PER_SEC"

lemma timespec_cmp_less: "timespec_cmp a b < 0 \<longleftrightarrow> ns_of a < ns_of b"
  by (simp add: timespec_cmp_def ns_of_def Let_def)

lemma timespec_cmp_eq: "timespec_cmp a b = 0 \<longleftrightarrow> ns_of a = ns_of b"
  by (simp add: timespec_cmp_def ns_of_def Let_def)

lemma timespec_int64_range: "- 9223372036854775808 \<le> ns_of ts \<and> ns_of ts \<le> 9223372036854775807"
proof -
  have "0 \<le> uint (tv_sec ts)" "uint (tv_sec ts) < 4294967296"
    using uint_lt2p [of "tv_sec ts"] by simp_all
  moreover have "- 2147483648 \<le> sint (tv_nsec ts)" "sint (tv_nsec ts) < 2147483648"
    using sint_ge [of "tv_nsec ts"] sint_lt [of "tv_nsec ts"] by simp_all
  ultimately show ?thesis unfolding ns_of_def by (intro conjI) linarith+
qed

lemma normal_ts_div:
  assumes "normal_ts ts"
  shows "ns_of ts div NSEC_PER_SEC = uint (tv_sec ts)" and "ns_of ts mod NSEC_PER_SEC = sint (tv_nsec ts)"
  using assms by (simp_all add: ns_of_def normal_ts_def)

lemma normal_ts_inject:
  assumes "normal_ts a" and "normal_ts b" and "ns_of a = ns_of b"
  shows "tv_sec a = tv_sec b \<and> tv_nsec a = tv_nsec b"
proof -
  have "uint (tv_sec a) = uint (tv_sec b) \<and> sint (tv_nsec a) = sint (tv_nsec b)"
    using normal_ts_div [OF assms(1)] normal_ts_div [OF assms(2)] assms(3) by simp
  then show ?thesis by (auto simp: word_uint_eq_iff [of "tv_sec a"] intro: signed_word_eqI)
qed

section \<open>Addition\<close>

abbreviation ns_modulus :: int where "ns_modulus \<equiv> 2 ^ 32 * NSEC_PER_SEC"

definition ns_pair :: "u32 \<times> u32 \<Rightarrow> int" where
  "ns_pair p = (uint (fst p) * NSEC_PER_SEC + sint (snd p)) mod ns_modulus"

lemma ns_pair_sec_shift:
  "ns_pair (word_of_int k, n) = (k * NSEC_PER_SEC + sint n) mod ns_modulus"
proof -
  have "uint (word_of_int k :: u32) * NSEC_PER_SEC = (k * NSEC_PER_SEC) mod ns_modulus"
    using mult_mod_left [of k "2 ^ 32" NSEC_PER_SEC] by (simp add: uint_word_of_int)
  then show ?thesis by (simp add: ns_pair_def mod_add_left_eq)
qed

lemma carry_up_value: "ns_pair (carry_up sec nsec) = ns_pair (sec, nsec)"
proof (induction sec nsec rule: carry_up.induct)
  case (1 sec nsec)
  show ?case
  proof (cases "sint nsec \<ge> NSEC_PER_SEC")
    case True
    have "ns_pair (sec + 1, nsec - 1000000000) = ns_pair (sec, nsec)"
      using ns_pair_sec_shift [of "uint sec + 1" "nsec - 1000000000"] True
      by (simp add: sint_sub_sec ns_pair_def)
    with 1 True show ?thesis by (simp add: carry_up.simps [of sec nsec])
  next
    case False
    then show ?thesis by (simp add: carry_up.simps [of sec nsec])
  qed
qed

lemma carry_up_range:
  assumes "0 \<le> sint nsec \<or> sint nsec < 0"
  shows "sint (snd (carry_up sec nsec)) < NSEC_PER_SEC \<and>
    (0 \<le> sint nsec \<longrightarrow> 0 \<le> sint (snd (carry_up sec nsec))) \<and>
    (sint nsec < NSEC_PER_SEC \<longrightarrow> carry_up sec nsec = (sec, nsec))"
  using assms
proof (induction sec nsec rule: carry_up.induct)
  case (1 sec nsec)
  show ?case
  proof (cases "sint nsec \<ge> NSEC_PER_SEC")
    case True
    with 1 sint_sub_sec [of nsec] show ?thesis by (auto simp: carry_up.simps [of sec nsec])
  next
    case False
    then show ?thesis by (simp add: carry_up.simps [of sec nsec])
  qed
qed

lemma carry_down_value: "ns_pair (carry_down sec nsec) = ns_pair (sec, nsec)"
proof (induction sec nsec rule: carry_down.induct)
  case (1 sec nsec)
  show ?case
  proof (cases "sint nsec < 0")
    case True
    have "ns_pair (sec - 1, nsec + 1000000000) = ns_pair (sec, nsec)"
      using ns_pair_sec_shift [of "uint sec - 1" "nsec + 1000000000"] True
      by (simp add: sint_add_sec ns_pair_def)
    with 1 True show ?thesis by (simp add: carry_down.simps [of sec nsec])
  next
    case False
    then show ?thesis by (simp add: carry_down.simps [of sec nsec])
  qed
qed

lemma carry_down_range:
  assumes "sint nsec < NSEC_PER_SEC"
  shows "0 \<le> sint (snd (carry_down sec nsec)) \<and> sint (snd (carry_down sec nsec)) < NSEC_PER_SEC"
  using assms
proof (induction sec nsec rule: carry_down.induct)
  case (1 sec nsec)
  show ?case
  proof (cases "sint nsec < 0")
    case True
    with 1 sint_add_sec [of nsec] show ?thesis by (auto simp: carry_down.simps [of sec nsec])
  next
    case False
    with 1 show ?thesis by (simp add: carry_down.simps [of sec nsec])
  qed
qed

lemma timespec_add_normal: "normal_ts (timespec_add ts add)"
  using carry_down_range carry_up_range
  by (auto simp: normal_ts_def timespec_add_def Let_def split: prod.splits) (metis snd_conv not_less)+

lemma timespec_add_value:
  assumes "- 2147483648 \<le> sint (tv_nsec ts) + sint (tv_nsec add)"
    and "sint (tv_nsec ts) + sint (tv_nsec add) < 2147483648"
  shows "ns_of (timespec_add ts add) = (ns_of ts + ns_of add) mod ns_modulus"
proof -
  let ?s = "tv_sec ts + tv_sec add" and ?n = "tv_nsec ts + tv_nsec add"
  let ?p = "case carry_up ?s ?n of (s, n) \<Rightarrow> carry_down s n"
  have n: "sint ?n = sint (tv_nsec ts) + sint (tv_nsec add)"
    using assms by (simp add: sint_word_ariths signed_take_bit_int_eq_self)
  have p: "ns_pair ?p = ns_pair (?s, ?n)"
    by (cases "carry_up ?s ?n") (metis carry_down_value carry_up_value case_prod_conv)
  have "ns_of (timespec_add ts add) mod ns_modulus = ns_pair ?p"
    by (simp add: timespec_add_def ns_of_def ns_pair_def Let_def split: prod.splits)
  also have "\<dots> = (ns_of ts + ns_of add) mod ns_modulus"
    using ns_pair_sec_shift [of "uint (tv_sec ts) + uint (tv_sec add)" ?n] n p
    by (simp add: ns_of_def algebra_simps)
  finally have "ns_of (timespec_add ts add) mod ns_modulus = (ns_of ts + ns_of add) mod ns_modulus" .
  moreover have "0 \<le> ns_of (timespec_add ts add)" "ns_of (timespec_add ts add) < ns_modulus"
    using timespec_add_normal [of ts add] uint_lt2p [of "tv_sec (timespec_add ts add)"]
    by (simp_all add: normal_ts_def ns_of_def)
  ultimately show ?thesis by simp
qed

lemma sdiv_1000_remainder:
  fixes m :: int
  shows "\<bar>m - (m sdiv 1000) * 1000\<bar> < 1000"
proof (cases "0 \<le> m")
  case True
  then have "m sdiv 1000 = m div 1000" by (cases "m = 0") (simp_all add: signed_divide_int_def)
  with True show ?thesis by (simp add: minus_div_mult_eq_mod)
next
  case False
  then have "m sdiv 1000 = - ((- m) div 1000)" by (simp add: signed_divide_int_def)
  moreover have "(- m) - ((- m) div 1000) * 1000 = (- m) mod 1000" by (simp add: minus_div_mult_eq_mod)
  moreover have "0 \<le> (- m) mod 1000" "(- m) mod 1000 < 1000" by simp_all
  ultimately show ?thesis by linarith
qed

lemma sint_u32_of_int:
  assumes "- 2147483648 \<le> k" and "k < 2147483648"
  shows "sint (word_of_int k :: u32) = k"
  using assms by (simp add: signed_of_int signed_take_bit_int_eq_self)

lemma msec_part_range:
  assumes "\<bar>r :: int\<bar> < 1000"
  shows "- NSEC_PER_SEC < r * 1000000" and "r * 1000000 < NSEC_PER_SEC"
  using assms by auto

lemma timespec_add_msec_normal: "normal_ts (timespec_add_msec ts msec)"
  by (simp add: timespec_add_msec_def Let_def timespec_add_normal)

lemma timespec_add_msec_value:
  assumes "normal_ts ts"
  shows "ns_of (timespec_add_msec ts msec) = (ns_of ts + sint msec * 1000000) mod ns_modulus"
proof -
  let ?q = "sint msec sdiv 1000"
  let ?sec = "word_of_int ?q :: u32"
  let ?nsec = "(msec - ?sec * 1000) * 1000000"
  let ?r = "sint msec - ?q * 1000"
  have r: "\<bar>?r\<bar> < 1000" by (rule sdiv_1000_remainder)
  have w: "?nsec = word_of_int (?r * 1000000)" by simp
  have n: "sint ?nsec = ?r * 1000000"
    unfolding w using msec_part_range [OF r] by (intro sint_u32_of_int) linarith+
  have ts: "0 \<le> sint (tv_nsec ts)" "sint (tv_nsec ts) < NSEC_PER_SEC"
    using assms by (simp_all add: normal_ts_def)
  have "- 2147483648 \<le> sint (tv_nsec ts) + sint ?nsec" "sint (tv_nsec ts) + sint ?nsec < 2147483648"
    using n msec_part_range [OF r] ts by linarith+
  then have "ns_of (timespec_add ts \<lparr>tv_sec = ?sec, tv_nsec = ?nsec\<rparr>) =
    (ns_of ts + ns_of \<lparr>tv_sec = ?sec, tv_nsec = ?nsec\<rparr>) mod ns_modulus"
    by (intro timespec_add_value) (simp_all only: timespec.select_convs)
  also have "\<dots> = (ns_of ts + (?q * NSEC_PER_SEC + ?r * 1000000)) mod ns_modulus"
    using ns_pair_sec_shift [of ?q ?nsec] n
    by (metis (no_types, lifting) fst_conv mod_add_right_eq ns_of_def ns_pair_def snd_conv timespec.select_convs)
  also have "?q * NSEC_PER_SEC + ?r * 1000000 = sint msec * 1000000" by simp
  finally show ?thesis by (simp add: timespec_add_msec_def Let_def)
qed

section \<open>Milliseconds\<close>

lemma timespec_to_msec_div:
  assumes "normal_ts ts"
  shows "timespec_to_msec ts = ns_of ts div 1000000"
proof -
  have "sint (tv_nsec ts) sdiv 1000000 = sint (tv_nsec ts) div 1000000"
    using assms by (cases "sint (tv_nsec ts) = 0") (simp_all add: normal_ts_def signed_divide_int_def)
  moreover have "ns_of ts = sint (tv_nsec ts) + (uint (tv_sec ts) * 1000) * 1000000"
    by (simp add: ns_of_def)
  ultimately show ?thesis
    unfolding timespec_to_msec_def by (simp only: div_mult_self1) simp
qed

lemma timespec_to_msec_mono:
  assumes "normal_ts a" and "normal_ts b" and "ns_of a \<le> ns_of b"
  shows "timespec_to_msec a \<le> timespec_to_msec b"
  using assms by (simp add: timespec_to_msec_div zdiv_mono1)

lemma timespec_to_msec_nonneg:
  assumes "normal_ts a"
  shows "0 \<le> timespec_to_msec a"
  using assms by (simp add: timespec_to_msec_div ns_of_def normal_ts_def pos_imp_zdiv_nonneg_iff)

end
