(* ===== verification/Sq_Queue.thy ===== *)
theory Sq_Queue
  imports Prelude
begin

text \<open>
  The singly linked queues of NuttX (\<open>nuttx/include/queue.h\<close>, \<open>nuttx/libc/queue/sq_*.c\<close>), on which
  the event loop keeps its timers and hooks. The queue header is a pair of pointers, the \<open>flink\<close>
  field of the nodes is an explicit store from node addresses to the next node, and every routine
  is translated on that store. \<open>sq_repr\<close> relates a header and a store to the list of queued nodes;
  each routine is shown to implement the corresponding list operation and to leave the links of
  every other queue alone. The locale \<open>sq_interface\<close> states this contract for a client.
\<close>

section \<open>Headers, links and routines\<close>

record 'a sq_queue =
  sq_head :: "'a option"
  sq_tail :: "'a option"

type_synonym 'a links = "'a \<Rightarrow> 'a option"
type_synonym 'a sq_state = "'a sq_queue \<times> 'a links"

definition sq_init :: "'a sq_queue" where
  "sq_init = \<lparr>sq_head = None, sq_tail = None\<rparr>"

definition sq_peek :: "'a sq_state \<Rightarrow> 'a option" where
  "sq_peek s = sq_head (fst s)"

definition sq_next :: "'a \<Rightarrow> 'a sq_state \<Rightarrow> 'a option" where
  "sq_next node s = snd s node"

fun sq_addlast :: "'a \<Rightarrow> 'a sq_state \<Rightarrow> 'a sq_state option" where
  "sq_addlast node (q, h) =
     (let h = h(node := None) in
      case sq_head q of
        None \<Rightarrow> Some (q\<lparr>sq_head := Some node, sq_tail := Some node\<rparr>, h)
      | Some _ \<Rightarrow>
          (case sq_tail q of
             None \<Rightarrow> None
           | Some t \<Rightarrow> Some (q\<lparr>sq_tail := Some node\<rparr>, h(t := Some node))))"

fun sq_addfirst :: "'a \<Rightarrow> 'a sq_state \<Rightarrow> 'a sq_state" where
  "sq_addfirst node (q, h) =
     (let h = h(node := sq_head q);
          q = (if sq_head q = None then q\<lparr>sq_tail := Some node\<rparr> else q)
      in (q\<lparr>sq_head := Some node\<rparr>, h))"

fun sq_addafter :: "'a \<Rightarrow> 'a \<Rightarrow> 'a sq_state \<Rightarrow> 'a sq_state option" where
  "sq_addafter prev node (q, h) =
     (if sq_head q = None \<or> Some prev = sq_tail q
      then sq_addlast node (q, h)
      else (let h = h(node := h prev) in Some (q, h(prev := Some node))))"

fun sq_remfirst :: "'a sq_state \<Rightarrow> 'a option \<times> 'a sq_state" where
  "sq_remfirst (q, h) =
     (case sq_head q of
        None \<Rightarrow> (None, (q, h))
      | Some ret \<Rightarrow>
          (let q = q\<lparr>sq_head := h ret\<rparr>;
               q = (if sq_head q = None then q\<lparr>sq_tail := None\<rparr> else q)
           in (Some ret, (q, h(ret := None)))))"

fun sq_remafter :: "'a \<Rightarrow> 'a sq_state \<Rightarrow> 'a option \<times> 'a sq_state" where
  "sq_remafter node (q, h) =
     (case h node of
        None \<Rightarrow> (None, (q, h))
      | Some ret \<Rightarrow>
          if sq_head q = None then (Some ret, (q, h))
          else
            (let s = (if sq_tail q = Some ret
                      then (q\<lparr>sq_tail := Some node\<rparr>, h(node := None))
                      else (q, h(node := h ret)))
             in (Some ret, (fst s, (snd s)(ret := None)))))"

text \<open>
  The loop \<open>for (prev = head; prev && prev->flink != node; prev = prev->flink);\<close> of \<open>sq_rem\<close> and
  \<open>sq_remlast\<close>. On a cyclic chain it does not end, which is the outer \<open>None\<close>.
\<close>

partial_function (option) sq_find_prev :: "'a links \<Rightarrow> 'a \<Rightarrow> 'a option \<Rightarrow> 'a option option" where
  "sq_find_prev h node prev =
     (case prev of
        None \<Rightarrow> Some None
      | Some p \<Rightarrow> if h p = Some node then Some (Some p) else sq_find_prev h node (h p))"

fun sq_rem :: "'a option \<Rightarrow> 'a sq_state \<Rightarrow> 'a sq_state option" where
  "sq_rem nodep (q, h) =
     (case (sq_head q, nodep) of
        (Some first, Some node) \<Rightarrow>
          if node = first then
            (let q = q\<lparr>sq_head := h node\<rparr>
             in Some (if Some node = sq_tail q then q\<lparr>sq_tail := None\<rparr> else q, h))
          else
            (case sq_find_prev h node (sq_head q) of
               None \<Rightarrow> None
             | Some None \<Rightarrow> Some (q, h)
             | Some (Some prev) \<Rightarrow> Some (snd (sq_remafter prev (q, h))))
      | _ \<Rightarrow> Some (q, h))"

fun sq_remlast :: "'a sq_state \<Rightarrow> ('a option \<times> 'a sq_state) option" where
  "sq_remlast (q, h) =
     (case sq_tail q of
        None \<Rightarrow> Some (None, (q, h))
      | Some ret \<Rightarrow>
          (let found =
             (if sq_head q = sq_tail q
              then Some (q\<lparr>sq_head := None, sq_tail := None\<rparr>, h)
              else
                (case sq_find_prev h ret (sq_head q) of
                   None \<Rightarrow> None
                 | Some None \<Rightarrow> Some (q, h)
                 | Some (Some prev) \<Rightarrow> Some (q\<lparr>sq_tail := Some prev\<rparr>, h(prev := None))))
           in map_option (\<lambda>s. (Some ret, (fst s, (snd s)(ret := None)))) found))"

section \<open>Chains in the store\<close>

fun chain :: "'a links \<Rightarrow> 'a option \<Rightarrow> 'a list \<Rightarrow> 'a option \<Rightarrow> bool" where
  "chain h p [] r \<longleftrightarrow> p = r"
| "chain h p (x # xs) r \<longleftrightarrow> p = Some x \<and> chain h (h x) xs r"

lemma chain_append:
  "chain h p (xs @ ys) r \<longleftrightarrow> (\<exists>m. chain h p xs m \<and> chain h m ys r)"
  by (induction xs arbitrary: p) auto

lemma chain_frame:
  assumes "x \<notin> set xs"
  shows "chain (h(x := v)) p xs r = chain h p xs r"
  using assms by (induction xs arbitrary: p) auto

lemma chain_agree:
  assumes "\<And>x. x \<in> set xs \<Longrightarrow> h' x = h x"
  shows "chain h' p xs r = chain h p xs r"
  using assms by (induction xs arbitrary: p) auto

lemma chain_Some_iff: "chain h (Some x) ys None \<longleftrightarrow> (\<exists>zs. ys = x # zs \<and> chain h (h x) zs None)"
  by (cases ys) auto

lemma chain_link:
  assumes "chain h p (xs @ x # y # ys) r"
  shows "h x = Some y"
  using assms by (auto simp: chain_append)

lemma chain_link_last:
  assumes "chain h p (xs @ [x]) r"
  shows "h x = r"
  using assms by (auto simp: chain_append)

definition sq_repr :: "'a sq_state \<Rightarrow> 'a list \<Rightarrow> bool" where
  "sq_repr s xs \<longleftrightarrow>
     chain (snd s) (sq_head (fst s)) xs None \<and> distinct xs \<and>
     sq_tail (fst s) = (if xs = [] then None else Some (last xs))"

lemma sq_repr_Nil: "sq_repr (q, h) [] \<longleftrightarrow> sq_head q = None \<and> sq_tail q = None"
  by (auto simp: sq_repr_def)

lemma sq_repr_init: "sq_repr (sq_init, h) []"
  by (simp add: sq_repr_Nil sq_init_def)

lemma sq_repr_unique:
  assumes "sq_repr s xs" and "sq_repr s ys"
  shows "xs = ys"
proof -
  have "chain h p xs None \<Longrightarrow> chain h p ys None \<Longrightarrow> xs = ys" for h :: "'a links" and p
  proof (induction xs arbitrary: p ys)
    case Nil
    then show ?case by (cases ys) auto
  next
    case (Cons x xs)
    then show ?case by (auto simp: chain_Some_iff)
  qed
  with assms show ?thesis by (auto simp: sq_repr_def)
qed

lemma sq_repr_agree:
  assumes "\<And>x. x \<in> set xs \<Longrightarrow> h' x = h x"
  shows "sq_repr (q, h') xs = sq_repr (q, h) xs"
  using chain_agree [OF assms] by (simp add: sq_repr_def)

lemma sq_repr_head:
  assumes "sq_repr s xs"
  shows "sq_head (fst s) = (case xs of [] \<Rightarrow> None | x # _ \<Rightarrow> Some x)"
  using assms by (cases xs) (auto simp: sq_repr_def)

lemma sq_repr_snocD:
  assumes "sq_repr (q, h) (xs @ [t])"
  shows "chain h (sq_head q) xs (Some t)" and "h t = None" and "sq_tail q = Some t"
    and "t \<notin> set xs" and "distinct xs"
  using assms by (auto simp: sq_repr_def chain_append)

section \<open>Every routine implements its list operation\<close>

lemma sq_peek_repr:
  assumes "sq_repr s xs"
  shows "sq_peek s = (case xs of [] \<Rightarrow> None | x # _ \<Rightarrow> Some x)"
  using sq_repr_head [OF assms] by (simp add: sq_peek_def)

lemma sq_next_repr:
  assumes "sq_repr s (xs @ x # ys)"
  shows "sq_next x s = (case ys of [] \<Rightarrow> None | y # _ \<Rightarrow> Some y)"
  using assms by (cases ys) (auto simp: sq_repr_def sq_next_def chain_append)

lemma sq_addlast_repr:
  assumes "sq_repr (q, h) xs" and "x \<notin> set xs"
  shows "\<exists>q' h'. sq_addlast x (q, h) = Some (q', h') \<and> sq_repr (q', h') (xs @ [x]) \<and>
    (\<forall>y. y \<notin> set xs \<and> y \<noteq> x \<longrightarrow> h' y = h y)"
proof (cases xs rule: rev_cases)
  case Nil
  with assms show ?thesis by (auto simp: sq_repr_def)
next
  case (snoc ys t)
  note d = sq_repr_snocD [OF assms(1)[unfolded snoc]]
  have "sq_head q \<noteq> None"
    using d(1) by (cases ys) auto
  then obtain f where hd: "sq_head q = Some f" by blast
  let ?h = "h(x := None, t := Some x)"
  have "chain ?h (sq_head q) ys (Some t)"
    using d assms(2) snoc by (simp add: chain_frame)
  moreover have "t \<noteq> x" using assms(2) snoc by auto
  ultimately have "chain ?h (sq_head q) (ys @ [t] @ [x]) None"
    unfolding chain_append by auto
  then have "sq_repr (q\<lparr>sq_tail := Some x\<rparr>, ?h) (xs @ [x])"
    using d assms(2) snoc by (auto simp: sq_repr_def)
  with d(3) hd show ?thesis
    using snoc by (auto simp: Let_def)
qed

lemma sq_addfirst_repr:
  assumes "sq_repr (q, h) xs" and "x \<notin> set xs"
  shows "sq_repr (sq_addfirst x (q, h)) (x # xs)"
    and "y \<noteq> x \<Longrightarrow> snd (sq_addfirst x (q, h)) y = h y"
  using assms by (cases xs; auto simp: sq_repr_def chain_frame Let_def)+

lemma sq_addafter_repr:
  assumes "sq_repr (q, h) (xs @ p # ys)" and "x \<notin> set (xs @ p # ys)"
  shows "\<exists>q' h'. sq_addafter p x (q, h) = Some (q', h') \<and> sq_repr (q', h') (xs @ p # x # ys) \<and>
    (\<forall>y. y \<notin> set (xs @ p # ys) \<and> y \<noteq> x \<longrightarrow> h' y = h y)"
proof (cases ys)
  case Nil
  with sq_repr_snocD(3) [of q h xs p] assms(1) have "sq_tail q = Some p" by simp
  with sq_addlast_repr [OF assms] Nil show ?thesis by (auto simp del: sq_addlast.simps)
next
  case (Cons y zs)
  have c: "chain h (sq_head q) xs (Some p)" "h p = Some y" "chain h (h y) zs None"
    and dis: "distinct (xs @ p # ys)" and tl: "sq_tail q = Some (last (p # ys))"
    using assms(1) Cons by (auto simp: sq_repr_def chain_append)
  have ne: "sq_head q \<noteq> None"
    using c(1) by (cases xs) auto
  have np: "Some p \<noteq> sq_tail q"
    using tl dis Cons by (metis distinct.simps(2) distinct_append last_ConsR last_in_set list.discI option.inject)
  let ?h = "h(x := h p, p := Some x)"
  have "chain ?h (sq_head q) xs (Some p)" "chain ?h (h y) zs None"
    using c dis assms(2) Cons by (auto simp: chain_frame)
  moreover have "x \<noteq> p" "y \<noteq> x" "y \<noteq> p" using assms(2) dis Cons by auto
  ultimately have "chain ?h (sq_head q) (xs @ p # x # ys) None"
    using Cons c(2) by (auto simp: chain_append)
  then have "sq_repr (q, ?h) (xs @ p # x # ys)"
    using dis tl assms(2) Cons by (auto simp: sq_repr_def)
  with ne np show ?thesis by (auto simp: Let_def)
qed

lemma sq_remfirst_repr_Nil:
  assumes "sq_repr s []"
  shows "sq_remfirst s = (None, s)"
  using assms by (cases s) (auto simp: sq_repr_def)

lemma sq_remfirst_repr:
  assumes "sq_repr (q, h) (x # xs)"
  shows "fst (sq_remfirst (q, h)) = Some x" and "sq_repr (snd (sq_remfirst (q, h))) xs"
    and "y \<noteq> x \<Longrightarrow> snd (snd (sq_remfirst (q, h))) y = h y"
  using assms by (cases xs; auto simp: sq_repr_def chain_frame Let_def)+

lemma sq_remafter_repr:
  assumes "sq_repr (q, h) (xs @ p # x # ys)"
  shows "fst (sq_remafter p (q, h)) = Some x"
    and "sq_repr (snd (sq_remafter p (q, h))) (xs @ p # ys)"
    and "y \<noteq> p \<Longrightarrow> y \<noteq> x \<Longrightarrow> snd (snd (sq_remafter p (q, h))) y = h y"
proof -
  have c: "chain h (sq_head q) xs (Some p)" "h p = Some x" "chain h (h x) ys None"
    and dis: "distinct (xs @ p # x # ys)" and tl: "sq_tail q = Some (last (x # ys))"
    using assms by (auto simp: sq_repr_def chain_append)
  have ne: "sq_head q \<noteq> None"
    using c(1) by (cases xs) auto
  have it: "sq_tail q = Some x \<longleftrightarrow> ys = []"
    using tl dis by (metis distinct.simps(2) distinct_append last_ConsL last_ConsR last_in_set option.inject)
  show "fst (sq_remafter p (q, h)) = Some x"
    using c(2) ne by (simp add: Let_def)
  show "y \<noteq> p \<Longrightarrow> y \<noteq> x \<Longrightarrow> snd (snd (sq_remafter p (q, h))) y = h y"
    using c(2) ne by (simp add: Let_def)
  show "sq_repr (snd (sq_remafter p (q, h))) (xs @ p # ys)"
  proof (cases ys)
    case Nil
    with c dis ne it show ?thesis
      by (auto simp: sq_repr_def chain_append chain_frame Let_def)
  next
    case (Cons y zs)
    with c dis ne it tl show ?thesis
      by (auto simp: sq_repr_def chain_append chain_frame Let_def)
  qed
qed

lemma sq_find_prev_found:
  assumes "chain h p (xs @ a # node # ys) None" and "distinct (xs @ a # node # ys)"
  shows "sq_find_prev h node p = Some (Some a)"
  using assms
proof (induction xs arbitrary: p)
  case Nil
  then show ?case by (auto simp: sq_find_prev.simps)
next
  case (Cons x xs)
  have "h x \<noteq> Some node"
    using Cons.prems by (cases xs) auto
  with Cons show ?case by (auto simp: sq_find_prev.simps [of h node "Some x"])
qed

lemma sq_find_prev_absent:
  assumes "chain h p xs None" and "node \<notin> set (tl xs)"
  shows "sq_find_prev h node p = Some None"
  using assms
proof (induction xs arbitrary: p)
  case Nil
  then show ?case by (simp add: sq_find_prev.simps)
next
  case (Cons x xs)
  have "h x \<noteq> Some node"
    using Cons.prems by (cases xs) auto
  moreover have "node \<notin> set (tl xs)"
    using Cons.prems by (cases xs) auto
  ultimately show ?case
    using Cons by (auto simp: sq_find_prev.simps [of h node "Some x"])
qed

lemma sq_rem_repr:
  assumes "sq_repr (q, h) xs"
  shows "\<exists>q' h'. sq_rem (Some x) (q, h) = Some (q', h') \<and> sq_repr (q', h') (remove1 x xs) \<and>
    (\<forall>y. y \<notin> set xs \<longrightarrow> h' y = h y)"
proof (cases xs)
  case Nil
  with assms show ?thesis by (auto simp: sq_repr_def)
next
  case (Cons z zs)
  show ?thesis
  proof (cases "x = z")
    case True
    moreover have "last zs \<noteq> z" if "zs \<noteq> []"
      using last_in_set [OF that] assms Cons by (auto simp: sq_repr_def)
    ultimately show ?thesis
      using assms Cons by (cases zs) (auto simp: sq_repr_def Let_def)
  next
    case x: False
    show ?thesis
    proof (cases "x \<in> set zs")
      case True
      then obtain as a bs where sp: "xs = as @ a # x # bs"
        using split_list [of x zs] Cons
        by (metis append_Cons append_butlast_last_id append_eq_Cons_conv append_eq_append_conv2 list.discI self_append_conv)
      have dis: "distinct (as @ a # x # bs)"
        using assms sp by (simp add: sq_repr_def)
      have "sq_find_prev h x (sq_head q) = Some (Some a)"
        using sq_find_prev_found [of h "sq_head q" as a x bs] assms sp by (simp add: sq_repr_def)
      moreover have "sq_head q = Some z" using assms Cons by (simp add: sq_repr_def)
      ultimately have "sq_rem (Some x) (q, h) = Some (snd (sq_remafter a (q, h)))"
        using x by (auto simp del: sq_remafter.simps)
      moreover have "remove1 x xs = as @ a # bs"
        using dis sp by (simp add: remove1_append)
      ultimately show ?thesis
        using sq_remafter_repr [of q h as a x bs] assms sp
        by (cases "snd (sq_remafter a (q, h))") (auto simp del: sq_remafter.simps)
    next
      case False
      have "sq_find_prev h x (sq_head q) = Some None"
        using assms Cons False by (intro sq_find_prev_absent [of _ _ xs]) (auto simp: sq_repr_def)
      with assms Cons x False show ?thesis
        by (auto simp: sq_repr_def remove1_idem)
    qed
  qed
qed

lemma sq_remlast_repr:
  assumes "sq_repr (q, h) (xs @ [x])"
  shows "\<exists>q' h'. sq_remlast (q, h) = Some (Some x, (q', h')) \<and> sq_repr (q', h') xs \<and>
    (\<forall>y. y \<notin> set (xs @ [x]) \<longrightarrow> h' y = h y)"
proof (cases xs rule: rev_cases)
  case Nil
  with assms show ?thesis by (auto simp: sq_repr_def)
next
  case (snoc ys a)
  have dis: "distinct (ys @ a # x # [])"
    and c: "chain h (sq_head q) (ys @ a # x # []) None"
    and tl: "sq_tail q = Some x"
    using assms snoc by (auto simp: sq_repr_def)
  have "sq_find_prev h x (sq_head q) = Some (Some a)"
    by (rule sq_find_prev_found [OF c dis])
  moreover have "sq_head q \<noteq> sq_tail q"
    using c dis tl by (cases ys) auto
  ultimately show ?thesis
    using c dis tl snoc by (auto simp: sq_repr_def chain_append chain_frame)
qed

section \<open>The interface and its clients\<close>

text \<open>
  What a client of the queue library relies on: a representation relation and the list meaning of
  the operations it calls. \<open>drain\<close> is the loop of \<open>purge_timers\<close> and of \<open>ts_core_deinitialize\<close>,
  which removes the first node until there is none.
\<close>

partial_function (option) drain :: "('s \<Rightarrow> 'a option \<times> 's) \<Rightarrow> 's \<Rightarrow> ('a list \<times> 's) option" where
  "drain remfirst s =
     (case remfirst s of
        (None, s') \<Rightarrow> Some ([], s')
      | (Some x, s') \<Rightarrow> Option.bind (drain remfirst s') (\<lambda>(xs, s''). Some (x # xs, s'')))"

locale sq_interface =
  fixes repr :: "'s \<Rightarrow> 'a list \<Rightarrow> bool"
    and addlast :: "'a \<Rightarrow> 's \<Rightarrow> 's option"
    and remfirst :: "'s \<Rightarrow> 'a option \<times> 's"
    and rem :: "'a \<Rightarrow> 's \<Rightarrow> 's option"
  assumes addlast_law: "repr s xs \<Longrightarrow> x \<notin> set xs \<Longrightarrow>
      \<exists>s'. addlast x s = Some s' \<and> repr s' (xs @ [x])"
    and remfirst_Nil_law: "repr s [] \<Longrightarrow> fst (remfirst s) = None \<and> repr (snd (remfirst s)) []"
    and remfirst_law: "repr s (x # xs) \<Longrightarrow>
      fst (remfirst s) = Some x \<and> repr (snd (remfirst s)) xs"
    and rem_law: "repr s xs \<Longrightarrow> \<exists>s'. rem x s = Some s' \<and> repr s' (remove1 x xs)"
begin

lemma drain_all:
  assumes "repr s xs"
  shows "\<exists>s'. drain remfirst s = Some (xs, s') \<and> repr s' []"
  using assms
proof (induction xs arbitrary: s)
  case Nil
  then show ?case
    using remfirst_Nil_law by (subst drain.simps) (fastforce split: prod.splits)
next
  case (Cons x xs)
  obtain s1 where s1: "remfirst s = (Some x, s1)" "repr s1 xs"
    using remfirst_law [OF Cons.prems] by (metis prod.collapse)
  from Cons.IH [OF s1(2)] s1(1) show ?case
    by (subst drain.simps) auto
qed

lemma addlast_all:
  assumes "repr s xs" and "distinct (xs @ ys)"
  shows "\<exists>s'. run_steps addlast ys s = Some s' \<and> repr s' (xs @ ys)"
  using assms
proof (induction ys arbitrary: s xs)
  case Nil
  then show ?case by simp
next
  case (Cons y ys)
  then obtain s1 where "addlast y s = Some s1" and "repr s1 (xs @ [y])"
    using addlast_law [of s xs y] by auto
  with Cons.IH [of s1 "xs @ [y]"] Cons.prems(2) show ?case by simp
qed

lemma fifo:
  assumes "repr s []" and "distinct ys"
  shows "\<exists>s' s''. run_steps addlast ys s = Some s' \<and> drain remfirst s' = Some (ys, s'') \<and> repr s'' []"
proof -
  obtain s' where "run_steps addlast ys s = Some s'" and "repr s' ys"
    using addlast_all [OF assms(1)] assms(2) by auto
  with drain_all [of s' ys] show ?thesis by blast
qed

end

interpretation sq: sq_interface sq_repr sq_addlast sq_remfirst "\<lambda>x. sq_rem (Some x)"
proof unfold_locales
  fix s :: "'a sq_state" and xs x
  show "sq_repr s xs \<Longrightarrow> x \<notin> set xs \<Longrightarrow> \<exists>s'. sq_addlast x s = Some s' \<and> sq_repr s' (xs @ [x])"
    using sq_addlast_repr [of "fst s" "snd s" xs x] by (auto simp del: sq_addlast.simps)
  show "sq_repr s [] \<Longrightarrow> fst (sq_remfirst s) = None \<and> sq_repr (snd (sq_remfirst s)) []"
    by (simp add: sq_remfirst_repr_Nil)
  show "sq_repr s (x # xs) \<Longrightarrow> fst (sq_remfirst s) = Some x \<and> sq_repr (snd (sq_remfirst s)) xs"
    using sq_remfirst_repr [of "fst s" "snd s" x xs] by (simp del: sq_remfirst.simps)
  show "sq_repr s xs \<Longrightarrow> \<exists>s'. sq_rem (Some x) s = Some s' \<and> sq_repr s' (remove1 x xs)"
    using sq_rem_repr [of "fst s" "snd s" xs x] by (auto simp del: sq_rem.simps)
qed

end
