(* ===== verification/Ts_Timers.thy ===== *)
theory Ts_Timers
  imports Ts_Time Sq_Queue
begin

text \<open>
  The timer queues of the event loop (\<open>apps/thingsee/lib/ts_core.c\<close>). A timer is an allocated block
  at an address; \<open>tmem\<close> holds the blocks that are allocated, and the three queues (\<open>timers\<close>, sorted
  by expiry, \<open>new_timers\<close> and \<open>done_timers\<close>) are lists of addresses, in the sense of \<open>sq_repr\<close> of
  \<open>Sq_Queue\<close>. The ordered insertion of \<open>ts_core_gc_timers\<close> is also translated on the linked queue
  itself (\<open>gc_insert\<close>), and shown to implement the insertion on lists.

  What the code takes from outside is an argument: the reading of the monotonic clock, the block
  \<open>calloc\<close> returns (\<open>None\<close> when there is no memory) and the heap size \<open>mallinfo\<close> reports.
\<close>

section \<open>State\<close>

type_synonym addr = nat

datatype ts_timer_type_e =
  TS_TIMER_TYPE_DATE | TS_TIMER_TYPE_INTERVAL | TS_TIMER_TYPE_TIMEOUT | TS_TIMER_TYPE_MAX

datatype ts_error = EINVAL | EEXIST | ENOMEM | EBADF | ENOENT | NO_MEMORY

record timer_s =
  t_id :: int
  t_type :: ts_timer_type_e
  t_done :: bool
  date_expires :: timespec
  interval_ms :: u32
  t_callback :: nat
  t_priv :: nat

record timer_queues =
  tmem :: "addr \<rightharpoonup> timer_s"
  timers :: "addr list"
  new_timers :: "addr list"
  done_timers :: "addr list"
  heap_size :: nat

abbreviation INT_MAX :: int where "INT_MAX \<equiv> 2147483647"

abbreviation TS_CORE_FIRST_TIMER_ID :: int where "TS_CORE_FIRST_TIMER_ID \<equiv> 1"

definition timer_at :: "timer_queues \<Rightarrow> addr \<Rightarrow> timer_s" where
  "timer_at q a = the (tmem q a)"

definition expires :: "timer_queues \<Rightarrow> addr \<Rightarrow> timespec" where
  "expires q a = date_expires (timer_at q a)"

section \<open>Operations\<close>

definition purge_timers :: "addr list \<Rightarrow> (addr \<rightharpoonup> timer_s) \<Rightarrow> (addr \<rightharpoonup> timer_s)" where
  "purge_timers queue mem = foldl (\<lambda>m a. m(a := None)) mem queue"

definition ts_core_get_timer_id :: "nat \<Rightarrow> addr \<Rightarrow> timer_queues \<Rightarrow> (int \<times> timer_queues) option" where
  "ts_core_get_timer_id arena new_timer q =
     (let first = heap_size q = 0;
          q = (if first then q\<lparr>heap_size := arena\<rparr> else q)
      in if first \<and> \<not> (0 < heap_size q \<and> int (heap_size q) < INT_MAX) then None
         else Some (int (new_timer mod heap_size q) + TS_CORE_FIRST_TIMER_ID, q))"

text \<open>Ordered insertion, first on the linked queue as the code does it, then on lists.\<close>

partial_function (option) gc_walk ::
  "(addr \<Rightarrow> timespec) \<Rightarrow> timespec \<Rightarrow> addr \<Rightarrow> addr sq_state \<Rightarrow> addr option" where
  "gc_walk key e active s =
     (let prev = active in
      case sq_next prev s of
        None \<Rightarrow> Some prev
      | Some active \<Rightarrow> if timespec_cmp e (key active) < 0 then Some prev else gc_walk key e active s)"

definition gc_insert :: "(addr \<Rightarrow> timespec) \<Rightarrow> addr \<Rightarrow> addr sq_state \<Rightarrow> addr sq_state option" where
  "gc_insert key new_timer s =
     (case sq_peek s of
        None \<Rightarrow> Some (sq_addfirst new_timer s)
      | Some active \<Rightarrow>
          if timespec_cmp (key new_timer) (key active) < 0 then Some (sq_addfirst new_timer s)
          else Option.bind (gc_walk key (key new_timer) active s) (\<lambda>prev. sq_addafter prev new_timer s))"

fun insert_timer :: "(addr \<Rightarrow> timespec) \<Rightarrow> addr \<Rightarrow> addr list \<Rightarrow> addr list" where
  "insert_timer key a [] = [a]"
| "insert_timer key a (x # xs) =
     (if timespec_cmp (key a) (key x) < 0 then a # x # xs else x # insert_timer key a xs)"

definition ts_core_gc_timers :: "timer_queues \<Rightarrow> timer_queues" where
  "ts_core_gc_timers q =
     q\<lparr>timers := foldl (\<lambda>active a. insert_timer (expires q) a active) (timers q) (new_timers q),
       new_timers := [],
       tmem := purge_timers (done_timers q) (tmem q),
       done_timers := []\<rparr>"

definition ts_core_timer_get_timeout :: "timespec \<Rightarrow> timer_queues \<Rightarrow> int" where
  "ts_core_timer_get_timeout curr_ts q =
     (case timers q of
        [] \<Rightarrow> -1
      | timer # _ \<Rightarrow>
          (let curr_msec = timespec_to_msec curr_ts;
               timer_msec = timespec_to_msec (expires q timer)
           in if timer_msec \<le> curr_msec then 0
              else if timer_msec - curr_msec \<le> INT_MAX then timer_msec - curr_msec
              else INT_MAX))"

text \<open>
  \<open>__ts_core_timer_setup\<close>: \<open>date\<close> and \<open>timeout_ms\<close> are the memory at \<open>timeval\<close> read as the type of
  timer demands; \<open>now\<close> is the clock reading, \<open>block\<close> the result of \<open>calloc\<close>.
\<close>

definition timer_setup_fields ::
  "ts_timer_type_e \<Rightarrow> timespec \<Rightarrow> u32 \<Rightarrow> timespec \<Rightarrow> int \<Rightarrow> nat \<Rightarrow> nat \<Rightarrow> timer_s" where
  "timer_setup_fields type date timeout_ms now tid callback priv =
     (if type = TS_TIMER_TYPE_DATE
      then \<lparr>t_id = tid, t_type = type, t_done = False, date_expires = date, interval_ms = 0,
            t_callback = callback, t_priv = priv\<rparr>
      else \<lparr>t_id = tid, t_type = type, t_done = False,
            date_expires = timespec_add_msec now timeout_ms, interval_ms = timeout_ms,
            t_callback = callback, t_priv = priv\<rparr>)"

definition timer_setup_internal ::
  "ts_timer_type_e \<Rightarrow> timespec \<Rightarrow> u32 \<Rightarrow> nat option \<Rightarrow> nat \<Rightarrow> timespec \<Rightarrow> addr option \<Rightarrow> nat \<Rightarrow>
   timer_queues \<Rightarrow> ((ts_error + int) \<times> timer_queues) option" where
  "timer_setup_internal type date timeout_ms callback priv now block arena q =
     (if type = TS_TIMER_TYPE_MAX then Some (Inl EINVAL, q)
      else
        (case callback of
           None \<Rightarrow> Some (Inl EINVAL, q)
         | Some cb \<Rightarrow>
             (case block of
                None \<Rightarrow> Some (Inl NO_MEMORY, q)
              | Some timer \<Rightarrow>
                  (case ts_core_get_timer_id arena timer q of
                     None \<Rightarrow> None
                   | Some (tid, q) \<Rightarrow>
                       Some (Inr tid,
                         q\<lparr>tmem := (tmem q)(timer \<mapsto>
                             timer_setup_fields type date timeout_ms now tid cb priv),
                           new_timers := new_timers q @ [timer]\<rparr>)))))"

definition ts_core_timer_setup ::
  "ts_timer_type_e \<Rightarrow> u32 \<Rightarrow> nat option \<Rightarrow> nat \<Rightarrow> timespec \<Rightarrow> addr option \<Rightarrow> nat \<Rightarrow>
   timer_queues \<Rightarrow> ((ts_error + int) \<times> timer_queues) option" where
  "ts_core_timer_setup type timeout_ms callback priv now block arena q =
     (if type = TS_TIMER_TYPE_DATE then Some (Inl EINVAL, q)
      else timer_setup_internal type now timeout_ms callback priv now block arena q)"

definition ts_core_timer_setup_date ::
  "timespec \<Rightarrow> nat option \<Rightarrow> nat \<Rightarrow> timespec \<Rightarrow> addr option \<Rightarrow> nat \<Rightarrow>
   timer_queues \<Rightarrow> ((ts_error + int) \<times> timer_queues) option" where
  "ts_core_timer_setup_date date callback priv now block arena q =
     timer_setup_internal TS_TIMER_TYPE_DATE date 0 callback priv now block arena q"

text \<open>The search loop of \<open>__ts_core_timer_stop\<close> over one queue: the timer and the queue without it.\<close>

fun take_timer :: "(addr \<Rightarrow> int) \<Rightarrow> int \<Rightarrow> addr list \<Rightarrow> (addr \<times> addr list) option" where
  "take_timer ids timer_id [] = None"
| "take_timer ids timer_id (timer # rest) =
     (if ids timer = timer_id then Some (timer, rest)
      else map_option (\<lambda>(t, r). (t, timer # r)) (take_timer ids timer_id rest))"

definition retire_timer :: "addr \<Rightarrow> timer_queues \<Rightarrow> timer_queues" where
  "retire_timer timer q =
     q\<lparr>done_timers := done_timers q @ [timer],
       tmem := (tmem q)(timer \<mapsto> (timer_at q timer)\<lparr>t_done := True\<rparr>)\<rparr>"

definition ts_core_timer_stop :: "int \<Rightarrow> timer_queues \<Rightarrow> (ts_error + unit) \<times> timer_queues" where
  "ts_core_timer_stop timer_id q =
     (if timer_id < 0 then (Inl EINVAL, q)
      else
        (case take_timer (\<lambda>a. t_id (timer_at q a)) timer_id (timers q) of
           Some (timer, rest) \<Rightarrow> (Inr (), retire_timer timer (q\<lparr>timers := rest\<rparr>))
         | None \<Rightarrow>
             (case take_timer (\<lambda>a. t_id (timer_at q a)) timer_id (new_timers q) of
                Some (timer, rest) \<Rightarrow> (Inr (), retire_timer timer (q\<lparr>new_timers := rest\<rparr>))
              | None \<Rightarrow> (Inl EINVAL, q))))"

definition timers_initialize :: "timer_queues \<Rightarrow> timer_queues" where
  "timers_initialize q = q\<lparr>timers := [], new_timers := [], done_timers := []\<rparr>"

definition timers_deinitialize :: "timer_queues \<Rightarrow> timer_queues" where
  "timers_deinitialize q =
     q\<lparr>tmem := purge_timers (done_timers q) (purge_timers (new_timers q) (purge_timers (timers q) (tmem q))),
       timers := [], new_timers := [], done_timers := []\<rparr>"

section \<open>Ordered insertion\<close>

abbreviation in_order :: "(addr \<Rightarrow> timespec) \<Rightarrow> addr list \<Rightarrow> bool" where
  "in_order key \<equiv> sorted_wrt (\<lambda>a b. ns_of (key a) \<le> ns_of (key b))"

lemma mset_insert_timer: "mset (insert_timer key a xs) = add_mset a (mset xs)"
  by (induction xs) auto

lemma set_insert_timer [simp]: "set (insert_timer key a xs) = insert a (set xs)"
  by (induction xs) auto

lemma distinct_insert_timer [simp]: "distinct (insert_timer key a xs) \<longleftrightarrow> a \<notin> set xs \<and> distinct xs"
  by (induction xs) auto

lemma in_order_insert_timer:
  assumes "in_order key xs"
  shows "in_order key (insert_timer key a xs)"
  using assms by (induction xs) (auto simp: timespec_cmp_less)

lemma insert_timer_append:
  assumes "\<And>x. x \<in> set xs \<Longrightarrow> \<not> timespec_cmp (key a) (key x) < 0"
  shows "insert_timer key a (xs @ ys) = xs @ insert_timer key a ys"
  using assms by (induction xs) auto

lemma gc_walk_repr:
  assumes "sq_repr s (xs @ p # ys)"
  shows "\<exists>us b vs. gc_walk key e p s = Some b \<and> p # ys = us @ b # vs \<and>
    (\<forall>y \<in> set (tl (us @ [b])). \<not> timespec_cmp e (key y) < 0) \<and>
    (case vs of [] \<Rightarrow> True | v # _ \<Rightarrow> timespec_cmp e (key v) < 0)"
  using assms
proof (induction ys arbitrary: xs p)
  case Nil
  have "gc_walk key e p s = Some p"
    using sq_next_repr [OF Nil.prems] by (simp add: gc_walk.simps [of key e p s])
  then show ?case by (intro exI [of _ "[]"] exI [of _ p]) simp
next
  case (Cons y ys)
  have nx: "sq_next p s = Some y"
    using sq_next_repr [OF Cons.prems] by simp
  show ?case
  proof (cases "timespec_cmp e (key y) < 0")
    case True
    with nx have "gc_walk key e p s = Some p"
      by (simp add: gc_walk.simps [of key e p s])
    with True show ?thesis
      by (intro exI [of _ "[]"] exI [of _ p] exI [of _ "y # ys"]) simp
  next
    case False
    with nx have w: "gc_walk key e p s = gc_walk key e y s"
      by (simp add: gc_walk.simps [of key e p s])
    obtain us b vs where ih: "gc_walk key e y s = Some b" "y # ys = us @ b # vs"
      "\<forall>z \<in> set (tl (us @ [b])). \<not> timespec_cmp e (key z) < 0"
      "case vs of [] \<Rightarrow> True | v # _ \<Rightarrow> timespec_cmp e (key v) < 0"
      using Cons.IH [of "xs @ [p]" y] Cons.prems by auto
    have "\<forall>z \<in> set (us @ [b]). \<not> timespec_cmp e (key z) < 0"
      using ih(2,3) False by (cases us) auto
    with ih w show ?thesis
      by (intro exI [of _ "p # us"] exI [of _ b] exI [of _ vs]) auto
  qed
qed

lemma gc_insert_repr:
  assumes "sq_repr s xs" and "a \<notin> set xs"
  shows "\<exists>s'. gc_insert key a s = Some s' \<and> sq_repr s' (insert_timer key a xs)"
proof (cases xs)
  case Nil
  with sq_addfirst_repr(1) [of "fst s" "snd s" xs a] sq_peek_repr [OF assms(1)] assms show ?thesis
    by (simp add: gc_insert_def del: sq_addfirst.simps)
next
  case (Cons p ys)
  have pk: "sq_peek s = Some p" using sq_peek_repr [OF assms(1)] Cons by simp
  show ?thesis
  proof (cases "timespec_cmp (key a) (key p) < 0")
    case True
    with pk sq_addfirst_repr(1) [of "fst s" "snd s" xs a] assms Cons show ?thesis
      by (simp add: gc_insert_def del: sq_addfirst.simps)
  next
    case False
    obtain us b vs where w: "gc_walk key (key a) p s = Some b" "xs = us @ b # vs"
      "\<forall>y \<in> set (tl (us @ [b])). \<not> timespec_cmp (key a) (key y) < 0"
      "case vs of [] \<Rightarrow> True | v # _ \<Rightarrow> timespec_cmp (key a) (key v) < 0"
      using gc_walk_repr [of s "[]" p ys key "key a"] assms(1) Cons by auto
    have "insert_timer key a ((us @ [b]) @ vs) = (us @ [b]) @ insert_timer key a vs"
      using w(2,3) False Cons by (intro insert_timer_append) (cases us; auto)
    also have "insert_timer key a vs = a # vs"
      using w(4) by (cases vs) auto
    finally have "insert_timer key a xs = us @ b # a # vs" using w(2) by simp
    moreover obtain s' where "sq_addafter b a s = Some s'" "sq_repr s' (us @ b # a # vs)"
      using sq_addafter_repr [of "fst s" "snd s" us b vs a] assms w(2)
      by (auto simp del: sq_addafter.simps)
    ultimately show ?thesis
      using pk False w(1) by (simp add: gc_insert_def del: sq_addafter.simps)
  qed
qed

lemma gc_insert_all_repr:
  assumes "sq_repr s xs" and "distinct (xs @ as)"
  shows "\<exists>s'. run_steps (gc_insert key) as s = Some s' \<and>
    sq_repr s' (foldl (\<lambda>active a. insert_timer key a active) xs as)"
  using assms
proof (induction as arbitrary: s xs)
  case Nil
  then show ?case by simp
next
  case (Cons a as)
  then obtain s1 where "gc_insert key a s = Some s1" "sq_repr s1 (insert_timer key a xs)"
    using gc_insert_repr [of s xs a key] by auto
  with Cons.IH [of s1 "insert_timer key a xs"] Cons.prems(2) show ?case by auto
qed

section \<open>The invariant of the queues\<close>

definition queued :: "timer_queues \<Rightarrow> addr list" where
  "queued q = timers q @ new_timers q @ done_timers q"

definition timer_ok :: "timer_queues \<Rightarrow> addr \<Rightarrow> bool" where
  "timer_ok q a \<longleftrightarrow>
     t_type (timer_at q a) \<noteq> TS_TIMER_TYPE_MAX \<and>
     t_id (timer_at q a) = int (a mod heap_size q) + TS_CORE_FIRST_TIMER_ID \<and>
     (t_done (timer_at q a) \<longleftrightarrow> a \<in> set (done_timers q))"

definition tq_inv :: "timer_queues \<Rightarrow> bool" where
  "tq_inv q \<longleftrightarrow>
     distinct (queued q) \<and> dom (tmem q) = set (queued q) \<and>
     in_order (expires q) (timers q) \<and> (\<forall>a \<in> set (queued q). timer_ok q a) \<and>
     (heap_size q = 0 \<longrightarrow> queued q = [])"

definition armed :: "timer_queues \<Rightarrow> addr set" where
  "armed q = set (timers q) \<union> set (new_timers q)"

lemma tq_invI:
  assumes "distinct (queued q)" and "dom (tmem q) = set (queued q)"
    and "in_order (expires q) (timers q)" and "\<And>a. a \<in> set (queued q) \<Longrightarrow> timer_ok q a"
    and "heap_size q = 0 \<Longrightarrow> queued q = []"
  shows "tq_inv q"
  using assms by (auto simp: tq_inv_def)

lemma in_order_cong:
  assumes "\<And>a. a \<in> set xs \<Longrightarrow> key a = key' a"
  shows "in_order key xs = in_order key' xs"
  using assms by (intro sorted_wrt_cong_set) auto

lemma in_order_key_update:
  assumes "a \<notin> set xs"
  shows "in_order (\<lambda>b. if b = a then k else key b) xs = in_order key xs"
  using assms by (intro in_order_cong) auto

lemma purge_timers_apply: "purge_timers as m b = (if b \<in> set as then None else m b)"
  unfolding purge_timers_def by (induction as arbitrary: m) auto

lemma timers_initial_inv: "tq_inv \<lparr>tmem = Map.empty, timers = [], new_timers = [], done_timers = [], heap_size = h\<rparr>"
  by (simp add: tq_inv_def queued_def)

lemma timers_deinitialize_inv:
  assumes "tq_inv q"
  shows "tq_inv (timers_deinitialize q)" and "tmem (timers_deinitialize q) = Map.empty"
proof -
  have dq: "dom (tmem q) = set (queued q)" using assms by (simp add: tq_inv_def)
  show e: "tmem (timers_deinitialize q) = Map.empty"
  proof
    fix b
    show "tmem (timers_deinitialize q) b = None"
    proof (cases "b \<in> set (queued q)")
      case True
      then show ?thesis by (auto simp: timers_deinitialize_def purge_timers_apply queued_def)
    next
      case False
      with dq have "tmem q b = None" by blast
      then show ?thesis by (simp add: timers_deinitialize_def purge_timers_apply)
    qed
  qed
  from e show "tq_inv (timers_deinitialize q)"
    by (simp add: tq_inv_def queued_def timers_deinitialize_def)
qed

subsection \<open>Insertion and garbage collection\<close>

lemma foldl_insert_timer:
  "mset (foldl (\<lambda>active a. insert_timer key a active) xs as) = mset xs + mset as"
  "in_order key xs \<Longrightarrow> in_order key (foldl (\<lambda>active a. insert_timer key a active) xs as)"
  by (induction as arbitrary: xs) (auto simp: mset_insert_timer in_order_insert_timer)

lemma ts_core_gc_timers_mset: "mset (timers (ts_core_gc_timers q)) = mset (timers q) + mset (new_timers q)"
  by (simp add: ts_core_gc_timers_def foldl_insert_timer)

lemma ts_core_gc_timers_set: "set (timers (ts_core_gc_timers q)) = armed q"
  using ts_core_gc_timers_mset [of q] by (metis armed_def set_mset_mset set_mset_union)

lemma ts_core_gc_timers_queues [simp]:
  "new_timers (ts_core_gc_timers q) = []" "done_timers (ts_core_gc_timers q) = []"
  "heap_size (ts_core_gc_timers q) = heap_size q"
  by (simp_all add: ts_core_gc_timers_def)

lemma ts_core_gc_timers_at:
  assumes "tq_inv q" and "a \<in> armed q"
  shows "tmem (ts_core_gc_timers q) a = tmem q a" and "timer_at (ts_core_gc_timers q) a = timer_at q a"
proof -
  have "a \<notin> set (done_timers q)"
    using assms by (auto simp: tq_inv_def queued_def armed_def)
  then show "tmem (ts_core_gc_timers q) a = tmem q a"
    by (simp add: ts_core_gc_timers_def purge_timers_apply)
  then show "timer_at (ts_core_gc_timers q) a = timer_at q a"
    by (simp add: timer_at_def)
qed

lemma ts_core_gc_timers_inv:
  assumes "tq_inv q"
  shows "tq_inv (ts_core_gc_timers q)"
proof -
  let ?q = "ts_core_gc_timers q"
  have m: "mset (queued ?q) = mset (timers q) + mset (new_timers q)"
    by (simp add: queued_def ts_core_gc_timers_mset)
  have d: "distinct (timers q @ new_timers q)" and dd: "set (done_timers q) \<inter> armed q = {}"
    using assms by (auto simp: tq_inv_def queued_def armed_def)
  have sq: "set (queued ?q) = armed q"
    by (simp add: queued_def ts_core_gc_timers_set)
  show ?thesis
  proof (rule tq_invI)
    show "distinct (queued ?q)"
      using d m by (metis mset_append mset_eq_imp_distinct_iff)
    have "dom (tmem ?q) = dom (tmem q) - set (done_timers q)"
      by (auto simp: ts_core_gc_timers_def purge_timers_apply dom_def split: if_splits)
    also have "\<dots> = armed q"
      using assms dd by (auto simp: tq_inv_def queued_def armed_def)
    finally show "dom (tmem ?q) = set (queued ?q)" by (simp add: sq)
    have "in_order (expires q) (timers ?q)"
      using assms by (simp add: ts_core_gc_timers_def foldl_insert_timer(2) tq_inv_def)
    moreover have "expires ?q a = expires q a" if "a \<in> set (timers ?q)" for a
      using that ts_core_gc_timers_at(2) [OF assms] by (simp add: expires_def ts_core_gc_timers_set)
    ultimately show "in_order (expires ?q) (timers ?q)"
      using in_order_cong by blast
    fix a assume "a \<in> set (queued ?q)"
    then have "a \<in> armed q" by (simp add: sq)
    with assms dd ts_core_gc_timers_at(2) [OF assms] show "timer_ok ?q a"
      by (auto simp: timer_ok_def tq_inv_def queued_def armed_def)
  next
    assume "heap_size ?q = 0"
    with assms have "queued q = []" by (simp add: tq_inv_def)
    then show "queued ?q = []" using m by (simp add: queued_def)
  qed
qed

subsection \<open>Setting up and stopping\<close>

lemma timer_setup_internal_cases:
  assumes "timer_setup_internal type date ms callback priv now block arena q = Some (r, q')"
  shows "(\<exists>e. r = Inl e \<and> q' = q) \<or>
    (\<exists>cb a tid. callback = Some cb \<and> block = Some a \<and> type \<noteq> TS_TIMER_TYPE_MAX \<and> r = Inr tid \<and>
      0 < heap_size q' \<and> heap_size q' = (if heap_size q = 0 then arena else heap_size q) \<and>
      tid = int (a mod heap_size q') + TS_CORE_FIRST_TIMER_ID \<and>
      q' = q\<lparr>heap_size := heap_size q',
             tmem := (tmem q)(a \<mapsto> timer_setup_fields type date ms now tid cb priv),
             new_timers := new_timers q @ [a]\<rparr>)"
  using assms
  by (auto simp: timer_setup_internal_def ts_core_get_timer_id_def Let_def split: if_splits option.splits)

lemma timer_setup_fields_simps [simp]:
  "t_id (timer_setup_fields type date ms now tid cb priv) = tid"
  "t_type (timer_setup_fields type date ms now tid cb priv) = type"
  "t_done (timer_setup_fields type date ms now tid cb priv) = False"
  by (simp_all add: timer_setup_fields_def)

lemma timer_setup_internal_inv:
  assumes "tq_inv q" and "\<And>a. block = Some a \<Longrightarrow> a \<notin> dom (tmem q)"
    and "timer_setup_internal type date ms callback priv now block arena q = Some (r, q')"
  shows "tq_inv q'"
proof (cases "q' = q")
  case True
  with assms show ?thesis by simp
next
  case False
  then obtain cb a tid where c: "block = Some a" "type \<noteq> TS_TIMER_TYPE_MAX" "0 < heap_size q'"
    "heap_size q' = (if heap_size q = 0 then arena else heap_size q)"
    "tid = int (a mod heap_size q') + TS_CORE_FIRST_TIMER_ID"
    and q': "q' = q\<lparr>heap_size := heap_size q',
      tmem := (tmem q)(a \<mapsto> timer_setup_fields type date ms now tid cb priv),
      new_timers := new_timers q @ [a]\<rparr>"
    using timer_setup_internal_cases [OF assms(3)] by blast
  have a: "a \<notin> set (queued q)" using assms(1,2) c(1) by (auto simp: tq_inv_def)
  have at: "timer_at q' b = (if b = a then timer_setup_fields type date ms now tid cb priv else timer_at q b)" for b
    by (subst q') (simp add: timer_at_def)
  have qs: "timers q' = timers q" "new_timers q' = new_timers q @ [a]" "done_timers q' = done_timers q"
    by (subst q', simp)+
  show ?thesis
  proof (rule tq_invI)
    show "distinct (queued q')"
      using a assms(1) by (auto simp: queued_def qs tq_inv_def)
    show "dom (tmem q') = set (queued q')"
      using assms(1) by (subst q') (auto simp: queued_def qs tq_inv_def)
    have "in_order (expires q) (timers q)" using assms(1) by (simp add: tq_inv_def)
    moreover have "expires q' b = expires q b" if "b \<in> set (timers q)" for b
      using that a by (auto simp: expires_def at queued_def)
    ultimately show "in_order (expires q') (timers q')"
      using in_order_cong qs(1) by metis
    fix b assume b: "b \<in> set (queued q')"
    show "timer_ok q' b"
    proof (cases "b = a")
      case True
      with a c show ?thesis by (auto simp: timer_ok_def at qs queued_def)
    next
      case False
      with b have "b \<in> set (queued q)" by (auto simp: queued_def qs)
      moreover then have "heap_size q' = heap_size q" using assms(1) c(4) by (auto simp: tq_inv_def)
      ultimately show ?thesis using assms(1) False by (auto simp: timer_ok_def at qs tq_inv_def)
    qed
  qed (use c(3) in simp)
qed

lemma timer_setup_internal_total:
  assumes "0 < arena" and "int arena < INT_MAX"
  shows "\<exists>r q'. timer_setup_internal type date ms callback priv now block arena q = Some (r, q')"
  using assms
  by (auto simp: timer_setup_internal_def ts_core_get_timer_id_def Let_def split: option.splits)

lemma take_timer_Some:
  assumes "take_timer ids i xs = Some (a, ys)"
  shows "a \<in> set xs \<and> ids a = i \<and> (\<exists>us vs. xs = us @ a # vs \<and> ys = us @ vs \<and> (\<forall>u \<in> set us. ids u \<noteq> i))"
  using assms
proof (induction xs arbitrary: ys)
  case Nil
  then show ?case by simp
next
  case (Cons x xs)
  show ?case
  proof (cases "ids x = i")
    case True
    with Cons.prems have "a = x" "ys = xs" by auto
    with True show ?thesis by (intro conjI exI [of _ "[]"] exI [of _ xs]) auto
  next
    case False
    with Cons.prems obtain zs where z: "take_timer ids i xs = Some (a, zs)" "ys = x # zs"
      by (auto split: option.splits)
    with Cons.IH obtain us vs where "xs = us @ a # vs" "zs = us @ vs" "\<forall>u \<in> set us. ids u \<noteq> i" "ids a = i"
      by blast
    with z(2) False show ?thesis by (intro conjI exI [of _ "x # us"] exI [of _ vs]) auto
  qed
qed

lemma take_timer_None: "take_timer ids i xs = None \<longleftrightarrow> (\<forall>a \<in> set xs. ids a \<noteq> i)"
  by (induction xs) auto

lemma retire_timer_inv:
  assumes inv: "tq_inv q"
    and split: "timers q = us @ a # ws \<and> ts' = us @ ws \<and> ns' = new_timers q \<or>
      timers q = ts' \<and> new_timers q = us @ a # ws \<and> ns' = us @ ws"
  shows "tq_inv (retire_timer a (q\<lparr>timers := ts', new_timers := ns'\<rparr>))"
proof -
  let ?q = "retire_timer a (q\<lparr>timers := ts', new_timers := ns'\<rparr>)"
  have s: "set (queued ?q) = set (queued q)" "distinct (queued ?q)" "a \<in> set (queued q)"
    "a \<notin> set ts'" "set ts' \<subseteq> set (queued q)"
    using inv split by (auto simp: queued_def retire_timer_def tq_inv_def)
  have at: "timer_at ?q b = (if b = a then (timer_at q a)\<lparr>t_done := True\<rparr> else timer_at q b)" for b
    by (simp add: retire_timer_def timer_at_def)
  have hs: "heap_size ?q = heap_size q" "done_timers ?q = done_timers q @ [a]" "timers ?q = ts'"
    by (simp_all add: retire_timer_def)
  show ?thesis
  proof (rule tq_invI)
    show "dom (tmem ?q) = set (queued ?q)"
      using inv s(1,3) unfolding tq_inv_def by (auto simp: retire_timer_def)
    have "in_order (expires q) ts'"
      using inv split by (auto simp: tq_inv_def sorted_wrt_append)
    moreover have "expires ?q b = expires q b" if "b \<in> set ts'" for b
      using that s(4) by (auto simp: expires_def at)
    ultimately show "in_order (expires ?q) (timers ?q)"
      unfolding hs using in_order_cong by blast
    fix b assume "b \<in> set (queued ?q)"
    then have "timer_ok q b" using inv s(1) by (simp add: tq_inv_def)
    then show "timer_ok ?q b" by (auto simp: timer_ok_def at hs)
  next
    assume "heap_size ?q = 0"
    then have "queued q = []" using inv by (simp add: tq_inv_def hs)
    then show "queued ?q = []" using s(1) by simp
  qed (fact s(2))
qed

lemma ts_core_timer_stop_cases:
  assumes "ts_core_timer_stop i q = (r, q')"
  obtains (error) "r = Inl EINVAL" "q' = q" "i < 0 \<or> (\<forall>a \<in> armed q. t_id (timer_at q a) \<noteq> i)"
  | (active) a us ws where "r = Inr ()" "timers q = us @ a # ws" "t_id (timer_at q a) = i"
      "q' = retire_timer a (q\<lparr>timers := us @ ws, new_timers := new_timers q\<rparr>)"
  | (pending) a us ws where "r = Inr ()" "new_timers q = us @ a # ws" "t_id (timer_at q a) = i"
      "q' = retire_timer a (q\<lparr>timers := timers q, new_timers := us @ ws\<rparr>)"
proof (cases "i < 0")
  case True
  with assms error show ?thesis by (simp add: ts_core_timer_stop_def)
next
  case False
  let ?ids = "\<lambda>a. t_id (timer_at q a)"
  show ?thesis
  proof (cases "take_timer ?ids i (timers q)")
    case (Some p)
    with False assms take_timer_Some [of ?ids i "timers q" "fst p" "snd p"] active show ?thesis
      by (auto simp: ts_core_timer_stop_def split: prod.splits)
  next
    case t: None
    show ?thesis
    proof (cases "take_timer ?ids i (new_timers q)")
      case (Some p)
      with False t assms take_timer_Some [of ?ids i "new_timers q" "fst p" "snd p"] pending show ?thesis
        by (auto simp: ts_core_timer_stop_def split: prod.splits)
    next
      case None
      with False t assms have "r = Inl EINVAL" "q' = q" by (simp_all add: ts_core_timer_stop_def)
      with t None error show ?thesis by (auto simp: take_timer_None armed_def)
    qed
  qed
qed

lemma ts_core_timer_stop_inv:
  assumes "tq_inv q" and "ts_core_timer_stop i q = (r, q')"
  shows "tq_inv q'"
  using assms(2)
proof (cases rule: ts_core_timer_stop_cases)
  case error
  with assms(1) show ?thesis by simp
next
  case (active a us ws)
  have "tq_inv (retire_timer a (q\<lparr>timers := us @ ws, new_timers := new_timers q\<rparr>))"
    using active(2) by (intro retire_timer_inv [OF assms(1), of us _ ws]) simp
  with active(4) show ?thesis by simp
next
  case (pending a us ws)
  have "tq_inv (retire_timer a (q\<lparr>timers := timers q, new_timers := us @ ws\<rparr>))"
    using pending(2) by (intro retire_timer_inv [OF assms(1), of us _ ws]) simp
  with pending(4) show ?thesis by simp
qed

subsection \<open>Identifiers\<close>

text \<open>
  The identifier of a timer is its address modulo the heap size. Identifiers of different timers
  differ when the blocks lie in one heap region, no longer than the reported size.
\<close>

definition in_arena :: "addr \<Rightarrow> timer_queues \<Rightarrow> bool" where
  "in_arena base q \<longleftrightarrow> (\<forall>a \<in> dom (tmem q). base \<le> a \<and> a < base + heap_size q)"

lemma mod_eq_close:
  fixes a b h :: nat
  assumes "base \<le> a" "a < base + h" "base \<le> b" "b < base + h" "a mod h = b mod h"
  shows "a = b"
proof -
  have "x = y" if "x \<le> y" "y < x + h" "x mod h = y mod h" for x y :: nat
  proof -
    have "h dvd y - x" using that mod_eq_dvd_iff_nat [of x y h] by simp
    moreover have "y - x < h" using that by simp
    ultimately have "\<not> 0 < y - x" using nat_dvd_not_less by blast
    with that(1) show ?thesis by simp
  qed
  from this [of a b] this [of b a] assms show ?thesis by linarith
qed

lemma timer_ids_distinct:
  assumes "tq_inv q" and "in_arena base q" and "a \<in> set (queued q)" and "b \<in> set (queued q)"
    and "t_id (timer_at q a) = t_id (timer_at q b)"
  shows "a = b"
proof -
  have "a \<in> dom (tmem q)" "b \<in> dom (tmem q)" using assms(1,3,4) by (simp_all add: tq_inv_def)
  then have "base \<le> a" "a < base + heap_size q" "base \<le> b" "b < base + heap_size q"
    using assms(2) by (simp_all add: in_arena_def)
  moreover have "a mod heap_size q = b mod heap_size q"
    using assms(1,3-5) by (simp add: tq_inv_def timer_ok_def)
  ultimately show ?thesis by (rule mod_eq_close)
qed

lemma timer_id_positive:
  assumes "tq_inv q" and "a \<in> set (queued q)"
  shows "TS_CORE_FIRST_TIMER_ID \<le> t_id (timer_at q a)"
  using assms by (simp add: tq_inv_def timer_ok_def)

lemma retire_timer_simps [simp]:
  "timers (retire_timer a q) = timers q" "new_timers (retire_timer a q) = new_timers q"
  "done_timers (retire_timer a q) = done_timers q @ [a]" "heap_size (retire_timer a q) = heap_size q"
  "b \<noteq> a \<Longrightarrow> timer_at (retire_timer a q) b = timer_at q b"
  by (simp_all add: retire_timer_def timer_at_def)

lemma timer_at_queue_update [simp]:
  "timer_at (q\<lparr>timers := ts\<rparr>) b = timer_at q b" "timer_at (q\<lparr>new_timers := ns\<rparr>) b = timer_at q b"
  by (simp_all add: timer_at_def)

lemma ts_core_timer_stop_armed:
  assumes "tq_inv q" and "in_arena base q" and "a \<in> armed q"
  shows "\<exists>q'. ts_core_timer_stop (t_id (timer_at q a)) q = (Inr (), q') \<and>
    armed q' = armed q - {a} \<and> done_timers q' = done_timers q @ [a] \<and>
    (\<forall>b. b \<noteq> a \<longrightarrow> timer_at q' b = timer_at q b)"
proof -
  let ?i = "t_id (timer_at q a)"
  obtain r q' where st: "ts_core_timer_stop ?i q = (r, q')" by (cases "ts_core_timer_stop ?i q")
  have aq: "a \<in> set (queued q)" using assms(3) by (auto simp: armed_def queued_def)
  have same: "b = a" if "b \<in> armed q" "t_id (timer_at q b) = ?i" for b
    using timer_ids_distinct [OF assms(1,2), of b a] that aq by (auto simp: armed_def queued_def)
  have dist: "distinct (timers q @ new_timers q)" using assms(1) by (auto simp: tq_inv_def queued_def)
  from st show ?thesis
  proof (cases rule: ts_core_timer_stop_cases)
    case error
    with assms(3) timer_id_positive [OF assms(1) aq] show ?thesis by auto
  next
    case (active b us ws)
    then have "b = a" using same by (auto simp: armed_def)
    with active st dist show ?thesis by (auto simp: armed_def)
  next
    case (pending b us ws)
    then have "b = a" using same by (auto simp: armed_def)
    with pending st dist show ?thesis by (auto simp: armed_def)
  qed
qed

subsection \<open>The time to the next timer\<close>

lemma in_order_head_msec:
  assumes "tq_inv q" and "timers q = a # as" and "b \<in> set (timers q)"
    and "\<forall>c \<in> set (timers q). normal_ts (expires q c)"
  shows "timespec_to_msec (expires q a) \<le> timespec_to_msec (expires q b)"
proof (cases "b = a")
  case False
  then have "ns_of (expires q a) \<le> ns_of (expires q b)"
    using assms(1-3) by (auto simp: tq_inv_def)
  then show ?thesis using assms(2-4) by (intro timespec_to_msec_mono) auto
qed simp

lemma get_timeout_no_timers: "ts_core_timer_get_timeout now q = -1 \<longleftrightarrow> timers q = []"
  by (auto simp: ts_core_timer_get_timeout_def Let_def split: list.splits)

lemma get_timeout_range:
  assumes "timers q \<noteq> []"
  shows "0 \<le> ts_core_timer_get_timeout now q \<and> ts_core_timer_get_timeout now q \<le> INT_MAX"
  using assms by (auto simp: ts_core_timer_get_timeout_def Let_def split: list.splits)

lemma get_timeout_zero:
  assumes "tq_inv q" and "\<forall>a \<in> set (timers q). normal_ts (expires q a)"
  shows "ts_core_timer_get_timeout now q = 0 \<longleftrightarrow>
    (\<exists>a \<in> set (timers q). timespec_to_msec (expires q a) \<le> timespec_to_msec now)"
proof (cases "timers q")
  case Nil
  then show ?thesis by (simp add: ts_core_timer_get_timeout_def)
next
  case (Cons a as)
  have "(\<exists>b \<in> set (timers q). timespec_to_msec (expires q b) \<le> timespec_to_msec now) \<longleftrightarrow>
    timespec_to_msec (expires q a) \<le> timespec_to_msec now"
    using in_order_head_msec [OF assms(1) Cons _ assms(2)] Cons by force
  then show ?thesis by (simp only:) (simp add: Cons ts_core_timer_get_timeout_def Let_def)
qed

lemma get_timeout_not_late:
  assumes "tq_inv q" and "\<forall>a \<in> set (timers q). normal_ts (expires q a)" and "a \<in> set (timers q)"
    and "timespec_to_msec now < timespec_to_msec (expires q a)"
  shows "timespec_to_msec now + ts_core_timer_get_timeout now q \<le> timespec_to_msec (expires q a)"
proof (cases "timers q")
  case Nil
  with assms(3) show ?thesis by simp
next
  case (Cons b bs)
  have "timespec_to_msec (expires q b) \<le> timespec_to_msec (expires q a)"
    by (rule in_order_head_msec [OF assms(1) Cons assms(3,2)])
  with Cons assms(4) show ?thesis by (auto simp: ts_core_timer_get_timeout_def Let_def)
qed

end
