(* ===== verification/Ts_Files.thy ===== *)
theory Ts_Files
  imports Prelude Ts_Timers
begin

text \<open>
  The table of polled file descriptors of the event loop (\<open>apps/thingsee/lib/ts_core.c\<close>): two
  parallel arrays \<open>files\<close> and \<open>pollfds\<close> of \<open>TS_CORE_NFILES\<close> entries, of which the first \<open>nfiles\<close>
  are in use; an entry whose descriptor was set to -1 is deleted, counted in \<open>nfiles_deleted\<close> and
  reclaimed by \<open>ts_core_gc_files\<close>. The arrays are the in-use prefix, as lists, and \<open>nfiles\<close> is
  their length: no code reads an entry beyond it.
\<close>

section \<open>State\<close>

record file_s =
  f_callback :: nat
  f_priv :: nat
  reg_func_name :: string

record pollfd =
  fd :: int
  events :: u8
  revents :: u8

record file_table =
  files :: "file_s list"
  pollfds :: "pollfd list"
  nfiles_deleted :: nat

text \<open>\<open>CONFIG_NFILE_DESCRIPTORS + CONFIG_NSOCKET_DESCRIPTORS\<close> of the retail configuration.\<close>

abbreviation TS_CORE_NFILES :: nat where "TS_CORE_NFILES \<equiv> 24 + 8"

definition nfiles :: "file_table \<Rightarrow> nat" where
  "nfiles t = length (pollfds t)"

section \<open>Operations\<close>

text \<open>
  The loop of \<open>__ts_core_fd_register\<close>: \<open>Inl ()\<close> when the descriptor is met first (\<open>EEXIST\<close>), otherwise
  the index of the first deleted entry or \<open>nfiles\<close>.
\<close>

fun register_scan :: "int \<Rightarrow> pollfd list \<Rightarrow> nat \<Rightarrow> unit + nat" where
  "register_scan f [] file_idx = Inr file_idx"
| "register_scan f (pfd # rest) file_idx =
     (if fd pfd = f then Inl ()
      else if fd pfd < 0 then Inr file_idx
      else register_scan f rest (Suc file_idx))"

definition ts_core_fd_register ::
  "int \<Rightarrow> u8 \<Rightarrow> nat option \<Rightarrow> nat \<Rightarrow> string \<Rightarrow> file_table \<Rightarrow> ((ts_error + unit) \<times> file_table) option" where
  "ts_core_fd_register f evs callback priv name t =
     (case callback of
        None \<Rightarrow> Some (Inl EINVAL, t)
      | Some cb \<Rightarrow>
          if f < 0 \<or> evs = 0 then Some (Inl EINVAL, t)
          else
            (case register_scan f (pollfds t) 0 of
               Inl _ \<Rightarrow> Some (Inl EEXIST, t)
             | Inr file_idx \<Rightarrow>
                 (let file = \<lparr>f_callback = cb, f_priv = priv, reg_func_name = name\<rparr>;
                      pfd = \<lparr>fd = f, events = evs, revents = 0\<rparr>
                  in if file_idx < nfiles t \<and> nfiles_deleted t = 0 then None
                     else if file_idx \<ge> TS_CORE_NFILES then Some (Inl ENOMEM, t)
                     else if file_idx = nfiles t
                     then Some (Inr (), t\<lparr>files := files t @ [file], pollfds := pollfds t @ [pfd]\<rparr>)
                     else Some (Inr (), t\<lparr>files := (files t)[file_idx := file],
                                          pollfds := (pollfds t)[file_idx := pfd],
                                          nfiles_deleted := nfiles_deleted t - 1\<rparr>))))"

fun find_fd :: "int \<Rightarrow> pollfd list \<Rightarrow> nat option" where
  "find_fd f [] = None"
| "find_fd f (pfd # rest) = (if fd pfd = f then Some 0 else map_option Suc (find_fd f rest))"

definition ts_core_fd_set_poll_events ::
  "int \<Rightarrow> u8 \<Rightarrow> file_table \<Rightarrow> (ts_error + unit) \<times> file_table" where
  "ts_core_fd_set_poll_events f evs t =
     (if f < 0 then (Inl EINVAL, t)
      else
        (case find_fd f (pollfds t) of
           None \<Rightarrow> (Inl EBADF, t)
         | Some i \<Rightarrow> (Inr (), t\<lparr>pollfds := (pollfds t)[i := (pollfds t ! i)\<lparr>events := evs\<rparr>]\<rparr>)))"

definition ts_core_fd_unregister :: "int \<Rightarrow> file_table \<Rightarrow> (ts_error + unit) \<times> file_table" where
  "ts_core_fd_unregister f t =
     (if f < 0 then (Inl EINVAL, t)
      else
        (case find_fd f (pollfds t) of
           None \<Rightarrow> (Inl EBADF, t)
         | Some i \<Rightarrow>
             (Inr (), t\<lparr>pollfds := (pollfds t)[i := (pollfds t ! i)\<lparr>fd := -1, revents := 0\<rparr>],
                        nfiles_deleted := Suc (nfiles_deleted t)\<rparr>)))"

text \<open>
  The loop of \<open>ts_core_gc_files\<close>: entry \<open>i\<close> is skipped when active, otherwise the tails of both
  arrays are moved down over it and \<open>i\<close> stays.
\<close>

function gc_files_loop :: "nat \<Rightarrow> file_table \<Rightarrow> file_table" where
  "gc_files_loop i t =
     (if i < nfiles t \<and> nfiles_deleted t > 0 then
        if fd (pollfds t ! i) \<ge> 0 then gc_files_loop (Suc i) t
        else gc_files_loop i
               (t\<lparr>pollfds := take i (pollfds t) @ drop (Suc i) (pollfds t),
                  files := take i (files t) @ drop (Suc i) (files t),
                  nfiles_deleted := nfiles_deleted t - 1\<rparr>)
      else t)"
  by pat_completeness auto
termination
  by (relation "measure (\<lambda>(i, t). nfiles t - i)") (auto simp: nfiles_def)

declare gc_files_loop.simps [simp del]

definition ts_core_gc_files :: "file_table \<Rightarrow> file_table option" where
  "ts_core_gc_files t =
     (if nfiles_deleted t = 0 then Some t
      else if \<not> (nfiles t > 0 \<and> nfiles_deleted t \<le> nfiles t) then None
      else
        (let t' = gc_files_loop 0 t
         in if nfiles_deleted t' = 0 then Some t' else None))"

definition files_initialize :: "file_table \<Rightarrow> file_table" where
  "files_initialize t = t\<lparr>files := [], pollfds := [], nfiles_deleted := 0\<rparr>"

section \<open>The invariant\<close>

definition deleted :: "pollfd list \<Rightarrow> nat" where
  "deleted ps = length (filter (\<lambda>p. fd p < 0) ps)"

definition ft_inv :: "file_table \<Rightarrow> bool" where
  "ft_inv t \<longleftrightarrow> length (files t) = length (pollfds t) \<and> nfiles t \<le> TS_CORE_NFILES \<and>
     nfiles_deleted t = deleted (pollfds t)"

definition active_fds :: "file_table \<Rightarrow> int list" where
  "active_fds t = filter (\<lambda>f. 0 \<le> f) (map fd (pollfds t))"

lemma deleted_simps [simp]:
  "deleted [] = 0" "deleted (p # ps) = (if fd p < 0 then 1 else 0) + deleted ps"
  "deleted (ps @ qs) = deleted ps + deleted qs"
  by (simp_all add: deleted_def)

lemma deleted_le: "deleted ps \<le> length ps"
  by (simp add: deleted_def)

lemma find_fd_Some:
  assumes "find_fd f ps = Some i"
  shows "i < length ps \<and> fd (ps ! i) = f"
  using assms by (induction ps arbitrary: i) (auto split: if_splits)

lemma find_fd_Some_split:
  assumes "find_fd f ps = Some i"
  shows "\<exists>us p vs. ps = us @ p # vs \<and> length us = i \<and> fd p = f \<and> (\<forall>u \<in> set us. fd u \<noteq> f)"
  using assms
proof (induction ps arbitrary: i)
  case Nil
  then show ?case by simp
next
  case (Cons p ps)
  show ?case
  proof (cases "fd p = f")
    case True
    with Cons.prems show ?thesis by (intro exI [of _ "[]"]) auto
  next
    case False
    with Cons.prems obtain j where "find_fd f ps = Some j" "i = Suc j" by auto
    with Cons.IH obtain us q vs where
      "ps = us @ q # vs" "length us = j" "fd q = f" "\<forall>u \<in> set us. fd u \<noteq> f" by blast
    with False \<open>i = Suc j\<close> show ?thesis by (intro exI [of _ "p # us"] exI [of _ q] exI [of _ vs]) auto
  qed
qed

lemma find_fd_None: "find_fd f ps = None \<longleftrightarrow> (\<forall>p \<in> set ps. fd p \<noteq> f)"
  by (induction ps) auto

lemma register_scan_Inl: "register_scan f ps k = Inl u \<Longrightarrow> \<exists>p \<in> set ps. fd p = f"
  by (induction ps arbitrary: k) (auto split: if_splits)

lemma register_scan_Inr:
  assumes "register_scan f ps k = Inr i"
  shows "k \<le> i \<and> i \<le> k + length ps \<and> (\<forall>p \<in> set (take (i - k) ps). fd p \<noteq> f \<and> 0 \<le> fd p) \<and>
    (i < k + length ps \<longrightarrow> fd (ps ! (i - k)) < 0)"
  using assms
proof (induction ps arbitrary: k)
  case Nil
  then show ?case by simp
next
  case (Cons p ps)
  show ?case
  proof (cases "fd p \<noteq> f \<and> 0 \<le> fd p")
    case True
    with Cons.prems have "register_scan f ps (Suc k) = Inr i" by (simp split: if_splits)
    from Cons.IH [OF this] obtain m where "i = Suc k + m" "m \<le> length ps"
      "\<forall>p \<in> set (take m ps). fd p \<noteq> f \<and> 0 \<le> fd p" "m < length ps \<longrightarrow> fd (ps ! m) < 0"
      by (metis add_diff_cancel_left' le_Suc_ex nat_add_left_cancel_le nat_add_left_cancel_less)
    then show ?thesis using True by (auto simp: Suc_diff_le)
  next
    case False
    with Cons.prems show ?thesis by (auto split: if_splits)
  qed
qed

lemma register_scan_none_deleted:
  assumes "deleted ps = 0"
  shows "register_scan f ps k = (if \<exists>p \<in> set ps. fd p = f then Inl () else Inr (k + length ps))"
  using assms by (induction ps arbitrary: k) (auto split: if_splits)

text \<open>Overwriting one entry changes the deleted count by what the entry was and becomes.\<close>

lemma deleted_update:
  assumes "i < length ps"
  shows "deleted (ps[i := p]) + (if fd (ps ! i) < 0 then 1 else 0) = deleted ps + (if fd p < 0 then 1 else 0)"
proof -
  have "ps = take i ps @ ps ! i # drop (Suc i) ps" using assms by (simp add: id_take_nth_drop)
  then have "deleted ps = deleted (take i ps) + (if fd (ps ! i) < 0 then 1 else 0) + deleted (drop (Suc i) ps)"
    by (metis deleted_simps(2,3) add.assoc)
  moreover have "deleted (ps[i := p]) =
    deleted (take i ps) + (if fd p < 0 then 1 else 0) + deleted (drop (Suc i) ps)"
    using assms by (simp add: upd_conv_take_nth_drop)
  ultimately show ?thesis by simp
qed

lemma ts_core_fd_register_inv:
  assumes "ft_inv t" and "ts_core_fd_register f evs callback priv name t = Some (r, t')"
  shows "ft_inv t'"
proof (cases "t' = t")
  case True
  with assms show ?thesis by simp
next
  case False
  then obtain cb i where c: "callback = Some cb" "0 \<le> f" "register_scan f (pollfds t) 0 = Inr i"
    "i < TS_CORE_NFILES" "i < nfiles t \<longrightarrow> nfiles_deleted t \<noteq> 0"
    using assms(2) by (auto simp: ts_core_fd_register_def Let_def split: option.splits if_splits sum.splits)
  have i: "i \<le> nfiles t" "i < nfiles t \<longrightarrow> fd (pollfds t ! i) < 0"
    using register_scan_Inr [OF c(3)] by (simp_all add: nfiles_def)
  let ?p = "\<lparr>fd = f, events = evs, revents = 0\<rparr>"
  show ?thesis
  proof (cases "i = nfiles t")
    case True
    with assms c False show ?thesis
      by (auto simp: ts_core_fd_register_def ft_inv_def nfiles_def split: if_splits)
  next
    case F: False
    with i have lt: "i < length (pollfds t)" by (simp add: nfiles_def)
    have "deleted ((pollfds t)[i := ?p]) + 1 = deleted (pollfds t)"
      using deleted_update [OF lt, of ?p] i F c(2) by simp
    with assms c F False show ?thesis
      by (auto simp: ts_core_fd_register_def ft_inv_def nfiles_def split: if_splits)
  qed
qed

lemma ts_core_fd_register_total:
  assumes "ft_inv t"
  shows "ts_core_fd_register f evs callback priv name t \<noteq> None"
proof -
  have "nfiles_deleted t \<noteq> 0" if "register_scan f (pollfds t) 0 = Inr i" "i < nfiles t" for i
  proof -
    have "fd (pollfds t ! i) < 0" "i < length (pollfds t)"
      using register_scan_Inr [OF that(1)] that(2) by (simp_all add: nfiles_def)
    then have "pollfds t ! i \<in> set (filter (\<lambda>p. fd p < 0) (pollfds t))" by simp
    then show ?thesis using assms by (auto simp: ft_inv_def deleted_def filter_empty_conv)
  qed
  then show ?thesis
    by (auto simp: ts_core_fd_register_def Let_def split: option.splits sum.splits)
qed

lemma ts_core_fd_unregister_inv:
  assumes "ft_inv t" and "ts_core_fd_unregister f t = (r, t')"
  shows "ft_inv t'"
proof (cases "find_fd f (pollfds t)")
  case None
  with assms show ?thesis by (auto simp: ts_core_fd_unregister_def split: if_splits)
next
  case (Some i)
  note i = find_fd_Some [OF Some]
  show ?thesis
  proof (cases "f < 0")
    case True
    with assms show ?thesis by (simp add: ts_core_fd_unregister_def)
  next
    case False
    with i deleted_update [of i "pollfds t" "(pollfds t ! i)\<lparr>fd := -1, revents := 0\<rparr>"]
    have "deleted ((pollfds t)[i := (pollfds t ! i)\<lparr>fd := -1, revents := 0\<rparr>]) = Suc (deleted (pollfds t))"
      by simp
    with False assms Some show ?thesis
      by (auto simp: ts_core_fd_unregister_def ft_inv_def nfiles_def)
  qed
qed

lemma ts_core_fd_set_poll_events_inv:
  assumes "ft_inv t" and "ts_core_fd_set_poll_events f evs t = (r, t')"
  shows "ft_inv t'"
proof (cases "find_fd f (pollfds t)")
  case None
  with assms show ?thesis by (auto simp: ts_core_fd_set_poll_events_def split: if_splits)
next
  case (Some i)
  with find_fd_Some [OF Some] deleted_update [of i "pollfds t" "(pollfds t ! i)\<lparr>events := evs\<rparr>"] assms
  show ?thesis
    by (auto simp: ts_core_fd_set_poll_events_def ft_inv_def nfiles_def split: if_splits)
qed

section \<open>Garbage collection keeps exactly the active entries, in order\<close>

definition entries :: "file_table \<Rightarrow> (file_s \<times> pollfd) list" where
  "entries t = zip (files t) (pollfds t)"

lemma gc_files_loop_spec:
  assumes "length (files t) = length (pollfds t)" and "i \<le> nfiles t"
    and "nfiles_deleted t = deleted (drop i (pollfds t))"
  shows "entries (gc_files_loop i t) =
      take i (entries t) @ filter (\<lambda>e. 0 \<le> fd (snd e)) (drop i (entries t)) \<and>
    nfiles_deleted (gc_files_loop i t) = 0 \<and>
    length (files (gc_files_loop i t)) = length (pollfds (gc_files_loop i t))"
  using assms
proof (induction i t rule: gc_files_loop.induct)
  case (1 i t)
  let ?p = "pollfds t ! i"
  have len: "length (entries t) = length (pollfds t)" using "1.prems"(1) by (simp add: entries_def)
  show ?case
  proof (cases "i < nfiles t \<and> nfiles_deleted t > 0")
    case True
    then have i: "i < length (pollfds t)" by (simp add: nfiles_def)
    have dp: "drop i (pollfds t) = ?p # drop (Suc i) (pollfds t)" using i by (simp add: Cons_nth_drop_Suc)
    have de: "drop i (entries t) = (files t ! i, ?p) # drop (Suc i) (entries t)"
      using i len "1.prems"(1) by (simp add: entries_def Cons_nth_drop_Suc [symmetric])
    show ?thesis
    proof (cases "fd ?p \<ge> 0")
      case active: True
      have "nfiles_deleted t = deleted (drop (Suc i) (pollfds t))"
        using "1.prems"(3) active by (simp add: dp)
      from "1.IH"(1) [OF True active "1.prems"(1) _ this] True
      show ?thesis
        using active i len de
        by (simp add: gc_files_loop.simps [of i t] nfiles_def take_Suc_conv_app_nth entries_def)
    next
      case gone: False
      let ?t = "t\<lparr>pollfds := take i (pollfds t) @ drop (Suc i) (pollfds t),
        files := take i (files t) @ drop (Suc i) (files t), nfiles_deleted := nfiles_deleted t - 1\<rparr>"
      have e: "entries ?t = take i (entries t) @ drop (Suc i) (entries t)"
        using "1.prems"(1) by (simp add: entries_def zip_append take_zip drop_zip)
      have "nfiles_deleted ?t = deleted (drop i (pollfds ?t))"
        using "1.prems"(3) gone i by (simp add: dp)
      moreover have "i \<le> nfiles ?t" "length (files ?t) = length (pollfds ?t)"
        using i "1.prems"(1) by (simp_all add: nfiles_def)
      ultimately have "entries (gc_files_loop i ?t) =
          take i (entries ?t) @ filter (\<lambda>e. 0 \<le> fd (snd e)) (drop i (entries ?t)) \<and>
        nfiles_deleted (gc_files_loop i ?t) = 0 \<and>
        length (files (gc_files_loop i ?t)) = length (pollfds (gc_files_loop i ?t))"
        using "1.IH"(2) [OF True gone] by blast
      then show ?thesis
        using True gone e de i len by (simp add: gc_files_loop.simps [of i t])
    qed
  next
    case False
    then have "deleted (drop i (pollfds t)) = 0"
      using "1.prems" by (auto simp: nfiles_def)
    then have "\<forall>p \<in> set (drop i (pollfds t)). 0 \<le> fd p"
      by (auto simp: deleted_def filter_empty_conv)
    then have "filter (\<lambda>e. 0 \<le> fd (snd e)) (drop i (entries t)) = drop i (entries t)"
      using "1.prems"(1) by (auto simp: filter_id_conv entries_def drop_zip dest: set_zip_rightD)
    moreover have "nfiles_deleted t = 0"
      using False "1.prems" \<open>deleted (drop i (pollfds t)) = 0\<close> by simp
    ultimately show ?thesis
      using False "1.prems"(1) by (simp add: gc_files_loop.simps [of i t])
  qed
qed

lemma ts_core_gc_files_spec:
  assumes "ft_inv t"
  shows "\<exists>t'. ts_core_gc_files t = Some t' \<and>
    entries t' = filter (\<lambda>e. 0 \<le> fd (snd e)) (entries t) \<and> nfiles_deleted t' = 0 \<and>
    length (files t') = length (pollfds t')"
proof (cases "nfiles_deleted t = 0")
  case True
  then have "\<forall>p \<in> set (pollfds t). 0 \<le> fd p"
    using assms by (auto simp: ft_inv_def deleted_def filter_empty_conv)
  then have "filter (\<lambda>e. 0 \<le> fd (snd e)) (entries t) = entries t"
    by (auto simp: filter_id_conv entries_def dest: set_zip_rightD)
  with True assms show ?thesis by (simp add: ts_core_gc_files_def ft_inv_def)
next
  case False
  moreover have "nfiles_deleted t \<le> nfiles t"
    using assms deleted_le [of "pollfds t"] by (simp add: ft_inv_def nfiles_def)
  ultimately show ?thesis
    using gc_files_loop_spec [of t 0] assms by (auto simp: ts_core_gc_files_def ft_inv_def Let_def)
qed

lemma pollfds_entries: "length (files t) = length (pollfds t) \<Longrightarrow> pollfds t = map snd (entries t)"
  by (simp add: entries_def)

lemma ts_core_gc_files_inv:
  assumes "ft_inv t" and "ts_core_gc_files t = Some t'"
  shows "ft_inv t' \<and> active_fds t' = active_fds t \<and> nfiles t' = length (active_fds t')"
proof -
  have e: "entries t' = filter (\<lambda>e. 0 \<le> fd (snd e)) (entries t)" "nfiles_deleted t' = 0"
    "length (files t') = length (pollfds t')"
    using ts_core_gc_files_spec [OF assms(1)] assms(2) by auto
  have p: "pollfds t' = filter (\<lambda>p. 0 \<le> fd p) (pollfds t)"
    using e pollfds_entries [of t'] pollfds_entries [of t] assms(1)
    by (simp add: ft_inv_def filter_map o_def)
  then have "active_fds t' = active_fds t" "nfiles t' = length (active_fds t')"
    by (simp_all add: active_fds_def filter_map o_def nfiles_def)
  moreover have "deleted (pollfds t') = 0" by (simp add: p deleted_def)
  moreover have "nfiles t' \<le> nfiles t" by (simp add: p nfiles_def)
  ultimately show ?thesis using assms(1) e by (simp add: ft_inv_def)
qed

end
