(* ===== verification/Ts_Core.thy ===== *)
theory Ts_Core
  imports Ts_Files "HOL-Library.Sublist"
begin

text \<open>
  The event loop of \<open>apps/thingsee/lib/ts_core.c\<close>: the public interface as a list of operations, the
  execution of timer and descriptor callbacks, deep-sleep and one iteration of the main loop.

  The world outside is the record \<open>env\<close>: the readings of the monotonic clock and the results of
  \<open>poll\<close> (indexed by a counter \<open>ticks\<close> of interactions), the allocator, the board and the registered
  callbacks. A callback is unknown code; what it does to the event loop is the list of interface
  operations it calls, chosen from the whole state. \<open>calls\<close> records the callbacks and sleeps in the
  order in which the loop performs them; the code has no such field and no operation reads it.
\<close>

section \<open>State, interface operations and environment\<close>

record deepsleep_hook_s =
  hook :: nat
  h_priv :: nat
  h_reg_func_name :: string

datatype call =
  TimerCall addr timespec timespec \<comment> \<open>timer, its expiry, the clock reading that found it expired\<close>
| FdCall int u8 \<comment> \<open>descriptor and returned events\<close>
| DeepSleep int \<comment> \<open>requested milliseconds, 0: until an interrupt\<close>

record ts_core_s =
  tq :: timer_queues
  ft :: file_table
  deepsleep_hooks :: "deepsleep_hook_s list"
  ticks :: nat
  calls :: "call list"

datatype api_op =
  Op_fd_register int u8 "nat option" nat string
| Op_fd_set_poll_events int u8
| Op_fd_unregister int
| Op_timer_setup ts_timer_type_e u32 "nat option" nat
| Op_timer_setup_date timespec "nat option" nat
| Op_timer_stop int
| Op_deepsleep_hook_add "nat option" nat string
| Op_deepsleep_hook_remove "nat option"

datatype poll_result = PollReady "nat \<Rightarrow> u8" | PollEINTR | PollEAGAIN | PollError

record env =
  clk :: "nat \<Rightarrow> timespec"
  calloc :: "(addr \<rightharpoonup> timer_s) \<Rightarrow> addr option"
  arena :: nat
  timer_cb :: "nat \<Rightarrow> int \<Rightarrow> nat \<Rightarrow> ts_core_s \<Rightarrow> int \<times> api_op list"
  fd_cb :: "nat \<Rightarrow> pollfd \<Rightarrow> nat \<Rightarrow> ts_core_s \<Rightarrow> int \<times> api_op list"
  hook_fn :: "nat \<Rightarrow> nat \<Rightarrow> bool"
  poll_fn :: "nat \<Rightarrow> pollfd list \<Rightarrow> int \<Rightarrow> poll_result"

definition clock_gettime :: "env \<Rightarrow> ts_core_s \<Rightarrow> timespec \<times> ts_core_s" where
  "clock_gettime e c = (clk e (ticks c), c\<lparr>ticks := Suc (ticks c)\<rparr>)"

section \<open>The public interface\<close>

definition ts_core_initialize :: "ts_core_s \<Rightarrow> ts_core_s" where
  "ts_core_initialize c = c\<lparr>ft := files_initialize (ft c), tq := timers_initialize (tq c)\<rparr>"

definition ts_core_deinitialize :: "ts_core_s \<Rightarrow> ts_core_s" where
  "ts_core_deinitialize c =
     c\<lparr>ft := files_initialize (ft c), deepsleep_hooks := [], tq := timers_deinitialize (tq c)\<rparr>"

definition ts_core_deepsleep_hook_add ::
  "nat option \<Rightarrow> nat \<Rightarrow> string \<Rightarrow> deepsleep_hook_s list \<Rightarrow> (ts_error + unit) \<times> deepsleep_hook_s list" where
  "ts_core_deepsleep_hook_add hookfn priv name hooks =
     (case hookfn of
        None \<Rightarrow> (Inl EINVAL, hooks)
      | Some h \<Rightarrow> (Inr (), hooks @ [\<lparr>hook = h, h_priv = priv, h_reg_func_name = name\<rparr>]))"

fun hook_remove_first :: "nat \<Rightarrow> deepsleep_hook_s list \<Rightarrow> deepsleep_hook_s list option" where
  "hook_remove_first h [] = None"
| "hook_remove_first h (entry # rest) =
     (if hook entry = h then Some rest else map_option (Cons entry) (hook_remove_first h rest))"

definition ts_core_deepsleep_hook_remove ::
  "nat option \<Rightarrow> deepsleep_hook_s list \<Rightarrow> (ts_error + unit) \<times> deepsleep_hook_s list" where
  "ts_core_deepsleep_hook_remove hookfn hooks =
     (case hookfn of
        None \<Rightarrow> (Inl EINVAL, hooks)
      | Some h \<Rightarrow>
          (case hook_remove_first h hooks of
             None \<Rightarrow> (Inl ENOENT, hooks)
           | Some rest \<Rightarrow> (Inr (), rest)))"

text \<open>
  One call of the interface. The \<open>ts_core_timer_stop\<close> macro of \<open>ts_core.h\<close> asserts that the
  identifier is at least \<open>TS_CORE_FIRST_TIMER_ID\<close> before it calls the function.
\<close>

fun apply_op :: "env \<Rightarrow> api_op \<Rightarrow> ts_core_s \<Rightarrow> ts_core_s option" where
  "apply_op e (Op_fd_register f evs cb priv name) c =
     map_option (\<lambda>(r, t). c\<lparr>ft := t\<rparr>) (ts_core_fd_register f evs cb priv name (ft c))"
| "apply_op e (Op_fd_set_poll_events f evs) c =
     Some (c\<lparr>ft := snd (ts_core_fd_set_poll_events f evs (ft c))\<rparr>)"
| "apply_op e (Op_fd_unregister f) c = Some (c\<lparr>ft := snd (ts_core_fd_unregister f (ft c))\<rparr>)"
| "apply_op e (Op_timer_setup type ms cb priv) c =
     (case ts_core_timer_setup type ms cb priv (clk e (ticks c)) (calloc e (tmem (tq c))) (arena e) (tq c) of
        None \<Rightarrow> None
      | Some (Inl _, q) \<Rightarrow> Some (c\<lparr>tq := q\<rparr>)
      | Some (Inr _, q) \<Rightarrow> Some (c\<lparr>tq := q, ticks := Suc (ticks c)\<rparr>))"
| "apply_op e (Op_timer_setup_date date cb priv) c =
     map_option (\<lambda>(r, q). c\<lparr>tq := q\<rparr>)
       (ts_core_timer_setup_date date cb priv date (calloc e (tmem (tq c))) (arena e) (tq c))"
| "apply_op e (Op_timer_stop i) c =
     (if i < TS_CORE_FIRST_TIMER_ID then None
      else Some (c\<lparr>tq := snd (ts_core_timer_stop i (tq c))\<rparr>))"
| "apply_op e (Op_deepsleep_hook_add h priv name) c =
     Some (c\<lparr>deepsleep_hooks := snd (ts_core_deepsleep_hook_add h priv name (deepsleep_hooks c))\<rparr>)"
| "apply_op e (Op_deepsleep_hook_remove h) c =
     Some (c\<lparr>deepsleep_hooks := snd (ts_core_deepsleep_hook_remove h (deepsleep_hooks c))\<rparr>)"

section \<open>Timers\<close>

definition rearm_interval :: "addr \<Rightarrow> timer_queues \<Rightarrow> timer_queues" where
  "rearm_interval timer q =
     (let t = timer_at q timer
      in q\<lparr>tmem := (tmem q)(timer \<mapsto>
             t\<lparr>date_expires := timespec_add_msec (date_expires t) (interval_ms t)\<rparr>),
           timers := tl (timers q),
           new_timers := new_timers q @ [timer]\<rparr>)"

definition execute_timer_callback :: "env \<Rightarrow> timespec \<Rightarrow> addr \<Rightarrow> ts_core_s \<Rightarrow> ts_core_s option" where
  "execute_timer_callback e now timer c =
     (let t = timer_at (tq c) timer;
          (ret, ops) = timer_cb e (t_callback t) (t_id t) (t_priv t) c
      in case run_steps (apply_op e) ops (c\<lparr>calls := calls c @ [TimerCall timer (date_expires t) now]\<rparr>) of
           None \<Rightarrow> None
         | Some c \<Rightarrow>
             if t_done (timer_at (tq c) timer) then Some c
             else if timers (tq c) = [] \<or> hd (timers (tq c)) \<noteq> timer then None
             else if t_type t = TS_TIMER_TYPE_INTERVAL
             then Some (c\<lparr>tq := rearm_interval timer (tq c)\<rparr>)
             else Some (c\<lparr>tq := retire_timer timer ((tq c)\<lparr>timers := tl (timers (tq c))\<rparr>)\<rparr>))"

partial_function (option) ts_core_process_timers :: "env \<Rightarrow> ts_core_s \<Rightarrow> ts_core_s option" where
  "ts_core_process_timers e c =
     (case timers (tq c) of
        [] \<Rightarrow> Some c
      | timer # _ \<Rightarrow>
          (let (curr_ts, c) = clock_gettime e c;
               curr_msec = timespec_to_msec curr_ts;
               timer_msec = timespec_to_msec (expires (tq c) timer)
           in if timer_msec \<le> curr_msec
              then Option.bind (execute_timer_callback e curr_ts timer c) (ts_core_process_timers e)
              else Some c))"

text \<open>\<open>ts_core_timer_get_timeout\<close> reads the clock only when there is a timer.\<close>

definition read_timeout :: "env \<Rightarrow> ts_core_s \<Rightarrow> int \<times> ts_core_s" where
  "read_timeout e c =
     (if timers (tq c) = [] then (-1, c)
      else (let (now, c) = clock_gettime e c in (ts_core_timer_get_timeout now (tq c), c)))"

section \<open>Polling and descriptor callbacks\<close>

definition store_revents :: "(nat \<Rightarrow> u8) \<Rightarrow> pollfd list \<Rightarrow> pollfd list" where
  "store_revents rv ps = map (\<lambda>i. (ps ! i)\<lparr>revents := rv i\<rparr>) [0..<length ps]"

definition count_revents :: "pollfd list \<Rightarrow> int" where
  "count_revents ps = int (length (filter (\<lambda>p. revents p \<noteq> 0) ps))"

text \<open>The \<open>do ... while\<close> loops around \<open>poll\<close>; the result is its return value, -1 for an error.\<close>

partial_function (option) poll_retry :: "env \<Rightarrow> bool \<Rightarrow> int \<Rightarrow> ts_core_s \<Rightarrow> (int \<times> ts_core_s) option" where
  "poll_retry e retry_eagain timeout c =
     (let r = poll_fn e (ticks c) (pollfds (ft c)) timeout;
          c = c\<lparr>ticks := Suc (ticks c)\<rparr>
      in case r of
           PollReady rv \<Rightarrow>
             (let ps = store_revents rv (pollfds (ft c))
              in Some (count_revents ps, c\<lparr>ft := (ft c)\<lparr>pollfds := ps\<rparr>\<rparr>))
         | PollEINTR \<Rightarrow> poll_retry e retry_eagain timeout c
         | PollEAGAIN \<Rightarrow> if retry_eagain then poll_retry e retry_eagain timeout c else Some (-1, c)
         | PollError \<Rightarrow> Some (-1, c))"

partial_function (option) process_files :: "env \<Rightarrow> nat \<Rightarrow> int \<Rightarrow> ts_core_s \<Rightarrow> ts_core_s option" where
  "process_files e i nrevents c =
     (if nrevents > 0 \<and> i < nfiles (ft c) then
        (let file = files (ft c) ! i;
             pfd = pollfds (ft c) ! i;
             nrevents = nrevents - (if revents pfd \<noteq> 0 then 1 else 0)
         in if revents pfd \<noteq> 0 \<and> fd pfd \<ge> 0
            then
              (let (ret, ops) = fd_cb e (f_callback file) pfd (f_priv file) c
               in Option.bind
                    (run_steps (apply_op e) ops (c\<lparr>calls := calls c @ [FdCall (fd pfd) (revents pfd)]\<rparr>))
                    (process_files e (Suc i) nrevents))
            else process_files e (Suc i) nrevents c)
      else Some c)"

section \<open>Deep sleep\<close>

abbreviation BOARD_DEEPSLEEP_MAX_SECS :: int where "BOARD_DEEPSLEEP_MAX_SECS \<equiv> 65535"

definition time_deepslept :: "timespec \<Rightarrow> timespec \<Rightarrow> int option" where
  "time_deepslept ts_entry ts_exit =
     (let slept = sint (tv_sec ts_exit - tv_sec ts_entry)
      in if slept < INT_MAX div 1000
         then (let slept = slept * 1000 + sint (tv_nsec ts_exit - tv_nsec ts_entry) sdiv 1000000
               in if slept \<ge> 0 then Some slept else None)
         else Some INT_MAX)"

text \<open>Whether the hooks, in order, all allow deep sleep; the loop stops at the first refusal.\<close>

fun hooks_allow :: "env \<Rightarrow> deepsleep_hook_s list \<Rightarrow> bool" where
  "hooks_allow e [] = True"
| "hooks_allow e (entry # rest) = (if \<not> hook_fn e (hook entry) (h_priv entry) then False else hooks_allow e rest)"

definition deepsleep_duration :: "int \<Rightarrow> int" where
  "deepsleep_duration timeout_msecs =
     (if timeout_msecs < 0 then 0
      else if timeout_msecs > BOARD_DEEPSLEEP_MAX_SECS * 1000 then BOARD_DEEPSLEEP_MAX_SECS * 1000
      else timeout_msecs)"

definition ts_core_deepsleep :: "env \<Rightarrow> ts_core_s \<Rightarrow> (int \<times> ts_core_s) option" where
  "ts_core_deepsleep e c =
     (if \<not> hooks_allow e (deepsleep_hooks c) then Some (0, c)
      else
        (case (if nfiles (ft c) > 0 then poll_retry e True 0 c else Some (0, c)) of
           None \<Rightarrow> None
         | Some (ret, c) \<Rightarrow>
             if ret > 0 \<and> (\<exists>p \<in> set (pollfds (ft c)). revents p \<noteq> 0) then Some (0, c)
             else
               (let (timeout_msecs, c) = read_timeout e c
                in if timeout_msecs = 0 then Some (0, c)
                   else
                     (let (ts_entry, c) = clock_gettime e c;
                          c = c\<lparr>calls := calls c @ [DeepSleep (deepsleep_duration timeout_msecs)]\<rparr>;
                          (ts_exit, c) = clock_gettime e c
                      in map_option (\<lambda>t. (t, c)) (time_deepslept ts_entry ts_exit)))))"

section \<open>The main loop\<close>

abbreviation TS_CORE_MAX_POLL_TIMEOUT_MSEC :: int where "TS_CORE_MAX_POLL_TIMEOUT_MSEC \<equiv> 2500"
abbreviation TS_CORE_MIN_POLL_TIMEOUT_MSEC :: int where "TS_CORE_MIN_POLL_TIMEOUT_MSEC \<equiv> 100"

definition poll_timeout :: "int \<Rightarrow> int \<Rightarrow> int" where
  "poll_timeout timeout_ms slept =
     (if timeout_ms > TS_CORE_MAX_POLL_TIMEOUT_MSEC \<or> timeout_ms = -1
      then
        (let t = TS_CORE_MAX_POLL_TIMEOUT_MSEC - slept
         in if t < TS_CORE_MIN_POLL_TIMEOUT_MSEC then TS_CORE_MIN_POLL_TIMEOUT_MSEC else t)
      else timeout_ms)"

definition poll_and_dispatch :: "env \<Rightarrow> int \<Rightarrow> ts_core_s \<Rightarrow> ts_core_s option" where
  "poll_and_dispatch e timeout_ms c =
     (if nfiles (ft c) > 0
      then
        (case poll_retry e False timeout_ms c of
           None \<Rightarrow> None
         | Some (nrevents, c) \<Rightarrow>
             (case process_files e 0 nrevents c of
                None \<Rightarrow> None
              | Some c \<Rightarrow> map_option (\<lambda>t. c\<lparr>ft := t\<rparr>) (ts_core_gc_files (ft c))))
      else Some c)"

definition ts_core_process :: "env \<Rightarrow> ts_core_s \<Rightarrow> ts_core_s option" where
  "ts_core_process e c =
     (case ts_core_deepsleep e c of
        None \<Rightarrow> None
      | Some (slept, c) \<Rightarrow>
          (let (timeout_ms, c) = read_timeout e c
           in case poll_and_dispatch e (poll_timeout timeout_ms slept) c of
                None \<Rightarrow> None
              | Some c \<Rightarrow>
                  map_option (\<lambda>c. c\<lparr>tq := ts_core_gc_timers (tq c)\<rparr>) (ts_core_process_timers e c)))"

fun mainloop_iterations :: "env \<Rightarrow> nat \<Rightarrow> ts_core_s \<Rightarrow> ts_core_s option" where
  "mainloop_iterations e 0 c = Some c"
| "mainloop_iterations e (Suc n) c = Option.bind (ts_core_process e c) (mainloop_iterations e n)"

text \<open>\<open>goon\<close> is true for the first \<open>n\<close> tests of the loop condition.\<close>

definition ts_core_mainloop :: "env \<Rightarrow> nat \<Rightarrow> ts_core_s \<Rightarrow> ts_core_s option" where
  "ts_core_mainloop e n c = mainloop_iterations e n (c\<lparr>tq := ts_core_gc_timers (tq c)\<rparr>)"

section \<open>Interface operations keep the invariant\<close>

definition core_inv :: "ts_core_s \<Rightarrow> bool" where
  "core_inv c \<longleftrightarrow> tq_inv (tq c) \<and> ft_inv (ft c)"

text \<open>What the loop relies on: the allocator returns unused blocks, the heap size is sensible.\<close>

definition env_ok :: "env \<Rightarrow> bool" where
  "env_ok e \<longleftrightarrow> (\<forall>m a. calloc e m = Some a \<longrightarrow> a \<notin> dom m) \<and> 0 < arena e \<and> int (arena e) < INT_MAX"

text \<open>A caller of the interface only stops identifiers that the interface can have returned.\<close>

fun op_ok :: "api_op \<Rightarrow> bool" where
  "op_ok (Op_timer_stop i) = (TS_CORE_FIRST_TIMER_ID \<le> i)"
| "op_ok _ = True"

lemma ts_core_timer_setup_inv:
  assumes "tq_inv q" and "\<And>a. block = Some a \<Longrightarrow> a \<notin> dom (tmem q)"
    and "ts_core_timer_setup type ms cb priv now block ar q = Some (r, q')"
  shows "tq_inv q'"
  using assms timer_setup_internal_inv [OF assms(1,2)]
  by (auto simp: ts_core_timer_setup_def split: if_splits)

lemma ts_core_timer_setup_total:
  assumes "0 < ar" and "int ar < INT_MAX"
  shows "\<exists>r q'. ts_core_timer_setup type ms cb priv now block ar q = Some (r, q')"
  using timer_setup_internal_total [OF assms] by (simp add: ts_core_timer_setup_def)

lemma apply_op_safe:
  assumes "env_ok e" and "core_inv c" and "op_ok op"
  shows "\<exists>c'. apply_op e op c = Some c' \<and> core_inv c'"
proof -
  have tqi: "tq_inv (tq c)" using assms(2) by (simp add: core_inv_def)
  have fresh: "\<And>a. calloc e (tmem (tq c)) = Some a \<Longrightarrow> a \<notin> dom (tmem (tq c))"
    using assms(1) by (auto simp: env_ok_def)
  show ?thesis
  proof (cases op)
    case (Op_fd_register f evs cb priv name)
    obtain r t where "ts_core_fd_register f evs cb priv name (ft c) = Some (r, t)"
      using ts_core_fd_register_total [of "ft c"] assms(2) by (fastforce simp: core_inv_def)
    with Op_fd_register ts_core_fd_register_inv assms(2) show ?thesis by (auto simp: core_inv_def)
  next
    case (Op_fd_set_poll_events f evs)
    with assms(2) ts_core_fd_set_poll_events_inv [of "ft c" f evs] show ?thesis
      by (cases "ts_core_fd_set_poll_events f evs (ft c)") (auto simp: core_inv_def)
  next
    case (Op_fd_unregister f)
    with assms(2) ts_core_fd_unregister_inv [of "ft c" f] show ?thesis
      by (cases "ts_core_fd_unregister f (ft c)") (auto simp: core_inv_def)
  next
    case (Op_timer_setup type ms cb priv)
    let ?b = "calloc e (tmem (tq c))"
    obtain r q where s: "ts_core_timer_setup type ms cb priv (clk e (ticks c)) ?b (arena e) (tq c) = Some (r, q)"
      using ts_core_timer_setup_total [of "arena e" type ms cb priv "clk e (ticks c)" ?b "tq c"] assms(1)
      by (auto simp: env_ok_def)
    with Op_timer_setup assms(2) ts_core_timer_setup_inv [OF tqi fresh s] show ?thesis
      by (auto simp: core_inv_def split: sum.splits)
  next
    case (Op_timer_setup_date date cb priv)
    let ?b = "calloc e (tmem (tq c))"
    obtain r q where s: "ts_core_timer_setup_date date cb priv date ?b (arena e) (tq c) = Some (r, q)"
      using timer_setup_internal_total [of "arena e" TS_TIMER_TYPE_DATE date 0 cb priv date ?b "tq c"] assms(1)
      by (auto simp: env_ok_def ts_core_timer_setup_date_def)
    with timer_setup_internal_inv [OF tqi fresh s [unfolded ts_core_timer_setup_date_def]] s Op_timer_setup_date assms(2) show ?thesis by (auto simp: core_inv_def)
  next
    case (Op_timer_stop i)
    with assms(2,3) ts_core_timer_stop_inv [of "tq c" i] show ?thesis
      by (cases "ts_core_timer_stop i (tq c)") (auto simp: core_inv_def)
  qed (use assms(2) in \<open>auto simp: core_inv_def\<close>)
qed

text \<open>
  The interface as a machine whose inputs are operations together with the environment in which
  they are called.
\<close>

interpretation api: safe_machine "\<lambda>(e, op). apply_op e op" "\<lambda>(e, op). env_ok e \<and> op_ok op" core_inv
  by unfold_locales (auto dest: apply_op_safe)

lemma run_steps_pair: "run_steps (\<lambda>(e, op). apply_op e op) (map (Pair e) ops) c = run_steps (apply_op e) ops c"
  by (induction ops arbitrary: c) (auto split: option.splits)

lemma run_ops_safe:
  assumes "env_ok e" and "core_inv c" and "list_all op_ok ops"
  shows "\<exists>c'. run_steps (apply_op e) ops c = Some c' \<and> core_inv c'"
proof -
  have "list_all (\<lambda>(e, op). env_ok e \<and> op_ok op) (map (Pair e) ops)"
    using assms(1,3) by (simp add: list_all_iff)
  from api.run_safe [OF assms(2) this] show ?thesis by (simp add: run_steps_pair)
qed

section \<open>Callbacks can only remove timers from the active queue\<close>

definition shrinks :: "timer_queues \<Rightarrow> timer_queues \<Rightarrow> bool" where
  "shrinks q q' \<longleftrightarrow>
     timers q' = filter (\<lambda>a. a \<notin> set (done_timers q')) (timers q) \<and>
     set (done_timers q) \<subseteq> set (done_timers q') \<and>
     (\<forall>a \<in> set (timers q'). timer_at q' a = timer_at q a)"

lemma shrinks_refl:
  assumes "tq_inv q"
  shows "shrinks q q"
  using assms by (auto simp: shrinks_def tq_inv_def queued_def intro!: filter_True [symmetric])

lemma shrinks_trans:
  assumes "shrinks q q1" and "shrinks q1 q2"
  shows "shrinks q q2"
  using assms by (auto simp: shrinks_def intro!: filter_cong)

lemma timer_setup_internal_shrinks:
  assumes "tq_inv q" and "\<And>a. block = Some a \<Longrightarrow> a \<notin> dom (tmem q)"
    and "timer_setup_internal type date ms cb priv now block ar q = Some (r, q')"
  shows "shrinks q q'"
  using timer_setup_internal_cases [OF assms(3)]
proof (elim disjE exE conjE)
  fix e assume "q' = q"
  with assms(1) show ?thesis by (simp add: shrinks_refl)
next
  fix cb' a tid
  assume a: "block = Some a" and q': "q' = q\<lparr>heap_size := heap_size q',
    tmem := (tmem q)(a \<mapsto> timer_setup_fields type date ms now tid cb' priv),
    new_timers := new_timers q @ [a]\<rparr>"
  have "a \<notin> set (timers q)"
    using assms(1,2) a by (auto simp: tq_inv_def queued_def)
  then have at: "\<forall>b \<in> set (timers q). timer_at q' b = timer_at q b"
    by (subst q') (auto simp: timer_at_def)
  have "timers q' = timers q" "done_timers q' = done_timers q" by (subst q', simp)+
  with at shrinks_refl [OF assms(1)] show ?thesis by (simp add: shrinks_def)
qed

lemma ts_core_timer_stop_shrinks:
  assumes "tq_inv q" and "ts_core_timer_stop i q = (r, q')"
  shows "shrinks q q'"
proof -
  have d: "distinct (timers q)" "set (timers q) \<inter> set (done_timers q) = {}"
    "set (timers q) \<inter> set (new_timers q) = {}"
    using assms(1) by (auto simp: tq_inv_def queued_def)
  from assms(2) show ?thesis
  proof (cases rule: ts_core_timer_stop_cases)
    case error
    with assms(1) show ?thesis by (simp add: shrinks_refl)
  next
    case (active a us ws)
    have "filter (\<lambda>b. b \<noteq> a \<and> b \<notin> set (done_timers q)) us = us"
      "filter (\<lambda>b. b \<noteq> a \<and> b \<notin> set (done_timers q)) ws = ws"
      "\<forall>b \<in> set (us @ ws). b \<noteq> a"
      using d active(2) by (auto intro!: filter_True)
    with active(2,4) show ?thesis by (simp add: shrinks_def subset_insertI)
  next
    case (pending a us ws)
    have "filter (\<lambda>b. b \<noteq> a \<and> b \<notin> set (done_timers q)) (timers q) = timers q"
      "\<forall>b \<in> set (timers q). b \<noteq> a"
      using d pending(2) by (auto intro!: filter_True)
    with pending(2,4) show ?thesis by (simp add: shrinks_def subset_insertI)
  qed
qed

lemma apply_op_shrinks:
  assumes "env_ok e" and "core_inv c" and "apply_op e op c = Some c'"
  shows "shrinks (tq c) (tq c')"
proof -
  have tqi: "tq_inv (tq c)" using assms(2) by (simp add: core_inv_def)
  have fresh: "\<And>a. calloc e (tmem (tq c)) = Some a \<Longrightarrow> a \<notin> dom (tmem (tq c))"
    using assms(1) by (auto simp: env_ok_def)
  note step = timer_setup_internal_shrinks [OF tqi fresh]
  show ?thesis
  proof (cases op)
    case (Op_timer_setup type ms cb priv)
    then obtain r where "ts_core_timer_setup type ms cb priv (clk e (ticks c)) (calloc e (tmem (tq c)))
        (arena e) (tq c) = Some (r, tq c')"
      using assms(3) by (auto split: option.splits sum.splits)
    then show ?thesis
      using step tqi by (auto simp: ts_core_timer_setup_def shrinks_refl split: if_splits)
  next
    case (Op_timer_setup_date date cb priv)
    then show ?thesis
      using assms(3) step by (auto simp: ts_core_timer_setup_date_def)
  next
    case (Op_timer_stop i)
    then show ?thesis
      using assms(3) ts_core_timer_stop_shrinks [OF tqi, of i]
      by (cases "ts_core_timer_stop i (tq c)") (auto split: if_splits)
  qed (use assms(3) tqi in \<open>auto simp: shrinks_refl\<close>)
qed

lemma apply_op_frame:
  assumes "apply_op e op c = Some c'"
  shows "calls c' = calls c" and "ticks c \<le> ticks c'"
  using assms by (cases op; auto split: option.splits sum.splits if_splits)+

lemma run_ops_frame:
  assumes "run_steps (apply_op e) ops c = Some c'"
  shows "calls c' = calls c \<and> ticks c \<le> ticks c'"
  using assms
proof (induction ops arbitrary: c)
  case Nil
  then show ?case by simp
next
  case (Cons op ops)
  then obtain c1 where "apply_op e op c = Some c1" "run_steps (apply_op e) ops c1 = Some c'"
    by (auto split: option.splits)
  with Cons.IH [of c1] apply_op_frame [of e op c c1] show ?case by auto
qed

lemma run_ops_shrinks:
  assumes "env_ok e" and "core_inv c" and "list_all op_ok ops" and "run_steps (apply_op e) ops c = Some c'"
  shows "shrinks (tq c) (tq c')"
  using assms(2-4)
proof (induction ops arbitrary: c)
  case Nil
  then show ?case by (simp add: shrinks_refl core_inv_def)
next
  case (Cons op ops)
  then obtain c1 where c1: "apply_op e op c = Some c1" "core_inv c1" "run_steps (apply_op e) ops c1 = Some c'"
    using apply_op_safe [OF assms(1), of c op] by auto
  with Cons.IH [of c1] Cons.prems(2) have "shrinks (tq c1) (tq c')" by simp
  with apply_op_shrinks [OF assms(1) Cons.prems(1) c1(1)] show ?case by (rule shrinks_trans)
qed

section \<open>Processing the expired timers\<close>

definition cbs_ok :: "env \<Rightarrow> bool" where
  "cbs_ok e \<longleftrightarrow> (\<forall>cb i priv c. list_all op_ok (snd (timer_cb e cb i priv c))) \<and>
     (\<forall>cb pfd priv c. list_all op_ok (snd (fd_cb e cb pfd priv c)))"

lemma rearm_interval_simps [simp]:
  "timers (rearm_interval a q) = tl (timers q)" "new_timers (rearm_interval a q) = new_timers q @ [a]"
  "done_timers (rearm_interval a q) = done_timers q" "heap_size (rearm_interval a q) = heap_size q"
  "b \<noteq> a \<Longrightarrow> timer_at (rearm_interval a q) b = timer_at q b"
  "t_id (timer_at (rearm_interval a q) a) = t_id (timer_at q a)"
  "t_type (timer_at (rearm_interval a q) a) = t_type (timer_at q a)"
  "t_done (timer_at (rearm_interval a q) a) = t_done (timer_at q a)"
  by (simp_all add: rearm_interval_def timer_at_def Let_def)

lemma rearm_interval_inv:
  assumes inv: "tq_inv q" and head: "timers q = a # ts"
  shows "tq_inv (rearm_interval a q)"
proof (rule tq_invI)
  let ?q = "rearm_interval a q"
  have d: "distinct (queued q)" "a \<notin> set ts" using inv head by (auto simp: tq_inv_def queued_def)
  have s: "set (queued ?q) = set (queued q)" by (auto simp: queued_def head)
  show "distinct (queued ?q)" using d(1) by (auto simp: queued_def head)
  show "dom (tmem ?q) = set (queued ?q)"
    using inv unfolding s by (auto simp: rearm_interval_def Let_def tq_inv_def queued_def head)
  have "in_order (expires q) ts" using inv head by (simp add: tq_inv_def)
  moreover have "expires ?q b = expires q b" if "b \<in> set ts" for b
    using that d(2) by (cases "b = a") (simp_all add: expires_def)
  ultimately show "in_order (expires ?q) (timers ?q)"
    using in_order_cong [of ts "expires ?q" "expires q"] by (simp add: head)
  fix b assume "b \<in> set (queued ?q)"
  then have "timer_ok q b" using inv by (simp add: s tq_inv_def)
  then show "timer_ok ?q b" by (cases "b = a") (simp_all add: timer_ok_def)
next
  assume "heap_size (rearm_interval a q) = 0"
  with inv head show "queued (rearm_interval a q) = []" by (simp add: tq_inv_def queued_def)
qed

lemma retire_head_inv:
  assumes "tq_inv q" and "timers q = a # ts"
  shows "tq_inv (retire_timer a (q\<lparr>timers := ts\<rparr>))"
proof -
  have "tq_inv (retire_timer a (q\<lparr>timers := ts, new_timers := new_timers q\<rparr>))"
    using assms(2) by (intro retire_timer_inv [OF assms(1), of "[]" _ ts]) simp
  then show ?thesis by simp
qed

lemma execute_timer_callback_spec:
  assumes "env_ok e" and "cbs_ok e" and "core_inv c" and head: "timers (tq c) = a # ts"
  shows "\<exists>c' P. execute_timer_callback e now a c = Some c' \<and> core_inv c' \<and>
    timers (tq c') = filter P ts \<and>
    (\<forall>b \<in> set (timers (tq c')). timer_at (tq c') b = timer_at (tq c) b) \<and>
    calls c' = calls c @ [TimerCall a (expires (tq c) a) now] \<and> ticks c \<le> ticks c'"
proof -
  let ?t = "timer_at (tq c) a"
  let ?ops = "snd (timer_cb e (t_callback ?t) (t_id ?t) (t_priv ?t) c)"
  let ?c0 = "c\<lparr>calls := calls c @ [TimerCall a (date_expires ?t) now]\<rparr>"
  have c0: "core_inv ?c0" and ok: "list_all op_ok ?ops"
    using assms(2,3) by (simp_all add: core_inv_def cbs_ok_def)
  obtain c1 where c1: "run_steps (apply_op e) ?ops ?c0 = Some c1" "core_inv c1"
    using run_ops_safe [OF assms(1) c0 ok] by blast
  let ?P = "\<lambda>b. b \<notin> set (done_timers (tq c1))"
  have sh: "timers (tq c1) = filter ?P (a # ts)" "\<forall>b \<in> set (timers (tq c1)). timer_at (tq c1) b = timer_at (tq c) b"
    using run_ops_shrinks [OF assms(1) c0 ok c1(1)] head by (simp_all add: shrinks_def)
  have fr: "calls c1 = calls c @ [TimerCall a (expires (tq c) a) now]" "ticks c \<le> ticks c1"
    using run_ops_frame [OF c1(1)] by (simp_all add: expires_def)
  have tqi: "tq_inv (tq c1)" "ft_inv (ft c1)" using c1(2) by (simp_all add: core_inv_def)
  have ats: "a \<notin> set ts" using assms(3) head by (auto simp: core_inv_def tq_inv_def queued_def)
  show ?thesis
  proof (cases "?P a")
    case False
    then have "a \<in> set (queued (tq c1))" by (simp add: queued_def)
    with tqi(1) False have "t_done (timer_at (tq c1) a)" by (auto simp: tq_inv_def timer_ok_def)
    then have "execute_timer_callback e now a c = Some c1"
      using c1(1) by (simp add: execute_timer_callback_def split_def)
    with c1(2) sh fr False show ?thesis by (intro exI [of _ c1] exI [of _ ?P]) simp
  next
    case True
    then have hd1: "timers (tq c1) = a # filter ?P ts" using sh(1) by simp
    then have "a \<in> set (queued (tq c1))" by (simp add: queued_def)
    with tqi(1) True have nd: "\<not> t_done (timer_at (tq c1) a)" by (auto simp: tq_inv_def timer_ok_def)
    let ?q = "if t_type ?t = TS_TIMER_TYPE_INTERVAL then rearm_interval a (tq c1)
      else retire_timer a ((tq c1)\<lparr>timers := filter ?P ts\<rparr>)"
    have ex: "execute_timer_callback e now a c = Some (c1\<lparr>tq := ?q\<rparr>)"
      using c1(1) nd hd1 by (simp add: execute_timer_callback_def split_def)
    have "tq_inv ?q"
      using rearm_interval_inv [OF tqi(1) hd1] retire_head_inv [OF tqi(1) hd1] by simp
    moreover have "timers ?q = filter ?P ts" using hd1 by simp
    moreover have "timer_at ?q b = timer_at (tq c) b" if "b \<in> set (filter ?P ts)" for b
    proof -
      have "b \<noteq> a" using that ats by auto
      with that sh(2) hd1 show ?thesis by simp
    qed
    ultimately show ?thesis
      using ex tqi(2) fr by (intro exI [of _ "c1\<lparr>tq := ?q\<rparr>"] exI [of _ ?P]) (simp add: core_inv_def)
  qed
qed

text \<open>A timer is expired at a clock reading when its expiry, in milliseconds, has been reached.\<close>

definition expired :: "timespec \<Rightarrow> timespec \<Rightarrow> bool" where
  "expired now t \<longleftrightarrow> timespec_to_msec t \<le> timespec_to_msec now"

definition fired_in :: "timer_queues \<Rightarrow> (addr \<times> timespec) list \<Rightarrow> call list" where
  "fired_in q fs = map (\<lambda>(a, now). TimerCall a (expires q a) now) fs"

lemma subseq_filter_Cons: "subseq xs (filter P ts) \<Longrightarrow> subseq (a # xs) (a # ts)"
  by (meson subseq_Cons2 subseq_filter_left subseq_order.order_trans)

lemma subseq_in_set: "subseq xs ys \<Longrightarrow> x \<in> set xs \<Longrightarrow> x \<in> set ys"
  by (erule list_emb_set) auto

lemma process_timers_spec:
  assumes "env_ok e" and "cbs_ok e" and "core_inv c"
  shows "\<exists>c' fs. ts_core_process_timers e c = Some c' \<and> core_inv c' \<and>
    calls c' = calls c @ fired_in (tq c) fs \<and> subseq (map fst fs) (timers (tq c)) \<and>
    (\<forall>(a, now) \<in> set fs. expired now (expires (tq c) a)) \<and>
    (\<forall>b \<in> set (timers (tq c')). b \<in> set (timers (tq c)) \<and> timer_at (tq c') b = timer_at (tq c) b) \<and>
    (case timers (tq c') of [] \<Rightarrow> True
     | b # _ \<Rightarrow> \<exists>k \<ge> ticks c. \<not> expired (clk e k) (expires (tq c') b))"
  using assms(3)
proof (induction "length (timers (tq c))" arbitrary: c rule: less_induct)
  case less
  show ?case
  proof (cases "timers (tq c)")
    case Nil
    then show ?thesis
      using less.prems by (subst ts_core_process_timers.simps) (auto simp: fired_in_def)
  next
    case (Cons a ts)
    let ?now = "clk e (ticks c)" and ?c = "c\<lparr>ticks := Suc (ticks c)\<rparr>"
    have ci: "core_inv ?c" and hd: "timers (tq ?c) = a # ts"
      using less.prems Cons by (simp_all add: core_inv_def)
    show ?thesis
    proof (cases "expired ?now (expires (tq c) a)")
      case False
      then have "ts_core_process_timers e c = Some ?c"
        using Cons by (subst ts_core_process_timers.simps) (simp add: clock_gettime_def expired_def)
      with False ci hd show ?thesis
        by (intro exI [of _ ?c] exI [of _ "[]"]) (auto simp: fired_in_def Cons)
    next
      case True
      obtain c1 P where c1: "execute_timer_callback e ?now a ?c = Some c1" "core_inv c1"
        "timers (tq c1) = filter P ts" "\<forall>b \<in> set (timers (tq c1)). timer_at (tq c1) b = timer_at (tq c) b"
        "calls c1 = calls c @ [TimerCall a (expires (tq c) a) ?now]" "Suc (ticks c) \<le> ticks c1"
        using execute_timer_callback_spec [OF assms(1,2) ci hd, of ?now] by auto
      have "length (timers (tq c1)) < length (timers (tq c))"
        by (simp add: c1(3) Cons le_imp_less_Suc)
      from less.hyps [OF this c1(2)] obtain c2 fs where c2: "ts_core_process_timers e c1 = Some c2"
        "core_inv c2" "calls c2 = calls c1 @ fired_in (tq c1) fs" "subseq (map fst fs) (timers (tq c1))"
        "\<forall>(b, now) \<in> set fs. expired now (expires (tq c1) b)"
        "\<forall>b \<in> set (timers (tq c2)). b \<in> set (timers (tq c1)) \<and> timer_at (tq c2) b = timer_at (tq c1) b"
        "case timers (tq c2) of [] \<Rightarrow> True
         | b # _ \<Rightarrow> \<exists>k \<ge> ticks c1. \<not> expired (clk e k) (expires (tq c2) b)"
        by blast
      have p: "ts_core_process_timers e c = Some c2"
        using Cons True c1(1) c2(1)
        by (subst ts_core_process_timers.simps) (simp add: clock_gettime_def expired_def)
      have ex: "expires (tq c1) b = expires (tq c) b" if "b \<in> set (map fst fs)" for b
        using subseq_in_set [OF c2(4) that] c1(4) by (simp add: expires_def)
      then have f: "fired_in (tq c1) fs = fired_in (tq c) fs"
        unfolding fired_in_def by (intro map_cong) (fastforce intro: ex)+
      have "subseq (a # map fst fs) (a # ts)"
        using c2(4) unfolding c1(3) by (rule subseq_filter_Cons)
      moreover have "\<forall>(b, now) \<in> set fs. expired now (expires (tq c) b)"
        using c2(5) ex by force
      moreover have "case timers (tq c2) of [] \<Rightarrow> True
        | b # _ \<Rightarrow> \<exists>k \<ge> ticks c. \<not> expired (clk e k) (expires (tq c2) b)"
        using c2(7) c1(6) by (auto split: list.splits intro: exI order_trans Suc_leD)
      ultimately show ?thesis
        using p c2(2,3,6) c1(3-5) f True Cons
        by (intro exI [of _ c2] exI [of _ "(a, ?now) # fs"]) (auto simp: fired_in_def)
    qed
  qed
qed

section \<open>Polling, dispatch and deep sleep are safe\<close>

definition clock_ok :: "env \<Rightarrow> bool" where
  "clock_ok e \<longleftrightarrow> (\<forall>k. normal_ts (clk e k) \<and> uint (tv_sec (clk e k)) < 2147483648) \<and>
     (\<forall>i j. i \<le> j \<longrightarrow> ns_of (clk e i) \<le> ns_of (clk e j))"

definition polls_end :: "env \<Rightarrow> bool" where
  "polls_end e \<longleftrightarrow> (\<forall>k. \<exists>n \<ge> k. \<forall>ps t. poll_fn e n ps t \<noteq> PollEINTR \<and> poll_fn e n ps t \<noteq> PollEAGAIN)"

lemma store_revents_simps [simp]:
  "length (store_revents rv ps) = length ps" "map fd (store_revents rv ps) = map fd ps"
  by (auto simp: store_revents_def intro: nth_equalityI)

lemma deleted_map_fd: "map fd ps = map fd qs \<Longrightarrow> deleted ps = deleted qs"
proof -
  have "deleted ps = length (filter (\<lambda>f. f < 0) (map fd ps))" for ps
    by (simp add: deleted_def filter_map o_def)
  then show "map fd ps = map fd qs \<Longrightarrow> deleted ps = deleted qs" by metis
qed

lemma core_inv_store_revents:
  assumes "core_inv c"
  shows "core_inv (c\<lparr>ft := (ft c)\<lparr>pollfds := store_revents rv (pollfds (ft c))\<rparr>\<rparr>)"
  using assms deleted_map_fd [OF store_revents_simps(2) [of rv "pollfds (ft c)"]]
  by (simp add: core_inv_def ft_inv_def nfiles_def)

definition same_but_poll :: "ts_core_s \<Rightarrow> ts_core_s \<Rightarrow> bool" where
  "same_but_poll c c' \<longleftrightarrow> tq c' = tq c \<and> deepsleep_hooks c' = deepsleep_hooks c \<and> calls c' = calls c \<and>
     ticks c \<le> ticks c' \<and> map fd (pollfds (ft c')) = map fd (pollfds (ft c))"

lemma poll_retry_returns:
  assumes "polls_end e" and "core_inv c"
  shows "\<exists>r c'. poll_retry e retry timeout c = Some (r, c') \<and> core_inv c' \<and> same_but_poll c c' \<and>
    (r = -1 \<or> r = count_revents (pollfds (ft c')))"
proof -
  obtain n where n: "n \<ge> ticks c" "\<forall>ps t. poll_fn e n ps t \<noteq> PollEINTR \<and> poll_fn e n ps t \<noteq> PollEAGAIN"
    using assms(1) unfolding polls_end_def by blast
  from n(1) assms(2) show ?thesis
  proof (induction "n - ticks c" arbitrary: c rule: less_induct)
    case less
    let ?c = "c\<lparr>ticks := Suc (ticks c)\<rparr>"
    have ci: "core_inv ?c" using less.prems(2) by (simp add: core_inv_def)
    have ih: ?case
      if "poll_retry e retry timeout c = poll_retry e retry timeout ?c" "ticks c \<noteq> n"
    proof -
      have "n - ticks ?c < n - ticks c" "ticks ?c \<le> n" using that(2) less.prems(1) by simp_all
      from less.hyps [OF this ci] that(1) show ?thesis
        by (auto simp: same_but_poll_def)
    qed
    show ?case
    proof (cases "poll_fn e (ticks c) (pollfds (ft c)) timeout")
      case (PollReady rv)
      then show ?thesis
        using core_inv_store_revents [OF ci, of rv]
        by (subst poll_retry.simps) (auto simp: same_but_poll_def Let_def)
    next
      case PollEINTR
      with n(2) have "ticks c \<noteq> n" by metis
      with PollEINTR show ?thesis by (intro ih) (subst poll_retry.simps, simp)
    next
      case PollEAGAIN
      with n(2) have k: "ticks c \<noteq> n" by metis
      show ?thesis
      proof (cases retry)
        case True
        with PollEAGAIN k show ?thesis by (intro ih) (subst poll_retry.simps, simp)
      next
        case False
        with PollEAGAIN ci show ?thesis by (subst poll_retry.simps) (auto simp: same_but_poll_def)
      qed
    next
      case PollError
      with ci show ?thesis by (subst poll_retry.simps) (auto simp: same_but_poll_def)
    qed
  qed
qed

lemma process_files_returns:
  assumes "env_ok e" and "cbs_ok e" and "core_inv c"
  shows "\<exists>c'. process_files e i nrevents c = Some c' \<and> core_inv c' \<and> ticks c \<le> ticks c'"
  using assms(3)
proof (induction "TS_CORE_NFILES - i" arbitrary: i nrevents c rule: less_induct)
  case less
  show ?case
  proof (cases "nrevents > 0 \<and> i < nfiles (ft c)")
    case False
    with less.prems show ?thesis by (subst process_files.simps) auto
  next
    case True
    let ?p = "pollfds (ft c) ! i" and ?f = "files (ft c) ! i"
    let ?n = "nrevents - (if revents ?p \<noteq> 0 then 1 else 0)"
    have "i < TS_CORE_NFILES" using True less.prems by (simp add: core_inv_def ft_inv_def)
    then have dec: "TS_CORE_NFILES - Suc i < TS_CORE_NFILES - i" by simp
    show ?thesis
    proof (cases "revents ?p \<noteq> 0 \<and> fd ?p \<ge> 0")
      case call: True
      let ?c0 = "c\<lparr>calls := calls c @ [FdCall (fd ?p) (revents ?p)]\<rparr>"
      let ?ops = "snd (fd_cb e (f_callback ?f) ?p (f_priv ?f) c)"
      have "core_inv ?c0" "list_all op_ok ?ops"
        using less.prems assms(2) by (simp_all add: core_inv_def cbs_ok_def)
      then obtain c1 where c1: "run_steps (apply_op e) ?ops ?c0 = Some c1" "core_inv c1"
        using run_ops_safe [OF assms(1)] by blast
      obtain c2 where c2: "process_files e (Suc i) ?n c1 = Some c2" "core_inv c2" "ticks c1 \<le> ticks c2"
        using less.hyps [OF dec c1(2)] by blast
      have "ticks c \<le> ticks c1" using run_ops_frame [OF c1(1)] by simp
      moreover have "process_files e i nrevents c = Some c2"
        using True call c1(1) c2(1) by (subst process_files.simps) (simp add: Let_def split_def)
      ultimately show ?thesis using c2 by auto
    next
      case False
      then have "process_files e i nrevents c = process_files e (Suc i) ?n c"
        using True by (subst process_files.simps) (auto simp: Let_def)
      with less.hyps [OF dec less.prems, of ?n] show ?thesis by simp
    qed
  qed
qed

lemma sint_diff_nsec:
  assumes "normal_ts a" and "normal_ts b"
  shows "sint (tv_nsec b - tv_nsec a) = sint (tv_nsec b) - sint (tv_nsec a)"
proof -
  have "- 2147483648 \<le> sint (tv_nsec b) - sint (tv_nsec a)" "sint (tv_nsec b) - sint (tv_nsec a) < 2147483648"
    using assms by (simp_all add: normal_ts_def)
  then show ?thesis by (simp add: sint_word_ariths signed_take_bit_int_eq_self)
qed

lemma sdiv_million_ge:
  fixes n :: int
  assumes "- NSEC_PER_SEC < n"
  shows "- 1000 < n sdiv 1000000"
proof (cases "0 \<le> n")
  case True
  then have "n sdiv 1000000 = n div 1000000" by (cases "n = 0") (simp_all add: signed_divide_int_def)
  with True show ?thesis by (simp add: pos_imp_zdiv_nonneg_iff order_less_le_trans)
next
  case False
  then have "n sdiv 1000000 = - ((- n) div 1000000)" by (simp add: signed_divide_int_def)
  moreover have "(- n) div 1000000 < 1000" using assms by (simp add: div_less_iff_less_mult)
  ultimately show ?thesis by simp
qed

lemma time_deepslept_returns:
  assumes "normal_ts a" "normal_ts b" "uint (tv_sec a) < 2147483648" "uint (tv_sec b) < 2147483648"
    and "ns_of a \<le> ns_of b"
  shows "\<exists>t \<ge> 0. time_deepslept a b = Some t"
proof -
  let ?d = "uint (tv_sec b) - uint (tv_sec a)" and ?n = "sint (tv_nsec b) - sint (tv_nsec a)"
  have n: "- NSEC_PER_SEC < ?n" "?n < NSEC_PER_SEC" using assms(1,2) by (simp_all add: normal_ts_def)
  have mono: "0 \<le> ?d * NSEC_PER_SEC + ?n" using assms(5) by (simp add: ns_of_def algebra_simps)
  have d: "0 \<le> ?d"
  proof (rule ccontr)
    assume "\<not> 0 \<le> ?d"
    then have "?d * NSEC_PER_SEC \<le> -1 * NSEC_PER_SEC" by (intro mult_right_mono) simp_all
    with mono n show False by linarith
  qed
  have "sint (word_of_int ?d :: u32) = ?d"
    using d assms(3,4) uint_ge_0 [of "tv_sec a"] by (intro sint_u32_of_int) linarith+
  then have s: "sint (tv_sec b - tv_sec a) = ?d" by (simp add: word_of_int_minus)
  have "0 \<le> ?d * 1000 + ?n sdiv 1000000"
  proof (cases "?d = 0")
    case True
    then have "0 \<le> ?n" using mono by simp
    then have "?n sdiv 1000000 = ?n div 1000000" by (cases "?n = 0") (simp_all add: signed_divide_int_def)
    with True \<open>0 \<le> ?n\<close> show ?thesis by (simp add: pos_imp_zdiv_nonneg_iff)
  next
    case False
    then have "1 \<le> ?d" using d by simp
    then have "1 * 1000 \<le> ?d * 1000" by (rule mult_right_mono) simp
    with sdiv_million_ge [OF n(1)] show ?thesis by linarith
  qed
  then show ?thesis
    using s sint_diff_nsec [OF assms(1,2)] by (simp add: time_deepslept_def Let_def)
qed

lemma time_deepslept_bound:
  assumes "normal_ts a" and "normal_ts b" and "time_deepslept a b = Some t"
  shows "t \<le> INT_MAX"
proof (cases "sint (tv_sec b - tv_sec a) < INT_MAX div 1000")
  case True
  let ?n = "sint (tv_nsec b) - sint (tv_nsec a)"
  have n: "?n < NSEC_PER_SEC" using assms(1,2) by (simp add: normal_ts_def)
  have "?n sdiv 1000000 < 1000"
  proof (cases "0 \<le> ?n")
    case True
    then have "?n sdiv 1000000 = ?n div 1000000" by (cases "?n = 0") (simp_all add: signed_divide_int_def)
    with n show ?thesis by (simp add: div_less_iff_less_mult)
  next
    case False
    then have "?n sdiv 1000000 = - ((- ?n) div 1000000)" by (simp add: signed_divide_int_def)
    moreover have "0 \<le> (- ?n) div 1000000" using False by (simp add: pos_imp_zdiv_nonneg_iff)
    ultimately show ?thesis by simp
  qed
  then show ?thesis
    using assms(3) True sint_diff_nsec [OF assms(1,2)]
    by (simp add: time_deepslept_def Let_def split: if_splits)
next
  case False
  then show ?thesis using assms(3) by (simp add: time_deepslept_def Let_def split: if_splits)
qed

lemma hooks_allow_iff: "hooks_allow e hs \<longleftrightarrow> (\<forall>h \<in> set hs. hook_fn e (hook h) (h_priv h))"
  by (induction hs) auto

lemma count_revents_pos: "count_revents ps > 0 \<longleftrightarrow> (\<exists>p \<in> set ps. revents p \<noteq> 0)"
proof -
  have "filter (\<lambda>p. revents p \<noteq> 0) ps \<noteq> [] \<longleftrightarrow> (\<exists>p \<in> set ps. revents p \<noteq> 0)"
    by (auto simp: filter_empty_conv)
  then show ?thesis by (simp add: count_revents_def)
qed

text \<open>What a sleep of \<open>d\<close> milliseconds started in state \<open>c\<close> must respect.\<close>

definition sleep_allowed :: "env \<Rightarrow> ts_core_s \<Rightarrow> int \<Rightarrow> bool" where
  "sleep_allowed e c d \<longleftrightarrow>
     (\<forall>h \<in> set (deepsleep_hooks c). hook_fn e (hook h) (h_priv h)) \<and>
     (d = 0 \<longleftrightarrow> timers (tq c) = []) \<and> 0 \<le> d \<and> d \<le> BOARD_DEEPSLEEP_MAX_SECS * 1000 \<and>
     ((\<forall>a \<in> set (timers (tq c)). normal_ts (expires (tq c) a)) \<longrightarrow>
       (\<exists>k \<ge> ticks c. \<forall>a \<in> set (timers (tq c)).
         timespec_to_msec (clk e k) + d \<le> timespec_to_msec (expires (tq c) a)))"

lemma read_timeout_frame:
  assumes "read_timeout e c = (t, c')"
  shows "tq c' = tq c" "ft c' = ft c" "calls c' = calls c" "deepsleep_hooks c' = deepsleep_hooks c"
    "ticks c \<le> ticks c'" "core_inv c' = core_inv c" "-1 \<le> t"
  using assms get_timeout_range [of "tq c" "clk e (ticks c)"]
  by (auto simp: read_timeout_def clock_gettime_def core_inv_def split: if_splits)

lemma sleep_allowed_from_timeout:
  assumes "core_inv c" and "hooks_allow e (deepsleep_hooks c)" and "read_timeout e c = (t, c')" and "t \<noteq> 0"
  shows "sleep_allowed e c (deepsleep_duration t)"
proof (cases "timers (tq c) = []")
  case True
  with assms(2,3) show ?thesis
    by (auto simp: sleep_allowed_def read_timeout_def deepsleep_duration_def hooks_allow_iff)
next
  case False
  then have t: "t = ts_core_timer_get_timeout (clk e (ticks c)) (tq c)"
    using assms(3) by (simp add: read_timeout_def clock_gettime_def)
  with get_timeout_range [OF False] assms(4) have pos: "0 < t" "t \<le> INT_MAX"
    by (metis order_le_less, simp)
  have tqi: "tq_inv (tq c)" using assms(1) by (simp add: core_inv_def)
  have "timespec_to_msec (clk e (ticks c)) + deepsleep_duration t \<le> timespec_to_msec (expires (tq c) a)"
    if n: "\<forall>a \<in> set (timers (tq c)). normal_ts (expires (tq c) a)" and a: "a \<in> set (timers (tq c))" for a
  proof -
    have "timespec_to_msec (clk e (ticks c)) < timespec_to_msec (expires (tq c) a)"
      using get_timeout_zero [OF tqi n, of "clk e (ticks c)"] a assms(4) t by auto
    from get_timeout_not_late [OF tqi n a this] pos show ?thesis
      by (simp add: t deepsleep_duration_def)
  qed
  then show ?thesis
    using False pos assms(2) unfolding sleep_allowed_def hooks_allow_iff
    by (auto simp: deepsleep_duration_def intro: exI [of _ "ticks c"])
qed

lemma sleep_allowed_same:
  assumes "sleep_allowed e c1 d" and "same_but_poll c c1"
  shows "sleep_allowed e c d"
  using assms by (auto simp: sleep_allowed_def same_but_poll_def intro: order_trans)

lemma clock_ok_step:
  assumes "clock_ok e"
  shows "\<exists>t \<ge> 0. time_deepslept (clk e k) (clk e (Suc k)) = Some t \<and> t \<le> INT_MAX"
  using assms time_deepslept_returns [of "clk e k" "clk e (Suc k)"]
    time_deepslept_bound [of "clk e k" "clk e (Suc k)"]
  unfolding clock_ok_def by (metis Suc_leD le_refl lessI less_imp_le_nat)

text \<open>Everything up to the sleep itself: hooks, poll, time to the next timer.\<close>

lemma ts_core_deepsleep_spec:
  assumes "clock_ok e" and "polls_end e" and "core_inv c"
  shows "\<exists>t c'. ts_core_deepsleep e c = Some (t, c') \<and> core_inv c' \<and> tq c' = tq c \<and>
    deepsleep_hooks c' = deepsleep_hooks c \<and> ticks c \<le> ticks c' \<and> 0 \<le> t \<and> t \<le> INT_MAX \<and>
    (calls c' = calls c \<and> t = 0 \<or>
     (\<exists>d. calls c' = calls c @ [DeepSleep d] \<and> sleep_allowed e c d \<and>
       (nfiles (ft c) > 0 \<longrightarrow> fst (the (poll_retry e True 0 c)) \<noteq> -1 \<longrightarrow>
         (\<forall>p \<in> set (pollfds (ft c')). revents p = 0))))"
proof (cases "hooks_allow e (deepsleep_hooks c)")
  case False
  with assms(3) show ?thesis by (auto simp: ts_core_deepsleep_def)
next
  case True
  let ?polled = "if nfiles (ft c) > 0 then poll_retry e True 0 c else Some (0, c)"
  obtain r c1 where c1: "?polled = Some (r, c1)" "core_inv c1" "same_but_poll c c1"
    "nfiles (ft c) > 0 \<longrightarrow> r = -1 \<or> r = count_revents (pollfds (ft c1))"
    using poll_retry_returns [OF assms(2,3), of True 0] assms(3)
    by (cases "nfiles (ft c) > 0") (auto simp: same_but_poll_def)
  have eq: "tq c1 = tq c" "calls c1 = calls c" "ticks c \<le> ticks c1"
    "deepsleep_hooks c1 = deepsleep_hooks c"
    using c1(3) by (simp_all add: same_but_poll_def)
  show ?thesis
  proof (cases "r > 0 \<and> (\<exists>p \<in> set (pollfds (ft c1)). revents p \<noteq> 0)")
    case ready: True
    then have "ts_core_deepsleep e c = Some (0, c1)"
      using True c1(1) by (simp add: ts_core_deepsleep_def)
    with c1(2) eq show ?thesis by auto
  next
    case False
    obtain t c2 where c2: "read_timeout e c1 = (t, c2)" by fastforce
    note fr = read_timeout_frame [OF c2]
    show ?thesis
    proof (cases "t = 0")
      case t0: True
      then have "ts_core_deepsleep e c = Some (0, c2)"
        using True c1(1) False c2 by (auto simp: ts_core_deepsleep_def)
      with c1(2) eq fr show ?thesis by auto
    next
      case t: False
      let ?d = "deepsleep_duration t"
      let ?c3 = "c2\<lparr>ticks := Suc (Suc (ticks c2)), calls := calls c2 @ [DeepSleep ?d]\<rparr>"
      obtain s where s: "time_deepslept (clk e (ticks c2)) (clk e (Suc (ticks c2))) = Some s" "0 \<le> s" "s \<le> INT_MAX"
        using clock_ok_step [OF assms(1)] by blast
      have "ts_core_deepsleep e c = Some (s, ?c3)"
        using True c1(1) False c2 t s(1) by (auto simp: ts_core_deepsleep_def clock_gettime_def)
      moreover have "core_inv ?c3" using fr(6) c1(2) by (simp add: core_inv_def)
      moreover have "sleep_allowed e c ?d"
        using sleep_allowed_same [OF sleep_allowed_from_timeout [OF c1(2) _ c2 t] c1(3)] True eq by simp
      moreover have "\<forall>p \<in> set (pollfds (ft ?c3)). revents p = 0"
        if "nfiles (ft c) > 0" "fst (the (poll_retry e True 0 c)) \<noteq> -1"
        using that c1(1,4) False count_revents_pos [of "pollfds (ft c1)"] fr(2) by auto
      ultimately show ?thesis
        using eq fr s by (intro exI [of _ s] exI [of _ ?c3]) auto
    qed
  qed
qed

section \<open>One iteration and the whole loop\<close>

lemma poll_timeout_range:
  assumes "-1 \<le> timeout" and "0 \<le> slept"
  shows "0 \<le> poll_timeout timeout slept \<and> poll_timeout timeout slept \<le> TS_CORE_MAX_POLL_TIMEOUT_MSEC"
    and "timeout \<noteq> -1 \<Longrightarrow> poll_timeout timeout slept \<le> timeout"
  using assms by (auto simp: poll_timeout_def Let_def)

lemma poll_and_dispatch_returns:
  assumes "env_ok e" "cbs_ok e" "polls_end e" "core_inv c"
  shows "\<exists>c'. poll_and_dispatch e t c = Some c' \<and> core_inv c' \<and> ticks c \<le> ticks c'"
proof (cases "nfiles (ft c) > 0")
  case False
  with assms(4) show ?thesis by (simp add: poll_and_dispatch_def)
next
  case True
  obtain r c1 where c1: "poll_retry e False t c = Some (r, c1)" "core_inv c1" "ticks c \<le> ticks c1"
    using poll_retry_returns [OF assms(3,4), of False t] by (auto simp: same_but_poll_def)
  obtain c2 where c2: "process_files e 0 r c1 = Some c2" "core_inv c2" "ticks c1 \<le> ticks c2"
    using process_files_returns [OF assms(1,2) c1(2)] by blast
  obtain t where "ts_core_gc_files (ft c2) = Some t" "ft_inv t"
    using ts_core_gc_files_spec [of "ft c2"] ts_core_gc_files_inv [of "ft c2"] c2(2)
    unfolding core_inv_def by blast
  with c1 c2 True show ?thesis by (simp add: poll_and_dispatch_def core_inv_def)
qed

abbreviation loop_env :: "env \<Rightarrow> bool" where
  "loop_env e \<equiv> env_ok e \<and> cbs_ok e \<and> clock_ok e \<and> polls_end e"

lemma ts_core_process_safe:
  assumes "loop_env e" and "core_inv c"
  shows "\<exists>c'. ts_core_process e c = Some c' \<and> core_inv c'"
proof -
  obtain s c1 where c1: "ts_core_deepsleep e c = Some (s, c1)" "core_inv c1"
    using ts_core_deepsleep_spec [of e c] assms by blast
  obtain t c2 where c2: "read_timeout e c1 = (t, c2)" by fastforce
  obtain c3 where c3: "poll_and_dispatch e (poll_timeout t s) c2 = Some c3" "core_inv c3"
    using poll_and_dispatch_returns [of e c2] assms(1) c1(2) read_timeout_frame(6) [OF c2] by blast
  obtain c4 where c4: "ts_core_process_timers e c3 = Some c4" "core_inv c4"
    using process_timers_spec [of e c3] assms(1) c3(2) by blast
  have "ts_core_process e c = Some (c4\<lparr>tq := ts_core_gc_timers (tq c4)\<rparr>)"
    using c1 c2 c3 c4 by (simp add: ts_core_process_def)
  moreover have "core_inv (c4\<lparr>tq := ts_core_gc_timers (tq c4)\<rparr>)"
    using c4(2) ts_core_gc_timers_inv by (simp add: core_inv_def)
  ultimately show ?thesis by blast
qed

text \<open>The loop as a machine: each iteration is a step in some environment.\<close>

interpretation main: safe_machine ts_core_process loop_env core_inv
  by unfold_locales (use ts_core_process_safe in fastforce)+

lemma mainloop_run_steps: "mainloop_iterations e n c = run_steps ts_core_process (replicate n e) c"
  by (induction n arbitrary: c) (auto split: bind_splits option.splits)

lemma mainloop_safe:
  assumes "loop_env e" and "core_inv c"
  shows "\<exists>c'. ts_core_mainloop e n c = Some c' \<and> core_inv c'"
proof -
  have "core_inv (c\<lparr>tq := ts_core_gc_timers (tq c)\<rparr>)"
    using assms(2) ts_core_gc_timers_inv by (simp add: core_inv_def)
  then show ?thesis
    unfolding ts_core_mainloop_def mainloop_run_steps
    by (rule main.run_safe) (use assms(1) in \<open>simp add: list_all_iff\<close>)
qed

text \<open>With a monotonic clock no timer that had expired on entry is left in the active queue.\<close>

lemma process_timers_complete:
  assumes "env_ok e" and "cbs_ok e" and "clock_ok e" and "core_inv c"
    and normal: "\<forall>a \<in> set (timers (tq c)). normal_ts (expires (tq c) a)"
    and run: "ts_core_process_timers e c = Some c'" and a: "a \<in> set (timers (tq c'))"
  shows "\<not> expired (clk e (ticks c)) (expires (tq c') a)"
proof -
  obtain fs where r: "core_inv c'"
    "\<forall>b \<in> set (timers (tq c')). b \<in> set (timers (tq c)) \<and> timer_at (tq c') b = timer_at (tq c) b"
    "case timers (tq c') of [] \<Rightarrow> True | b # _ \<Rightarrow> \<exists>k \<ge> ticks c. \<not> expired (clk e k) (expires (tq c') b)"
    using process_timers_spec [OF assms(1,2,4)] run by auto
  obtain h ts where h: "timers (tq c') = h # ts" using a by (cases "timers (tq c')") auto
  with r(3) obtain k where k: "k \<ge> ticks c" "\<not> expired (clk e k) (expires (tq c') h)" by auto
  have n: "\<forall>b \<in> set (timers (tq c')). normal_ts (expires (tq c') b)"
    using r(2) normal by (simp add: expires_def)
  have "timespec_to_msec (clk e (ticks c)) \<le> timespec_to_msec (clk e k)"
    using assms(3) k(1) by (intro timespec_to_msec_mono) (auto simp: clock_ok_def)
  moreover have "timespec_to_msec (expires (tq c') h) \<le> timespec_to_msec (expires (tq c') a)"
    using r(1) by (intro in_order_head_msec [OF _ h a n]) (simp add: core_inv_def)
  ultimately show ?thesis using k(2) by (simp add: expired_def)
qed

end
