(* ===== verification/Event_Loop.thy ===== *)
theory Event_Loop
  imports Ts_Core
begin

text \<open>
  The properties of the event loop of \<open>ts_core.c\<close>, of the linked queues and of the time arithmetic
  under it, stated over the definitions of the component theories, and concrete states at which
  their hypotheses hold.
\<close>

section \<open>Concrete states\<close>

definition demo_time :: "nat \<Rightarrow> timespec" where
  "demo_time s = \<lparr>tv_sec = word_of_nat s, tv_nsec = 0\<rparr>"

definition demo_timer :: "int \<Rightarrow> ts_timer_type_e \<Rightarrow> nat \<Rightarrow> timer_s" where
  "demo_timer i ty s = \<lparr>t_id = i, t_type = ty, t_done = False, date_expires = demo_time s,
     interval_ms = 1000, t_callback = 7, t_priv = 0\<rparr>"

text \<open>Two active timers, due after one and after three seconds, and a new one due after two.\<close>

definition demo_timers :: timer_queues where
  "demo_timers = \<lparr>tmem = [16 \<mapsto> demo_timer 17 TS_TIMER_TYPE_INTERVAL 1, 32 \<mapsto> demo_timer 33 TS_TIMER_TYPE_DATE 3,
       48 \<mapsto> demo_timer 49 TS_TIMER_TYPE_TIMEOUT 2],
     timers = [16, 32], new_timers = [48], done_timers = [], heap_size = 1024\<rparr>"

definition demo_files :: file_table where
  "demo_files = \<lparr>files = [\<lparr>f_callback = 1, f_priv = 0, reg_func_name = []\<rparr>, \<lparr>f_callback = 2, f_priv = 0, reg_func_name = []\<rparr>],
     pollfds = [\<lparr>fd = -1, events = 1, revents = 0\<rparr>, \<lparr>fd = 5, events = 1, revents = 0\<rparr>], nfiles_deleted = 1\<rparr>"

definition demo_core :: ts_core_s where
  "demo_core = \<lparr>tq = demo_timers, ft = demo_files, deepsleep_hooks = [], ticks = 0, calls = []\<rparr>"

text \<open>A clock that starts at one second, an allocator with one block, a callback that stops a timer.\<close>

definition demo_env :: env where
  "demo_env = \<lparr>clk = (\<lambda>k. demo_time (min (Suc k) 1000)),
     calloc = (\<lambda>m. if m 64 = None then Some 64 else None), arena = 1024,
     timer_cb = (\<lambda>cb i priv c. (0, [Op_timer_stop 33])), fd_cb = (\<lambda>cb pfd priv c. (0, [])),
     hook_fn = (\<lambda>h priv. True), poll_fn = (\<lambda>k ps t. PollReady (\<lambda>i. 0))\<rparr>"

lemma demo_time_sec: "s \<le> 1000 \<Longrightarrow> uint (tv_sec (demo_time s)) = int s"
  by (simp add: demo_time_def unsigned_of_nat take_bit_nat_eq_self)

lemma ns_of_demo_time: "s \<le> 1000 \<Longrightarrow> ns_of (demo_time s) = int s * NSEC_PER_SEC"
  using demo_time_sec [of s] by (simp add: ns_of_def demo_time_def)

lemma demo_time_normal [simp]: "normal_ts (demo_time s)"
  by (simp add: normal_ts_def demo_time_def)

lemma demo_timers_inv: "tq_inv demo_timers"
proof (rule tq_invI)
  show "in_order (expires demo_timers) (timers demo_timers)"
    by (simp add: demo_timers_def expires_def timer_at_def demo_timer_def ns_of_demo_time)
qed (auto simp: demo_timers_def queued_def timer_ok_def timer_at_def demo_timer_def)


lemma demo_arena: "in_arena 0 demo_timers"
  by (simp add: in_arena_def demo_timers_def)

lemma demo_files_inv: "ft_inv demo_files"
  by (simp add: ft_inv_def demo_files_def nfiles_def)

lemma demo_core_inv: "core_inv demo_core"
  by (simp add: core_inv_def demo_core_def demo_timers_inv demo_files_inv)

lemma demo_env_ok: "env_ok demo_env" "cbs_ok demo_env" "clock_ok demo_env" "polls_end demo_env"
proof -
  show "env_ok demo_env" by (auto simp: env_ok_def demo_env_def split: if_splits)
  show "cbs_ok demo_env" by (simp add: cbs_ok_def demo_env_def)
  show "polls_end demo_env" by (auto simp: polls_end_def demo_env_def)
  show "clock_ok demo_env"
    by (auto simp: clock_ok_def demo_env_def ns_of_demo_time demo_time_sec)
qed

section \<open>The main loop\<close>

text \<open>The zero-initialised \<open>g_ts_core\<close> after \<open>ts_core_initialize\<close>.\<close>

definition boot_core :: ts_core_s where
  "boot_core = ts_core_initialize
     \<lparr>tq = \<lparr>tmem = Map.empty, timers = [], new_timers = [], done_timers = [], heap_size = 0\<rparr>,
      ft = \<lparr>files = [], pollfds = [], nfiles_deleted = 0\<rparr>, deepsleep_hooks = [], ticks = 0, calls = []\<rparr>"

lemma boot_core_inv: "core_inv boot_core"
  by (simp add: boot_core_def ts_core_initialize_def timers_initialize_def files_initialize_def core_inv_def
      timers_initial_inv ft_inv_def nfiles_def)

text \<open>
  C1. After initialisation, any calls of the interface followed by any number of main loop
  iterations complete: no assertion of \<open>ts_core.c\<close> fails, every inner loop ends (with callbacks
  that may again call any interface function), and the timer queues and the descriptor table are
  well formed at the end. The clock is monotonic, \<open>calloc\<close> returns unused blocks, \<open>poll\<close> does not
  fail with \<open>EINTR\<close> for ever, and no caller stops an identifier below the first one.
\<close>

theorem mainloop_never_fails:
  assumes "loop_env e" and "list_all op_ok ops"
  shows "\<exists>c c'. run_steps (apply_op e) ops boot_core = Some c \<and> ts_core_mainloop e n c = Some c' \<and> core_inv c'"
proof -
  obtain c where "run_steps (apply_op e) ops boot_core = Some c" "core_inv c"
    using run_ops_safe [OF _ boot_core_inv] assms by blast
  then show ?thesis using mainloop_safe assms(1) by blast
qed

theorem mainloop_never_fails_witness:
  "\<exists>c c'. run_steps (apply_op demo_env)
      [Op_fd_register 5 1 (Some 1) 0 [], Op_timer_setup TS_TIMER_TYPE_INTERVAL 1000 (Some 7) 0, Op_fd_unregister 5] boot_core = Some c \<and>
    ts_core_mainloop demo_env 3 c = Some c' \<and> core_inv c'"
  by (rule mainloop_never_fails) (simp_all add: demo_env_ok)



text \<open>
  C23. \<open>ts_core_deepsleep\<close> returns a duration between 0 and \<open>INT_MAX\<close>. It puts the board to sleep
  at most once, and only when every hook allows it, a successful \<open>poll\<close> reports no events, and no
  timer has expired; the requested duration is within the limit of the board, is 0 (sleep until an
  interrupt) exactly when there is no active timer, and ends no later than the earliest timer.
\<close>

theorem deepsleep_is_bounded:
  assumes "clock_ok e" and "polls_end e" and "core_inv c"
  shows "\<exists>t c'. ts_core_deepsleep e c = Some (t, c') \<and> core_inv c' \<and> tq c' = tq c \<and>
    deepsleep_hooks c' = deepsleep_hooks c \<and> ticks c \<le> ticks c' \<and> 0 \<le> t \<and> t \<le> INT_MAX \<and>
    (calls c' = calls c \<and> t = 0 \<or>
     (\<exists>d. calls c' = calls c @ [DeepSleep d] \<and> sleep_allowed e c d \<and>
       (nfiles (ft c) > 0 \<longrightarrow> fst (the (poll_retry e True 0 c)) \<noteq> -1 \<longrightarrow>
         (\<forall>p \<in> set (pollfds (ft c')). revents p = 0))))"
  by (rule ts_core_deepsleep_spec [OF assms])

theorem deepsleep_is_bounded_witness:
  "\<exists>t c'. ts_core_deepsleep demo_env demo_core = Some (t, c') \<and> core_inv c' \<and> tq c' = tq demo_core \<and>
    deepsleep_hooks c' = deepsleep_hooks demo_core \<and> ticks demo_core \<le> ticks c' \<and> 0 \<le> t \<and> t \<le> INT_MAX \<and>
    (calls c' = calls demo_core \<and> t = 0 \<or>
     (\<exists>d. calls c' = calls demo_core @ [DeepSleep d] \<and> sleep_allowed demo_env demo_core d \<and>
       (nfiles (ft demo_core) > 0 \<longrightarrow> fst (the (poll_retry demo_env True 0 demo_core)) \<noteq> -1 \<longrightarrow>
         (\<forall>p \<in> set (pollfds (ft c')). revents p = 0))))"
  by (rule deepsleep_is_bounded) (simp_all add: demo_env_ok demo_core_inv)

text \<open>
  The timeout that \<open>ts_core_process\<close> hands to \<open>poll\<close> is never infinite, never above
  \<open>TS_CORE_MAX_POLL_TIMEOUT_MSEC\<close>, and does not carry the loop past the expiry of any active timer.
\<close>

lemma poll_wait_not_late:
  assumes "tq_inv q" and "\<forall>a \<in> set (timers q). normal_ts (expires q a)" and "0 \<le> slept"
  shows "0 \<le> poll_timeout (ts_core_timer_get_timeout now q) slept \<and>
    poll_timeout (ts_core_timer_get_timeout now q) slept \<le> TS_CORE_MAX_POLL_TIMEOUT_MSEC \<and>
    (\<forall>a \<in> set (timers q). timespec_to_msec now < timespec_to_msec (expires q a) \<longrightarrow>
      timespec_to_msec now + poll_timeout (ts_core_timer_get_timeout now q) slept \<le> timespec_to_msec (expires q a))"
proof -
  let ?t = "ts_core_timer_get_timeout now q"
  have lo: "-1 \<le> ?t" using get_timeout_no_timers [of now q] get_timeout_range [of q now] by linarith
  have "timespec_to_msec now + poll_timeout ?t slept \<le> timespec_to_msec (expires q a)"
    if a: "a \<in> set (timers q)" and f: "timespec_to_msec now < timespec_to_msec (expires q a)" for a
  proof -
    have "?t \<noteq> -1" using a get_timeout_no_timers [of now q] by auto
    then have "poll_timeout ?t slept \<le> ?t" by (rule poll_timeout_range(2) [OF lo assms(3)])
    with get_timeout_not_late [OF assms(1,2) a f] show ?thesis by linarith
  qed
  with poll_timeout_range(1) [OF lo assms(3)] show ?thesis by blast
qed

section \<open>Timer queues\<close>

text \<open>
  C26. The pointer manipulation of \<open>ts_core_gc_timers\<close> (walking the linked queue and inserting with
  \<open>sq_addfirst\<close> or \<open>sq_addafter\<close>) implements ordered insertion into the list of active timers, for
  every queue it is applied to and any number of new timers.
\<close>

theorem gc_insertion_refines:
  assumes "sq_repr s (timers q)" and "distinct (timers q @ new_timers q)"
  shows "\<exists>s'. run_steps (gc_insert (expires q)) (new_timers q) s = Some s' \<and>
    sq_repr s' (timers (ts_core_gc_timers q))"
  using gc_insert_all_repr [OF assms] by (simp add: ts_core_gc_timers_def)

theorem gc_insertion_refines_witness:
  "\<exists>s'. run_steps (gc_insert (expires demo_timers)) (new_timers demo_timers)
      (\<lparr>sq_head = Some 16, sq_tail = Some 32\<rparr>, (\<lambda>_. None)(16 := Some 32)) = Some s' \<and>
    sq_repr s' (timers (ts_core_gc_timers demo_timers))"
  by (rule gc_insertion_refines) (simp_all add: sq_repr_def demo_timers_def)

text \<open>
  \<open>ts_core_gc_timers\<close> keeps the invariant of the queues, moves exactly the new timers into the
  active queue, which is then ordered by expiry, leaves every armed timer as it was, and frees
  the stopped ones.
\<close>

lemma gc_timers_merges:
  assumes "tq_inv q"
  shows "tq_inv (ts_core_gc_timers q) \<and>
    mset (timers (ts_core_gc_timers q)) = mset (timers q) + mset (new_timers q) \<and>
    sorted (map (\<lambda>a. ns_of (expires q a)) (timers (ts_core_gc_timers q))) \<and>
    (\<forall>a. tmem (ts_core_gc_timers q) a = (if a \<in> armed q then tmem q a else None))"
proof -
  let ?g = "ts_core_gc_timers q"
  have inv: "tq_inv ?g" by (rule ts_core_gc_timers_inv [OF assms])
  have "dom (tmem ?g) = armed q"
    using inv by (simp add: tq_inv_def queued_def ts_core_gc_timers_set)
  then have mem: "tmem ?g a = (if a \<in> armed q then tmem q a else None)" for a
    using ts_core_gc_timers_at(1) [OF assms] by auto
  have "map (\<lambda>a. ns_of (expires ?g a)) (timers ?g) = map (\<lambda>a. ns_of (expires q a)) (timers ?g)"
    using ts_core_gc_timers_at(2) [OF assms] by (simp add: ts_core_gc_timers_set expires_def)
  moreover have "sorted (map (\<lambda>a. ns_of (expires ?g a)) (timers ?g))"
    using inv by (simp add: tq_inv_def sorted_wrt_map)
  ultimately have "sorted (map (\<lambda>a. ns_of (expires q a)) (timers ?g))" by metis
  with inv ts_core_gc_timers_mset mem show ?thesis by blast
qed

text \<open>
  A timer set up by \<open>ts_core_timer_setup\<close> gets an identifier that no other timer of the queues
  has, and stopping that identifier succeeds and disarms exactly that timer, as long as the
  timers lie in one heap region of the reported size.
\<close>

lemma timer_setup_stop:
  assumes "tq_inv q" and "a \<notin> dom (tmem q)" and "in_arena base q'"
    and "ts_core_timer_setup type ms cb priv now (Some a) ar q = Some (Inr i, q')"
  shows "tq_inv q' \<and> armed q' = insert a (armed q) \<and> (\<forall>b \<in> set (queued q). t_id (timer_at q' b) \<noteq> i) \<and>
    (\<exists>q''. ts_core_timer_stop i q' = (Inr (), q'') \<and> armed q'' = armed q)"
proof -
  have inv: "tq_inv q'" using assms(1,2,4) by (intro ts_core_timer_setup_inv [OF assms(1) _ assms(4)]) auto
  have run: "timer_setup_internal type now ms cb priv now (Some a) ar q = Some (Inr i, q')"
    using assms(4) by (simp add: ts_core_timer_setup_def split: if_splits)
  from timer_setup_internal_cases [OF run] obtain f where
    q': "timers q' = timers q" "new_timers q' = new_timers q @ [a]" "done_timers q' = done_timers q"
      "tmem q' = (tmem q)(a \<mapsto> f)" "t_id f = i"
    by (auto simp: timer_at_def)
  have a: "a \<in> armed q'" "armed q' = insert a (armed q)" "t_id (timer_at q' a) = i" "a \<notin> armed q"
    using q' assms(1,2) by (auto simp: armed_def timer_at_def tq_inv_def queued_def)
  have "t_id (timer_at q' b) \<noteq> i" if "b \<in> set (queued q)" for b
    using timer_ids_distinct [OF inv assms(3), of a b] that q' a(3) assms(1,2)
    by (auto simp: queued_def tq_inv_def)
  moreover obtain q'' where "ts_core_timer_stop i q' = (Inr (), q'')" "armed q'' = armed q' - {a}"
    using ts_core_timer_stop_armed [OF inv assms(3) a(1)] a(3) by auto
  ultimately show ?thesis using inv a(2,4) by auto
qed

text \<open>
  Stopping an armed timer through its identifier removes that timer and no other from the
  armed ones, whichever of the two queues it is in, changes no other timer and keeps the invariant.
\<close>

lemma timer_stop_exact:
  assumes "tq_inv q" and "in_arena base q" and "a \<in> armed q"
  shows "\<exists>q'. ts_core_timer_stop (t_id (timer_at q a)) q = (Inr (), q') \<and> tq_inv q' \<and>
    armed q' = armed q - {a} \<and> done_timers q' = done_timers q @ [a] \<and>
    (\<forall>b. b \<noteq> a \<longrightarrow> timer_at q' b = timer_at q b)"
  using ts_core_timer_stop_armed [OF assms] ts_core_timer_stop_inv [OF assms(1)] by blast

text \<open>
  \<open>ts_core_timer_get_timeout\<close>: -1 exactly when no timer is active, 0 exactly when some active
  timer has expired, otherwise a value within \<open>int\<close> that ends no later than any active timer.
\<close>

lemma get_timeout_correct:
  assumes "tq_inv q" and "\<forall>a \<in> set (timers q). normal_ts (expires q a)"
  shows "(ts_core_timer_get_timeout now q = -1 \<longleftrightarrow> timers q = []) \<and> ts_core_timer_get_timeout now q \<le> INT_MAX \<and>
    (ts_core_timer_get_timeout now q = 0 \<longleftrightarrow> (\<exists>a \<in> set (timers q). expired now (expires q a))) \<and>
    (ts_core_timer_get_timeout now q > 0 \<longrightarrow> (\<forall>a \<in> set (timers q).
      timespec_to_msec now + ts_core_timer_get_timeout now q \<le> timespec_to_msec (expires q a)))"
proof -
  let ?t = "ts_core_timer_get_timeout now q"
  have z: "?t = 0 \<longleftrightarrow> (\<exists>a \<in> set (timers q). expired now (expires q a))"
    using get_timeout_zero [OF assms] by (simp add: expired_def)
  have "timespec_to_msec now + ?t \<le> timespec_to_msec (expires q a)" if "?t > 0" "a \<in> set (timers q)" for a
    using get_timeout_not_late [OF assms that(2)] z that by (auto simp: expired_def not_le)
  moreover have "?t \<le> INT_MAX" using get_timeout_range [of q now] get_timeout_no_timers [of now q] by fastforce
  ultimately show ?thesis using z get_timeout_no_timers by blast
qed

section \<open>Descriptors\<close>

lemma mset_filter_fill:
  assumes "i < length xs" and "\<not> P (xs ! i)" and "P x"
  shows "mset (filter P (xs[i := x])) = add_mset x (mset (filter P xs))"
  using assms
proof (induction xs arbitrary: i)
  case (Cons y ys)
  then show ?case by (cases i) auto
qed simp

text \<open>
  \<open>ts_core_fd_register\<close> never fails an assertion on a well-formed table and keeps it well
  formed; when it succeeds it adds exactly the descriptor to the active ones, and it reports
  \<open>EEXIST\<close> only for a descriptor that is registered.
\<close>

lemma fd_register_correct:
  assumes "ft_inv t"
  shows "\<exists>r t'. ts_core_fd_register f evs cb priv name t = Some (r, t') \<and> ft_inv t' \<and>
    (r = Inr () \<longrightarrow> mset (active_fds t') = add_mset f (mset (active_fds t))) \<and>
    (r \<noteq> Inr () \<longrightarrow> t' = t) \<and> (r = Inl EEXIST \<longrightarrow> f \<in> set (active_fds t))"
proof -
  obtain r t' where run: "ts_core_fd_register f evs cb priv name t = Some (r, t')"
    using ts_core_fd_register_total [OF assms, of f evs cb priv name] by (metis not_Some_eq surj_pair)
  note inv = ts_core_fd_register_inv [OF assms run]
  note def = ts_core_fd_register_def
  consider "\<exists>err. r = Inl err \<and> t' = t \<and> (err = EEXIST \<longrightarrow> 0 \<le> f \<and> register_scan f (pollfds t) 0 = Inl ())"
    | i where "r = Inr ()" "0 \<le> f" "register_scan f (pollfds t) 0 = Inr i" "i = nfiles t"
        "map fd (pollfds t') = map fd (pollfds t) @ [f]"
    | i where "r = Inr ()" "0 \<le> f" "register_scan f (pollfds t) 0 = Inr i" "i < nfiles t"
        "map fd (pollfds t') = (map fd (pollfds t))[i := f]"
    using run register_scan_Inr [of f "pollfds t" 0]
    by (fastforce simp: def Let_def nfiles_def map_update split: option.splits if_splits sum.splits)
  then show ?thesis
  proof cases
    case 1
    then have "r = Inl EEXIST \<longrightarrow> f \<in> set (active_fds t)"
      using register_scan_Inl [of f "pollfds t" 0] by (auto simp: active_fds_def)
    with 1 run inv show ?thesis by auto
  next
    case 2
    have "mset (active_fds t') = add_mset f (mset (active_fds t))"
      unfolding active_fds_def 2(5) using 2(2) by simp
    with 2(1) run inv show ?thesis by auto
  next
    case 3
    let ?fs = "map fd (pollfds t)"
    have i: "i < length ?fs" "?fs ! i < 0"
      using 3 register_scan_Inr [OF 3(3)] by (auto simp: nfiles_def)
    have "mset (filter (\<lambda>f. 0 \<le> f) (?fs[i := f])) = add_mset f (mset (filter (\<lambda>f. 0 \<le> f) ?fs))"
      using i 3(2) by (intro mset_filter_fill) auto
    then have "mset (active_fds t') = add_mset f (mset (active_fds t))" by (simp only: active_fds_def 3(5))
    with 3(1) run inv show ?thesis by auto
  qed
qed

text \<open>
  On a table without deleted entries, such as \<open>ts_core_gc_files\<close> leaves, a valid registration is
  refused with \<open>EEXIST\<close> exactly when the descriptor is already registered.
\<close>

lemma fd_register_refuses_duplicates:
  assumes "ft_inv t" and "nfiles_deleted t = 0" and "0 \<le> f" and "evs \<noteq> 0"
  shows "f \<in> set (active_fds t) \<longleftrightarrow> ts_core_fd_register f evs (Some cb) priv name t = Some (Inl EEXIST, t)"
proof -
  have "register_scan f (pollfds t) 0 = (if \<exists>p \<in> set (pollfds t). fd p = f then Inl () else Inr (nfiles t))"
    using assms(1,2) register_scan_none_deleted [of "pollfds t" f 0] by (simp add: ft_inv_def nfiles_def)
  then show ?thesis
    using assms(3,4) by (auto simp: ts_core_fd_register_def active_fds_def Let_def split: if_splits)
qed


text \<open>
  \<open>ts_core_gc_files\<close> completes, removes exactly the deleted entries, keeps the others with
  their callbacks in order, and leaves a table in which every entry is active.
\<close>

lemma gc_files_compacts:
  assumes "ft_inv t"
  shows "\<exists>t'. ts_core_gc_files t = Some t' \<and> ft_inv t' \<and>
    entries t' = filter (\<lambda>e. 0 \<le> fd (snd e)) (entries t) \<and> active_fds t' = active_fds t \<and>
    nfiles t' = length (active_fds t') \<and> nfiles_deleted t' = 0"
  using ts_core_gc_files_spec [OF assms] ts_core_gc_files_inv [OF assms] by blast

section \<open>Linked queues\<close>

text \<open>
  The insertions of the \<open>sq\<close> library act on the linked queue as on a list of nodes: at the
  end, at the front and after a node; they change no link of a node outside the queue.
\<close>

lemma sq_insertions_refine:
  assumes "sq_repr (q, h) (xs @ p # ys)" and "x \<notin> set (xs @ p # ys)"
  shows "(\<exists>s. sq_addlast x (q, h) = Some s \<and> sq_repr s (xs @ p # ys @ [x])) \<and>
    sq_repr (sq_addfirst x (q, h)) (x # xs @ p # ys) \<and>
    (\<exists>q' h'. sq_addafter p x (q, h) = Some (q', h') \<and> sq_repr (q', h') (xs @ p # x # ys) \<and>
      (\<forall>y. y \<notin> set (xs @ p # ys) \<and> y \<noteq> x \<longrightarrow> h' y = h y))"
  using sq_addlast_repr [OF assms] sq_addfirst_repr(1) [OF assms] sq_addafter_repr [OF assms] by simp blast

text \<open>
  The removals of the \<open>sq\<close> library: the first node, the last node (the walk along the links
  ends), a given node or none when it is not in the queue.
\<close>

lemma sq_removals_refine:
  assumes "sq_repr (q, h) xs"
  shows "(\<exists>s. sq_rem (Some x) (q, h) = Some s \<and> sq_repr s (remove1 x xs)) \<and>
    (xs \<noteq> [] \<longrightarrow> fst (sq_remfirst (q, h)) = Some (hd xs) \<and> sq_repr (snd (sq_remfirst (q, h))) (tl xs)) \<and>
    (xs \<noteq> [] \<longrightarrow> (\<exists>s. sq_remlast (q, h) = Some (Some (last xs), s) \<and> sq_repr s (butlast xs)))"
proof -
  have "\<exists>s. sq_remlast (q, h) = Some (Some (last xs), s) \<and> sq_repr s (butlast xs)" if "xs \<noteq> []"
    using sq_remlast_repr [of q h "butlast xs" "last xs"] assms that by auto
  moreover have "fst (sq_remfirst (q, h)) = Some (hd xs) \<and> sq_repr (snd (sq_remfirst (q, h))) (tl xs)" if "xs \<noteq> []"
    using sq_remfirst_repr(1,2) [of q h "hd xs" "tl xs"] assms that by simp
  ultimately show ?thesis using sq_rem_repr [OF assms] by blast
qed

text \<open>
  Nodes added at the end of an empty queue come out of \<open>sq_remfirst\<close> in the order in which they
  were added, and the queue is empty afterwards.
\<close>

lemma sq_fifo:
  assumes "sq_repr s []" and "distinct ys"
  shows "\<exists>s' s''. run_steps sq_addlast ys s = Some s' \<and> drain sq_remfirst s' = Some (ys, s'') \<and> sq_repr s'' []"
  by (rule sq.fifo [OF assms])

section \<open>Time\<close>

text \<open>
  \<open>timespec_add_msec\<close> with a \<open>long\<close> number of milliseconds adds that time, counted modulo the
  range of \<open>time_t\<close>, and its result has its nanoseconds in range.
\<close>

lemma add_msec_correct:
  assumes "normal_ts ts"
  shows "normal_ts (timespec_add_msec ts msec) \<and>
    ns_of (timespec_add_msec ts msec) = (ns_of ts + sint msec * 1000000) mod (2 ^ 32 * NSEC_PER_SEC)"
  using timespec_add_msec_normal timespec_add_msec_value [OF assms] by blast




end
