(* ===== verification/Faults.thy ===== *)
theory Faults
  imports Prelude
begin

text \<open>
  Results of code that can fail: \<open>Inl Assertion\<close> is a failed \<open>assert\<close> or \<open>DEBUGASSERT\<close>, \<open>Inl Memory\<close> an
  access outside an array, through a NULL pointer or to a freed block. Code with a loop that need not end
  has a result of type \<open>'a run\<close>, in which \<open>None\<close> stands for not returning. The weakest preconditions
  \<open>safely\<close> and \<open>runs\<close> compute through sequencing; \<open>safely\<close> tolerates a failed assertion, \<open>runs\<close> does not.
\<close>

section \<open>Faults\<close>

datatype fault = Assertion | Memory

type_synonym 'a res = "fault + 'a"

fun and_then :: "'a res \<Rightarrow> ('a \<Rightarrow> 'b res) \<Rightarrow> 'b res" where
  "and_then (Inl e) f = Inl e"
| "and_then (Inr a) f = f a"

definition check :: "fault \<Rightarrow> bool \<Rightarrow> 'a \<Rightarrow> 'a res" where
  "check e b a = (if b then Inr a else Inl e)"

lemma and_then_Inr: "and_then r f = Inr b \<longleftrightarrow> (\<exists>a. r = Inr a \<and> f a = Inr b)"
  by (cases r) auto

lemma and_then_Inl: "and_then r f = Inl e \<longleftrightarrow> r = Inl e \<or> (\<exists>a. r = Inr a \<and> f a = Inl e)"
  by (cases r) auto

lemma check_Inr [simp]: "check e b a = Inr c \<longleftrightarrow> b \<and> c = a"
  by (auto simp: check_def)

lemma check_Inl [simp]: "check e b a = Inl e' \<longleftrightarrow> \<not> b \<and> e' = e"
  by (auto simp: check_def)

section \<open>Weakest preconditions\<close>

definition safely :: "('a \<Rightarrow> bool) \<Rightarrow> 'a res \<Rightarrow> bool" where
  "safely Q r \<longleftrightarrow> (case r of Inl f \<Rightarrow> f = Assertion | Inr a \<Rightarrow> Q a)"

lemma safely_simps [simp]:
  "safely Q (Inr a) \<longleftrightarrow> Q a"
  "safely Q (Inl e) \<longleftrightarrow> e = Assertion"
  "safely Q (check Assertion b a) \<longleftrightarrow> (b \<longrightarrow> Q a)"
  "safely Q (check Memory b a) \<longleftrightarrow> b \<and> Q a"
  "safely Q (and_then r f) \<longleftrightarrow> safely (\<lambda>a. safely Q (f a)) r"
  by (auto simp: safely_def check_def split: sum.splits)

lemma safely_mono:
  assumes "safely P r" and "\<And>a. P a \<Longrightarrow> Q a"
  shows "safely Q r"
  using assms by (auto simp: safely_def split: sum.splits)

lemma safely_Inr: "safely Q r \<Longrightarrow> r = Inr a \<Longrightarrow> Q a"
  by (simp add: safely_def)

section \<open>Computations that may not return\<close>

type_synonym 'a run = "'a res option"

fun next_run :: "'a run \<Rightarrow> ('a \<Rightarrow> 'b run) \<Rightarrow> 'b run" where
  "next_run None f = None"
| "next_run (Some (Inl e)) f = Some (Inl e)"
| "next_run (Some (Inr a)) f = f a"

abbreviation return_run :: "'a \<Rightarrow> 'a run" where "return_run a \<equiv> Some (Inr a)"

abbreviation check_run :: "fault \<Rightarrow> bool \<Rightarrow> 'a run \<Rightarrow> 'a run" where
  "check_run e b r \<equiv> (if b then r else Some (Inl e))"

definition runs :: "('a \<Rightarrow> bool) \<Rightarrow> 'a run \<Rightarrow> bool" where
  "runs Q r \<longleftrightarrow> (\<exists>a. r = return_run a \<and> Q a)"

lemma runs_simps [simp]:
  "runs Q (return_run a) \<longleftrightarrow> Q a"
  "\<not> runs Q (Some (Inl e))"
  "\<not> runs Q None"
  by (simp_all add: runs_def)

lemma runs_next [simp]: "runs Q (next_run r f) \<longleftrightarrow> runs (\<lambda>a. runs Q (f a)) r"
  by (cases "(r, f)" rule: next_run.cases) auto

lemma runs_mono:
  assumes "runs P r" and "\<And>a. P a \<Longrightarrow> Q a"
  shows "runs Q r"
  using assms by (auto simp: runs_def)

end
