(* ===== verification/Libc_String.thy ===== *)
theory Libc_String
  imports Prelude
begin

text \<open>
  The C library routines the modem library calls on strings, from \<open>nuttx/libc\<close>: number parsing
  (\<open>strtol\<close>, \<open>strtoul\<close> and their helpers) and comparison. A C string is the list of its bytes before
  the terminating NUL, so reading the terminator is reading past the end of the list; \<open>char\<close> is
  unsigned on the target. \<open>long\<close> has 32 bits and \<open>strtoul\<close> does not check for overflow.
\<close>

abbreviation chr :: "char \<Rightarrow> u8" where "chr c \<equiv> word_of_nat (of_char c)"

definition of_string :: "string \<Rightarrow> bytes" where
  "of_string s = map (\<lambda>c. chr c) s"

definition isspace :: "u8 \<Rightarrow> bool" where
  "isspace c \<longleftrightarrow> c = 32 \<or> c = 9 \<or> c = 10 \<or> c = 13 \<or> c = 12 \<or> c = 11"

definition toupper :: "u8 \<Rightarrow> u8" where
  "toupper c = (if c \<ge> 97 \<and> c \<le> 122 then c - 97 + 65 else c)"

fun lib_skipspace :: "bytes \<Rightarrow> bytes" where
  "lib_skipspace [] = []"
| "lib_skipspace (c # cs) = (if isspace c then lib_skipspace cs else c # cs)"

definition lib_isbasedigit :: "int \<Rightarrow> int \<Rightarrow> int option" where
  "lib_isbasedigit ch base =
     (if base \<le> 10
      then (if ch \<ge> 48 \<and> ch \<le> base + 48 - 1 then Some (ch - 48) else None)
      else if base \<le> 36
      then
        (if ch \<ge> 48 \<and> ch \<le> 57 then Some (ch - 48)
         else if ch \<ge> 97 \<and> ch \<le> 97 + base - 11 then Some (ch - 97 + 10)
         else if ch \<ge> 65 \<and> ch \<le> 65 + base - 11 then Some (ch - 65 + 10)
         else None)
      else None)"

definition char_at :: "bytes \<Rightarrow> nat \<Rightarrow> u8" where
  "char_at s i = (if i < length s then s ! i else 0)"

definition lib_checkbase :: "int \<Rightarrow> bytes \<Rightarrow> int \<times> bytes" where
  "lib_checkbase base ptr =
     (if base = 0
      then
        (if char_at ptr 0 = 48
         then
           (let p = tl ptr
            in if (char_at p 0 = 88 \<or> char_at p 0 = 120) \<and> lib_isbasedigit (uint (char_at p 1)) 16 \<noteq> None
               then (16, tl p) else (8, p))
         else (10, ptr))
      else if base = 16 \<and> char_at ptr 0 = 48 \<and> (char_at ptr 1 = 88 \<or> char_at ptr 1 = 120)
      then (base, tl (tl ptr))
      else (base, ptr))"

fun accumulate :: "int \<Rightarrow> u32 \<Rightarrow> bytes \<Rightarrow> u32" where
  "accumulate base accum [] = accum"
| "accumulate base accum (c # cs) =
     (case lib_isbasedigit (uint c) base of
        None \<Rightarrow> accum
      | Some v \<Rightarrow> accumulate base (accum * word_of_int base + word_of_int v) cs)"

definition strtoul :: "bytes \<Rightarrow> int \<Rightarrow> u32" where
  "strtoul nptr base =
     (let nptr = lib_skipspace nptr;
          (base, nptr) = lib_checkbase base nptr
      in accumulate base 0 nptr)"

definition strtol :: "bytes \<Rightarrow> int \<Rightarrow> u32" where
  "strtol nptr base =
     (let nptr = lib_skipspace nptr
      in if char_at nptr 0 = 45 then - strtoul (tl nptr) base
         else if char_at nptr 0 = 43 then strtoul (tl nptr) base
         else strtoul nptr base)"

text \<open>\<open>strcmp\<close> keeps the difference of two characters in a \<open>signed char\<close>.\<close>

fun strcmp :: "bytes \<Rightarrow> bytes \<Rightarrow> int" where
  "strcmp [] ct = sint (0 - char_at ct 0)"
| "strcmp (c # cs) ct =
     (let result = sint (c - char_at ct 0)
      in if result \<noteq> 0 then result else strcmp cs (tl ct))"

fun strcasecmp :: "bytes \<Rightarrow> bytes \<Rightarrow> int" where
  "strcasecmp [] ct = uint (toupper 0) - uint (toupper (char_at ct 0))"
| "strcasecmp (c # cs) ct =
     (let result = uint (toupper c) - uint (toupper (char_at ct 0))
      in if result \<noteq> 0 then result else strcasecmp cs (tl ct))"

text \<open>The string in a character array of size \<open>n\<close>.\<close>

definition c_string :: "nat \<Rightarrow> (nat \<Rightarrow> u8) \<Rightarrow> bytes" where
  "c_string n buf = takeWhile (\<lambda>c. c \<noteq> 0) (map buf [0..<n])"

section \<open>Comparison\<close>

abbreviation no_nul :: "bytes \<Rightarrow> bool" where "no_nul s \<equiv> 0 \<notin> set s"

lemma char_at_Nil [simp]: "char_at [] i = 0"
  by (simp add: char_at_def)

lemma char_at_Cons [simp]: "char_at (c # cs) 0 = c" "char_at (c # cs) (Suc i) = char_at cs i"
  by (simp_all add: char_at_def)

lemma sint_diff_0: "sint (a - b :: u8) = 0 \<longleftrightarrow> a = b"
proof -
  have "sint (a - b) = 0 \<longleftrightarrow> a - b = 0" by (rule signed_eq_0_iff)
  then show ?thesis by simp
qed

lemma sint_u8_0: "sint (a :: u8) = 0 \<longleftrightarrow> a = 0"
  using sint_diff_0 [of a 0] by simp

lemma strcmp_equal:
  assumes "no_nul s" and "no_nul t"
  shows "strcmp s t = 0 \<longleftrightarrow> s = t"
  using assms
proof (induction s t rule: strcmp.induct)
  case (1 ct)
  then show ?case by (cases ct) (auto simp: sint_diff_0 simp del: diff_0)
next
  case (2 c cs ct)
  then show ?case by (cases ct) (auto simp: Let_def sint_diff_0 sint_u8_0)
qed

lemma toupper_0: "toupper c = 0 \<longleftrightarrow> c = 0"
proof -
  have "c \<ge> 97 \<Longrightarrow> c \<le> 122 \<Longrightarrow> c - 97 + 65 \<noteq> 0"
    by (simp add: word_le_def uint_word_ariths word_uint_eq_iff)
  then show ?thesis by (auto simp: toupper_def)
qed

lemma toupper_zero: "toupper 0 = 0"
  by (simp add: toupper_0)

lemma strcasecmp_equal:
  assumes "no_nul s" and "no_nul t"
  shows "strcasecmp s t = 0 \<longleftrightarrow> map toupper s = map toupper t"
  using assms
proof (induction s t rule: strcasecmp.induct)
  case (1 ct)
  then show ?case by (cases ct) (auto simp: toupper_zero toupper_0 uint_0_iff)
next
  case (2 c cs ct)
  then show ?case by (cases ct) (auto simp: Let_def toupper_zero toupper_0 uint_0_iff dest: unsigned_word_eqI)
qed

lemma strcasecmp_refl: "no_nul s \<Longrightarrow> strcasecmp s s = 0"
  by (simp add: strcasecmp_equal)

lemma c_string_no_nul [simp]: "no_nul (c_string n buf)"
  by (auto simp: c_string_def dest: set_takeWhileD)

section \<open>Decimal numbers\<close>

text \<open>The decimal representation of a number, most significant digit first.\<close>

fun decimal :: "nat \<Rightarrow> bytes" where
  "decimal n = (if n < 10 then [48 + word_of_nat n] else decimal (n div 10) @ [48 + word_of_nat (n mod 10)])"

declare decimal.simps [simp del]

definition decimal_int :: "int \<Rightarrow> bytes" where
  "decimal_int i = (if i < 0 then 45 # decimal (nat (- i)) else decimal (nat i))"

definition is_digit :: "u8 \<Rightarrow> bool" where
  "is_digit c \<longleftrightarrow> c \<ge> 48 \<and> c \<le> 57"

lemma is_digit_uint: "is_digit c \<longleftrightarrow> 48 \<le> uint c \<and> uint c \<le> 57"
  by (simp add: is_digit_def word_le_def)

lemma uint_digit:
  assumes "d < 10"
  shows "uint (48 + word_of_nat d :: u8) = 48 + int d"
  using assms by (simp add: uint_word_ariths unsigned_of_nat take_bit_nat_eq_self of_nat_mod)

lemma decimal_digits: "list_all is_digit (decimal n)"
proof (induction n rule: decimal.induct)
  case (1 n)
  then show ?case
    by (cases "n < 10"; subst decimal.simps) (simp_all add: is_digit_uint [of "48 + _"] uint_digit)
qed

lemma decimal_nonempty [simp]: "decimal n \<noteq> []"
  by (subst decimal.simps) simp

lemma accumulate_append:
  assumes "list_all is_digit ds"
  shows "accumulate 10 a (ds @ cs) = accumulate 10 (accumulate 10 a ds) cs"
  using assms by (induction ds arbitrary: a) (auto simp: lib_isbasedigit_def is_digit_uint)

lemma accumulate_decimal: "accumulate 10 0 (decimal n) = word_of_nat n"
proof (induction n rule: decimal.induct)
  case (1 n)
  show ?case
  proof (cases "n < 10")
    case True
    then show ?thesis by (subst decimal.simps) (simp add: uint_digit lib_isbasedigit_def)
  next
    case False
    have d: "accumulate 10 a [48 + word_of_nat (n mod 10)] = a * 10 + word_of_nat (n mod 10)" for a
    proof -
      have "n mod 10 \<le> 9" using mod_less_divisor [of 10 n] by linarith
      then show ?thesis by (simp add: uint_digit lib_isbasedigit_def)
    qed
    have "(word_of_nat n :: u32) = word_of_nat (n div 10 * 10 + n mod 10)" by simp
    also have "\<dots> = word_of_nat (n div 10) * 10 + word_of_nat (n mod 10)"
      by (simp only: of_nat_add of_nat_mult) simp
    finally show ?thesis
      using False 1 by (subst decimal.simps) (simp add: accumulate_append decimal_digits d del: accumulate.simps)
  qed
qed

lemma digits_not_special:
  assumes "list_all is_digit ds"
  shows "lib_skipspace ds = ds" and "lib_checkbase 10 ds = (10, ds)"
    and "char_at ds 0 \<noteq> 45" and "char_at ds 0 \<noteq> 43"
  using assms
  by (cases ds; auto simp: isspace_def lib_checkbase_def is_digit_uint)+

lemma strtoul_decimal: "strtoul (decimal n) 10 = word_of_nat n"
  by (simp add: strtoul_def Let_def digits_not_special decimal_digits accumulate_decimal)

lemma strtol_decimal_int: "strtol (decimal_int i) 10 = word_of_int i"
proof (cases "i < 0")
  case True
  then have "strtol (decimal_int i) 10 = - word_of_nat (nat (- i))"
    by (simp add: strtol_def decimal_int_def isspace_def strtoul_decimal Let_def)
  also have "\<dots> = word_of_int i" using True by (simp add: word_of_int_nat flip: word_of_int_minus)
  finally show ?thesis .
next
  case False
  then show ?thesis
    by (simp add: strtol_def decimal_int_def strtoul_decimal digits_not_special decimal_digits Let_def)
qed

end
