(* ===== verification/Modem_Stream.thy ===== *)
theory Modem_Stream
  imports Libc_String
begin

text \<open>
  The binarised parameter stream of the modem parser: \<open>struct modem_response_stream_s\<close> with the
  writers of \<open>apps/system/ubmodem/ubmodem_parser.c\<close> and the readers of \<open>ubmodem_parser.h\<close>. A
  \<open>reader\<close> sees the bytes that are left; it returns the value, if any, and the bytes after it. The
  writers are given in their bytewise form; where the target allows unaligned little-endian access
  the code stores the same bytes with one instruction.

  The contract between the two sides is the locale \<open>stream_codec\<close>: what a successful write appends
  is what the reader takes off again.
\<close>

abbreviation MAX_RESPONSE_STREAM_LEN :: nat where "MAX_RESPONSE_STREAM_LEN \<equiv> 1056"

record modem_response_stream_s =
  sbuf :: "nat \<Rightarrow> u8"
  spos :: nat

definition contents :: "modem_response_stream_s \<Rightarrow> bytes" where
  "contents st = map (sbuf st) [0..<spos st]"

definition modem_stream_reset :: "modem_response_stream_s \<Rightarrow> modem_response_stream_s" where
  "modem_stream_reset st = st\<lparr>spos := 0\<rparr>"

definition push_byte :: "u8 \<Rightarrow> modem_response_stream_s \<Rightarrow> modem_response_stream_s" where
  "push_byte b st = st\<lparr>sbuf := (sbuf st)(spos st := b), spos := Suc (spos st)\<rparr>"

definition modem_stream_put_int8 ::
  "u8 \<Rightarrow> modem_response_stream_s \<Rightarrow> bool \<times> modem_response_stream_s" where
  "modem_stream_put_int8 val st =
     (if spos st + 1 > MAX_RESPONSE_STREAM_LEN then (False, st) else (True, push_byte val st))"

definition modem_stream_put_int16 ::
  "u16 \<Rightarrow> modem_response_stream_s \<Rightarrow> bool \<times> modem_response_stream_s" where
  "modem_stream_put_int16 val st =
     (if spos st + 2 > MAX_RESPONSE_STREAM_LEN then (False, st)
      else (True, push_byte (ucast (drop_bit 8 val AND 0xff)) (push_byte (ucast (val AND 0xff)) st)))"

definition modem_stream_put_int32 ::
  "u32 \<Rightarrow> modem_response_stream_s \<Rightarrow> bool \<times> modem_response_stream_s" where
  "modem_stream_put_int32 val st =
     (if spos st + 4 > MAX_RESPONSE_STREAM_LEN then (False, st)
      else (True,
        push_byte (ucast (drop_bit 24 val AND 0xff))
         (push_byte (ucast (drop_bit 16 val AND 0xff))
          (push_byte (ucast (drop_bit 8 val AND 0xff))
           (push_byte (ucast (val AND 0xff)) st)))))"

text \<open>On success the position of the two length bytes is returned.\<close>

definition modem_stream_get_strlenpos ::
  "modem_response_stream_s \<Rightarrow> nat option \<times> modem_response_stream_s" where
  "modem_stream_get_strlenpos st =
     (if spos st + 2 > MAX_RESPONSE_STREAM_LEN then (None, st)
      else (Some (spos st), push_byte (-1) (push_byte (-1) st)))"

section \<open>Readers\<close>

fun ubmodem_stream_get_int8 :: "bytes \<Rightarrow> u8 option \<times> bytes" where
  "ubmodem_stream_get_int8 (b # bs) = (Some b, bs)"
| "ubmodem_stream_get_int8 bs = (None, bs)"

fun ubmodem_stream_get_int16 :: "bytes \<Rightarrow> u16 option \<times> bytes" where
  "ubmodem_stream_get_int16 (b0 # b1 # bs) = (Some (ucast b0 OR push_bit 8 (ucast b1)), bs)"
| "ubmodem_stream_get_int16 bs = (None, bs)"

fun ubmodem_stream_get_int32 :: "bytes \<Rightarrow> u32 option \<times> bytes" where
  "ubmodem_stream_get_int32 (b0 # b1 # b2 # b3 # bs) =
     (Some (((ucast b0 OR push_bit 8 (ucast b1)) OR push_bit 16 (ucast b2)) OR push_bit 24 (ucast b3)), bs)"
| "ubmodem_stream_get_int32 bs = (None, bs)"

definition ubmodem_stream_get_string :: "bytes \<Rightarrow> bytes option \<times> bytes" where
  "ubmodem_stream_get_string stream =
     (case ubmodem_stream_get_int16 stream of
        (None, rest) \<Rightarrow> (None, rest)
      | (Some slen, rest) \<Rightarrow>
          if length rest < unat slen + 1 then (None, rest)
          else (Some (take (unat slen) rest), drop (unat slen + 1) rest))"

section \<open>What is written is what is read\<close>

definition stream_inv :: "modem_response_stream_s \<Rightarrow> bool" where
  "stream_inv st \<longleftrightarrow> spos st \<le> MAX_RESPONSE_STREAM_LEN"

lemma contents_push [simp]: "contents (push_byte b st) = contents st @ [b]"
  by (simp add: contents_def push_byte_def)

lemma spos_push [simp]: "spos (push_byte b st) = Suc (spos st)"
  by (simp add: push_byte_def)

lemma contents_reset [simp]: "contents (modem_stream_reset st) = []" "spos (modem_stream_reset st) = 0"
  by (simp_all add: contents_def modem_stream_reset_def)

lemma length_contents [simp]: "length (contents st) = spos st"
  by (simp add: contents_def)

lemma u16_bytes: "(ucast (ucast (v AND 0xff) :: u8) :: u16) OR push_bit 8 (ucast (ucast (drop_bit 8 v AND 0xff) :: u8)) = v"
proof (rule bit_word_eqI)
  fix n :: nat assume n: "n < LENGTH(16)"
  have m: "(255 :: u16) = mask 8" by (simp add: mask_eq_exp_minus_1)
  from n show "bit ((ucast (ucast (v AND 0xff) :: u8) :: u16) OR push_bit 8 (ucast (ucast (drop_bit 8 v AND 0xff) :: u8))) n = bit v n"
    unfolding m by (auto simp: bit_simps)
qed

lemma u32_bytes:
  "(((ucast (ucast (v AND 0xff) :: u8) :: u32) OR push_bit 8 (ucast (ucast (drop_bit 8 v AND 0xff) :: u8)))
    OR push_bit 16 (ucast (ucast (drop_bit 16 v AND 0xff) :: u8)))
    OR push_bit 24 (ucast (ucast (drop_bit 24 v AND 0xff) :: u8)) = v" (is "?w = v")
proof (rule bit_word_eqI)
  fix n :: nat assume n: "n < LENGTH(32)"
  have m: "(255 :: u32) = mask 8" by (simp add: mask_eq_exp_minus_1)
  consider "n < 8" | "8 \<le> n" "n < 16" | "16 \<le> n" "n < 24" | "24 \<le> n" "n < 32" using n by fastforce
  then show "bit ?w n = bit v n"
    unfolding m by cases (auto simp: bit_simps)
qed

locale stream_codec =
  fixes put :: "'v \<Rightarrow> modem_response_stream_s \<Rightarrow> bool \<times> modem_response_stream_s"
    and get :: "bytes \<Rightarrow> 'v option \<times> bytes"
    and size :: nat
  assumes put_space: "put v st = (False, st') \<Longrightarrow> st' = st \<and> MAX_RESPONSE_STREAM_LEN < spos st + size"
    and put_appends: "put v st = (True, st') \<Longrightarrow>
      \<exists>enc. contents st' = contents st @ enc \<and> length enc = size \<and>
        spos st' \<le> MAX_RESPONSE_STREAM_LEN \<and> (\<forall>rest. get (enc @ rest) = (Some v, rest))"
    and get_short: "length bs < size \<Longrightarrow> get bs = (None, bs)"
begin

fun put_all :: "'v list \<Rightarrow> modem_response_stream_s \<Rightarrow> bool \<times> modem_response_stream_s" where
  "put_all [] st = (True, st)"
| "put_all (v # vs) st = (case put v st of (False, st') \<Rightarrow> (False, st') | (True, st') \<Rightarrow> put_all vs st')"

fun get_all :: "nat \<Rightarrow> bytes \<Rightarrow> 'v list option \<times> bytes" where
  "get_all 0 bs = (Some [], bs)"
| "get_all (Suc n) bs =
     (case get bs of
        (None, rest) \<Rightarrow> (None, rest)
      | (Some v, rest) \<Rightarrow> (case get_all n rest of (vs, rest') \<Rightarrow> (map_option (Cons v) vs, rest')))"

lemma put_inv:
  assumes "stream_inv st" and "put v st = (ok, st')"
  shows "stream_inv st'"
  using assms put_space [of v st st'] put_appends [of v st st'] by (cases ok) (auto simp: stream_inv_def)

lemma put_succeeds:
  assumes "spos st + size \<le> MAX_RESPONSE_STREAM_LEN"
  shows "fst (put v st)"
  using assms put_space [of v st "snd (put v st)"] by (cases "put v st"; cases "fst (put v st)") auto

lemma put_get:
  assumes "put v st = (True, st')"
  shows "get (drop (spos st) (contents st')) = (Some v, [])"
proof -
  obtain enc where enc: "contents st' = contents st @ enc" "\<forall>rest. get (enc @ rest) = (Some v, rest)"
    using put_appends [OF assms] by blast
  from enc(1) have "drop (spos st) (contents st') = enc @ []" by simp
  with enc(2) show ?thesis by metis
qed

lemma put_all_get_all:
  assumes "put_all vs st = (True, st')"
  shows "\<exists>enc. contents st' = contents st @ enc \<and> length enc = size * length vs \<and>
    (\<forall>rest. get_all (length vs) (enc @ rest) = (Some vs, rest))"
  using assms
proof (induction vs arbitrary: st)
  case Nil
  then show ?case by auto
next
  case (Cons v vs)
  then obtain st1 where st1: "put v st = (True, st1)" "put_all vs st1 = (True, st')"
    by (auto split: prod.splits bool.splits)
  obtain enc1 where e1: "contents st1 = contents st @ enc1" "length enc1 = size"
    "\<forall>rest. get (enc1 @ rest) = (Some v, rest)"
    using put_appends [OF st1(1)] by blast
  obtain enc2 where e2: "contents st' = contents st1 @ enc2" "length enc2 = size * length vs"
    "\<forall>rest. get_all (length vs) (enc2 @ rest) = (Some vs, rest)"
    using Cons.IH [OF st1(2)] by blast
  have "get_all (length (v # vs)) ((enc1 @ enc2) @ rest) = (Some (v # vs), rest)" for rest
    using e1(3) e2(3) by simp
  with e1 e2 show ?case by (intro exI [of _ "enc1 @ enc2"]) auto
qed

end

interpretation int8: stream_codec modem_stream_put_int8 ubmodem_stream_get_int8 1
  by unfold_locales (auto simp: modem_stream_put_int8_def split: if_splits)

lemma length_lt_2: "length bs < 2 \<Longrightarrow> ubmodem_stream_get_int16 bs = (None, bs)"
  by (cases bs rule: ubmodem_stream_get_int16.cases) auto

lemma length_lt_4: "length bs < 4 \<Longrightarrow> ubmodem_stream_get_int32 bs = (None, bs)"
  by (cases bs rule: ubmodem_stream_get_int32.cases) auto

interpretation int16: stream_codec modem_stream_put_int16 ubmodem_stream_get_int16 2
  by unfold_locales
    (auto simp: modem_stream_put_int16_def u16_bytes length_lt_2 split: if_splits)

interpretation int32: stream_codec modem_stream_put_int32 ubmodem_stream_get_int32 4
  by unfold_locales
    (auto simp: modem_stream_put_int32_def u32_bytes length_lt_4 split: if_splits)

end
