(* ===== verification/Poll_Timers.thy ===== *)
theory Poll_Timers
  imports Ts_Time
begin

text \<open>
  The timers that the modem library (\<open>apps/system/ubmodem/ubmodem_poll.c\<close>) and the GPS library
  (\<open>apps/system/ubgps/ubgps_poll.c\<close>) keep in a singly linked queue: setting and removing a timer,
  the poll timeout computed from the queue, and the walk that fires expired timers. The two
  libraries differ in how a timer identifier is chosen and in the bookkeeping around it.

  The queue is the list of its entries; that \<open>sq_addlast\<close> and \<open>sq_rem\<close> act on that list as append
  and removal is shown in \<open>Sq_Queue\<close>. A timer callback is unknown code: what it does to the timers
  is a list of \<open>timer_op\<close>. \<open>t_events\<close> records, in order, the timers that were fired; no code
  reads it.
\<close>

section \<open>State\<close>

record poll_timer =
  alarm :: timespec
  pt_callback :: "nat option"
  cb_priv :: nat
  pt_id :: u16

record poll_timers =
  ptimers :: "poll_timer list"
  timer_id_cnt :: u16
  t_ticks :: nat
  t_events :: "(poll_timer \<times> timespec) list"

datatype timer_op = Set_timer u32 "nat option" nat | Remove_timer u16

text \<open>
  The clock readings, whether \<open>calloc\<close> succeeds (it may depend on the number of timers already
  allocated), and what each callback does.
\<close>

record timer_env =
  tclk :: "nat \<Rightarrow> timespec"
  talloc :: "nat \<Rightarrow> nat \<Rightarrow> bool"
  tcb :: "nat \<Rightarrow> u16 \<Rightarrow> nat \<Rightarrow> poll_timers \<Rightarrow> timer_op list"

abbreviation ids :: "poll_timers \<Rightarrow> u16 list" where "ids s \<equiv> map pt_id (ptimers s)"

section \<open>Setting and removing\<close>

text \<open>The loop \<open>while (timeout_msec >= 1000)\<close> on (seconds, remaining milliseconds).\<close>

function alarm_carry :: "u32 \<Rightarrow> u32 \<Rightarrow> u32 \<times> u32" where
  "alarm_carry sec msec = (if msec \<ge> 1000 then alarm_carry (sec + 1) (msec - 1000) else (sec, msec))"
  by pat_completeness auto
termination
proof (relation "measure (\<lambda>(sec, msec). unat msec)", goal_cases)
  case (2 sec msec)
  then have "unat (msec - 1000) = unat msec - 1000" by (simp add: unat_sub)
  with 2 show ?case by (simp add: word_le_nat_alt)
qed simp

declare alarm_carry.simps [simp del]

definition timer_alarm :: "timespec \<Rightarrow> u32 \<Rightarrow> timespec" where
  "timer_alarm now timeout_msec =
     (let (sec, rest) = alarm_carry (tv_sec now) timeout_msec
      in now\<lparr>tv_sec := sec, tv_nsec := tv_nsec now + rest * (1000 * 1000)\<rparr>)"

text \<open>
  \<open>modem_get_unused_timer_id\<close>: count upwards until a free identifier is met; the assertion fails
  when the first candidate is met again.
\<close>

partial_function (option) unused_timer_id :: "u16 option \<Rightarrow> u16 list \<Rightarrow> u16 \<Rightarrow> u16 option" where
  "unused_timer_id first used cnt =
     (let candidate = cnt + 1
      in if first = Some candidate then None
         else if candidate \<in> set used
         then unused_timer_id (case first of None \<Rightarrow> Some candidate | Some f \<Rightarrow> Some f) used candidate
         else Some candidate)"

definition modem_get_unused_timer_id :: "poll_timers \<Rightarrow> (u16 \<times> poll_timers) option" where
  "modem_get_unused_timer_id s =
     map_option (\<lambda>candidate. (candidate, s\<lparr>timer_id_cnt := candidate\<rparr>))
       (unused_timer_id None (ids s) (timer_id_cnt s))"

text \<open>The result is the identifier, \<open>Inl ()\<close> for \<open>ERROR\<close>.\<close>

definition ubmodem_set_timer ::
  "timer_env \<Rightarrow> u32 \<Rightarrow> nat option \<Rightarrow> nat \<Rightarrow> poll_timers \<Rightarrow> ((unit + u16) \<times> poll_timers) option" where
  "ubmodem_set_timer e timeout_msec timer_cb priv s =
     (if \<not> talloc e (t_ticks s) (length (ptimers s)) then Some (Inl (), s\<lparr>t_ticks := Suc (t_ticks s)\<rparr>)
      else
        (let al = timer_alarm (tclk e (t_ticks s)) timeout_msec;
             s = s\<lparr>t_ticks := Suc (t_ticks s)\<rparr>
         in case modem_get_unused_timer_id s of
              None \<Rightarrow> None
            | Some (i, s) \<Rightarrow>
                (let timer = \<lparr>alarm = al, pt_callback = timer_cb, cb_priv = priv, pt_id = i\<rparr>
                 in Some (Inr i, s\<lparr>ptimers := ptimers s @ [timer]\<rparr>))))"

definition ubgps_set_timer ::
  "timer_env \<Rightarrow> u32 \<Rightarrow> nat option \<Rightarrow> nat \<Rightarrow> poll_timers \<Rightarrow> ((unit + u16) \<times> poll_timers) option" where
  "ubgps_set_timer e timeout_msec timer_cb priv s =
     (if timer_cb = None then None
      else if \<not> talloc e (t_ticks s) (length (ptimers s)) then Some (Inl (), s\<lparr>t_ticks := Suc (t_ticks s)\<rparr>)
      else
        (let al = timer_alarm (tclk e (t_ticks s)) timeout_msec;
             i = timer_id_cnt s + 1;
             timer = \<lparr>alarm = al, pt_callback = timer_cb, cb_priv = priv, pt_id = i\<rparr>
         in Some (Inr i, s\<lparr>t_ticks := Suc (t_ticks s), timer_id_cnt := i, ptimers := ptimers s @ [timer]\<rparr>)))"

fun remove_timer_entry :: "u16 \<Rightarrow> poll_timer list \<Rightarrow> poll_timer list" where
  "remove_timer_entry i [] = []"
| "remove_timer_entry i (timer # rest) = (if pt_id timer = i then rest else timer # remove_timer_entry i rest)"

definition ubmodem_remove_timer :: "u16 \<Rightarrow> poll_timers \<Rightarrow> poll_timers" where
  "ubmodem_remove_timer i s = s\<lparr>ptimers := remove_timer_entry i (ptimers s)\<rparr>"

definition ubgps_remove_timer :: "u16 \<Rightarrow> poll_timers \<Rightarrow> poll_timers" where
  "ubgps_remove_timer i s = s\<lparr>ptimers := remove_timer_entry i (ptimers s)\<rparr>"

section \<open>The poll timeout\<close>

definition msec_diff :: "timespec \<Rightarrow> timespec \<Rightarrow> int" where
  "msec_diff al curr_ts =
     (uint (tv_sec al) - uint (tv_sec curr_ts)) * 1000 + sint (tv_nsec al - tv_nsec curr_ts) sdiv (1000 * 1000)"

abbreviation INT_MAX_32 :: int where "INT_MAX_32 \<equiv> 2147483647"

text \<open>The loop over the timers with the running minimum; the walk stops at an expired timer.\<close>

fun shortest_timeout :: "timespec \<Rightarrow> int \<Rightarrow> poll_timer list \<Rightarrow> int option" where
  "shortest_timeout curr_ts shortest [] = Some shortest"
| "shortest_timeout curr_ts shortest (timer # rest) =
     (if pt_callback timer = None then None
      else
        (let d = msec_diff (alarm timer) curr_ts
         in if d \<le> 0 then Some 0
            else
              (let d = (if d > INT_MAX_32 then INT_MAX_32 else d)
               in shortest_timeout curr_ts (if d < shortest then d else shortest) rest)))"

definition poll_setup_timeout :: "timer_env \<Rightarrow> poll_timers \<Rightarrow> (int \<times> poll_timers) option" where
  "poll_setup_timeout e s =
     (if ptimers s = [] then Some (-1, s)
      else map_option (\<lambda>t. (t, s\<lparr>t_ticks := Suc (t_ticks s)\<rparr>))
             (shortest_timeout (tclk e (t_ticks s)) INT_MAX_32 (ptimers s)))"

definition ubgps_poll_setup :: "timer_env \<Rightarrow> poll_timers \<Rightarrow> (int \<times> poll_timers) option" where
  "ubgps_poll_setup e s = poll_setup_timeout e s"

text \<open>
  For the modem the result also counts the descriptors written: the serial port, and the user
  socket when it is open and its polling is on.
\<close>

definition ubmodem_pollfds_setup ::
  "timer_env \<Rightarrow> nat \<Rightarrow> int \<Rightarrow> nat \<Rightarrow> int \<Rightarrow> poll_timers \<Rightarrow> (int list \<times> int \<times> poll_timers) option" where
  "ubmodem_pollfds_setup e numpfds serial_fd poll_off_count usrsockfd s =
     (case poll_setup_timeout e s of
        None \<Rightarrow> None
      | Some (t, s) \<Rightarrow>
          (let fds = (if 0 < numpfds then [serial_fd] else []);
               fds = (if length fds < numpfds \<and> usrsockfd > -1 \<and> poll_off_count = 0
                      then fds @ [usrsockfd] else fds)
           in Some (fds, t, s)))"

section \<open>Firing expired timers\<close>

definition modem_apply :: "timer_env \<Rightarrow> timer_op \<Rightarrow> poll_timers \<Rightarrow> poll_timers option" where
  "modem_apply e op s =
     (case op of
        Set_timer msec cb priv \<Rightarrow> map_option snd (ubmodem_set_timer e msec cb priv s)
      | Remove_timer i \<Rightarrow> Some (ubmodem_remove_timer i s))"

definition gps_apply :: "timer_env \<Rightarrow> timer_op \<Rightarrow> poll_timers \<Rightarrow> poll_timers option" where
  "gps_apply e op s =
     (case op of
        Set_timer msec cb priv \<Rightarrow> map_option snd (ubgps_set_timer e msec cb priv s)
      | Remove_timer i \<Rightarrow> Some (ubgps_remove_timer i s))"

text \<open>
  \<open>handle_expired_timer\<close>: unlink the entry at position \<open>k\<close>, then run its callback. \<open>apply\<close> is the
  library's interface.
\<close>

definition handle_expired_timer ::
  "(timer_op \<Rightarrow> poll_timers \<Rightarrow> poll_timers option) \<Rightarrow> timer_env \<Rightarrow> timespec \<Rightarrow> nat \<Rightarrow> poll_timers \<Rightarrow> poll_timers option" where
  "handle_expired_timer apply e curr_ts k s =
     (let timer = ptimers s ! k;
          s = s\<lparr>ptimers := take k (ptimers s) @ drop (Suc k) (ptimers s), t_events := t_events s @ [(timer, curr_ts)]\<rparr>
      in case pt_callback timer of
           None \<Rightarrow> None
         | Some cb \<Rightarrow> run_steps apply (tcb e cb (pt_id timer) (cb_priv timer) s) s)"

text \<open>The walk: \<open>k\<close> is the position of \<open>timer\<close> in the queue; it restarts after a callback.\<close>

partial_function (option) fire_expired ::
  "(timer_op \<Rightarrow> poll_timers \<Rightarrow> poll_timers option) \<Rightarrow> timer_env \<Rightarrow> timespec \<Rightarrow> nat \<Rightarrow> poll_timers \<Rightarrow> poll_timers option" where
  "fire_expired apply e curr_ts k s =
     (if k \<ge> length (ptimers s) then Some s
      else if pt_callback (ptimers s ! k) = None then None
      else if msec_diff (alarm (ptimers s ! k)) curr_ts \<le> 0
      then Option.bind (handle_expired_timer apply e curr_ts k s) (fire_expired apply e curr_ts 0)
      else fire_expired apply e curr_ts (Suc k) s)"

definition modem_poll_timers :: "timer_env \<Rightarrow> poll_timers \<Rightarrow> poll_timers option" where
  "modem_poll_timers e s =
     (if ptimers s = [] then Some s
      else fire_expired (modem_apply e) e (tclk e (t_ticks s)) 0 (s\<lparr>t_ticks := Suc (t_ticks s)\<rparr>))"

definition gps_poll_timers :: "timer_env \<Rightarrow> poll_timers \<Rightarrow> poll_timers option" where
  "gps_poll_timers e s =
     (if ptimers s = [] then Some s
      else fire_expired (gps_apply e) e (tclk e (t_ticks s)) 0 (s\<lparr>t_ticks := Suc (t_ticks s)\<rparr>))"

section \<open>Alarm times\<close>

lemma alarm_carry_spec:
  "alarm_carry sec msec = (sec + word_of_nat (unat msec div 1000), word_of_nat (unat msec mod 1000))"
proof (induction sec msec rule: alarm_carry.induct)
  case (1 sec msec)
  show ?case
  proof (cases "msec \<ge> 1000")
    case True
    have u: "unat (msec - 1000) = unat msec - 1000" using True by (simp add: unat_sub)
    have ge: "1000 \<le> unat msec" using True by (simp add: word_le_nat_alt)
    have d: "unat msec div 1000 = Suc ((unat msec - 1000) div 1000)"
      using ge by (simp add: le_div_geq)
    have m: "(unat msec - 1000) mod 1000 = unat msec mod 1000" using ge by (simp add: le_mod_geq)
    show ?thesis using 1 [OF True] True by (simp add: alarm_carry.simps [of sec msec] u d m)
  next
    case False
    then have "unat msec < 1000" by (simp add: word_le_nat_alt)
    with False show ?thesis by (simp add: alarm_carry.simps [of sec msec])
  qed
qed

lemma uint_u32_of_int:
  assumes "0 \<le> k" and "k < 4294967296"
  shows "uint (word_of_int k :: u32) = k"
  using assms by (simp add: uint_word_of_int)

lemma timer_alarm_fields:
  assumes "normal_ts now" and "uint (tv_sec now) + uint msec div 1000 < 4294967296"
  shows "uint (tv_sec (timer_alarm now msec)) = uint (tv_sec now) + uint msec div 1000"
    and "sint (tv_nsec (timer_alarm now msec)) = sint (tv_nsec now) + uint msec mod 1000 * 1000000"
proof -
  let ?q = "unat msec div 1000" and ?r = "unat msec mod 1000"
  have eq: "int ?q = uint msec div 1000" "int ?r = uint msec mod 1000"
    by (simp_all add: zdiv_int zmod_int)
  have s: "tv_sec (timer_alarm now msec) = word_of_int (uint (tv_sec now) + int ?q)"
    by (simp add: timer_alarm_def alarm_carry_spec)
  have "0 \<le> uint (tv_sec now) + int ?q" by simp
  with assms(2) eq(1) show "uint (tv_sec (timer_alarm now msec)) = uint (tv_sec now) + uint msec div 1000"
    unfolding s by (subst uint_u32_of_int) (simp_all only:)
  have n: "tv_nsec (timer_alarm now msec) = word_of_int (sint (tv_nsec now) + int ?r * 1000000)"
    by (simp add: timer_alarm_def alarm_carry_spec)
  have "0 \<le> int ?r" "int ?r < 1000" by simp_all
  then show "sint (tv_nsec (timer_alarm now msec)) = sint (tv_nsec now) + uint msec mod 1000 * 1000000"
    using assms(1) unfolding n eq(2) [symmetric] normal_ts_def
    by (subst sint_u32_of_int) linarith+
qed

lemma timer_alarm_value:
  assumes "normal_ts now" and "uint (tv_sec now) + uint msec div 1000 < 4294967296"
  shows "ns_of (timer_alarm now msec) = ns_of now + uint msec * 1000000"
proof -
  have "uint msec * 1000000 = (uint msec div 1000) * 1000000000 + (uint msec mod 1000) * 1000000"
    using div_mult_mod_eq [of "uint msec" 1000] by linarith
  then show ?thesis by (simp add: ns_of_def timer_alarm_fields [OF assms] algebra_simps)
qed

text \<open>The alarm is left with up to two seconds of nanoseconds, which the comparison tolerates.\<close>

definition alarm_ok :: "timespec \<Rightarrow> bool" where
  "alarm_ok al \<longleftrightarrow> 0 \<le> sint (tv_nsec al) \<and> sint (tv_nsec al) < 2 * NSEC_PER_SEC"

lemma timer_alarm_ok:
  assumes "normal_ts now" and "uint (tv_sec now) < 2147483648"
  shows "alarm_ok (timer_alarm now msec)"
    and "ns_of (timer_alarm now msec) = ns_of now + uint msec * 1000000"
proof -
  have "uint msec < 4294967296" using uint_lt2p [of msec] by simp
  then have "uint msec div 1000 < 4294968" by (simp add: div_less_iff_less_mult)
  with assms(2) have b: "uint (tv_sec now) + uint msec div 1000 < 4294967296" by linarith
  have "0 \<le> uint msec mod 1000" "uint msec mod 1000 < 1000" by simp_all
  with assms(1) show "alarm_ok (timer_alarm now msec)"
    unfolding alarm_ok_def timer_alarm_fields [OF assms(1) b] normal_ts_def by linarith
  show "ns_of (timer_alarm now msec) = ns_of now + uint msec * 1000000"
    by (rule timer_alarm_value [OF assms(1) b])
qed

lemma sdiv_bounds:
  fixes n :: int
  shows "n sdiv 1000000 * 1000000 < n + 1000000" and "n - 1000000 < n sdiv 1000000 * 1000000"
    and "0 \<le> n \<Longrightarrow> n sdiv 1000000 * 1000000 \<le> n" and "n \<le> 0 \<Longrightarrow> n \<le> n sdiv 1000000 * 1000000"
proof -
  have pos: "m sdiv 1000000 * 1000000 \<le> m \<and> m - 1000000 < m sdiv 1000000 * 1000000" if "0 \<le> m" for m :: int
  proof -
    have "m sdiv 1000000 = m div 1000000" using that by (cases "m = 0") (simp_all add: signed_divide_int_def)
    moreover have "m div 1000000 * 1000000 = m - m mod 1000000" by (simp add: minus_mod_eq_div_mult)
    moreover have "0 \<le> m mod 1000000" "m mod 1000000 < 1000000" by simp_all
    ultimately show ?thesis by linarith
  qed
  define q where "q = (- n) sdiv 1000000"
  have neg: "n sdiv 1000000 = - q" by (simp add: q_def signed_divide_int_def)
  note q = pos [of "- n", folded q_def]
  show "n sdiv 1000000 * 1000000 < n + 1000000" "n - 1000000 < n sdiv 1000000 * 1000000"
    using pos [of n] q unfolding neg by (cases "0 \<le> n"; linarith)+
  show "0 \<le> n \<Longrightarrow> n sdiv 1000000 * 1000000 \<le> n" using pos by simp
  show "n \<le> 0 \<Longrightarrow> n \<le> n sdiv 1000000 * 1000000" using q unfolding neg by linarith
qed

lemma msec_diff_bounds:
  assumes "alarm_ok al" and "normal_ts now"
  shows "ns_of al - ns_of now - 1000000 < msec_diff al now * 1000000"
    and "msec_diff al now * 1000000 < ns_of al - ns_of now + 1000000"
proof -
  let ?n = "sint (tv_nsec al) - sint (tv_nsec now)"
  have r: "- 2147483648 \<le> ?n" "?n < 2147483648"
    using assms by (simp_all add: alarm_ok_def normal_ts_def)
  have n: "sint (tv_nsec al - tv_nsec now) = ?n"
    using r by (simp add: sint_word_ariths signed_take_bit_int_eq_self)
  have "ns_of al - ns_of now = (uint (tv_sec al) - uint (tv_sec now)) * 1000 * 1000000 + ?n"
    by (simp add: ns_of_def algebra_simps)
  moreover have "msec_diff al now * 1000000 =
      (uint (tv_sec al) - uint (tv_sec now)) * 1000 * 1000000 + ?n sdiv 1000000 * 1000000"
    by (simp add: msec_diff_def n algebra_simps)
  ultimately show "ns_of al - ns_of now - 1000000 < msec_diff al now * 1000000"
    "msec_diff al now * 1000000 < ns_of al - ns_of now + 1000000"
    using sdiv_bounds [of ?n] by linarith+
qed

lemma msec_diff_future:
  assumes "alarm_ok al" and "normal_ts now" and "ns_of now + 1000000 \<le> ns_of al"
  shows "0 < msec_diff al now"
  using msec_diff_bounds(1) [OF assms(1,2)] assms(3) by simp

lemma msec_diff_past:
  assumes "alarm_ok al" and "normal_ts now" and "ns_of al \<le> ns_of now"
  shows "msec_diff al now \<le> 0"
  using msec_diff_bounds(2) [OF assms(1,2)] assms(3) by simp

section \<open>The timeout is the least time to an alarm\<close>

lemma shortest_timeout_spec:
  assumes "\<forall>t \<in> set ts. pt_callback t \<noteq> None" and "0 < m" and "m \<le> INT_MAX_32"
  shows "\<exists>r. shortest_timeout curr_ts m ts = Some r \<and> 0 \<le> r \<and> r \<le> m \<and>
    (r = 0 \<longleftrightarrow> (\<exists>t \<in> set ts. msec_diff (alarm t) curr_ts \<le> 0)) \<and>
    (r \<noteq> 0 \<longrightarrow> (\<forall>t \<in> set ts. r \<le> msec_diff (alarm t) curr_ts)) \<and>
    (0 < r \<longrightarrow> r < m \<longrightarrow> (\<exists>t \<in> set ts. r = msec_diff (alarm t) curr_ts \<or> r = INT_MAX_32))"
  using assms
proof (induction ts arbitrary: m)
  case Nil
  then show ?case by simp
next
  case (Cons t ts)
  let ?d = "msec_diff (alarm t) curr_ts"
  let ?d' = "if ?d > INT_MAX_32 then INT_MAX_32 else ?d"
  let ?m = "if ?d' < m then ?d' else m"
  show ?case
  proof (cases "?d \<le> 0")
    case True
    with Cons.prems show ?thesis by (auto simp: Let_def)
  next
    case False
    then have m: "0 < ?m" "?m \<le> INT_MAX_32" "?m \<le> m" "?m \<le> ?d" using Cons.prems(2,3) by auto
    from Cons.IH [OF _ m(1,2)] Cons.prems(1) obtain r where
      r: "shortest_timeout curr_ts ?m ts = Some r" "0 \<le> r" "r \<le> ?m"
        "r = 0 \<longleftrightarrow> (\<exists>t \<in> set ts. msec_diff (alarm t) curr_ts \<le> 0)"
        "r \<noteq> 0 \<longrightarrow> (\<forall>t \<in> set ts. r \<le> msec_diff (alarm t) curr_ts)"
        "0 < r \<longrightarrow> r < ?m \<longrightarrow> (\<exists>t \<in> set ts. r = msec_diff (alarm t) curr_ts \<or> r = INT_MAX_32)"
      by auto
    have s: "shortest_timeout curr_ts m (t # ts) = Some r"
      using r(1) False Cons.prems(1) by (auto simp: Let_def)
    have "r = ?d \<or> r = INT_MAX_32 \<or> (\<exists>t \<in> set ts. r = msec_diff (alarm t) curr_ts \<or> r = INT_MAX_32)"
      if "0 < r" "r < m"
    proof (cases "r < ?m")
      case True
      with r(6) that(1) show ?thesis by blast
    next
      case False
      with r(3) that(2) show ?thesis by (auto split: if_splits)
    qed
    with s r m False show ?thesis by (intro exI [of _ r]) auto
  qed
qed

section \<open>Identifiers\<close>

lemma word_add_nat_eq_iff:
  assumes "j < 65536" and "k < 65536"
  shows "(cnt :: u16) + word_of_nat j = cnt + word_of_nat k \<longleftrightarrow> j = k"
  using assms by (simp add: word_of_nat_eq_iff take_bit_nat_eq_self)

lemma unused_timer_id_from:
  assumes "cnt + word_of_nat k \<notin> set used" and "k < 65536" and "0 < j" and "j \<le> k"
    and "\<And>i. j \<le> i \<Longrightarrow> i < k \<Longrightarrow> cnt + word_of_nat i \<in> set used"
    and "first = (if j = 1 then None else Some (cnt + 1))"
  shows "unused_timer_id first used (cnt + word_of_nat (j - 1)) = Some (cnt + word_of_nat k)"
  using assms(3-)
proof (induction "k - j" arbitrary: j first rule: less_induct)
  case less
  have c: "cnt + word_of_nat (j - 1) + 1 = cnt + word_of_nat j"
    using less.prems(1) by (cases j) (simp_all add: add.commute add.left_commute)
  have nf: "first \<noteq> Some (cnt + word_of_nat j)"
  proof
    assume "first = Some (cnt + word_of_nat j)"
    then have "cnt + word_of_nat 1 = cnt + word_of_nat j" "j \<noteq> 1"
      using less.prems(4) by (auto split: if_splits)
    with word_add_nat_eq_iff [of 1 j cnt] less.prems(2) assms(2) show False by simp
  qed
  have eq: "unused_timer_id first used (cnt + word_of_nat (j - 1)) =
      (if cnt + word_of_nat j \<in> set used
       then unused_timer_id (case first of None \<Rightarrow> Some (cnt + word_of_nat j) | Some f \<Rightarrow> Some f) used
         (cnt + word_of_nat j)
       else Some (cnt + word_of_nat j))"
    using nf by (subst unused_timer_id.simps) (simp only: Let_def c if_False)
  show ?case
  proof (cases "j = k")
    case True
    with eq assms(1) show ?thesis by simp
  next
    case False
    with less.prems(2) have lt: "j < k" by simp
    let ?first = "case first of None \<Rightarrow> Some (cnt + word_of_nat j) | Some f \<Rightarrow> Some f"
    have used: "cnt + word_of_nat j \<in> set used" using less.prems(3) lt by simp
    have "?first = (if Suc j = 1 then None else Some (cnt + 1))"
      using less.prems(1,4) by (auto split: if_splits)
    from less.hyps [OF _ _ _ _ this] less.prems(3) lt
    have "unused_timer_id ?first used (cnt + word_of_nat (Suc j - 1)) = Some (cnt + word_of_nat k)"
      by force
    with used show ?thesis unfolding eq by simp
  qed
qed

lemma unused_timer_id_returns:
  assumes "length used < 65535"
  shows "\<exists>i. unused_timer_id None used cnt = Some i \<and> i \<notin> set used"
proof -
  let ?f = "\<lambda>k. cnt + word_of_nat k :: u16" and ?P = "\<lambda>k. 0 < k \<and> k < 65536 \<and> cnt + word_of_nat k \<notin> set used"
  have "inj_on ?f {1..<65536}" by (rule inj_onI) (metis word_add_nat_eq_iff atLeastLessThan_iff)
  then have "card (?f ` {1..<65536}) = 65535" by (simp add: card_image)
  moreover have "card (set used) < 65535" using assms card_length [of used] by linarith
  ultimately have "\<not> ?f ` {1..<65536} \<subseteq> set used"
    using card_mono [of "set used" "?f ` {1..<65536}"] by (metis List.finite_set leD)
  then obtain k0 where "k0 \<in> {1..<65536}" "?f k0 \<notin> set used" by blast
  then have "?P k0" by simp
  define k where "k = (LEAST k. ?P k)"
  have k: "?P k" unfolding k_def by (rule LeastI [of ?P, OF \<open>?P k0\<close>])
  have "?f i \<in> set used" if "1 \<le> i" "i < k" for i
    using not_less_Least [of i ?P] that k unfolding k_def [symmetric] by auto
  then have "unused_timer_id None used (cnt + word_of_nat (1 - 1)) = Some (?f k)"
    using k by (intro unused_timer_id_from) auto
  with k show ?thesis by simp
qed

lemma map_id_remove_timer_entry: "map pt_id (remove_timer_entry i ts) = remove1 i (map pt_id ts)"
  by (induction ts) auto

lemma set_remove_timer_entry: "set (remove_timer_entry i ts) \<subseteq> set ts"
  by (induction ts) auto

lemma length_remove_timer_entry: "length (remove_timer_entry i ts) \<le> length ts"
  by (induction ts) auto

lemma filter_remove_timer_entry: "length (filter P (remove_timer_entry i ts)) \<le> length (filter P ts)"
  by (induction ts) auto

section \<open>The contract of a timer library\<close>

definition timers_ok :: "poll_timers \<Rightarrow> bool" where
  "timers_ok s \<longleftrightarrow> length (ptimers s) \<le> 65534 \<and>
     (\<forall>t \<in> set (ptimers s). pt_callback t \<noteq> None \<and> alarm_ok (alarm t))"

text \<open>
  The clock is normalised, monotonic and below 68 years; memory never holds more than 65534 timers;
  callbacks set timers of at least a millisecond with a callback.
\<close>

fun timer_op_ok :: "timer_op \<Rightarrow> bool" where
  "timer_op_ok (Set_timer msec cb priv) \<longleftrightarrow> 0 < msec \<and> cb \<noteq> None"
| "timer_op_ok (Remove_timer i) = True"

definition timer_env_ok :: "timer_env \<Rightarrow> bool" where
  "timer_env_ok e \<longleftrightarrow>
     (\<forall>k. normal_ts (tclk e k) \<and> uint (tv_sec (tclk e k)) < 2147483648) \<and>
     (\<forall>i j. i \<le> j \<longrightarrow> ns_of (tclk e i) \<le> ns_of (tclk e j)) \<and>
     (\<forall>k n. talloc e k n \<longrightarrow> n < 65534) \<and>
     (\<forall>cb i priv s. list_all timer_op_ok (tcb e cb i priv s))"

abbreviation is_expired :: "timespec \<Rightarrow> poll_timer \<Rightarrow> bool" where
  "is_expired curr_ts t \<equiv> msec_diff (alarm t) curr_ts \<le> 0"

definition expired_count :: "timespec \<Rightarrow> poll_timers \<Rightarrow> nat" where
  "expired_count curr_ts s = length (filter (is_expired curr_ts) (ptimers s))"

locale timer_library =
  fixes apply_timer_op :: "timer_env \<Rightarrow> timer_op \<Rightarrow> poll_timers \<Rightarrow> poll_timers option"
  assumes remove_law:
    "apply_timer_op e (Remove_timer i) s = Some (s\<lparr>ptimers := remove_timer_entry i (ptimers s)\<rparr>)"
  and set_law:
    "timer_env_ok e \<Longrightarrow> timers_ok s \<Longrightarrow> cb \<noteq> None \<Longrightarrow>
     \<exists>s'. apply_timer_op e (Set_timer msec cb priv) s = Some s' \<and>
       t_ticks s' = Suc (t_ticks s) \<and> t_events s' = t_events s \<and>
       (ptimers s' = ptimers s \<or> talloc e (t_ticks s) (length (ptimers s)) \<and>
        (\<exists>i. ptimers s' = ptimers s @
          [\<lparr>alarm = timer_alarm (tclk e (t_ticks s)) msec, pt_callback = cb, cb_priv = priv, pt_id = i\<rparr>]))"
begin

lemma apply_safe:
  assumes env: "timer_env_ok e" and ok: "timers_ok s" "timer_op_ok op"
    and now: "normal_ts curr_ts" "ns_of curr_ts \<le> ns_of (tclk e (t_ticks s))"
  shows "\<exists>s'. apply_timer_op e op s = Some s' \<and> timers_ok s' \<and> t_ticks s \<le> t_ticks s' \<and>
    t_events s' = t_events s \<and> expired_count curr_ts s' \<le> expired_count curr_ts s"
proof (cases op)
  case (Remove_timer i)
  have "expired_count curr_ts (s\<lparr>ptimers := remove_timer_entry i (ptimers s)\<rparr>) \<le> expired_count curr_ts s"
    by (simp add: expired_count_def filter_remove_timer_entry)
  with Remove_timer ok(1) show ?thesis
    using length_remove_timer_entry [of i "ptimers s"] set_remove_timer_entry [of i "ptimers s"]
    by (auto simp: remove_law timers_ok_def)
next
  case (Set_timer msec cb priv)
  obtain s' where s': "apply_timer_op e op s = Some s'" "t_ticks s' = Suc (t_ticks s)" "t_events s' = t_events s"
    "ptimers s' = ptimers s \<or> talloc e (t_ticks s) (length (ptimers s)) \<and> (\<exists>i. ptimers s' = ptimers s @
      [\<lparr>alarm = timer_alarm (tclk e (t_ticks s)) msec, pt_callback = cb, cb_priv = priv, pt_id = i\<rparr>])"
    using set_law [OF env ok(1), of cb msec priv] Set_timer ok(2) by auto
  have clk: "normal_ts (tclk e (t_ticks s))" "uint (tv_sec (tclk e (t_ticks s))) < 2147483648"
    using env by (simp_all add: timer_env_ok_def)
  note al = timer_alarm_ok [OF clk, of msec]
  have "1 \<le> uint msec" using ok(2) Set_timer by (simp add: word_less_def)
  then have fut: "0 < msec_diff (timer_alarm (tclk e (t_ticks s)) msec) curr_ts"
    using now al by (intro msec_diff_future) simp_all
  show ?thesis
    using s'(4)
  proof (elim disjE conjE exE)
    assume "ptimers s' = ptimers s"
    with s'(1-3) ok(1) show ?thesis by (simp add: timers_ok_def expired_count_def)
  next
    fix i assume a: "talloc e (t_ticks s) (length (ptimers s))" and p: "ptimers s' = ptimers s @
      [\<lparr>alarm = timer_alarm (tclk e (t_ticks s)) msec, pt_callback = cb, cb_priv = priv, pt_id = i\<rparr>]"
    have "length (ptimers s) < 65534" using a env by (auto simp: timer_env_ok_def)
    with s'(1-3) ok Set_timer al(1) fut show ?thesis
      by (auto simp: timers_ok_def expired_count_def p)
  qed
qed

lemma run_ops:
  assumes "timer_env_ok e" and "timers_ok s" and "list_all timer_op_ok ops"
    and "normal_ts curr_ts" and "ns_of curr_ts \<le> ns_of (tclk e (t_ticks s))"
  shows "\<exists>s'. run_steps (apply_timer_op e) ops s = Some s' \<and> timers_ok s' \<and> t_ticks s \<le> t_ticks s' \<and>
    t_events s' = t_events s \<and> expired_count curr_ts s' \<le> expired_count curr_ts s"
  using assms(2,3,5)
proof (induction ops arbitrary: s)
  case Nil
  then show ?case by simp
next
  case (Cons op ops)
  obtain s1 where s1: "apply_timer_op e op s = Some s1" "timers_ok s1" "t_ticks s \<le> t_ticks s1"
    "t_events s1 = t_events s" "expired_count curr_ts s1 \<le> expired_count curr_ts s"
    using apply_safe [OF assms(1) Cons.prems(1) _ assms(4) Cons.prems(3)] Cons.prems(2) by auto
  have "ns_of curr_ts \<le> ns_of (tclk e (t_ticks s1))"
    using Cons.prems(3) s1(3) assms(1) by (meson order_trans timer_env_ok_def)
  with Cons.IH [OF s1(2)] Cons.prems(2) s1 show ?case by fastforce
qed

lemma handle_expired_spec:
  assumes "timer_env_ok e" and "timers_ok s" and k: "k < length (ptimers s)"
    and x: "is_expired curr_ts (ptimers s ! k)"
    and "normal_ts curr_ts" and "ns_of curr_ts \<le> ns_of (tclk e (t_ticks s))"
  shows "\<exists>s'. handle_expired_timer (apply_timer_op e) e curr_ts k s = Some s' \<and> timers_ok s' \<and>
    t_ticks s \<le> t_ticks s' \<and> t_events s' = t_events s @ [(ptimers s ! k, curr_ts)] \<and>
    expired_count curr_ts s' < expired_count curr_ts s"
proof -
  let ?t = "ptimers s ! k"
  let ?s = "s\<lparr>ptimers := take k (ptimers s) @ drop (Suc k) (ptimers s), t_events := t_events s @ [(?t, curr_ts)]\<rparr>"
  have split: "ptimers s = take k (ptimers s) @ ?t # drop (Suc k) (ptimers s)" by (rule id_take_nth_drop [OF k])
  have "?t \<in> set (ptimers s)" using k by simp
  then obtain cb where cb: "pt_callback ?t = Some cb" using assms(2) by (auto simp: timers_ok_def)
  have ok: "timers_ok ?s"
    using assms(2) k by (auto simp: timers_ok_def dest: in_set_takeD in_set_dropD)
  have "expired_count curr_ts s = Suc (expired_count curr_ts ?s)"
    unfolding expired_count_def by (subst split) (use x in simp)
  moreover have "list_all timer_op_ok (tcb e cb (pt_id ?t) (cb_priv ?t) ?s)"
    using assms(1) by (simp add: timer_env_ok_def)
  ultimately show ?thesis
    using run_ops [OF assms(1) ok _ assms(5)] assms(6) cb by (fastforce simp: handle_expired_timer_def Let_def)
qed

text \<open>The walk ends, fires only expired timers and leaves none behind.\<close>

lemma fire_expired_spec:
  assumes env: "timer_env_ok e" and now: "normal_ts curr_ts"
    and "timers_ok s" and "ns_of curr_ts \<le> ns_of (tclk e (t_ticks s))"
    and "\<forall>i < k. i < length (ptimers s) \<longrightarrow> \<not> is_expired curr_ts (ptimers s ! i)"
  shows "\<exists>s' fs. fire_expired (apply_timer_op e) e curr_ts k s = Some s' \<and> timers_ok s' \<and>
    t_events s' = t_events s @ map (\<lambda>t. (t, curr_ts)) fs \<and> (\<forall>t \<in> set fs. is_expired curr_ts t) \<and>
    (\<forall>t \<in> set (ptimers s'). \<not> is_expired curr_ts t)"
  using assms(3-)
proof (induction "(expired_count curr_ts s, length (ptimers s) - k)" arbitrary: s k
    rule: wf_induct_rule [OF wf_lex_prod [OF wf_less wf_less]])
  case (1 s k)
  show ?case
  proof (cases "k < length (ptimers s)")
    case False
    then have "\<forall>t \<in> set (ptimers s). \<not> is_expired curr_ts t"
      using "1.prems"(3) by (auto simp: in_set_conv_nth)
    with False "1.prems"(1) show ?thesis
      by (subst fire_expired.simps) (auto intro: exI [of _ "[]"])
  next
    case k: True
    then have cb: "pt_callback (ptimers s ! k) \<noteq> None" using "1.prems"(1) by (auto simp: timers_ok_def)
    show ?thesis
    proof (cases "is_expired curr_ts (ptimers s ! k)")
      case True
      obtain s1 where s1: "handle_expired_timer (apply_timer_op e) e curr_ts k s = Some s1" "timers_ok s1"
        "t_ticks s \<le> t_ticks s1" "t_events s1 = t_events s @ [(ptimers s ! k, curr_ts)]"
        "expired_count curr_ts s1 < expired_count curr_ts s"
        using handle_expired_spec [OF env "1.prems"(1) k True now "1.prems"(2)] by blast
      have "ns_of curr_ts \<le> ns_of (tclk e (t_ticks s1))"
        using "1.prems"(2) s1(3) env by (meson order_trans timer_env_ok_def)
      with "1.hyps" [of s1 0] s1(2,5) obtain s2 fs where
        s2: "fire_expired (apply_timer_op e) e curr_ts 0 s1 = Some s2" "timers_ok s2"
          "t_events s2 = t_events s1 @ map (\<lambda>t. (t, curr_ts)) fs" "\<forall>t \<in> set fs. is_expired curr_ts t"
          "\<forall>t \<in> set (ptimers s2). \<not> is_expired curr_ts t" by auto
      have "fire_expired (apply_timer_op e) e curr_ts k s = Some s2"
        using k cb True s1(1) s2(1) by (subst fire_expired.simps) simp
      with s2 s1(4) True show ?thesis by (intro exI [of _ s2] exI [of _ "ptimers s ! k # fs"]) simp
    next
      case False
      have step: "fire_expired (apply_timer_op e) e curr_ts k s = fire_expired (apply_timer_op e) e curr_ts (Suc k) s"
        using k cb False by (subst fire_expired.simps) auto
      have "\<forall>i < Suc k. i < length (ptimers s) \<longrightarrow> \<not> is_expired curr_ts (ptimers s ! i)"
        using "1.prems"(3) False by (auto simp: less_Suc_eq)
      with "1.hyps" [of s "Suc k"] "1.prems"(1,2) k show ?thesis unfolding step by auto
    qed
  qed
qed

end

section \<open>Both libraries honour the contract\<close>

lemma unused_timer_id_fresh:
  assumes "unused_timer_id first used cnt = Some i"
  shows "i \<notin> set used"
  by (rule unused_timer_id.raw_induct [OF _ assms, where P = "\<lambda>first used cnt i. i \<notin> set used"])
    (auto simp: Let_def split: if_splits)

lemma ubmodem_set_timer_cases:
  assumes "ubmodem_set_timer e msec cb priv s = Some (r, s')"
  shows "r = Inl () \<and> s' = s\<lparr>t_ticks := Suc (t_ticks s)\<rparr> \<or>
    (\<exists>i. r = Inr i \<and> i \<notin> set (ids s) \<and> talloc e (t_ticks s) (length (ptimers s)) \<and>
      s' = s\<lparr>t_ticks := Suc (t_ticks s), timer_id_cnt := i, ptimers := ptimers s @
        [\<lparr>alarm = timer_alarm (tclk e (t_ticks s)) msec, pt_callback = cb, cb_priv = priv, pt_id = i\<rparr>]\<rparr>)"
  using assms
  by (auto simp: ubmodem_set_timer_def modem_get_unused_timer_id_def Let_def
      dest: unused_timer_id_fresh split: if_splits option.splits)

lemma ubmodem_set_timer_returns:
  assumes "timer_env_ok e" and "timers_ok s"
  shows "\<exists>r s'. ubmodem_set_timer e msec cb priv s = Some (r, s')"
proof (cases "talloc e (t_ticks s) (length (ptimers s))")
  case True
  have "length (ids s) < 65535" using assms(2) by (simp add: timers_ok_def)
  then obtain i where "unused_timer_id None (ids s) (timer_id_cnt s) = Some i"
    using unused_timer_id_returns by blast
  with True show ?thesis by (simp add: ubmodem_set_timer_def modem_get_unused_timer_id_def Let_def)
qed (simp add: ubmodem_set_timer_def)

interpretation modem_timers: timer_library modem_apply
proof
  fix e :: timer_env and i s
  show "modem_apply e (Remove_timer i) s = Some (s\<lparr>ptimers := remove_timer_entry i (ptimers s)\<rparr>)"
    by (simp add: modem_apply_def ubmodem_remove_timer_def)
next
  fix e :: timer_env and s :: poll_timers and cb msec priv
  assume "timer_env_ok e" "timers_ok s"
  then obtain r s' where "ubmodem_set_timer e msec cb priv s = Some (r, s')"
    using ubmodem_set_timer_returns by blast
  with ubmodem_set_timer_cases [OF this]
  show "\<exists>s'. modem_apply e (Set_timer msec cb priv) s = Some s' \<and>
    t_ticks s' = Suc (t_ticks s) \<and> t_events s' = t_events s \<and>
    (ptimers s' = ptimers s \<or> talloc e (t_ticks s) (length (ptimers s)) \<and> (\<exists>i. ptimers s' = ptimers s @
      [\<lparr>alarm = timer_alarm (tclk e (t_ticks s)) msec, pt_callback = cb, cb_priv = priv, pt_id = i\<rparr>]))"
    by (auto simp: modem_apply_def)
qed

interpretation gps_timers: timer_library gps_apply
  by unfold_locales (auto simp: gps_apply_def ubgps_remove_timer_def ubgps_set_timer_def Let_def)

lemma modem_poll_timers_spec:
  assumes "timer_env_ok e" and "timers_ok s"
  shows "\<exists>s' fs. modem_poll_timers e s = Some s' \<and> timers_ok s' \<and>
    t_events s' = t_events s @ map (\<lambda>t. (t, tclk e (t_ticks s))) fs \<and>
    (\<forall>t \<in> set fs. is_expired (tclk e (t_ticks s)) t) \<and>
    (\<forall>t \<in> set (ptimers s'). \<not> is_expired (tclk e (t_ticks s)) t)"
proof (cases "ptimers s = []")
  case False
  let ?s = "s\<lparr>t_ticks := Suc (t_ticks s)\<rparr>"
  have "timers_ok ?s" "normal_ts (tclk e (t_ticks s))" "ns_of (tclk e (t_ticks s)) \<le> ns_of (tclk e (t_ticks ?s))"
    using assms by (simp_all add: timer_env_ok_def timers_ok_def)
  from modem_timers.fire_expired_spec [OF assms(1) this(2,1,3), of 0] False show ?thesis
    by (simp add: modem_poll_timers_def)
qed (use assms in \<open>auto simp: modem_poll_timers_def\<close>)

lemma gps_poll_timers_spec:
  assumes "timer_env_ok e" and "timers_ok s"
  shows "\<exists>s' fs. gps_poll_timers e s = Some s' \<and> timers_ok s' \<and>
    t_events s' = t_events s @ map (\<lambda>t. (t, tclk e (t_ticks s))) fs \<and>
    (\<forall>t \<in> set fs. is_expired (tclk e (t_ticks s)) t) \<and>
    (\<forall>t \<in> set (ptimers s'). \<not> is_expired (tclk e (t_ticks s)) t)"
proof (cases "ptimers s = []")
  case False
  let ?s = "s\<lparr>t_ticks := Suc (t_ticks s)\<rparr>"
  have "timers_ok ?s" "normal_ts (tclk e (t_ticks s))" "ns_of (tclk e (t_ticks s)) \<le> ns_of (tclk e (t_ticks ?s))"
    using assms by (simp_all add: timer_env_ok_def timers_ok_def)
  from gps_timers.fire_expired_spec [OF assms(1) this(2,1,3), of 0] False show ?thesis
    by (simp add: gps_poll_timers_def)
qed (use assms in \<open>auto simp: gps_poll_timers_def\<close>)

text \<open>What a client may assume of the identifiers; only the modem library keeps them apart.\<close>

locale timer_ids =
  fixes set_timer ::
      "timer_env \<Rightarrow> u32 \<Rightarrow> nat option \<Rightarrow> nat \<Rightarrow> poll_timers \<Rightarrow> ((unit + u16) \<times> poll_timers) option"
    and remove_timer :: "u16 \<Rightarrow> poll_timers \<Rightarrow> poll_timers"
  assumes set_adds: "set_timer e msec cb priv s = Some (Inr i, s') \<Longrightarrow> ids s' = ids s @ [i]"
    and set_error: "set_timer e msec cb priv s = Some (Inl u, s') \<Longrightarrow> ids s' = ids s"
    and remove_removes: "ids (remove_timer i s) = remove1 i (ids s)"
begin

lemma set_remove:
  assumes "set_timer e msec cb priv s = Some (Inr i, s')"
  shows "mset (ids (remove_timer i s')) = mset (ids s)"
  by (simp only: remove_removes mset_remove1 set_adds [OF assms]) simp

end

locale fresh_timer_ids = timer_ids +
  assumes set_fresh: "set_timer e msec cb priv s = Some (Inr i, s') \<Longrightarrow> i \<notin> set (ids s)"
begin

lemma set_remove_exact:
  assumes "set_timer e msec cb priv s = Some (Inr i, s')"
  shows "ids (remove_timer i s') = ids s"
  using set_fresh [OF assms] unfolding remove_removes set_adds [OF assms] by (simp add: remove1_append)

lemma set_distinct:
  assumes "distinct (ids s)" and "set_timer e msec cb priv s = Some (Inr i, s')"
  shows "distinct (ids s')"
  using set_fresh [OF assms(2)] assms(1) unfolding set_adds [OF assms(2)] by simp

end

interpretation gps_ids: timer_ids ubgps_set_timer ubgps_remove_timer
  by unfold_locales
    (auto simp: ubgps_set_timer_def ubgps_remove_timer_def map_id_remove_timer_entry Let_def split: if_splits)

interpretation modem_ids: fresh_timer_ids ubmodem_set_timer ubmodem_remove_timer
  by unfold_locales
    (auto dest!: ubmodem_set_timer_cases simp: ubmodem_remove_timer_def map_id_remove_timer_entry)

end
