(* ===== verification/Modem_Parser.thy ===== *)
theory Modem_Parser
  imports Faults Modem_Stream Poll_Timers
begin

text \<open>
  The parser of modem responses, \<open>apps/system/ubmodem/ubmodem_parser.c\<close>: the registry of response
  handlers, recognition of response names, the per-format parameter machine, the main byte machine,
  command completion and command timeout.

  A step has type \<open>fault + result\<close>: \<open>Inl Assertion\<close> is a failed \<open>assert\<close> or \<open>DEBUGASSERT\<close>,
  \<open>Inl Memory\<close> an access outside an array or through a NULL pointer. The byte machine itself is a loop
  (\<open>goto restart\<close>) and is a partial function, so that not returning is \<open>None\<close>.

  A pointer \<open>parser->handler\<close> is a slot number of \<open>parser->commands\<close> or the static error handler;
  what it points to is read when it is dereferenced. Callbacks are unknown code: what they do is a
  list of \<open>parser_op\<close>, run where the code calls them. \<open>mevents\<close> records callbacks and changes of the
  power-management activity, in order; no code reads it.
\<close>

section \<open>Data\<close>

datatype at_resp_format_e =
  RESP_FMT_INT8 | RESP_FMT_INT16 | RESP_FMT_INT32 | RESP_FMT_STRING | RESP_FMT_STRING_TO_EOL
| RESP_FMT_QUOTED_STRING | RESP_FMT_DATALEN | RESP_FMT_QUOTED_DATABUF

record at_cmd_def_s =
  cmd_name :: bytes
  resp_format :: "at_resp_format_e list"
  resp_num :: nat
  timeout_dsec :: u16
  flag_multiple_resp :: bool
  flag_data_prompt :: bool
  flag_pdu_prompt :: bool
  flag_errorcode :: bool
  flag_plain :: bool
  flag_pm_low_activity :: bool

datatype at_resp_status_e =
  RESP_STATUS_NONE \<comment> \<open>0, before the first response\<close>
| RESP_STATUS_OK | RESP_STATUS_URC | RESP_STATUS_LINE | RESP_STATUS_DATAPROMPT
| RESP_STATUS_ERROR | RESP_STATUS_CME_ERROR | RESP_STATUS_CMS_ERROR | RESP_STATUS_TIMEOUT

text \<open>\<open>errorcode\<close> is a signed field of 16 bits, \<open>num_params\<close> one of 12 bits (it stays below 128).\<close>

record at_resp_info_s =
  status :: at_resp_status_e
  errorcode :: int
  num_params :: nat

definition resp_status_is_error :: "at_resp_status_e \<Rightarrow> bool" where
  "resp_status_is_error st \<longleftrightarrow> st = RESP_STATUS_ERROR \<or> st = RESP_STATUS_CME_ERROR \<or> st = RESP_STATUS_CMS_ERROR"

definition resp_status_is_error_or_timeout :: "at_resp_status_e \<Rightarrow> bool" where
  "resp_status_is_error_or_timeout st \<longleftrightarrow> resp_status_is_error st \<or> st = RESP_STATUS_TIMEOUT"

datatype at_parser_state_e =
  PARSER_STATE_RESET | PARSER_STATE_READ_RESPONSE_NAME | PARSER_STATE_SKIP_TO_EOL
| PARSER_STATE_START_READ_RARAM | PARSER_STATE_DO_READ_PARAM

record at_response_handler_s =
  active :: bool
  unsolicited :: bool
  cmd :: "at_cmd_def_s option"
  callback :: nat
  callback_priv :: nat

datatype handler_ref = Commands nat | Internal_error

record param_s =
  stream_strlen_pos :: "nat option"
  strlen :: u16
  fmt :: at_resp_format_e
  quotes :: nat

record at_parser_s =
  pstate :: at_parser_state_e
  statebuf :: "nat \<Rightarrow> u8"
  statebufpos :: nat
  param :: param_s
  stream :: modem_response_stream_s
  info :: at_resp_info_s
  datalen :: u16
  time_prev :: timespec
  handler :: "handler_ref option"
  commands :: "at_response_handler_s list"
  cmd_timeout_id :: int
  cmd_timeout_armed :: bool

datatype modem_event =
  Callback at_cmd_def_s at_resp_info_s "bytes option" nat
| Pm_activity bool bool \<comment> \<open>low activity?, set or cleared\<close>

record modem =
  parser :: at_parser_s
  mtimers :: poll_timers
  mevents :: "modem_event list"

datatype parser_op =
  Op_register at_cmd_def_s nat nat bool
| Op_unregister bytes
| Op_setup_command_timeout

record modem_env =
  tenv :: timer_env
  mcb :: "nat \<Rightarrow> at_cmd_def_s \<Rightarrow> at_resp_info_s \<Rightarrow> bytes option \<Rightarrow> nat \<Rightarrow> modem \<Rightarrow> parser_op list"

abbreviation NUM_COMMAND_HANDLERS :: nat where "NUM_COMMAND_HANDLERS \<equiv> 7"
abbreviation STATEBUF_LEN :: nat where "STATEBUF_LEN \<equiv> 32"
abbreviation MODEM_CMD_DEFAULT_TIMEOUT :: u32 where "MODEM_CMD_DEFAULT_TIMEOUT \<equiv> 50"

definition error_def :: at_cmd_def_s where
  "error_def = \<lparr>cmd_name = [], resp_format = [RESP_FMT_INT32], resp_num = 1, timeout_dsec = 0,
     flag_multiple_resp = False, flag_data_prompt = False, flag_pdu_prompt = False,
     flag_errorcode = True, flag_plain = False, flag_pm_low_activity = False\<rparr>"

definition internal_error_handler :: at_response_handler_s where
  "internal_error_handler =
     \<lparr>active = False, unsolicited = False, cmd = Some error_def, callback = 0, callback_priv = 0\<rparr>"

definition set_parser :: "(at_parser_s \<Rightarrow> at_parser_s) \<Rightarrow> modem \<Rightarrow> modem" where
  "set_parser f m = m\<lparr>parser := f (parser m)\<rparr>"

text \<open>\<open>parser->handler\<close> and the command it belongs to.\<close>

definition deref :: "at_parser_s \<Rightarrow> handler_ref \<Rightarrow> at_response_handler_s res" where
  "deref p r =
     (case r of
        Internal_error \<Rightarrow> Inr internal_error_handler
      | Commands i \<Rightarrow> check Memory (i < length (commands p)) (commands p ! i))"

definition handler_cmd :: "at_response_handler_s \<Rightarrow> at_cmd_def_s res" where
  "handler_cmd h = (case cmd h of None \<Rightarrow> Inl Memory | Some c \<Rightarrow> Inr c)"

definition current_handler :: "at_parser_s \<Rightarrow> at_response_handler_s res" where
  "current_handler p = (case handler p of None \<Rightarrow> Inl Memory | Some r \<Rightarrow> deref p r)"

section \<open>The handler registry\<close>

fun find_by_name :: "bytes \<Rightarrow> at_response_handler_s list \<Rightarrow> nat \<Rightarrow> nat option res" where
  "find_by_name nm [] i = Inr None"
| "find_by_name nm (h # hs) i =
     (if \<not> active h then find_by_name nm hs (Suc i)
      else
        (case cmd h of
           None \<Rightarrow> Inl Assertion
         | Some c \<Rightarrow> if strcasecmp (cmd_name c) nm = 0 then Inr (Some i) else find_by_name nm hs (Suc i)))"

definition parser_find_response_handler_by_name :: "at_parser_s \<Rightarrow> bytes \<Rightarrow> nat option res" where
  "parser_find_response_handler_by_name p nm = find_by_name nm (commands p) 0"

fun find_active :: "at_response_handler_s list \<Rightarrow> nat \<Rightarrow> nat option res" where
  "find_active [] i = Inr None"
| "find_active (h # hs) i =
     (if \<not> active h then find_active hs (Suc i)
      else if cmd h = None then Inl Assertion
      else if unsolicited h then find_active hs (Suc i)
      else Inr (Some i))"

definition parser_find_response_handler_for_active_command :: "at_parser_s \<Rightarrow> nat option res" where
  "parser_find_response_handler_for_active_command p = find_active (commands p) 0"

definition ubparser_unregister_response_handler :: "bytes \<Rightarrow> modem \<Rightarrow> modem res" where
  "ubparser_unregister_response_handler nm m =
     and_then (parser_find_response_handler_by_name (parser m) nm) (\<lambda>found.
       case found of
         None \<Rightarrow> Inr m
       | Some i \<Rightarrow>
           (let h = commands (parser m) ! i;
                m = set_parser (\<lambda>p. p\<lparr>commands := (commands p)[i := h\<lparr>active := False\<rparr>]\<rparr>) m
            in if i = 0
               then and_then (handler_cmd h) (\<lambda>c.
                      Inr (m\<lparr>mevents := mevents m @ [Pm_activity (flag_pm_low_activity c) False]\<rparr>))
               else Inr m))"

fun first_free :: "at_response_handler_s list \<Rightarrow> nat \<Rightarrow> nat" where
  "first_free [] i = i"
| "first_free (h # hs) i = (if \<not> active h then i else first_free hs (Suc i))"

definition ubparser_register_response_handler ::
  "at_cmd_def_s \<Rightarrow> nat \<Rightarrow> nat \<Rightarrow> bool \<Rightarrow> modem \<Rightarrow> modem res" where
  "ubparser_register_response_handler c cb priv unsol m =
     (let cs = commands (parser m);
          i = (if unsol then first_free (drop 1 cs) 1 else first_free cs 0)
      in if i = length cs then Inl Assertion
         else if \<not> ((\<not> unsol \<and> i = 0) \<or> (unsol \<and> i > 0)) then Inl Assertion
         else
           (let h = \<lparr>active = True, unsolicited = unsol, cmd = Some c, callback = cb, callback_priv = priv\<rparr>;
                m = set_parser (\<lambda>p. p\<lparr>commands := (commands p)[i := h]\<rparr>) m
            in if \<not> unsol
               then Inr (m\<lparr>mevents := mevents m @ [Pm_activity (flag_pm_low_activity c) True]\<rparr>)
               else Inr m))"

definition timeout_msec :: "at_cmd_def_s \<Rightarrow> u32" where
  "timeout_msec c =
     (let dsec = (if timeout_dsec c = 0 then MODEM_CMD_DEFAULT_TIMEOUT else ucast (timeout_dsec c))
      in dsec * 100)"

text \<open>The timer library may abort when it has no identifier left.\<close>

definition ubparser_setup_command_timeout :: "modem_env \<Rightarrow> modem \<Rightarrow> (bool \<times> modem) res" where
  "ubparser_setup_command_timeout e m =
     (if cmd_timeout_armed (parser m) then Inl Assertion
      else
        and_then (parser_find_response_handler_for_active_command (parser m)) (\<lambda>act.
          case act of
            None \<Rightarrow> Inl Assertion
          | Some i \<Rightarrow>
              and_then (handler_cmd (commands (parser m) ! i)) (\<lambda>c.
                case ubmodem_set_timer (tenv e) (timeout_msec c) (Some 0) 0 (mtimers m) of
                  None \<Rightarrow> Inl Assertion
                | Some (Inl _, t) \<Rightarrow> Inr (False, m\<lparr>mtimers := t\<rparr>)
                | Some (Inr tid, t) \<Rightarrow>
                    Inr (True, set_parser (\<lambda>p. p\<lparr>cmd_timeout_id := uint tid, cmd_timeout_armed := True\<rparr>)
                                 (m\<lparr>mtimers := t\<rparr>)))))"

definition apply_parser_op :: "modem_env \<Rightarrow> parser_op \<Rightarrow> modem \<Rightarrow> modem res" where
  "apply_parser_op e op m =
     (case op of
        Op_register c cb priv unsol \<Rightarrow> ubparser_register_response_handler c cb priv unsol m
      | Op_unregister nm \<Rightarrow> ubparser_unregister_response_handler nm m
      | Op_setup_command_timeout \<Rightarrow> and_then (ubparser_setup_command_timeout e m) (\<lambda>(ok, m). Inr m))"

fun run_parser_ops :: "modem_env \<Rightarrow> parser_op list \<Rightarrow> modem \<Rightarrow> modem res" where
  "run_parser_ops e [] m = Inr m"
| "run_parser_ops e (op # ops) m = and_then (apply_parser_op e op m) (run_parser_ops e ops)"

section \<open>Callbacks\<close>

definition run_callback ::
  "modem_env \<Rightarrow> at_response_handler_s \<Rightarrow> at_resp_info_s \<Rightarrow> bytes option \<Rightarrow> modem \<Rightarrow> modem res" where
  "run_callback e h ri str m =
     and_then (handler_cmd h) (\<lambda>c.
       run_parser_ops e (mcb e (callback h) c ri str (callback_priv h) m)
         (m\<lparr>mevents := mevents m @ [Callback c ri str (callback_priv h)]\<rparr>))"

definition modem_do_callback ::
  "modem_env \<Rightarrow> at_response_handler_s \<Rightarrow> bytes option \<Rightarrow> modem \<Rightarrow> modem res" where
  "modem_do_callback e h str m =
     (let m = (if \<not> unsolicited h \<and> cmd_timeout_armed (parser m)
               then set_parser (\<lambda>p. p\<lparr>cmd_timeout_id := -1, cmd_timeout_armed := False\<rparr>)
                      (m\<lparr>mtimers := ubmodem_remove_timer (word_of_int (cmd_timeout_id (parser m))) (mtimers m)\<rparr>)
               else m)
      in run_callback e h (info (parser m)) str m)"

definition store_time_prev :: "modem_env \<Rightarrow> modem \<Rightarrow> modem" where
  "store_time_prev e m =
     set_parser (\<lambda>p. p\<lparr>time_prev := tclk (tenv e) (t_ticks (mtimers m))\<rparr>)
       (m\<lparr>mtimers := (mtimers m)\<lparr>t_ticks := Suc (t_ticks (mtimers m))\<rparr>\<rparr>)"

definition reset_stream :: "modem \<Rightarrow> modem" where
  "reset_stream = set_parser (\<lambda>p. p\<lparr>stream := modem_stream_reset (stream p)\<rparr>)"

definition set_result :: "at_resp_status_e \<Rightarrow> int \<Rightarrow> modem \<Rightarrow> modem" where
  "set_result st ec = set_parser (\<lambda>p. p\<lparr>info := (info p)\<lparr>status := st, errorcode := ec\<rparr>\<rparr>)"

text \<open>The value stored to the 16-bit field \<open>errorcode\<close>.\<close>

definition errorcode_field :: "u32 \<Rightarrow> int" where
  "errorcode_field v = sint (ucast v :: u16)"

definition modem_parser_handle_errorcode :: "modem_env \<Rightarrow> modem \<Rightarrow> modem res" where
  "modem_parser_handle_errorcode e m =
     and_then (parser_find_response_handler_for_active_command (parser m)) (\<lambda>act.
       case act of
         None \<Rightarrow> Inl Assertion
       | Some i \<Rightarrow>
           (let code = (case fst (ubmodem_stream_get_int32 (contents (stream (parser m)))) of
                          None \<Rightarrow> -1 | Some v \<Rightarrow> v);
                m = set_parser (\<lambda>p. p\<lparr>info := (info p)\<lparr>errorcode := errorcode_field code, num_params := 0\<rparr>\<rparr>) m
            in and_then (handler_cmd (commands (parser m) ! i)) (\<lambda>c.
               and_then (ubparser_unregister_response_handler (cmd_name c) m) (\<lambda>m.
               and_then (modem_do_callback e (commands (parser m) ! i) None (store_time_prev e m)) (\<lambda>m.
                 Inr (reset_stream (set_parser (\<lambda>p. p\<lparr>handler := None, pstate := PARSER_STATE_RESET\<rparr>) m)))))))"

definition modem_parser_handle_response_line :: "modem_env \<Rightarrow> modem \<Rightarrow> modem res" where
  "modem_parser_handle_response_line e m =
     and_then (current_handler (parser m)) (\<lambda>h.
       (let m = set_parser (\<lambda>p. p\<lparr>info := (info p)\<lparr>status := RESP_STATUS_LINE\<rparr>\<rparr>) (store_time_prev e m)
        in and_then (modem_do_callback e h (Some (contents (stream (parser m)))) m) (\<lambda>m.
             Inr (reset_stream (set_parser (\<lambda>p. p\<lparr>info := (info p)\<lparr>num_params := 0, errorcode := 0\<rparr>,
                    handler := None, pstate := PARSER_STATE_RESET\<rparr>) m)))))"

definition modem_parser_handle_unsolicited :: "modem_env \<Rightarrow> modem \<Rightarrow> modem res" where
  "modem_parser_handle_unsolicited e m =
     and_then (current_handler (parser m)) (\<lambda>h.
       (let m = set_result RESP_STATUS_URC 0 (store_time_prev e m)
        in and_then (modem_do_callback e h (Some (contents (stream (parser m)))) m) (\<lambda>m.
             Inr (reset_stream (set_parser (\<lambda>p. p\<lparr>info := (info p)\<lparr>num_params := 0\<rparr>,
                    handler := None, pstate := PARSER_STATE_RESET\<rparr>) m)))))"

section \<open>Parameters\<close>

definition is_visible_at_ascii :: "u8 \<Rightarrow> bool" where
  "is_visible_at_ascii c \<longleftrightarrow> c \<ge> 32 \<and> c \<le> 126"

definition null_terminate_buf :: "nat \<Rightarrow> nat \<Rightarrow> (nat \<Rightarrow> u8) \<Rightarrow> nat \<Rightarrow> u8" where
  "null_terminate_buf maxlen curlen buf = buf((if curlen < maxlen then curlen else maxlen - 1) := 0)"

text \<open>Append a character to \<open>statebuf\<close> if there is room.\<close>

definition push_statebuf :: "u8 \<Rightarrow> at_parser_s \<Rightarrow> at_parser_s" where
  "push_statebuf c p =
     (if statebufpos p < STATEBUF_LEN
      then p\<lparr>statebuf := (statebuf p)(statebufpos p := c), statebufpos := Suc (statebufpos p)\<rparr>
      else p)"

definition next_param :: "at_parser_s \<Rightarrow> at_parser_s" where
  "next_param p = p\<lparr>info := (info p)\<lparr>num_params := Suc (num_params (info p))\<rparr>\<rparr>"

text \<open>
  \<open>RESP_FMT_INT8\<close>, \<open>INT16\<close>, \<open>INT32\<close> and \<open>DATALEN\<close>: collect the characters of a number; at the end of
  the parameter convert it and store it. The first component tells whether to reprocess the
  character.
\<close>

definition store_int :: "at_resp_format_e \<Rightarrow> u32 \<Rightarrow> at_parser_s \<Rightarrow> bool \<times> at_parser_s" where
  "store_int f val p =
     (case f of
        RESP_FMT_INT8 \<Rightarrow> (case modem_stream_put_int8 (ucast val) (stream p) of (ok, st) \<Rightarrow> (ok, p\<lparr>stream := st\<rparr>))
      | RESP_FMT_INT16 \<Rightarrow> (case modem_stream_put_int16 (ucast val) (stream p) of (ok, st) \<Rightarrow> (ok, p\<lparr>stream := st\<rparr>))
      | RESP_FMT_INT32 \<Rightarrow> (case modem_stream_put_int32 val (stream p) of (ok, st) \<Rightarrow> (ok, p\<lparr>stream := st\<rparr>))
      | RESP_FMT_DATALEN \<Rightarrow> (True, p\<lparr>datalen := ucast val\<rparr>)
      | _ \<Rightarrow> (False, p))"

definition parse_int_param :: "u8 \<Rightarrow> bool \<Rightarrow> at_parser_s \<Rightarrow> (bool \<times> at_parser_s) res" where
  "parse_int_param cur_char end_of_line p =
     (if cur_char = chr CHR '','' \<or> end_of_line
      then
        (let p = next_param p;
             p = p\<lparr>statebuf := null_terminate_buf STATEBUF_LEN (statebufpos p) (statebuf p)\<rparr>;
             val = strtol (c_string STATEBUF_LEN (statebuf p)) 10
         in case store_int (fmt (param p)) val p of
              (ok, p) \<Rightarrow> check Assertion ok (end_of_line, p\<lparr>pstate := PARSER_STATE_START_READ_RARAM\<rparr>))
      else if cur_char = chr CHR ''-'' \<or> cur_char = chr CHR ''+'' \<or> is_digit cur_char
      then Inr (False, push_statebuf cur_char p)
      else Inr (False, p))"

text \<open>The place for the length of a string is taken when its first character arrives.\<close>

definition open_string :: "at_parser_s \<Rightarrow> at_parser_s res" where
  "open_string p =
     (if stream_strlen_pos (param p) = None
      then
        (case modem_stream_get_strlenpos (stream p) of
           (pos, st) \<Rightarrow>
             check Assertion (pos \<noteq> None)
               (p\<lparr>stream := st, param := (param p)\<lparr>stream_strlen_pos := pos, strlen := 0\<rparr>\<rparr>))
      else Inr p)"

text \<open>Terminate the string with a NUL and fill in its length.\<close>

definition close_string :: "bool \<Rightarrow> at_parser_s \<Rightarrow> (bool \<times> at_parser_s) res" where
  "close_string end_of_line p =
     (let p = next_param p
      in case modem_stream_put_int8 0 (stream p) of
           (ok, st) \<Rightarrow>
             and_then (check Assertion ok ()) (\<lambda>_.
               case stream_strlen_pos (param p) of
                 None \<Rightarrow> Inl Memory
               | Some k \<Rightarrow>
                   check Memory (k + 1 < MAX_RESPONSE_STREAM_LEN)
                     (end_of_line,
                      p\<lparr>stream := st\<lparr>sbuf := (sbuf st)(k := ucast (strlen (param p) AND 0xff),
                          Suc k := ucast (drop_bit 8 (strlen (param p)) AND 0xff))\<rparr>,
                        param := (param p)\<lparr>stream_strlen_pos := None\<rparr>,
                        pstate := PARSER_STATE_START_READ_RARAM\<rparr>)))"

definition put_string_char :: "u8 \<Rightarrow> at_parser_s \<Rightarrow> bool \<times> at_parser_s" where
  "put_string_char c p =
     (case modem_stream_put_int8 c (stream p) of
        (ok, st) \<Rightarrow>
          (ok, if ok then p\<lparr>stream := st, param := (param p)\<lparr>strlen := strlen (param p) + 1\<rparr>\<rparr> else p))"

definition parse_string_param :: "u8 \<Rightarrow> bool \<Rightarrow> at_parser_s \<Rightarrow> (bool \<times> at_parser_s) res" where
  "parse_string_param cur_char end_of_line p =
     and_then (open_string p) (\<lambda>p.
       if end_of_line \<or> (fmt (param p) = RESP_FMT_STRING \<and> cur_char = chr CHR '','')
       then close_string end_of_line p
       else if cur_char = chr CHR '' '' \<and> strlen (param p) = 0 then Inr (False, p)
       else (case put_string_char cur_char p of (ok, p) \<Rightarrow> check Assertion ok (False, p)))"

definition quoted_end :: "u8 \<Rightarrow> bool \<Rightarrow> at_parser_s \<Rightarrow> bool" where
  "quoted_end cur_char end_of_line p \<longleftrightarrow>
     (if fmt (param p) = RESP_FMT_QUOTED_STRING
      then end_of_line \<or> (quotes (param p) \<noteq> 1 \<and> cur_char = chr CHR '','')
      else quotes (param p) \<noteq> 1 \<and> (end_of_line \<or> cur_char = chr CHR '',''))"

definition parse_quoted_param :: "u8 \<Rightarrow> bool \<Rightarrow> at_parser_s \<Rightarrow> (bool \<times> at_parser_s) res" where
  "parse_quoted_param cur_char end_of_line p =
     and_then (if stream_strlen_pos (param p) = None
               then and_then (open_string p) (\<lambda>p. Inr (p\<lparr>param := (param p)\<lparr>quotes := 0\<rparr>\<rparr>))
               else Inr p) (\<lambda>p.
       if quotes (param p) = 2 \<and> cur_char = chr CHR '' '' then Inr (False, p)
       else if quoted_end cur_char end_of_line p then close_string end_of_line p
       else if quotes (param p) = 0
       then
         and_then (check Assertion (strlen (param p) = 0) ()) (\<lambda>_.
           if cur_char = chr CHR ''\"''
           then Inr (False, p\<lparr>param := (param p)\<lparr>quotes := 1\<rparr>\<rparr>)
           else Inr (False, p))
       else
         and_then (check Assertion (quotes (param p) = 1) ()) (\<lambda>_.
           if fmt (param p) = RESP_FMT_QUOTED_STRING \<and> cur_char = chr CHR ''\"''
           then Inr (False, p\<lparr>param := (param p)\<lparr>quotes := 2\<rparr>\<rparr>)
           else if fmt (param p) \<noteq> RESP_FMT_QUOTED_STRING \<and> datalen p = 0
           then Inr (False, if cur_char = chr CHR ''\"'' then p\<lparr>param := (param p)\<lparr>quotes := 2\<rparr>\<rparr> else p)
           else
             (let p = (if fmt (param p) \<noteq> RESP_FMT_QUOTED_STRING then p\<lparr>datalen := datalen p - 1\<rparr> else p)
              in Inr (False, snd (put_string_char cur_char p)))))"

text \<open>The \<open>switch\<close> of \<open>parse_parameter_byte\<close>.\<close>

definition parse_parameter_switch :: "u8 \<Rightarrow> bool \<Rightarrow> at_parser_s \<Rightarrow> (bool \<times> at_parser_s) res" where
  "parse_parameter_switch cur_char end_of_line p =
     (case fmt (param p) of
        RESP_FMT_INT8 \<Rightarrow> parse_int_param cur_char end_of_line p
      | RESP_FMT_INT16 \<Rightarrow> parse_int_param cur_char end_of_line p
      | RESP_FMT_INT32 \<Rightarrow> parse_int_param cur_char end_of_line p
      | RESP_FMT_DATALEN \<Rightarrow> parse_int_param cur_char end_of_line p
      | RESP_FMT_STRING \<Rightarrow> parse_string_param cur_char end_of_line p
      | RESP_FMT_STRING_TO_EOL \<Rightarrow> parse_string_param cur_char end_of_line p
      | RESP_FMT_QUOTED_STRING \<Rightarrow> parse_quoted_param cur_char end_of_line p
      | RESP_FMT_QUOTED_DATABUF \<Rightarrow> parse_quoted_param cur_char end_of_line p)"

definition parse_parameter_byte :: "modem_env \<Rightarrow> u8 \<Rightarrow> bool \<Rightarrow> modem \<Rightarrow> (bool \<times> modem) res" where
  "parse_parameter_byte e cur_char end_of_line m =
     and_then (parse_parameter_switch cur_char end_of_line (parser m)) (\<lambda>(do_restart, p).
       (let m = m\<lparr>parser := p\<rparr>
        in if end_of_line
           then
             and_then (current_handler p) (\<lambda>h.
             and_then (handler_cmd h) (\<lambda>c.
               if flag_errorcode c
               then and_then (modem_parser_handle_errorcode e m) (\<lambda>m. Inr (False, m))
               else if unsolicited h
               then and_then (modem_parser_handle_unsolicited e m) (\<lambda>m. Inr (False, m))
               else if flag_multiple_resp c
               then and_then (modem_parser_handle_response_line e m) (\<lambda>m. Inr (False, m))
               else Inr (do_restart, m)))
           else Inr (do_restart, m)))"

section \<open>Response names\<close>

text \<open>
  The command is complete: \<open>unregister\<close>, note the time unless it is a data prompt, run the
  callback of the command with or without the collected parameters, reset the stream.
\<close>

definition complete_command :: "modem_env \<Rightarrow> nat \<Rightarrow> at_cmd_def_s \<Rightarrow> bool \<Rightarrow> bool \<Rightarrow> modem \<Rightarrow> modem res" where
  "complete_command e i c with_time with_stream m =
     and_then (ubparser_unregister_response_handler (cmd_name c) m) (\<lambda>m.
       (let m = (if with_time then store_time_prev e m else m)
        in and_then (modem_do_callback e (commands (parser m) ! i)
                (if with_stream then Some (contents (stream (parser m))) else None) m) (\<lambda>m.
             Inr (reset_stream m))))"

text \<open>
  The part of \<open>parser_found_response_name\<close> for an active command in slot \<open>i\<close>. The result is \<open>None\<close>
  when the function returns \<open>false\<close> at once; otherwise it tells whether the command is \<open>plain\<close>.
\<close>

definition found_for_active ::
  "modem_env \<Rightarrow> nat \<Rightarrow> bytes \<Rightarrow> modem \<Rightarrow> (bool option \<times> modem) res" where
  "found_for_active e i resp_name m =
     and_then (handler_cmd (commands (parser m) ! i)) (\<lambda>c.
       if \<not> flag_plain c \<and> strcmp resp_name (cmd_name c) = 0
       then Inr (Some False, reset_stream (set_parser (\<lambda>p. p\<lparr>info := (info p)\<lparr>num_params := 0\<rparr>,
              handler := Some (Commands i)\<rparr>) m))
       else if strcmp resp_name (of_string ''OK'') = 0
       then
         (let m = set_result RESP_STATUS_OK 0 m;
              m = (if flag_multiple_resp c then reset_stream m else m)
          in and_then (complete_command e i c True True m) (\<lambda>m. Inr (None, m)))
       else if (flag_data_prompt c \<and> strcmp resp_name (of_string ''@'') = 0) \<or>
               (flag_pdu_prompt c \<and> strcmp resp_name (of_string ''>'') = 0)
       then and_then (complete_command e i c False False (set_result RESP_STATUS_DATAPROMPT 0 m)) (\<lambda>m. Inr (None, m))
       else if strcmp resp_name (of_string ''ERROR'') = 0
       then and_then (complete_command e i c True False (set_result RESP_STATUS_ERROR (-1) m)) (\<lambda>m. Inr (None, m))
       else if strcmp resp_name (of_string ''+CME ERROR'') = 0
       then Inr (Some False, set_parser (\<lambda>p. p\<lparr>handler := Some Internal_error\<rparr>) (set_result RESP_STATUS_CME_ERROR (-1) m))
       else if strcmp resp_name (of_string ''+CMS ERROR'') = 0
       then Inr (Some False, set_parser (\<lambda>p. p\<lparr>handler := Some Internal_error\<rparr>) (set_result RESP_STATUS_CMS_ERROR (-1) m))
       else Inr (Some (flag_plain c), m))"

text \<open>
  Feeding a plain line's beginning to the parameter machine. \<open>resp_name\<close> is \<open>statebuf\<close> itself; the
  machine only writes it at and behind its terminator, so the characters fed are those of the name.
\<close>

fun feed_name :: "bytes \<Rightarrow> at_parser_s \<Rightarrow> at_parser_s res" where
  "feed_name [] p = Inr p"
| "feed_name (c # cs) p = and_then (parse_parameter_switch c False p) (\<lambda>(_, p). feed_name cs p)"

definition start_plain :: "nat \<Rightarrow> bytes \<Rightarrow> modem \<Rightarrow> modem res" where
  "start_plain i resp_name m =
     and_then (handler_cmd (commands (parser m) ! i)) (\<lambda>c.
     and_then (check Memory (0 < length (resp_format c)) ()) (\<lambda>_.
       (let m = reset_stream (set_parser (\<lambda>p. p\<lparr>info := (info p)\<lparr>num_params := 0\<rparr>, handler := Some (Commands i),
                  param := (param p)\<lparr>fmt := resp_format c ! 0\<rparr>\<rparr>) m)
        in and_then (feed_name resp_name (parser m)) (\<lambda>p. Inr (m\<lparr>parser := p\<rparr>)))))"

definition parser_found_response_name :: "modem_env \<Rightarrow> bytes \<Rightarrow> modem \<Rightarrow> (bool \<times> modem) res" where
  "parser_found_response_name e resp_name m =
     (let m = set_parser (\<lambda>p. p\<lparr>handler := None\<rparr>) m
      in and_then (parser_find_response_handler_for_active_command (parser m)) (\<lambda>act.
         and_then (case act of None \<Rightarrow> Inr (Some False, m) | Some i \<Rightarrow> found_for_active e i resp_name m) (\<lambda>(r, m).
           case r of
             None \<Rightarrow> Inr (False, m)
           | Some is_plain \<Rightarrow>
               and_then (if handler (parser m) = None
                         then
                           and_then (parser_find_response_handler_by_name (parser m) resp_name) (\<lambda>urc.
                             Inr (case urc of
                                    None \<Rightarrow> m
                                  | Some j \<Rightarrow>
                                      if is_plain \<and> act = Some j then m
                                      else set_parser (\<lambda>p. p\<lparr>handler := Some (Commands j)\<rparr>) m))
                         else Inr m) (\<lambda>m.
                 if handler (parser m) = None
                 then
                   (if is_plain
                    then
                      (case act of
                         None \<Rightarrow> Inl Memory
                       | Some i \<Rightarrow> and_then (start_plain i resp_name m) (\<lambda>m. Inr (True, m)))
                    else Inr (False, m))
                 else Inr (True, reset_stream (set_parser (\<lambda>p. p\<lparr>info := (info p)\<lparr>num_params := 0\<rparr>\<rparr>) m))))))"

section \<open>The byte machine\<close>

definition end_of_line_char :: "u8 \<Rightarrow> bool" where
  "end_of_line_char c \<longleftrightarrow> c = 13 \<or> c = 10"

definition is_prompt :: "u8 \<Rightarrow> bool" where
  "is_prompt c \<longleftrightarrow> c = chr CHR ''@'' \<or> c = chr CHR ''>''"

definition set_state :: "at_parser_state_e \<Rightarrow> modem \<Rightarrow> modem" where
  "set_state st = set_parser (\<lambda>p. p\<lparr>pstate := st\<rparr>)"

text \<open>\<open>PARSER_STATE_READ_RESPONSE_NAME\<close>; the first component is \<open>goto restart\<close>.\<close>

definition finish_name :: "modem_env \<Rightarrow> u8 \<Rightarrow> modem \<Rightarrow> (bool \<times> modem) res" where
  "finish_name e cur_char m =
     (let p = parser m;
          p = p\<lparr>statebuf := null_terminate_buf STATEBUF_LEN (statebufpos p) (statebuf p)\<rparr>
      in and_then (parser_found_response_name e (c_string STATEBUF_LEN (statebuf p)) (m\<lparr>parser := p\<rparr>)) (\<lambda>(found, m).
           if found
           then
             and_then (check Assertion (handler (parser m) \<noteq> None) ()) (\<lambda>_.
             and_then (current_handler (parser m)) (\<lambda>h.
             and_then (handler_cmd h) (\<lambda>c.
               if flag_plain c then Inr (True, set_state PARSER_STATE_DO_READ_PARAM m)
               else Inr (False, set_state PARSER_STATE_START_READ_RARAM m))))
           else if end_of_line_char cur_char \<or> is_prompt cur_char
           then Inr (False, set_state PARSER_STATE_RESET m)
           else Inr (False, set_state PARSER_STATE_SKIP_TO_EOL m)))"

definition read_response_name :: "modem_env \<Rightarrow> u8 \<Rightarrow> modem \<Rightarrow> (bool \<times> modem) res" where
  "read_response_name e cur_char m =
     and_then (check Assertion (statebufpos (parser m) \<le> STATEBUF_LEN) ()) (\<lambda>_.
       (let statebuffull = (statebufpos (parser m) = STATEBUF_LEN - 1)
        in if end_of_line_char cur_char \<or> cur_char = chr CHR '':'' \<or> statebuffull \<or>
              (is_prompt cur_char \<and> statebufpos (parser m) = 0)
           then
             (if is_prompt cur_char
              then finish_name e cur_char (set_parser (\<lambda>p. p\<lparr>statebuf := (statebuf p)(0 := cur_char), statebufpos := 1\<rparr>) m)
              else if statebufpos (parser m) = 0 then Inr (False, set_state PARSER_STATE_RESET m)
              else finish_name e cur_char m)
           else if is_visible_at_ascii cur_char
           then Inr (False, set_parser (push_statebuf cur_char) m)
           else Inr (False, m)))"

definition clear_param :: "param_s" where
  "clear_param = \<lparr>stream_strlen_pos = None, strlen = 0, fmt = RESP_FMT_INT8, quotes = 0\<rparr>"

definition start_read_param :: "modem_env \<Rightarrow> u8 \<Rightarrow> modem \<Rightarrow> (bool \<times> modem) res" where
  "start_read_param e cur_char m =
     and_then (check Assertion (handler (parser m) \<noteq> None) ()) (\<lambda>_.
       (let m = set_parser (\<lambda>p. p\<lparr>statebufpos := 0, param := clear_param\<rparr>) m;
            k = num_params (info (parser m))
        in and_then (current_handler (parser m)) (\<lambda>h.
           and_then (handler_cmd h) (\<lambda>c.
             if k \<ge> resp_num c then Inr (True, set_state PARSER_STATE_SKIP_TO_EOL m)
             else
               and_then (check Memory (k < length (resp_format c)) ()) (\<lambda>_.
                 parse_parameter_byte e cur_char (end_of_line_char cur_char)
                   (set_parser (\<lambda>p. p\<lparr>param := (param p)\<lparr>fmt := resp_format c ! k\<rparr>,
                      pstate := PARSER_STATE_DO_READ_PARAM\<rparr>) m))))))"

definition parse_byte_step :: "modem_env \<Rightarrow> u8 \<Rightarrow> modem \<Rightarrow> (bool \<times> modem) res" where
  "parse_byte_step e cur_char m =
     (case pstate (parser m) of
        PARSER_STATE_RESET \<Rightarrow>
          if end_of_line_char cur_char then Inr (False, m)
          else read_response_name e cur_char
                 (set_parser (\<lambda>p. p\<lparr>statebufpos := 0, handler := None, pstate := PARSER_STATE_READ_RESPONSE_NAME\<rparr>) m)
      | PARSER_STATE_READ_RESPONSE_NAME \<Rightarrow> read_response_name e cur_char m
      | PARSER_STATE_START_READ_RARAM \<Rightarrow> start_read_param e cur_char m
      | PARSER_STATE_DO_READ_PARAM \<Rightarrow> parse_parameter_byte e cur_char (end_of_line_char cur_char) m
      | PARSER_STATE_SKIP_TO_EOL \<Rightarrow>
          Inr (False, if end_of_line_char cur_char then set_state PARSER_STATE_RESET m else m))"

text \<open>The result is \<open>None\<close> when the loop does not end.\<close>

partial_function (option) parse_byte :: "modem_env \<Rightarrow> u8 \<Rightarrow> modem \<Rightarrow> modem res option" where
  "parse_byte e cur_char m =
     (case parse_byte_step e cur_char m of
        Inl f \<Rightarrow> Some (Inl f)
      | Inr (restart, m) \<Rightarrow> if restart then parse_byte e cur_char m else Some (Inr m))"

fun ubparse_buffer :: "modem_env \<Rightarrow> bytes \<Rightarrow> modem \<Rightarrow> modem res option" where
  "ubparse_buffer e [] m = Some (Inr m)"
| "ubparse_buffer e (b # bs) m =
     (case parse_byte e b m of
        None \<Rightarrow> None
      | Some (Inl f) \<Rightarrow> Some (Inl f)
      | Some (Inr m) \<Rightarrow> ubparse_buffer e bs m)"

section \<open>Command timeout\<close>

definition modem_command_timeout_callback :: "modem_env \<Rightarrow> int \<Rightarrow> modem \<Rightarrow> modem res" where
  "modem_command_timeout_callback e timer_id m =
     and_then (check Assertion (cmd_timeout_armed (parser m) \<and> cmd_timeout_id (parser m) = timer_id) ()) (\<lambda>_.
     and_then (parser_find_response_handler_for_active_command (parser m)) (\<lambda>act.
       case act of
         None \<Rightarrow> Inl Assertion
       | Some i \<Rightarrow>
           and_then (handler_cmd (commands (parser m) ! i)) (\<lambda>c.
           and_then (ubparser_unregister_response_handler (cmd_name c) m) (\<lambda>m.
             (let m = set_parser (\<lambda>p. p\<lparr>cmd_timeout_armed := False, cmd_timeout_id := -1\<rparr>) m;
                  ri = \<lparr>status = RESP_STATUS_TIMEOUT, errorcode = -1, num_params = 0\<rparr>
              in and_then (run_callback e (commands (parser m) ! i) ri None m) (\<lambda>m.
                   Inr (set_state PARSER_STATE_RESET m)))))))"

section \<open>The largest data buffer\<close>

text \<open>The loop over the formats; \<open>None\<close> is \<open>return 0\<close>, subtraction wraps in \<open>size_t\<close>.\<close>

fun readbuf_loop :: "at_resp_format_e list \<Rightarrow> bool \<Rightarrow> bool \<Rightarrow> u32 \<Rightarrow> (bool \<times> u32) option" where
  "readbuf_loop [] has_databuflen has_databuf maxlen = Some (has_databuf, maxlen)"
| "readbuf_loop (f # fs) has_databuflen has_databuf maxlen =
     (case f of
        RESP_FMT_INT8 \<Rightarrow> readbuf_loop fs has_databuflen has_databuf (maxlen - 1)
      | RESP_FMT_INT16 \<Rightarrow> readbuf_loop fs has_databuflen has_databuf (maxlen - 2)
      | RESP_FMT_INT32 \<Rightarrow> readbuf_loop fs has_databuflen has_databuf (maxlen - 4)
      | RESP_FMT_QUOTED_DATABUF \<Rightarrow>
          if \<not> has_databuflen \<or> has_databuf then None
          else readbuf_loop fs has_databuflen True (maxlen - 3)
      | RESP_FMT_DATALEN \<Rightarrow> readbuf_loop fs True has_databuf maxlen
      | _ \<Rightarrow> readbuf_loop fs has_databuflen has_databuf (maxlen - 2))"

definition ubmodem_stream_max_readbuf_len :: "at_cmd_def_s \<Rightarrow> u32" where
  "ubmodem_stream_max_readbuf_len c =
     (case readbuf_loop (take (resp_num c) (resp_format c)) False False 1056 of
        None \<Rightarrow> 0
      | Some (has_databuf, maxlen) \<Rightarrow> if has_databuf then maxlen else 0)"

end
