(* ===== verification/Modem_Safety.thy ===== *)
theory Modem_Safety
  imports Modem_Parser
begin

text \<open>
  Safety of the response parser against arbitrary bytes from the modem: no byte makes it access
  memory out of bounds or loop, whatever the registered callbacks do through the interface. What
  can happen is a failed assertion; \<open>safely\<close> is the weakest precondition that allows for it, and its
  rewrite rules compute through the definitions of the parser.
\<close>

section \<open>Invariants\<close>

definition cmd_ok :: "at_cmd_def_s \<Rightarrow> bool" where
  "cmd_ok c \<longleftrightarrow> no_nul (cmd_name c) \<and> resp_num c \<le> length (resp_format c) \<and> resp_num c \<le> 31 \<and>
     (flag_plain c \<longrightarrow> resp_format c \<noteq> [])"

definition handler_ok :: "at_response_handler_s \<Rightarrow> bool" where
  "handler_ok h \<longleftrightarrow> (\<forall>c. cmd h = Some c \<longrightarrow> cmd_ok c) \<and> (active h \<longrightarrow> cmd h \<noteq> None)"

text \<open>The active command lives in the first slot, unsolicited handlers in the others.\<close>

definition registry_ok :: "at_response_handler_s list \<Rightarrow> bool" where
  "registry_ok cs \<longleftrightarrow> length cs = NUM_COMMAND_HANDLERS \<and> (\<forall>h \<in> set cs. handler_ok h) \<and>
     (\<forall>i < length cs. active (cs ! i) \<longrightarrow> (unsolicited (cs ! i) \<longleftrightarrow> 0 < i))"

definition buffers_ok :: "at_parser_s \<Rightarrow> bool" where
  "buffers_ok p \<longleftrightarrow> statebufpos p \<le> STATEBUF_LEN \<and> stream_inv (stream p) \<and>
     (\<forall>k. stream_strlen_pos (param p) = Some k \<longrightarrow> k + 1 < MAX_RESPONSE_STREAM_LEN)"

definition ref_ok :: "at_response_handler_s list \<Rightarrow> handler_ref \<Rightarrow> bool" where
  "ref_ok cs r = (case r of Internal_error \<Rightarrow> True | Commands i \<Rightarrow> i < length cs \<and> cmd (cs ! i) \<noteq> None)"

definition parser_core :: "at_parser_s \<Rightarrow> bool" where
  "parser_core p \<longleftrightarrow> registry_ok (commands p) \<and> buffers_ok p \<and>
     (\<forall>r. handler p = Some r \<longrightarrow> ref_ok (commands p) r) \<and> num_params (info p) \<le> 33"

definition parser_inv :: "at_parser_s \<Rightarrow> bool" where
  "parser_inv p \<longleftrightarrow> parser_core p \<and>
     (pstate p = PARSER_STATE_START_READ_RARAM \<or> pstate p = PARSER_STATE_DO_READ_PARAM \<longrightarrow> handler p \<noteq> None) \<and>
     (pstate p = PARSER_STATE_DO_READ_PARAM \<longrightarrow> num_params (info p) \<le> 32)"

fun parser_op_ok :: "parser_op \<Rightarrow> bool" where
  "parser_op_ok (Op_register c cb priv unsol) = cmd_ok c"
| "parser_op_ok _ = True"

definition modem_env_ok :: "modem_env \<Rightarrow> bool" where
  "modem_env_ok e \<longleftrightarrow> (\<forall>cb c ri str priv m. list_all parser_op_ok (mcb e cb c ri str priv m))"

section \<open>The parameter machine\<close>

definition same_frame :: "at_parser_s \<Rightarrow> at_parser_s \<Rightarrow> bool" where
  "same_frame p p' \<longleftrightarrow> commands p' = commands p \<and> handler p' = handler p \<and>
     cmd_timeout_id p' = cmd_timeout_id p \<and> cmd_timeout_armed p' = cmd_timeout_armed p \<and>
     time_prev p' = time_prev p \<and> status (info p') = status (info p) \<and> errorcode (info p') = errorcode (info p)"

text \<open>Either the parameter goes on, or it ends and the machine is to start the next one.\<close>

definition param_step :: "bool \<Rightarrow> at_parser_s \<Rightarrow> bool \<Rightarrow> at_parser_s \<Rightarrow> bool" where
  "param_step eol p r p' \<longleftrightarrow> buffers_ok p' \<and> same_frame p p' \<and>
     (num_params (info p') = num_params (info p) \<and> pstate p' = pstate p \<and> \<not> r \<or>
      num_params (info p') = Suc (num_params (info p)) \<and> pstate p' = PARSER_STATE_START_READ_RARAM \<and> r = eol)"

lemma put_int8_inv: "modem_stream_put_int8 v st = (ok, st') \<Longrightarrow> stream_inv st \<Longrightarrow> stream_inv st'"
  by (rule int8.put_inv)

lemma store_int_spec:
  assumes "buffers_ok p" and "store_int f v p = (ok, p')"
  shows "buffers_ok p'" "commands p' = commands p" "handler p' = handler p" "info p' = info p"
    "pstate p' = pstate p" "cmd_timeout_id p' = cmd_timeout_id p" "cmd_timeout_armed p' = cmd_timeout_armed p"
    "time_prev p' = time_prev p"
  using assms
  by (cases f; auto simp: store_int_def buffers_ok_def split: prod.splits
      dest: int8.put_inv int16.put_inv int32.put_inv)+

lemma parse_int_param_safe:
  assumes "buffers_ok p"
  shows "safely (\<lambda>(r, p'). param_step eol p r p') (parse_int_param c eol p)"
proof (cases "c = chr CHR '','' \<or> eol")
  case True
  let ?p = "(next_param p)\<lparr>statebuf := null_terminate_buf STATEBUF_LEN (statebufpos p) (statebuf p)\<rparr>"
  obtain ok p' where s: "store_int (fmt (param p)) (strtol (c_string STATEBUF_LEN (statebuf ?p)) 10) ?p = (ok, p')"
    by fastforce
  have "buffers_ok ?p" using assms by (simp add: buffers_ok_def next_param_def)
  from store_int_spec [OF this s] True s show ?thesis
    by (simp add: parse_int_param_def Let_def next_param_def param_step_def same_frame_def buffers_ok_def)
next
  case False
  with assms show ?thesis
    by (auto simp: parse_int_param_def param_step_def same_frame_def buffers_ok_def push_statebuf_def)
qed

lemma open_string_safe:
  assumes "buffers_ok p"
  shows "safely (\<lambda>p'. buffers_ok p' \<and> same_frame p p' \<and> stream_strlen_pos (param p') \<noteq> None \<and>
    info p' = info p \<and> pstate p' = pstate p) (open_string p)"
  using assms
  by (auto simp: open_string_def modem_stream_get_strlenpos_def buffers_ok_def same_frame_def stream_inv_def)

lemma close_string_safe:
  assumes "buffers_ok p" and "stream_strlen_pos (param p) \<noteq> None"
  shows "safely (\<lambda>(r, p'). param_step eol p r p') (close_string eol p)"
proof -
  obtain ok st where st: "modem_stream_put_int8 0 (stream p) = (ok, st)" by fastforce
  then have "stream_inv st" using assms(1) put_int8_inv by (simp add: buffers_ok_def)
  moreover obtain k where "stream_strlen_pos (param p) = Some k" "k + 1 < MAX_RESPONSE_STREAM_LEN"
    using assms by (auto simp: buffers_ok_def)
  ultimately show ?thesis
    using assms(1) st
    by (auto simp: close_string_def next_param_def param_step_def same_frame_def buffers_ok_def stream_inv_def)
qed

lemma put_string_char_spec:
  assumes "buffers_ok p" and "put_string_char c p = (ok, p')"
  shows "buffers_ok p'" "same_frame p p'" "info p' = info p" "pstate p' = pstate p"
  using assms put_int8_inv
  by (auto simp: put_string_char_def buffers_ok_def same_frame_def split: prod.splits if_splits)

lemma param_step_trans:
  assumes "same_frame p p1" "info p1 = info p" "pstate p1 = pstate p" "param_step eol p1 r p'"
  shows "param_step eol p r p'"
  using assms by (auto simp: param_step_def same_frame_def)

lemma param_step_stay:
  assumes "buffers_ok p'" "same_frame p p'" "info p' = info p" "pstate p' = pstate p"
  shows "param_step eol p False p'"
  using assms by (simp add: param_step_def)

lemma parse_string_param_safe:
  assumes "buffers_ok p"
  shows "safely (\<lambda>(r, p'). param_step eol p r p') (parse_string_param c eol p)"
  unfolding parse_string_param_def safely_simps
proof (rule safely_mono [OF open_string_safe [OF assms]], elim conjE)
  fix p1
  assume p1: "buffers_ok p1" "same_frame p p1" "stream_strlen_pos (param p1) \<noteq> None" "info p1 = info p" "pstate p1 = pstate p"
  obtain ok p2 where p2: "put_string_char c p1 = (ok, p2)" by fastforce
  note s = put_string_char_spec [OF p1(1) p2]
  have "safely (\<lambda>(r, p'). param_step eol p r p') (close_string eol p1)"
    by (rule safely_mono [OF close_string_safe [OF p1(1,3)]]) (auto intro: param_step_trans p1)
  moreover have "param_step eol p False p1" using p1 by (intro param_step_stay) auto
  moreover have "param_step eol p False p2"
    using p1 param_step_stay [OF s] by (intro param_step_trans [OF p1(2,4,5)])
  ultimately show "safely (\<lambda>(r, p'). param_step eol p r p')
      (if eol \<or> fmt (param p1) = RESP_FMT_STRING \<and> c = chr CHR '','' then close_string eol p1
       else if c = chr CHR '' '' \<and> strlen (param p1) = 0 then Inr (False, p1)
       else case put_string_char c p1 of (ok, p) \<Rightarrow> check Assertion ok (False, p))"
    by (auto simp: p2)
qed

lemma buffers_ok_param:
  "buffers_ok (p\<lparr>param := (param p)\<lparr>quotes := q\<rparr>\<rparr>) = buffers_ok p"
  "buffers_ok (p\<lparr>datalen := d\<rparr>) = buffers_ok p"
  by (simp_all add: buffers_ok_def)

lemma same_frame_param:
  "same_frame p (p1\<lparr>param := pa\<rparr>) = same_frame p p1" "same_frame (p\<lparr>datalen := d\<rparr>) p1 = same_frame p p1"
  "same_frame p (p1\<lparr>datalen := d\<rparr>) = same_frame p p1"
  by (simp_all add: same_frame_def)

lemma parse_quoted_param_safe:
  assumes "buffers_ok p"
  shows "safely (\<lambda>(r, p'). param_step eol p r p') (parse_quoted_param c eol p)"
proof -
  let ?Q = "\<lambda>p1. buffers_ok p1 \<and> same_frame p p1 \<and> stream_strlen_pos (param p1) \<noteq> None \<and>
    info p1 = info p \<and> pstate p1 = pstate p"
  have "safely ?Q (if stream_strlen_pos (param p) = None
      then and_then (open_string p) (\<lambda>p. Inr (p\<lparr>param := (param p)\<lparr>quotes := 0\<rparr>\<rparr>)) else Inr p)"
    using assms safely_mono [OF open_string_safe [OF assms]]
    by (simp add: buffers_ok_param same_frame_param) (simp add: same_frame_def)
  then show ?thesis
    unfolding parse_quoted_param_def safely_simps(5)
  proof (rule safely_mono, elim conjE)
    fix p1 assume p1: "buffers_ok p1" "same_frame p p1" "stream_strlen_pos (param p1) \<noteq> None"
      "info p1 = info p" "pstate p1 = pstate p"
    have stay: "param_step eol p False (p1\<lparr>param := (param p1)\<lparr>quotes := q\<rparr>\<rparr>)" "param_step eol p False p1" for q
      using p1 by (intro param_step_stay; simp add: buffers_ok_param same_frame_param)+
    have close: "safely (\<lambda>(r, p'). param_step eol p r p') (close_string eol p1)"
      by (rule safely_mono [OF close_string_safe [OF p1(1,3)]]) (auto intro: param_step_trans p1)
    have put: "param_step eol p False (snd (put_string_char c p2))"
      if "p2 = p1 \<or> p2 = p1\<lparr>datalen := datalen p1 - 1\<rparr>" for p2
    proof -
      have p2: "buffers_ok p2" "same_frame p p2" "info p2 = info p" "pstate p2 = pstate p"
        using that p1 by (auto simp: buffers_ok_param same_frame_param)
      show ?thesis
        by (rule param_step_trans [OF p2(2-4) param_step_stay [OF put_string_char_spec [OF p2(1)]]])
          (auto simp: prod_eq_iff)
    qed
    show "safely (\<lambda>(r, p'). param_step eol p r p')
      (if quotes (param p1) = 2 \<and> c = chr CHR '' '' then Inr (False, p1)
       else if quoted_end c eol p1 then close_string eol p1
       else if quotes (param p1) = 0
       then and_then (check Assertion (strlen (param p1) = 0) ()) (\<lambda>_.
           if c = chr CHR ''\"'' then Inr (False, p1\<lparr>param := (param p1)\<lparr>quotes := 1\<rparr>\<rparr>) else Inr (False, p1))
       else and_then (check Assertion (quotes (param p1) = 1) ()) (\<lambda>_.
           if fmt (param p1) = RESP_FMT_QUOTED_STRING \<and> c = chr CHR ''\"''
           then Inr (False, p1\<lparr>param := (param p1)\<lparr>quotes := 2\<rparr>\<rparr>)
           else if fmt (param p1) \<noteq> RESP_FMT_QUOTED_STRING \<and> datalen p1 = 0
           then Inr (False, if c = chr CHR ''\"'' then p1\<lparr>param := (param p1)\<lparr>quotes := 2\<rparr>\<rparr> else p1)
           else let p2 = if fmt (param p1) \<noteq> RESP_FMT_QUOTED_STRING then p1\<lparr>datalen := datalen p1 - 1\<rparr> else p1
                in Inr (False, snd (put_string_char c p2))))"
      using stay close put by (auto simp: Let_def)
  qed
qed

lemma parse_parameter_switch_safe:
  assumes "buffers_ok p"
  shows "safely (\<lambda>(r, p'). param_step eol p r p') (parse_parameter_switch c eol p)"
  using parse_int_param_safe [OF assms] parse_string_param_safe [OF assms] parse_quoted_param_safe [OF assms]
  by (simp add: parse_parameter_switch_def split: at_resp_format_e.splits)

section \<open>The registry\<close>

lemma find_by_name_spec:
  assumes "\<forall>h \<in> set cs. handler_ok h"
  shows "\<exists>r. find_by_name nm cs i = Inr r \<and>
    (case r of
       None \<Rightarrow> \<forall>h \<in> set cs. active h \<longrightarrow> strcasecmp (cmd_name (the (cmd h))) nm \<noteq> 0
     | Some k \<Rightarrow> i \<le> k \<and> k - i < length cs \<and> active (cs ! (k - i)) \<and>
         strcasecmp (cmd_name (the (cmd (cs ! (k - i))))) nm = 0)"
  using assms
proof (induction cs arbitrary: i)
  case Nil
  then show ?case by simp
next
  case (Cons h cs)
  from Cons.IH [of "Suc i"] Cons.prems obtain r where r: "find_by_name nm cs (Suc i) = Inr r"
    "case r of None \<Rightarrow> \<forall>h \<in> set cs. active h \<longrightarrow> strcasecmp (cmd_name (the (cmd h))) nm \<noteq> 0
     | Some k \<Rightarrow> Suc i \<le> k \<and> k - Suc i < length cs \<and> active (cs ! (k - Suc i)) \<and>
         strcasecmp (cmd_name (the (cmd (cs ! (k - Suc i))))) nm = 0" by auto
  have shift: "(h # cs) ! (k - i) = cs ! (k - Suc i)" if "Suc i \<le> k" for k
    using that by (simp add: nth_Cons')
  show ?case
  proof (cases "active h")
    case False
    with r show ?thesis by (cases r) (auto simp: shift)
  next
    case True
    then obtain c where "cmd h = Some c" using Cons.prems by (auto simp: handler_ok_def)
    with True r show ?thesis by (cases r) (auto simp: shift)
  qed
qed

lemma find_active_spec:
  assumes "\<forall>h \<in> set cs. handler_ok h"
  shows "\<exists>r. find_active cs i = Inr r \<and>
    (case r of
       None \<Rightarrow> \<forall>h \<in> set cs. active h \<longrightarrow> unsolicited h
     | Some k \<Rightarrow> i \<le> k \<and> k - i < length cs \<and> active (cs ! (k - i)) \<and> \<not> unsolicited (cs ! (k - i)))"
  using assms
proof (induction cs arbitrary: i)
  case Nil
  then show ?case by simp
next
  case (Cons h cs)
  from Cons.IH [of "Suc i"] Cons.prems obtain r where r: "find_active cs (Suc i) = Inr r"
    "case r of None \<Rightarrow> \<forall>h \<in> set cs. active h \<longrightarrow> unsolicited h
     | Some k \<Rightarrow> Suc i \<le> k \<and> k - Suc i < length cs \<and> active (cs ! (k - Suc i)) \<and> \<not> unsolicited (cs ! (k - Suc i))"
    by auto
  have shift: "(h # cs) ! (k - i) = cs ! (k - Suc i)" if "Suc i \<le> k" for k
    using that by (simp add: nth_Cons')
  have "active h \<Longrightarrow> cmd h \<noteq> None" using Cons.prems by (simp add: handler_ok_def)
  with r show ?case by (cases r; cases "active h"; cases "unsolicited h") (auto simp: shift)
qed

text \<open>Only the first slot can hold the active command.\<close>

lemma active_command:
  assumes "registry_ok (commands p)"
  shows "parser_find_response_handler_for_active_command p =
    Inr (if active (commands p ! 0) then Some 0 else None)"
proof -
  let ?cs = "commands p"
  have ok: "\<forall>h \<in> set ?cs. handler_ok h" "length ?cs = 7"
    "\<And>i. i < 7 \<Longrightarrow> active (?cs ! i) \<Longrightarrow> unsolicited (?cs ! i) \<longleftrightarrow> 0 < i"
    using assms by (auto simp: registry_ok_def)
  obtain r where r: "find_active ?cs 0 = Inr r"
    "case r of None \<Rightarrow> \<forall>h \<in> set ?cs. active h \<longrightarrow> unsolicited h
     | Some k \<Rightarrow> 0 \<le> k \<and> k - 0 < length ?cs \<and> active (?cs ! (k - 0)) \<and> \<not> unsolicited (?cs ! (k - 0))"
    using find_active_spec [OF ok(1), of 0] by blast
  have "?cs ! 0 \<in> set ?cs" using ok(2) by simp
  with r(2) ok(2) ok(3) [of 0] ok(3) have "r = (if active (?cs ! 0) then Some 0 else None)"
    by (cases r) auto
  with r(1) show ?thesis by (simp add: parser_find_response_handler_for_active_command_def)
qed

lemma registry_update:
  assumes "registry_ok cs" and "i < length cs" and "handler_ok h"
    and "active h \<longrightarrow> (unsolicited h \<longleftrightarrow> 0 < i)"
  shows "registry_ok (cs[i := h])"
  using assms unfolding registry_ok_def
  by (auto simp: nth_list_update dest: set_update_subset_insert [THEN subsetD])

text \<open>What interface operations may change of the parser, and that slots stay filled.\<close>

definition ops_frame :: "at_parser_s \<Rightarrow> at_parser_s \<Rightarrow> bool" where
  "ops_frame p p' \<longleftrightarrow> registry_ok (commands p') \<and>
     pstate p' = pstate p \<and> statebuf p' = statebuf p \<and> statebufpos p' = statebufpos p \<and> param p' = param p \<and>
     stream p' = stream p \<and> info p' = info p \<and> datalen p' = datalen p \<and> handler p' = handler p \<and>
     (\<forall>i < length (commands p). cmd (commands p ! i) \<noteq> None \<longrightarrow> cmd (commands p' ! i) \<noteq> None)"

lemma ops_frame_refl: "registry_ok (commands p) \<Longrightarrow> ops_frame p p"
  by (simp add: ops_frame_def)

lemma ops_frame_trans:
  assumes "registry_ok (commands p)" and "ops_frame p p1" and "ops_frame p1 p2"
  shows "ops_frame p p2"
  using assms by (auto simp: ops_frame_def registry_ok_def)

lemma ops_frame_registry: "ops_frame p p' \<Longrightarrow> registry_ok (commands p')"
  by (simp add: ops_frame_def)

lemma unregister_safe:
  assumes "registry_ok (commands (parser m))"
  shows "safely (\<lambda>m'. ops_frame (parser m) (parser m') \<and> cmd_timeout_armed (parser m') = cmd_timeout_armed (parser m))
    (ubparser_unregister_response_handler nm m)"
proof -
  let ?cs = "commands (parser m)"
  have ok: "\<forall>h \<in> set ?cs. handler_ok h" using assms by (simp add: registry_ok_def)
  obtain r where r: "find_by_name nm ?cs 0 = Inr r"
    "case r of None \<Rightarrow> True | Some k \<Rightarrow> k < length ?cs \<and> active (?cs ! k)"
    using find_by_name_spec [OF ok, of nm 0] by (auto split: option.splits)
  show ?thesis
  proof (cases r)
    case None
    with r(1) assms show ?thesis
      by (simp add: ubparser_unregister_response_handler_def parser_find_response_handler_by_name_def ops_frame_refl)
  next
    case (Some k)
    let ?h = "?cs ! k"
    have k: "k < length ?cs" "active ?h" using r(2) Some by simp_all
    then have h: "handler_ok ?h" using ok by simp
    then obtain c where c: "cmd ?h = Some c" using k(2) by (auto simp: handler_ok_def)
    have "handler_ok (?h\<lparr>active := False\<rparr>)" using h by (simp add: handler_ok_def)
    then have "registry_ok (?cs[k := ?h\<lparr>active := False\<rparr>])"
      using registry_update [OF assms k(1)] by simp
    moreover have "cmd (?cs[k := ?h\<lparr>active := False\<rparr>] ! i) = cmd (?cs ! i)" if "i < length ?cs" for i
      using that k(1) by (simp add: nth_list_update)
    ultimately show ?thesis
      using r(1) Some c
      by (auto simp: ubparser_unregister_response_handler_def parser_find_response_handler_by_name_def
          ops_frame_def set_parser_def Let_def handler_cmd_def)
  qed
qed

lemma first_free_range: "first_free cs i \<le> i + length cs \<and> i \<le> first_free cs i"
  by (induction cs arbitrary: i) (auto, (metis Suc_leD add_Suc_right add_Suc le_SucI)+)

lemma register_safe:
  assumes "registry_ok (commands (parser m))" and "cmd_ok c"
  shows "safely (\<lambda>m'. ops_frame (parser m) (parser m')) (ubparser_register_response_handler c cb priv unsol m)"
proof -
  let ?cs = "commands (parser m)"
  let ?h = "\<lparr>active = True, unsolicited = unsol, cmd = Some c, callback = cb, callback_priv = priv\<rparr>"
  have len: "length ?cs = 7" using assms(1) by (simp add: registry_ok_def)
  define i where "i = (if unsol then first_free (drop 1 ?cs) 1 else first_free ?cs 0)"
  have i: "i \<le> length ?cs"
    using first_free_range [of "drop 1 ?cs" 1] first_free_range [of ?cs 0] len by (auto simp: i_def)
  have h: "handler_ok ?h" using assms(2) by (simp add: handler_ok_def)
  have "registry_ok (?cs[i := ?h])" if "i \<noteq> length ?cs" "(\<not> unsol \<and> i = 0) \<or> (unsol \<and> i > 0)"
    using that i h by (intro registry_update [OF assms(1)]) auto
  moreover have "cmd (?cs[i := ?h] ! j) \<noteq> None" if "j < length ?cs" "cmd (?cs ! j) \<noteq> None" for j
    using that by (cases "i = j") auto
  ultimately show ?thesis
    by (auto simp: ubparser_register_response_handler_def i_def [symmetric] ops_frame_def set_parser_def Let_def)
qed

lemma setup_timeout_safe:
  assumes "registry_ok (commands (parser m))"
  shows "safely (\<lambda>(ok, m'). ops_frame (parser m) (parser m')) (ubparser_setup_command_timeout e m)"
proof (cases "active (commands (parser m) ! 0)")
  case True
  then obtain c where "cmd (commands (parser m) ! 0) = Some c"
    using assms by (auto simp: registry_ok_def handler_ok_def)
  with True assms show ?thesis
    by (auto simp: ubparser_setup_command_timeout_def active_command handler_cmd_def set_parser_def
        ops_frame_def split: option.splits sum.splits prod.splits)
qed (use assms in \<open>simp add: ubparser_setup_command_timeout_def active_command\<close>)

lemma apply_parser_op_safe:
  assumes "registry_ok (commands (parser m))" and "parser_op_ok op"
  shows "safely (\<lambda>m'. ops_frame (parser m) (parser m')) (apply_parser_op e op m)"
  using assms register_safe [OF assms(1)] safely_mono [OF unregister_safe [OF assms(1)]]
    safely_mono [OF setup_timeout_safe [OF assms(1), of e]]
  by (cases op) (auto simp: apply_parser_op_def)

lemma run_parser_ops_safe:
  assumes "registry_ok (commands (parser m))" and "list_all parser_op_ok ops"
  shows "safely (\<lambda>m'. ops_frame (parser m) (parser m')) (run_parser_ops e ops m)"
  using assms
proof (induction ops arbitrary: m)
  case Nil
  then show ?case by (simp add: ops_frame_refl)
next
  case (Cons op ops)
  have "safely (\<lambda>m1. safely (\<lambda>m'. ops_frame (parser m) (parser m')) (run_parser_ops e ops m1)) (apply_parser_op e op m)"
  proof (rule safely_mono [OF apply_parser_op_safe])
    fix m1 :: modem assume f: "ops_frame (parser m) (parser m1)"
    then have "safely (\<lambda>m'. ops_frame (parser m1) (parser m')) (run_parser_ops e ops m1)"
      using Cons.IH [OF ops_frame_registry [OF f]] Cons.prems(2) by simp
    then show "safely (\<lambda>m'. ops_frame (parser m) (parser m')) (run_parser_ops e ops m1)"
      by (rule safely_mono) (rule ops_frame_trans [OF Cons.prems(1) f])
  qed (use Cons.prems in simp_all)
  then show ?case by simp
qed

section \<open>Callbacks\<close>

lemma run_callback_safe:
  assumes "modem_env_ok e" and "registry_ok (commands (parser m))" and "cmd h \<noteq> None"
  shows "safely (\<lambda>m'. ops_frame (parser m) (parser m')) (run_callback e h ri str m)"
proof -
  obtain c where c: "cmd h = Some c" using assms(3) by auto
  let ?m = "m\<lparr>mevents := mevents m @ [Callback c ri str (callback_priv h)]\<rparr>"
  have "safely (\<lambda>m'. ops_frame (parser ?m) (parser m'))
    (run_parser_ops e (mcb e (callback h) c ri str (callback_priv h) m) ?m)"
    using assms(1,2) by (intro run_parser_ops_safe) (simp_all add: modem_env_ok_def)
  with c show ?thesis by (simp add: run_callback_def handler_cmd_def)
qed

lemma modem_do_callback_safe:
  assumes "modem_env_ok e" and "registry_ok (commands (parser m))" and "cmd h \<noteq> None"
  shows "safely (\<lambda>m'. ops_frame (parser m) (parser m')) (modem_do_callback e h str m)"
proof -
  let ?m = "if \<not> unsolicited h \<and> cmd_timeout_armed (parser m)
    then set_parser (\<lambda>p. p\<lparr>cmd_timeout_id := -1, cmd_timeout_armed := False\<rparr>)
      (m\<lparr>mtimers := ubmodem_remove_timer (word_of_int (cmd_timeout_id (parser m))) (mtimers m)\<rparr>) else m"
  have r: "registry_ok (commands (parser ?m))" using assms(2) by (simp add: set_parser_def)
  have f: "ops_frame (parser m) (parser ?m)" using assms(2) by (simp add: set_parser_def ops_frame_def)
  show ?thesis
    unfolding modem_do_callback_def Let_def
    by (rule safely_mono [OF run_callback_safe [OF assms(1) r assms(3)]]) (rule ops_frame_trans [OF assms(2) f])
qed

lemma core_ops:
  assumes "parser_core p" and "ops_frame p p'"
  shows "parser_core p'"
proof -
  have "length (commands p') = length (commands p)"
    using assms by (simp add: parser_core_def ops_frame_def registry_ok_def)
  with assms show ?thesis
    by (auto simp: parser_core_def ops_frame_def buffers_ok_def ref_ok_def split: handler_ref.splits)
qed

lemma parser_of_updates [simp]:
  "parser (set_parser f m) = f (parser m)" "mevents (set_parser f m) = mevents m" "mtimers (set_parser f m) = mtimers m"
  by (simp_all add: set_parser_def)

lemma ops_frame_time:
  "ops_frame p (parser (store_time_prev e m)) \<longleftrightarrow> ops_frame p (parser m)"
  "commands (parser (store_time_prev e m)) = commands (parser m)"
  "stream (parser (store_time_prev e m)) = stream (parser m)"
  by (simp_all add: store_time_prev_def ops_frame_def)

text \<open>Unregistering a handler and then calling its callback.\<close>

lemma unregister_callback_safe:
  assumes "modem_env_ok e" and "registry_ok (commands (parser m))"
    and "i < length (commands (parser m))" and "cmd (commands (parser m) ! i) \<noteq> None"
    and "\<And>m1. ops_frame (parser m) (parser m1) \<Longrightarrow>
      F m1 = modem_do_callback e (commands (parser m1) ! i) (str m1) (store_time_prev e m1) \<or>
      F m1 = modem_do_callback e (commands (parser m1) ! i) (str m1) m1"
  shows "safely (\<lambda>m'. ops_frame (parser m) (parser m')) (and_then (ubparser_unregister_response_handler nm m) F)"
  unfolding safely_simps
proof (rule safely_mono [OF unregister_safe [OF assms(2)]], elim conjE)
  fix m1 :: modem assume f: "ops_frame (parser m) (parser m1)"
  then have r: "registry_ok (commands (parser m1))" and c: "cmd (commands (parser m1) ! i) \<noteq> None"
    using assms(3,4) by (simp_all add: ops_frame_def)
  from assms(5) [OF f] show "safely (\<lambda>m'. ops_frame (parser m) (parser m')) (F m1)"
  proof
    assume F: "F m1 = modem_do_callback e (commands (parser m1) ! i) (str m1) (store_time_prev e m1)"
    have r': "registry_ok (commands (parser (store_time_prev e m1)))" using r by (simp add: ops_frame_time)
    show ?thesis
      unfolding F
      by (rule safely_mono [OF modem_do_callback_safe [OF assms(1) r' c]])
        (use ops_frame_trans [OF assms(2) f] in \<open>auto simp: ops_frame_def store_time_prev_def\<close>)
  next
    assume F: "F m1 = modem_do_callback e (commands (parser m1) ! i) (str m1) m1"
    show ?thesis
      unfolding F by (rule safely_mono [OF modem_do_callback_safe [OF assms(1) r c]]) (rule ops_frame_trans [OF assms(2) f])
  qed
qed

definition back_to_reset :: "modem \<Rightarrow> bool" where
  "back_to_reset m \<longleftrightarrow> parser_core (parser m) \<and> handler (parser m) = None \<and> pstate (parser m) = PARSER_STATE_RESET"

lemma core_reset_stream: "parser_core p \<Longrightarrow> parser_core (p\<lparr>stream := modem_stream_reset (stream p)\<rparr>)"
  by (simp add: parser_core_def buffers_ok_def stream_inv_def)

lemma core_fields:
  "parser_core p \<Longrightarrow> n \<le> 33 \<Longrightarrow> parser_core (p\<lparr>info := \<lparr>status = st, errorcode = ec, num_params = n\<rparr>\<rparr>)"
  "parser_core p \<Longrightarrow> parser_core (p\<lparr>handler := None\<rparr>)" "parser_core (p\<lparr>pstate := ps\<rparr>) = parser_core p"
  "parser_core (p\<lparr>time_prev := t\<rparr>) = parser_core p"
  by (simp_all add: parser_core_def buffers_ok_def)

lemma handle_errorcode_safe:
  assumes "modem_env_ok e" and "parser_core (parser m)"
  shows "safely back_to_reset (modem_parser_handle_errorcode e m)"
proof (cases "active (commands (parser m) ! 0)")
  case True
  have reg: "registry_ok (commands (parser m))" using assms(2) by (simp add: parser_core_def)
  then have len: "0 < length (commands (parser m))" by (simp add: registry_ok_def)
  then obtain c where c: "cmd (commands (parser m) ! 0) = Some c"
    using True reg by (auto simp: registry_ok_def handler_ok_def)
  let ?code = "case fst (ubmodem_stream_get_int32 (contents (stream (parser m)))) of None \<Rightarrow> -1 | Some v \<Rightarrow> v"
  let ?m = "set_parser (\<lambda>p. p\<lparr>info := (info p)\<lparr>errorcode := errorcode_field ?code, num_params := 0\<rparr>\<rparr>) m"
  have "safely (\<lambda>m'. ops_frame (parser ?m) (parser m')) (and_then (ubparser_unregister_response_handler (cmd_name c) ?m)
      (\<lambda>m1. modem_do_callback e (commands (parser m1) ! 0) None (store_time_prev e m1)))"
    using reg len c by (intro unregister_callback_safe [OF assms(1), where str = "\<lambda>_. None"]) auto
  then have "safely (\<lambda>m'. back_to_reset (reset_stream
      (set_parser (\<lambda>p. p\<lparr>handler := None, pstate := PARSER_STATE_RESET\<rparr>) m')))
      (and_then (ubparser_unregister_response_handler (cmd_name c) ?m)
        (\<lambda>m1. modem_do_callback e (commands (parser m1) ! 0) None (store_time_prev e m1)))"
  proof (rule safely_mono)
    fix m' :: modem assume f: "ops_frame (parser ?m) (parser m')"
    have "parser_core (parser ?m)" using assms(2) by (simp add: parser_core_def buffers_ok_def)
    from core_ops [OF this f] show "back_to_reset (reset_stream
      (set_parser (\<lambda>p. p\<lparr>handler := None, pstate := PARSER_STATE_RESET\<rparr>) m'))"
      by (simp add: back_to_reset_def reset_stream_def parser_core_def buffers_ok_def stream_inv_def)
  qed
  with c True reg show ?thesis
    by (simp add: modem_parser_handle_errorcode_def active_command Let_def handler_cmd_def)
next
  case False
  with assms(2) show ?thesis
    by (simp add: modem_parser_handle_errorcode_def active_command parser_core_def)
qed

lemma current_handler_spec:
  assumes "parser_core p" and "handler p = Some r"
  shows "\<exists>h c. current_handler p = Inr h \<and> cmd h = Some c \<and> cmd_ok c \<and> deref p r = Inr h"
proof (cases r)
  case (Commands i)
  with assms have i: "i < length (commands p)" "cmd (commands p ! i) \<noteq> None"
    by (auto simp: parser_core_def ref_ok_def)
  then obtain c where c: "cmd (commands p ! i) = Some c" by auto
  moreover have "cmd_ok c"
    using i(1) c assms(1) nth_mem [OF i(1)] by (auto simp: parser_core_def registry_ok_def handler_ok_def)
  ultimately show ?thesis using i(1) Commands assms(2) by (simp add: current_handler_def deref_def check_def)
next
  case Internal_error
  with assms(2) show ?thesis
    by (simp add: current_handler_def deref_def internal_error_handler_def error_def_def cmd_ok_def)
qed

lemma callback_then_reset:
  assumes "modem_env_ok e" and "parser_core (parser m)" and "cmd h \<noteq> None"
    and "\<And>m'. parser_core (parser m') \<Longrightarrow> back_to_reset (F m')"
  shows "safely (\<lambda>m'. back_to_reset (F m')) (modem_do_callback e h str m)"
proof -
  have r: "registry_ok (commands (parser m))" using assms(2) by (simp add: parser_core_def)
  show ?thesis
    by (rule safely_mono [OF modem_do_callback_safe [OF assms(1) r assms(3)]]) (rule assms(4), rule core_ops [OF assms(2)])
qed

lemma handle_line_safe:
  assumes "modem_env_ok e" and "parser_core (parser m)" and "handler (parser m) = Some r"
  shows "safely back_to_reset (modem_parser_handle_response_line e m)"
    and "safely back_to_reset (modem_parser_handle_unsolicited e m)"
proof -
  obtain h c where h: "current_handler (parser m) = Inr h" "cmd h = Some c"
    using current_handler_spec [OF assms(2,3)] by blast
  let ?m1 = "set_parser (\<lambda>p. p\<lparr>info := (info p)\<lparr>status := RESP_STATUS_LINE\<rparr>\<rparr>) (store_time_prev e m)"
  let ?m2 = "set_result RESP_STATUS_URC 0 (store_time_prev e m)"
  have core: "parser_core (parser ?m1)" "parser_core (parser ?m2)"
    using assms(2) by (simp_all add: parser_core_def buffers_ok_def store_time_prev_def set_result_def)
  show "safely back_to_reset (modem_parser_handle_response_line e m)"
    unfolding modem_parser_handle_response_line_def safely_simps h Let_def
    by (rule callback_then_reset [OF assms(1) core(1)])
      (use h(2) in \<open>simp_all add: back_to_reset_def reset_stream_def parser_core_def buffers_ok_def stream_inv_def\<close>)
  show "safely back_to_reset (modem_parser_handle_unsolicited e m)"
    unfolding modem_parser_handle_unsolicited_def safely_simps h Let_def
    by (rule callback_then_reset [OF assms(1) core(2)])
      (use h(2) in \<open>simp_all add: back_to_reset_def reset_stream_def parser_core_def buffers_ok_def stream_inv_def\<close>)
qed

section \<open>One character of a parameter\<close>

text \<open>A restart means: next parameter of the same response, with nothing else changed.\<close>

definition next_parameter :: "modem \<Rightarrow> modem \<Rightarrow> bool" where
  "next_parameter m m' \<longleftrightarrow> pstate (parser m') = PARSER_STATE_START_READ_RARAM \<and>
     num_params (info (parser m')) = Suc (num_params (info (parser m))) \<and>
     commands (parser m') = commands (parser m) \<and> handler (parser m') = handler (parser m)"

lemma param_step_core:
  assumes "parser_core p" and "num_params (info p) \<le> 32" and "param_step eol p r p'"
  shows "parser_core p'" and "handler p' = handler p" and "commands p' = commands p"
  using assms by (auto simp: parser_core_def param_step_def same_frame_def)

lemma back_to_reset_inv: "back_to_reset m \<Longrightarrow> parser_inv (parser m)"
  by (simp add: back_to_reset_def parser_inv_def)

lemma parse_parameter_byte_safe:
  assumes "modem_env_ok e" and core: "parser_core (parser m)" and h: "handler (parser m) = Some ref"
    and st: "pstate (parser m) = PARSER_STATE_DO_READ_PARAM" and n: "num_params (info (parser m)) \<le> 32"
  shows "safely (\<lambda>(r, m'). parser_inv (parser m') \<and> (r \<longrightarrow> next_parameter m m')) (parse_parameter_byte e c eol m)"
  unfolding parse_parameter_byte_def safely_simps
proof (rule safely_mono [OF parse_parameter_switch_safe])
  show "buffers_ok (parser m)" using core by (simp add: parser_core_def)
next
  fix a assume "case a of (r, p') \<Rightarrow> param_step eol (parser m) r p'"
  then obtain r p where a: "a = (r, p)" and step: "param_step eol (parser m) r p" by (cases a) auto
  note pc = param_step_core [OF core n step]
  let ?m = "m\<lparr>parser := p\<rparr>"
  have hp: "handler (parser ?m) = Some ref" using pc(2) h by simp
  obtain hd c where hd: "current_handler p = Inr hd" "cmd hd = Some c"
    using current_handler_spec [OF pc(1)] hp by auto
  have inv: "parser_inv p" "r \<longrightarrow> next_parameter m ?m"
    using step pc h st n by (auto simp: param_step_def parser_inv_def next_parameter_def)
  have cb: "safely back_to_reset (modem_parser_handle_errorcode e ?m)"
    "safely back_to_reset (modem_parser_handle_unsolicited e ?m)"
    "safely back_to_reset (modem_parser_handle_response_line e ?m)"
    using handle_errorcode_safe [OF assms(1)] handle_line_safe [OF assms(1)] pc(1) hp by simp_all
  show "safely (\<lambda>(r, m'). parser_inv (parser m') \<and> (r \<longrightarrow> next_parameter m m'))
    (case a of (do_restart, p) \<Rightarrow>
      let m = m\<lparr>parser := p\<rparr>
      in if eol
         then and_then (current_handler p) (\<lambda>h. and_then (handler_cmd h) (\<lambda>c.
           if flag_errorcode c then and_then (modem_parser_handle_errorcode e m) (\<lambda>m. Inr (False, m))
           else if unsolicited h then and_then (modem_parser_handle_unsolicited e m) (\<lambda>m. Inr (False, m))
           else if flag_multiple_resp c then and_then (modem_parser_handle_response_line e m) (\<lambda>m. Inr (False, m))
           else Inr (do_restart, m)))
         else Inr (do_restart, m))"
    using inv cb [THEN safely_mono, of "\<lambda>m'. parser_inv (parser m')", OF back_to_reset_inv]
    by (simp add: a hd handler_cmd_def Let_def)
qed

section \<open>Response names\<close>

lemma feed_name_safe:
  assumes "parser_core p" and "handler p = Some r" and "num_params (info p) + length cs \<le> 32"
  shows "safely (\<lambda>p'. parser_core p' \<and> handler p' = Some r \<and> commands p' = commands p \<and>
    num_params (info p') \<le> num_params (info p) + length cs) (feed_name cs p)"
  using assms
proof (induction cs arbitrary: p)
  case Nil
  then show ?case by simp
next
  case (Cons c cs)
  show ?case
    unfolding feed_name.simps safely_simps
  proof (rule safely_mono [OF parse_parameter_switch_safe])
    show "buffers_ok p" using Cons.prems(1) by (simp add: parser_core_def)
  next
    fix a assume "case a of (r, p') \<Rightarrow> param_step False p r p'"
    then obtain b p1 where a: "a = (b, p1)" and step: "param_step False p b p1" by (cases a) auto
    have "num_params (info p) \<le> 32" using Cons.prems(3) by simp
    note pc = param_step_core [OF Cons.prems(1) this step]
    have "num_params (info p1) \<le> Suc (num_params (info p))" using step by (auto simp: param_step_def)
    with Cons.IH [of p1] pc Cons.prems(2,3)
    show "safely (\<lambda>p'. parser_core p' \<and> handler p' = Some r \<and> commands p' = commands p \<and>
        num_params (info p') \<le> num_params (info p) + length (c # cs))
      (case a of (_, p) \<Rightarrow> feed_name cs p)"
      by (auto simp: a elim!: safely_mono)
  qed
qed

lemma complete_command_safe:
  assumes "modem_env_ok e" and "parser_core (parser m)" and "handler (parser m) = None"
    and "i < length (commands (parser m))" and "cmd (commands (parser m) ! i) \<noteq> None"
  shows "safely (\<lambda>m'. parser_core (parser m') \<and> handler (parser m') = None) (complete_command e i c t str m)"
proof -
  have reg: "registry_ok (commands (parser m))" using assms(2) by (simp add: parser_core_def)
  let ?F = "\<lambda>m. modem_do_callback e (commands (parser m) ! i)
    (if str then Some (contents (stream (parser m))) else None) (if t then store_time_prev e m else m)"
  have "safely (\<lambda>m'. ops_frame (parser m) (parser m')) (and_then (ubparser_unregister_response_handler (cmd_name c) m) ?F)"
    by (rule unregister_callback_safe [OF assms(1) reg assms(4,5),
          where str = "\<lambda>m. if str then Some (contents (stream (parser m))) else None"]) auto
  then have "safely (\<lambda>m'. parser_core (parser (reset_stream m')) \<and> handler (parser (reset_stream m')) = None)
    (and_then (ubparser_unregister_response_handler (cmd_name c) m) ?F)"
  proof (rule safely_mono)
    fix m' :: modem assume f: "ops_frame (parser m) (parser m')"
    then have "handler (parser m') = None" using assms(3) by (simp add: ops_frame_def)
    with core_reset_stream [OF core_ops [OF assms(2) f]]
    show "parser_core (parser (reset_stream m')) \<and> handler (parser (reset_stream m')) = None"
      by (simp add: reset_stream_def)
  qed
  moreover have "complete_command e i c t str m =
    and_then (and_then (ubparser_unregister_response_handler (cmd_name c) m) ?F) (\<lambda>m. Inr (reset_stream m))"
    by (cases "ubparser_unregister_response_handler (cmd_name c) m") (simp_all add: complete_command_def Let_def ops_frame_time)
  ultimately show ?thesis by simp
qed

text \<open>What is known of the handler after a response name has been looked up.\<close>

definition found_ok :: "bool option \<times> modem \<Rightarrow> at_response_handler_s list \<Rightarrow> bool \<Rightarrow> bool" where
  "found_ok rm cs plain = (case rm of (r, m) \<Rightarrow> parser_core (parser m) \<and>
     (r \<noteq> None \<longrightarrow> commands (parser m) = cs) \<and> (r = Some True \<longrightarrow> handler (parser m) = None \<and> plain))"

lemma found_for_active_safe:
  assumes "modem_env_ok e" and "parser_core (parser m)" and "handler (parser m) = None"
    and "i < length (commands (parser m))" and "cmd (commands (parser m) ! i) = Some c"
  shows "safely (\<lambda>rm. found_ok rm (commands (parser m)) (flag_plain c)) (found_for_active e i nm m)"
proof -
  have fin: "safely (\<lambda>m'. parser_core (parser m')) (complete_command e i c t str m1)"
    if "parser_core (parser m1)" "handler (parser m1) = None" "commands (parser m1) = commands (parser m)" for m1 t str
    using safely_mono [OF complete_command_safe [OF assms(1) that(1,2)]] that(3) assms(4,5) by simp
  have core: "parser_core (parser (set_result st ec m))" "handler (parser (set_result st ec m)) = None"
    "commands (parser (set_result st ec m)) = commands (parser m)"
    "parser_core (parser (reset_stream (set_result st ec m)))" "handler (parser (reset_stream (set_result st ec m))) = None"
    "commands (parser (reset_stream (set_result st ec m))) = commands (parser m)" for st ec
    using assms(2,3) by (simp_all add: set_result_def reset_stream_def parser_core_def buffers_ok_def stream_inv_def)
  show ?thesis
    unfolding found_for_active_def
    using fin [OF core(1-3)] fin [OF core(4-6)] assms core
    by (simp add: handler_cmd_def found_ok_def Let_def)
      (auto simp: parser_core_def buffers_ok_def stream_inv_def reset_stream_def ref_ok_def set_result_def)
qed

lemma start_plain_safe:
  assumes "parser_core (parser m)" and "i < length (commands (parser m))" and "cmd (commands (parser m) ! i) = Some c"
    and "flag_plain c" and "length nm \<le> 31"
  shows "safely (\<lambda>m'. parser_core (parser m') \<and> handler (parser m') \<noteq> None \<and> num_params (info (parser m')) \<le> 32)
    (start_plain i nm m)"
proof -
  have "handler_ok (commands (parser m) ! i)"
    using assms(1) nth_mem [OF assms(2)] by (simp add: parser_core_def registry_ok_def)
  then have "resp_format c \<noteq> []" using assms(3,4) by (simp add: handler_ok_def cmd_ok_def)
  moreover let ?m = "reset_stream (set_parser (\<lambda>p. p\<lparr>info := (info p)\<lparr>num_params := 0\<rparr>, handler := Some (Commands i),
      param := (param p)\<lparr>fmt := resp_format c ! 0\<rparr>\<rparr>) m)"
  have "parser_core (parser ?m)"
    using assms(1-3) by (auto simp: reset_stream_def parser_core_def buffers_ok_def stream_inv_def ref_ok_def)
  moreover have "handler (parser ?m) = Some (Commands i)" "num_params (info (parser ?m)) = 0"
    by (simp_all add: reset_stream_def)
  ultimately show ?thesis
    using safely_mono [OF feed_name_safe, of "parser ?m" "Commands i" nm] assms(3,5)
    by (simp add: start_plain_def handler_cmd_def Let_def)
qed

lemma found_response_name_safe:
  assumes "modem_env_ok e" and "parser_core (parser m)" and "length nm \<le> 31"
  shows "safely (\<lambda>(found, m'). parser_core (parser m') \<and>
      (found \<longrightarrow> handler (parser m') \<noteq> None \<and> num_params (info (parser m')) \<le> 32))
    (parser_found_response_name e nm m)"
proof -
  let ?Q = "\<lambda>(found, m'). parser_core (parser m') \<and>
      (found \<longrightarrow> handler (parser m') \<noteq> None \<and> num_params (info (parser m')) \<le> 32)"
  let ?m = "set_parser (\<lambda>p. p\<lparr>handler := None\<rparr>) m" and ?cs = "commands (parser m)"
  have core: "parser_core (parser ?m)" "handler (parser ?m) = None" "commands (parser ?m) = ?cs"
    using core_fields(2) [OF assms(2)] by simp_all
  have reg: "registry_ok ?cs" using assms(2) by (simp add: parser_core_def)
  define act where "act = (if active (?cs ! 0) then Some (0 :: nat) else None)"
  have act: "parser_find_response_handler_for_active_command (parser ?m) = Inr act"
    using active_command [of "parser ?m"] reg core(3) by (simp add: act_def)
  have len: "0 < length ?cs" using reg by (simp add: registry_ok_def)
  have cmd0: "cmd (?cs ! 0) \<noteq> None" if "act = Some 0"
    using that reg nth_mem [OF len] by (auto simp: act_def registry_ok_def handler_ok_def split: if_splits)
  define plain where "plain \<longleftrightarrow> act = Some 0 \<and> flag_plain (the (cmd (?cs ! 0)))"
  have first: "safely (\<lambda>rm. found_ok rm ?cs plain)
      (case act of None \<Rightarrow> Inr (Some False, ?m) | Some i \<Rightarrow> found_for_active e i nm ?m)"
  proof (cases act)
    case None
    with core show ?thesis by (simp add: found_ok_def)
  next
    case (Some i)
    then have i: "i = 0" "act = Some 0" by (auto simp: act_def split: if_splits)
    then obtain c where c: "cmd (?cs ! 0) = Some c" using cmd0 by auto
    then have "plain = flag_plain c" using i(2) by (simp add: plain_def)
    then show ?thesis
      using found_for_active_safe [OF assms(1) core(1,2), of 0 c nm] len c core(3) Some i by simp
  qed
  have second: "safely ?Q (case r of None \<Rightarrow> Inr (False, m1) | Some is_plain \<Rightarrow>
      and_then (if handler (parser m1) = None
         then and_then (parser_find_response_handler_by_name (parser m1) nm) (\<lambda>urc.
           Inr (case urc of None \<Rightarrow> m1
             | Some j \<Rightarrow> if is_plain \<and> act = Some j then m1
                 else set_parser (\<lambda>p. p\<lparr>handler := Some (Commands j)\<rparr>) m1))
         else Inr m1) (\<lambda>m2.
        if handler (parser m2) = None
        then (if is_plain then (case act of None \<Rightarrow> Inl Memory
                | Some i \<Rightarrow> and_then (start_plain i nm m2) (\<lambda>m. Inr (True, m)))
              else Inr (False, m2))
        else Inr (True, reset_stream (set_parser (\<lambda>p. p\<lparr>info := (info p)\<lparr>num_params := 0\<rparr>\<rparr>) m2))))"
    if f: "found_ok (r, m1) ?cs plain" for r m1
  proof (cases r)
    case None
    with f show ?thesis by (simp add: found_ok_def)
  next
    case (Some is_plain)
    then have c1: "parser_core (parser m1)" "commands (parser m1) = ?cs"
      using f by (simp_all add: found_ok_def)
    have ok: "\<forall>h \<in> set ?cs. handler_ok h" using reg by (simp add: registry_ok_def)
    obtain urc where urc: "find_by_name nm ?cs 0 = Inr urc"
      "case urc of None \<Rightarrow> True | Some j \<Rightarrow> j < length ?cs \<and> active (?cs ! j)"
      using find_by_name_spec [OF ok, of nm 0] by (auto split: option.splits)
    have named: "parser_core (parser (set_parser (\<lambda>p. p\<lparr>handler := Some (Commands j)\<rparr>) m1))" if "urc = Some j" for j
    proof -
      have "j < length ?cs" "cmd (?cs ! j) \<noteq> None"
        using urc(2) that ok by (auto simp: handler_ok_def)
      with c1 show ?thesis by (auto simp: parser_core_def buffers_ok_def ref_ok_def)
    qed
    have reset: "?Q (True, reset_stream (set_parser (\<lambda>p. p\<lparr>info := (info p)\<lparr>num_params := 0\<rparr>\<rparr>) m2))"
      if "parser_core (parser m2)" "handler (parser m2) \<noteq> None" for m2
      using that by (simp add: reset_stream_def parser_core_def buffers_ok_def stream_inv_def)
    have go_plain: "safely ?Q (case act of None \<Rightarrow> Inl Memory
        | Some i \<Rightarrow> and_then (start_plain i nm m1) (\<lambda>m. Inr (True, m)))" if "is_plain"
    proof -
      have "act = Some 0" "flag_plain (the (cmd (?cs ! 0)))" using f that Some by (simp_all add: found_ok_def plain_def)
      with start_plain_safe [OF c1(1), of 0 "the (cmd (?cs ! 0))" nm] cmd0 len c1(2) assms(3)
      show ?thesis by (auto elim!: safely_mono)
    qed
    show ?thesis
      using Some urc(1) c1 named reset go_plain
      by (auto simp: parser_find_response_handler_by_name_def split: option.splits)
  qed
  show ?thesis
    unfolding parser_found_response_name_def Let_def safely_simps act
    by (rule safely_mono [OF first]) (split prod.split, intro allI impI, rule second, hypsubst, assumption)
qed

lemma length_c_string_terminated:
  "length (c_string STATEBUF_LEN (null_terminate_buf STATEBUF_LEN k buf)) \<le> 31"
proof -
  let ?b = "null_terminate_buf STATEBUF_LEN k buf"
  define j where "j = (if k < STATEBUF_LEN then k else 31)"
  have j: "j < STATEBUF_LEN" "?b j = 0" by (auto simp: j_def null_terminate_buf_def)
  then have "\<exists>c \<in> set (map ?b [0..<STATEBUF_LEN]). \<not> c \<noteq> 0" by force
  then have "length (c_string STATEBUF_LEN ?b) < length (map ?b [0..<STATEBUF_LEN])"
    unfolding c_string_def by (rule length_takeWhile_less)
  then show ?thesis by simp
qed

section \<open>One round of the byte machine\<close>

definition current_resp_num :: "at_parser_s \<Rightarrow> nat" where
  "current_resp_num p =
     (case current_handler p of Inl _ \<Rightarrow> 0 | Inr h \<Rightarrow> (case cmd h of None \<Rightarrow> 0 | Some c \<Rightarrow> resp_num c))"

definition restart_measure :: "modem \<Rightarrow> nat" where
  "restart_measure m =
     (let left = current_resp_num (parser m) - num_params (info (parser m))
      in case pstate (parser m) of
           PARSER_STATE_RESET \<Rightarrow> 100 | PARSER_STATE_READ_RESPONSE_NAME \<Rightarrow> 100
         | PARSER_STATE_START_READ_RARAM \<Rightarrow> 2 * left + 2
         | PARSER_STATE_DO_READ_PARAM \<Rightarrow> 2 * left + 3
         | PARSER_STATE_SKIP_TO_EOL \<Rightarrow> 0)"

definition round_ok :: "modem \<Rightarrow> bool \<times> modem \<Rightarrow> bool" where
  "round_ok m rm \<longleftrightarrow> parser_inv (parser (snd rm)) \<and> (fst rm \<longrightarrow> restart_measure (snd rm) < restart_measure m)"

lemma current_resp_num_le:
  assumes "parser_core p" and "handler p = Some r"
  shows "current_resp_num p \<le> 31"
  using current_handler_spec [OF assms] by (auto simp: current_resp_num_def cmd_ok_def)

lemma finish_name_safe:
  assumes "modem_env_ok e" and "parser_core (parser m)"
    and "pstate (parser m) = PARSER_STATE_READ_RESPONSE_NAME"
  shows "safely (round_ok m) (finish_name e c m)"
proof -
  let ?p = "(parser m)\<lparr>statebuf := null_terminate_buf STATEBUF_LEN (statebufpos (parser m)) (statebuf (parser m))\<rparr>"
  have core: "parser_core (parser (m\<lparr>parser := ?p\<rparr>))"
    using assms(2) by (simp add: parser_core_def buffers_ok_def)
  have len: "length (c_string STATEBUF_LEN (statebuf ?p)) \<le> 31"
    by (simp add: length_c_string_terminated)
  show ?thesis
    unfolding finish_name_def Let_def safely_simps
  proof (rule safely_mono [OF found_response_name_safe [OF assms(1) core len]], clarify)
    fix found and m1 :: modem assume f: "parser_core (parser m1)"
      "found \<longrightarrow> handler (parser m1) \<noteq> None \<and> num_params (info (parser m1)) \<le> 32"
    have idle: "round_ok m (False, set_state st m1)"
      if "st \<noteq> PARSER_STATE_START_READ_RARAM" "st \<noteq> PARSER_STATE_DO_READ_PARAM" for st
      using f(1) that by (simp add: round_ok_def parser_inv_def set_state_def core_fields(3))
    show "safely (round_ok m)
      (if found
       then and_then (check Assertion (handler (parser m1) \<noteq> None) ()) (\<lambda>_.
         and_then (current_handler (parser m1)) (\<lambda>h. and_then (handler_cmd h) (\<lambda>c.
           if flag_plain c then Inr (True, set_state PARSER_STATE_DO_READ_PARAM m1)
           else Inr (False, set_state PARSER_STATE_START_READ_RARAM m1))))
       else if end_of_line_char c \<or> is_prompt c then Inr (False, set_state PARSER_STATE_RESET m1)
       else Inr (False, set_state PARSER_STATE_SKIP_TO_EOL m1))"
    proof (cases found)
      case True
      then obtain r where r: "handler (parser m1) = Some r" using f(2) by auto
      obtain h cd where h: "current_handler (parser m1) = Inr h" "cmd h = Some cd"
        using current_handler_spec [OF f(1) r] by blast
      have "current_resp_num (parser (set_state PARSER_STATE_DO_READ_PARAM m1)) \<le> 31"
        using current_resp_num_le [of "parser (set_state PARSER_STATE_DO_READ_PARAM m1)" r] f(1) r
        by (simp add: set_state_def core_fields(3))
      then have "restart_measure (set_state PARSER_STATE_DO_READ_PARAM m1) < 100"
        by (simp add: restart_measure_def set_state_def Let_def)
      moreover have "restart_measure m = 100" using assms(3) by (simp add: restart_measure_def)
      ultimately show ?thesis
        using True f r h by (simp add: handler_cmd_def round_ok_def parser_inv_def set_state_def core_fields(3))
    qed (use idle in simp)
  qed
qed

lemma read_response_name_safe:
  assumes "modem_env_ok e" and "parser_core (parser m)"
    and "pstate (parser m) = PARSER_STATE_READ_RESPONSE_NAME"
  shows "safely (round_ok m) (read_response_name e c m)"
proof -
  let ?m = "set_parser (\<lambda>p. p\<lparr>statebuf := (statebuf p)(0 := c), statebufpos := 1\<rparr>) m"
  have m: "parser_core (parser ?m)" "pstate (parser ?m) = PARSER_STATE_READ_RESPONSE_NAME"
    using assms(2,3) by (simp_all add: parser_core_def buffers_ok_def)
  have "restart_measure ?m = restart_measure m" using m(2) assms(3) by (simp add: restart_measure_def)
  then have f: "safely (round_ok m) (finish_name e c ?m)"
    using finish_name_safe [OF assms(1) m] by (auto simp: round_ok_def [abs_def])
  have "round_ok m (False, set_parser (push_statebuf c) m)" "round_ok m (False, m)"
    "round_ok m (False, set_state PARSER_STATE_RESET m)"
    using assms(2,3)
    by (auto simp: round_ok_def parser_inv_def parser_core_def buffers_ok_def push_statebuf_def set_state_def)
  with f finish_name_safe [OF assms] show ?thesis
    by (auto simp: read_response_name_def Let_def)
qed

lemma start_read_param_safe:
  assumes "modem_env_ok e" and inv: "parser_inv (parser m)"
    and st: "pstate (parser m) = PARSER_STATE_START_READ_RARAM"
  shows "safely (round_ok m) (start_read_param e c m)"
proof -
  let ?m = "set_parser (\<lambda>p. p\<lparr>statebufpos := 0, param := clear_param\<rparr>) m" and ?k = "num_params (info (parser m))"
  obtain r where r: "handler (parser m) = Some r" using inv st by (auto simp: parser_inv_def)
  have core: "parser_core (parser ?m)" "handler (parser ?m) = Some r"
    using inv r by (auto simp: parser_inv_def parser_core_def buffers_ok_def clear_param_def)
  obtain h cd where h: "current_handler (parser ?m) = Inr h" "cmd h = Some cd" "cmd_ok cd"
    using current_handler_spec [OF core] by blast
  have same: "current_handler p = current_handler (parser ?m)"
    if "handler p = handler (parser m)" "commands p = commands (parser m)" for p
    using that by (simp add: current_handler_def deref_def split: option.splits handler_ref.splits)
  have num: "current_resp_num p = resp_num cd" if "handler p = handler (parser m)" "commands p = commands (parser m)" for p
    using same [OF that] h by (simp add: current_resp_num_def)
  show ?thesis
  proof (cases "?k \<ge> resp_num cd")
    case True
    have "round_ok m (True, set_state PARSER_STATE_SKIP_TO_EOL ?m)"
      using core(1) st by (simp add: round_ok_def parser_inv_def set_state_def core_fields(3) restart_measure_def)
    with True r h show ?thesis by (simp add: start_read_param_def Let_def handler_cmd_def)
  next
    case False
    let ?m2 = "set_parser (\<lambda>p. p\<lparr>param := (param p)\<lparr>fmt := resp_format cd ! ?k\<rparr>, pstate := PARSER_STATE_DO_READ_PARAM\<rparr>) ?m"
    have k: "?k < length (resp_format cd)" "?k \<le> 32" using False h(3) by (auto simp: cmd_ok_def)
    have core2: "parser_core (parser ?m2)" using core(1) by (simp add: parser_core_def buffers_ok_def)
    have "safely (\<lambda>(b, m'). parser_inv (parser m') \<and> (b \<longrightarrow> next_parameter ?m2 m'))
        (parse_parameter_byte e c (end_of_line_char c) ?m2)"
      using k(2) r by (intro parse_parameter_byte_safe [OF assms(1) core2, of r]) simp_all
    then have "safely (round_ok m) (parse_parameter_byte e c (end_of_line_char c) ?m2)"
    proof (rule safely_mono)
      fix a assume a: "case a of (b, m') \<Rightarrow> parser_inv (parser m') \<and> (b \<longrightarrow> next_parameter ?m2 m')"
      have "restart_measure (snd a) < restart_measure m" if "next_parameter ?m2 (snd a)"
        using that False st by (simp add: next_parameter_def restart_measure_def num Let_def)
      with a show "round_ok m a" by (auto simp: round_ok_def)
    qed
    with False r h k show ?thesis by (simp add: start_read_param_def Let_def handler_cmd_def)
  qed
qed

lemma parse_byte_step_safe:
  assumes "modem_env_ok e" and inv: "parser_inv (parser m)"
  shows "safely (round_ok m) (parse_byte_step e c m)"
proof -
  have core: "parser_core (parser m)" using inv by (simp add: parser_inv_def)
  show ?thesis
  proof (cases "pstate (parser m)")
    case PARSER_STATE_RESET
    let ?m = "set_parser (\<lambda>p. p\<lparr>statebufpos := 0, handler := None, pstate := PARSER_STATE_READ_RESPONSE_NAME\<rparr>) m"
    have "parser_core (parser ?m)" using core by (simp add: parser_core_def buffers_ok_def)
    moreover have "restart_measure ?m = restart_measure m" using PARSER_STATE_RESET by (simp add: restart_measure_def)
    ultimately have "safely (round_ok m) (read_response_name e c ?m)"
      using read_response_name_safe [OF assms(1), of ?m c] by (auto simp: round_ok_def [abs_def])
    with PARSER_STATE_RESET inv show ?thesis by (simp add: parse_byte_step_def round_ok_def)
  next
    case PARSER_STATE_DO_READ_PARAM
    obtain r where r: "handler (parser m) = Some r" using inv PARSER_STATE_DO_READ_PARAM by (auto simp: parser_inv_def)
    have n: "num_params (info (parser m)) \<le> 32" using inv PARSER_STATE_DO_READ_PARAM by (simp add: parser_inv_def)
    have "safely (round_ok m) (parse_parameter_byte e c (end_of_line_char c) m)"
    proof (rule safely_mono [OF parse_parameter_byte_safe [OF assms(1) core r PARSER_STATE_DO_READ_PARAM n]])
      fix a assume a: "case a of (b, m') \<Rightarrow> parser_inv (parser m') \<and> (b \<longrightarrow> next_parameter m m')"
      have "restart_measure (snd a) < restart_measure m" if "next_parameter m (snd a)"
      proof -
        have "current_resp_num (parser (snd a)) = current_resp_num (parser m)"
          using that by (simp add: next_parameter_def current_resp_num_def current_handler_def deref_def
              split: option.splits handler_ref.splits)
        with that PARSER_STATE_DO_READ_PARAM show ?thesis
          by (simp add: next_parameter_def restart_measure_def Let_def)
      qed
      with a show "round_ok m a" by (auto simp: round_ok_def)
    qed
    with PARSER_STATE_DO_READ_PARAM show ?thesis by (simp add: parse_byte_step_def)
  next
    case PARSER_STATE_SKIP_TO_EOL
    with core show ?thesis
      by (simp add: parse_byte_step_def round_ok_def parser_inv_def set_state_def core_fields(3))
  qed (use read_response_name_safe [OF assms(1) core] start_read_param_safe [OF assms] in \<open>simp_all add: parse_byte_step_def\<close>)
qed

section \<open>Whole buffers\<close>

text \<open>Every byte is processed in finitely many rounds and without a memory fault.\<close>

lemma parse_byte_returns:
  assumes "modem_env_ok e" and "parser_inv (parser m)"
  shows "\<exists>r. parse_byte e c m = Some r \<and> safely (\<lambda>m'. parser_inv (parser m')) r"
  using assms(2)
proof (induction "restart_measure m" arbitrary: m rule: less_induct)
  case less
  note s = parse_byte_step_safe [OF assms(1) less.prems, of c]
  show ?case
  proof (cases "parse_byte_step e c m")
    case (Inl f)
    with s show ?thesis by (subst parse_byte.simps) simp
  next
    case (Inr rm)
    obtain b m1 where rm: "rm = (b, m1)" by fastforce
    with Inr s have m1: "parser_inv (parser m1)" "b \<longrightarrow> restart_measure m1 < restart_measure m"
      by (simp_all add: round_ok_def)
    with Inr rm less.hyps [of m1] show ?thesis by (subst parse_byte.simps) auto
  qed
qed

lemma ubparse_buffer_returns:
  assumes "modem_env_ok e" and "parser_inv (parser m)"
  shows "\<exists>r. ubparse_buffer e bs m = Some r \<and> safely (\<lambda>m'. parser_inv (parser m')) r"
  using assms(2)
proof (induction bs arbitrary: m)
  case Nil
  then show ?case by simp
next
  case (Cons b bs)
  obtain r where r: "parse_byte e b m = Some r" "safely (\<lambda>m'. parser_inv (parser m')) r"
    using parse_byte_returns [OF assms(1) Cons.prems] by blast
  show ?case
  proof (cases r)
    case (Inl f)
    with r show ?thesis by simp
  next
    case (Inr m1)
    with r Cons.IH [of m1] show ?thesis by simp
  qed
qed

lemma inv_ops:
  assumes "parser_inv p" and "ops_frame p p'"
  shows "parser_inv p'"
  using assms core_ops by (auto simp: parser_inv_def ops_frame_def)

lemma timeout_callback_safe:
  assumes "modem_env_ok e" and "parser_inv (parser m)"
  shows "safely (\<lambda>m'. parser_inv (parser m') \<and> pstate (parser m') = PARSER_STATE_RESET)
    (modem_command_timeout_callback e tid m)"
proof (cases "active (commands (parser m) ! 0)")
  case False
  with assms(2) show ?thesis
    by (simp add: modem_command_timeout_callback_def active_command parser_inv_def parser_core_def)
next
  case True
  have core: "parser_core (parser m)" and reg: "registry_ok (commands (parser m))"
    using assms(2) by (simp_all add: parser_inv_def parser_core_def)
  then have len: "0 < length (commands (parser m))" by (simp add: registry_ok_def)
  then obtain c where c: "cmd (commands (parser m) ! 0) = Some c"
    using True reg by (auto simp: registry_ok_def handler_ok_def)
  let ?ri = "\<lparr>status = RESP_STATUS_TIMEOUT, errorcode = -1, num_params = 0\<rparr>"
  let ?f = "set_parser (\<lambda>p. p\<lparr>cmd_timeout_armed := False, cmd_timeout_id := -1\<rparr>)"
  have "safely (\<lambda>m1. safely (\<lambda>m'. parser_inv (parser (set_state PARSER_STATE_RESET m')))
      (run_callback e (commands (parser (?f m1)) ! 0) ?ri None (?f m1)))
    (ubparser_unregister_response_handler (cmd_name c) m)"
  proof (rule safely_mono [OF unregister_safe [OF reg]], elim conjE)
    fix m1 :: modem assume "ops_frame (parser m) (parser m1)"
    then have f: "ops_frame (parser m) (parser (?f m1))" by (simp add: ops_frame_def)
    then have r: "registry_ok (commands (parser (?f m1)))" "cmd (commands (parser (?f m1)) ! 0) \<noteq> None"
      using len c by (simp_all add: ops_frame_def)
    show "safely (\<lambda>m'. parser_inv (parser (set_state PARSER_STATE_RESET m')))
      (run_callback e (commands (parser (?f m1)) ! 0) ?ri None (?f m1))"
      by (rule safely_mono [OF run_callback_safe [OF assms(1) r]])
        (use core_ops [OF core_ops [OF core f]] in \<open>simp add: parser_inv_def set_state_def core_fields(3)\<close>)
  qed
  with True reg c show ?thesis
    by (simp add: modem_command_timeout_callback_def active_command handler_cmd_def Let_def set_state_def)
qed

end
