(* ===== verification/Modem_Responses.thy ===== *)
theory Modem_Responses
  imports Modem_Safety
begin

text \<open>
  Functional correctness of the response parser on the responses it is meant for: the line of an
  active command with integer parameters followed by \<open>OK\<close> leads to exactly one callback, with the
  values of the parameters in its stream.
\<close>

section \<open>Running the byte machine\<close>

lemma parse_byte_one:
  assumes "parse_byte_step e c m = Inr (False, m')"
  shows "parse_byte e c m = Some (Inr m')"
  using assms by (subst parse_byte.simps) simp

lemma parse_byte_again:
  assumes "parse_byte_step e c m = Inr (True, m')"
  shows "parse_byte e c m = parse_byte e c m'"
  using assms by (subst parse_byte.simps) simp

lemma ubparse_buffer_append:
  "ubparse_buffer e (xs @ ys) m =
    (case ubparse_buffer e xs m of
       None \<Rightarrow> None | Some (Inl f) \<Rightarrow> Some (Inl f) | Some (Inr m1) \<Rightarrow> ubparse_buffer e ys m1)"
  by (induction xs arbitrary: m) (auto split: option.splits sum.splits)

lemma ubparse_buffer_trans:
  assumes "ubparse_buffer e xs m = Some (Inr m1)"
  shows "ubparse_buffer e (xs @ ys) m = ubparse_buffer e ys m1"
  using assms by (simp add: ubparse_buffer_append)

lemma ubparse_buffer_Cons:
  assumes "parse_byte e x m = Some (Inr m1)"
  shows "ubparse_buffer e (x # ys) m = ubparse_buffer e ys m1"
  using assms by simp

section \<open>States along a line\<close>

text \<open>Nothing but the line-local part of the parser has changed since \<open>m0\<close>.\<close>

definition same_command :: "modem \<Rightarrow> modem \<Rightarrow> bool" where
  "same_command m0 m \<longleftrightarrow> commands (parser m) = commands (parser m0) \<and>
     cmd_timeout_id (parser m) = cmd_timeout_id (parser m0) \<and>
     cmd_timeout_armed (parser m) = cmd_timeout_armed (parser m0) \<and>
     mtimers m = mtimers m0 \<and> mevents m = mevents m0"

definition statebuf_holds :: "modem \<Rightarrow> bytes \<Rightarrow> bool" where
  "statebuf_holds m xs \<longleftrightarrow> statebufpos (parser m) = length xs \<and> map (statebuf (parser m)) [0..<length xs] = xs"

lemma same_command_refl [simp]: "same_command m m"
  by (simp add: same_command_def)

lemma same_command_trans: "same_command m0 m1 \<Longrightarrow> same_command m1 m2 \<Longrightarrow> same_command m0 m2"
  by (simp add: same_command_def)

lemma map_update_end: "map (b(n := x)) [0..<Suc n] = map b [0..<n] @ [x]"
  by simp

lemma c_string_statebuf:
  assumes "statebuf_holds m xs" and "no_nul xs" and "length xs \<le> 31"
  shows "c_string STATEBUF_LEN (null_terminate_buf STATEBUF_LEN (statebufpos (parser m)) (statebuf (parser m))) = xs"
proof -
  let ?n = "length xs"
  let ?b = "(statebuf (parser m))(?n := 0)"
  have b: "null_terminate_buf STATEBUF_LEN (statebufpos (parser m)) (statebuf (parser m)) = ?b"
    using assms(1,3) by (simp add: statebuf_holds_def null_terminate_buf_def)
  have "[0..<STATEBUF_LEN] = [0..<?n] @ ?n # [Suc ?n..<STATEBUF_LEN]"
    using assms(3) upt_add_eq_append [of 0 ?n "STATEBUF_LEN - ?n"] by (simp add: upt_conv_Cons)
  then have "map ?b [0..<STATEBUF_LEN] = map ?b [0..<?n] @ 0 # map ?b [Suc ?n..<STATEBUF_LEN]" by simp
  also have "map ?b [0..<?n] = xs" using assms(1) by (simp add: statebuf_holds_def)
  finally show ?thesis
    unfolding b c_string_def by (simp only:) (subst takeWhile_append2, use assms(2) in auto)
qed

section \<open>Names\<close>

definition name_char :: "u8 \<Rightarrow> bool" where
  "name_char c \<longleftrightarrow> is_visible_at_ascii c \<and> c \<noteq> chr CHR '':'' \<and> \<not> is_prompt c"

lemma name_char_not_special:
  assumes "name_char c"
  shows "\<not> end_of_line_char c" "c \<noteq> 0"
  using assms by (auto simp: name_char_def is_visible_at_ascii_def end_of_line_char_def)

lemma read_name_char:
  assumes "name_char c" and "statebuf_holds m xs" and "length xs < 31"
  shows "\<exists>m'. read_response_name e c m = Inr (False, m') \<and> same_command m m' \<and>
    pstate (parser m') = pstate (parser m) \<and> stream (parser m') = stream (parser m) \<and>
    info (parser m') = info (parser m) \<and> statebuf_holds m' (xs @ [c])"
proof -
  have "read_response_name e c m = Inr (False, set_parser (push_statebuf c) m)"
    using assms name_char_not_special [OF assms(1)]
    by (simp add: read_response_name_def name_char_def statebuf_holds_def check_def Let_def)
  moreover have "statebuf_holds (set_parser (push_statebuf c) m) (xs @ [c])"
    using assms(2,3) by (simp add: statebuf_holds_def push_statebuf_def)
  moreover have "same_command m (set_parser (push_statebuf c) m)" "pstate (parser (set_parser (push_statebuf c) m)) = pstate (parser m)"
    "stream (parser (set_parser (push_statebuf c) m)) = stream (parser m)"
    "info (parser (set_parser (push_statebuf c) m)) = info (parser m)"
    by (simp_all add: same_command_def push_statebuf_def)
  ultimately show ?thesis by blast
qed

lemma parse_name_rest:
  assumes "list_all name_char cs" and "pstate (parser m) = PARSER_STATE_READ_RESPONSE_NAME"
    and "statebuf_holds m xs" and "length xs + length cs \<le> 31"
  shows "\<exists>m'. ubparse_buffer e cs m = Some (Inr m') \<and> same_command m m' \<and>
    pstate (parser m') = PARSER_STATE_READ_RESPONSE_NAME \<and> stream (parser m') = stream (parser m) \<and>
    info (parser m') = info (parser m) \<and> statebuf_holds m' (xs @ cs)"
  using assms
proof (induction cs arbitrary: m xs)
  case Nil
  then show ?case by simp
next
  case (Cons c cs)
  obtain m1 where m1: "read_response_name e c m = Inr (False, m1)" "same_command m m1"
    "pstate (parser m1) = pstate (parser m)" "stream (parser m1) = stream (parser m)"
    "info (parser m1) = info (parser m)" "statebuf_holds m1 (xs @ [c])"
    using read_name_char [of c m xs e] Cons.prems by auto
  have "parse_byte e c m = Some (Inr m1)"
    using m1(1) Cons.prems(2) by (intro parse_byte_one) (simp add: parse_byte_step_def)
  with Cons.IH [of m1 "xs @ [c]"] Cons.prems m1 show ?case
    by (auto intro: same_command_trans)
qed

lemma parse_name:
  assumes "list_all name_char cs" and "cs \<noteq> []" and "length cs \<le> 31" and "pstate (parser m) = PARSER_STATE_RESET"
  shows "\<exists>m'. ubparse_buffer e cs m = Some (Inr m') \<and> same_command m m' \<and>
    pstate (parser m') = PARSER_STATE_READ_RESPONSE_NAME \<and> stream (parser m') = stream (parser m) \<and>
    info (parser m') = info (parser m) \<and> statebuf_holds m' cs"
proof -
  obtain c cs' where cs: "cs = c # cs'" using assms(2) by (cases cs) auto
  let ?m = "set_parser (\<lambda>p. p\<lparr>statebufpos := 0, handler := None, pstate := PARSER_STATE_READ_RESPONSE_NAME\<rparr>) m"
  have "statebuf_holds ?m []" by (simp add: statebuf_holds_def)
  then obtain m1 where m1: "read_response_name e c ?m = Inr (False, m1)" "same_command ?m m1"
    "pstate (parser m1) = PARSER_STATE_READ_RESPONSE_NAME" "stream (parser m1) = stream (parser m)"
    "info (parser m1) = info (parser m)" "statebuf_holds m1 [c]"
    using read_name_char [of c ?m "[]" e] assms(1) cs by auto
  have "same_command m ?m" by (simp add: same_command_def)
  with m1(2) have sc: "same_command m m1" using same_command_trans by blast
  have "\<not> end_of_line_char c" using assms(1) cs name_char_not_special by simp
  then have p: "parse_byte e c m = Some (Inr m1)"
    using m1(1) assms(4) by (intro parse_byte_one) (simp add: parse_byte_step_def)
  from parse_name_rest [of cs' m1 "[c]" e] assms(1,3) cs m1(3,6) obtain m' where
    "ubparse_buffer e cs' m1 = Some (Inr m')" "same_command m1 m'"
    "pstate (parser m') = PARSER_STATE_READ_RESPONSE_NAME" "stream (parser m') = stream (parser m1)"
    "info (parser m') = info (parser m1)" "statebuf_holds m' cs" by auto
  with p sc m1(4,5) cs show ?thesis by (auto intro: same_command_trans)
qed

section \<open>The response line of the active command\<close>

definition awaiting :: "modem \<Rightarrow> at_response_handler_s \<Rightarrow> at_cmd_def_s \<Rightarrow> bool" where
  "awaiting m h c \<longleftrightarrow> registry_ok (commands (parser m)) \<and> commands (parser m) ! 0 = h \<and> active h \<and> cmd h = Some c"

lemma awaiting_same: "awaiting m h c \<Longrightarrow> same_command m m' \<Longrightarrow> awaiting m' h c"
  by (simp add: awaiting_def same_command_def)

lemma awaiting_unsolicited: "awaiting m h c \<Longrightarrow> \<not> unsolicited h"
  by (auto simp: awaiting_def registry_ok_def)

lemma awaiting_active:
  "awaiting m h c \<Longrightarrow> parser_find_response_handler_for_active_command (parser m) = Inr (Some 0)"
  using active_command [of "parser m"] by (auto simp: awaiting_def)

lemma find_active_handler_update [simp]:
  "parser_find_response_handler_for_active_command (p\<lparr>handler := r\<rparr>) = parser_find_response_handler_for_active_command p"
  "parser_find_response_handler_for_active_command (p\<lparr>statebuf := b\<rparr>) = parser_find_response_handler_for_active_command p"
  by (simp_all add: parser_find_response_handler_for_active_command_def)

text \<open>The colon after the name of the active command starts its parameters.\<close>

lemma finish_own_name:
  assumes aw: "awaiting m h c" and holds: "statebuf_holds m (cmd_name c)"
    and nm: "no_nul (cmd_name c)" "length (cmd_name c) \<le> 31" "\<not> flag_plain c"
  shows "\<exists>m'. finish_name e ch m = Inr (False, m') \<and> same_command m m' \<and> handler (parser m') = Some (Commands 0) \<and>
    pstate (parser m') = PARSER_STATE_START_READ_RARAM \<and> contents (stream (parser m')) = [] \<and>
    num_params (info (parser m')) = 0"
proof -
  let ?b = "null_terminate_buf STATEBUF_LEN (statebufpos (parser m)) (statebuf (parser m))"
  let ?m1 = "m\<lparr>parser := (parser m)\<lparr>statebuf := ?b\<rparr>\<rparr>"
  let ?m2 = "set_parser (\<lambda>p. p\<lparr>handler := None\<rparr>) ?m1"
  let ?m3 = "reset_stream (set_parser (\<lambda>p. p\<lparr>info := (info p)\<lparr>num_params := 0\<rparr>, handler := Some (Commands 0)\<rparr>) ?m2)"
  let ?m4 = "reset_stream (set_parser (\<lambda>p. p\<lparr>info := (info p)\<lparr>num_params := 0\<rparr>\<rparr>) ?m3)"
  have cs: "commands (parser m) ! 0 = h" "cmd h = Some c" "0 < length (commands (parser m))"
    using aw by (auto simp: awaiting_def registry_ok_def)
  have "found_for_active e 0 (cmd_name c) ?m2 = Inr (Some False, ?m3)"
    using cs nm by (simp add: found_for_active_def handler_cmd_def strcmp_equal)
  then have "parser_found_response_name e (cmd_name c) ?m1 = Inr (True, ?m4)"
    using awaiting_active [OF aw] by (simp add: parser_found_response_name_def reset_stream_def)
  moreover have "current_handler (parser ?m4) = Inr h"
    using cs by (simp add: current_handler_def deref_def reset_stream_def check_def)
  moreover have "handler (parser ?m4) \<noteq> None" by (simp add: reset_stream_def)
  ultimately have "finish_name e ch m = Inr (False, set_state PARSER_STATE_START_READ_RARAM ?m4)"
    using c_string_statebuf [OF holds nm(1,2)] cs(2) nm(3)
    by (simp add: finish_name_def Let_def check_def handler_cmd_def)
  moreover have "same_command m (set_state PARSER_STATE_START_READ_RARAM ?m4)"
    "handler (parser (set_state PARSER_STATE_START_READ_RARAM ?m4)) = Some (Commands 0)"
    "pstate (parser (set_state PARSER_STATE_START_READ_RARAM ?m4)) = PARSER_STATE_START_READ_RARAM"
    "contents (stream (parser (set_state PARSER_STATE_START_READ_RARAM ?m4))) = []"
    "num_params (info (parser (set_state PARSER_STATE_START_READ_RARAM ?m4))) = 0"
    by (simp_all add: same_command_def set_state_def reset_stream_def)
  ultimately show ?thesis by blast
qed

lemma parse_own_name:
  assumes aw: "awaiting m h c" and st: "pstate (parser m) = PARSER_STATE_RESET"
    and nm: "list_all name_char (cmd_name c)" "cmd_name c \<noteq> []" "length (cmd_name c) \<le> 31" "\<not> flag_plain c"
  shows "\<exists>m'. ubparse_buffer e (cmd_name c @ [chr CHR '':'']) m = Some (Inr m') \<and> same_command m m' \<and>
    handler (parser m') = Some (Commands 0) \<and> pstate (parser m') = PARSER_STATE_START_READ_RARAM \<and>
    contents (stream (parser m')) = [] \<and> num_params (info (parser m')) = 0"
proof -
  obtain m1 where m1: "ubparse_buffer e (cmd_name c) m = Some (Inr m1)" "same_command m m1"
    "pstate (parser m1) = PARSER_STATE_READ_RESPONSE_NAME" "statebuf_holds m1 (cmd_name c)"
    using parse_name [OF nm(1-3) st] by blast
  have "no_nul (cmd_name c)" using nm(1) name_char_not_special(2) by (auto simp: list_all_iff)
  with finish_own_name [OF awaiting_same [OF aw m1(2)] m1(4) _ nm(3,4), of e "chr CHR '':''"] obtain m2 where
    m2: "finish_name e (chr CHR '':'') m1 = Inr (False, m2)" "same_command m1 m2" "handler (parser m2) = Some (Commands 0)"
      "pstate (parser m2) = PARSER_STATE_START_READ_RARAM" "contents (stream (parser m2)) = []"
      "num_params (info (parser m2)) = 0" by auto
  have "statebufpos (parser m1) = length (cmd_name c)" using m1(4) by (simp add: statebuf_holds_def)
  then have "read_response_name e (chr CHR '':'') m1 = finish_name e (chr CHR '':'') m1"
    using nm(2,3) by (simp add: read_response_name_def check_def Let_def is_prompt_def)
  with m2(1) m1(3) have "parse_byte e (chr CHR '':'') m1 = Some (Inr m2)"
    by (intro parse_byte_one) (simp add: parse_byte_step_def)
  with m1 m2 show ?thesis by (auto simp: ubparse_buffer_append intro: same_command_trans)
qed

section \<open>Integer parameters\<close>

definition int_format :: "at_resp_format_e \<Rightarrow> bool" where
  "int_format f \<longleftrightarrow> f = RESP_FMT_INT8 \<or> f = RESP_FMT_INT16 \<or> f = RESP_FMT_INT32"

fun encode_int :: "at_resp_format_e \<Rightarrow> int \<Rightarrow> bytes" where
  "encode_int RESP_FMT_INT8 v = [word_of_int v]"
| "encode_int RESP_FMT_INT16 v =
     (let w = word_of_int v :: u16 in [ucast (w AND 0xff), ucast (drop_bit 8 w AND 0xff)])"
| "encode_int RESP_FMT_INT32 v =
     (let w = word_of_int v :: u32
      in [ucast (w AND 0xff), ucast (drop_bit 8 w AND 0xff), ucast (drop_bit 16 w AND 0xff), ucast (drop_bit 24 w AND 0xff)])"
| "encode_int _ v = []"

lemma encode_int_length: "length (encode_int f v) \<le> 4"
  by (cases f) (simp_all add: Let_def)

text \<open>The readers give back the value, cut to the width of the parameter.\<close>

lemma encode_int_get:
  "ubmodem_stream_get_int8 (encode_int RESP_FMT_INT8 v @ rest) = (Some (word_of_int v), rest)"
  "ubmodem_stream_get_int16 (encode_int RESP_FMT_INT16 v @ rest) = (Some (word_of_int v), rest)"
  "ubmodem_stream_get_int32 (encode_int RESP_FMT_INT32 v @ rest) = (Some (word_of_int v), rest)"
  by (simp_all add: Let_def u16_bytes u32_bytes)

definition num_char :: "u8 \<Rightarrow> bool" where
  "num_char c \<longleftrightarrow> c = chr CHR ''-'' \<or> c = chr CHR ''+'' \<or> is_digit c"

definition param_char :: "u8 \<Rightarrow> bool" where
  "param_char c \<longleftrightarrow> c \<noteq> chr CHR '','' \<and> \<not> end_of_line_char c"

lemma num_char_param: "num_char c \<Longrightarrow> param_char c"
  by (auto simp: num_char_def param_char_def end_of_line_char_def is_digit_def)

lemma decimal_int_num_char: "list_all num_char (decimal_int v)"
  using decimal_digits by (auto simp: decimal_int_def num_char_def list_all_iff)

lemma num_char_no_nul: "list_all num_char xs \<Longrightarrow> no_nul xs"
  by (auto simp: list_all_iff num_char_def is_digit_def)

text \<open>The state while an integer parameter of format \<open>f\<close> is read; \<open>k\<close> parameters precede it.\<close>

definition reading_int :: "modem \<Rightarrow> at_resp_format_e \<Rightarrow> bytes \<Rightarrow> nat \<Rightarrow> bytes \<Rightarrow> modem \<Rightarrow> bool" where
  "reading_int m0 f enc k ds m \<longleftrightarrow> same_command m0 m \<and> handler (parser m) = Some (Commands 0) \<and>
     pstate (parser m) = PARSER_STATE_DO_READ_PARAM \<and> fmt (param (parser m)) = f \<and>
     contents (stream (parser m)) = enc \<and> num_params (info (parser m)) = k \<and> statebuf_holds m ds"

text \<open>The state between two parameters.\<close>

definition between_params :: "modem \<Rightarrow> bytes \<Rightarrow> nat \<Rightarrow> modem \<Rightarrow> bool" where
  "between_params m0 enc k m \<longleftrightarrow> same_command m0 m \<and> handler (parser m) = Some (Commands 0) \<and>
     pstate (parser m) = PARSER_STATE_START_READ_RARAM \<and>
     contents (stream (parser m)) = enc \<and> num_params (info (parser m)) = k"

lemma parse_parameter_mid:
  assumes "\<not> end_of_line_char c"
  shows "parse_parameter_byte e c (end_of_line_char c) m =
    and_then (parse_parameter_switch c False (parser m)) (\<lambda>(r, p). Inr (r, m\<lparr>parser := p\<rparr>))"
  using assms by (simp add: parse_parameter_byte_def split_def Let_def)

lemma int_char_step:
  assumes "int_format (fmt (param (parser m)))" and "param_char c"
    and "statebuf_holds m ds" and "num_char c \<Longrightarrow> length ds < STATEBUF_LEN"
  shows "\<exists>m'. parse_parameter_byte e c (end_of_line_char c) m = Inr (False, m') \<and> same_command m m' \<and>
    handler (parser m') = handler (parser m) \<and> pstate (parser m') = pstate (parser m) \<and>
    param (parser m') = param (parser m) \<and> stream (parser m') = stream (parser m) \<and>
    info (parser m') = info (parser m) \<and> statebuf_holds m' (if num_char c then ds @ [c] else ds)"
proof -
  let ?m = "if num_char c then set_parser (push_statebuf c) m else m"
  have "parse_parameter_switch c False (parser m) = Inr (False, parser ?m)"
    using assms(1,2) by (auto simp: parse_parameter_switch_def parse_int_param_def int_format_def num_char_def param_char_def)
  then have "parse_parameter_byte e c (end_of_line_char c) m = Inr (False, m\<lparr>parser := parser ?m\<rparr>)"
    using assms(2) by (subst parse_parameter_mid) (simp_all add: param_char_def)
  moreover have "statebuf_holds (m\<lparr>parser := parser ?m\<rparr>) (if num_char c then ds @ [c] else ds)"
    using assms(3,4) by (auto simp: statebuf_holds_def push_statebuf_def)
  ultimately show ?thesis
    by (intro exI [of _ "m\<lparr>parser := parser ?m\<rparr>"]) (auto simp: same_command_def push_statebuf_def)
qed

lemma parse_digits:
  assumes "reading_int m0 f enc k ds m" and "int_format f" and "list_all num_char xs"
    and "length ds + length xs \<le> STATEBUF_LEN"
  shows "\<exists>m'. ubparse_buffer e xs m = Some (Inr m') \<and> reading_int m0 f enc k (ds @ xs) m'"
  using assms
proof (induction xs arbitrary: m ds)
  case Nil
  then show ?case by simp
next
  case (Cons x xs)
  have x: "num_char x" "param_char x" using Cons.prems(3) num_char_param by simp_all
  obtain m1 where m1: "parse_parameter_byte e x (end_of_line_char x) m = Inr (False, m1)" "same_command m m1"
    "handler (parser m1) = handler (parser m)" "pstate (parser m1) = pstate (parser m)"
    "param (parser m1) = param (parser m)" "stream (parser m1) = stream (parser m)"
    "info (parser m1) = info (parser m)" "statebuf_holds m1 (ds @ [x])"
    using int_char_step [of m x ds e] Cons.prems x by (auto simp: reading_int_def)
  then have "parse_byte e x m = Some (Inr m1)"
    using Cons.prems(1) by (intro parse_byte_one) (simp add: parse_byte_step_def reading_int_def)
  moreover have "reading_int m0 f enc k (ds @ [x]) m1"
    using m1 Cons.prems(1) by (auto simp: reading_int_def intro: same_command_trans)
  ultimately show ?case using Cons.IH [of "ds @ [x]" m1] Cons.prems by simp
qed

text \<open>The first character after a separator, a digit or a space.\<close>

lemma start_int:
  assumes bt: "between_params m0 enc k m" and aw: "awaiting m0 h c" and k: "k < resp_num c" "k < length (resp_format c)"
    and f: "resp_format c ! k = f" "int_format f" and x: "param_char x"
  shows "\<exists>m'. parse_byte e x m = Some (Inr m') \<and> reading_int m0 f enc k (if num_char x then [x] else []) m'"
proof -
  let ?m1 = "set_parser (\<lambda>p. p\<lparr>statebufpos := 0, param := clear_param\<rparr>) m"
  let ?m2 = "set_parser (\<lambda>p. p\<lparr>param := (param p)\<lparr>fmt := resp_format c ! k\<rparr>, pstate := PARSER_STATE_DO_READ_PARAM\<rparr>) ?m1"
  have b: "same_command m0 m" "handler (parser m) = Some (Commands 0)" "num_params (info (parser m)) = k"
    "pstate (parser m) = PARSER_STATE_START_READ_RARAM" "contents (stream (parser m)) = enc"
    using bt by (simp_all add: between_params_def)
  have aw': "awaiting m h c" by (rule awaiting_same [OF aw b(1)])
  have ch: "current_handler (parser ?m1) = Inr h" "cmd h = Some c"
    using aw' b(2) by (auto simp: current_handler_def deref_def check_def awaiting_def registry_ok_def)
  have step: "parse_byte_step e x m = parse_parameter_byte e x (end_of_line_char x) ?m2"
    using b ch k by (simp add: parse_byte_step_def start_read_param_def check_def Let_def handler_cmd_def)
  have "statebuf_holds ?m2 []" by (simp add: statebuf_holds_def)
  then obtain m' where m': "parse_parameter_byte e x (end_of_line_char x) ?m2 = Inr (False, m')" "same_command ?m2 m'"
    "handler (parser m') = handler (parser ?m2)" "pstate (parser m') = pstate (parser ?m2)"
    "param (parser m') = param (parser ?m2)" "stream (parser m') = stream (parser ?m2)"
    "info (parser m') = info (parser ?m2)" "statebuf_holds m' (if num_char x then [] @ [x] else [])"
    using int_char_step [of ?m2 x "[]" e] f x by auto
  have "same_command m0 ?m2" using b(1) by (simp add: same_command_def)
  then have "reading_int m0 f enc k (if num_char x then [x] else []) m'"
    using m' b f(1) by (auto simp: reading_int_def intro: same_command_trans split: if_splits)
  moreover have "parse_byte e x m = Some (Inr m')" using step m'(1) by (intro parse_byte_one) simp
  ultimately show ?thesis by blast
qed

lemma ucast_u32_of_int:
  "(ucast (word_of_int v :: u32) :: u8) = word_of_int v" "(ucast (word_of_int v :: u32) :: u16) = word_of_int v"
  by (rule bit_word_eqI, simp add: bit_simps)+

lemma store_int_encode:
  assumes "int_format f" and "spos (stream p) + 4 \<le> MAX_RESPONSE_STREAM_LEN"
  shows "\<exists>st. store_int f (word_of_int v) p = (True, p\<lparr>stream := st\<rparr>) \<and>
    contents st = contents (stream p) @ encode_int f v"
  using assms unfolding int_format_def
  by (elim disjE)
    (simp_all add: store_int_def modem_stream_put_int8_def modem_stream_put_int16_def modem_stream_put_int32_def Let_def
      ucast_u32_of_int, (rule exI, rule conjI, rule refl, simp)+)

lemma decimal_length:
  assumes "n < 10 ^ k" and "0 < k"
  shows "length (decimal n) \<le> k"
  using assms
proof (induction k arbitrary: n)
  case (Suc k)
  show ?case
  proof (cases "n < 10")
    case True
    then show ?thesis by (subst decimal.simps) simp
  next
    case False
    then have "0 < k" using Suc.prems(1) by (cases k) auto
    moreover have "n div 10 < 10 ^ k" using Suc.prems(1) by (simp add: div_less_iff_less_mult mult.commute)
    ultimately show ?thesis using Suc.IH [of "n div 10"] False by (subst decimal.simps) simp
  qed
qed simp

lemma decimal_int_length:
  assumes "\<bar>v\<bar> < 10000000000"
  shows "length (decimal_int v) \<le> 11"
proof -
  have "nat \<bar>v\<bar> < 10 ^ 10" using assms by (simp add: nat_less_iff)
  then have "length (decimal (nat \<bar>v\<bar>)) \<le> 10" by (intro decimal_length) simp_all
  then show ?thesis by (auto simp: decimal_int_def)
qed

lemma int_param_end:
  assumes rd: "reading_int m0 f enc k (decimal_int v) m" and f: "int_format f" and v: "\<bar>v\<bar> < 10000000000"
    and sp: "length enc + 4 \<le> MAX_RESPONSE_STREAM_LEN" and c: "c = chr CHR '','' \<or> eol"
  shows "\<exists>p. parse_parameter_switch c eol (parser m) = Inr (eol, p) \<and> between_params m0 (enc @ encode_int f v) (Suc k) (m\<lparr>parser := p\<rparr>)"
proof -
  let ?p = "(next_param (parser m))\<lparr>statebuf := null_terminate_buf STATEBUF_LEN (statebufpos (parser m)) (statebuf (parser m))\<rparr>"
  have r: "fmt (param (parser m)) = f" "contents (stream (parser m)) = enc" "num_params (info (parser m)) = k"
    "statebuf_holds m (decimal_int v)" "same_command m0 m" "handler (parser m) = Some (Commands 0)"
    using rd by (simp_all add: reading_int_def)
  have "no_nul (decimal_int v)" by (rule num_char_no_nul [OF decimal_int_num_char])
  then have s: "c_string STATEBUF_LEN (statebuf ?p) = decimal_int v"
    using c_string_statebuf [OF r(4)] decimal_int_length [OF v] by simp
  have "spos (stream ?p) = length enc" using r(2) length_contents [of "stream (parser m)"] by (simp add: next_param_def)
  then obtain st where st: "store_int f (word_of_int v) ?p = (True, ?p\<lparr>stream := st\<rparr>)" "contents st = enc @ encode_int f v"
    using store_int_encode [OF f, of ?p v] sp r(2) by (auto simp: next_param_def)
  have "parse_parameter_switch c eol (parser m) = parse_int_param c eol (parser m)"
    using r(1) f by (auto simp: parse_parameter_switch_def int_format_def)
  also have "\<dots> = Inr (eol, ?p\<lparr>stream := st, pstate := PARSER_STATE_START_READ_RARAM\<rparr>)"
    using c st(1) r(1) s by (simp add: parse_int_param_def Let_def strtol_decimal_int check_def next_param_def)
  finally show ?thesis
    using st(2) r by (auto simp: between_params_def same_command_def next_param_def)
qed

lemma parse_comma:
  assumes "reading_int m0 f enc k (decimal_int v) m" and "int_format f" and "\<bar>v\<bar> < 10000000000"
    and "length enc + 4 \<le> MAX_RESPONSE_STREAM_LEN"
  shows "\<exists>m'. parse_byte e (chr CHR '','') m = Some (Inr m') \<and> between_params m0 (enc @ encode_int f v) (Suc k) m'"
proof -
  obtain p where p: "parse_parameter_switch (chr CHR '','') False (parser m) = Inr (False, p)"
    "between_params m0 (enc @ encode_int f v) (Suc k) (m\<lparr>parser := p\<rparr>)"
    using int_param_end [OF assms] by blast
  have "parse_byte_step e (chr CHR '','') m = Inr (False, m\<lparr>parser := p\<rparr>)"
    using assms(1) p(1) by (simp add: parse_byte_step_def reading_int_def parse_parameter_byte_def end_of_line_char_def)
  with p(2) parse_byte_one show ?thesis by blast
qed

text \<open>The end of the line after the last parameter.\<close>

lemma parse_eol:
  assumes rd: "reading_int m0 f enc k (decimal_int v) m" and "int_format f" and "\<bar>v\<bar> < 10000000000"
    and "length enc + 4 \<le> MAX_RESPONSE_STREAM_LEN" and aw: "awaiting m0 h c" and last: "resp_num c \<le> Suc k"
    and fl: "\<not> flag_errorcode c" "\<not> flag_multiple_resp c"
  shows "\<exists>m'. parse_byte e 13 m = Some (Inr m') \<and> same_command m0 m' \<and> pstate (parser m') = PARSER_STATE_RESET \<and>
    contents (stream (parser m')) = enc @ encode_int f v \<and> num_params (info (parser m')) = Suc k"
proof -
  obtain p where p: "parse_parameter_switch 13 True (parser m) = Inr (True, p)"
    "between_params m0 (enc @ encode_int f v) (Suc k) (m\<lparr>parser := p\<rparr>)"
    using int_param_end [OF assms(1-4), of 13 True] by auto
  let ?m1 = "m\<lparr>parser := p\<rparr>"
  have b: "same_command m0 ?m1" "handler p = Some (Commands 0)" "pstate p = PARSER_STATE_START_READ_RARAM"
    "contents (stream p) = enc @ encode_int f v" "num_params (info p) = Suc k"
    using p(2) by (simp_all add: between_params_def)
  have aw1: "awaiting ?m1 h c" by (rule awaiting_same [OF aw b(1)])
  have ch: "current_handler q = Inr h" if "handler q = Some (Commands 0)" "commands q = commands p" for q
    using aw1 that by (auto simp: current_handler_def deref_def check_def awaiting_def registry_ok_def)
  have c: "cmd h = Some c" using aw1 by (simp add: awaiting_def)
  have nu: "\<not> unsolicited h" by (rule awaiting_unsolicited [OF aw1])
  have s1: "parse_byte_step e 13 m = Inr (True, ?m1)"
    using rd p(1) ch b(2) c nu fl
    by (simp add: parse_byte_step_def reading_int_def parse_parameter_byte_def end_of_line_char_def handler_cmd_def Let_def)
  let ?m2 = "set_state PARSER_STATE_SKIP_TO_EOL (set_parser (\<lambda>p. p\<lparr>statebufpos := 0, param := clear_param\<rparr>) ?m1)"
  have s2: "parse_byte_step e 13 ?m1 = Inr (True, ?m2)"
    using b ch c last by (simp add: parse_byte_step_def start_read_param_def check_def Let_def handler_cmd_def)
  let ?m3 = "set_state PARSER_STATE_RESET ?m2"
  have s3: "parse_byte_step e 13 ?m2 = Inr (False, ?m3)"
    by (simp add: parse_byte_step_def end_of_line_char_def set_state_def)
  have "parse_byte e 13 m = Some (Inr ?m3)"
    using parse_byte_again [OF s1] parse_byte_again [OF s2] parse_byte_one [OF s3] by simp
  moreover have "same_command m0 ?m3" "pstate (parser ?m3) = PARSER_STATE_RESET"
    "contents (stream (parser ?m3)) = enc @ encode_int f v" "num_params (info (parser ?m3)) = Suc k"
    using b by (simp_all add: set_state_def same_command_def)
  ultimately show ?thesis by blast
qed

lemma parse_int_text:
  assumes bt: "between_params m0 enc k m" and aw: "awaiting m0 h c" and k: "k < resp_num c" "k < length (resp_format c)"
    and f: "resp_format c ! k = f" "int_format f" and v: "\<bar>v\<bar> < 10000000000" and pad: "pad = [] \<or> pad = [chr CHR '' '']"
  shows "\<exists>m'. ubparse_buffer e (pad @ decimal_int v) m = Some (Inr m') \<and> reading_int m0 f enc k (decimal_int v) m'"
proof -
  have nc: "list_all num_char (decimal_int v)" by (rule decimal_int_num_char)
  have "decimal_int v \<noteq> []" by (simp add: decimal_int_def)
  then obtain d ds where d: "decimal_int v = d # ds" by (cases "decimal_int v") auto
  have len: "length (decimal_int v) \<le> STATEBUF_LEN" using decimal_int_length [OF v] by simp
  note start = start_int [OF bt aw k f]
  have nd: "num_char d" "param_char d" using nc d num_char_param by auto
  from pad show ?thesis
  proof
    assume p: "pad = []"
    obtain m1 where m1: "parse_byte e d m = Some (Inr m1)" "reading_int m0 f enc k [d] m1"
      using start [OF nd(2), of e] nd(1) by auto
    from parse_digits [OF m1(2) f(2), of ds e] nc d len obtain m2 where
      "ubparse_buffer e ds m1 = Some (Inr m2)" "reading_int m0 f enc k (d # ds) m2" by auto
    with m1(1) d p show ?thesis by simp
  next
    assume p: "pad = [chr CHR '' '']"
    have "param_char (chr CHR '' '')" "\<not> num_char (chr CHR '' '')"
      by (simp_all add: param_char_def end_of_line_char_def num_char_def is_digit_def)
    then obtain m1 where m1: "parse_byte e (chr CHR '' '') m = Some (Inr m1)" "reading_int m0 f enc k [] m1"
      using start [of "chr CHR '' ''" e] by auto
    from parse_digits [OF m1(2) f(2) nc, of e] len obtain m2 where
      "ubparse_buffer e (decimal_int v) m1 = Some (Inr m2)" "reading_int m0 f enc k (decimal_int v) m2" by auto
    with m1(1) p show ?thesis by simp
  qed
qed

text \<open>The text of a list of parameters.\<close>

fun params_text :: "int list \<Rightarrow> bytes" where
  "params_text [] = []"
| "params_text [v] = decimal_int v"
| "params_text (v # vs) = decimal_int v @ chr CHR '','' # params_text vs"

definition encode_params :: "at_resp_format_e list \<Rightarrow> int list \<Rightarrow> bytes" where
  "encode_params fs vs = concat (map2 encode_int fs vs)"

definition plain_numbers :: "at_cmd_def_s \<Rightarrow> bool" where
  "plain_numbers c \<longleftrightarrow> list_all int_format (resp_format c) \<and> resp_num c = length (resp_format c) \<and> resp_num c \<le> 31 \<and>
     \<not> flag_errorcode c \<and> \<not> flag_multiple_resp c \<and> \<not> flag_plain c \<and>
     list_all name_char (cmd_name c) \<and> cmd_name c \<noteq> [] \<and> length (cmd_name c) \<le> 31 \<and> cmd_name c \<noteq> of_string ''OK''"

lemma parse_params:
  assumes "between_params m0 enc k m" and aw: "awaiting m0 h c" and pn: "plain_numbers c"
    and "k + length vs = resp_num c" and "vs \<noteq> []" and "list_all (\<lambda>v. \<bar>v\<bar> < 10000000000) vs"
    and "length enc \<le> 4 * k" and "pad = [] \<or> pad = [chr CHR '' '']"
  shows "\<exists>m'. ubparse_buffer e (pad @ params_text vs @ [13]) m = Some (Inr m') \<and> same_command m0 m' \<and>
    pstate (parser m') = PARSER_STATE_RESET \<and>
    contents (stream (parser m')) = enc @ encode_params (drop k (resp_format c)) vs \<and>
    num_params (info (parser m')) = k + length vs"
  using assms(1,4-)
proof (induction vs arbitrary: enc k m pad rule: params_text.induct)
  case 1
  then show ?case by simp
next
  case (2 v)
  have k: "k < resp_num c" "k < length (resp_format c)" using 2 pn by (simp_all add: plain_numbers_def)
  then have f: "int_format (resp_format c ! k)" using pn by (simp add: plain_numbers_def list_all_length)
  have v: "\<bar>v\<bar> < 10000000000" using 2 by simp
  have sp: "length enc + 4 \<le> MAX_RESPONSE_STREAM_LEN" using 2 k(1) pn by (simp add: plain_numbers_def)
  obtain m1 where m1: "ubparse_buffer e (pad @ decimal_int v) m = Some (Inr m1)"
    "reading_int m0 (resp_format c ! k) enc k (decimal_int v) m1"
    using parse_int_text [OF "2.prems"(1) aw k refl f v] "2.prems"(6) by blast
  have "resp_num c \<le> Suc k" using "2.prems"(2) by simp
  with parse_eol [OF m1(2) f v sp aw] pn obtain m2 where m2: "parse_byte e 13 m1 = Some (Inr m2)" "same_command m0 m2"
    "pstate (parser m2) = PARSER_STATE_RESET" "contents (stream (parser m2)) = enc @ encode_int (resp_format c ! k) v"
    "num_params (info (parser m2)) = Suc k" by (auto simp: plain_numbers_def)
  have "drop k (resp_format c) = resp_format c ! k # drop (Suc k) (resp_format c)"
    using k(2) by (simp add: Cons_nth_drop_Suc)
  then have "encode_params (drop k (resp_format c)) [v] = encode_int (resp_format c ! k) v"
    by (simp add: encode_params_def)
  with m1(1) m2 show ?case
    using ubparse_buffer_trans [OF m1(1), of "[13]"] by simp
next
  case (3 v w vs)
  have k: "k < resp_num c" "k < length (resp_format c)" using 3 pn by (simp_all add: plain_numbers_def)
  then have f: "int_format (resp_format c ! k)" using pn by (simp add: plain_numbers_def list_all_length)
  have v: "\<bar>v\<bar> < 10000000000" using 3 by simp
  have sp: "length enc + 4 \<le> MAX_RESPONSE_STREAM_LEN" using 3 k(1) pn by (simp add: plain_numbers_def)
  obtain m1 where m1: "ubparse_buffer e (pad @ decimal_int v) m = Some (Inr m1)"
    "reading_int m0 (resp_format c ! k) enc k (decimal_int v) m1"
    using parse_int_text [OF "3.prems"(1) aw k refl f v] "3.prems"(6) by blast
  obtain m2 where m2: "parse_byte e (chr CHR '','') m1 = Some (Inr m2)"
    "between_params m0 (enc @ encode_int (resp_format c ! k) v) (Suc k) m2"
    using parse_comma [OF m1(2) f v sp] by blast
  have "length (enc @ encode_int (resp_format c ! k) v) \<le> 4 * Suc k"
    using "3.prems"(5) encode_int_length [of "resp_format c ! k" v] by simp
  with "3.IH" [OF m2(2), of "[]"] "3.prems" obtain m3 where
    m3: "ubparse_buffer e (params_text (w # vs) @ [13]) m2 = Some (Inr m3)" "same_command m0 m3"
      "pstate (parser m3) = PARSER_STATE_RESET"
      "contents (stream (parser m3)) = (enc @ encode_int (resp_format c ! k) v) @ encode_params (drop (Suc k) (resp_format c)) (w # vs)"
      "num_params (info (parser m3)) = Suc k + length (w # vs)" by auto
  have "drop k (resp_format c) = resp_format c ! k # drop (Suc k) (resp_format c)"
    using k(2) by (simp add: Cons_nth_drop_Suc)
  then have enc: "encode_params (drop k (resp_format c)) (v # w # vs) =
      encode_int (resp_format c ! k) v @ encode_params (drop (Suc k) (resp_format c)) (w # vs)"
    by (simp add: encode_params_def)
  have "ubparse_buffer e (pad @ params_text (v # w # vs) @ [13]) m =
      ubparse_buffer e (chr CHR '','' # params_text (w # vs) @ [13]) m1"
    using ubparse_buffer_trans [OF m1(1), of "chr CHR '','' # params_text (w # vs) @ [13]"] by simp
  also have "\<dots> = Some (Inr m3)" using m2(1) m3(1) by simp
  finally show ?case using m3(2-) enc by simp
qed

section \<open>Completion\<close>

lemma parse_byte_and_then:
  assumes "parse_byte_step e c m = and_then r (\<lambda>m'. Inr (False, g m'))"
  shows "parse_byte e c m = Some (and_then r (\<lambda>m'. Inr (g m')))"
  using assms by (subst parse_byte.simps) (cases r; simp)

lemma unregister_own:
  assumes aw: "awaiting m h c" and nn: "no_nul (cmd_name c)"
  shows "ubparser_unregister_response_handler (cmd_name c) m =
    Inr (m\<lparr>parser := (parser m)\<lparr>commands := (commands (parser m))[0 := h\<lparr>active := False\<rparr>]\<rparr>,
           mevents := mevents m @ [Pm_activity (flag_pm_low_activity c) False]\<rparr>)"
proof -
  have h: "commands (parser m) ! 0 = h" "active h" "cmd h = Some c" "length (commands (parser m)) = 7"
    using aw by (auto simp: awaiting_def registry_ok_def)
  then obtain cs where cs: "commands (parser m) = h # cs" by (cases "commands (parser m)") auto
  then have "parser_find_response_handler_by_name (parser m) (cmd_name c) = Inr (Some 0)"
    using h nn by (simp add: parser_find_response_handler_by_name_def strcasecmp_refl)
  then show ?thesis
    using h by (simp add: ubparser_unregister_response_handler_def Let_def handler_cmd_def set_parser_def)
qed

text \<open>The state in which the callback of a completed command runs.\<close>

definition completed :: "modem \<Rightarrow> at_response_handler_s \<Rightarrow> at_cmd_def_s \<Rightarrow> modem \<Rightarrow> bool" where
  "completed m0 h c m \<longleftrightarrow>
     commands (parser m) = (commands (parser m0))[0 := h\<lparr>active := False\<rparr>] \<and> \<not> cmd_timeout_armed (parser m) \<and>
     mevents m = mevents m0 @ [Pm_activity (flag_pm_low_activity c) False] \<and>
     ids (mtimers m) = (if cmd_timeout_armed (parser m0)
       then remove1 (word_of_int (cmd_timeout_id (parser m0))) (ids (mtimers m0)) else ids (mtimers m0))"

lemma complete_final:
  assumes aw: "awaiting m h c" and nn: "no_nul (cmd_name c)"
  shows "\<exists>mc. completed m h c mc \<and>
    complete_command e 0 c True ws m =
      and_then (run_callback e (h\<lparr>active := False\<rparr>) (info (parser m)) (if ws then Some (contents (stream (parser m))) else None) mc)
        (\<lambda>m'. Inr (reset_stream m'))"
proof -
  let ?h = "h\<lparr>active := False\<rparr>"
  let ?m1 = "m\<lparr>parser := (parser m)\<lparr>commands := (commands (parser m))[0 := ?h]\<rparr>,
           mevents := mevents m @ [Pm_activity (flag_pm_low_activity c) False]\<rparr>"
  let ?m2 = "store_time_prev e ?m1"
  let ?mc = "if cmd_timeout_armed (parser ?m2)
    then set_parser (\<lambda>p. p\<lparr>cmd_timeout_id := -1, cmd_timeout_armed := False\<rparr>)
      (?m2\<lparr>mtimers := ubmodem_remove_timer (word_of_int (cmd_timeout_id (parser ?m2))) (mtimers ?m2)\<rparr>) else ?m2"
  have "0 < length (commands (parser m))" using aw by (auto simp: awaiting_def registry_ok_def)
  then have h: "commands (parser ?m2) ! 0 = ?h" by (simp add: store_time_prev_def)
  have nu: "\<not> unsolicited ?h" using awaiting_unsolicited [OF aw] by simp
  have info: "info (parser ?mc) = info (parser m)" "stream (parser ?m2) = stream (parser m)"
    by (simp_all add: store_time_prev_def)
  have "complete_command e 0 c True ws m = and_then (modem_do_callback e ?h (if ws then Some (contents (stream (parser m))) else None) ?m2)
      (\<lambda>m'. Inr (reset_stream m'))"
    unfolding complete_command_def unregister_own [OF aw nn] by (simp add: h info Let_def)
  also have "modem_do_callback e ?h (if ws then Some (contents (stream (parser m))) else None) ?m2 =
      run_callback e ?h (info (parser m)) (if ws then Some (contents (stream (parser m))) else None) ?mc"
    using nu info(1) by (simp add: modem_do_callback_def Let_def)
  finally have "complete_command e 0 c True ws m =
      and_then (run_callback e ?h (info (parser m)) (if ws then Some (contents (stream (parser m))) else None) ?mc) (\<lambda>m'. Inr (reset_stream m'))" .
  moreover have "completed m h c ?mc"
    by (simp add: completed_def store_time_prev_def ubmodem_remove_timer_def map_id_remove_timer_entry)
  ultimately show ?thesis by blast
qed

lemma completed_same:
  assumes "same_command m0 m" and "completed m h c mc"
  shows "completed m0 h c mc"
  using assms by (simp add: completed_def same_command_def)

text \<open>A final result code: \<open>OK\<close> and \<open>ERROR\<close> end the active command with a status and an error code.\<close>

definition final_code :: "modem_env \<Rightarrow> at_cmd_def_s \<Rightarrow> bytes \<Rightarrow> at_resp_status_e \<Rightarrow> int \<Rightarrow> bool \<Rightarrow> bool" where
  "final_code e c nm st ec ws \<longleftrightarrow> list_all name_char nm \<and> nm \<noteq> [] \<and> length nm \<le> 31 \<and> no_nul (cmd_name c) \<and>
     (\<forall>m h. awaiting m h c \<longrightarrow> found_for_active e 0 nm m =
       and_then (complete_command e 0 c True ws (set_result st ec m)) (\<lambda>m. Inr (None, m)))"

lemma final_ok:
  assumes "plain_numbers c"
  shows "final_code e c (of_string ''OK'') RESP_STATUS_OK 0 True"
proof -
  have nn: "no_nul (cmd_name c)" "no_nul (of_string ''OK'')"
    using assms name_char_not_special(2) by (auto simp: plain_numbers_def list_all_iff of_string_def)
  then have "strcmp (of_string ''OK'') (cmd_name c) \<noteq> 0" "strcmp (of_string ''OK'') (of_string ''OK'') = 0"
    using assms by (auto simp: plain_numbers_def strcmp_equal)
  then have "found_for_active e 0 (of_string ''OK'') m =
      and_then (complete_command e 0 c True True (set_result RESP_STATUS_OK 0 m)) (\<lambda>m. Inr (None, m))"
    if "awaiting m h c" for m h
    using that assms by (simp add: found_for_active_def handler_cmd_def awaiting_def plain_numbers_def Let_def)
  moreover have "list_all name_char (of_string ''OK'') \<and> of_string ''OK'' \<noteq> [] \<and> length (of_string ''OK'') \<le> 31"
    by (simp add: of_string_def name_char_def is_visible_at_ascii_def is_prompt_def)
  ultimately show ?thesis using nn(1) unfolding final_code_def by blast
qed

lemma final_error:
  assumes "no_nul (cmd_name c)" and "flag_plain c \<or> cmd_name c \<noteq> of_string ''ERROR''"
  shows "final_code e c (of_string ''ERROR'') RESP_STATUS_ERROR (-1) False"
proof -
  have nn: "no_nul (of_string ''ERROR'')" "no_nul (of_string ''OK'')" "no_nul (of_string ''@'')" "no_nul (of_string ''>'')"
    by (simp_all add: of_string_def)
  have "of_string ''ERROR'' \<noteq> of_string ''OK''" "of_string ''ERROR'' \<noteq> of_string ''@''" "of_string ''ERROR'' \<noteq> of_string ''>''"
    by (simp_all add: of_string_def)
  then have "strcmp (of_string ''ERROR'') (of_string ''OK'') \<noteq> 0" "strcmp (of_string ''ERROR'') (of_string ''@'') \<noteq> 0"
    "strcmp (of_string ''ERROR'') (of_string ''>'') \<noteq> 0" "strcmp (of_string ''ERROR'') (of_string ''ERROR'') = 0"
    using nn by (simp_all add: strcmp_equal)
  moreover have "\<not> (\<not> flag_plain c \<and> strcmp (of_string ''ERROR'') (cmd_name c) = 0)"
    using strcmp_equal [OF nn(1) assms(1)] assms(2) by metis
  ultimately have "found_for_active e 0 (of_string ''ERROR'') m =
      and_then (complete_command e 0 c True False (set_result RESP_STATUS_ERROR (-1) m)) (\<lambda>m. Inr (None, m))"
    if "awaiting m h c" for m h
    using that by (auto simp: found_for_active_def handler_cmd_def awaiting_def)
  moreover have "list_all name_char (of_string ''ERROR'') \<and> of_string ''ERROR'' \<noteq> [] \<and> length (of_string ''ERROR'') \<le> 31"
    by (simp add: of_string_def name_char_def is_visible_at_ascii_def is_prompt_def)
  ultimately show ?thesis using assms(1) unfolding final_code_def by blast
qed

lemma finish_final:
  assumes aw: "awaiting m h c" and holds: "statebuf_holds m nm" and final: "final_code e c nm st ec ws"
  shows "\<exists>mc. completed m h c mc \<and> finish_name e 13 m =
    and_then (run_callback e (h\<lparr>active := False\<rparr>)
        \<lparr>status = st, errorcode = ec, num_params = num_params (info (parser m))\<rparr>
        (if ws then Some (contents (stream (parser m))) else None) mc)
      (\<lambda>m'. Inr (False, set_state PARSER_STATE_RESET (reset_stream m')))"
proof -
  let ?b = "null_terminate_buf STATEBUF_LEN (statebufpos (parser m)) (statebuf (parser m))"
  let ?m1 = "m\<lparr>parser := (parser m)\<lparr>statebuf := ?b\<rparr>\<rparr>"
  let ?m2 = "set_parser (\<lambda>p. p\<lparr>handler := None\<rparr>) ?m1"
  let ?m3 = "set_result st ec ?m2"
  let ?str = "if ws then Some (contents (stream (parser m))) else None"
  have nn: "no_nul (cmd_name c)" "no_nul nm" "length nm \<le> 31"
    using final name_char_not_special(2) by (auto simp: final_code_def list_all_iff)
  have sc: "same_command m ?m3" "same_command m ?m2" by (simp_all add: same_command_def set_result_def)
  obtain mc where mc: "completed ?m3 h c mc" "complete_command e 0 c True ws ?m3 =
      and_then (run_callback e (h\<lparr>active := False\<rparr>) (info (parser ?m3)) (if ws then Some (contents (stream (parser ?m3))) else None) mc)
        (\<lambda>m'. Inr (reset_stream m'))"
    using complete_final [OF awaiting_same [OF aw sc(1)] nn(1)] by blast
  have info: "info (parser ?m3) = \<lparr>status = st, errorcode = ec, num_params = num_params (info (parser m))\<rparr>"
    "stream (parser ?m3) = stream (parser m)"
    by (simp_all add: set_result_def)
  have "found_for_active e 0 nm ?m2 = and_then (complete_command e 0 c True ws ?m3) (\<lambda>m. Inr (None, m))"
    using final awaiting_same [OF aw sc(2)] unfolding final_code_def by blast
  then have "parser_found_response_name e nm ?m1 =
      and_then (complete_command e 0 c True ws ?m3) (\<lambda>m'. Inr (False, m'))"
    using awaiting_active [OF aw]
    by (cases "complete_command e 0 c True ws ?m3") (simp_all add: parser_found_response_name_def)
  moreover have "c_string STATEBUF_LEN ?b = nm"
    by (rule c_string_statebuf [OF holds nn(2,3)])
  ultimately have "finish_name e 13 m =
      and_then (complete_command e 0 c True ws ?m3) (\<lambda>m'. Inr (False, set_state PARSER_STATE_RESET m'))"
    by (cases "complete_command e 0 c True ws ?m3") (simp_all add: finish_name_def Let_def end_of_line_char_def)
  also have "\<dots> = and_then (run_callback e (h\<lparr>active := False\<rparr>) (info (parser ?m3)) ?str mc)
      (\<lambda>m'. Inr (False, set_state PARSER_STATE_RESET (reset_stream m')))"
    unfolding mc(2) info(2)
    by (cases "run_callback e (h\<lparr>active := False\<rparr>) (info (parser ?m3)) ?str mc") simp_all
  finally show ?thesis using completed_same [OF sc(1) mc(1)] unfolding info by blast
qed

lemma parse_newline_reset:
  assumes "pstate (parser m) = PARSER_STATE_RESET"
  shows "parse_byte e 10 m = Some (Inr m)"
  using assms by (intro parse_byte_one) (simp add: parse_byte_step_def end_of_line_char_def)

lemma parse_final:
  assumes aw: "awaiting m h c" and st: "pstate (parser m) = PARSER_STATE_RESET" and final: "final_code e c nm stat ec ws"
  shows "\<exists>mc. completed m h c mc \<and> ubparse_buffer e (nm @ [13, 10]) m =
    Some (and_then (run_callback e (h\<lparr>active := False\<rparr>)
        \<lparr>status = stat, errorcode = ec, num_params = num_params (info (parser m))\<rparr>
        (if ws then Some (contents (stream (parser m))) else None) mc)
      (\<lambda>m'. Inr (set_state PARSER_STATE_RESET (reset_stream m'))))"
proof -
  have nm: "list_all name_char nm" "nm \<noteq> []" "length nm \<le> 31" using final by (simp_all add: final_code_def)
  obtain m1 where m1: "ubparse_buffer e nm m = Some (Inr m1)" "same_command m m1"
    "pstate (parser m1) = PARSER_STATE_READ_RESPONSE_NAME" "stream (parser m1) = stream (parser m)"
    "info (parser m1) = info (parser m)" "statebuf_holds m1 nm"
    using parse_name [OF nm st] by blast
  let ?r = "\<lambda>mc. run_callback e (h\<lparr>active := False\<rparr>)
    \<lparr>status = stat, errorcode = ec, num_params = num_params (info (parser m))\<rparr>
    (if ws then Some (contents (stream (parser m))) else None) mc"
  obtain mc where mc: "completed m1 h c mc" "finish_name e 13 m1 =
      and_then (?r mc) (\<lambda>m'. Inr (False, set_state PARSER_STATE_RESET (reset_stream m')))"
    using finish_final [OF awaiting_same [OF aw m1(2)] m1(6) final] m1(4,5) by auto
  have "0 < statebufpos (parser m1)" "statebufpos (parser m1) \<le> 31"
    using m1(6) nm(2,3) by (auto simp: statebuf_holds_def)
  then have "parse_byte_step e 13 m1 = finish_name e 13 m1"
    using m1(3) by (simp add: parse_byte_step_def read_response_name_def check_def Let_def end_of_line_char_def is_prompt_def)
  with mc(2) have p: "parse_byte e 13 m1 = Some (and_then (?r mc) (\<lambda>m'. Inr (set_state PARSER_STATE_RESET (reset_stream m'))))"
    by (intro parse_byte_and_then) simp
  have "ubparse_buffer e [13, 10] m1 = Some (and_then (?r mc) (\<lambda>m'. Inr (set_state PARSER_STATE_RESET (reset_stream m'))))"
    using p parse_newline_reset [of "set_state PARSER_STATE_RESET _" e]
    by (cases "?r mc") (simp_all add: set_state_def)
  then show ?thesis
    using ubparse_buffer_trans [OF m1(1), of "[13, 10]"] completed_same [OF m1(2) mc(1)] by auto
qed

text \<open>The whole exchange: response line, then the final result code.\<close>

definition response_text :: "at_cmd_def_s \<Rightarrow> int list \<Rightarrow> bytes" where
  "response_text c vs = cmd_name c @ [chr CHR '':''] @ ([chr CHR '' ''] @ params_text vs @ [13]) @ [10] @ of_string ''OK'' @ [13, 10]"

lemma parse_response:
  assumes aw: "awaiting m h c" and st: "pstate (parser m) = PARSER_STATE_RESET" and pn: "plain_numbers c"
    and vs: "length vs = resp_num c" "vs \<noteq> []" "list_all (\<lambda>v. \<bar>v\<bar> < 10000000000) vs"
  shows "\<exists>mc. completed m h c mc \<and> ubparse_buffer e (response_text c vs) m =
    Some (and_then (run_callback e (h\<lparr>active := False\<rparr>)
        \<lparr>status = RESP_STATUS_OK, errorcode = 0, num_params = length vs\<rparr>
        (Some (encode_params (resp_format c) vs)) mc)
      (\<lambda>m'. Inr (set_state PARSER_STATE_RESET (reset_stream m'))))"
proof -
  obtain m1 where m1: "ubparse_buffer e (cmd_name c @ [chr CHR '':'']) m = Some (Inr m1)"
    "between_params m [] 0 m1"
    using parse_own_name [OF aw st] pn by (auto simp: plain_numbers_def between_params_def)
  obtain m2 where m2: "ubparse_buffer e ([chr CHR '' ''] @ params_text vs @ [13]) m1 = Some (Inr m2)" "same_command m m2"
    "pstate (parser m2) = PARSER_STATE_RESET" "contents (stream (parser m2)) = encode_params (resp_format c) vs"
    "num_params (info (parser m2)) = length vs"
    using parse_params [OF m1(2) aw pn _ vs(2,3), of "[chr CHR '' '']"] vs(1) by auto
  obtain mc where mc: "completed m2 h c mc" "ubparse_buffer e (of_string ''OK'' @ [13, 10]) m2 =
    Some (and_then (run_callback e (h\<lparr>active := False\<rparr>)
        \<lparr>status = RESP_STATUS_OK, errorcode = 0, num_params = length vs\<rparr>
        (Some (encode_params (resp_format c) vs)) mc)
      (\<lambda>m'. Inr (set_state PARSER_STATE_RESET (reset_stream m'))))"
    using parse_final [OF awaiting_same [OF aw m2(2)] m2(3) final_ok [OF pn]] m2(4,5) by auto
  have "ubparse_buffer e (response_text c vs) m = ubparse_buffer e ([chr CHR '' ''] @ params_text vs @ [13]
      @ [10] @ of_string ''OK'' @ [13, 10]) m1"
    using ubparse_buffer_trans [OF m1(1), of "[chr CHR '' ''] @ params_text vs @ [13] @ [10] @ of_string ''OK'' @ [13, 10]"]
    by (simp add: response_text_def)
  also have "\<dots> = ubparse_buffer e ([10] @ of_string ''OK'' @ [13, 10]) m2"
    using ubparse_buffer_trans [OF m2(1), of "[10] @ of_string ''OK'' @ [13, 10]"] by simp
  also have "\<dots> = ubparse_buffer e (of_string ''OK'' @ [13, 10]) m2"
    using parse_newline_reset [OF m2(3)] by simp
  finally show ?thesis using mc completed_same [OF m2(2)] by auto
qed

lemma parse_error:
  assumes "awaiting m h c" and "pstate (parser m) = PARSER_STATE_RESET"
    and "no_nul (cmd_name c)" and "flag_plain c \<or> cmd_name c \<noteq> of_string ''ERROR''"
  shows "\<exists>mc. completed m h c mc \<and> ubparse_buffer e (of_string ''ERROR'' @ [13, 10]) m =
    Some (and_then (run_callback e (h\<lparr>active := False\<rparr>)
        \<lparr>status = RESP_STATUS_ERROR, errorcode = -1, num_params = num_params (info (parser m))\<rparr> None mc)
      (\<lambda>m'. Inr (set_state PARSER_STATE_RESET (reset_stream m'))))"
  using parse_final [OF assms(1,2) final_error [OF assms(3,4)]] by simp

text \<open>The timer of the active command runs out.\<close>

lemma timeout_completes:
  assumes aw: "awaiting m h c" and "no_nul (cmd_name c)"
    and "cmd_timeout_armed (parser m)" and "cmd_timeout_id (parser m) = tid"
  shows "\<exists>mc. commands (parser mc) = (commands (parser m))[0 := h\<lparr>active := False\<rparr>] \<and>
    \<not> cmd_timeout_armed (parser mc) \<and> mtimers mc = mtimers m \<and>
    mevents mc = mevents m @ [Pm_activity (flag_pm_low_activity c) False] \<and>
    modem_command_timeout_callback e tid m =
      and_then (run_callback e (h\<lparr>active := False\<rparr>)
          \<lparr>status = RESP_STATUS_TIMEOUT, errorcode = -1, num_params = 0\<rparr> None mc)
        (\<lambda>m'. Inr (set_state PARSER_STATE_RESET m'))"
proof -
  let ?m1 = "m\<lparr>parser := (parser m)\<lparr>commands := (commands (parser m))[0 := h\<lparr>active := False\<rparr>]\<rparr>,
    mevents := mevents m @ [Pm_activity (flag_pm_low_activity c) False]\<rparr>"
  let ?mc = "set_parser (\<lambda>p. p\<lparr>cmd_timeout_armed := False, cmd_timeout_id := -1\<rparr>) ?m1"
  have "commands (parser m) ! 0 = h" "cmd h = Some c" "0 < length (commands (parser m))"
    using aw by (auto simp: awaiting_def registry_ok_def)
  then have "modem_command_timeout_callback e tid m =
      and_then (run_callback e (h\<lparr>active := False\<rparr>) \<lparr>status = RESP_STATUS_TIMEOUT, errorcode = -1, num_params = 0\<rparr> None ?mc)
        (\<lambda>m'. Inr (set_state PARSER_STATE_RESET m'))"
    using assms(3,4) awaiting_active [OF aw] unregister_own [OF assms(1,2)]
    by (simp add: modem_command_timeout_callback_def check_def handler_cmd_def Let_def set_parser_def)
  then show ?thesis by (intro exI [of _ ?mc]) (simp add: set_parser_def)
qed

end
