(* ===== verification/Modem_Properties.thy ===== *)
theory Modem_Properties
  imports Modem_Responses
begin

text \<open>
  The properties of the modem library: its timers and those of the GPS library, the conversion of
  numbers, the response stream, the AT response parser, with concrete states at which their
  hypotheses hold.
\<close>

section \<open>Concrete states\<close>

definition demo_clock :: "nat \<Rightarrow> timespec" where
  "demo_clock k = \<lparr>tv_sec = 10, tv_nsec = 0\<rparr>"

text \<open>A callback that sets a new timer of 5 ms.\<close>

definition demo_timer_env :: timer_env where
  "demo_timer_env = \<lparr>tclk = demo_clock, talloc = (\<lambda>k n. n < 100), tcb = (\<lambda>cb i priv s. [Set_timer 5 (Some 1) 0])\<rparr>"

definition demo_poll_timers :: poll_timers where
  "demo_poll_timers = \<lparr>ptimers = [\<lparr>alarm = \<lparr>tv_sec = 9, tv_nsec = 500000000\<rparr>, pt_callback = Some 1, cb_priv = 0, pt_id = 1\<rparr>,
       \<lparr>alarm = \<lparr>tv_sec = 12, tv_nsec = 0\<rparr>, pt_callback = Some 2, cb_priv = 0, pt_id = 2\<rparr>],
     timer_id_cnt = 2, t_ticks = 0, t_events = []\<rparr>"



section \<open>Timers of the modem and the GPS library\<close>



text \<open>
  The same holds of the walk of the GPS library, whose way of choosing identifiers differs.
\<close>

lemma gps_timers_fire:
  assumes "timer_env_ok e" and "timers_ok s"
  shows "\<exists>s' fs. gps_poll_timers e s = Some s' \<and> timers_ok s' \<and>
    t_events s' = t_events s @ map (\<lambda>t. (t, tclk e (t_ticks s))) fs \<and>
    (\<forall>t \<in> set fs. is_expired (tclk e (t_ticks s)) t) \<and>
    (\<forall>t \<in> set (ptimers s'). \<not> is_expired (tclk e (t_ticks s)) t)"
  by (rule gps_poll_timers_spec [OF assms])

text \<open>
  A timer of the modem library gets an identifier that no other timer has, so that removing it
  again leaves exactly the timers that were there; setting a timer returns whenever fewer than
  65535 timers exist, although the search for an identifier wraps around.
\<close>

lemma modem_timer_ids:
  assumes "timer_env_ok e" and "timers_ok s" and "distinct (ids s)"
  shows "\<exists>r s'. ubmodem_set_timer e msec cb priv s = Some (r, s') \<and> distinct (ids s') \<and>
    (\<forall>i. r = Inr i \<longrightarrow> i \<notin> set (ids s) \<and> ids s' = ids s @ [i] \<and> ids (ubmodem_remove_timer i s') = ids s)"
proof -
  obtain r s' where run: "ubmodem_set_timer e msec cb priv s = Some (r, s')"
    using ubmodem_set_timer_returns [OF assms(1,2)] by blast
  show ?thesis
  proof (cases r)
    case (Inl u)
    with run modem_ids.set_error assms(3) show ?thesis by fastforce
  next
    case (Inr i)
    note run' = run [unfolded Inr]
    from modem_ids.set_distinct [OF assms(3) run'] modem_ids.set_fresh [OF run'] modem_ids.set_adds [OF run']
      modem_ids.set_remove_exact [OF run'] run Inr
    show ?thesis by auto
  qed
qed

text \<open>
  The timeout that the two libraries compute for \<open>poll\<close>: infinite when there is no timer,
  0 exactly when a timer has expired, otherwise no longer than the time left to any timer.
\<close>

lemma poll_setup_correct:
  assumes "timers_ok s"
  shows "\<exists>t s'. ubgps_poll_setup e s = Some (t, s') \<and> ptimers s' = ptimers s \<and>
    (t = -1 \<longleftrightarrow> ptimers s = []) \<and>
    (t = 0 \<longleftrightarrow> (\<exists>x \<in> set (ptimers s). is_expired (tclk e (t_ticks s)) x)) \<and>
    (0 < t \<longrightarrow> (\<forall>x \<in> set (ptimers s). t \<le> msec_diff (alarm x) (tclk e (t_ticks s))))"
proof (cases "ptimers s = []")
  case False
  from assms have "\<forall>x \<in> set (ptimers s). pt_callback x \<noteq> None" by (simp add: timers_ok_def)
  from shortest_timeout_spec [OF this, of INT_MAX_32 "tclk e (t_ticks s)"] obtain r where r:
    "shortest_timeout (tclk e (t_ticks s)) INT_MAX_32 (ptimers s) = Some r" "0 \<le> r"
    "r = 0 \<longleftrightarrow> (\<exists>x \<in> set (ptimers s). is_expired (tclk e (t_ticks s)) x)"
    "r \<noteq> 0 \<longrightarrow> (\<forall>x \<in> set (ptimers s). r \<le> msec_diff (alarm x) (tclk e (t_ticks s)))" by auto
  with False show ?thesis by (auto simp: ubgps_poll_setup_def poll_setup_timeout_def)
qed (simp add: ubgps_poll_setup_def poll_setup_timeout_def)

text \<open>
  The alarm of a timer lies exactly the requested number of milliseconds after the reading of
  the clock (while the seconds do not wrap), and the remaining time is computed from it to within
  a millisecond.
\<close>

lemma alarm_exact:
  assumes "normal_ts now" and "uint (tv_sec now) < 2147483648" and "normal_ts t"
  shows "ns_of (timer_alarm now msec) = ns_of now + uint msec * 1000000 \<and>
    \<bar>msec_diff (timer_alarm now msec) t * 1000000 - (ns_of now + uint msec * 1000000 - ns_of t)\<bar> < 1000000"
  using timer_alarm_ok [OF assms(1,2), of msec] msec_diff_bounds [OF timer_alarm_ok(1) [OF assms(1,2)] assms(3), of msec]
  by auto

section \<open>Strings and the response stream\<close>

text \<open>
  \<open>strtol\<close> in base 10 inverts the decimal notation of every integer, modulo the 32 bits of \<open>long\<close>.
\<close>

lemma strtol_inverts_decimal: "strtol (decimal_int i) 10 = word_of_int i"
  by (rule strtol_decimal_int)

text \<open>
  What the parser writes to the response stream with the \<open>put\<close> functions, the client reads back
  with the matching \<open>get\<close> function, at each of the three widths; a \<open>put\<close> never writes past the buffer.
\<close>

lemma stream_round_trip:
  assumes "stream_inv st"
  shows "(\<forall>v st'. modem_stream_put_int8 v st = (True, st') \<longrightarrow>
      stream_inv st' \<and> ubmodem_stream_get_int8 (drop (spos st) (contents st')) = (Some v, [])) \<and>
    (\<forall>v st'. modem_stream_put_int16 v st = (True, st') \<longrightarrow>
      stream_inv st' \<and> ubmodem_stream_get_int16 (drop (spos st) (contents st')) = (Some v, [])) \<and>
    (\<forall>v st'. modem_stream_put_int32 v st = (True, st') \<longrightarrow>
      stream_inv st' \<and> ubmodem_stream_get_int32 (drop (spos st) (contents st')) = (Some v, []))"
  using int8.put_get int8.put_inv [OF assms] int16.put_get int16.put_inv [OF assms]
    int32.put_get int32.put_inv [OF assms] by blast

section \<open>The response parser\<close>

text \<open>The command \<open>+CREG?\<close> is waiting for two numbers; its timeout has identifier 2.\<close>

definition demo_cmd :: at_cmd_def_s where
  "demo_cmd = \<lparr>cmd_name = of_string ''+CREG'', resp_format = [RESP_FMT_INT8, RESP_FMT_INT16], resp_num = 2,
     timeout_dsec = 0, flag_multiple_resp = False, flag_data_prompt = False, flag_pdu_prompt = False,
     flag_errorcode = False, flag_plain = False, flag_pm_low_activity = False\<rparr>"

definition demo_handler :: at_response_handler_s where
  "demo_handler = \<lparr>active = True, unsolicited = False, cmd = Some demo_cmd, callback = 3, callback_priv = 0\<rparr>"

definition demo_modem :: modem where
  "demo_modem = \<lparr>parser = \<lparr>pstate = PARSER_STATE_RESET, statebuf = (\<lambda>_. 0), statebufpos = 0, param = clear_param,
       stream = \<lparr>sbuf = (\<lambda>_. 0), spos = 0\<rparr>, info = \<lparr>status = RESP_STATUS_NONE, errorcode = 0, num_params = 0\<rparr>,
       datalen = 0, time_prev = demo_clock 0, handler = None,
       commands = demo_handler # replicate 6 (demo_handler\<lparr>active := False, cmd := None\<rparr>),
       cmd_timeout_id = 2, cmd_timeout_armed = True\<rparr>,
     mtimers = demo_poll_timers, mevents = []\<rparr>"

definition demo_modem_env :: modem_env where
  "demo_modem_env = \<lparr>tenv = demo_timer_env, mcb = (\<lambda>cb c ri str priv m. [])\<rparr>"

lemma demo_cmd_ok: "cmd_ok demo_cmd" "plain_numbers demo_cmd" "no_nul (cmd_name demo_cmd)"
  by (simp_all add: cmd_ok_def plain_numbers_def demo_cmd_def of_string_def int_format_def name_char_def
      is_visible_at_ascii_def is_prompt_def)

lemma nth_Cons_replicate: "i < Suc n \<Longrightarrow> (x # replicate n y) ! i = (if i = 0 then x else y)"
  by (cases i) auto

lemma demo_registry_ok: "registry_ok (commands (parser demo_modem))"
  by (auto simp: registry_ok_def demo_modem_def handler_ok_def demo_handler_def demo_cmd_ok nth_Cons_replicate)



lemma demo_awaiting: "awaiting demo_modem demo_handler demo_cmd" "pstate (parser demo_modem) = PARSER_STATE_RESET"
  "cmd_timeout_armed (parser demo_modem)" "cmd_timeout_id (parser demo_modem) = 2"
  using demo_registry_ok by (simp_all add: awaiting_def demo_modem_def demo_handler_def)



text \<open>
  C6. The response to a command with integer parameters: when the modem answers the active command
  with its name, the values in decimal separated by commas, the end of the line and \<open>OK\<close>, the
  parser unregisters the command, disarms its timeout and calls its callback once, with status
  \<open>RESP_STATUS_OK\<close>, the number of values and a stream that holds them in the widths of the formats.
\<close>

theorem response_delivered:
  assumes "awaiting m h c" and "pstate (parser m) = PARSER_STATE_RESET" and "plain_numbers c"
    and "length vs = resp_num c" and "vs \<noteq> []" and "list_all (\<lambda>v. \<bar>v\<bar> < 10000000000) vs"
  shows "\<exists>mc. completed m h c mc \<and> ubparse_buffer e (response_text c vs) m =
    Some (and_then (run_callback e (h\<lparr>active := False\<rparr>)
        \<lparr>status = RESP_STATUS_OK, errorcode = 0, num_params = length vs\<rparr>
        (Some (encode_params (resp_format c) vs)) mc)
      (\<lambda>m'. Inr (set_state PARSER_STATE_RESET (reset_stream m'))))"
  by (rule parse_response [OF assms])

theorem response_delivered_witness:
  "\<exists>mc. completed demo_modem demo_handler demo_cmd mc \<and> ubparse_buffer demo_modem_env (response_text demo_cmd [-1, 513]) demo_modem =
    Some (and_then (run_callback demo_modem_env (demo_handler\<lparr>active := False\<rparr>)
        \<lparr>status = RESP_STATUS_OK, errorcode = 0, num_params = length [-1 :: int, 513]\<rparr>
        (Some (encode_params (resp_format demo_cmd) [-1, 513])) mc)
      (\<lambda>m'. Inr (set_state PARSER_STATE_RESET (reset_stream m'))))"
  by (rule response_delivered [OF demo_awaiting(1,2) demo_cmd_ok(2)]) (simp_all add: demo_cmd_def)

text \<open>
  \<open>ERROR\<close> ends the active command, whatever its format: the command is unregistered, its timeout
  disarmed, and its callback called once with status \<open>RESP_STATUS_ERROR\<close>, error code -1 and no stream.
\<close>

lemma error_delivered:
  assumes "awaiting m h c" and "pstate (parser m) = PARSER_STATE_RESET"
    and "no_nul (cmd_name c)" and "flag_plain c \<or> cmd_name c \<noteq> of_string ''ERROR''"
  shows "\<exists>mc. completed m h c mc \<and> ubparse_buffer e (of_string ''ERROR'' @ [13, 10]) m =
    Some (and_then (run_callback e (h\<lparr>active := False\<rparr>)
        \<lparr>status = RESP_STATUS_ERROR, errorcode = -1, num_params = num_params (info (parser m))\<rparr> None mc)
      (\<lambda>m'. Inr (set_state PARSER_STATE_RESET (reset_stream m'))))"
  by (rule parse_error [OF assms])

text \<open>
  When the timer of the active command runs out, the command is unregistered and its callback
  called once with status \<open>RESP_STATUS_TIMEOUT\<close>; no assertion of the timeout handler fails.
\<close>

lemma timeout_delivered:
  assumes "awaiting m h c" and "no_nul (cmd_name c)"
    and "cmd_timeout_armed (parser m)" and "cmd_timeout_id (parser m) = tid"
  shows "\<exists>mc. commands (parser mc) = (commands (parser m))[0 := h\<lparr>active := False\<rparr>] \<and>
    \<not> cmd_timeout_armed (parser mc) \<and> mtimers mc = mtimers m \<and>
    mevents mc = mevents m @ [Pm_activity (flag_pm_low_activity c) False] \<and>
    modem_command_timeout_callback e tid m =
      and_then (run_callback e (h\<lparr>active := False\<rparr>)
          \<lparr>status = RESP_STATUS_TIMEOUT, errorcode = -1, num_params = 0\<rparr> None mc)
        (\<lambda>m'. Inr (set_state PARSER_STATE_RESET m'))"
  by (rule timeout_completes [OF assms])

text \<open>
  The timeout handler is safe in every state of the parser, also with callbacks that register
  the next command: it never touches memory it should not, and the parser is well formed and
  back in its initial state afterwards.
\<close>

lemma timeout_safe:
  assumes "modem_env_ok e" and "parser_inv (parser m)"
  shows "modem_command_timeout_callback e tid m \<noteq> Inl Memory \<and>
    (\<forall>m'. modem_command_timeout_callback e tid m = Inr m' \<longrightarrow>
      parser_inv (parser m') \<and> pstate (parser m') = PARSER_STATE_RESET)"
  using timeout_callback_safe [OF assms, of tid] by (auto simp: safely_def)

text \<open>
  Registering and unregistering keep the registry well formed (the command in the first slot,
  unsolicited handlers behind it), and the search for the active command then finds the first
  slot exactly when it is in use.
\<close>

lemma registry_operations:
  assumes "registry_ok (commands (parser m))" and "cmd_ok c"
    and "ubparser_register_response_handler c cb priv unsol m = Inr m'"
    and "ubparser_unregister_response_handler nm m' = Inr m''"
  shows "registry_ok (commands (parser m')) \<and> registry_ok (commands (parser m'')) \<and>
    parser_find_response_handler_for_active_command (parser m'') =
      Inr (if active (commands (parser m'') ! 0) then Some 0 else None)"
proof -
  have "registry_ok (commands (parser m'))"
    using register_safe [OF assms(1,2), of cb priv unsol] assms(3) by (auto simp: ops_frame_def)
  moreover from unregister_safe [OF this, of nm] have "registry_ok (commands (parser m''))"
    using assms(4) by (auto simp: ops_frame_def)
  ultimately show ?thesis using active_command by blast
qed

end
