(* ===== verification/Sms_Pdu.thy ===== *)
theory Sms_Pdu
  imports Libc_String
begin

text \<open>
  Encoding of short messages, \<open>apps/system/ubmodem/ubmodem_pdu_util.c\<close>: the table driven UTF-8
  decoder, UCS-2, phone numbers, and the hexadecimal PDU strings of single and concatenated
  messages.

  Memory is given by \<open>avail\<close>, which tells whether an allocation of a size succeeds; as in
  \<open>mm_malloc\<close>, an allocation of size 0 fails. An output buffer is a list of its length, and a store
  outside it makes the result \<open>None\<close>, as does a failed \<open>assert\<close>.
\<close>

section \<open>UTF-8\<close>

abbreviation UTF8_ACCEPT :: u32 where "UTF8_ACCEPT \<equiv> 0"
abbreviation UTF8_REJECT :: u32 where "UTF8_REJECT \<equiv> 1"

definition utf8d :: "nat list" where
  "utf8d =
    replicate 128 0 @
    replicate 16 1 @ replicate 16 9 @
    replicate 32 7 @
    [8,8] @ replicate 30 2 @
    [0xa,0x3,0x3,0x3,0x3,0x3,0x3,0x3,0x3,0x3,0x3,0x3,0x3,0x4,0x3,0x3] @
    [0xb,0x6,0x6,0x6,0x5,0x8,0x8,0x8,0x8,0x8,0x8,0x8,0x8,0x8,0x8,0x8] @
    [0x0,0x1,0x2,0x3,0x5,0x8,0x7,0x1,0x1,0x1,0x4,0x6,0x1,0x1,0x1,0x1] @
    [1,1,1,1,1,1,1,1,1,1,1,1,1,1,1,1,1,0,1,1,1,1,1,0,1,0,1,1,1,1,1,1] @
    [1,2,1,1,1,1,1,2,1,2,1,1,1,1,1,1,1,1,1,1,1,1,1,2,1,1,1,1,1,1,1,1] @
    [1,2,1,1,1,1,1,1,1,2,1,1,1,1,1,1,1,1,1,1,1,1,1,3,1,3,1,1,1,1,1,1] @
    [1,3,1,1,1,1,1,3,1,3,1,1,1,1,1,1,1,3,1,1,1,1,1,1,1,1,1,1,1,1,1,1]"

definition decode :: "u32 \<Rightarrow> u32 \<Rightarrow> u32 \<Rightarrow> u32 \<times> u32" where
  "decode state codep byte =
     (let type = utf8d ! unat byte;
          codep = (if state \<noteq> UTF8_ACCEPT then (byte AND 0x3f) OR push_bit 6 codep
                   else drop_bit type 0xff AND byte)
      in (word_of_nat (utf8d ! (256 + unat state * 16 + type)), codep))"

text \<open>
  The loop of \<open>__utf8_decode\<close> over the bytes from \<open>start\<close> on; the result is the code point (-1 for an
  invalid sequence) and the new offset.
\<close>

fun utf8_decode_loop :: "nat \<Rightarrow> nat \<Rightarrow> u32 \<Rightarrow> u32 \<Rightarrow> bytes \<Rightarrow> int \<times> nat" where
  "utf8_decode_loop start pos state codep [] = (-1, pos)"
| "utf8_decode_loop start pos state codep (b # bs) =
     (let (state, codep) = decode state codep (ucast b)
      in if state = UTF8_ACCEPT then (sint codep, Suc pos)
         else if state = UTF8_REJECT then (-1, start + 1)
         else utf8_decode_loop start (Suc pos) state codep bs)"

definition utf8_decode :: "bytes \<Rightarrow> nat \<Rightarrow> int \<times> nat" where
  "utf8_decode buf offset =
     (if offset \<ge> length buf then (0, offset)
      else utf8_decode_loop offset offset UTF8_ACCEPT 0 (drop offset buf))"

definition ucs2_encode :: "int \<Rightarrow> u16" where
  "ucs2_encode codep =
     (if codep \<ge> 0 \<and> codep \<le> 0xd7ff then word_of_int codep
      else if codep \<ge> 0xe000 \<and> codep \<le> 0xffff then word_of_int codep
      else 0xfffd)"

lemma utf8_decode_loop_advances:
  assumes "start \<le> pos" and "bs \<noteq> []"
  shows "start < snd (utf8_decode_loop start pos state codep bs)"
    and "snd (utf8_decode_loop start pos state codep bs) \<le> pos + length bs"
  using assms
proof (induction bs arbitrary: pos state codep)
  case (Cons b bs)
  {
    case 1
    with Cons.IH(1) [of "Suc pos"] show ?case
      by (cases "bs = []") (auto simp: split_def Let_def)
  next
    case 2
    with Cons.IH(2) [of "Suc pos"] show ?case
      by (cases "bs = []") (fastforce simp: split_def Let_def)+
  }
qed auto

lemma utf8_decode_advances:
  assumes "offset < length buf"
  shows "offset < snd (utf8_decode buf offset)" and "snd (utf8_decode buf offset) \<le> length buf"
  using assms utf8_decode_loop_advances [of offset offset "drop offset buf"]
  by (auto simp: utf8_decode_def)

text \<open>The loop of \<open>__utf8_num_code_points\<close>; \<open>pos\<close> never exceeds the length of the buffer.\<close>

function num_code_points :: "bytes \<Rightarrow> bool \<Rightarrow> nat \<Rightarrow> nat \<Rightarrow> nat" where
  "num_code_points buf stop_at_null pos cnt =
     (if pos \<ge> length buf then cnt
      else
        (let (codep, pos) = utf8_decode buf pos
         in if stop_at_null \<and> codep = 0 then cnt else num_code_points buf stop_at_null pos (cnt + 1)))"
  by pat_completeness auto
termination
proof (relation "measure (\<lambda>(buf, _, pos, _). length buf - pos)", goal_cases)
  case (2 buf stop pos cnt x codep pos')
  then have "pos < pos'" using utf8_decode_advances(1) [of pos buf] by (metis not_le snd_conv)
  with 2 show ?case by simp
qed simp

declare num_code_points.simps [simp del]

definition utf8_num_code_points :: "bytes \<Rightarrow> bool \<Rightarrow> nat" where
  "utf8_num_code_points buf stop_at_null = num_code_points buf stop_at_null 0 0"

text \<open>The characters written and the final offset.\<close>

fun utf8_to_ucs2_loop :: "nat \<Rightarrow> bytes \<Rightarrow> nat \<Rightarrow> u16 list \<times> nat" where
  "utf8_to_ucs2_loop 0 buf offset = ([], offset)"
| "utf8_to_ucs2_loop (Suc outcount) buf offset =
     (let (codep, offset) = utf8_decode buf offset
      in if codep = 0 then ([], offset)
         else (let (out, offset) = utf8_to_ucs2_loop outcount buf offset in (ucs2_encode codep # out, offset)))"

definition utf8_to_ucs2 :: "nat \<Rightarrow> bytes \<Rightarrow> nat \<Rightarrow> u16 list \<times> nat" where
  "utf8_to_ucs2 outcount buf offset =
     (if offset \<ge> length buf then ([], offset) else utf8_to_ucs2_loop outcount buf offset)"

datatype pdu_error = ENOMEM | EINVAL | Invalid_number

definition big_endian :: "u16 \<Rightarrow> bytes" where
  "big_endian w = [ucast (drop_bit 8 w), ucast w]"

definition allocated :: "(nat \<Rightarrow> bool) \<Rightarrow> nat \<Rightarrow> bool" where
  "allocated avail n \<longleftrightarrow> 1 \<le> n \<and> avail n"

definition ubmodem_utf8_to_pdu :: "(nat \<Rightarrow> bool) \<Rightarrow> bytes \<Rightarrow> pdu_error + bytes" where
  "ubmodem_utf8_to_pdu avail message =
     (let mesgchars = utf8_num_code_points message True
      in if \<not> allocated avail (2 * mesgchars) then Inl ENOMEM
         else
           (let (ucs2, pos) = utf8_to_ucs2 mesgchars message 0
            in if length ucs2 \<noteq> mesgchars \<or> pos \<noteq> length message then Inl EINVAL
               else Inr (concat (map big_endian ucs2))))"

section \<open>Hexadecimal output\<close>

definition tohex :: "int \<Rightarrow> int" where
  "tohex value = value + (if value > 9 then 65 - 10 else 48)"

text \<open>\<open>pdubuf\<close> is NULL in the pass that only counts.\<close>

definition push_pdu_char :: "bytes option \<Rightarrow> nat \<Rightarrow> u8 \<Rightarrow> (bytes option \<times> nat) option" where
  "push_pdu_char pdubuf pos value =
     (case pdubuf of
        None \<Rightarrow> Some (None, pos + 2)
      | Some buf \<Rightarrow>
          if pos + 1 < length buf
          then Some (Some (buf[pos := word_of_int (tohex (uint (drop_bit 4 value AND 0xF))),
                  Suc pos := word_of_int (tohex (uint (value AND 0xF)))]), pos + 2)
          else None)"

definition fromhex :: "u8 \<Rightarrow> u8 \<Rightarrow> u8" where
  "fromhex h0 h1 =
     (let num0 = h0 - (if h0 > 57 then 65 - 10 else 48) :: u8;
          num1 = h1 - (if h1 > 57 then 65 - 10 else 48) :: u8
      in word_of_int (uint num0 * 16 + uint num1))"

section \<open>Phone numbers\<close>

definition skip_char :: "u8 \<Rightarrow> bool" where
  "skip_char c \<longleftrightarrow> isspace c \<or> c = 45"

text \<open>The first loop: count the digits, or fail at a character that is neither digit nor filler.\<close>

fun count_digits :: "bytes \<Rightarrow> nat \<Rightarrow> nat option" where
  "count_digits [] n = Some n"
| "count_digits (c # cs) n =
     (if skip_char c then count_digits cs n
      else if c < 48 \<or> c > 57 then None
      else count_digits cs (n + 1))"

text \<open>The second loop, on (buffer, position, number of digits seen, last even digit).\<close>

fun pack_digits :: "bytes \<Rightarrow> bytes \<Rightarrow> nat \<Rightarrow> nat \<Rightarrow> u8 \<Rightarrow> (bytes \<times> nat \<times> u8) option" where
  "pack_digits [] pdu pos currnum prev = Some (pdu, pos, prev)"
| "pack_digits (c # cs) pdu pos currnum prev =
     (if skip_char c then pack_digits cs pdu pos currnum prev
      else if even currnum then pack_digits cs pdu pos (currnum + 1) (c - 48)
      else if pos < length pdu
      then pack_digits cs (pdu[pos := push_bit 4 (c - 48) OR prev]) (pos + 1) (currnum + 1) prev
      else None)"

definition ubmodem_address_to_pdu :: "(nat \<Rightarrow> bool) \<Rightarrow> bytes \<Rightarrow> (pdu_error + bytes) option" where
  "ubmodem_address_to_pdu avail address =
     (if address = [] then Some (Inr [])
      else
        (let is_inter = (hd address = 43);
             rest = (if is_inter then tl address else address)
         in case count_digits rest 0 of
              None \<Rightarrow> Some (Inl Invalid_number)
            | Some numcount \<Rightarrow>
                (let pdulen = 1 + (numcount + 1) div 2
                 in if \<not> allocated avail pdulen then Some (Inl ENOMEM)
                    else
                      (case pack_digits rest ((replicate pdulen 0)[0 := if is_inter then 0x91 else 0x81]) 1 0 0 of
                         None \<Rightarrow> None
                       | Some (pdu, pos, prev) \<Rightarrow>
                           if odd numcount
                           then (if pos < length pdu \<and> pos + 1 = pdulen
                                 then Some (Inr (pdu[pos := 0xF0 OR prev])) else None)
                           else (if pos = pdulen then Some (Inr pdu) else None)))))"

section \<open>Concatenated messages\<close>

record multipdu_iter_s =
  msg_pos :: nat
  part_pos :: u8
  part_count :: u8
  ref_num :: u8

definition part_count_of :: "nat \<Rightarrow> nat" where
  "part_count_of msg_pdulen =
     (if msg_pdulen \<le> 70 * 2 then 1
      else msg_pdulen div (67 * 2) + (if msg_pdulen mod (67 * 2) \<noteq> 0 then 1 else 0))"

definition ubmodem_pdu_multipart_iterator_init :: "nat \<Rightarrow> u8 \<Rightarrow> multipdu_iter_s option" where
  "ubmodem_pdu_multipart_iterator_init msg_pdulen ref =
     (if part_count_of msg_pdulen > 0xff then None
      else Some \<lparr>msg_pos = 0, part_pos = 0, part_count = word_of_nat (part_count_of msg_pdulen), ref_num = ref\<rparr>)"

text \<open>The octets pushed by one pass, in order.\<close>

definition pdu_octets :: "bytes \<Rightarrow> bytes \<Rightarrow> multipdu_iter_s \<Rightarrow> bytes" where
  "pdu_octets recv_pdu part iter =
     (let multipart = part_count iter > 1
      in [0x00, (if multipart then 0x01 OR 0x40 else 0x01), 0x00, word_of_int ((int (length recv_pdu) - 1) * 2)]
         @ recv_pdu @ [0x00, 0x08]
         @ (if multipart
            then [word_of_nat (length part + 6), 0x05, 0x00, 0x03, ref_num iter, part_count iter, part_pos iter + 1]
            else [word_of_nat (length part)])
         @ part)"

fun push_pdu_chars :: "bytes option \<Rightarrow> nat \<Rightarrow> bytes \<Rightarrow> (bytes option \<times> nat) option" where
  "push_pdu_chars pdu pos [] = Some (pdu, pos)"
| "push_pdu_chars pdu pos (v # vs) =
     (case push_pdu_char pdu pos v of None \<Rightarrow> None | Some (pdu, pos) \<Rightarrow> push_pdu_chars pdu pos vs)"

text \<open>The message part that the iterator is at.\<close>

definition current_part :: "bytes \<Rightarrow> multipdu_iter_s \<Rightarrow> bytes" where
  "current_part msg_pdu iter =
     (let rest = drop (msg_pos iter) msg_pdu
      in if part_count iter > 1 then take (67 * 2) rest else rest)"

text \<open>
  A first pass without a buffer computes the length, a second pass fills the allocated buffer; the
  terminating NUL is stored behind it. The result \<open>Inr []\<close> with an unchanged iterator is the code's
  \<open>*pduout = NULL\<close>.
\<close>

definition ubmodem_prepare_pdu_string ::
  "(nat \<Rightarrow> bool) \<Rightarrow> bytes \<Rightarrow> bytes \<Rightarrow> multipdu_iter_s \<Rightarrow> ((pdu_error + bytes) \<times> multipdu_iter_s) option" where
  "ubmodem_prepare_pdu_string avail recv_pdu msg_pdu iter =
     (let part = current_part msg_pdu iter;
          octets = pdu_octets recv_pdu part iter
      in if part = [] then Some (Inr [], iter)
         else if part_pos iter = part_count iter then Some (Inr [], iter)
         else
           (case push_pdu_chars None 0 octets of
              None \<Rightarrow> None
            | Some (_, pdulen) \<Rightarrow>
                if \<not> allocated avail (pdulen + 1) then Some (Inl ENOMEM, iter)
                else
                  (case push_pdu_chars (Some (replicate (pdulen + 1) 0)) 0 octets of
                     None \<Rightarrow> None
                   | Some (None, _) \<Rightarrow> None
                   | Some (Some pdu, pos) \<Rightarrow>
                       if pos < length pdu
                       then Some (Inr (take pdulen (pdu[pos := 0])),
                                  iter\<lparr>msg_pos := msg_pos iter + length part, part_pos := part_pos iter + 1\<rparr>)
                       else None)))"

definition ubmodem_get_pdu_smsc_len :: "bytes \<Rightarrow> nat" where
  "ubmodem_get_pdu_smsc_len pduhex = 1 + unat (fromhex (char_at pduhex 0) (char_at pduhex 1))"

text \<open>The caller's loop: prepare parts until nothing is left.\<close>

fun prepare_all :: "nat \<Rightarrow> (nat \<Rightarrow> bool) \<Rightarrow> bytes \<Rightarrow> bytes \<Rightarrow> multipdu_iter_s \<Rightarrow> bytes list option" where
  "prepare_all 0 avail recv msg iter = None"
| "prepare_all (Suc fuel) avail recv msg iter =
     (case ubmodem_prepare_pdu_string avail recv msg iter of
        None \<Rightarrow> None
      | Some (Inl _, _) \<Rightarrow> None
      | Some (Inr pdu, iter') \<Rightarrow>
          if pdu = [] then Some [] else map_option (Cons pdu) (prepare_all fuel avail recv msg iter'))"

section \<open>Hexadecimal strings\<close>

definition hex_octet :: "u8 \<Rightarrow> bytes" where
  "hex_octet v = [word_of_int (tohex (uint (drop_bit 4 v AND 0xF))), word_of_int (tohex (uint (v AND 0xF)))]"

definition hex_string :: "bytes \<Rightarrow> bytes" where
  "hex_string vs = concat (map hex_octet vs)"

definition overwrite :: "'a list \<Rightarrow> nat \<Rightarrow> 'a list \<Rightarrow> 'a list" where
  "overwrite xs pos ys = take pos xs @ ys @ drop (pos + length ys) xs"

lemma overwrite_Nil [simp]: "overwrite xs pos [] = xs"
  by (simp add: overwrite_def)

lemma length_overwrite: "pos + length ys \<le> length xs \<Longrightarrow> length (overwrite xs pos ys) = length xs"
  by (simp add: overwrite_def)

lemma overwrite_update:
  assumes "pos < length xs"
  shows "overwrite (xs[pos := y]) (Suc pos) ys = overwrite xs pos (y # ys)"
  using assms by (simp add: overwrite_def)

lemma push_pdu_chars_count: "push_pdu_chars None pos vs = Some (None, pos + 2 * length vs)"
  by (induction vs arbitrary: pos) (simp_all add: push_pdu_char_def)

lemma push_pdu_chars_fill:
  assumes "pos + 2 * length vs < length buf"
  shows "push_pdu_chars (Some buf) pos vs = Some (Some (overwrite buf pos (hex_string vs)), pos + 2 * length vs)"
  using assms
proof (induction vs arbitrary: buf pos)
  case Nil
  then show ?case by (simp add: hex_string_def)
next
  case (Cons v vs)
  let ?h = "hex_octet v"
  have h: "hex_string (v # vs) = ?h ! 0 # ?h ! 1 # hex_string vs" by (simp add: hex_octet_def hex_string_def)
  have "overwrite (buf[pos := ?h ! 0, Suc pos := ?h ! 1]) (pos + 2) (hex_string vs) =
      overwrite buf pos (?h ! 0 # ?h ! 1 # hex_string vs)"
    using Cons.prems by (simp add: overwrite_update numeral_2_eq_2 flip: overwrite_update)
  moreover have "push_pdu_char (Some buf) pos v = Some (Some (buf[pos := ?h ! 0, Suc pos := ?h ! 1]), pos + 2)"
    using Cons.prems by (simp add: push_pdu_char_def hex_octet_def)
  ultimately show ?case
    using Cons.IH [of "pos + 2" "buf[pos := ?h ! 0, Suc pos := ?h ! 1]"] Cons.prems
    unfolding h by simp
qed

lemma length_hex_string [simp]: "length (hex_string vs) = 2 * length vs"
  by (induction vs) (simp_all add: hex_string_def hex_octet_def)

lemma fromhex_hex_octet: "fromhex (hex_octet v ! 0) (hex_octet v ! 1) = v"
proof (rule u8_cases)
  show "list_all (\<lambda>v. fromhex (hex_octet v ! 0) (hex_octet v ! 1) = v) (map word_of_nat [0..<256])"
    by code_simp
qed

section \<open>Concatenated messages carry the message\<close>

lemma take_overwrite_all: "length ys = n \<Longrightarrow> n \<le> length xs \<Longrightarrow> take n (overwrite xs 0 ys) = ys"
  by (simp add: overwrite_def)

lemma prepare_pdu_string_some:
  assumes "current_part msg iter \<noteq> []" and "part_pos iter \<noteq> part_count iter" and "\<forall>n. avail n"
  shows "ubmodem_prepare_pdu_string avail recv msg iter =
    Some (Inr (hex_string (pdu_octets recv (current_part msg iter) iter)),
      iter\<lparr>msg_pos := msg_pos iter + length (current_part msg iter), part_pos := part_pos iter + 1\<rparr>)"
proof -
  let ?o = "pdu_octets recv (current_part msg iter) iter"
  let ?b = "replicate (2 * length ?o + 1) (0 :: u8)"
  have c: "push_pdu_chars None 0 ?o = Some (None, 2 * length ?o)" by (simp add: push_pdu_chars_count)
  have f: "push_pdu_chars (Some ?b) 0 ?o = Some (Some (overwrite ?b 0 (hex_string ?o)), 2 * length ?o)"
    using push_pdu_chars_fill [of 0 ?o ?b] by simp
  have l: "length (overwrite ?b 0 (hex_string ?o)) = 2 * length ?o + 1" by (subst length_overwrite) simp_all
  have t: "take (2 * length ?o) ((overwrite ?b 0 (hex_string ?o))[2 * length ?o := 0]) = hex_string ?o"
    by (simp add: take_overwrite_all)
  show ?thesis
    using assms
    by (simp only: ubmodem_prepare_pdu_string_def Let_def c f option.case prod.case allocated_def l t) simp
qed

text \<open>The parts of a message of more than one part.\<close>

function message_parts :: "bytes \<Rightarrow> bytes list" where
  "message_parts msg = (if msg = [] then [] else take 134 msg # message_parts (drop 134 msg))"
  by pat_completeness auto
termination by (relation "measure length") auto

declare message_parts.simps [simp del]

lemma concat_message_parts: "concat (message_parts msg) = msg"
proof (induction msg rule: message_parts.induct)
  case (1 msg)
  then show ?case by (subst message_parts.simps) simp
qed

lemma message_parts_length:
  "length (message_parts msg) = length msg div 134 + (if length msg mod 134 \<noteq> 0 then 1 else 0)"
proof (induction msg rule: message_parts.induct)
  case (1 msg)
  show ?case
  proof (cases "msg = []")
    case True
    then show ?thesis by (simp add: message_parts.simps)
  next
    case False
    show ?thesis
    proof (cases "length msg < 134")
      case True
      then have "drop 134 msg = []" by simp
      with False True show ?thesis by (subst message_parts.simps) (simp add: message_parts.simps [of "[]"])
    next
      case big: False
      then have "length msg div 134 = Suc ((length msg - 134) div 134)" "length msg mod 134 = (length msg - 134) mod 134"
        by (simp_all add: le_div_geq le_mod_geq)
      with False 1 show ?thesis by (subst message_parts.simps) simp
    qed
  qed
qed

lemma message_parts_bounds: "part \<in> set (message_parts msg) \<Longrightarrow> part \<noteq> [] \<and> length part \<le> 134"
proof (induction msg rule: message_parts.induct)
  case (1 msg)
  then show ?case by (subst (asm) message_parts.simps) (auto split: if_splits)
qed

lemma numbered_pdus:
  assumes "1 < nparts" and "k + length (message_parts rest) = nparts" and "nparts \<le> 255"
    and "drop pos msg = rest" and "\<forall>n. avail n"
    and "iter = \<lparr>msg_pos = pos, part_pos = word_of_nat k, part_count = word_of_nat nparts, ref_num = ref\<rparr>"
    and "length (message_parts rest) < fuel"
  shows "prepare_all fuel avail recv msg iter =
    Some (map (\<lambda>(i, part). hex_string (pdu_octets recv part
        \<lparr>msg_pos = 0, part_pos = word_of_nat i, part_count = word_of_nat nparts, ref_num = ref\<rparr>))
      (zip [k..<nparts] (message_parts rest)))"
  using assms
proof (induction fuel arbitrary: k rest pos iter)
  case 0
  then show ?case by simp
next
  case (Suc fuel)
  have multi: "1 < (word_of_nat nparts :: u8)"
    using Suc.prems(1,3) by (simp add: word_less_nat_alt unsigned_of_nat take_bit_nat_eq_self)
  have part: "current_part msg iter = take 134 rest"
    using Suc.prems(4,6) multi by (simp add: current_part_def)
  show ?case
  proof (cases "rest = []")
    case True
    then have "message_parts rest = []" by (subst message_parts.simps) simp
    with True part show ?thesis by (simp add: ubmodem_prepare_pdu_string_def)
  next
    case False
    then have mp: "message_parts rest = take 134 rest # message_parts (drop 134 rest)"
      by (subst message_parts.simps) simp
    then have k: "k < nparts" using Suc.prems(2) by simp
    have "(word_of_nat k :: u8) \<noteq> word_of_nat nparts"
      using k Suc.prems(3) by (simp add: word_of_nat_eq_iff take_bit_nat_eq_self)
    then have step: "ubmodem_prepare_pdu_string avail recv msg iter =
      Some (Inr (hex_string (pdu_octets recv (take 134 rest) iter)),
        iter\<lparr>msg_pos := pos + length (take 134 rest), part_pos := word_of_nat (Suc k)\<rparr>)"
      using prepare_pdu_string_some [of msg iter avail recv] part False Suc.prems(5,6) by (simp add: add.commute)
    let ?iter = "iter\<lparr>msg_pos := pos + length (take 134 rest), part_pos := word_of_nat (Suc k)\<rparr>"
    have "drop (pos + length (take 134 rest)) msg = drop 134 rest"
      using Suc.prems(4) by (cases "length rest \<le> 134") (auto simp: min_def add.commute)
    then have ih: "prepare_all fuel avail recv msg ?iter = Some (map (\<lambda>(i, part). hex_string (pdu_octets recv part
        \<lparr>msg_pos = 0, part_pos = word_of_nat i, part_count = word_of_nat nparts, ref_num = ref\<rparr>))
      (zip [Suc k..<nparts] (message_parts (drop 134 rest))))"
      using Suc.prems mp by (intro Suc.IH) simp_all
    have ne: "hex_string (pdu_octets recv (take 134 rest) iter) \<noteq> []"
      by (simp add: hex_string_def pdu_octets_def Let_def hex_octet_def)
    have oct: "pdu_octets recv (take 134 rest) iter = pdu_octets recv (take 134 rest)
        \<lparr>msg_pos = 0, part_pos = word_of_nat k, part_count = word_of_nat nparts, ref_num = ref\<rparr>"
      using Suc.prems(6) by (simp add: pdu_octets_def Let_def)
    show ?thesis
      using step ih ne oct mp upt_conv_Cons [OF k] by simp
  qed
qed

lemma part_count_message_parts:
  assumes "140 < length msg"
  shows "part_count_of (length msg) = length (message_parts msg)" and "1 < length (message_parts msg)"
proof -
  show "part_count_of (length msg) = length (message_parts msg)"
    using assms by (simp add: part_count_of_def message_parts_length)
  have "134 < length msg" using assms by simp
  then show "1 < length (message_parts msg)"
  proof (cases "length msg div 134 = 1")
    case True
    with \<open>134 < length msg\<close> have "length msg mod 134 \<noteq> 0" using div_mult_mod_eq [of "length msg" 134] by linarith
    with True show ?thesis by (simp add: message_parts_length)
  next
    case False
    moreover have "1 \<le> length msg div 134" using \<open>134 < length msg\<close> by (simp add: le_div_geq)
    ultimately show ?thesis by (simp add: message_parts_length)
  qed
qed

lemma prepare_all_multipart:
  assumes "140 < length msg" and "ubmodem_pdu_multipart_iterator_init (length msg) ref = Some iter" and "\<forall>n. avail n"
    and "length (message_parts msg) < fuel"
  shows "prepare_all fuel avail recv msg iter =
    Some (map (\<lambda>(i, part). hex_string (pdu_octets recv part (iter\<lparr>part_pos := word_of_nat i\<rparr>)))
      (zip [0..<length (message_parts msg)] (message_parts msg)))"
proof -
  note pc = part_count_message_parts [OF assms(1)]
  have it: "length (message_parts msg) \<le> 255"
    "iter = \<lparr>msg_pos = 0, part_pos = 0, part_count = word_of_nat (length (message_parts msg)), ref_num = ref\<rparr>"
    using assms(2) pc by (auto simp: ubmodem_pdu_multipart_iterator_init_def split: if_splits)
  then show ?thesis
    using numbered_pdus [OF pc(2), of 0 msg 0 msg avail iter ref fuel recv] assms(3,4) by simp
qed

lemma prepare_all_single:
  assumes "length msg \<le> 140" and "msg \<noteq> []" and "ubmodem_pdu_multipart_iterator_init (length msg) ref = Some iter"
    and "\<forall>n. avail n"
  shows "prepare_all 2 avail recv msg iter = Some [hex_string (pdu_octets recv msg iter)]"
proof -
  have it: "iter = \<lparr>msg_pos = 0, part_pos = 0, part_count = 1, ref_num = ref\<rparr>"
    using assms(1,3) by (simp add: ubmodem_pdu_multipart_iterator_init_def part_count_of_def)
  then have p: "current_part msg iter = msg" by (simp add: current_part_def)
  let ?iter = "iter\<lparr>msg_pos := msg_pos iter + length msg, part_pos := part_pos iter + 1\<rparr>"
  have "ubmodem_prepare_pdu_string avail recv msg iter = Some (Inr (hex_string (pdu_octets recv msg iter)), ?iter)"
    using prepare_pdu_string_some [of msg iter avail recv] p assms(2,4) it by simp
  moreover have "ubmodem_prepare_pdu_string avail recv msg ?iter = Some (Inr [], ?iter)"
    using it by (simp add: ubmodem_prepare_pdu_string_def current_part_def)
  moreover have "hex_string (pdu_octets recv msg iter) \<noteq> []"
    by (simp add: hex_string_def pdu_octets_def Let_def hex_octet_def)
  ultimately show ?thesis by (simp add: numeral_2_eq_2)
qed

section \<open>Phone numbers keep their digits\<close>

text \<open>The digits of an address, and the octets that hold them two by two.\<close>

definition digits_of :: "bytes \<Rightarrow> bytes" where
  "digits_of cs = map (\<lambda>c. c - 48) (filter (\<lambda>c. \<not> skip_char c) cs)"

fun digit_pairs :: "bytes \<Rightarrow> bytes" where
  "digit_pairs (a # b # r) = (push_bit 4 b OR a) # digit_pairs r"
| "digit_pairs _ = []"

definition semi_octets :: "bytes \<Rightarrow> bytes" where
  "semi_octets ds = digit_pairs ds @ (if odd (length ds) then [0xF0 OR last ds] else [])"

text \<open>What a receiver reads from semi-octets: low digit first, 15 is the filler.\<close>

fun read_semi_octets :: "bytes \<Rightarrow> bytes" where
  "read_semi_octets [] = []"
| "read_semi_octets (x # r) =
     (if drop_bit 4 x = 15 then [x AND 15] else (x AND 15) # drop_bit 4 x # read_semi_octets r)"

lemma count_digits_spec:
  "count_digits cs n =
    (if list_all (\<lambda>c. skip_char c \<or> is_digit c) cs then Some (n + length (digits_of cs)) else None)"
  by (induction cs arbitrary: n) (auto simp: digits_of_def is_digit_def not_less)

lemma length_digit_pairs: "length (digit_pairs ds) = length ds div 2"
  by (induction ds rule: digit_pairs.induct) auto

lemma pack_digits_spec:
  assumes "pos + length (pending @ digits_of cs) div 2 \<le> length pdu"
    and "pending = (if even currnum then [] else [prev])"
  shows "\<exists>prev'. pack_digits cs pdu pos currnum prev =
      Some (overwrite pdu pos (digit_pairs (pending @ digits_of cs)), pos + length (pending @ digits_of cs) div 2, prev') \<and>
      (odd (length (pending @ digits_of cs)) \<longrightarrow> prev' = last (pending @ digits_of cs))"
  using assms
proof (induction cs arbitrary: pdu pos currnum prev pending)
  case Nil
  then show ?case by (auto simp: digits_of_def)
next
  case (Cons c cs)
  show ?case
  proof (cases "skip_char c")
    case True
    then have "digits_of (c # cs) = digits_of cs" by (simp add: digits_of_def)
    with True Cons.IH [OF _ Cons.prems(2)] Cons.prems(1) show ?thesis by simp
  next
    case False
    let ?d = "c - 48"
    have d: "digits_of (c # cs) = ?d # digits_of cs" using False by (simp add: digits_of_def)
    show ?thesis
    proof (cases "even currnum")
      case True
      then have "pending = []" using Cons.prems(2) by simp
      with True False d Cons.IH [of pos "[?d]" pdu "currnum + 1" ?d] Cons.prems(1) show ?thesis by simp
    next
      case odd: False
      then have p: "pending = [prev]" using Cons.prems(2) by simp
      then have len: "pos < length pdu" "Suc pos + length (digits_of cs) div 2 \<le> length pdu"
        using Cons.prems(1) d by simp_all
      let ?o = "push_bit 4 ?d OR prev"
      have ow: "overwrite (pdu[pos := ?o]) (Suc pos) xs = overwrite pdu pos (?o # xs)" for xs
        by (rule overwrite_update [OF len(1)])
      from Cons.IH [of "Suc pos" "[]" "pdu[pos := ?o]" "currnum + 1" prev] len(2) odd
      obtain prev' where "pack_digits cs (pdu[pos := ?o]) (Suc pos) (currnum + 1) prev =
          Some (overwrite pdu pos (?o # digit_pairs (digits_of cs)), Suc pos + length (digits_of cs) div 2, prev')"
        "odd (length (digits_of cs)) \<longrightarrow> prev' = last (digits_of cs)"
        by (auto simp: ow)
      with False odd p d len(1) show ?thesis by (cases "digits_of cs = []") auto
    qed
  qed
qed

lemma address_to_pdu_digits:
  assumes "address \<noteq> []" and "\<forall>n. avail n"
    and "rest = (if hd address = 43 then tl address else address)"
    and "list_all (\<lambda>c. skip_char c \<or> is_digit c) rest"
  shows "ubmodem_address_to_pdu avail address =
    Some (Inr ((if hd address = 43 then 0x91 else 0x81) # semi_octets (digits_of rest)))"
proof -
  let ?ds = "digits_of rest" and ?ty = "if hd address = 43 then 0x91 else 0x81 :: u8"
  let ?n = "length ?ds"
  let ?pdulen = "1 + (?n + 1) div 2"
  let ?b = "(replicate ?pdulen 0)[0 := ?ty] :: bytes"
  have cd: "count_digits rest 0 = Some ?n" using assms(4) by (simp add: count_digits_spec)
  have "1 + length ([] @ ?ds) div 2 \<le> length ?b" by simp
  from pack_digits_spec [OF this, of 0 0] obtain prev where
    prev: "pack_digits rest ?b 1 0 0 = Some (overwrite ?b 1 (digit_pairs ?ds), 1 + ?n div 2, prev)"
      "odd ?n \<longrightarrow> prev = last ?ds" by auto
  have ow: "overwrite ?b 1 (digit_pairs ?ds) = ?ty # digit_pairs ?ds @ (if odd ?n then [0] else [])"
    by (auto simp: overwrite_def length_digit_pairs elim!: oddE evenE)
  have up: "(?ty # digit_pairs ?ds @ [0])[1 + ?n div 2 := x] = ?ty # digit_pairs ?ds @ [x]" for x
    using list_update_length [of "digit_pairs ?ds" 0 "[]" x] by (simp add: length_digit_pairs)
  show ?thesis
  proof (cases "odd ?n")
    case True
    then have "(?n + 1) div 2 = 1 + ?n div 2" by (auto elim!: oddE)
    with True prev assms(1-3) cd ow up show ?thesis
      by (simp add: ubmodem_address_to_pdu_def Let_def allocated_def semi_octets_def length_digit_pairs)
  next
    case False
    then have "(?n + 1) div 2 = ?n div 2" by (auto elim!: evenE)
    with False prev assms(1-3) cd ow show ?thesis
      by (simp add: ubmodem_address_to_pdu_def Let_def allocated_def semi_octets_def)
  qed
qed

definition small_digit :: "u8 \<Rightarrow> bool" where
  "small_digit d \<longleftrightarrow> d < 10"

lemma semi_octet_digits:
  assumes "small_digit a" and "small_digit b"
  shows "drop_bit 4 (push_bit 4 b OR a) = b \<and> b \<noteq> 15 \<and> (push_bit 4 b OR a) AND 15 = a \<and>
    drop_bit 4 (0xF0 OR a) = 15 \<and> (0xF0 OR a) AND 15 = a"
proof -
  have "list_all (\<lambda>a. list_all (\<lambda>b. drop_bit 4 (push_bit 4 b OR a) = b \<and> b \<noteq> 15 \<and> (push_bit 4 b OR a) AND 15 = a \<and>
      drop_bit 4 (0xF0 OR a) = 15 \<and> (0xF0 OR a) AND 15 = a) (map word_of_nat [0..<10] :: bytes))
    (map word_of_nat [0..<10] :: bytes)"
    by code_simp
  moreover have "d \<in> set (map word_of_nat [0..<10] :: bytes)" if "small_digit d" for d
  proof -
    have "unat d \<in> {0..<10}" using that by (simp add: small_digit_def word_less_nat_alt)
    then have "word_of_nat (unat d) \<in> set (map word_of_nat [0..<10] :: bytes)"
      unfolding set_map set_upt by (rule imageI)
    then show ?thesis by simp
  qed
  ultimately show ?thesis using assms unfolding list_all_iff by blast
qed

lemma semi_octet_filler: "small_digit a \<Longrightarrow> drop_bit 4 (0xF0 OR a) = 15 \<and> (0xF0 OR a) AND 15 = a"
  using semi_octet_digits [of a a] by blast

lemma digits_of_small:
  assumes "list_all (\<lambda>c. skip_char c \<or> is_digit c) cs"
  shows "list_all small_digit (digits_of cs)"
proof -
  have "small_digit (c - 48)" if "is_digit c" for c
  proof -
    have "48 \<le> unat c" "unat c \<le> 57" using that by (simp_all add: is_digit_def word_le_nat_alt)
    moreover have "unat (c - 48) = unat c - 48" using that by (simp add: is_digit_def unat_sub)
    ultimately show ?thesis by (simp add: small_digit_def word_less_nat_alt)
  qed
  with assms show ?thesis by (auto simp: digits_of_def list_all_iff)
qed

lemma read_semi_octets_inverse:
  assumes "list_all small_digit ds"
  shows "read_semi_octets (semi_octets ds) = ds"
  using assms
proof (induction ds rule: digit_pairs.induct)
  case (1 a b r)
  with semi_octet_digits [of a b] show ?case by (auto simp: semi_octets_def)
qed (auto simp: semi_octets_def dest: semi_octet_filler)

section \<open>UTF-8 decoding inverts encoding\<close>

text \<open>The reference encoding (RFC 3629) of a code point.\<close>

definition utf8_encode :: "nat \<Rightarrow> bytes" where
  "utf8_encode cp =
     map word_of_nat
       (if cp < 0x80 then [cp]
        else if cp < 0x800 then [0xC0 + cp div 64, 0x80 + cp mod 64]
        else if cp < 0x10000 then [0xE0 + cp div 4096, 0x80 + cp div 64 mod 64, 0x80 + cp mod 64]
        else [0xF0 + cp div 262144, 0x80 + cp div 4096 mod 64, 0x80 + cp div 64 mod 64, 0x80 + cp mod 64])"

definition scalar_value :: "nat \<Rightarrow> bool" where
  "scalar_value cp \<longleftrightarrow> 0 < cp \<and> cp \<le> 0x10FFFF \<and> \<not> (0xD800 \<le> cp \<and> cp \<le> 0xDFFF)"

text \<open>The byte classes of the table.\<close>

definition byte_class :: "nat \<Rightarrow> nat" where
  "byte_class b =
     (if b < 0x80 then 0 else if b < 0x90 then 1 else if b < 0xA0 then 9 else if b < 0xC0 then 7
      else if b < 0xC2 then 8 else if b < 0xE0 then 2 else if b = 0xE0 then 10 else if b = 0xED then 4
      else if b < 0xF0 then 3 else if b = 0xF0 then 11 else if b < 0xF4 then 6 else if b = 0xF4 then 5 else 8)"

lemma utf8d_class:
  assumes "b < 256"
  shows "utf8d ! b = byte_class b"
proof -
  have "list_all (\<lambda>b. utf8d ! b = byte_class b) [0..<256]" by code_simp
  with assms show ?thesis by (simp add: list_all_iff)
qed

lemma utf8d_states:
  "utf8d ! 256 = 0" "utf8d ! 258 = 2" "utf8d ! 259 = 3" "utf8d ! 260 = 5" "utf8d ! 261 = 8" "utf8d ! 262 = 7"
  "utf8d ! 266 = 4" "utf8d ! 267 = 6"
  "utf8d ! 289 = 0" "utf8d ! 295 = 0" "utf8d ! 297 = 0"
  "utf8d ! 305 = 2" "utf8d ! 311 = 2" "utf8d ! 313 = 2"
  "utf8d ! 327 = 2" "utf8d ! 337 = 2" "utf8d ! 345 = 2"
  "utf8d ! 359 = 3" "utf8d ! 361 = 3"
  "utf8d ! 369 = 3" "utf8d ! 375 = 3" "utf8d ! 377 = 3" "utf8d ! 385 = 3"
  by code_simp+

text \<open>One decoding step in natural numbers.\<close>

lemma take_bit_u32_of_nat: "take_bit k (word_of_nat b :: u32) = word_of_nat (b mod 2 ^ k)"
  by (rule bit_word_eqI) (simp add: bit_simps flip: take_bit_eq_mod)

lemma decode_first:
  assumes "b < 256" and "(255 :: nat) div 2 ^ byte_class b = 2 ^ k - 1"
  shows "decode 0 c (word_of_nat b) = (word_of_nat (utf8d ! (256 + byte_class b)), word_of_nat (b mod 2 ^ k))"
proof -
  have u: "unat (word_of_nat b :: u32) = b" using assms(1) by (simp add: unsigned_of_nat take_bit_nat_eq_self)
  have "list_all (\<lambda>n. (drop_bit n 255 :: u32) = word_of_nat (255 div 2 ^ n)) [0..<12]" by code_simp
  moreover have "byte_class b < 12" by (simp add: byte_class_def)
  ultimately have "(drop_bit (byte_class b) 255 :: u32) = word_of_nat (255 div 2 ^ byte_class b)"
    by (simp add: list_all_iff)
  also have "\<dots> = mask k" using assms(2) by (simp add: mask_eq_exp_minus_1 of_nat_diff)
  finally have "(drop_bit (byte_class b) 255 :: u32) AND word_of_nat b = take_bit k (word_of_nat b)"
    by (simp add: take_bit_eq_mask ac_simps)
  also have "\<dots> = word_of_nat (b mod 2 ^ k)" by (rule take_bit_u32_of_nat)
  finally show ?thesis using assms(1) by (simp add: decode_def u utf8d_class)
qed

lemma decode_next:
  assumes "b < 256" and "0 < s" and "s \<le> 8" and "c < 67108864"
  shows "decode (word_of_nat s) (word_of_nat c) (word_of_nat b) =
    (word_of_nat (utf8d ! (256 + s * 16 + byte_class b)), word_of_nat (c * 64 + b mod 64))"
proof -
  have u: "unat (word_of_nat b :: u32) = b" "unat (word_of_nat s :: u32) = s"
    using assms(1,3) by (simp_all add: unsigned_of_nat take_bit_nat_eq_self)
  have z: "(word_of_nat s :: u32) \<noteq> 0" using assms(2) u(2) by force
  have "(63 :: u32) = mask 6" by (simp add: mask_eq_exp_minus_1)
  then have lo: "(word_of_nat b AND 0x3f :: u32) = take_bit 6 (word_of_nat b)" by (simp add: take_bit_eq_mask)
  have "take_bit 6 (word_of_nat b) OR push_bit 6 (word_of_nat c) = take_bit 6 (word_of_nat b) + push_bit 6 (word_of_nat c :: u32)"
    by (rule disjunctive_add [symmetric]) (auto simp: bit_simps)
  then have sum: "take_bit 6 (word_of_nat b) OR push_bit 6 (word_of_nat c :: u32) = word_of_nat (c * 64 + b mod 64)"
    using take_bit_u32_of_nat [of 6 b] by (simp add: push_bit_eq_mult)
  show ?thesis
    using z assms(1) unfolding decode_def Let_def lo sum by (simp add: u utf8d_class)
qed

lemma sint_small: "c < 2147483648 \<Longrightarrow> sint (word_of_nat c :: u32) = int c"
  by (simp add: signed_of_nat signed_take_bit_int_eq_self)

text \<open>The decoder on the four shapes of a sequence.\<close>

lemma word_small_neq:
  "(word_of_nat 2 :: u32) \<noteq> 0" "(word_of_nat 2 :: u32) \<noteq> 1" "(word_of_nat 3 :: u32) \<noteq> 0" "(word_of_nat 3 :: u32) \<noteq> 1"
  "(word_of_nat 4 :: u32) \<noteq> 0" "(word_of_nat 4 :: u32) \<noteq> 1" "(word_of_nat 5 :: u32) \<noteq> 0" "(word_of_nat 5 :: u32) \<noteq> 1"
  "(word_of_nat 6 :: u32) \<noteq> 0" "(word_of_nat 6 :: u32) \<noteq> 1" "(word_of_nat 7 :: u32) \<noteq> 0" "(word_of_nat 7 :: u32) \<noteq> 1"
  "(word_of_nat 8 :: u32) \<noteq> 0" "(word_of_nat 8 :: u32) \<noteq> 1"
  by simp_all

definition continuation :: "nat \<Rightarrow> bool" where
  "continuation b \<longleftrightarrow> 0x80 \<le> b \<and> b < 0xC0"

lemma loop_last:
  assumes "continuation b" and "c < 2097152"
  shows "utf8_decode_loop start pos (word_of_nat 2) (word_of_nat c) (word_of_nat b # rest) =
    (int (c * 64 + b mod 64), Suc pos)"
proof -
  have b: "b < 256" using assms(1) by (simp add: continuation_def)
  have "utf8d ! (256 + 2 * 16 + byte_class b) = 0"
    using assms(1) by (auto simp: continuation_def byte_class_def utf8d_states)
  moreover have "c * 64 + b mod 64 < 2147483648"
    using assms(2) mod_less_divisor [of 64 b] by linarith
  moreover have "ucast (word_of_nat b :: u8) = (word_of_nat b :: u32)"
    using b by (intro word_unat_eq_iff [THEN iffD2]) (simp add: unsigned_of_nat take_bit_nat_eq_self)
  ultimately show ?thesis
    using decode_next [OF b, of 2 c] assms(2) sint_small [of "c * 64 + b mod 64"]
    by (simp del: of_nat_numeral of_nat_add of_nat_mult)
qed

lemma ucast_byte: "b < 256 \<Longrightarrow> ucast (word_of_nat b :: u8) = (word_of_nat b :: u32)"
  by (intro word_unat_eq_iff [THEN iffD2]) (simp add: unsigned_of_nat take_bit_nat_eq_self)

lemma loop_next:
  assumes "b < 256" and "0 < s" and "s \<le> 8" and "c < 67108864"
    and "utf8d ! (256 + s * 16 + byte_class b) = s'" and "s' \<in> {2, 3}"
  shows "utf8_decode_loop start pos (word_of_nat s) (word_of_nat c) (word_of_nat b # rest) =
    utf8_decode_loop start (Suc pos) (word_of_nat s') (word_of_nat (c * 64 + b mod 64)) rest"
  using decode_next [OF assms(1-4)] assms(5,6) word_small_neq
  by (auto simp: ucast_byte [OF assms(1)] simp del: of_nat_numeral of_nat_add of_nat_mult)

lemma loop_first:
  assumes "b < 256" and "(255 :: nat) div 2 ^ byte_class b = 2 ^ k - 1"
    and "utf8d ! (256 + byte_class b) = s'" and "s' \<in> {2, 3, 4, 5, 6, 7, 8}"
  shows "utf8_decode_loop start pos 0 c (word_of_nat b # rest) =
    utf8_decode_loop start (Suc pos) (word_of_nat s') (word_of_nat (b mod 2 ^ k)) rest"
  using decode_first [OF assms(1,2)] assms(3,4) word_small_neq
  by (auto simp: ucast_byte [OF assms(1)] simp del: of_nat_numeral)

lemma decode_two_bytes:
  assumes "2 \<le> q" "q < 32" "r < 64"
  shows "utf8_decode_loop start pos 0 0 (word_of_nat (0xC0 + q) # word_of_nat (0x80 + r) # rest) = (int (q * 64 + r), pos + 2)"
proof -
  have c: "byte_class (0xC0 + q) = 2" using assms by (simp add: byte_class_def)
  have m: "(0xC0 + q) mod 2 ^ 6 = q" "(0x80 + r) mod 64 = r" using assms by (simp_all add: mod_if)
  have "utf8_decode_loop start pos 0 0 (word_of_nat (0xC0 + q) # word_of_nat (0x80 + r) # rest) =
      utf8_decode_loop start (Suc pos) (word_of_nat 2) (word_of_nat q) (word_of_nat (0x80 + r) # rest)"
    using loop_first [of "0xC0 + q" 6 2 start pos 0 "word_of_nat (0x80 + r) # rest"] assms c m(1)
    by (simp add: utf8d_states del: of_nat_numeral of_nat_add)
  also have "\<dots> = (int (q * 64 + r), pos + 2)"
    using loop_last [of "0x80 + r" q] assms m(2) by (simp add: continuation_def del: of_nat_numeral of_nat_add)
  finally show ?thesis .
qed

lemma decode_three_bytes:
  assumes "p < 16" "q < 64" "r < 64" "p = 0 \<longrightarrow> 32 \<le> q" "p = 13 \<longrightarrow> q < 32"
  shows "utf8_decode_loop start pos 0 0 (word_of_nat (0xE0 + p) # word_of_nat (0x80 + q) # word_of_nat (0x80 + r) # rest) =
    (int ((p * 64 + q) * 64 + r), pos + 3)"
proof -
  define s where "s = (if p = 0 then 4 else if p = 13 then 5 else 3 :: nat)"
  define k where "k = (if p = 0 then 0 else if p = 13 then 4 else 5 :: nat)"
  have "utf8d ! (256 + byte_class (0xE0 + p)) = s" "(255 :: nat) div 2 ^ byte_class (0xE0 + p) = 2 ^ k - 1"
    using assms(1) by (auto simp: byte_class_def s_def k_def utf8d_states)
  moreover have "(0xE0 + p) mod 2 ^ k = p" using assms(1) by (auto simp: k_def mod_if)
  ultimately have 1: "utf8_decode_loop start pos 0 0 (word_of_nat (0xE0 + p) # bs) =
      utf8_decode_loop start (Suc pos) (word_of_nat s) (word_of_nat p) bs" for bs
    using loop_first [of "0xE0 + p" k s start pos 0 bs] assms(1) by (simp add: s_def del: of_nat_numeral of_nat_add)
  have "utf8d ! (256 + s * 16 + byte_class (0x80 + q)) = 2"
    using assms by (auto simp: byte_class_def s_def utf8d_states)
  moreover have m: "(0x80 + q) mod 64 = q" "(0x80 + r) mod 64 = r" using assms by (simp_all add: mod_if)
  ultimately have 2: "utf8_decode_loop start (Suc pos) (word_of_nat s) (word_of_nat p) (word_of_nat (0x80 + q) # bs) =
      utf8_decode_loop start (Suc (Suc pos)) (word_of_nat 2) (word_of_nat (p * 64 + q)) bs" for bs
    using loop_next [of "0x80 + q" s p 2 start "Suc pos" bs] assms by (simp add: s_def del: of_nat_numeral of_nat_add of_nat_mult)
  have "p * 64 + q < 2097152" using assms by linarith
  then have 3: "utf8_decode_loop start (Suc (Suc pos)) (word_of_nat 2) (word_of_nat (p * 64 + q)) (word_of_nat (0x80 + r) # rest) =
      (int ((p * 64 + q) * 64 + r), pos + 3)"
    using loop_last [of "0x80 + r" "p * 64 + q"] assms m(2) by (simp add: continuation_def del: of_nat_numeral of_nat_add of_nat_mult)
  show ?thesis unfolding 1 2 3 ..
qed

lemma decode_four_bytes:
  assumes "o' < 5" "p < 64" "q < 64" "r < 64" "o' = 0 \<longrightarrow> 16 \<le> p" "o' = 4 \<longrightarrow> p < 16"
  shows "utf8_decode_loop start pos 0 0
      (word_of_nat (0xF0 + o') # word_of_nat (0x80 + p) # word_of_nat (0x80 + q) # word_of_nat (0x80 + r) # rest) =
    (int (((o' * 64 + p) * 64 + q) * 64 + r), pos + 4)"
proof -
  define s where "s = (if o' = 0 then 6 else if o' = 4 then 8 else 7 :: nat)"
  define k where "k = (if o' = 0 then 0 else if o' = 4 then 3 else 2 :: nat)"
  have "utf8d ! (256 + byte_class (0xF0 + o')) = s" "(255 :: nat) div 2 ^ byte_class (0xF0 + o') = 2 ^ k - 1"
    using assms(1) by (auto simp: byte_class_def s_def k_def utf8d_states)
  moreover have "(0xF0 + o') mod 2 ^ k = o'" using assms(1) by (auto simp: k_def mod_if)
  ultimately have 1: "utf8_decode_loop start pos 0 0 (word_of_nat (0xF0 + o') # bs) =
      utf8_decode_loop start (Suc pos) (word_of_nat s) (word_of_nat o') bs" for bs
    using loop_first [of "0xF0 + o'" k s start pos 0 bs] assms(1) by (simp add: s_def del: of_nat_numeral of_nat_add)
  have m: "(0x80 + p) mod 64 = p" "(0x80 + q) mod 64 = q" "(0x80 + r) mod 64 = r" using assms by (simp_all add: mod_if)
  have "utf8d ! (256 + s * 16 + byte_class (0x80 + p)) = 3"
    using assms by (auto simp: byte_class_def s_def utf8d_states)
  with m(1) have 2: "utf8_decode_loop start (Suc pos) (word_of_nat s) (word_of_nat o') (word_of_nat (0x80 + p) # bs) =
      utf8_decode_loop start (Suc (Suc pos)) (word_of_nat 3) (word_of_nat (o' * 64 + p)) bs" for bs
    using loop_next [of "0x80 + p" s o' 3 start "Suc pos" bs] assms by (simp add: s_def del: of_nat_numeral of_nat_add of_nat_mult)
  have "utf8d ! (256 + 3 * 16 + byte_class (0x80 + q)) = 2"
    using assms by (auto simp: byte_class_def utf8d_states)
  moreover have "o' * 64 + p < 67108864" using assms by linarith
  ultimately have 3: "utf8_decode_loop start (Suc (Suc pos)) (word_of_nat 3) (word_of_nat (o' * 64 + p)) (word_of_nat (0x80 + q) # bs) =
      utf8_decode_loop start (Suc (Suc (Suc pos))) (word_of_nat 2) (word_of_nat ((o' * 64 + p) * 64 + q)) bs" for bs
    using loop_next [of "0x80 + q" 3 "o' * 64 + p" 2 start "Suc (Suc pos)" bs] assms m(2)
    by (simp del: of_nat_numeral of_nat_add of_nat_mult)
  have "o' * 64 + p \<le> 319" using assms by linarith
  then have "(o' * 64 + p) * 64 \<le> 319 * 64" by (rule mult_le_mono1)
  then have "(o' * 64 + p) * 64 + q < 2097152" using assms(3) by linarith
  then have 4: "utf8_decode_loop start (Suc (Suc (Suc pos))) (word_of_nat 2) (word_of_nat ((o' * 64 + p) * 64 + q)) (word_of_nat (0x80 + r) # rest) =
      (int (((o' * 64 + p) * 64 + q) * 64 + r), pos + 4)"
    using loop_last [of "0x80 + r" "(o' * 64 + p) * 64 + q"] assms m(3)
    by (simp add: continuation_def del: of_nat_numeral of_nat_add of_nat_mult)
  show ?thesis unfolding 1 2 3 4 ..
qed

lemma utf8_decode_loop_encode:
  assumes "scalar_value cp"
  shows "utf8_decode_loop start pos 0 0 (utf8_encode cp @ rest) = (int cp, pos + length (utf8_encode cp))"
proof -
  consider "cp < 0x80" | "0x80 \<le> cp" "cp < 0x800" | "0x800 \<le> cp" "cp < 0x10000" | "0x10000 \<le> cp" by linarith
  then show ?thesis
  proof cases
    case 1
    have "decode 0 0 (word_of_nat cp) = (word_of_nat 0, word_of_nat cp)"
      using decode_first [of cp 8 0] 1 by (simp add: byte_class_def utf8d_states)
    with 1 show ?thesis
      by (simp add: utf8_encode_def ucast_byte sint_small)
  next
    case 2
    have "cp div 64 * 64 + cp mod 64 = cp" by simp
    moreover have "2 \<le> cp div 64" "cp div 64 < 32" using 2 by (simp_all add: div_less_iff_less_mult less_eq_div_iff_mult_less_eq)
    ultimately show ?thesis
      using decode_two_bytes [of "cp div 64" "cp mod 64" start pos rest] 2 by (simp add: utf8_encode_def)
  next
    case 3
    let ?p = "cp div 4096" and ?q = "cp div 64 mod 64" and ?r = "cp mod 64"
    have sum: "?p * 64 + ?q = cp div 64"
      using div_mult_mod_eq [of "cp div 64" 64] by (simp add: div_mult2_eq [symmetric])
    have p: "?p < 16" using 3 by (simp add: div_less_iff_less_mult)
    have "?p = 0 \<longrightarrow> 32 \<le> ?q" using sum 3(1) by (auto simp: less_eq_div_iff_mult_less_eq)
    moreover have "?p = 13 \<longrightarrow> ?q < 32"
    proof
      assume p13: "?p = 13"
      then have "cp < 0xE000" using div_less_iff_less_mult [of 4096 cp 14] by simp
      moreover have "0xD000 \<le> cp" using p13 less_eq_div_iff_mult_less_eq [of 4096 13 cp] by simp
      ultimately have "cp < 0xD800" using assms by (simp add: scalar_value_def)
      then have "cp div 64 < 864" by (simp add: div_less_iff_less_mult)
      with sum p13 show "?q < 32" by simp
    qed
    ultimately have "utf8_decode_loop start pos 0 0
        (word_of_nat (0xE0 + ?p) # word_of_nat (0x80 + ?q) # word_of_nat (0x80 + ?r) # rest) = (int cp, pos + 3)"
      using decode_three_bytes [OF p, of ?q ?r start pos rest] unfolding sum by simp
    with 3 show ?thesis by (simp add: utf8_encode_def)
  next
    case 4
    let ?o = "cp div 262144" and ?p = "cp div 4096 mod 64" and ?q = "cp div 64 mod 64" and ?r = "cp mod 64"
    have s1: "?o * 64 + ?p = cp div 4096"
      using div_mult_mod_eq [of "cp div 4096" 64] by (simp add: div_mult2_eq [symmetric])
    have s2: "cp div 4096 * 64 + ?q = cp div 64"
      using div_mult_mod_eq [of "cp div 64" 64] by (simp add: div_mult2_eq [symmetric])
    have le: "cp \<le> 0x10FFFF" using assms by (simp add: scalar_value_def)
    then have o: "?o < 5" by (simp add: div_less_iff_less_mult)
    have "?o = 0 \<longrightarrow> 16 \<le> ?p" using s1 4 by (auto simp: less_eq_div_iff_mult_less_eq)
    moreover have "?o = 4 \<longrightarrow> ?p < 16"
    proof
      assume "?o = 4"
      moreover have "cp div 4096 < 272" using le by (simp add: div_less_iff_less_mult)
      ultimately show "?p < 16" using s1 by simp
    qed
    ultimately have "utf8_decode_loop start pos 0 0 (word_of_nat (0xF0 + ?o) # word_of_nat (0x80 + ?p) #
        word_of_nat (0x80 + ?q) # word_of_nat (0x80 + ?r) # rest) = (int cp, pos + 4)"
      using decode_four_bytes [OF o, of ?p ?q ?r start pos rest] unfolding s1 s2 by simp
    with 4 show ?thesis by (simp add: utf8_encode_def)
  qed
qed

section \<open>Messages\<close>

lemma utf8_decode_encode:
  assumes "scalar_value cp"
  shows "utf8_decode (pre @ utf8_encode cp @ rest) (length pre) = (int cp, length pre + length (utf8_encode cp))"
proof -
  have "utf8_encode cp \<noteq> []" by (simp add: utf8_encode_def)
  then show ?thesis using utf8_decode_loop_encode [OF assms] by (simp add: utf8_decode_def)
qed

definition utf8_string :: "nat list \<Rightarrow> bytes" where
  "utf8_string cps = concat (map utf8_encode cps)"

lemma num_code_points_utf8:
  assumes "list_all scalar_value cps"
  shows "num_code_points (pre @ utf8_string cps) stop (length pre) n = n + length cps"
  using assms
proof (induction cps arbitrary: pre n)
  case Nil
  then show ?case by (subst num_code_points.simps) (simp add: utf8_string_def)
next
  case (Cons cp cps)
  have ne: "utf8_encode cp \<noteq> []" by (simp add: utf8_encode_def)
  have sv: "scalar_value cp" "0 < cp" using Cons.prems by (simp_all add: scalar_value_def)
  have split: "pre @ utf8_string (cp # cps) = (pre @ utf8_encode cp) @ utf8_string cps" by (simp add: utf8_string_def)
  have "utf8_decode (pre @ utf8_string (cp # cps)) (length pre) = (int cp, length (pre @ utf8_encode cp))"
    using utf8_decode_encode [OF sv(1), of pre "utf8_string cps"] by (simp add: utf8_string_def)
  then have "num_code_points (pre @ utf8_string (cp # cps)) stop (length pre) n =
      num_code_points (pre @ utf8_string (cp # cps)) stop (length (pre @ utf8_encode cp)) (n + 1)"
    using sv(2) ne by (subst num_code_points.simps) (simp add: utf8_string_def)
  also have "\<dots> = n + 1 + length cps"
    unfolding split using Cons.IH [of "pre @ utf8_encode cp" "n + 1"] Cons.prems by simp
  finally show ?case by simp
qed

lemma utf8_to_ucs2_utf8:
  assumes "list_all scalar_value cps"
  shows "utf8_to_ucs2_loop (length cps) (pre @ utf8_string cps) (length pre) =
    (map (\<lambda>cp. ucs2_encode (int cp)) cps, length (pre @ utf8_string cps))"
  using assms
proof (induction cps arbitrary: pre)
  case Nil
  then show ?case by (simp add: utf8_string_def)
next
  case (Cons cp cps)
  have sv: "scalar_value cp" "0 < cp" using Cons.prems by (simp_all add: scalar_value_def)
  have split: "pre @ utf8_string (cp # cps) = (pre @ utf8_encode cp) @ utf8_string cps" by (simp add: utf8_string_def)
  have "utf8_decode (pre @ utf8_string (cp # cps)) (length pre) = (int cp, length (pre @ utf8_encode cp))"
    using utf8_decode_encode [OF sv(1), of pre "utf8_string cps"] by (simp add: utf8_string_def)
  moreover have "utf8_to_ucs2_loop (length cps) (pre @ utf8_string (cp # cps)) (length (pre @ utf8_encode cp)) =
      (map (\<lambda>cp. ucs2_encode (int cp)) cps, length (pre @ utf8_string (cp # cps)))"
    unfolding split using Cons.IH [of "pre @ utf8_encode cp"] Cons.prems by simp
  ultimately show ?case using sv(2) by simp
qed

lemma utf8_to_pdu_utf8:
  assumes "list_all scalar_value cps" and "cps \<noteq> []" and "\<forall>n. avail n"
  shows "ubmodem_utf8_to_pdu avail (utf8_string cps) = Inr (concat (map (\<lambda>cp. big_endian (ucs2_encode (int cp))) cps))"
proof -
  have "utf8_num_code_points (utf8_string cps) True = length cps"
    using num_code_points_utf8 [OF assms(1), of "[]" True 0] by (simp add: utf8_num_code_points_def)
  moreover have "utf8_string cps \<noteq> []" using assms(2) by (cases cps) (simp_all add: utf8_string_def utf8_encode_def)
  ultimately show ?thesis
    using utf8_to_ucs2_utf8 [OF assms(1), of "[]"] assms(2,3)
    by (simp add: ubmodem_utf8_to_pdu_def allocated_def utf8_to_ucs2_def o_def Let_def Suc_le_eq)
qed

end
