(* ===== verification/Sms_Properties.thy ===== *)
theory Sms_Properties
  imports Sms_Pdu
begin

text \<open>
  The properties of the encoding of short messages: text, phone numbers, hexadecimal strings and
  concatenated messages.
\<close>

definition ample :: "nat \<Rightarrow> bool" where "ample n = True"



text \<open>
  A message of at most 140 octets becomes exactly one PDU without a concatenation header.
\<close>

lemma single_message:
  assumes "length msg \<le> 140" and "msg \<noteq> []" and "ubmodem_pdu_multipart_iterator_init (length msg) ref = Some iter"
    and "\<forall>n. avail n"
  shows "prepare_all 2 avail recv msg iter =
    Some [hex_string ([0x00, 0x01, 0x00, word_of_int ((int (length recv) - 1) * 2)] @ recv @ [0x00, 0x08, word_of_nat (length msg)] @ msg)]"
proof -
  have "part_count iter = 1" using assms(1,3)
    by (auto simp: ubmodem_pdu_multipart_iterator_init_def part_count_of_def split: if_splits)
  with prepare_all_single [OF assms] show ?thesis by (simp add: pdu_octets_def)
qed

text \<open>
  The hexadecimal digits written for an octet are read back by \<open>fromhex\<close> as that octet.
\<close>

lemma hex_round_trip: "fromhex (hex_octet v ! 0) (hex_octet v ! 1) = v"
  by (rule fromhex_hex_octet)

text \<open>
  \<open>__ubmodem_address_to_pdu\<close> writes the type of the number and its digits as semi-octets, never
  outside the buffer it allocates; a reader of semi-octets gets exactly the digits back, whatever
  blanks and dashes the number was written with.
\<close>

lemma address_round_trip:
  assumes "address \<noteq> []" and "\<forall>n. avail n"
    and "rest = (if hd address = 43 then tl address else address)"
    and "list_all (\<lambda>c. skip_char c \<or> is_digit c) rest"
  shows "\<exists>pdu. ubmodem_address_to_pdu avail address = Some (Inr pdu) \<and>
    hd pdu = (if hd address = 43 then 0x91 else 0x81) \<and>
    read_semi_octets (tl pdu) = digits_of rest \<and> length pdu = 1 + (length (digits_of rest) + 1) div 2"
proof -
  have "length (semi_octets ds) = (length ds + 1) div 2" for ds
    by (simp add: semi_octets_def length_digit_pairs)
  with address_to_pdu_digits [OF assms] read_semi_octets_inverse [OF digits_of_small [OF assms(4)]]
  show ?thesis by simp
qed

text \<open>
  The table driven decoder inverts UTF-8: on the encoding of any Unicode scalar value at any
  offset it returns the code point and the offset behind it.
\<close>

lemma utf8_decoder_correct:
  assumes "scalar_value cp"
  shows "utf8_decode (pre @ utf8_encode cp @ rest) (length pre) = (int cp, length pre + length (utf8_encode cp))"
  by (rule utf8_decode_encode [OF assms])

text \<open>
  C38. A UTF-8 text becomes the big-endian UCS-2 codes of its characters, one for each character (a
  character outside the basic plane becomes U+FFFD).
\<close>

theorem utf8_message_to_pdu:
  assumes "list_all scalar_value cps" and "cps \<noteq> []" and "\<forall>n. avail n"
  shows "ubmodem_utf8_to_pdu avail (utf8_string cps) =
    Inr (concat (map (\<lambda>cp. big_endian (if cp \<le> 0xffff then word_of_nat cp else 0xfffd)) cps))"
proof -
  have "ucs2_encode (int cp) = (if cp \<le> 0xffff then word_of_nat cp else 0xfffd)" if "cp \<in> set cps" for cp
    using assms(1) that by (auto simp: list_all_iff scalar_value_def ucs2_encode_def)
  then have "map (\<lambda>cp. big_endian (ucs2_encode (int cp))) cps =
      map (\<lambda>cp. big_endian (if cp \<le> 0xffff then word_of_nat cp else 0xfffd)) cps" by simp
  then show ?thesis unfolding utf8_to_pdu_utf8 [OF assms] by (rule arg_cong)
qed

theorem utf8_message_to_pdu_witness:
  "ubmodem_utf8_to_pdu ample (utf8_string [72, 0x20AC, 0x1F600]) = Inr [0, 72, 0x20, 0xAC, 0xFF, 0xFD]"
  using utf8_message_to_pdu [of "[72, 0x20AC, 0x1F600]" ample]
  by (simp add: scalar_value_def ample_def big_endian_def)

end
