(* ===== verification/Ubx.thy ===== *)
theory Ubx
  imports Faults Poll_Timers
begin

text \<open>
  The UBX protocol of the GPS chip, \<open>apps/system/ubgps/ubx.c\<close>: sending a message with its checksum,
  the byte machine that receives messages, acknowledgment and receive timeouts, reset.

  A message is the block of memory that holds it: class, identifier, length in little endian, payload.
  The block that the receiver has allocated is \<open>umsg\<close>; it is \<open>None\<close> when nothing is allocated, so that a
  second \<open>free\<close> or an access after \<open>free\<close> is a \<open>Memory\<close> fault. The world outside is \<open>ubx_env\<close>: the GPS timers,
  \<open>malloc\<close>, the results of \<open>write\<close>, and the receiver's callback, unknown code whose effect is a list of
  \<open>ubx_op\<close>. \<open>uout\<close> collects the bytes written and \<open>delivered\<close> the calls of the callback; no code reads them.
\<close>

section \<open>Data\<close>

datatype ubx_state_e =
  UBX_STATE_MSG_WAIT | UBX_STATE_MSG_SYNC | UBX_STATE_MSG_HEADER
| UBX_STATE_MSG_PAYLOAD | UBX_STATE_MSG_CHECKSUM1 | UBX_STATE_MSG_CHECKSUM2

text \<open>The code compares states by their numbers.\<close>

fun state_num :: "ubx_state_e \<Rightarrow> nat" where
  "state_num UBX_STATE_MSG_WAIT = 0"
| "state_num UBX_STATE_MSG_SYNC = 1"
| "state_num UBX_STATE_MSG_HEADER = 2"
| "state_num UBX_STATE_MSG_PAYLOAD = 3"
| "state_num UBX_STATE_MSG_CHECKSUM1 = 4"
| "state_num UBX_STATE_MSG_CHECKSUM2 = 5"

lemma state_num_inject: "state_num a = state_num b \<longleftrightarrow> a = b"
  by (cases a; cases b) simp_all

instantiation ubx_state_e :: linorder
begin

definition less_eq_ubx_state_e :: "ubx_state_e \<Rightarrow> ubx_state_e \<Rightarrow> bool" where
  "less_eq_ubx_state_e a b \<longleftrightarrow> state_num a \<le> state_num b"

definition less_ubx_state_e :: "ubx_state_e \<Rightarrow> ubx_state_e \<Rightarrow> bool" where
  "less_ubx_state_e a b \<longleftrightarrow> state_num a < state_num b"

instance
  by standard (auto simp: less_eq_ubx_state_e_def less_ubx_state_e_def state_num_inject)

end

lemmas state_order [ubx_simps] = less_eq_ubx_state_e_def less_ubx_state_e_def

record ubx_receiver_s =
  ustate :: ubx_state_e
  waiting_ack :: bytes
  uheader :: bytes
  umsg :: "bytes option"
  offset :: nat
  ck_a :: u8
  ck_b :: u8
  send_timer_id :: int
  receive_timer_id :: int
  ucallback :: "nat option"
  upriv :: nat

record ubgps =
  receiver :: ubx_receiver_s
  gtimers :: poll_timers
  uticks :: nat
  uout :: bytes
  delivered :: "(bytes \<times> bool) list"

datatype ubx_op = Send_msg int "bytes option" | Reset_receiver | Timer_op timer_op

datatype write_result = Written nat | Write_EAGAIN | Write_error

record ubx_env =
  utimers :: timer_env
  umalloc :: "nat \<Rightarrow> nat \<Rightarrow> bytes option"
  uwrite :: "nat \<Rightarrow> bytes \<Rightarrow> write_result"
  ucb :: "nat \<Rightarrow> nat \<Rightarrow> bytes \<Rightarrow> bool \<Rightarrow> ubgps \<Rightarrow> ubx_op list"

datatype ubx_error = EINVAL | EBUSY | Write_failed

abbreviation UBX_SYNC_CHAR_1 :: u8 where "UBX_SYNC_CHAR_1 \<equiv> 0xB5"
abbreviation UBX_SYNC_CHAR_2 :: u8 where "UBX_SYNC_CHAR_2 \<equiv> 0x62"
abbreviation UBX_CLASS_ACK :: u8 where "UBX_CLASS_ACK \<equiv> 0x05"
abbreviation UBX_CLASS_CFG :: u8 where "UBX_CLASS_CFG \<equiv> 0x06"
abbreviation UBX_MSG_MAX_PAYLOAD_LENGTH :: nat where "UBX_MSG_MAX_PAYLOAD_LENGTH \<equiv> 1024"
abbreviation HEADER_LEN :: nat where "HEADER_LEN \<equiv> 4"

text \<open>The fields of \<open>struct ubx_msg_s\<close>; \<open>length\<close> is little endian.\<close>

definition msg_class :: "bytes \<Rightarrow> u8" where "msg_class msg = msg ! 0"
definition msg_id :: "bytes \<Rightarrow> u8" where "msg_id msg = msg ! 1"
definition msg_length :: "bytes \<Rightarrow> nat" where "msg_length msg = unat (msg ! 2) + 256 * unat (msg ! 3)"

definition upd :: "(ubx_receiver_s \<Rightarrow> ubx_receiver_s) \<Rightarrow> ubgps \<Rightarrow> ubgps" where
  "upd f g = g\<lparr>receiver := f (receiver g)\<rparr>"

section \<open>Timers\<close>

text \<open>Both timers have the callback \<open>ubx_timeout\<close>, here number 0. A failure to set a timer gives -1.\<close>

definition ubx_set_timer :: "ubx_env \<Rightarrow> u32 \<Rightarrow> ubgps \<Rightarrow> (int \<times> ubgps) res" where
  "ubx_set_timer e msec g =
     (case ubgps_set_timer (utimers e) msec (Some 0) 0 (gtimers g) of
        None \<Rightarrow> Inl Assertion
      | Some (Inl _, t) \<Rightarrow> Inr (-1, g\<lparr>gtimers := t\<rparr>)
      | Some (Inr i, t) \<Rightarrow> Inr (uint i, g\<lparr>gtimers := t\<rparr>))"

definition stop_timer :: "int \<Rightarrow> ubgps \<Rightarrow> ubgps" where
  "stop_timer i g = g\<lparr>gtimers := ubgps_remove_timer (word_of_int i) (gtimers g)\<rparr>"

definition stop_receive_timer :: "ubgps \<Rightarrow> ubgps" where
  "stop_receive_timer g =
     (if receive_timer_id (receiver g) \<ge> 0
      then upd (\<lambda>r. r\<lparr>receive_timer_id := -1\<rparr>) (stop_timer (receive_timer_id (receiver g)) g)
      else g)"

definition stop_send_timer :: "ubgps \<Rightarrow> ubgps" where
  "stop_send_timer g =
     (if send_timer_id (receiver g) \<ge> 0
      then upd (\<lambda>r. r\<lparr>send_timer_id := -1\<rparr>) (stop_timer (send_timer_id (receiver g)) g)
      else g)"

text \<open>Free the pending message, if any, and go back to waiting.\<close>

definition reset_state :: "ubgps \<Rightarrow> ubgps res" where
  "reset_state g =
     (let r = receiver g
      in and_then (if ustate r \<ge> UBX_STATE_MSG_PAYLOAD
                   then check Memory (umsg r \<noteq> None) (r\<lparr>umsg := None\<rparr>) else Inr r) (\<lambda>r.
           Inr (g\<lparr>receiver := r\<lparr>ustate := UBX_STATE_MSG_WAIT, ck_a := 0, ck_b := 0\<rparr>\<rparr>)))"

section \<open>Initialisation, reset, sending\<close>

definition ubx_initialize :: "nat option \<Rightarrow> nat \<Rightarrow> ubgps \<Rightarrow> ubgps" where
  "ubx_initialize callback priv =
     upd (\<lambda>r. r\<lparr>ustate := UBX_STATE_MSG_WAIT, send_timer_id := -1, receive_timer_id := -1,
       ucallback := callback, upriv := priv, uheader := replicate HEADER_LEN 0\<rparr>)"

definition ubx_reset :: "ubgps \<Rightarrow> ubgps res" where
  "ubx_reset g = reset_state (stop_receive_timer (stop_send_timer g))"

definition ubx_deinitialize :: "ubgps \<Rightarrow> ubgps res" where
  "ubx_deinitialize g = ubx_reset g"

definition ubx_busy :: "ubx_receiver_s \<Rightarrow> bool" where
  "ubx_busy r = (if send_timer_id r \<ge> 0 then True else False)"

text \<open>The length field has 16 bits.\<close>

definition ubx_msg_allocate :: "(nat \<Rightarrow> bool) \<Rightarrow> u8 \<Rightarrow> u8 \<Rightarrow> nat \<Rightarrow> bytes option" where
  "ubx_msg_allocate avail cls mid payload_length =
     (if avail (HEADER_LEN + payload_length)
      then Some ([cls, mid, word_of_nat payload_length, word_of_nat (payload_length div 256)] @ replicate payload_length 0)
      else None)"

text \<open>\<open>__ubgps_full_write\<close>: the bytes accepted by \<open>write\<close> are appended to \<open>uout\<close>; \<open>None\<close> is \<open>ERROR\<close>.\<close>

partial_function (option) full_write :: "ubx_env \<Rightarrow> bytes \<Rightarrow> nat \<Rightarrow> ubgps \<Rightarrow> (nat option \<times> ubgps) option" where
  "full_write e buf sofar g =
     (case uwrite e (uticks g) buf of
        Write_error \<Rightarrow> Some (None, g\<lparr>uticks := Suc (uticks g)\<rparr>)
      | Write_EAGAIN \<Rightarrow>
          if buf = [] then Some (Some sofar, g\<lparr>uticks := Suc (uticks g)\<rparr>)
          else full_write e buf sofar (g\<lparr>uticks := Suc (uticks g)\<rparr>)
      | Written n \<Rightarrow>
          (let g = g\<lparr>uticks := Suc (uticks g), uout := uout g @ take n buf\<rparr>
           in if drop n buf = [] then Some (Some (sofar + n), g) else full_write e (drop n buf) (sofar + n) g))"

text \<open>The 8-bit Fletcher checksum.\<close>

fun fletcher :: "bytes \<Rightarrow> u8 \<times> u8 \<Rightarrow> u8 \<times> u8" where
  "fletcher [] ck = ck"
| "fletcher (d # ds) (a, b) = fletcher ds (a + d, b + (a + d))"

text \<open>Write a buffer; the result tells whether all of it was written.\<close>

definition write_all :: "ubx_env \<Rightarrow> bytes \<Rightarrow> ubgps \<Rightarrow> (bool \<times> ubgps) run" where
  "write_all e buf g = map_option (\<lambda>(ret, g). Inr (ret = Some (length buf), g)) (full_write e buf 0 g)"

definition ubx_msg_send :: "ubx_env \<Rightarrow> int \<Rightarrow> bytes option \<Rightarrow> ubgps \<Rightarrow> ((ubx_error + unit) \<times> ubgps) run" where
  "ubx_msg_send e fd msg g =
     (case msg of
        None \<Rightarrow> return_run (Inl EINVAL, g)
      | Some msg \<Rightarrow>
          if fd < 0 then return_run (Inl EINVAL, g)
          else if send_timer_id (receiver g) \<ge> 0 then return_run (Inl EBUSY, g)
          else
            next_run (write_all e [UBX_SYNC_CHAR_1, UBX_SYNC_CHAR_2] g) (\<lambda>(ok, g).
            if \<not> ok then return_run (Inl Write_failed, g)
            else check_run Memory (HEADER_LEN \<le> length msg \<and> HEADER_LEN + msg_length msg \<le> length msg)
            (let data = take (HEADER_LEN + msg_length msg) msg
             in next_run (write_all e data g) (\<lambda>(ok, g).
                if \<not> ok then return_run (Inl Write_failed, g)
                else
                  (let (a, b) = fletcher data (0, 0)
                   in next_run (write_all e [a, b] g) (\<lambda>(ok, g).
                      if \<not> ok then return_run (Inl Write_failed, g)
                      else if msg_class msg = UBX_CLASS_CFG
                      then
                        next_run (Some (ubx_set_timer e 200 (upd (\<lambda>r. r\<lparr>waiting_ack := take HEADER_LEN msg\<rparr>) g))) (\<lambda>(i, g).
                          return_run (Inr (), upd (\<lambda>r. r\<lparr>send_timer_id := i\<rparr>) g))
                      else return_run (Inr (), g)))))))"

section \<open>Callbacks\<close>

definition apply_ubx_op :: "ubx_env \<Rightarrow> ubx_op \<Rightarrow> ubgps \<Rightarrow> ubgps run" where
  "apply_ubx_op e op g =
     (case op of
        Send_msg fd msg \<Rightarrow> next_run (ubx_msg_send e fd msg g) (\<lambda>(_, g). return_run g)
      | Reset_receiver \<Rightarrow> Some (ubx_reset g)
      | Timer_op t \<Rightarrow>
          (case gps_apply (utimers e) t (gtimers g) of
             None \<Rightarrow> Some (Inl Assertion)
           | Some ts \<Rightarrow> return_run (g\<lparr>gtimers := ts\<rparr>)))"

fun run_ubx_ops :: "ubx_env \<Rightarrow> ubx_op list \<Rightarrow> ubgps \<Rightarrow> ubgps run" where
  "run_ubx_ops e [] g = return_run g"
| "run_ubx_ops e (op # ops) g = next_run (apply_ubx_op e op g) (run_ubx_ops e ops)"

definition call_back :: "ubx_env \<Rightarrow> nat \<Rightarrow> bytes \<Rightarrow> bool \<Rightarrow> ubgps \<Rightarrow> ubgps run" where
  "call_back e cb msg timeout g =
     run_ubx_ops e (ucb e cb (upriv (receiver g)) msg timeout g) (g\<lparr>delivered := delivered g @ [(msg, timeout)]\<rparr>)"

section \<open>Receiving\<close>

datatype outcome = Return bool \<comment> \<open>accepted?\<close> | Break bool \<comment> \<open>invalid?\<close>

text \<open>The checksum covers header and payload.\<close>

definition update_checksum :: "u8 \<Rightarrow> ubx_receiver_s \<Rightarrow> ubx_receiver_s" where
  "update_checksum d r =
     (if ustate r \<ge> UBX_STATE_MSG_HEADER \<and> ustate r \<le> UBX_STATE_MSG_PAYLOAD
      then r\<lparr>ck_a := ck_a r + d, ck_b := ck_b r + (ck_a r + d)\<rparr> else r)"

text \<open>The header is complete: check its length and allocate the message.\<close>

definition header_complete :: "ubx_env \<Rightarrow> ubgps \<Rightarrow> (outcome \<times> ubgps) run" where
  "header_complete e g =
     (let r = receiver g; len = msg_length (uheader r)
      in if len > UBX_MSG_MAX_PAYLOAD_LENGTH then return_run (Break True, g)
         else
           (case umalloc e (uticks g) (HEADER_LEN + len) of
              None \<Rightarrow> return_run (Break False, upd (\<lambda>r. r\<lparr>umsg := None\<rparr>) (g\<lparr>uticks := Suc (uticks g)\<rparr>))
            | Some block \<Rightarrow>
                check_run Memory (HEADER_LEN \<le> length block)
                (let r = r\<lparr>umsg := Some (uheader r @ drop HEADER_LEN block)\<rparr>;
                     r = (if len > 0 then r\<lparr>offset := 0, ustate := UBX_STATE_MSG_PAYLOAD\<rparr>
                          else r\<lparr>ustate := UBX_STATE_MSG_CHECKSUM1\<rparr>)
                 in return_run (Return True, g\<lparr>receiver := r, uticks := Suc (uticks g)\<rparr>))))"

definition receive_header :: "ubx_env \<Rightarrow> u8 \<Rightarrow> ubgps \<Rightarrow> (outcome \<times> ubgps) run" where
  "receive_header e d g =
     (let r = receiver g
      in check_run Memory (offset r < HEADER_LEN)
         (let g = g\<lparr>receiver := r\<lparr>uheader := (uheader r)[offset r := d], offset := Suc (offset r)\<rparr>\<rparr>
          in if offset (receiver g) < HEADER_LEN then return_run (Return True, g) else header_complete e g))"

definition receive_payload :: "u8 \<Rightarrow> ubgps \<Rightarrow> (outcome \<times> ubgps) run" where
  "receive_payload d g =
     (let r = receiver g
      in case umsg r of
           None \<Rightarrow> Some (Inl Memory)
         | Some msg \<Rightarrow>
             check_run Memory (HEADER_LEN + offset r < length msg)
             (let r = r\<lparr>umsg := Some (msg[HEADER_LEN + offset r := d]), offset := Suc (offset r)\<rparr>;
                  r = (if offset r \<ge> msg_length msg then r\<lparr>ustate := UBX_STATE_MSG_CHECKSUM1\<rparr> else r)
              in return_run (Return True, g\<lparr>receiver := r\<rparr>)))"

text \<open>Whether the message is the acknowledgment that the sender waits for.\<close>

definition acknowledges :: "bytes \<Rightarrow> bytes \<Rightarrow> bool" where
  "acknowledges msg waiting \<longleftrightarrow>
     msg_length msg = 2 \<and> msg_class msg = UBX_CLASS_ACK \<and> (msg_id msg = 0x01 \<or> msg_id msg = 0x00) \<and>
     msg ! HEADER_LEN = msg_class waiting \<and> msg ! (HEADER_LEN + 1) = msg_id waiting"

definition message_complete :: "ubx_env \<Rightarrow> ubgps \<Rightarrow> (outcome \<times> ubgps) run" where
  "message_complete e g =
     (case umsg (receiver g) of
        None \<Rightarrow> Some (Inl Memory)
      | Some msg \<Rightarrow>
          (let g = (if send_timer_id (receiver g) \<ge> 0 \<and> acknowledges msg (waiting_ack (receiver g))
                    then stop_send_timer g else g)
           in case ucallback (receiver g) of
                None \<Rightarrow> Some (Inl Memory)
              | Some cb \<Rightarrow> next_run (call_back e cb msg False g) (\<lambda>g. return_run (Break False, g))))"

definition receive_switch :: "ubx_env \<Rightarrow> u8 \<Rightarrow> ubgps \<Rightarrow> (outcome \<times> ubgps) run" where
  "receive_switch e d g =
     (let g = upd (update_checksum d) g; r = receiver g
      in case ustate r of
           UBX_STATE_MSG_WAIT \<Rightarrow>
             if d = UBX_SYNC_CHAR_1
             then next_run (Some (ubx_set_timer e 300 (upd (\<lambda>r. r\<lparr>ustate := UBX_STATE_MSG_SYNC\<rparr>) g))) (\<lambda>(i, g).
                    return_run (Return True, upd (\<lambda>r. r\<lparr>receive_timer_id := i\<rparr>) g))
             else return_run (Return False, g)
         | UBX_STATE_MSG_SYNC \<Rightarrow>
             if d \<noteq> UBX_SYNC_CHAR_2 then return_run (Break True, g)
             else return_run (Return True, upd (\<lambda>r. r\<lparr>offset := 0, ustate := UBX_STATE_MSG_HEADER\<rparr>) g)
         | UBX_STATE_MSG_HEADER \<Rightarrow> receive_header e d g
         | UBX_STATE_MSG_PAYLOAD \<Rightarrow> receive_payload d g
         | UBX_STATE_MSG_CHECKSUM1 \<Rightarrow>
             if ck_a r \<noteq> d then return_run (Break True, g)
             else return_run (Return True, upd (\<lambda>r. r\<lparr>ustate := UBX_STATE_MSG_CHECKSUM2\<rparr>) g)
         | UBX_STATE_MSG_CHECKSUM2 \<Rightarrow>
             if ck_b r \<noteq> d then return_run (Break True, g) else message_complete e g)"

text \<open>\<open>goto try_again\<close> with the same byte after an invalid message; the result is \<open>OK\<close> or \<open>ERROR\<close>.\<close>

partial_function (option) ubx_msg_receive :: "ubx_env \<Rightarrow> u8 \<Rightarrow> ubgps \<Rightarrow> (bool \<times> ubgps) run" where
  "ubx_msg_receive e d g =
     (case receive_switch e d g of
        None \<Rightarrow> None
      | Some (Inl f) \<Rightarrow> Some (Inl f)
      | Some (Inr (Return ok, g)) \<Rightarrow> return_run (ok, g)
      | Some (Inr (Break invalid, g)) \<Rightarrow>
          (case reset_state (stop_receive_timer g) of
             Inl f \<Rightarrow> Some (Inl f)
           | Inr g \<Rightarrow> if invalid then ubx_msg_receive e d g else return_run (True, g)))"

text \<open>A stream of bytes, each handed to the receiver.\<close>

fun ubx_receive_all :: "ubx_env \<Rightarrow> bytes \<Rightarrow> ubgps \<Rightarrow> ubgps run" where
  "ubx_receive_all e [] g = return_run g"
| "ubx_receive_all e (d # ds) g = next_run (ubx_msg_receive e d g) (\<lambda>(_, g). ubx_receive_all e ds g)"

section \<open>Timeouts\<close>

definition ubx_timeout :: "ubx_env \<Rightarrow> int \<Rightarrow> ubgps \<Rightarrow> ubgps run" where
  "ubx_timeout e timer_id g =
     (if timer_id = send_timer_id (receiver g)
      then
        (let g = upd (\<lambda>r. r\<lparr>send_timer_id := -1\<rparr>) g
         in case ucallback (receiver g) of
              None \<Rightarrow> return_run g
            | Some cb \<Rightarrow> call_back e cb (waiting_ack (receiver g)) True g)
      else if timer_id = receive_timer_id (receiver g)
      then Some (reset_state (upd (\<lambda>r. r\<lparr>receive_timer_id := -1\<rparr>) g))
      else return_run g)"

end
