(* ===== verification/Ubx_Receive.thy ===== *)
theory Ubx_Receive
  imports Ubx
begin

text \<open>
  Sending writes the frame of the message; receiving a frame delivers its message; the receiver is total
  and memory safe on every sequence of bytes, whatever the callback does through the interface.
\<close>

section \<open>Writing\<close>

definition writes_ok :: "ubx_env \<Rightarrow> bool" where
  "writes_ok e \<longleftrightarrow> (\<forall>k buf. uwrite e k buf \<noteq> Write_error \<and> (\<forall>n. uwrite e k buf = Written n \<longrightarrow> n \<le> length buf)) \<and>
     (\<forall>k. \<exists>j \<ge> k. \<forall>buf. buf \<noteq> [] \<longrightarrow> (\<exists>n > 0. uwrite e j buf = Written n))"

lemma full_write_all:
  assumes "writes_ok e"
  shows "\<exists>k. full_write e buf n g = Some (Some (n + length buf), g\<lparr>uticks := k, uout := uout g @ buf\<rparr>)"
proof (induction "length buf" arbitrary: buf n g rule: less_induct)
  case less
  note shorter = less.hyps
  obtain j where "j \<ge> uticks g" and pos: "\<And>buf. buf \<noteq> [] \<Longrightarrow> \<exists>n > 0. uwrite e j buf = Written n"
    using assms by (meson writes_ok_def)
  from this(1) show ?case
  proof (induction "j - uticks g" arbitrary: n g rule: less_induct)
    case (less g n)
    let ?g = "g\<lparr>uticks := Suc (uticks g)\<rparr>"
    have again: "\<exists>k. full_write e buf n ?g = Some (Some (n + length buf), g\<lparr>uticks := k, uout := uout g @ buf\<rparr>)"
      if "uticks g \<noteq> j"
      using less.hyps [of ?g n] less.prems that by simp
    show ?case
    proof (cases "uwrite e (uticks g) buf")
      case (Written m)
      then have m: "m \<le> length buf" using assms by (simp add: writes_ok_def)
      consider "drop m buf = []" | "drop m buf \<noteq> []" "0 < m" | "drop m buf \<noteq> []" "m = 0" by blast
      then show ?thesis
      proof cases
        case 1
        then have "m = length buf" using m by simp
        with Written show ?thesis by (subst full_write.simps) auto
      next
        case 2
        let ?g1 = "g\<lparr>uticks := Suc (uticks g), uout := uout g @ take m buf\<rparr>"
        have "length (drop m buf) < length buf" using 2 m by simp
        from shorter [OF this, of "n + m" ?g1] obtain k where
          "full_write e (drop m buf) (n + m) ?g1 =
            Some (Some (n + m + length (drop m buf)), ?g1\<lparr>uticks := k, uout := uout ?g1 @ drop m buf\<rparr>)" by blast
        with 2 m Written show ?thesis by (subst full_write.simps) auto
      next
        case 3
        then have "uticks g \<noteq> j" using pos [of buf] Written by fastforce
        from again [OF this] 3 Written show ?thesis by (subst full_write.simps) simp
      qed
    next
      case Write_EAGAIN
      show ?thesis
      proof (cases "buf = []")
        case False
        then have "uticks g \<noteq> j" using pos [of buf] Write_EAGAIN by fastforce
        from again [OF this] False Write_EAGAIN show ?thesis by (subst full_write.simps) simp
      qed (use Write_EAGAIN in \<open>subst full_write.simps, auto\<close>)
    next
      case Write_error
      with assms show ?thesis by (simp add: writes_ok_def)
    qed
  qed
qed

lemma write_all_ok:
  assumes "writes_ok e"
  shows "\<exists>k. write_all e buf g = return_run (True, g\<lparr>uticks := k, uout := uout g @ buf\<rparr>)"
  using full_write_all [OF assms, of buf 0 g] by (auto simp: write_all_def)

section \<open>Frames\<close>

definition ubx_frame :: "bytes \<Rightarrow> bytes" where
  "ubx_frame msg = [UBX_SYNC_CHAR_1, UBX_SYNC_CHAR_2] @ msg @ [fst (fletcher msg (0, 0)), snd (fletcher msg (0, 0))]"

definition msg_ok :: "bytes \<Rightarrow> bool" where
  "msg_ok msg \<longleftrightarrow> HEADER_LEN \<le> length msg \<and> length msg = HEADER_LEN + msg_length msg"

lemma set_timer_ok:
  "\<exists>i t. ubx_set_timer e msec g = Inr (i, g\<lparr>gtimers := t\<rparr>) \<and> -1 \<le> i"
proof -
  have "\<exists>r t. ubgps_set_timer (utimers e) msec (Some 0) 0 (gtimers g) = Some (r, t)"
    by (auto simp: ubgps_set_timer_def Let_def)
  then obtain r t where "ubgps_set_timer (utimers e) msec (Some 0) 0 (gtimers g) = Some (r, t)" by blast
  moreover have "-1 \<le> uint (i :: u16)" for i using uint_ge_0 [of i] by linarith
  ultimately show ?thesis by (cases r) (auto simp: ubx_set_timer_def)
qed

text \<open>A message for which nothing is awaited is written as its frame; only the send timer changes.\<close>

lemma send_frame:
  assumes "writes_ok e" and "0 \<le> fd" and "send_timer_id (receiver g) < 0" and "msg_ok msg"
  shows "\<exists>g'. ubx_msg_send e fd (Some msg) g = return_run (Inr (), g') \<and> uout g' = uout g @ ubx_frame msg \<and>
    delivered g' = delivered g \<and>
    (if msg_class msg = UBX_CLASS_CFG
     then \<exists>i. receiver g' = (receiver g)\<lparr>waiting_ack := take HEADER_LEN msg, send_timer_id := i\<rparr> \<and> -1 \<le> i
     else receiver g' = receiver g \<and> gtimers g' = gtimers g)"
proof -
  obtain a b where ab: "fletcher msg (0, 0) = (a, b)" by fastforce
  have msg: "take (HEADER_LEN + msg_length msg) msg = msg" "HEADER_LEN \<le> length msg" "HEADER_LEN + msg_length msg \<le> length msg"
    using assms(4) by (auto simp: msg_ok_def)
  obtain k1 where 1: "write_all e [UBX_SYNC_CHAR_1, UBX_SYNC_CHAR_2] g =
      return_run (True, g\<lparr>uticks := k1, uout := uout g @ [UBX_SYNC_CHAR_1, UBX_SYNC_CHAR_2]\<rparr>)" (is "_ = return_run (True, ?g1)")
    using write_all_ok [OF assms(1)] by blast
  obtain k2 where 2: "write_all e msg ?g1 = return_run (True, ?g1\<lparr>uticks := k2, uout := uout ?g1 @ msg\<rparr>)" (is "_ = return_run (True, ?g2)")
    using write_all_ok [OF assms(1)] by blast
  obtain k3 where 3: "write_all e [a, b] ?g2 = return_run (True, ?g2\<lparr>uticks := k3, uout := uout ?g2 @ [a, b]\<rparr>)" (is "_ = return_run (True, ?g3)")
    using write_all_ok [OF assms(1)] by blast
  obtain i t where t: "ubx_set_timer e 200 (upd (\<lambda>r. r\<lparr>waiting_ack := take HEADER_LEN msg\<rparr>) ?g3) =
      Inr (i, upd (\<lambda>r. r\<lparr>waiting_ack := take HEADER_LEN msg\<rparr>) ?g3\<lparr>gtimers := t\<rparr>)" "-1 \<le> i"
    using set_timer_ok by blast
  note run = ubx_msg_send_def 1 2 [simplified] 3 [simplified] msg ab Let_def upd_def
  show ?thesis
  proof (cases "msg_class msg = UBX_CLASS_CFG")
    case True
    with assms(2,3) t(2) show ?thesis by (auto simp: run t(1) [simplified upd_def, simplified] ubx_frame_def)
  next
    case False
    with assms(2,3) show ?thesis by (simp add: run ubx_frame_def)
  qed
qed

section \<open>A frame is received as its message\<close>

lemma fletcher_snoc: "fletcher (ds @ [d]) ck = (case fletcher ds ck of (a, b) \<Rightarrow> (a + d, b + (a + d)))"
  by (induction ds ck rule: fletcher.induct) auto

lemma receive_return:
  assumes "receive_switch e d g = return_run (Return ok, g')"
  shows "ubx_msg_receive e d g = return_run (ok, g')"
  using assms by (subst ubx_msg_receive.simps) simp

definition same_client :: "ubgps \<Rightarrow> ubgps \<Rightarrow> bool" where
  "same_client g0 g \<longleftrightarrow> delivered g = delivered g0 \<and> ucallback (receiver g) = ucallback (receiver g0) \<and>
     upriv (receiver g) = upriv (receiver g0) \<and> send_timer_id (receiver g) = send_timer_id (receiver g0) \<and>
     waiting_ack (receiver g) = waiting_ack (receiver g0) \<and> uout g = uout g0"

text \<open>The receiver has seen the first \<open>n\<close> bytes of \<open>msg\<close>.\<close>

definition collected :: "ubgps \<Rightarrow> bytes \<Rightarrow> nat \<Rightarrow> ubgps \<Rightarrow> bool" where
  "collected g0 msg n g \<longleftrightarrow> (let r = receiver g in
     same_client g0 g \<and> (ck_a r, ck_b r) = fletcher (take n msg) (0, 0) \<and> length (uheader r) = HEADER_LEN \<and>
     (if n < HEADER_LEN then ustate r = UBX_STATE_MSG_HEADER \<and> offset r = n \<and> take n (uheader r) = take n msg
      else if n < length msg
      then ustate r = UBX_STATE_MSG_PAYLOAD \<and> offset r = n - HEADER_LEN \<and>
        (\<exists>m. umsg r = Some m \<and> length m = length msg \<and> take n m = take n msg)
      else ustate r = UBX_STATE_MSG_CHECKSUM1 \<and> umsg r = Some msg))"

definition mallocs_ok :: "ubx_env \<Rightarrow> bool" where
  "mallocs_ok e \<longleftrightarrow> (\<forall>k n block. umalloc e k n = Some block \<longrightarrow> length block = n)"

lemma msg_length_take:
  assumes "take HEADER_LEN a = take HEADER_LEN b" and "HEADER_LEN \<le> length a" and "HEADER_LEN \<le> length b"
  shows "msg_length a = msg_length b"
proof -
  have "a ! 2 = b ! 2" "a ! 3 = b ! 3"
    using assms nth_take [of 2 HEADER_LEN a] nth_take [of 2 HEADER_LEN b] nth_take [of 3 HEADER_LEN a] nth_take [of 3 HEADER_LEN b]
    by simp_all
  then show ?thesis by (simp add: msg_length_def)
qed

lemma take_Suc_snoc: "n < length xs \<Longrightarrow> take (Suc n) xs = take n xs @ [xs ! n]"
  by (rule take_Suc_conv_app_nth)

lemma checksum_step:
  assumes "(ck_a r, ck_b r) = fletcher (take n msg) (0, 0)" and "n < length msg"
    and "ustate r = UBX_STATE_MSG_HEADER \<or> ustate r = UBX_STATE_MSG_PAYLOAD"
  shows "(ck_a (update_checksum (msg ! n) r), ck_b (update_checksum (msg ! n) r)) = fletcher (take (Suc n) msg) (0, 0)"
    and "update_checksum (msg ! n) r = r\<lparr>ck_a := ck_a (update_checksum (msg ! n) r), ck_b := ck_b (update_checksum (msg ! n) r)\<rparr>"
  using assms by (auto simp: take_Suc_snoc fletcher_snoc update_checksum_def ubx_simps split: prod.splits)

lemma collect_header_byte:
  assumes "collected g0 msg n g" and "n < 3" and "msg_ok msg"
  shows "\<exists>g'. ubx_msg_receive e (msg ! n) g = return_run (True, g') \<and> collected g0 msg (Suc n) g'"
proof -
  let ?r = "update_checksum (msg ! n) (receiver g)"
  let ?g = "g\<lparr>receiver := ?r\<lparr>uheader := (uheader ?r)[n := msg ! n], offset := Suc n\<rparr>\<rparr>"
  have n: "n < length msg" "Suc n < HEADER_LEN" using assms(2,3) by (auto simp: msg_ok_def)
  have c: "ustate (receiver g) = UBX_STATE_MSG_HEADER" "offset (receiver g) = n" "length (uheader (receiver g)) = HEADER_LEN"
    "take n (uheader (receiver g)) = take n msg" "(ck_a (receiver g), ck_b (receiver g)) = fletcher (take n msg) (0, 0)"
    "same_client g0 g"
    using assms(1,2) by (simp_all add: collected_def Let_def)
  note ck = checksum_step [OF c(5) n(1) disjI1 [OF c(1)]]
  have r: "ustate ?r = UBX_STATE_MSG_HEADER" "offset ?r = n" "uheader ?r = uheader (receiver g)"
    "ucallback ?r = ucallback (receiver g)" "upriv ?r = upriv (receiver g)" "send_timer_id ?r = send_timer_id (receiver g)"
    "waiting_ack ?r = waiting_ack (receiver g)"
    by (subst ck(2); simp add: c)+
  have "receive_switch e (msg ! n) g = return_run (Return True, ?g)"
    using n(2) by (simp add: receive_switch_def receive_header_def upd_def Let_def r)
  moreover have "collected g0 msg (Suc n) ?g"
    using c(3,4,6) ck(1) n by (simp add: collected_def Let_def r same_client_def take_Suc_snoc)
  ultimately show ?thesis using receive_return by blast
qed

lemma header_length:
  assumes "length h = HEADER_LEN"
  shows "msg_length (h @ xs) = msg_length h"
  using assms by (intro msg_length_take) simp_all

lemma collect_last_header_byte:
  assumes "collected g0 msg 3 g" and ok: "msg_ok msg" and len: "msg_length msg \<le> UBX_MSG_MAX_PAYLOAD_LENGTH"
    and "mallocs_ok e" and "\<forall>k n. umalloc e k n \<noteq> None"
  shows "\<exists>g'. ubx_msg_receive e (msg ! 3) g = return_run (True, g') \<and> collected g0 msg 4 g'"
proof -
  let ?r = "update_checksum (msg ! 3) (receiver g)" and ?h = "take HEADER_LEN msg"
  have n: "3 < length msg" "length ?h = HEADER_LEN" using ok by (auto simp: msg_ok_def)
  have c: "ustate (receiver g) = UBX_STATE_MSG_HEADER" "offset (receiver g) = 3" "length (uheader (receiver g)) = HEADER_LEN"
    "take 3 (uheader (receiver g)) = take 3 msg" "(ck_a (receiver g), ck_b (receiver g)) = fletcher (take 3 msg) (0, 0)"
    "same_client g0 g"
    using assms(1) by (simp_all add: collected_def Let_def)
  note ck = checksum_step [OF c(5) n(1) disjI1 [OF c(1)]]
  have r: "ustate ?r = UBX_STATE_MSG_HEADER" "offset ?r = 3" "uheader ?r = uheader (receiver g)"
    "ucallback ?r = ucallback (receiver g)" "upriv ?r = upriv (receiver g)" "send_timer_id ?r = send_timer_id (receiver g)"
    "waiting_ack ?r = waiting_ack (receiver g)"
    by (subst ck(2); simp add: c)+
  have h: "(uheader (receiver g))[3 := msg ! 3] = ?h"
  proof -
    have "take (Suc 3) ((uheader (receiver g))[3 := msg ! 3]) = take 3 msg @ [msg ! 3]"
      using c(3,4) by (subst take_Suc_update) simp_all
    with c(3) n(1) show ?thesis by (simp add: take_Suc_snoc [symmetric])
  qed
  have l: "msg_length ?h = msg_length msg" "length msg = HEADER_LEN + msg_length msg"
    using ok n(2) by (auto simp: msg_ok_def intro: msg_length_take)
  obtain block where block: "umalloc e (uticks g) (HEADER_LEN + msg_length msg) = Some block"
    using assms(5) by blast
  then have bl: "length block = HEADER_LEN + msg_length msg" using assms(4) by (simp add: mallocs_ok_def)
  let ?r1 = "?r\<lparr>uheader := ?h, offset := HEADER_LEN, umsg := Some (?h @ drop HEADER_LEN block)\<rparr>"
  let ?r2 = "if msg_length msg > 0 then ?r1\<lparr>offset := 0, ustate := UBX_STATE_MSG_PAYLOAD\<rparr> else ?r1\<lparr>ustate := UBX_STATE_MSG_CHECKSUM1\<rparr>"
  let ?g = "g\<lparr>receiver := ?r2, uticks := Suc (uticks g)\<rparr>"
  have "receive_switch e (msg ! 3) g = return_run (Return True, ?g)"
    using len by (simp add: receive_switch_def receive_header_def header_complete_def upd_def Let_def r h l(1) block bl)
  moreover have "collected g0 msg 4 ?g"
    using c(6) ck(1) n l(2) bl by (auto simp: collected_def Let_def r same_client_def)
  ultimately show ?thesis using receive_return by blast
qed

lemma collect_payload_byte:
  assumes "collected g0 msg n g" and "HEADER_LEN \<le> n" and "n < length msg" and ok: "msg_ok msg"
  shows "\<exists>g'. ubx_msg_receive e (msg ! n) g = return_run (True, g') \<and> collected g0 msg (Suc n) g'"
proof -
  let ?r = "update_checksum (msg ! n) (receiver g)"
  obtain m where c: "ustate (receiver g) = UBX_STATE_MSG_PAYLOAD" "offset (receiver g) = n - HEADER_LEN"
    "length (uheader (receiver g)) = HEADER_LEN" "umsg (receiver g) = Some m" "length m = length msg"
    "take n m = take n msg" "(ck_a (receiver g), ck_b (receiver g)) = fletcher (take n msg) (0, 0)" "same_client g0 g"
    using assms(1,2,3) by (auto simp: collected_def Let_def)
  note ck = checksum_step [OF c(7) assms(3) disjI2 [OF c(1)]]
  have r: "ustate ?r = UBX_STATE_MSG_PAYLOAD" "offset ?r = n - HEADER_LEN" "uheader ?r = uheader (receiver g)" "umsg ?r = Some m"
    "ucallback ?r = ucallback (receiver g)" "upriv ?r = upriv (receiver g)" "send_timer_id ?r = send_timer_id (receiver g)"
    "waiting_ack ?r = waiting_ack (receiver g)"
    by (subst ck(2); simp add: c)+
  have "take HEADER_LEN m = take HEADER_LEN msg" using c(6) assms(2) by (metis min.absorb1 take_take)
  then have ml: "msg_length m = msg_length msg" using assms(2,3) c(5) by (intro msg_length_take) simp_all
  have ln: "length msg = HEADER_LEN + msg_length msg" using ok by (simp add: msg_ok_def)
  let ?m = "m[n := msg ! n]"
  have m: "take (Suc n) ?m = take (Suc n) msg" "length ?m = length msg"
    using c(5,6) assms(3) by (simp_all add: take_Suc_snoc)
  let ?r1 = "?r\<lparr>umsg := Some ?m, offset := Suc (n - HEADER_LEN)\<rparr>"
  let ?r2 = "if msg_length msg \<le> Suc (n - HEADER_LEN) then ?r1\<lparr>ustate := UBX_STATE_MSG_CHECKSUM1\<rparr> else ?r1"
  have "receive_switch e (msg ! n) g = return_run (Return True, g\<lparr>receiver := ?r2\<rparr>)"
    using assms(2,3) c(5) by (simp add: receive_switch_def receive_payload_def upd_def Let_def r ml)
  moreover have "collected g0 msg (Suc n) (g\<lparr>receiver := ?r2\<rparr>)"
  proof (cases "Suc n < length msg")
    case True
    then have "\<not> msg_length msg \<le> Suc (n - HEADER_LEN)" using ln assms(2) by linarith
    with True c(3,8) ck(1) m assms(2) show ?thesis by (simp add: collected_def Let_def r same_client_def Suc_diff_le)
  next
    case False
    then have "msg_length msg \<le> Suc (n - HEADER_LEN)" "Suc n = length msg" using ln assms(2,3) by linarith+
    moreover from this(2) m have "?m = msg" by (metis take_all_iff order_refl)
    ultimately show ?thesis using c(3,8) ck(1) assms(2,3) by (simp add: collected_def Let_def r same_client_def)
  qed
  ultimately show ?thesis using receive_return by blast
qed

lemma receive_all_append:
  "ubx_receive_all e (xs @ ys) g = next_run (ubx_receive_all e xs g) (ubx_receive_all e ys)"
proof (induction xs arbitrary: g)
  case (Cons x xs)
  have assoc: "next_run (next_run r f) h = next_run r (\<lambda>a. next_run (f a) h)"
    for r :: "(bool \<times> ubgps) run" and f :: "bool \<times> ubgps \<Rightarrow> ubgps run" and h :: "ubgps \<Rightarrow> ubgps run"
    by (cases "(r, f)" rule: next_run.cases) auto
  show ?case by (simp add: assoc Cons split_def)
qed simp

lemma collect_rest:
  assumes "collected g0 msg n g" and "n \<le> length msg" and "msg_ok msg" and "msg_length msg \<le> UBX_MSG_MAX_PAYLOAD_LENGTH"
    and "mallocs_ok e" and "\<forall>k n. umalloc e k n \<noteq> None"
  shows "\<exists>g'. ubx_receive_all e (drop n msg) g = return_run g' \<and> collected g0 msg (length msg) g'"
  using assms(1,2)
proof (induction "length msg - n" arbitrary: n g)
  case 0
  then have "n = length msg" by simp
  with 0 show ?case by auto
next
  case (Suc k)
  then have n: "n < length msg" by simp
  have "\<exists>g'. ubx_msg_receive e (msg ! n) g = return_run (True, g') \<and> collected g0 msg (Suc n) g'"
  proof -
    consider "n < 3" | "n = 3" | "HEADER_LEN \<le> n" by linarith
    then show ?thesis
      using collect_header_byte [OF Suc.prems(1) _ assms(3)] collect_payload_byte [OF Suc.prems(1) _ n assms(3)]
        collect_last_header_byte [OF _ assms(3-6)] Suc.prems(1) by cases auto
  qed
  then obtain g1 where g1: "ubx_msg_receive e (msg ! n) g = return_run (True, g1)" "collected g0 msg (Suc n) g1" by blast
  have "k = length msg - Suc n" using Suc.hyps(2) by simp
  from Suc.hyps(1) [OF this g1(2)] n obtain g' where
    "ubx_receive_all e (drop (Suc n) msg) g1 = return_run g'" "collected g0 msg (length msg) g'" by auto
  with g1(1) show ?case by (simp add: Cons_nth_drop_Suc [OF n, symmetric])
qed

lemma receive_sync:
  assumes "ustate (receiver g) = UBX_STATE_MSG_WAIT" and "ck_a (receiver g) = 0" and "ck_b (receiver g) = 0"
    and "length (uheader (receiver g)) = HEADER_LEN"
  shows "\<exists>g'. ubx_receive_all e [UBX_SYNC_CHAR_1, UBX_SYNC_CHAR_2] g = return_run g' \<and> collected g msg 0 g'"
proof -
  let ?g0 = "upd (\<lambda>r. r\<lparr>ustate := UBX_STATE_MSG_SYNC\<rparr>) g"
  obtain i t where t: "ubx_set_timer e 300 ?g0 = Inr (i, ?g0\<lparr>gtimers := t\<rparr>)" using set_timer_ok by blast
  let ?g1 = "upd (\<lambda>r. r\<lparr>receive_timer_id := i\<rparr>) (?g0\<lparr>gtimers := t\<rparr>)"
  let ?g2 = "upd (\<lambda>r. r\<lparr>offset := 0, ustate := UBX_STATE_MSG_HEADER\<rparr>) ?g1"
  have "receive_switch e UBX_SYNC_CHAR_1 g = return_run (Return True, ?g1)"
    using assms(1) t by (simp add: receive_switch_def update_checksum_def ubx_simps upd_def)
  moreover have "receive_switch e UBX_SYNC_CHAR_2 ?g1 = return_run (Return True, ?g2)"
    by (simp add: receive_switch_def update_checksum_def ubx_simps upd_def)
  moreover have "collected g msg 0 ?g2"
    using assms by (simp add: collected_def Let_def same_client_def upd_def)
  ultimately show ?thesis by (auto dest!: receive_return)
qed

lemma stop_timer_fields [simp]:
  "ucallback (receiver (stop_send_timer g)) = ucallback (receiver g)"
  "umsg (receiver (stop_send_timer g)) = umsg (receiver g)" "ustate (receiver (stop_send_timer g)) = ustate (receiver g)"
  "uheader (receiver (stop_send_timer g)) = uheader (receiver g)" "offset (receiver (stop_send_timer g)) = offset (receiver g)"
  "delivered (stop_send_timer g) = delivered g"
  "ucallback (receiver (stop_receive_timer g)) = ucallback (receiver g)"
  "umsg (receiver (stop_receive_timer g)) = umsg (receiver g)" "ustate (receiver (stop_receive_timer g)) = ustate (receiver g)"
  "uheader (receiver (stop_receive_timer g)) = uheader (receiver g)" "offset (receiver (stop_receive_timer g)) = offset (receiver g)"
  "delivered (stop_receive_timer g) = delivered g"
  by (simp_all add: stop_send_timer_def stop_receive_timer_def stop_timer_def upd_def)

lemma receive_all_single: "ubx_receive_all e [d] g = next_run (ubx_msg_receive e d g) (\<lambda>(_, g). return_run g)"
  by (simp add: split_def)

lemma receive_break:
  assumes "receive_switch e d g = next_run r (\<lambda>g. return_run (Break False, g))"
  shows "next_run (ubx_msg_receive e d g) (\<lambda>(_, g). return_run g) = next_run r (\<lambda>g2. Some (reset_state (stop_receive_timer g2)))"
proof (cases "(r, \<lambda>g :: ubgps. return_run (Break False, g))" rule: next_run.cases)
  case (3 a f)
  then have "r = return_run a" by simp
  with assms show ?thesis
    by (subst ubx_msg_receive.simps) (cases "reset_state (stop_receive_timer a)"; simp)
qed (use assms in \<open>subst ubx_msg_receive.simps, simp\<close>)+

text \<open>The last checksum byte hands the message to the callback, then the receiver is reset.\<close>

lemma receive_checksum:
  assumes "collected g0 msg (length msg) g" and "HEADER_LEN \<le> length msg" and cb: "ucallback (receiver g0) = Some cb"
  shows "\<exists>g1. delivered g1 = delivered g0 \<and> umsg (receiver g1) = Some msg \<and> ustate (receiver g1) = UBX_STATE_MSG_CHECKSUM2 \<and>
    length (uheader (receiver g1)) = HEADER_LEN \<and> ucallback (receiver g1) = Some cb \<and> waiting_ack (receiver g1) = waiting_ack (receiver g0) \<and>
    send_timer_id (receiver g1) =
      (if send_timer_id (receiver g0) \<ge> 0 \<and> acknowledges msg (waiting_ack (receiver g0)) then -1 else send_timer_id (receiver g0)) \<and>
    ubx_receive_all e [fst (fletcher msg (0, 0)), snd (fletcher msg (0, 0))] g =
      next_run (call_back e cb msg False g1) (\<lambda>g2. Some (reset_state (stop_receive_timer g2)))"
proof -
  obtain a b where ab: "fletcher msg (0, 0) = (a, b)" by fastforce
  have c: "ustate (receiver g) = UBX_STATE_MSG_CHECKSUM1" "umsg (receiver g) = Some msg" "ck_a (receiver g) = a" "ck_b (receiver g) = b"
    "same_client g0 g" "length (uheader (receiver g)) = HEADER_LEN"
    using assms(1,2) ab by (auto simp: collected_def Let_def)
  let ?g = "upd (\<lambda>r. r\<lparr>ustate := UBX_STATE_MSG_CHECKSUM2\<rparr>) g"
  let ?g1 = "if send_timer_id (receiver ?g) \<ge> 0 \<and> acknowledges msg (waiting_ack (receiver ?g)) then stop_send_timer ?g else ?g"
  have "receive_switch e a g = return_run (Return True, ?g)"
    using c by (simp add: receive_switch_def update_checksum_def ubx_simps upd_def)
  then have 1: "ubx_msg_receive e a g = return_run (True, ?g)" by (rule receive_return)
  have same: "ucallback (receiver ?g1) = Some cb" "upriv (receiver ?g1) = upriv (receiver g0)" "delivered ?g1 = delivered g0"
    "umsg (receiver ?g1) = Some msg" "ustate (receiver ?g1) = UBX_STATE_MSG_CHECKSUM2" "length (uheader (receiver ?g1)) = HEADER_LEN"
    "waiting_ack (receiver ?g1) = waiting_ack (receiver g0)"
    "send_timer_id (receiver ?g1) = (if send_timer_id (receiver g0) \<ge> 0 \<and> acknowledges msg (waiting_ack (receiver g0)) then -1 else send_timer_id (receiver g0))"
    using c cb by (simp_all add: same_client_def stop_send_timer_def stop_timer_def upd_def)
  have "receive_switch e b ?g = next_run (call_back e cb msg False ?g1) (\<lambda>g. return_run (Break False, g))"
    using c cb by (simp add: receive_switch_def update_checksum_def ubx_simps message_complete_def upd_def Let_def same_client_def)
  note 2 = receive_break [OF this]
  have "ubx_receive_all e [a, b] g = next_run (call_back e cb msg False ?g1) (\<lambda>g2. Some (reset_state (stop_receive_timer g2)))"
    by (simp only: ubx_receive_all.simps(2) [of e a] 1 next_run.simps prod.case receive_all_single 2)
  with same show ?thesis unfolding ab fst_conv snd_conv by blast
qed

section \<open>Every sequence of bytes\<close>

text \<open>
  A message is allocated exactly from the end of its header on, with room for its payload; offsets stay
  inside the header and the payload.
\<close>

definition recv_core :: "ubx_receiver_s \<Rightarrow> bool" where
  "recv_core r \<longleftrightarrow> ucallback r \<noteq> None \<and> length (uheader r) = HEADER_LEN \<and>
     (umsg r \<noteq> None \<longleftrightarrow> UBX_STATE_MSG_PAYLOAD \<le> ustate r) \<and> (\<forall>msg. umsg r = Some msg \<longrightarrow> msg_ok msg)"

definition recv_inv :: "ubx_receiver_s \<Rightarrow> bool" where
  "recv_inv r \<longleftrightarrow> recv_core r \<and>
     (ustate r = UBX_STATE_MSG_HEADER \<longrightarrow> offset r < HEADER_LEN) \<and>
     (ustate r = UBX_STATE_MSG_PAYLOAD \<longrightarrow> (\<forall>msg. umsg r = Some msg \<longrightarrow> offset r < msg_length msg))"

fun ubx_op_ok :: "ubx_op \<Rightarrow> bool" where
  "ubx_op_ok (Send_msg fd (Some msg)) = msg_ok msg"
| "ubx_op_ok (Timer_op (Set_timer msec cb priv)) = (cb \<noteq> None)"
| "ubx_op_ok _ = True"

definition ubx_env_ok :: "ubx_env \<Rightarrow> bool" where
  "ubx_env_ok e \<longleftrightarrow> writes_ok e \<and> mallocs_ok e \<and> (\<forall>cb priv msg t g. list_all ubx_op_ok (ucb e cb priv msg t g))"

lemma reset_state_ok:
  assumes "recv_core (receiver g)"
  shows "\<exists>g'. reset_state g = Inr g' \<and> recv_inv (receiver g') \<and> ustate (receiver g') = UBX_STATE_MSG_WAIT \<and>
    umsg (receiver g') = None \<and> ck_a (receiver g') = 0 \<and> ck_b (receiver g') = 0 \<and> delivered g' = delivered g"
  using assms by (auto simp: reset_state_def recv_inv_def recv_core_def check_def Let_def ubx_simps)

lemma recv_inv_stop [simp]:
  "recv_inv (receiver (stop_send_timer g)) = recv_inv (receiver g)"
  "recv_inv (receiver (stop_receive_timer g)) = recv_inv (receiver g)"
  "recv_core (receiver (stop_send_timer g)) = recv_core (receiver g)"
  "recv_core (receiver (stop_receive_timer g)) = recv_core (receiver g)"
  by (simp_all add: recv_inv_def recv_core_def)

text \<open>What an operation of the callback may change while a message is delivered.\<close>

definition op_frame :: "ubgps \<Rightarrow> ubgps \<Rightarrow> bool" where
  "op_frame g g' \<longleftrightarrow> recv_inv (receiver g') \<and> delivered g' = delivered g"

lemma apply_ubx_op_ok:
  assumes "ubx_env_ok e" and "recv_inv (receiver g)" and "ubx_op_ok op"
  shows "runs (op_frame g) (apply_ubx_op e op g)"
proof (cases op)
  case (Send_msg fd m)
  consider "m = None \<or> fd < 0 \<or> 0 \<le> send_timer_id (receiver g)" | msg where "m = Some msg" "0 \<le> fd" "send_timer_id (receiver g) < 0"
    by force
  then show ?thesis
  proof cases
    case 1
    with Send_msg assms(2) show ?thesis by (auto simp: apply_ubx_op_def ubx_msg_send_def op_frame_def split: option.splits)
  next
    case 2
    then have "msg_ok msg" using assms(3) Send_msg by simp
    with send_frame [OF _ 2(2,3)] assms(1) obtain g' where g': "ubx_msg_send e fd (Some msg) g = return_run (Inr (), g')"
      "delivered g' = delivered g"
      "receiver g' = receiver g \<or> (\<exists>w i. receiver g' = (receiver g)\<lparr>waiting_ack := w, send_timer_id := i\<rparr>)"
      unfolding ubx_env_ok_def by metis
    then have "recv_inv (receiver g')" using assms(2) by (auto simp: recv_inv_def recv_core_def)
    with g' 2 Send_msg show ?thesis by (simp add: apply_ubx_op_def op_frame_def)
  qed
next
  case Reset_receiver
  then show ?thesis
    using reset_state_ok [of "stop_receive_timer (stop_send_timer g)"] assms(2)
    by (auto simp: apply_ubx_op_def ubx_reset_def op_frame_def recv_inv_def)
next
  case (Timer_op t)
  have "\<exists>ts. gps_apply (utimers e) t (gtimers g) = Some ts"
    using assms(3) Timer_op by (cases t) (auto simp: gps_apply_def ubgps_set_timer_def Let_def)
  with Timer_op assms(2) show ?thesis by (auto simp: apply_ubx_op_def op_frame_def)
qed

lemma run_ubx_ops_ok:
  assumes "ubx_env_ok e" and "recv_inv (receiver g)" and "list_all ubx_op_ok ops"
  shows "runs (op_frame g) (run_ubx_ops e ops g)"
  using assms(2,3)
proof (induction ops arbitrary: g)
  case (Cons op ops)
  then have "runs (op_frame g) (apply_ubx_op e op g)" using apply_ubx_op_ok [OF assms(1)] by simp
  moreover have "runs (op_frame g) (run_ubx_ops e ops g1)" if "op_frame g g1" for g1
    using Cons.IH [of g1] Cons.prems(2) that by (auto simp: op_frame_def elim!: runs_mono)
  ultimately show ?case by (auto elim!: runs_mono)
qed (simp add: op_frame_def)

lemma call_back_ok:
  assumes "ubx_env_ok e" and "recv_inv (receiver g)"
  shows "runs (\<lambda>g'. recv_inv (receiver g') \<and> delivered g' = delivered g @ [(msg, timeout)]) (call_back e cb msg timeout g)"
proof -
  let ?g = "g\<lparr>delivered := delivered g @ [(msg, timeout)]\<rparr>"
  have "list_all ubx_op_ok (ucb e cb (upriv (receiver g)) msg timeout g)" using assms(1) by (simp add: ubx_env_ok_def)
  from run_ubx_ops_ok [OF assms(1) _ this, of ?g] assms(2) show ?thesis
    by (auto simp: call_back_def op_frame_def elim!: runs_mono)
qed

text \<open>
  One round of the machine: the invariant holds again when it returns, and the part of it that \<open>reset_state\<close>
  needs when it breaks out. A waiting receiver never finds a byte invalid.
\<close>

definition round_ok :: "ubgps \<Rightarrow> outcome \<times> ubgps \<Rightarrow> bool" where
  "round_ok g = (\<lambda>(out, g'). case out of
     Return ok \<Rightarrow> recv_inv (receiver g')
   | Break invalid \<Rightarrow> recv_core (receiver g') \<and> (invalid \<longrightarrow> ustate (receiver g) \<noteq> UBX_STATE_MSG_WAIT))"

lemma update_checksum_fields [simp]:
  "recv_inv (update_checksum d r) = recv_inv r" "recv_core (update_checksum d r) = recv_core r"
  "ustate (update_checksum d r) = ustate r" "umsg (update_checksum d r) = umsg r" "offset (update_checksum d r) = offset r"
  "uheader (update_checksum d r) = uheader r" "ucallback (update_checksum d r) = ucallback r"
  by (simp_all add: update_checksum_def recv_inv_def recv_core_def)

lemma header_complete_ok:
  assumes "mallocs_ok e" and "recv_core (receiver g)" and st: "ustate (receiver g) = UBX_STATE_MSG_HEADER"
    and g0: "ustate (receiver g0) = UBX_STATE_MSG_HEADER"
  shows "runs (round_ok g0) (header_complete e g)"
proof -
  let ?h = "uheader (receiver g)"
  have none: "umsg (receiver g) = None" "ucallback (receiver g) \<noteq> None" "length ?h = HEADER_LEN"
    using assms(2) st by (auto simp: recv_core_def ubx_simps)
  have block: "msg_ok (?h @ drop HEADER_LEN block)" "HEADER_LEN \<le> length block"
    "msg_length (?h @ drop HEADER_LEN block) = msg_length ?h"
    if "umalloc e k (HEADER_LEN + msg_length ?h) = Some block" for k block
    using that assms(1) none(3) by (simp_all add: mallocs_ok_def msg_ok_def header_length)
  show ?thesis
    using assms(2) none st g0
    by (auto simp: header_complete_def Let_def round_ok_def recv_inv_def recv_core_def ubx_simps upd_def block split: option.splits)
qed

lemma receive_header_ok:
  assumes "mallocs_ok e" and "recv_inv (receiver g)" and "ustate (receiver g) = UBX_STATE_MSG_HEADER"
    and "ustate (receiver g0) = UBX_STATE_MSG_HEADER"
  shows "runs (round_ok g0) (receive_header e d g)"
proof -
  let ?g = "g\<lparr>receiver := (receiver g)\<lparr>uheader := (uheader (receiver g))[offset (receiver g) := d],
    offset := Suc (offset (receiver g))\<rparr>\<rparr>"
  have "recv_core (receiver ?g)" "offset (receiver g) < HEADER_LEN" using assms(2,3) by (auto simp: recv_inv_def recv_core_def)
  with header_complete_ok [OF assms(1), of ?g g0] assms show ?thesis
    by (auto simp: receive_header_def Let_def round_ok_def recv_inv_def ubx_simps)
qed

lemma receive_payload_ok:
  assumes "recv_inv (receiver g)" and "ustate (receiver g) = UBX_STATE_MSG_PAYLOAD"
  shows "runs (round_ok g0) (receive_payload d g)"
proof -
  obtain msg where msg: "umsg (receiver g) = Some msg" "msg_ok msg" "offset (receiver g) < msg_length msg"
    using assms by (auto simp: recv_inv_def recv_core_def ubx_simps)
  then have "msg_length (msg[HEADER_LEN + offset (receiver g) := d]) = msg_length msg"
    by (intro msg_length_take) (simp_all add: msg_ok_def)
  with msg assms show ?thesis
    by (auto simp: receive_payload_def Let_def round_ok_def recv_inv_def recv_core_def ubx_simps msg_ok_def)
qed

lemma message_complete_ok:
  assumes "ubx_env_ok e" and "recv_inv (receiver g)" and "ustate (receiver g) = UBX_STATE_MSG_CHECKSUM2"
  shows "runs (round_ok g0) (message_complete e g)"
proof -
  obtain msg cb where m: "umsg (receiver g) = Some msg" "ucallback (receiver g) = Some cb"
    using assms(2,3) by (auto simp: recv_inv_def recv_core_def ubx_simps)
  have "runs (\<lambda>g'. recv_inv (receiver g')) (call_back e cb msg False g1)" if "recv_inv (receiver g1)" for g1
    using call_back_ok [OF assms(1) that, of msg False cb] by (auto elim: runs_mono)
  then have "runs (\<lambda>g'. round_ok g0 (Break False, g')) (call_back e cb msg False g1)" if "recv_inv (receiver g1)" for g1
    using that by (fastforce simp: round_ok_def recv_inv_def elim: runs_mono)
  with m assms(2) show ?thesis by (simp add: message_complete_def Let_def)
qed

lemma receive_switch_ok:
  assumes "ubx_env_ok e" and "recv_inv (receiver g)"
  shows "runs (round_ok g) (receive_switch e d g)"
proof -
  let ?g = "upd (update_checksum d) g"
  have inv: "recv_inv (receiver ?g)" "ustate (receiver ?g) = ustate (receiver g)" using assms(2) by (simp_all add: upd_def)
  have mal: "mallocs_ok e" using assms(1) by (simp add: ubx_env_ok_def)
  show ?thesis
  proof (cases "ustate (receiver g)")
    case UBX_STATE_MSG_WAIT
    let ?g0 = "upd (\<lambda>r. r\<lparr>ustate := UBX_STATE_MSG_SYNC\<rparr>) ?g"
    obtain i t where t: "ubx_set_timer e 300 ?g0 = Inr (i, ?g0\<lparr>gtimers := t\<rparr>)" using set_timer_ok by blast
    have "recv_inv ((receiver ?g0)\<lparr>receive_timer_id := i\<rparr>)"
      using inv UBX_STATE_MSG_WAIT by (auto simp: recv_inv_def recv_core_def upd_def ubx_simps)
    with UBX_STATE_MSG_WAIT inv t show ?thesis by (auto simp: receive_switch_def Let_def round_ok_def upd_def)
  next
    case UBX_STATE_MSG_HEADER
    with receive_header_ok [OF mal inv(1), of g d] inv(2) show ?thesis by (simp add: receive_switch_def Let_def)
  next
    case UBX_STATE_MSG_PAYLOAD
    with receive_payload_ok [OF inv(1), of g d] inv(2) show ?thesis by (simp add: receive_switch_def Let_def)
  next
    case UBX_STATE_MSG_CHECKSUM2
    with message_complete_ok [OF assms(1) inv(1), of g] inv show ?thesis
      by (simp add: receive_switch_def Let_def round_ok_def recv_inv_def)
  qed (use inv in \<open>auto simp: receive_switch_def Let_def round_ok_def recv_inv_def recv_core_def upd_def ubx_simps\<close>)
qed

text \<open>A byte is taken at once or, after a reset, by a waiting receiver: the loop runs at most twice.\<close>

lemma receive_byte_ok:
  assumes "ubx_env_ok e" and "recv_inv (receiver g)"
  shows "runs (\<lambda>(ok, g'). recv_inv (receiver g')) (ubx_msg_receive e d g)"
proof -
  have waiting: "runs (\<lambda>(ok, g'). recv_inv (receiver g')) (ubx_msg_receive e d g)"
    if w: "recv_inv (receiver g)" "ustate (receiver g) = UBX_STATE_MSG_WAIT" for g
  proof -
    obtain out g1 where g1: "receive_switch e d g = return_run (out, g1)" "round_ok g (out, g1)"
      using receive_switch_ok [OF assms(1) w(1), of d] by (auto simp: runs_def)
    show ?thesis
    proof (cases out)
      case (Break invalid)
      with g1(2) w(2) have "\<not> invalid" "recv_core (receiver (stop_receive_timer g1))" by (auto simp: round_ok_def)
      with reset_state_ok g1 Break show ?thesis by (subst ubx_msg_receive.simps) fastforce
    qed (use g1 in \<open>subst ubx_msg_receive.simps, simp add: round_ok_def\<close>)
  qed
  obtain out g1 where g1: "receive_switch e d g = return_run (out, g1)" "round_ok g (out, g1)"
    using receive_switch_ok [OF assms, of d] by (auto simp: runs_def)
  show ?thesis
  proof (cases out)
    case (Break invalid)
    with g1(2) have "recv_core (receiver (stop_receive_timer g1))" by (auto simp: round_ok_def)
    with reset_state_ok obtain g2 where "reset_state (stop_receive_timer g1) = Inr g2" "recv_inv (receiver g2)"
      "ustate (receiver g2) = UBX_STATE_MSG_WAIT" by blast
    with g1(1) Break waiting [of g2] show ?thesis by (subst ubx_msg_receive.simps) simp
  qed (use g1 in \<open>subst ubx_msg_receive.simps, simp add: round_ok_def\<close>)
qed

lemma receive_all_ok:
  assumes "ubx_env_ok e" and "recv_inv (receiver g)"
  shows "runs (\<lambda>g'. recv_inv (receiver g')) (ubx_receive_all e ds g)"
  using assms(2)
proof (induction ds arbitrary: g)
  case (Cons d ds)
  from receive_byte_ok [OF assms(1) Cons.prems, of d] show ?case
    by (auto simp: Cons.IH elim!: runs_mono)
qed simp

end
