(* ===== verification/Ubx_Properties.thy ===== *)
theory Ubx_Properties
  imports Ubx_Receive
begin

text \<open>The properties of the UBX protocol, with concrete states at which their hypotheses hold.\<close>

section \<open>Concrete states\<close>

definition demo_timespec :: timespec where
  "demo_timespec = \<lparr>tv_sec = 10, tv_nsec = 0\<rparr>"

text \<open>A port that takes at most three bytes at a time; a callback that sends an answer and resets.\<close>

definition demo_ubx_env :: ubx_env where
  "demo_ubx_env = \<lparr>utimers = \<lparr>tclk = (\<lambda>_. demo_timespec), talloc = (\<lambda>k n. n < 100), tcb = (\<lambda>cb i priv s. [])\<rparr>,
     umalloc = (\<lambda>k n. Some (replicate n 0)), uwrite = (\<lambda>k buf. Written (min 3 (length buf))),
     ucb = (\<lambda>cb priv msg t g. [Send_msg 3 (Some [0x0A, 0x04, 0, 0]), Reset_receiver])\<rparr>"

definition demo_gps :: ubgps where
  "demo_gps = \<lparr>receiver = \<lparr>ustate = UBX_STATE_MSG_WAIT, waiting_ack = [6, 1, 0, 0], uheader = [0, 0, 0, 0], umsg = None, offset = 0,
       ck_a = 0, ck_b = 0, send_timer_id = -1, receive_timer_id = -1, ucallback = Some 1, upriv = 0\<rparr>,
     gtimers = \<lparr>ptimers = [], timer_id_cnt = 0, t_ticks = 0, t_events = []\<rparr>, uticks = 0, uout = [], delivered = []\<rparr>"

lemma demo_ubx_env_ok: "ubx_env_ok demo_ubx_env"
proof -
  have "writes_ok demo_ubx_env" by (fastforce simp: writes_ok_def demo_ubx_env_def)
  then show ?thesis by (simp add: ubx_env_ok_def mallocs_ok_def demo_ubx_env_def msg_ok_def msg_length_def)
qed

lemma demo_gps_inv: "recv_inv (receiver demo_gps)"
  by (simp add: recv_inv_def recv_core_def demo_gps_def ubx_simps)

section \<open>Properties\<close>



text \<open>
  C15. \<open>ubx_msg_send\<close> writes exactly the frame of the message (sync characters, message, Fletcher checksum), and
  a receiver that is fed such a frame calls its callback once, with that message, and waits for the next
  one with its memory freed; both with writes that are split or have to be repeated.
\<close>

theorem ubx_round_trip:
  assumes "ubx_env_ok e" and "msg_ok msg"
    and "0 \<le> fd" and "send_timer_id (receiver sender) < 0"
    and "recv_inv (receiver g)" and "ustate (receiver g) = UBX_STATE_MSG_WAIT" and "ck_a (receiver g) = 0" and "ck_b (receiver g) = 0"
    and "msg_length msg \<le> UBX_MSG_MAX_PAYLOAD_LENGTH" and "\<forall>k n. umalloc e k n \<noteq> None"
  shows "\<exists>sender' frame g'. ubx_msg_send e fd (Some msg) sender = return_run (Inr (), sender') \<and>
    uout sender' = uout sender @ frame \<and> ubx_receive_all e frame g = return_run g' \<and>
    delivered g' = delivered g @ [(msg, False)] \<and> ustate (receiver g') = UBX_STATE_MSG_WAIT \<and> umsg (receiver g') = None \<and>
    recv_inv (receiver g')"
proof -
  have env: "writes_ok e" "mallocs_ok e" using assms(1) by (simp_all add: ubx_env_ok_def)
  obtain sender' where sent: "ubx_msg_send e fd (Some msg) sender = return_run (Inr (), sender')"
    "uout sender' = uout sender @ ubx_frame msg"
    using send_frame [OF env(1) assms(3,4,2)] by blast
  have hdr: "length (uheader (receiver g)) = HEADER_LEN" "HEADER_LEN \<le> length msg"
    using assms(2,5) by (auto simp: recv_inv_def recv_core_def msg_ok_def)
  obtain cb where cb: "ucallback (receiver g) = Some cb" using assms(5) by (auto simp: recv_inv_def recv_core_def)
  obtain g1 where g1: "ubx_receive_all e [UBX_SYNC_CHAR_1, UBX_SYNC_CHAR_2] g = return_run g1" "collected g msg 0 g1"
    using receive_sync [OF assms(6-8) hdr(1)] by blast
  obtain g2 where g2: "ubx_receive_all e msg g1 = return_run g2" "collected g msg (length msg) g2"
    using collect_rest [OF g1(2) _ assms(2,9) env(2) assms(10)] by auto
  obtain g3 where g3: "delivered g3 = delivered g" "umsg (receiver g3) = Some msg" "ustate (receiver g3) = UBX_STATE_MSG_CHECKSUM2"
    "length (uheader (receiver g3)) = HEADER_LEN" "ucallback (receiver g3) = Some cb"
    "ubx_receive_all e [fst (fletcher msg (0, 0)), snd (fletcher msg (0, 0))] g2 =
      next_run (call_back e cb msg False g3) (\<lambda>g4. Some (reset_state (stop_receive_timer g4)))"
    using receive_checksum [OF g2(2) hdr(2) cb] by blast
  have "recv_inv (receiver g3)" using g3 assms(2) by (simp add: recv_inv_def recv_core_def ubx_simps)
  then obtain g4 where g4: "call_back e cb msg False g3 = return_run g4" "recv_core (receiver (stop_receive_timer g4))"
    "delivered g4 = delivered g @ [(msg, False)]"
    using call_back_ok [OF assms(1), of g3 msg False cb] g3(1) by (auto simp: runs_def recv_inv_def)
  obtain g' where g': "reset_state (stop_receive_timer g4) = Inr g'" "recv_inv (receiver g')" "umsg (receiver g') = None"
    "ustate (receiver g') = UBX_STATE_MSG_WAIT" "delivered g' = delivered g4"
    using reset_state_ok [OF g4(2)] by auto
  have "ubx_receive_all e (ubx_frame msg) g = return_run g'"
    unfolding ubx_frame_def receive_all_append g1(1) next_run.simps g2(1) g3(6) g4(1) g'(1) ..
  with sent g' g4(3) show ?thesis by metis
qed

theorem ubx_round_trip_witness:
  "\<exists>sender' frame g'. ubx_msg_send demo_ubx_env 3 (Some [6, 1, 2, 0, 0xF0, 5]) demo_gps = return_run (Inr (), sender') \<and>
    uout sender' = uout demo_gps @ frame \<and> ubx_receive_all demo_ubx_env frame demo_gps = return_run g' \<and>
    delivered g' = delivered demo_gps @ [([6, 1, 2, 0, 0xF0, 5], False)] \<and> ustate (receiver g') = UBX_STATE_MSG_WAIT \<and>
    umsg (receiver g') = None \<and> recv_inv (receiver g')"
  by (rule ubx_round_trip [OF demo_ubx_env_ok _ _ _ demo_gps_inv])
    (simp_all add: demo_gps_def demo_ubx_env_def msg_ok_def msg_length_def)

text \<open>
  When an acknowledgment does not arrive in time the callback is told so, once, with the header of the
  message that was sent, and the sender is free again; a receive timeout frees the partial message and
  waits for the next one; neither timeout fails, in any state of the receiver.
\<close>

lemma ubx_timeouts:
  assumes "ubx_env_ok e" and "recv_inv (receiver g)"
  shows "\<exists>g'. ubx_timeout e i g = return_run g' \<and> recv_inv (receiver g') \<and>
    (i = send_timer_id (receiver g) \<longrightarrow> delivered g' = delivered g @ [(waiting_ack (receiver g), True)]) \<and>
    (i \<noteq> send_timer_id (receiver g) \<longrightarrow> delivered g' = delivered g) \<and>
    (i \<noteq> send_timer_id (receiver g) \<and> i = receive_timer_id (receiver g) \<longrightarrow>
      ustate (receiver g') = UBX_STATE_MSG_WAIT \<and> umsg (receiver g') = None \<and> receive_timer_id (receiver g') = -1)"
proof (cases "i = send_timer_id (receiver g)")
  case True
  let ?g = "upd (\<lambda>r. r\<lparr>send_timer_id := -1\<rparr>) g"
  have inv: "recv_inv (receiver ?g)" using assms(2) by (simp add: upd_def recv_inv_def recv_core_def)
  obtain cb where cb: "ucallback (receiver ?g) = Some cb" using inv by (auto simp: recv_inv_def recv_core_def)
  from call_back_ok [OF assms(1) inv, of "waiting_ack (receiver g)" True cb] True cb show ?thesis
    by (auto simp: runs_def ubx_timeout_def Let_def upd_def)
next
  case False
  let ?g = "upd (\<lambda>r. r\<lparr>receive_timer_id := -1\<rparr>) g"
  have "recv_core (receiver ?g)" using assms(2) by (simp add: upd_def recv_inv_def recv_core_def)
  from reset_state_ok [OF this] False assms(2) show ?thesis
    by (auto simp: ubx_timeout_def reset_state_def and_then_Inr Let_def upd_def split: if_splits)
qed

end
