(* ===== verification/Mm_Memory.thy ===== *)
theory Mm_Memory
  imports Faults
begin

text \<open>
  The memory under the NuttX allocator: one map from 32-bit addresses to bytes, in which chunk headers,
  free-list links and the caller's data all live, so that an overlap between them is visible. A
  \<open>size_t\<close> or pointer field is four bytes, little endian; \<open>memset\<close> and \<open>memcpy\<close> are the byte loops of
  \<open>nuttx/libc/string\<close>. Addresses in the proofs are natural numbers \<open>A\<close> with the pointer \<open>W A\<close>, so that
  pointer arithmetic is addition of naturals.
\<close>

section \<open>Words and their numbers\<close>

definition W :: "nat \<Rightarrow> u32" where "W n = word_of_nat n"

lemma unat_W [simp]: "n < 4294967296 \<Longrightarrow> unat (W n) = n"
  unfolding W_def by (simp add: unat_of_nat take_bit_eq_mod)

lemma W_unat [simp]: "W (unat x) = x"
  unfolding W_def by simp

lemma W_eq_iff: "a < 4294967296 \<Longrightarrow> b < 4294967296 \<Longrightarrow> W a = W b \<longleftrightarrow> a = b"
  by (metis unat_W)

lemma W_0 [simp]: "W 0 = 0"
  by (simp add: W_def)

lemma W_eq_0_iff: "a < 4294967296 \<Longrightarrow> W a = 0 \<longleftrightarrow> a = 0"
  using W_eq_iff [of a 0] by simp

lemma W_less_iff: "a < 4294967296 \<Longrightarrow> b < 4294967296 \<Longrightarrow> W a < W b \<longleftrightarrow> a < b"
  by (simp add: word_less_nat_alt)

lemma W_le_iff: "a < 4294967296 \<Longrightarrow> b < 4294967296 \<Longrightarrow> W a \<le> W b \<longleftrightarrow> a \<le> b"
  by (simp add: word_le_nat_alt)

lemma W_diff: "b \<le> a \<Longrightarrow> W a - W b = W (a - b)"
  by (simp add: W_def of_nat_diff)

lemma W_add [simp]: "W a + W b = W (a + b)"
  by (simp add: W_def)

lemma W_numeral: "numeral k = W (numeral k)"
  by (simp add: W_def)

lemma W_add_numeral [simp]: "W a + numeral k = W (a + numeral k)" "W a + 1 = W (a + 1)"
    "numeral k + W a = W (a + numeral k)"
  by (simp_all add: W_def)

lemma unat_u32_less [simp]: "unat (x :: u32) < 4294967296"
  using unsigned_less [of x] by simp

section \<open>Bytes and 32-bit fields\<close>

type_synonym memory = "u32 \<Rightarrow> u8"

definition load :: "memory \<Rightarrow> u32 \<Rightarrow> u32" where
  "load m p = ucast (m p) OR push_bit 8 (ucast (m (p + 1))) OR push_bit 16 (ucast (m (p + 2)))
     OR push_bit 24 (ucast (m (p + 3)))"

definition store :: "u32 \<Rightarrow> u32 \<Rightarrow> memory \<Rightarrow> memory" where
  "store p v m =
     m(p := ucast v, p + 1 := ucast (drop_bit 8 v), p + 2 := ucast (drop_bit 16 v),
       p + 3 := ucast (drop_bit 24 v))"

primrec memset :: "u32 \<Rightarrow> u8 \<Rightarrow> nat \<Rightarrow> memory \<Rightarrow> memory" where
  "memset p c 0 m = m"
| "memset p c (Suc n) m = memset (p + 1) c n (m(p := c))"

primrec memcpy :: "u32 \<Rightarrow> u32 \<Rightarrow> nat \<Rightarrow> memory \<Rightarrow> memory" where
  "memcpy pout pin 0 m = m"
| "memcpy pout pin (Suc n) m = memcpy (pout + 1) (pin + 1) n (m(pout := m pin))"

lemma byte_neqs:
  "(p :: u32) + 1 \<noteq> p" "p + 2 \<noteq> p" "p + 3 \<noteq> p" "p + 2 \<noteq> p + 1" "p + 3 \<noteq> p + 1" "p + 3 \<noteq> p + 2"
  "p \<noteq> p + 1" "p \<noteq> p + 2" "p \<noteq> p + 3" "p + 1 \<noteq> p + 2" "p + 1 \<noteq> p + 3" "p + 2 \<noteq> p + 3"
  by simp_all

lemma bytes_of_word:
  "ucast (ucast (v :: u32) :: u8) OR push_bit 8 (ucast (ucast (drop_bit 8 v) :: u8))
     OR push_bit 16 (ucast (ucast (drop_bit 16 v) :: u8)) OR push_bit 24 (ucast (ucast (drop_bit 24 v) :: u8)) = v"
proof (rule bit_word_eqI)
  fix n :: nat
  assume "n < LENGTH(32)"
  then consider "n < 8" | "8 \<le> n \<and> n < 16" | "16 \<le> n \<and> n < 24" | "24 \<le> n \<and> n < 32" by fastforce
  then show "bit (ucast (ucast v :: u8) OR push_bit 8 (ucast (ucast (drop_bit 8 v) :: u8))
     OR push_bit 16 (ucast (ucast (drop_bit 16 v) :: u8)) OR push_bit 24 (ucast (ucast (drop_bit 24 v) :: u8)) :: u32) n = bit v n"
    by cases (auto simp: bit_simps)
qed

lemma load_store [simp]: "load (store p v m) p = v"
  unfolding load_def store_def by (simp add: byte_neqs bytes_of_word)

text \<open>What a field access touches, in natural numbers.\<close>

lemma store_apply_other:
  assumes "unat x < A \<or> A + 4 \<le> unat x" and "A + 4 \<le> 4294967296"
  shows "store (W A) v m x = m x"
proof -
  have "x \<noteq> W (A + i)" if "i < 4" for i
    using assms that by auto
  from this [of 0] this [of 1] this [of 2] this [of 3] show ?thesis
    unfolding store_def by simp
qed

lemma load_cong:
  assumes "\<And>x. A \<le> unat x \<Longrightarrow> unat x < A + 4 \<Longrightarrow> m' x = m x" and "A + 4 \<le> 4294967296"
  shows "load m' (W A) = load m (W A)"
proof -
  have "m' (W (A + i)) = m (W (A + i))" if "i < 4" for i
    using assms that by simp
  from this [of 0] this [of 1] this [of 2] this [of 3] show ?thesis
    unfolding load_def by simp
qed

lemma load_store_other:
  assumes "A + 4 \<le> B \<or> B + 4 \<le> A" and "A + 4 \<le> 4294967296" and "B + 4 \<le> 4294967296"
  shows "load (store (W A) v m) (W B) = load m (W B)"
  using assms by (intro load_cong store_apply_other) auto

lemma memset_apply:
  assumes "A + n \<le> 4294967296"
  shows "memset (W A) c n m x = (if A \<le> unat x \<and> unat x < A + n then c else m x)"
  using assms
proof (induction n arbitrary: A m)
  case (Suc n)
  from Suc.prems have "x = W A \<longleftrightarrow> unat x = A" by auto
  with Suc.IH [of "Suc A"] Suc.prems show ?case by auto
qed auto

lemma memcpy_apply_other:
  assumes "unat x < A \<or> A + n \<le> unat x" and "A + n \<le> 4294967296"
  shows "memcpy (W A) p n m x = m x"
  using assms
proof (induction n arbitrary: A p m)
  case (Suc n)
  then have "x \<noteq> W A" by auto
  with Suc.IH [of "Suc A"] Suc.prems show ?case by auto
qed simp

text \<open>
  The copy is ascending, so it is right also where the destination overlaps the source from below.
\<close>

lemma memcpy_apply:
  assumes "i < n" and "A + n \<le> 4294967296" and "A \<le> B \<or> B + n \<le> A" and "B + i < 4294967296"
  shows "memcpy (W A) (W B) n m (W (A + i)) = m (W (B + i))"
  using assms
proof (induction n arbitrary: A B i m)
  case (Suc n)
  show ?case
  proof (cases i)
    case 0
    with Suc.prems show ?thesis by (simp add: memcpy_apply_other)
  next
    case (Suc j)
    with Suc.prems have "W (Suc (B + j)) \<noteq> W A" by (auto simp: W_eq_iff)
    with Suc.IH [of j "Suc A" "Suc B" "m(W A := m (W B))"] Suc.prems Suc show ?thesis
      by (auto simp: fun_upd_def)
  qed
qed simp

end
