(* ===== verification/Mm_Heap.thy ===== *)
theory Mm_Heap
  imports Mm_Memory
begin

text \<open>
  The NuttX heap allocator \<open>nuttx/mm/mm_heap\<close> as configured for the Thingsee One: 32-bit pointers and
  \<open>size_t\<close>, \<open>CONFIG_MM_SMALL\<close> unset, one region, \<open>CONFIG_DEBUG\<close> set. \<open>struct mm_heap_s\<close> is the record
  \<open>mm_heap\<close>; the array \<open>mm_nodelist\<close> and every chunk header live in the byte memory \<open>mm_mem\<close> of the
  record, the array at address \<open>mm_nodelist\<close>. The routines return an \<open>'a run\<close>: \<open>None\<close> is a walk that
  does not end or a wait for a semaphore that nobody posts, \<open>Inl Assertion\<close> a failed \<open>DEBUGASSERT\<close>.
  The argument \<open>my_pid\<close> is the value of \<open>getpid()\<close>.
\<close>

section \<open>Constants, nodes and the heap structure\<close>

definition MM_MIN_SHIFT :: nat where "MM_MIN_SHIFT = 4"
definition MM_MAX_SHIFT :: nat where "MM_MAX_SHIFT = 22"
definition MM_MIN_CHUNK :: u32 where "MM_MIN_CHUNK = push_bit MM_MIN_SHIFT 1"
definition MM_MAX_CHUNK :: u32 where "MM_MAX_CHUNK = push_bit MM_MAX_SHIFT 1"
definition MM_NNODES :: nat where "MM_NNODES = MM_MAX_SHIFT - MM_MIN_SHIFT + 1"
definition MM_ALLOC_BIT :: u32 where "MM_ALLOC_BIT = 0x80000000"
definition SIZEOF_MM_ALLOCNODE :: u32 where "SIZEOF_MM_ALLOCNODE = 8"
definition SIZEOF_MM_FREENODE :: u32 where "SIZEOF_MM_FREENODE = SIZEOF_MM_ALLOCNODE + 2 * 4"

definition MM_ALIGN_UP :: "u32 \<Rightarrow> u32" where
  "MM_ALIGN_UP a = (a + (MM_MIN_CHUNK - 1)) AND NOT (MM_MIN_CHUNK - 1)"

definition MM_ALIGN_DOWN :: "u32 \<Rightarrow> u32" where
  "MM_ALIGN_DOWN a = a AND NOT (MM_MIN_CHUNK - 1)"

record mm_heap =
  mm_semaphore :: int
  mm_holder :: int
  mm_counts_held :: int
  mm_heapsize :: u32
  mm_heapstart :: u32
  mm_heapend :: u32
  mm_nodelist :: u32
  mm_mem :: memory

text \<open>The fields of \<open>struct mm_freenode_s\<close>; an \<open>mm_allocnode_s\<close> has the first two.\<close>

definition node_size :: "mm_heap \<Rightarrow> u32 \<Rightarrow> u32" where
  "node_size h p = load (mm_mem h) p"

definition node_preceding :: "mm_heap \<Rightarrow> u32 \<Rightarrow> u32" where
  "node_preceding h p = load (mm_mem h) (p + 4)"

definition node_flink :: "mm_heap \<Rightarrow> u32 \<Rightarrow> u32" where
  "node_flink h p = load (mm_mem h) (p + 8)"

definition node_blink :: "mm_heap \<Rightarrow> u32 \<Rightarrow> u32" where
  "node_blink h p = load (mm_mem h) (p + 12)"

definition set_size :: "u32 \<Rightarrow> u32 \<Rightarrow> mm_heap \<Rightarrow> mm_heap" where
  "set_size p v h = h\<lparr>mm_mem := store p v (mm_mem h)\<rparr>"

definition set_preceding :: "u32 \<Rightarrow> u32 \<Rightarrow> mm_heap \<Rightarrow> mm_heap" where
  "set_preceding p v h = h\<lparr>mm_mem := store (p + 4) v (mm_mem h)\<rparr>"

definition set_flink :: "u32 \<Rightarrow> u32 \<Rightarrow> mm_heap \<Rightarrow> mm_heap" where
  "set_flink p v h = h\<lparr>mm_mem := store (p + 8) v (mm_mem h)\<rparr>"

definition set_blink :: "u32 \<Rightarrow> u32 \<Rightarrow> mm_heap \<Rightarrow> mm_heap" where
  "set_blink p v h = h\<lparr>mm_mem := store (p + 12) v (mm_mem h)\<rparr>"

definition nodelist_entry :: "mm_heap \<Rightarrow> nat \<Rightarrow> u32" where
  "nodelist_entry h i = mm_nodelist h + word_of_nat (16 * i)"

lemmas node_defs = node_size_def node_preceding_def node_flink_def node_blink_def
  set_size_def set_preceding_def set_flink_def set_blink_def

section \<open>The semaphore\<close>

text \<open>
  The counting semaphore is initialised to one. A wait on a count of zero is a wait for another task;
  in the sequential model nobody posts, and the call does not return.
\<close>

definition mm_seminitialize :: "mm_heap \<Rightarrow> mm_heap" where
  "mm_seminitialize h = h\<lparr>mm_semaphore := 1, mm_holder := -1, mm_counts_held := 0\<rparr>"

definition mm_trysemaphore :: "int \<Rightarrow> mm_heap \<Rightarrow> bool \<times> mm_heap" where
  "mm_trysemaphore my_pid h =
     (if mm_holder h = my_pid then (True, h\<lparr>mm_counts_held := mm_counts_held h + 1\<rparr>)
      else if mm_semaphore h \<le> 0 then (False, h)
      else (True, h\<lparr>mm_semaphore := mm_semaphore h - 1, mm_holder := my_pid, mm_counts_held := 1\<rparr>))"

definition mm_takesemaphore :: "int \<Rightarrow> mm_heap \<Rightarrow> mm_heap run" where
  "mm_takesemaphore my_pid h =
     (if mm_holder h = my_pid then return_run (h\<lparr>mm_counts_held := mm_counts_held h + 1\<rparr>)
      else if mm_semaphore h \<le> 0 then None
      else return_run (h\<lparr>mm_semaphore := mm_semaphore h - 1, mm_holder := my_pid, mm_counts_held := 1\<rparr>))"

definition mm_givesemaphore :: "int \<Rightarrow> mm_heap \<Rightarrow> mm_heap run" where
  "mm_givesemaphore my_pid h =
     check_run Assertion (mm_holder h = my_pid)
       (if mm_counts_held h > 1 then return_run (h\<lparr>mm_counts_held := mm_counts_held h - 1\<rparr>)
        else return_run (h\<lparr>mm_holder := -1, mm_counts_held := 0, mm_semaphore := mm_semaphore h + 1\<rparr>))"

section \<open>The free list\<close>

function size2ndx_loop :: "u32 \<Rightarrow> nat \<Rightarrow> nat" where
  "size2ndx_loop sz ndx = (if sz > 1 then size2ndx_loop (drop_bit 1 sz) (ndx + 1) else ndx)"
  by pat_completeness auto

termination
proof (relation "measure (\<lambda>(sz, _). unat sz)")
  fix sz :: u32 and ndx :: nat
  assume "sz > 1"
  then have "unat sz div 2 < unat sz"
    by (simp add: word_less_nat_alt)
  then show "((drop_bit 1 sz, ndx + 1), sz, ndx) \<in> measure (\<lambda>(sz, _). unat sz)"
    by (simp add: unat_div drop_bit_eq_div)
qed simp

declare size2ndx_loop.simps [simp del]

definition mm_size2ndx :: "u32 \<Rightarrow> nat" where
  "mm_size2ndx sz =
     (if sz \<ge> MM_MAX_CHUNK then MM_NNODES - 1 else size2ndx_loop (drop_bit MM_MIN_SHIFT sz) 0)"

text \<open>
  The loop of \<open>mm_addfreechunk\<close>, from the pair \<open>(prev, next)\<close>, and the search of \<open>mm_malloc\<close>.
\<close>

partial_function (option) find_slot :: "mm_heap \<Rightarrow> u32 \<Rightarrow> u32 \<Rightarrow> u32 \<Rightarrow> (u32 \<times> u32) option" where
  "find_slot h sz prev next =
     (if next \<noteq> 0 \<and> node_size h next \<noteq> 0 \<and> node_size h next < sz
      then find_slot h sz next (node_flink h next)
      else Some (prev, next))"

definition mm_addfreechunk :: "u32 \<Rightarrow> mm_heap \<Rightarrow> mm_heap run" where
  "mm_addfreechunk node h =
     (let ndx = mm_size2ndx (node_size h node) in
      case find_slot h (node_size h node) (nodelist_entry h ndx) (node_flink h (nodelist_entry h ndx)) of
        None \<Rightarrow> None
      | Some (prev, next) \<Rightarrow>
          (let h = set_flink prev node h;
               h = set_blink node prev h;
               h = set_flink node next h
           in return_run (if next \<noteq> 0 then set_blink next node h else h)))"

text \<open>
  Taking a node out of the list: the same five lines in \<open>mm_malloc\<close>, \<open>mm_free\<close> (twice), \<open>mm_shrinkchunk\<close>
  and \<open>mm_realloc\<close> (twice).
\<close>

definition mm_unlink :: "u32 \<Rightarrow> mm_heap \<Rightarrow> mm_heap run" where
  "mm_unlink node h =
     check_run Assertion (node_blink h node \<noteq> 0)
       (let h = set_flink (node_blink h node) (node_flink h node) h
        in return_run (if node_flink h node \<noteq> 0
                       then set_blink (node_flink h node) (node_blink h node) h else h))"

section \<open>Initialisation\<close>

definition mm_addregion :: "u32 \<Rightarrow> u32 \<Rightarrow> mm_heap \<Rightarrow> mm_heap run" where
  "mm_addregion heapstart heapsize h =
     (let heapbase = MM_ALIGN_UP heapstart;
          heapend = MM_ALIGN_DOWN (heapstart + heapsize);
          heapsize = heapend - heapbase;
          h = h\<lparr>mm_heapsize := mm_heapsize h + heapsize\<rparr>;
          h = h\<lparr>mm_heapstart := heapbase\<rparr>;
          h = set_size (mm_heapstart h) SIZEOF_MM_ALLOCNODE h;
          h = set_preceding (mm_heapstart h) MM_ALLOC_BIT h;
          node = heapbase + SIZEOF_MM_ALLOCNODE;
          h = set_size node (heapsize - 2 * SIZEOF_MM_ALLOCNODE) h;
          h = set_preceding node SIZEOF_MM_ALLOCNODE h;
          h = h\<lparr>mm_heapend := heapend - SIZEOF_MM_ALLOCNODE\<rparr>;
          h = set_size (mm_heapend h) SIZEOF_MM_ALLOCNODE h;
          h = set_preceding (mm_heapend h) (node_size h node OR MM_ALLOC_BIT) h
      in mm_addfreechunk node h)"

definition init_links :: "nat \<Rightarrow> mm_heap \<Rightarrow> mm_heap" where
  "init_links i h =
     (let h = set_flink (nodelist_entry h (i - 1)) (nodelist_entry h i) h
      in set_blink (nodelist_entry h i) (nodelist_entry h (i - 1)) h)"

definition mm_initialize :: "u32 \<Rightarrow> u32 \<Rightarrow> mm_heap \<Rightarrow> mm_heap run" where
  "mm_initialize heapstart heapsize h =
     (let h = h\<lparr>mm_heapsize := 0\<rparr>;
          h = h\<lparr>mm_mem := memset (mm_nodelist h) 0 (16 * MM_NNODES) (mm_mem h)\<rparr>;
          h = fold init_links [1..<MM_NNODES] h
      in mm_addregion heapstart heapsize (mm_seminitialize h))"

section \<open>Allocation\<close>

partial_function (option) find_fit :: "mm_heap \<Rightarrow> u32 \<Rightarrow> u32 \<Rightarrow> u32 option" where
  "find_fit h sz node =
     (if node \<noteq> 0 \<and> node_size h node < sz then find_fit h sz (node_flink h node) else Some node)"

text \<open>The branch of \<open>mm_malloc\<close> in which the search has found a node.\<close>

definition malloc_from :: "u32 \<Rightarrow> u32 \<Rightarrow> mm_heap \<Rightarrow> (u32 \<times> mm_heap) run" where
  "malloc_from node sz h =
     next_run (mm_unlink node h) (\<lambda>h.
       let remaining = node_size h node - sz in
       next_run
         (if remaining \<ge> SIZEOF_MM_FREENODE
          then (let next = node + node_size h node;
                    remainder = node + sz;
                    h = set_size remainder remaining h;
                    h = set_preceding remainder sz h;
                    h = set_size node sz h;
                    h = set_preceding next (remaining OR (node_preceding h next AND MM_ALLOC_BIT)) h
                in mm_addfreechunk remainder h)
          else return_run h)
         (\<lambda>h. let h = set_preceding node (node_preceding h node OR MM_ALLOC_BIT) h
              in return_run (node + SIZEOF_MM_ALLOCNODE, h)))"

definition mm_malloc :: "int \<Rightarrow> u32 \<Rightarrow> mm_heap \<Rightarrow> (u32 \<times> mm_heap) run" where
  "mm_malloc my_pid sz h =
     (if sz < 1 then return_run (0, h)
      else
        (let sz = MM_ALIGN_UP (sz + SIZEOF_MM_ALLOCNODE) in
         next_run (mm_takesemaphore my_pid h) (\<lambda>h.
           let ndx = (if sz \<ge> MM_MAX_CHUNK then MM_NNODES - 1 else mm_size2ndx sz) in
           case find_fit h sz (node_flink h (nodelist_entry h ndx)) of
             None \<Rightarrow> None
           | Some node \<Rightarrow>
               next_run (if node \<noteq> 0 then malloc_from node sz h else return_run (0, h)) (\<lambda>(ret, h).
               next_run (mm_givesemaphore my_pid h) (\<lambda>h. return_run (ret, h))))))"

definition mm_zalloc :: "int \<Rightarrow> u32 \<Rightarrow> mm_heap \<Rightarrow> (u32 \<times> mm_heap) run" where
  "mm_zalloc my_pid sz h =
     next_run (mm_malloc my_pid sz h) (\<lambda>(alloc, h).
       return_run (alloc, if alloc \<noteq> 0 then h\<lparr>mm_mem := memset alloc 0 (unat sz) (mm_mem h)\<rparr> else h))"

definition mm_calloc :: "int \<Rightarrow> u32 \<Rightarrow> u32 \<Rightarrow> mm_heap \<Rightarrow> (u32 \<times> mm_heap) run" where
  "mm_calloc my_pid n elem_size h =
     (if n > 0 \<and> elem_size > 0 then mm_zalloc my_pid (n * elem_size) h else return_run (0, h))"

section \<open>Release\<close>

text \<open>The two merges of \<open>mm_free\<close>; each returns the pointer the C code updates with them.\<close>

definition free_merge_next :: "u32 \<Rightarrow> mm_heap \<Rightarrow> (u32 \<times> mm_heap) run" where
  "free_merge_next node h =
     (let next = node + node_size h node in
      if node_preceding h next AND MM_ALLOC_BIT = 0
      then (let andbeyond = next + node_size h next in
            next_run (mm_unlink next h) (\<lambda>h.
              let h = set_size node (node_size h node + node_size h next) h;
                  h = set_preceding andbeyond
                        (node_size h node OR (node_preceding h andbeyond AND MM_ALLOC_BIT)) h
              in return_run (andbeyond, h)))
      else return_run (next, h))"

definition free_merge_prev :: "u32 \<Rightarrow> u32 \<Rightarrow> mm_heap \<Rightarrow> (u32 \<times> mm_heap) run" where
  "free_merge_prev node next h =
     (let prev = node - node_preceding h node in
      if node_preceding h prev AND MM_ALLOC_BIT = 0
      then next_run (mm_unlink prev h) (\<lambda>h.
             let h = set_size prev (node_size h prev + node_size h node) h;
                 h = set_preceding next
                       (node_size h prev OR (node_preceding h next AND MM_ALLOC_BIT)) h
             in return_run (prev, h))
      else return_run (node, h))"

definition mm_free :: "int \<Rightarrow> u32 \<Rightarrow> mm_heap \<Rightarrow> mm_heap run" where
  "mm_free my_pid mem h =
     (if mem = 0 then return_run h
      else
        next_run (mm_takesemaphore my_pid h) (\<lambda>h.
          let node = mem - SIZEOF_MM_ALLOCNODE;
              h = set_preceding node (node_preceding h node AND NOT MM_ALLOC_BIT) h
          in next_run (free_merge_next node h) (\<lambda>(next, h).
             next_run (free_merge_prev node next h) (\<lambda>(node, h).
             next_run (mm_addfreechunk node h) (mm_givesemaphore my_pid)))))"

section \<open>Resizing\<close>

definition mm_shrinkchunk :: "u32 \<Rightarrow> u32 \<Rightarrow> mm_heap \<Rightarrow> mm_heap run" where
  "mm_shrinkchunk node sz h =
     (let next = node + node_size h node in
      if node_preceding h next AND MM_ALLOC_BIT = 0
      then (let andbeyond = next + node_size h next in
            next_run (mm_unlink next h) (\<lambda>h.
              let newnode = node + sz;
                  h = set_size newnode (node_size h next + node_size h node - sz) h;
                  h = set_preceding newnode sz h;
                  h = set_size node sz h;
                  h = set_preceding andbeyond
                        (node_size h newnode OR (node_preceding h andbeyond AND MM_ALLOC_BIT)) h
              in mm_addfreechunk newnode h))
      else if node_size h node \<ge> sz + SIZEOF_MM_FREENODE
      then (let newnode = node + sz;
                h = set_size newnode (node_size h node - sz) h;
                h = set_preceding newnode sz h;
                h = set_size node sz h;
                h = set_preceding next (node_size h newnode OR MM_ALLOC_BIT) h
            in mm_addfreechunk newnode h)
      else return_run h)"

text \<open>
  \<open>mm_realloc\<close> in the order of the code: how much to take from the neighbours, the extension into the
  previous chunk (which moves the data down), the extension into the next one.
\<close>

definition realloc_plan :: "u32 \<Rightarrow> u32 \<Rightarrow> u32 \<Rightarrow> u32 \<times> u32" where
  "realloc_plan needed prevsize nextsize =
     (let (takeprev, takenext, needed) =
        (if prevsize > 0 \<and> (nextsize \<ge> prevsize \<or> nextsize < 1)
         then (if needed > prevsize then (prevsize, needed - prevsize, 0) else (needed, 0, 0))
         else (0, 0, needed))
      in if nextsize > 0 \<and> needed \<noteq> 0
         then (if needed > nextsize then (needed - nextsize, nextsize) else (0, needed))
         else (takeprev, takenext))"

definition realloc_prev :: "u32 \<Rightarrow> u32 \<Rightarrow> u32 \<Rightarrow> u32 \<Rightarrow> u32 \<Rightarrow> u32 \<Rightarrow> u32 \<Rightarrow> mm_heap
    \<Rightarrow> (u32 \<times> u32 \<times> u32 \<times> mm_heap) run" where
  "realloc_prev oldmem oldnode oldsize prev prevsize next takeprev h =
     (if takeprev \<noteq> 0
      then next_run (mm_unlink prev h) (\<lambda>h.
             let newnode = oldnode - takeprev in
             next_run
               (if takeprev < prevsize
                then (let h = set_size prev (node_size h prev - takeprev) h;
                          h = set_size newnode (oldsize + takeprev) h;
                          h = set_preceding newnode (node_size h prev OR MM_ALLOC_BIT) h;
                          h = set_preceding next
                                (node_size h newnode OR (node_preceding h next AND MM_ALLOC_BIT)) h
                      in mm_addfreechunk prev h)
                else (let h = set_size newnode (node_size h newnode + oldsize) h;
                          h = set_preceding newnode (node_preceding h newnode OR MM_ALLOC_BIT) h;
                          h = set_preceding next
                                (node_size h newnode OR (node_preceding h next AND MM_ALLOC_BIT)) h
                      in return_run h))
               (\<lambda>h. let oldsize = node_size h newnode;
                       newmem = newnode + SIZEOF_MM_ALLOCNODE;
                       h = h\<lparr>mm_mem := memcpy newmem oldmem (unat (oldsize - SIZEOF_MM_ALLOCNODE)) (mm_mem h)\<rparr>
                   in return_run (newnode, oldsize, newmem, h)))
      else return_run (oldnode, oldsize, oldmem, h))"

definition realloc_next :: "u32 \<Rightarrow> u32 \<Rightarrow> u32 \<Rightarrow> u32 \<Rightarrow> u32 \<Rightarrow> mm_heap \<Rightarrow> mm_heap run" where
  "realloc_next oldnode oldsize next nextsize takenext h =
     (if takenext \<noteq> 0
      then (let andbeyond = next + nextsize in
            next_run (mm_unlink next h) (\<lambda>h.
              let h = set_size oldnode (oldsize + takenext) h;
                  newnode = oldnode + node_size h oldnode
              in if takenext < nextsize
                 then (let h = set_size newnode (nextsize - takenext) h;
                           h = set_preceding newnode (node_size h oldnode) h;
                           h = set_preceding andbeyond
                                 (node_size h newnode OR (node_preceding h andbeyond AND MM_ALLOC_BIT)) h
                       in mm_addfreechunk newnode h)
                 else return_run
                        (set_preceding andbeyond
                           (node_size h oldnode OR (node_preceding h andbeyond AND MM_ALLOC_BIT)) h)))
      else return_run h)"

text \<open>The new chunk is there or not: copy and release the old one.\<close>

definition realloc_copy :: "int \<Rightarrow> u32 \<Rightarrow> u32 \<Rightarrow> u32 \<Rightarrow> mm_heap \<Rightarrow> (u32 \<times> mm_heap) run" where
  "realloc_copy my_pid oldmem oldsize newmem h =
     (if newmem \<noteq> 0
      then (let h = h\<lparr>mm_mem := memcpy newmem oldmem (unat oldsize) (mm_mem h)\<rparr> in
            next_run (mm_free my_pid oldmem h) (\<lambda>h. return_run (newmem, h)))
      else return_run (newmem, h))"

definition mm_realloc :: "int \<Rightarrow> u32 \<Rightarrow> u32 \<Rightarrow> mm_heap \<Rightarrow> (u32 \<times> mm_heap) run" where
  "mm_realloc my_pid oldmem sz h =
     (if oldmem = 0 then mm_malloc my_pid sz h
      else if sz < 1 then next_run (mm_free my_pid oldmem h) (\<lambda>h. return_run (0, h))
      else
        (let sz = MM_ALIGN_UP (sz + SIZEOF_MM_ALLOCNODE);
             oldnode = oldmem - SIZEOF_MM_ALLOCNODE
         in next_run (mm_takesemaphore my_pid h) (\<lambda>h.
            let oldsize = node_size h oldnode in
            if sz \<le> oldsize
            then next_run (if sz < oldsize then mm_shrinkchunk oldnode sz h else return_run h) (\<lambda>h.
                 next_run (mm_givesemaphore my_pid h) (\<lambda>h. return_run (oldmem, h)))
            else
              (let next = oldnode + node_size h oldnode;
                   nextsize = (if node_preceding h next AND MM_ALLOC_BIT = 0 then node_size h next else 0);
                   prev = oldnode - (node_preceding h oldnode AND NOT MM_ALLOC_BIT);
                   prevsize = (if node_preceding h prev AND MM_ALLOC_BIT = 0 then node_size h prev else 0)
               in if nextsize + prevsize + oldsize \<ge> sz
                  then (let (takeprev, takenext) = realloc_plan (sz - oldsize) prevsize nextsize in
                        next_run (realloc_prev oldmem oldnode oldsize prev prevsize next takeprev h)
                          (\<lambda>(oldnode, oldsize, newmem, h).
                        next_run (realloc_next oldnode oldsize next nextsize takenext h) (\<lambda>h.
                        next_run (mm_givesemaphore my_pid h) (\<lambda>h. return_run (newmem, h)))))
                  else next_run (mm_givesemaphore my_pid h) (\<lambda>h.
                       next_run (mm_malloc my_pid sz h)
                         (\<lambda>(newmem, h). realloc_copy my_pid oldmem oldsize newmem h))))))"

section \<open>Aligned allocation\<close>

text \<open>The leading part: the new node, the freed chunk before it and the malloc-compatible size of the rest.\<close>

definition memalign_lead :: "u32 \<Rightarrow> u32 \<Rightarrow> u32 \<Rightarrow> u32 \<Rightarrow> mm_heap \<Rightarrow> (u32 \<times> u32 \<times> u32 \<times> mm_heap) run" where
  "memalign_lead alignment rawchunk alignedchunk node h =
     (let next = node + node_size h node in
      check_run Assertion (alignedchunk \<ge> rawchunk + 8)
        (let newnode = alignedchunk - SIZEOF_MM_ALLOCNODE;
             precedingsize = newnode - node;
             (alignedchunk, newnode, precedingsize) =
               (if precedingsize < SIZEOF_MM_FREENODE
                then (alignedchunk + alignment, alignedchunk + alignment - SIZEOF_MM_ALLOCNODE,
                      alignedchunk + alignment - SIZEOF_MM_ALLOCNODE - node)
                else (alignedchunk, newnode, precedingsize));
             h = set_size newnode (next - newnode) h;
             h = set_preceding newnode (precedingsize OR MM_ALLOC_BIT) h;
             h = set_size node precedingsize h;
             h = set_preceding node (node_preceding h node AND NOT MM_ALLOC_BIT) h;
             h = set_preceding next (node_size h newnode OR (node_preceding h next AND MM_ALLOC_BIT)) h;
             allocsize = node_size h newnode - SIZEOF_MM_ALLOCNODE
         in next_run (mm_addfreechunk node h) (\<lambda>h. return_run (alignedchunk, newnode, allocsize, h))))"

definition mm_memalign :: "int \<Rightarrow> u32 \<Rightarrow> u32 \<Rightarrow> mm_heap \<Rightarrow> (u32 \<times> mm_heap) run" where
  "mm_memalign my_pid alignment sz h =
     (let mask = alignment - 1 in
      if alignment \<le> MM_MIN_CHUNK then mm_malloc my_pid sz h
      else
        (let sz = MM_ALIGN_UP sz;
             allocsize = sz + 2 * alignment
         in next_run (mm_malloc my_pid allocsize h) (\<lambda>(rawchunk, h).
            if rawchunk = 0 then return_run (0, h)
            else next_run (mm_takesemaphore my_pid h) (\<lambda>h.
              let node = rawchunk - SIZEOF_MM_ALLOCNODE;
                  alignedchunk = (rawchunk + mask) AND NOT mask
              in next_run (if alignedchunk \<noteq> rawchunk then memalign_lead alignment rawchunk alignedchunk node h
                           else return_run (alignedchunk, node, allocsize, h))
                   (\<lambda>(alignedchunk, node, allocsize, h).
                 next_run (if allocsize > sz then mm_shrinkchunk node (sz + SIZEOF_MM_ALLOCNODE) h
                           else return_run h) (\<lambda>h.
                 next_run (mm_givesemaphore my_pid h) (\<lambda>h. return_run (alignedchunk, h))))))))"

section \<open>Growing the heap and heap statistics\<close>

definition mm_extend :: "int \<Rightarrow> u32 \<Rightarrow> u32 \<Rightarrow> int \<Rightarrow> mm_heap \<Rightarrow> mm_heap run" where
  "mm_extend my_pid mem sz region h =
     check_run Assertion (mem \<noteq> 0) (check_run Assertion (sz \<ge> 2 * SIZEOF_MM_ALLOCNODE \<and> region = 0)
       (let blockstart = mem;
            blockend = blockstart + sz
        in check_run Assertion (MM_ALIGN_UP blockstart = blockstart)
          (check_run Assertion (MM_ALIGN_DOWN blockend = blockend)
            (next_run (mm_takesemaphore my_pid h) (\<lambda>h.
              let oldnode = mm_heapend h in
              check_run Assertion (oldnode + SIZEOF_MM_ALLOCNODE = mem)
                (let h = set_size oldnode sz h in
                 check_run Assertion (node_preceding h oldnode AND MM_ALLOC_BIT \<noteq> 0)
                   (let newnode = blockend - SIZEOF_MM_ALLOCNODE;
                        h = set_size newnode SIZEOF_MM_ALLOCNODE h;
                        h = set_preceding newnode (node_size h oldnode OR MM_ALLOC_BIT) h;
                        h = h\<lparr>mm_heapend := newnode\<rparr>
                    in next_run (mm_givesemaphore my_pid h) (mm_free my_pid mem))))))))"

definition mm_brkaddr :: "mm_heap \<Rightarrow> int \<Rightarrow> u32 res" where
  "mm_brkaddr h region =
     check Assertion (region = 0)
       (if mm_heapend h \<noteq> 0 then mm_heapend h + SIZEOF_MM_ALLOCNODE else 0)"

record mallinfo =
  arena :: u32
  ordblks :: int
  mxordblk :: u32
  uordblks :: u32
  fordblks :: u32

text \<open>The walk over the chunks: \<open>node\<close> and the counters \<open>mxordblk\<close>, \<open>ordblks\<close>, \<open>uordblks\<close>, \<open>fordblks\<close>.\<close>

partial_function (option) mallinfo_walk :: "mm_heap \<Rightarrow> u32 \<Rightarrow> u32 \<Rightarrow> int \<Rightarrow> u32 \<Rightarrow> u32
    \<Rightarrow> (u32 \<times> u32 \<times> int \<times> u32 \<times> u32) option" where
  "mallinfo_walk h node mx ords uord ford =
     (if node < mm_heapend h
      then (if node_preceding h node AND MM_ALLOC_BIT \<noteq> 0
            then mallinfo_walk h (node + node_size h node) mx ords (uord + node_size h node) ford
            else mallinfo_walk h (node + node_size h node) (if node_size h node > mx then node_size h node else mx)
                   (ords + 1) uord (ford + node_size h node))
      else Some (node, mx, ords, uord, ford))"

definition mm_mallinfo :: "int \<Rightarrow> mm_heap \<Rightarrow> (mallinfo \<times> mm_heap) run" where
  "mm_mallinfo my_pid h =
     next_run (mm_takesemaphore my_pid h) (\<lambda>h.
       case mallinfo_walk h (mm_heapstart h) 0 0 0 0 of
         None \<Rightarrow> None
       | Some (node, mx, ords, uord, ford) \<Rightarrow>
           next_run (mm_givesemaphore my_pid h) (\<lambda>h.
             check_run Assertion (node = mm_heapend h)
               (let uord = uord + SIZEOF_MM_ALLOCNODE in
                check_run Assertion (uord + ford = mm_heapsize h)
                  (return_run (\<lparr>arena = mm_heapsize h, ordblks = ords, mxordblk = mx, uordblks = uord, fordblks = ford\<rparr>, h)))))"

section \<open>\<open>sbrk\<close>\<close>

text \<open>
  \<open>mm_sbrk\<close> is compiled for the kernel build only. The page allocator \<open>pgalloc\<close> belongs to the architecture and
  is a parameter, and so is \<open>MM_PGSHIFT\<close>. The result is the old break or the value of \<open>errno\<close>.
\<close>

datatype sbrk_errno = ENOSYS | ENOMEM | EAGAIN

definition mm_sbrk :: "(u32 \<Rightarrow> u32 \<Rightarrow> u32) \<Rightarrow> nat \<Rightarrow> int \<Rightarrow> u32 \<Rightarrow> u32 \<Rightarrow> mm_heap \<Rightarrow> ((sbrk_errno + u32) \<times> mm_heap) run" where
  "mm_sbrk pgalloc pgshift my_pid incr maxbreak h =
     check_run Assertion (0 \<le> sint incr)
       (if sint incr < 0 then return_run (Inl ENOSYS, h)
        else
          (case mm_brkaddr h 0 of
             Inl e \<Rightarrow> Some (Inl e)
           | Inr brkaddr \<Rightarrow>
               if sint incr > 0
               then (let pgincr = drop_bit pgshift (incr + (push_bit pgshift 1 - 1)) in
                     if brkaddr > 0 \<and> maxbreak - brkaddr < push_bit pgshift pgincr then return_run (Inl ENOMEM, h)
                     else
                       (let allocbase = pgalloc brkaddr pgincr;
                            bytesize = push_bit pgshift pgincr
                        in if allocbase = 0 then return_run (Inl EAGAIN, h)
                           else next_run
                                  (if brkaddr \<noteq> 0 then mm_initialize allocbase bytesize h
                                   else mm_extend my_pid allocbase bytesize 0 h)
                                  (\<lambda>h. return_run (Inr brkaddr, h))))
               else return_run (Inr brkaddr, h)))"

end
