(* ===== verification/Mm_List.thy ===== *)
theory Mm_List
  imports Mm_Heap
begin

text \<open>
  The free list of the allocator. \<open>dseg m p As n\<close> says that the nodes at the addresses \<open>As\<close> are doubly
  linked in this order in the memory \<open>m\<close>, with \<open>p\<close> before the first and \<open>n\<close> after the last. Unlinking a
  node and inserting one change the chain accordingly, write link fields of the chain only, and the two
  walks of the code return and stop where the sizes say.
\<close>

section \<open>Doubly linked segments\<close>

fun dseg :: "memory \<Rightarrow> nat \<Rightarrow> nat list \<Rightarrow> nat \<Rightarrow> bool" where
  "dseg m p [] n = True"
| "dseg m p (A # As) n =
     (load m (W (A + 12)) = W p \<and> load m (W (A + 8)) = W (hd (As @ [n])) \<and> dseg m A As n)"

lemma dseg_append: "dseg m p (As @ Bs) n \<longleftrightarrow> dseg m p As (hd (Bs @ [n])) \<and> dseg m (last (p # As)) Bs n"
  by (induction As arbitrary: p) (auto simp: hd_append)

text \<open>Nodes that are 16 bytes apart, so that their fields do not overlap.\<close>

definition clear_of :: "nat \<Rightarrow> nat \<Rightarrow> bool" where
  "clear_of A B \<longleftrightarrow> A + 16 \<le> B \<or> B + 16 \<le> A"

fun apart :: "nat list \<Rightarrow> bool" where
  "apart [] = True"
| "apart (A # As) = (0 < A \<and> A + 16 \<le> 4294967296 \<and> (\<forall>B \<in> set As. clear_of A B) \<and> apart As)"

lemma clear_of_sym: "clear_of A B \<longleftrightarrow> clear_of B A"
  by (auto simp: clear_of_def)

lemma clear_of_irrefl [simp]: "\<not> clear_of A A"
  by (simp add: clear_of_def)

lemma apart_append [simp]:
  "apart (As @ Bs) \<longleftrightarrow> apart As \<and> apart Bs \<and> (\<forall>A \<in> set As. \<forall>B \<in> set Bs. clear_of A B)"
  by (induction As) auto

lemma apart_bound: "apart As \<Longrightarrow> A \<in> set As \<Longrightarrow> 0 < A \<and> A + 16 \<le> 4294967296"
  by (induction As) auto

lemma apart_distinct: "apart As \<Longrightarrow> distinct As"
  by (induction As) auto

lemma apart_filter: "apart As \<Longrightarrow> apart (filter P As)"
  by (induction As) auto

text \<open>The bytes of \<open>flink\<close> and \<open>blink\<close> of the node at \<open>A\<close>, and memories that differ in such bytes only.\<close>

definition link_byte :: "nat \<Rightarrow> u32 \<Rightarrow> bool" where
  "link_byte A x \<longleftrightarrow> A + 8 \<le> unat x \<and> unat x < A + 16"

definition links_only :: "nat set \<Rightarrow> memory \<Rightarrow> memory \<Rightarrow> bool" where
  "links_only S m m' \<longleftrightarrow> (\<forall>x. (\<forall>A \<in> S. \<not> link_byte A x) \<longrightarrow> m' x = m x)"

lemma links_only_refl [simp]: "links_only S m m"
  by (simp add: links_only_def)

lemma links_only_trans: "links_only S m m' \<Longrightarrow> links_only S m' m'' \<Longrightarrow> links_only S m m''"
  by (simp add: links_only_def)

lemma links_only_mono: "links_only S m m' \<Longrightarrow> S \<subseteq> T \<Longrightarrow> links_only T m m'"
  unfolding links_only_def by blast

lemma links_only_store:
  assumes "links_only S m m'" and "A \<in> S" and "A + 16 \<le> 4294967296"
  shows "links_only S m (store (W (A + 8)) v m')" and "links_only S m (store (W (A + 12)) v m')"
proof -
  have "store (W (A + 8)) v m' x = m' x \<and> store (W (A + 12)) v m' x = m' x" if "\<not> link_byte A x" for x
    using that assms(3) unfolding link_byte_def by (auto intro!: store_apply_other)
  then show "links_only S m (store (W (A + 8)) v m')" and "links_only S m (store (W (A + 12)) v m')"
    using assms(1,2) unfolding links_only_def by auto
qed

lemma load_store_clear:
  assumes "clear_of A B" and "A + 16 \<le> 4294967296" and "B + 16 \<le> 4294967296" and "i \<le> 12" and "j \<le> 12"
  shows "load (store (W (A + i)) v m) (W (B + j)) = load m (W (B + j))"
  using assms by (intro load_store_other) (auto simp: clear_of_def)

lemma dseg_cong:
  assumes "\<And>A x. A \<in> set As \<Longrightarrow> link_byte A x \<Longrightarrow> m' x = m x" and "\<forall>A \<in> set As. A + 16 \<le> 4294967296"
  shows "dseg m' p As n = dseg m p As n"
  using assms
proof (induction As arbitrary: p)
  case (Cons A As)
  have "load m' (W (A + 12)) = load m (W (A + 12))" and "load m' (W (A + 8)) = load m (W (A + 8))"
    using Cons.prems(1) [of A] Cons.prems(2) by (auto intro!: load_cong simp: link_byte_def)
  moreover have "dseg m' A As n = dseg m A As n"
    using Cons.prems by (intro Cons.IH) auto
  ultimately show ?case by simp
qed simp

lemma dseg_store_other:
  assumes "\<forall>A \<in> set As. clear_of A B" and "\<forall>A \<in> set (B # As). A + 16 \<le> 4294967296" and "i = 8 \<or> i = 12"
  shows "dseg (store (W (B + i)) v m) p As n = dseg m p As n"
  using assms
  by (intro dseg_cong store_apply_other) (auto simp: link_byte_def clear_of_def)


section \<open>Unlinking and inserting\<close>

text \<open>Changing the pointer at one end of a segment.\<close>

lemma dseg_new_end:
  assumes "dseg m p As n" and "As \<noteq> []" and "apart As" and "last As = P"
  shows "dseg (store (W (P + 8)) (W n') m) p As n'"
  using assms
proof (induction As arbitrary: p)
  case (Cons A As)
  show ?case
  proof (cases "As = []")
    case True
    with Cons.prems show ?thesis by (simp add: load_store_other)
  next
    case False
    then have "P \<in> set As" and ne: "hd (As @ [n']) = hd (As @ [n])"
      using Cons.prems(4) by (auto simp: hd_append)
    with Cons.prems(3) have "clear_of P A" and "P + 16 \<le> 4294967296"
      using apart_bound [of As P] by (auto simp: clear_of_sym)
    with Cons False ne show ?thesis
      by (simp add: load_store_clear)
  qed
qed simp

lemma dseg_new_start:
  assumes "dseg m p (A # As) n" and "apart (A # As)"
  shows "dseg (store (W (A + 12)) (W p') m) p' (A # As) n"
proof -
  have "dseg (store (W (A + 12)) (W p') m) A As n = dseg m A As n"
    using assms(2) by (intro dseg_store_other) (auto simp: clear_of_sym dest: apart_bound)
  with assms show ?thesis by (simp add: load_store_other)
qed

definition unlinked :: "nat \<Rightarrow> nat \<Rightarrow> memory \<Rightarrow> memory" where
  "unlinked P N m = (let m = store (W (P + 8)) (W N) m in if N = 0 then m else store (W (N + 12)) (W P) m)"

lemma dseg_unlinked:
  assumes "dseg m 0 (As @ A # Bs) 0" and "apart (As @ A # Bs)" and "As \<noteq> []"
  shows "dseg (unlinked (last As) (hd (Bs @ [0])) m) 0 (As @ Bs) 0"
    and "links_only (set (As @ Bs)) m (unlinked (last As) (hd (Bs @ [0])) m)"
proof -
  let ?P = "last As" and ?N = "hd (Bs @ [0])"
  let ?m1 = "store (W (?P + 8)) (W ?N) m"
  have "?P \<in> set As" using assms(3) by simp
  then have P: "?P + 16 \<le> 4294967296" and cB: "\<forall>B \<in> set Bs. clear_of B ?P"
    using assms(2) apart_bound [of As ?P] by (auto simp: clear_of_sym)
  have segA: "dseg ?m1 0 As ?N"
    using assms by (intro dseg_new_end) (auto simp: dseg_append)
  have segB: "dseg ?m1 A Bs 0"
    using assms P cB apart_bound [of Bs] by (subst dseg_store_other) (auto simp: dseg_append)
  have l1: "links_only (set (As @ Bs)) m ?m1"
    using P \<open>?P \<in> set As\<close> by (intro links_only_store) auto
  show "dseg (unlinked ?P ?N m) 0 (As @ Bs) 0" and "links_only (set (As @ Bs)) m (unlinked ?P ?N m)"
  proof (atomize (full), cases Bs)
    case Nil
    with segA l1 show "dseg (unlinked ?P ?N m) 0 (As @ Bs) 0 \<and> links_only (set (As @ Bs)) m (unlinked ?P ?N m)"
      by (simp add: unlinked_def)
  next
    case (Cons N Bs')
    let ?m2 = "store (W (N + 12)) (W ?P) ?m1"
    have N: "0 < N \<and> N + 16 \<le> 4294967296" and apB: "apart (N # Bs')"
      using assms(2) Cons by auto
    have "dseg ?m2 ?P (N # Bs') 0"
      using dseg_new_start [of ?m1 A N Bs' 0 ?P] segB apB Cons by simp
    moreover have "dseg ?m2 0 As N"
      using segA Cons assms(2) N apart_bound [of As] by (subst dseg_store_other) auto
    moreover have "links_only (set (As @ Bs)) m ?m2"
      by (rule links_only_store) (use l1 N Cons in auto)
    ultimately show "dseg (unlinked ?P ?N m) 0 (As @ Bs) 0 \<and> links_only (set (As @ Bs)) m (unlinked ?P ?N m)"
      using N Cons assms(3) by (simp add: unlinked_def dseg_append)
  qed
qed

definition linked :: "nat \<Rightarrow> nat \<Rightarrow> nat \<Rightarrow> memory \<Rightarrow> memory" where
  "linked P A N m =
     (let m = store (W (P + 8)) (W A) m;
          m = store (W (A + 12)) (W P) m;
          m = store (W (A + 8)) (W N) m
      in if N = 0 then m else store (W (N + 12)) (W A) m)"

lemma dseg_linked:
  assumes "dseg m 0 (As @ Bs) 0" and "apart (As @ A # Bs)" and "As \<noteq> []"
  shows "dseg (linked (last As) A (hd (Bs @ [0])) m) 0 (As @ A # Bs) 0"
    and "links_only (set (As @ A # Bs)) m (linked (last As) A (hd (Bs @ [0])) m)"
proof -
  let ?P = "last As" and ?N = "hd (Bs @ [0])"
  let ?m1 = "store (W (?P + 8)) (W A) m"
  let ?m2 = "store (W (A + 12)) (W ?P) ?m1"
  let ?m3 = "store (W (A + 8)) (W ?N) ?m2"
  have "?P \<in> set As" using assms(3) by simp
  then have P: "?P + 16 \<le> 4294967296" and cB: "\<forall>B \<in> set Bs. clear_of B ?P"
    and A: "0 < A" "A + 16 \<le> 4294967296" "\<forall>B \<in> set As. clear_of B A" "\<forall>B \<in> set Bs. clear_of B A"
    using assms(2) apart_bound [of As ?P] by (auto simp: clear_of_sym)
  have bounds: "\<forall>B \<in> set (As @ Bs). B + 16 \<le> 4294967296"
    using assms(2) apart_bound [of As] apart_bound [of Bs] by auto
  have "dseg ?m1 0 As A"
    using assms by (intro dseg_new_end) (auto simp: dseg_append)
  then have segA: "dseg ?m3 0 As A"
    using A bounds by (simp add: dseg_store_other)
  have "dseg m ?P Bs 0"
    using assms by (simp add: dseg_append)
  then have segB: "dseg ?m3 ?P Bs 0"
    using A P cB bounds by (simp add: dseg_store_other)
  have A3: "load ?m3 (W (A + 12)) = W ?P" "load ?m3 (W (A + 8)) = W ?N"
    using A by (simp_all add: load_store_other)
  have l3: "links_only (set (As @ A # Bs)) m ?m3"
    using P A \<open>?P \<in> set As\<close> by (intro links_only_store) auto
  show "dseg (linked ?P A ?N m) 0 (As @ A # Bs) 0" and "links_only (set (As @ A # Bs)) m (linked ?P A ?N m)"
  proof (atomize (full), cases Bs)
    case Nil
    with segA A3 l3 assms(3) show "dseg (linked ?P A ?N m) 0 (As @ A # Bs) 0 \<and> links_only (set (As @ A # Bs)) m (linked ?P A ?N m)"
      by (simp add: linked_def dseg_append)
  next
    case (Cons N Bs')
    let ?m4 = "store (W (N + 12)) (W A) ?m3"
    have N: "0 < N \<and> N + 16 \<le> 4294967296" and apB: "apart (N # Bs')" and AN: "clear_of A N"
      using assms(2) Cons by auto
    have "dseg ?m4 A (N # Bs') 0"
      using dseg_new_start [of ?m3 ?P N Bs' 0 A] segB apB Cons by simp
    moreover have "dseg ?m4 0 As A"
      using segA Cons assms(2) N bounds by (subst dseg_store_other) auto
    moreover have "load ?m4 (W (A + 12)) = W ?P" "load ?m4 (W (A + 8)) = W N"
      using A3 AN N A Cons by (simp_all add: load_store_clear clear_of_sym)
    moreover have "links_only (set (As @ A # Bs)) m ?m4"
      by (rule links_only_store) (use l3 N Cons in auto)
    ultimately show "dseg (linked ?P A ?N m) 0 (As @ A # Bs) 0 \<and> links_only (set (As @ A # Bs)) m (linked ?P A ?N m)"
      using N Cons assms(3) by (simp add: linked_def dseg_append)
  qed
qed

section \<open>The walks and the two list operations of the code\<close>

lemma mm_unlink_dseg:
  assumes "dseg (mm_mem h) 0 (As @ A # Bs) 0" and "apart (As @ A # Bs)" and "As \<noteq> []"
  shows "mm_unlink (W A) h = return_run (h\<lparr>mm_mem := unlinked (last As) (hd (Bs @ [0])) (mm_mem h)\<rparr>)"
proof -
  let ?P = "last As" and ?N = "hd (Bs @ [0])"
  have "?P \<in> set As" using assms(3) by simp
  then have P: "0 < ?P" "?P + 16 \<le> 4294967296" and cA: "clear_of ?P A" and A: "A + 16 \<le> 4294967296"
    using assms(2) apart_bound [of As ?P] by auto
  have N: "?N < 4294967296"
    using assms(2) by (cases Bs) auto
  have "load (mm_mem h) (W (A + 12)) = W ?P" "load (mm_mem h) (W (A + 8)) = W ?N"
    using assms(1,3) by (simp_all add: dseg_append)
  then show ?thesis
    using P cA A N by (simp add: mm_unlink_def node_defs unlinked_def load_store_clear W_eq_0_iff Let_def)
qed

text \<open>The walk of \<open>mm_addfreechunk\<close> passes the nodes that are smaller and not list heads.\<close>

lemma find_slot_dseg:
  assumes "dseg (mm_mem h) p (As @ Bs) 0" and "\<forall>A \<in> set (As @ Bs). 0 < A \<and> A < 4294967296"
    and "\<forall>A \<in> set As. load (mm_mem h) (W A) \<noteq> 0 \<and> load (mm_mem h) (W A) < s"
    and "Bs \<noteq> [] \<longrightarrow> load (mm_mem h) (W (hd Bs)) = 0 \<or> s \<le> load (mm_mem h) (W (hd Bs))"
  shows "find_slot h s (W p) (W (hd (As @ Bs @ [0]))) = Some (W (last (p # As)), W (hd (Bs @ [0])))"
  using assms
proof (induction As arbitrary: p)
  case Nil
  then show ?case by (subst find_slot.simps) (cases Bs; auto simp: node_size_def)
next
  case (Cons A As)
  then have "find_slot h s (W A) (W (hd (As @ Bs @ [0]))) = Some (W (last (A # As)), W (hd (Bs @ [0])))"
    by (intro Cons.IH) auto
  with Cons.prems show ?case
    by (subst find_slot.simps) (simp add: node_size_def node_flink_def W_eq_0_iff)
qed

lemma find_fit_dseg:
  assumes "dseg (mm_mem h) p As 0" and "\<forall>A \<in> set As. 0 < A \<and> A < 4294967296"
  shows "find_fit h s (W (hd (As @ [0])))
    = Some (W (case find (\<lambda>A. s \<le> load (mm_mem h) (W A)) As of None \<Rightarrow> 0 | Some A \<Rightarrow> A))"
  using assms
proof (induction As arbitrary: p)
  case Nil
  then show ?case by (subst find_fit.simps) simp
next
  case (Cons A As)
  then have "find_fit h s (W (hd (As @ [0])))
      = Some (W (case find (\<lambda>A. s \<le> load (mm_mem h) (W A)) As of None \<Rightarrow> 0 | Some A \<Rightarrow> A))"
    by (intro Cons.IH) auto
  with Cons.prems show ?case
    by (subst find_fit.simps) (auto simp: node_size_def node_flink_def W_eq_0_iff)
qed

section \<open>The index of a size\<close>

lemma size2ndx_loop_spec:
  assumes "0 < unat s"
  shows "\<exists>k. size2ndx_loop s n = n + k \<and> 2 ^ k \<le> unat s \<and> unat s < 2 ^ Suc k"
  using assms
proof (induction s n rule: size2ndx_loop.induct)
  case (1 s n)
  show ?case
  proof (cases "s > 1")
    case True
    have half: "unat (drop_bit 1 s) = unat s div 2"
      by (simp add: unat_div drop_bit_eq_div)
    from True have "0 < unat s div 2" by (simp add: word_less_nat_alt)
    with 1 True half obtain k where k: "size2ndx_loop (drop_bit 1 s) (n + 1) = n + 1 + k"
        "2 ^ k \<le> unat s div 2" "unat s div 2 < 2 ^ Suc k"
      by metis
    from k(2,3) have "2 ^ Suc k \<le> unat s" "unat s < 2 ^ Suc (Suc k)" by auto
    with k(1) True show ?thesis
      by (intro exI [of _ "Suc k"]) (simp add: size2ndx_loop.simps [of s n])
  next
    case False
    with 1(2) have "unat s = 1" by (simp add: word_less_nat_alt)
    with False show ?thesis
      by (intro exI [of _ 0]) (simp add: size2ndx_loop.simps [of s n])
  qed
qed

definition ndx :: "nat \<Rightarrow> nat" where
  "ndx s = mm_size2ndx (W s)"

lemmas mm_consts = MM_MIN_SHIFT_def MM_MAX_SHIFT_def MM_MIN_CHUNK_def MM_MAX_CHUNK_def MM_NNODES_def
  MM_ALLOC_BIT_def SIZEOF_MM_ALLOCNODE_def SIZEOF_MM_FREENODE_def

lemma ndx_spec:
  assumes "16 \<le> s" and "s < 4194304"
  shows "2 ^ (ndx s + 4) \<le> s" and "s < 2 ^ (ndx s + 5)"
proof -
  have s16: "unat (drop_bit 4 (W s)) = s div 16"
    using assms by (simp add: unat_div drop_bit_eq_div)
  then obtain k where k: "size2ndx_loop (drop_bit 4 (W s)) 0 = k" "2 ^ k \<le> s div 16" "s div 16 < 2 ^ Suc k"
    using size2ndx_loop_spec [of "drop_bit 4 (W s)" 0] assms by auto
  have "\<not> 4194304 \<le> W s"
    using assms by (simp add: word_le_nat_alt)
  then have "ndx s = k"
    using k(1) by (simp add: ndx_def mm_size2ndx_def mm_consts)
  with k show "2 ^ (ndx s + 4) \<le> s" and "s < 2 ^ (ndx s + 5)"
    by (auto simp: power_add)
qed

lemma ndx_large: "4194304 \<le> s \<Longrightarrow> s < 4294967296 \<Longrightarrow> ndx s = 18"
  by (simp add: ndx_def mm_size2ndx_def mm_consts word_le_nat_alt)

lemma ndx_le:
  assumes "16 \<le> s" and "s < 4294967296"
  shows "ndx s \<le> 18"
proof (cases "s < 4194304")
  case True
  with ndx_spec(1) [OF assms(1)] have "(2 :: nat) ^ (ndx s + 4) < 4194304" by linarith
  also have "(4194304 :: nat) = 2 ^ 22" by simp
  finally have "ndx s + 4 < 22" by (rule power_less_imp_less_exp [rotated]) simp
  then show ?thesis by simp
qed (use assms ndx_large in simp)

lemma ndx_mono:
  assumes "16 \<le> s" and "s \<le> t" and "t < 4294967296"
  shows "ndx s \<le> ndx t"
proof (cases "t < 4194304")
  case True
  with assms have "s < 4194304" and "16 \<le> t" by simp_all
  with ndx_spec(1) [OF assms(1)] ndx_spec(2) [of t] True assms(2)
  have "(2 :: nat) ^ (ndx s + 4) < 2 ^ (ndx t + 5)" by linarith
  then have "ndx s + 4 < ndx t + 5" by (rule power_less_imp_less_exp [rotated]) simp
  then show ?thesis by simp
next
  case False
  with assms show ?thesis using ndx_le [of s] ndx_large [of t] by simp
qed

end
