(* ===== verification/Mm_Buckets.thy ===== *)
theory Mm_Buckets
  imports Mm_List
begin

text \<open>
  The free list as the allocator uses it: 19 list heads in \<open>mm_nodelist\<close>, all on one chain, with the free
  chunks of size class \<open>i\<close> between head \<open>i\<close> and the next, in ascending order of size. \<open>flist m nl fl\<close>
  relates the memory to the list \<open>fl\<close> of the 19 classes, each a list of pairs of address and size.
  Unlinking removes an entry, \<open>mm_addfreechunk\<close> inserts one in its class, and the search of \<open>mm_malloc\<close> is
  the search for the first entry that is large enough in the concatenation of the classes.
\<close>

section \<open>The chain of heads and entries\<close>

type_synonym entry = "nat \<times> nat"

fun nodes :: "nat \<Rightarrow> nat \<Rightarrow> entry list list \<Rightarrow> nat list" where
  "nodes nl i [] = []"
| "nodes nl i (l # ls) = (nl + 16 * i) # map fst l @ nodes nl (Suc i) ls"

lemma nodes_append: "nodes nl i (xs @ ys) = nodes nl i xs @ nodes nl (i + length xs) ys"
  by (induction xs arbitrary: i) auto

lemma set_nodes: "set (nodes nl i fl) = (\<lambda>j. nl + 16 * j) ` {i..<i + length fl} \<union> fst ` set (concat fl)"
proof (induction fl arbitrary: i)
  case (Cons l fl)
  have "{i..<i + length (l # fl)} = insert i {Suc i..<Suc i + length fl}" by auto
  with Cons [of "Suc i"] show ?case by auto
qed simp

lemma entry_not_head:
  assumes "apart (nodes nl i fl)" and "(A, s) \<in> set (concat fl)" and "i \<le> j" and "j < i + length fl"
  shows "A \<noteq> nl + 16 * j"
  using assms
proof (induction fl arbitrary: i)
  case (Cons l fl)
  have A: "A \<in> fst ` set (concat (l # fl))"
    using Cons.prems(2) image_eqI [of A fst "(A, s)"] by simp
  show ?case
  proof (cases "j = i")
    case True
    have "A \<in> set (map fst l @ nodes nl (Suc i) fl)"
      using A by (auto simp: set_nodes)
    then have "clear_of (nl + 16 * i) A"
      using Cons.prems(1) by auto
    then show ?thesis
      using True by auto
  next
    case False
    with Cons.prems have j: "j \<in> {Suc i..<Suc i + length fl}" by auto
    then have "nl + 16 * j \<in> set (nodes nl (Suc i) fl)"
      unfolding set_nodes by blast
    moreover have "(A, s) \<in> set l \<or> (A, s) \<in> set (concat fl)"
      using Cons.prems(2) by auto
    ultimately show ?thesis
      using Cons.IH [of "Suc i"] Cons.prems(1) j by force
  qed
qed simp

definition drop_entry :: "nat \<Rightarrow> entry list list \<Rightarrow> entry list list" where
  "drop_entry A fl = map (filter (\<lambda>e. fst e \<noteq> A)) fl"

lemma nodes_drop_entry:
  assumes "\<forall>j. i \<le> j \<and> j < i + length fl \<longrightarrow> A \<noteq> nl + 16 * j"
  shows "nodes nl i (drop_entry A fl) = filter (\<lambda>B. B \<noteq> A) (nodes nl i fl)"
  using assms
proof (induction fl arbitrary: i)
  case (Cons l fl)
  have "A \<noteq> nl + 16 * i" using Cons.prems by simp
  moreover have "nodes nl (Suc i) (drop_entry A fl) = filter (\<lambda>B. B \<noteq> A) (nodes nl (Suc i) fl)"
    using Cons.prems by (intro Cons.IH) auto
  moreover have "map fst (filter (\<lambda>e. fst e \<noteq> A) l) = filter (\<lambda>B. B \<noteq> A) (map fst l)"
    by (simp add: filter_map comp_def)
  ultimately show ?case by (simp add: drop_entry_def)
qed (simp add: drop_entry_def)

lemma concat_drop_entry: "concat (drop_entry A fl) = filter (\<lambda>e. fst e \<noteq> A) (concat fl)"
  by (simp add: drop_entry_def filter_concat)

section \<open>The free-list predicate\<close>

definition in_class :: "memory \<Rightarrow> nat \<Rightarrow> entry \<Rightarrow> bool" where
  "in_class m i e \<longleftrightarrow>
     (case e of (A, s) \<Rightarrow> ndx s = i \<and> 16 \<le> s \<and> s < 2147483648 \<and> load m (W A) = W s)"

definition flist :: "memory \<Rightarrow> nat \<Rightarrow> entry list list \<Rightarrow> bool" where
  "flist m nl fl \<longleftrightarrow>
     length fl = 19 \<and> apart (nodes nl 0 fl) \<and> dseg m 0 (nodes nl 0 fl) 0
     \<and> (\<forall>i<19. load m (W (nl + 16 * i)) = 0)
     \<and> (\<forall>i<19. sorted (map snd (fl ! i)) \<and> (\<forall>e \<in> set (fl ! i). in_class m i e))"

lemma flistD:
  assumes "flist m nl fl"
  shows "length fl = 19" and "apart (nodes nl 0 fl)" and "dseg m 0 (nodes nl 0 fl) 0"
    and "\<And>i. i < 19 \<Longrightarrow> load m (W (nl + 16 * i)) = 0"
    and "\<And>i. i < 19 \<Longrightarrow> sorted (map snd (fl ! i))"
    and "\<And>i e. i < 19 \<Longrightarrow> e \<in> set (fl ! i) \<Longrightarrow> in_class m i e"
  using assms by (auto simp: flist_def)

lemma flist_entry:
  assumes "flist m nl fl" and "(A, s) \<in> set (concat fl)"
  shows "16 \<le> s" and "s < 2147483648" and "load m (W A) = W s" and "0 < A" and "A + 16 \<le> 4294967296"
    and "A \<in> set (nodes nl 0 fl)"
proof -
  from assms obtain i where "i < 19" and "(A, s) \<in> set (fl ! i)"
    using flistD(1) [OF assms(1)] by (auto simp: in_set_conv_nth [of _ fl])
  with flistD(6) [OF assms(1)] have "in_class m i (A, s)" by blast
  then show "16 \<le> s" and "s < 2147483648" and "load m (W A) = W s" by (simp_all add: in_class_def)
  have "A \<in> fst ` set (concat fl)"
    using assms(2) image_eqI [of A fst "(A, s)"] by simp
  then show A: "A \<in> set (nodes nl 0 fl)" by (simp add: set_nodes)
  then show "0 < A" and "A + 16 \<le> 4294967296"
    using apart_bound [OF flistD(2) [OF assms(1)]] by blast+
qed

lemma flist_cong:
  assumes "flist m nl fl"
    and "\<And>B x. B \<in> set (nodes nl 0 fl) \<Longrightarrow> (B \<le> unat x \<and> unat x < B + 4) \<or> link_byte B x \<Longrightarrow> m' x = m x"
  shows "flist m' nl fl"
proof -
  note f = flistD [OF assms(1)]
  have bound: "B + 16 \<le> 4294967296" if "B \<in> set (nodes nl 0 fl)" for B
    using apart_bound [OF f(2) that] by simp
  have ld: "load m' (W B) = load m (W B)" if "B \<in> set (nodes nl 0 fl)" for B
    using assms(2) [OF that] bound [OF that] by (intro load_cong) auto
  have "dseg m' 0 (nodes nl 0 fl) 0 = dseg m 0 (nodes nl 0 fl) 0"
    using assms(2) bound by (intro dseg_cong) auto
  moreover have "nl + 16 * i \<in> set (nodes nl 0 fl)" if "i < 19" for i
    using that f(1) by (simp add: set_nodes)
  moreover have "fst e \<in> set (nodes nl 0 fl)" if "e \<in> set (fl ! i)" "i < 19" for e i
    using that f(1) nth_mem [of i fl] by (fastforce simp: set_nodes)
  ultimately show ?thesis
    using f ld unfolding flist_def in_class_def by (auto split: prod.splits)
qed

text \<open>Header fields survive changes of links.\<close>

lemma links_only_load:
  assumes "links_only S m m'" and "\<forall>A \<in> S. clear_of A B \<or> A = B" and "B + 16 \<le> 4294967296" and "i \<le> 4"
  shows "load m' (W (B + i)) = load m (W (B + i))"
proof (rule load_cong)
  fix x :: u32
  assume x: "B + i \<le> unat x" "unat x < B + i + 4"
  have "\<not> link_byte A x" if "A \<in> S" for A
    using assms(2,4) that x by (auto simp: link_byte_def clear_of_def)
  with assms(1) show "m' x = m x" by (simp add: links_only_def)
qed (use assms in simp)

lemma apart_clear: "apart As \<Longrightarrow> A \<in> set As \<Longrightarrow> B \<in> set As \<Longrightarrow> clear_of A B \<or> A = B"
  by (induction As) (auto simp: clear_of_sym)

text \<open>A chain that keeps its heads, its classes and the sizes of its entries is a free list again.\<close>

lemma flist_relink:
  assumes "flist m nl fl" and "length fl' = 19" and "apart (nodes nl 0 fl')" and "dseg m' 0 (nodes nl 0 fl') 0"
    and "links_only S m m'" and "\<forall>A \<in> S. \<forall>B \<in> set (nodes nl 0 fl'). clear_of A B \<or> A = B"
    and "\<And>i. i < 19 \<Longrightarrow> sorted (map snd (fl' ! i))"
    and "\<And>i e. i < 19 \<Longrightarrow> e \<in> set (fl' ! i) \<Longrightarrow> in_class m i e"
  shows "flist m' nl fl'"
proof -
  have ld: "load m' (W B) = load m (W B)" if "B \<in> set (nodes nl 0 fl')" for B
    using links_only_load [OF assms(5), of B 0] assms(6) apart_bound [OF assms(3) that] that by simp
  have "nl + 16 * i \<in> set (nodes nl 0 fl')" if "i < 19" for i
    using that assms(2) by (simp add: set_nodes)
  moreover have "in_class m' i e" if "i < 19" "e \<in> set (fl' ! i)" for i e
  proof -
    have "fst e \<in> set (nodes nl 0 fl')"
      using that assms(2) nth_mem [of i fl'] by (fastforce simp: set_nodes)
    with assms(8) [OF that] ld show ?thesis by (auto simp: in_class_def)
  qed
  ultimately show ?thesis
    using assms flistD(4) [OF assms(1)] ld unfolding flist_def by auto
qed

section \<open>Unlinking an entry\<close>

lemma flist_unlink:
  assumes "flist (mm_mem h) nl fl" and "(A, s) \<in> set (concat fl)"
  obtains m' where "mm_unlink (W A) h = return_run (h\<lparr>mm_mem := m'\<rparr>)" and "flist m' nl (drop_entry A fl)"
    and "links_only (set (nodes nl 0 (drop_entry A fl))) (mm_mem h) m'"
proof -
  let ?ns = "nodes nl 0 fl"
  note f = flistD [OF assms(1)]
  have head: "A \<noteq> nl + 16 * j" if "j < 19" for j
    using entry_not_head [OF f(2) assms(2)] f(1) that by simp
  obtain As Bs where split: "?ns = As @ A # Bs"
    using flist_entry(6) [OF assms] by (auto simp: in_set_conv_decomp)
  have "As \<noteq> []"
    using head [of 0] f(1) split by (cases fl) auto
  let ?m' = "unlinked (last As) (hd (Bs @ [0])) (mm_mem h)"
  have filt: "nodes nl 0 (drop_entry A fl) = As @ Bs"
  proof -
    have "nodes nl 0 (drop_entry A fl) = filter (\<lambda>B. B \<noteq> A) ?ns"
      using head f(1) by (intro nodes_drop_entry) auto
    moreover have "filter (\<lambda>B. B \<noteq> A) As = As" and "filter (\<lambda>B. B \<noteq> A) Bs = Bs"
      using apart_distinct [OF f(2)] split unfolding filter_id_conv by auto
    ultimately show ?thesis
      using split by simp
  qed
  have ap: "apart (As @ Bs)"
    using f(2) split by auto
  have links: "links_only (set (As @ Bs)) (mm_mem h) ?m'"
    using dseg_unlinked(2) [of "mm_mem h" As A Bs] f(2,3) split \<open>As \<noteq> []\<close> by simp
  have "flist ?m' nl (drop_entry A fl)"
  proof (rule flist_relink [OF assms(1)])
    show "length (drop_entry A fl) = 19"
      using f(1) by (simp add: drop_entry_def)
    show "apart (nodes nl 0 (drop_entry A fl))"
      using ap filt by simp
    show "dseg ?m' 0 (nodes nl 0 (drop_entry A fl)) 0"
      using dseg_unlinked(1) [of "mm_mem h" As A Bs] f(2,3) split \<open>As \<noteq> []\<close> filt by simp
    show "links_only (set (As @ Bs)) (mm_mem h) ?m'"
      by (rule links)
    show "\<forall>A' \<in> set (As @ Bs). \<forall>B \<in> set (nodes nl 0 (drop_entry A fl)). clear_of A' B \<or> A' = B"
      using apart_clear [OF ap] filt by simp
    show "sorted (map snd (drop_entry A fl ! i))" if "i < 19" for i
      using f(1,5) that by (simp add: drop_entry_def sorted_filter)
    show "in_class (mm_mem h) i e" if "i < 19" "e \<in> set (drop_entry A fl ! i)" for i e
      using f(1,6) that by (simp add: drop_entry_def)
  qed
  moreover have "mm_unlink (W A) h = return_run (h\<lparr>mm_mem := ?m'\<rparr>)"
    using f(2,3) split \<open>As \<noteq> []\<close> by (intro mm_unlink_dseg) auto
  ultimately show thesis
    using that links filt by simp
qed

section \<open>Inserting an entry\<close>

definition insert_entry :: "entry \<Rightarrow> entry list \<Rightarrow> entry list" where
  "insert_entry e l = takeWhile (\<lambda>d. snd d < snd e) l @ e # dropWhile (\<lambda>d. snd d < snd e) l"

definition add_entry :: "entry \<Rightarrow> entry list list \<Rightarrow> entry list list" where
  "add_entry e fl = fl[ndx (snd e) := insert_entry e (fl ! ndx (snd e))]"

lemma set_insert_entry: "set (insert_entry e l) = insert e (set l)"
proof -
  have "set l = set (takeWhile (\<lambda>d. snd d < snd e) l) \<union> set (dropWhile (\<lambda>d. snd d < snd e) l)"
    by (simp flip: set_append)
  then show ?thesis by (auto simp: insert_entry_def)
qed

lemma sorted_insert_entry:
  assumes "sorted (map snd l)"
  shows "sorted (map snd (insert_entry e l))"
  using assms
proof (induction l)
  case (Cons d l)
  then show ?case
    by (auto simp: insert_entry_def dest: set_takeWhileD set_dropWhileD)
qed (simp add: insert_entry_def)

lemma set_concat_add_entry:
  assumes "ndx (snd e) < length fl"
  shows "set (concat (add_entry e fl)) = insert e (set (concat fl))"
proof -
  let ?i = "ndx (snd e)"
  obtain xs ys where fl: "fl = xs @ fl ! ?i # ys" and xs: "length xs = ?i"
    using id_take_nth_drop [OF assms] assms by (metis length_take min.absorb4)
  have "add_entry e fl = xs @ insert_entry e (fl ! ?i) # ys"
    unfolding add_entry_def by (subst fl) (simp add: xs [symmetric])
  moreover have "set (concat fl) = set (concat xs) \<union> set (fl ! ?i) \<union> set (concat ys)"
    by (subst fl) auto
  ultimately show ?thesis by (auto simp: set_insert_entry)
qed

text \<open>Where the walk of \<open>mm_addfreechunk\<close> stops, as a split of the chain.\<close>

lemma flist_slot:
  assumes "flist (mm_mem h) nl fl" and "16 \<le> s" and "s < 2147483648"
  obtains As Bs where "nodes nl 0 fl = As @ Bs" and "nodes nl 0 (add_entry (A, s) fl) = As @ A # Bs" and "As \<noteq> []"
    and "find_slot h (W s) (W (nl + 16 * ndx s)) (load (mm_mem h) (W (nl + 16 * ndx s + 8)))
      = Some (W (last As), W (hd (Bs @ [0])))"
proof -
  note f = flistD [OF assms(1)]
  let ?m = "mm_mem h" and ?i = "ndx s" and ?small = "\<lambda>d :: entry. snd d < s"
  have i: "?i < 19" using ndx_le [of s] assms(2,3) by simp
  let ?l = "fl ! ?i" and ?H = "nl + 16 * ?i"
  let ?tw = "takeWhile ?small ?l" and ?dw = "dropWhile ?small ?l"
  obtain xs ys where fl: "fl = xs @ ?l # ys" and xs: "length xs = ?i"
    using id_take_nth_drop [of ?i fl] f(1) i by (metis length_take min.absorb4)
  let ?As = "nodes nl 0 xs @ ?H # map fst ?tw"
  let ?Bs = "map fst ?dw @ nodes nl (Suc ?i) ys"
  have "nodes nl 0 fl = nodes nl 0 xs @ ?H # map fst (?tw @ ?dw) @ nodes nl (Suc ?i) ys"
    unfolding takeWhile_dropWhile_id by (subst fl) (simp add: nodes_append xs)
  then have ns: "nodes nl 0 fl = ?As @ ?Bs" by (simp only: map_append append.simps append_assoc)
  have entry: "load ?m (W (fst d)) = W (snd d)" "16 \<le> snd d" "snd d < 2147483648" if "d \<in> set ?l" for d
    using f(6) [OF i that] by (auto simp: in_class_def)
  have dsegs: "dseg ?m ?H (map fst ?tw @ ?Bs) 0" and flink: "load ?m (W (?H + 8)) = W (hd (map fst ?tw @ ?Bs @ [0]))"
    using f(3) ns by (simp_all add: dseg_append)
  have "find_slot h (W s) (W ?H) (W (hd (map fst ?tw @ ?Bs @ [0]))) = Some (W (last (?H # map fst ?tw)), W (hd (?Bs @ [0])))"
  proof (rule find_slot_dseg [OF dsegs])
    show "\<forall>A \<in> set (map fst ?tw @ ?Bs). 0 < A \<and> A < 4294967296"
      using f(2) ns by (fastforce dest: apart_bound)
    show "\<forall>A \<in> set (map fst ?tw). load ?m (W A) \<noteq> 0 \<and> load ?m (W A) < W s"
      using entry assms(3) by (fastforce simp: W_eq_0_iff W_less_iff dest: set_takeWhileD)
    show "?Bs \<noteq> [] \<longrightarrow> load ?m (W (hd ?Bs)) = 0 \<or> W s \<le> load ?m (W (hd ?Bs))"
    proof (cases "?dw")
      case Nil
      have "load ?m (W (nl + 16 * Suc ?i)) = 0" if "ys \<noteq> []"
        using f(4) [of "Suc ?i"] f(1) that xs arg_cong [OF fl, of length] by (cases ys) auto
      then show ?thesis unfolding Nil by (cases ys) simp_all
    next
      case (Cons d ds)
      then have "d \<in> set ?l" and "\<not> ?small d"
        using dropWhile_eq_Cons_conv [of ?small ?l d ds] by (auto dest: arg_cong [of _ _ set])
      with Cons entry [of d] assms(3) show ?thesis by (simp add: W_le_iff)
    qed
  qed
  moreover have "add_entry (A, s) fl = xs @ (?tw @ (A, s) # ?dw) # ys"
    unfolding add_entry_def insert_entry_def by (subst fl) (simp add: xs [symmetric])
  then have "nodes nl 0 (add_entry (A, s) fl) = ?As @ A # ?Bs"
    by (simp add: nodes_append xs)
  ultimately show thesis
    using that [of ?As ?Bs] ns flink by simp
qed

lemma hd_bound: "\<forall>B \<in> set Bs. B < n \<Longrightarrow> 0 < n \<Longrightarrow> hd (Bs @ [0]) < (n :: nat)"
  by (cases Bs) auto

lemma flist_add:
  assumes "flist (mm_mem h) nl fl" and "mm_nodelist h = W nl" and "load (mm_mem h) (W A) = W s"
    and "16 \<le> s" and "s < 2147483648" and "0 < A" and "A + 16 \<le> 4294967296"
    and "\<forall>B \<in> set (nodes nl 0 fl). clear_of A B"
  obtains m' where "mm_addfreechunk (W A) h = return_run (h\<lparr>mm_mem := m'\<rparr>)" and "flist m' nl (add_entry (A, s) fl)"
    and "links_only (insert A (set (nodes nl 0 fl))) (mm_mem h) m'"
proof -
  note f = flistD [OF assms(1)]
  let ?m = "mm_mem h" and ?fl' = "add_entry (A, s) fl"
  have i: "ndx s < 19" using ndx_le [of s] assms(4,5) by simp
  obtain As Bs where ns: "nodes nl 0 fl = As @ Bs" and ns': "nodes nl 0 ?fl' = As @ A # Bs" and "As \<noteq> []"
    and slot: "find_slot h (W s) (W (nl + 16 * ndx s)) (load ?m (W (nl + 16 * ndx s + 8)))
      = Some (W (last As), W (hd (Bs @ [0])))"
    by (rule flist_slot [OF assms(1,4,5)])
  let ?m' = "linked (last As) A (hd (Bs @ [0])) ?m"
  have "hd (Bs @ [0]) < 4294967296"
    using f(2) ns by (intro hd_bound) (auto dest: apart_bound)
  then have "mm_addfreechunk (W A) h = return_run (h\<lparr>mm_mem := ?m'\<rparr>)"
    using slot assms(2,3) i
    by (simp add: mm_addfreechunk_def node_defs nodelist_entry_def W_def [symmetric] linked_def Let_def W_eq_0_iff
        flip: ndx_def)
  moreover have ap: "apart (As @ A # Bs)"
    using f(2) assms(6,7,8) ns by (auto simp: clear_of_sym)
  moreover have links: "links_only (set (As @ A # Bs)) ?m ?m'"
    using f(3) ns ap \<open>As \<noteq> []\<close> by (intro dseg_linked) simp_all
  moreover have "flist ?m' nl ?fl'"
  proof (rule flist_relink [OF assms(1) _ _ _ links])
    show "length ?fl' = 19"
      using f(1) by (simp add: add_entry_def)
    show "apart (nodes nl 0 ?fl')"
      using ap ns' by simp
    show "dseg ?m' 0 (nodes nl 0 ?fl') 0"
      unfolding ns' using f(3) ns ap \<open>As \<noteq> []\<close> by (intro dseg_linked) simp_all
    show "\<forall>A' \<in> set (As @ A # Bs). \<forall>B \<in> set (nodes nl 0 ?fl'). clear_of A' B \<or> A' = B"
      unfolding ns' using apart_clear [OF ap] by blast
    show "sorted (map snd (?fl' ! j))" if "j < 19" for j
      using f(1,5) that i by (cases "j = ndx s") (simp_all add: add_entry_def sorted_insert_entry)
    show "in_class ?m j e" if "j < 19" "e \<in> set (?fl' ! j)" for j e
      using f(1,6) that i assms(3,4,5)
      by (cases "j = ndx s") (auto simp: add_entry_def set_insert_entry in_class_def)
  qed
  ultimately show thesis
    using that ns by (simp add: insert_commute)
qed

section \<open>Searching\<close>

lemma find_append: "find P (xs @ ys) = (case find P xs of None \<Rightarrow> find P ys | Some x \<Rightarrow> Some x)"
  by (induction xs) auto

lemma find_entries:
  assumes "\<forall>d \<in> set l. load m (W (fst d)) = W (snd d) \<and> snd d < 4294967296" and "r < 4294967296"
  shows "find (\<lambda>B. W r \<le> load m (W B)) (map fst l) = map_option fst (find (\<lambda>d. r \<le> snd d) l)"
  using assms by (induction l) (auto simp: W_le_iff)

lemma find_nodes:
  assumes "\<forall>d \<in> set (concat ls). load m (W (fst d)) = W (snd d) \<and> snd d < 4294967296"
    and "0 < r" and "r < 4294967296" and "\<forall>j<length ls. load m (W (nl + 16 * (i + j))) = 0"
  shows "find (\<lambda>B. W r \<le> load m (W B)) (nodes nl i ls) = map_option fst (find (\<lambda>d. r \<le> snd d) (concat ls))"
  using assms
proof (induction ls arbitrary: i)
  case (Cons l ls)
  have "\<not> W r \<le> 0"
    using Cons.prems(2,3) W_le_iff [of r 0] by simp
  moreover have "load m (W (nl + 16 * i)) = 0"
    using Cons.prems(4) [rule_format, of 0] by simp
  moreover have "find (\<lambda>B. W r \<le> load m (W B)) (nodes nl (Suc i) ls) = map_option fst (find (\<lambda>d. r \<le> snd d) (concat ls))"
    using Cons.prems Cons.prems(4) [rule_format, of "Suc _"] by (intro Cons.IH) auto
  moreover have "find (\<lambda>B. W r \<le> load m (W B)) (map fst l) = map_option fst (find (\<lambda>d. r \<le> snd d) l)"
    using Cons.prems by (intro find_entries) auto
  ultimately show ?case
    by (simp add: find_append split: option.splits)
qed simp

text \<open>
  The search of \<open>mm_malloc\<close> skips the smaller classes; they hold nothing that is large enough, so it
  finds what a search of the whole list would find.
\<close>

lemma find_SomeD: "find P xs = Some x \<Longrightarrow> x \<in> set xs \<and> P x"
  by (induction xs) (auto split: if_splits)

lemma find_skip: "\<forall>d \<in> set xs. \<not> P d \<Longrightarrow> find P (xs @ ys) = find P ys"
  by (induction xs) auto

lemma flist_search:
  assumes "flist (mm_mem h) nl fl" and "mm_nodelist h = W nl" and "16 \<le> r" and "r < 4294967296"
  shows "find_fit h (W r) (node_flink h (nodelist_entry h (ndx r)))
    = Some (case find (\<lambda>d. r \<le> snd d) (concat fl) of None \<Rightarrow> 0 | Some d \<Rightarrow> W (fst d))"
proof -
  note f = flistD [OF assms(1)]
  let ?m = "mm_mem h" and ?i = "ndx r" and ?P = "\<lambda>B. W r \<le> load (mm_mem h) (W B)"
  have i: "?i < 19" using ndx_le [of r] assms(3,4) by simp
  obtain xs ys where fl: "fl = xs @ ys" and xs: "length xs = ?i" and "ys \<noteq> []"
    using append_take_drop_id [of ?i fl, symmetric] f(1) i by (metis drop_eq_Nil length_take linorder_not_le min.absorb4)
  then obtain l ys' where ys: "ys = l # ys'" by (cases ys) auto
  let ?T = "map fst l @ nodes nl (Suc ?i) ys'"
  have ns: "nodes nl 0 fl = nodes nl 0 xs @ (nl + 16 * ?i) # ?T"
    by (simp add: fl ys nodes_append xs)
  have entries: "load ?m (W (fst d)) = W (snd d) \<and> snd d < 4294967296" if "d \<in> set (concat fl)" for d
    using flist_entry [OF assms(1), of "fst d" "snd d"] that by simp
  have small: "\<not> r \<le> snd d" if "d \<in> set (concat xs)" for d
  proof
    assume "r \<le> snd d"
    from that obtain j where j: "j < ?i" "d \<in> set (fl ! j)"
      by (auto simp: in_set_conv_nth [of _ xs] xs fl nth_append)
    with f(6) [of j d] i have "ndx (snd d) = j" "snd d < 2147483648" by (auto simp: in_class_def)
    with ndx_mono [OF assms(3) \<open>r \<le> snd d\<close>] j show False by simp
  qed
  have "dseg ?m (nl + 16 * ?i) ?T 0" and flink: "load ?m (W (nl + 16 * ?i + 8)) = W (hd (?T @ [0]))"
    using f(3) unfolding ns by (simp_all add: dseg_append)
  moreover have "\<forall>A \<in> set ?T. 0 < A \<and> A < 4294967296"
    using f(2) ns by (fastforce dest: apart_bound)
  ultimately have fit: "find_fit h (W r) (W (hd (?T @ [0]))) = Some (W (case find ?P ?T of None \<Rightarrow> 0 | Some B \<Rightarrow> B))"
    using find_fit_dseg by blast
  have "find ?P (nodes nl ?i ys) = map_option fst (find (\<lambda>d. r \<le> snd d) (concat ys))"
  proof (rule find_nodes)
    show "\<forall>j<length ys. load ?m (W (nl + 16 * (?i + j))) = 0"
      using f(1) fl xs by (intro allI impI f(4)) simp
  qed (use entries fl assms(3,4) in auto)
  moreover have "find ?P (nodes nl ?i ys) = find ?P ?T"
    using f(4) [OF i] assms(3,4) W_le_iff [of r 0] by (simp add: ys)
  moreover have "find (\<lambda>d. r \<le> snd d) (concat fl) = find (\<lambda>d. r \<le> snd d) (concat ys)"
    using small by (simp add: fl find_skip)
  ultimately show ?thesis
    using fit flink by (auto simp: assms(2) nodelist_entry_def node_flink_def W_def [symmetric] split: option.splits)
qed

text \<open>The entries are in ascending order of size over the classes, so what the search finds fits best.\<close>

lemma sorted_entries:
  assumes "flist m nl fl"
  shows "sorted (map snd (concat fl))"
proof -
  note f = flistD [OF assms]
  have "sorted (map snd (concat (take n fl)))" if "n \<le> 19" for n
    using that
  proof (induction n)
    case (Suc n)
    then have n: "n < 19" by simp
    have "snd d \<le> snd e" if "d \<in> set (concat (take n fl))" "e \<in> set (fl ! n)" for d e
    proof (rule ccontr)
      assume "\<not> snd d \<le> snd e"
      from that(1) obtain j where "j < n" "d \<in> set (fl ! j)"
        using f(1) n by (auto simp: in_set_conv_nth [of _ "take n fl"])
      with f(6) [of j d] f(6) [OF n that(2)] n have "ndx (snd d) < ndx (snd e)" "16 \<le> snd e" "snd d < 2147483648"
        by (auto simp: in_class_def)
      with ndx_mono [of "snd e" "snd d"] \<open>\<not> snd d \<le> snd e\<close> show False by simp
    qed
    with Suc n f(1,5) show ?case
      by (auto simp: take_Suc_conv_app_nth sorted_append)
  qed simp
  from this [of 19] f(1) show ?thesis by simp
qed

lemma find_sorted_least:
  assumes "sorted (map snd xs)" and "find (\<lambda>d. r \<le> snd d) xs = Some d" and "e \<in> set xs" and "r \<le> snd e"
  shows "snd d \<le> snd e"
  using assms by (induction xs) (auto split: if_splits)

end
