(* ===== verification/Mm_Layout.thy ===== *)
theory Mm_Layout
  imports Mm_Buckets
begin

text \<open>
  The heap as a row of chunks. \<open>layout m a p cs\<close> says that the chunks \<open>cs\<close> (size, in use or not) follow one
  another in memory from address \<open>a\<close>, that every header has the size of its chunk and of the preceding
  one, and the flag. \<open>heap_ok\<close> joins the layout with the free list; \<open>D\<close> is the set of free chunks that
  are off the list at the moment, empty between calls. The allocator is built from three kinds of steps,
  and each keeps \<open>heap_ok\<close>: taking a chunk off the list, putting one on it, and rewriting the headers of
  a section of the row.
\<close>

section \<open>Flag and size of the preceding chunk\<close>

definition pre :: "nat \<Rightarrow> bool \<Rightarrow> u32" where
  "pre p u = (if u then W p OR MM_ALLOC_BIT else W p)"

lemma alloc_bit_clear: "p < 2147483648 \<Longrightarrow> W p AND MM_ALLOC_BIT = 0"
proof -
  assume "p < 2147483648"
  then have "unat (W p AND MM_ALLOC_BIT) = 0"
    using unat_W [of p]
    by (simp add: MM_ALLOC_BIT_def unsigned_and_eq and_exp_eq_0_iff_not_bit [of _ 31, simplified] bit_iff_odd)
  then show ?thesis by (simp add: unsigned_eq_0_iff)
qed

lemma pre_simps:
  assumes "p < 2147483648"
  shows "pre p u AND MM_ALLOC_BIT = (if u then MM_ALLOC_BIT else 0)"
    and "pre p u AND NOT MM_ALLOC_BIT = W p"
proof -
  have *: "W p AND MM_ALLOC_BIT = 0" by (rule alloc_bit_clear [OF assms])
  then have "W p AND NOT MM_ALLOC_BIT = W p"
    by (metis (no_types) and.right_neutral bit.conj_disj_distrib bit.disj_cancel_right or.left_neutral)
  with * show "pre p u AND MM_ALLOC_BIT = (if u then MM_ALLOC_BIT else 0)"
    and "pre p u AND NOT MM_ALLOC_BIT = W p"
    by (simp_all add: pre_def bit.conj_disj_distrib2)
qed

lemma pre_or [simp]: "pre p u OR MM_ALLOC_BIT = pre p True"
  by (simp add: pre_def or.assoc)

lemma alloc_bit_nonzero [simp]: "MM_ALLOC_BIT \<noteq> 0"
  by (simp add: MM_ALLOC_BIT_def)

lemma or_flag: "W q OR (if u then MM_ALLOC_BIT else 0) = pre q u"
  by (simp add: pre_def)

section \<open>Rows of chunks\<close>

type_synonym chunk = "nat \<times> bool"

definition extent :: "chunk list \<Rightarrow> nat" where
  "extent cs = sum_list (map fst cs)"

lemma extent_simps [simp]: "extent [] = 0" "extent (c # cs) = fst c + extent cs" "extent (cs @ ds) = extent cs + extent ds"
  by (simp_all add: extent_def)

fun layout :: "memory \<Rightarrow> nat \<Rightarrow> nat \<Rightarrow> chunk list \<Rightarrow> bool" where
  "layout m a p [] = True"
| "layout m a p ((s, u) # cs) \<longleftrightarrow> load m (W a) = W s \<and> load m (W (a + 4)) = pre p u \<and> layout m (a + s) s cs"

fun blocks :: "nat \<Rightarrow> chunk list \<Rightarrow> (nat \<times> nat \<times> bool) list" where
  "blocks a [] = []"
| "blocks a ((s, u) # cs) = (a, s, u) # blocks (a + s) cs"

definition free_chunks :: "nat \<Rightarrow> chunk list \<Rightarrow> entry set" where
  "free_chunks a cs = {(A, s). (A, s, False) \<in> set (blocks a cs)}"

lemma layout_append:
  "layout m a p (xs @ ys) \<longleftrightarrow> layout m a p xs \<and> layout m (a + extent xs) (last (p # map fst xs)) ys"
  by (induction xs arbitrary: a p) (auto simp: add.assoc)

lemma blocks_append: "blocks a (xs @ ys) = blocks a xs @ blocks (a + extent xs) ys"
  by (induction xs arbitrary: a) (auto simp: add.assoc)

lemma free_chunks_append: "free_chunks a (xs @ ys) = free_chunks a xs \<union> free_chunks (a + extent xs) ys"
  by (auto simp: free_chunks_def blocks_append)

lemma free_chunks_simps [simp]:
  "free_chunks a [] = {}"
  "free_chunks a ((s, u) # cs) = (if u then {} else {(a, s)}) \<union> free_chunks (a + s) cs"
  by (auto simp: free_chunks_def)

lemma blocks_range: "(A, s, u) \<in> set (blocks a cs) \<Longrightarrow> a \<le> A \<and> A + s \<le> a + extent cs \<and> (s, u) \<in> set cs"
  by (induction cs arbitrary: a) fastforce+

lemma blocks_split:
  assumes "(A, s, u) \<in> set (blocks a cs)"
  obtains xs ys where "cs = xs @ (s, u) # ys" and "A = a + extent xs"
  using assms
proof (induction cs arbitrary: a thesis)
  case (Cons c cs)
  show ?case
  proof (cases "(A, s, u) = (a, fst c, snd c)")
    case True
    then show ?thesis using Cons.prems(1) [of "[]" cs] by (cases c) auto
  next
    case False
    with Cons.prems(2) have "(A, s, u) \<in> set (blocks (a + fst c) cs)" by (cases c) auto
    then obtain xs ys where "cs = xs @ (s, u) # ys" "A = a + fst c + extent xs"
      using Cons.IH [of "a + fst c"] by auto
    then show ?thesis using Cons.prems(1) [of "c # xs" ys] by simp
  qed
qed simp

lemma blocks_apart:
  assumes "(A, s, u) \<in> set (blocks a cs)" and "(B, t, v) \<in> set (blocks a cs)" and "\<forall>c \<in> set cs. 0 < fst c"
  shows "(A, s, u) = (B, t, v) \<or> A + s \<le> B \<or> B + t \<le> A"
  using assms
proof (induction cs arbitrary: a)
  case (Cons c cs)
  obtain s' u' where c: "c = (s', u')" by (cases c)
  show ?case
    using Cons.IH [of "a + s'"] Cons.prems blocks_range [of A s u "a + s'" cs] blocks_range [of B t v "a + s'" cs]
    unfolding c by auto
qed simp

lemma blocks_unique:
  assumes "(A, s, u) \<in> set (blocks a cs)" and "(A, t, v) \<in> set (blocks a cs)" and "\<forall>c \<in> set cs. 0 < fst c"
  shows "s = t \<and> u = v"
  using blocks_apart [OF assms] blocks_range [OF assms(1)] blocks_range [OF assms(2)] assms(3) by fastforce

text \<open>The header of a chunk: eight bytes.\<close>

lemma blocks_header:
  assumes "(A, s, u) \<in> set (blocks a cs)" and "\<forall>c \<in> set cs. 8 \<le> fst c"
  shows "a \<le> A" and "A + 8 \<le> a + extent cs" and "8 \<le> s"
  using blocks_range [OF assms(1)] assms(2) by fastforce+

lemma layout_cong:
  assumes "\<And>A s u x. (A, s, u) \<in> set (blocks a cs) \<Longrightarrow> A \<le> unat x \<Longrightarrow> unat x < A + 8 \<Longrightarrow> m' x = m x"
    and "\<forall>c \<in> set cs. 8 \<le> fst c" and "a + extent cs \<le> 4294967296"
  shows "layout m' a p cs = layout m a p cs"
  using assms
proof (induction cs arbitrary: a p)
  case (Cons c cs)
  obtain s u where c: "c = (s, u)" by (cases c)
  have "load m' (W a) = load m (W a)" "load m' (W (a + 4)) = load m (W (a + 4))"
    using Cons.prems(1) [of a s u] Cons.prems(2,3) c by (auto intro!: load_cong)
  moreover have "layout m' (a + s) s cs = layout m (a + s) s cs"
    using Cons.prems c by (intro Cons.IH) (auto simp: add.assoc)
  ultimately show ?case by (simp add: c)
qed simp

section \<open>Rewriting a section of the row\<close>

text \<open>
  The memories differ only between \<open>A\<close> and \<open>Y\<close>, the address of the next chunk, and in the \<open>preceding\<close>
  field of that chunk.
\<close>

definition section_only :: "nat \<Rightarrow> nat \<Rightarrow> memory \<Rightarrow> memory \<Rightarrow> bool" where
  "section_only A Y m m' \<longleftrightarrow>
     (\<forall>x. \<not> (A \<le> unat x \<and> unat x < Y) \<and> \<not> (Y + 4 \<le> unat x \<and> unat x < Y + 8) \<longrightarrow> m' x = m x)"

lemma section_only_refl [simp]: "section_only A Y m m"
  by (simp add: section_only_def)

lemma section_only_store:
  assumes "section_only A Y m m'" and "A \<le> B \<and> B + 4 \<le> Y \<or> B = Y + 4" and "B + 4 \<le> 4294967296"
  shows "section_only A Y m (store (W B) v m')"
proof -
  have "store (W B) v m' x = m' x"
    if "\<not> (A \<le> unat x \<and> unat x < Y)" "\<not> (Y + 4 \<le> unat x \<and> unat x < Y + 8)" for x
    using that assms(2,3) by (intro store_apply_other) auto
  with assms(1) show ?thesis by (simp add: section_only_def)
qed

lemma layout_section:
  assumes "layout m a p (xs @ old @ (t, v) # ys)" and "extent new = extent old"
    and "section_only (a + extent xs) (a + extent xs + extent old) m m'"
    and "layout m' (a + extent xs) (last (p # map fst xs)) new"
    and "load m' (W (a + extent xs + extent old + 4)) = pre (last (0 # map fst new)) v" and "new \<noteq> []"
    and "\<forall>c \<in> set (xs @ (t, v) # ys). 8 \<le> fst c" and "a + extent (xs @ old @ (t, v) # ys) \<le> 4294967296"
  shows "layout m' a p (xs @ new @ (t, v) # ys)"
proof -
  let ?A = "a + extent xs" and ?Y = "a + extent xs + extent old"
  have same: "m' x = m x" if "unat x < ?A \<or> (?Y \<le> unat x \<and> unat x < ?Y + 4) \<or> ?Y + 8 \<le> unat x" for x
    using assms(3) that unfolding section_only_def by auto
  have "layout m' a p xs = layout m a p xs"
  proof (rule layout_cong)
    fix A s u and x :: u32
    assume "(A, s, u) \<in> set (blocks a xs)" and "unat x < A + 8"
    with blocks_header [of A s u a xs] assms(7) show "m' x = m x" by (intro same) auto
  qed (use assms(7,8) in auto)
  moreover have "load m' (W ?Y) = load m (W ?Y)"
    using assms(7,8) by (intro load_cong same) auto
  moreover have "layout m' (?Y + t) t ys = layout m (?Y + t) t ys"
  proof (rule layout_cong)
    fix A s u and x :: u32
    assume "(A, s, u) \<in> set (blocks (?Y + t) ys)" and "A \<le> unat x"
    with blocks_header [of A s u "?Y + t" ys] assms(7) show "m' x = m x" by (intro same) auto
  qed (use assms(7,8) in auto)
  ultimately show ?thesis
    using assms(1,2,4,5,6) by (simp add: layout_append)
qed

section \<open>The state of the heap\<close>

abbreviation guard :: chunk where "guard \<equiv> (8, True)"

text \<open>The guard nodes at both ends, and chunks of at least the size of a free node between them.\<close>

definition guarded :: "chunk list \<Rightarrow> bool" where
  "guarded cs \<longleftrightarrow> (\<exists>mid. cs = guard # mid @ [guard] \<and> (\<forall>c \<in> set mid. 16 \<le> fst c))"

definition placed :: "nat \<Rightarrow> nat \<Rightarrow> nat \<Rightarrow> bool" where
  "placed a nl T \<longleftrightarrow> 0 < a \<and> a + T < 4294967296 \<and> T < 2147483648
     \<and> 0 < nl \<and> nl + 304 < 4294967296 \<and> (nl + 304 \<le> a \<or> a + T \<le> nl)"

definition heap_ok :: "nat \<Rightarrow> nat \<Rightarrow> chunk list \<Rightarrow> entry set \<Rightarrow> entry list list \<Rightarrow> mm_heap \<Rightarrow> bool" where
  "heap_ok a nl cs D fl h \<longleftrightarrow>
     guarded cs \<and> placed a nl (extent cs)
     \<and> mm_heapstart h = W a \<and> mm_heapend h = W (a + extent cs - 8)
     \<and> mm_nodelist h = W nl
     \<and> layout (mm_mem h) a 0 cs \<and> flist (mm_mem h) nl fl \<and> set (concat fl) = free_chunks a cs - D"

lemma heap_okD:
  assumes "heap_ok a nl cs D fl h"
  shows "guarded cs" and "placed a nl (extent cs)" and "mm_nodelist h = W nl"
    and "layout (mm_mem h) a 0 cs" and "flist (mm_mem h) nl fl" and "set (concat fl) = free_chunks a cs - D"
    and "mm_heapstart h = W a" and "mm_heapend h = W (a + extent cs - 8)"
  using assms by (simp_all add: heap_ok_def)

lemma guarded_sizes: "guarded cs \<Longrightarrow> c \<in> set cs \<Longrightarrow> c = guard \<or> 16 \<le> fst c"
  unfolding guarded_def by auto

lemma guarded_pos: "guarded cs \<Longrightarrow> \<forall>c \<in> set cs. 0 < fst c" and guarded_ge_8: "guarded cs \<Longrightarrow> \<forall>c \<in> set cs. 8 \<le> fst c"
  by (fastforce dest: guarded_sizes)+

lemma guarded_ends:
  "guarded (xs @ ys) \<Longrightarrow> xs \<noteq> [] \<Longrightarrow> ys \<noteq> [] \<Longrightarrow>
    hd xs = guard \<and> last ys = guard \<and> (\<forall>c \<in> set (tl xs @ butlast ys). 16 \<le> fst c)"
  unfolding guarded_def by (cases xs; cases ys rule: rev_cases) auto

lemma guardedI:
  "xs \<noteq> [] \<Longrightarrow> ys \<noteq> [] \<Longrightarrow> hd xs = guard \<Longrightarrow> last ys = guard \<Longrightarrow> \<forall>c \<in> set (tl xs @ butlast ys). 16 \<le> fst c
    \<Longrightarrow> guarded (xs @ ys)"
  unfolding guarded_def by (cases xs; cases ys rule: rev_cases) auto

lemma guarded_replace:
  assumes "guarded (xs @ old @ ys)" and "xs \<noteq> []" and "ys \<noteq> []" and "\<forall>c \<in> set new. 16 \<le> fst c"
  shows "guarded (xs @ new @ ys)"
  using guarded_ends [of xs "old @ ys"] assms
  by (intro guardedI) (auto simp: butlast_append split: if_splits)

lemma guarded_mid:
  assumes "guarded (xs @ (s, u) # ys)" and "s \<noteq> 8 \<or> \<not> u"
  shows "xs \<noteq> []" and "ys \<noteq> []" and "16 \<le> s"
  using assms guarded_sizes [OF assms(1), of "(s, u)"] unfolding guarded_def
  by (auto simp: append_eq_Cons_conv Cons_eq_append_conv)

lemma guarded_free: "guarded cs \<Longrightarrow> (s, False) \<in> set cs \<Longrightarrow> 16 \<le> s"
  using guarded_sizes [of cs "(s, False)"] by simp

text \<open>Every node of the list is a head or a chunk of the row with room for a free node.\<close>

lemma heap_ok_nodes:
  assumes "heap_ok a nl cs D fl h" and "B \<in> set (nodes nl 0 fl)"
  obtains (head) "nl \<le> B" and "B + 16 \<le> nl + 304"
    | (entry) s where "(B, s, False) \<in> set (blocks a cs)" and "16 \<le> s" and "(B, s) \<in> set (concat fl)"
proof -
  note k = heap_okD [OF assms(1)]
  from assms(2) flistD(1) [OF k(5)] consider j where "j < 19" "B = nl + 16 * j" | s where "(B, s) \<in> set (concat fl)"
    unfolding set_nodes by force
  then show thesis
  proof cases
    case 1
    then show ?thesis using head by simp
  next
    case 2
    moreover from 2 have "(B, s, False) \<in> set (blocks a cs)"
      using k(6) by (auto simp: free_chunks_def)
    ultimately show ?thesis
      using flist_entry(1) [OF k(5)] entry by blast
  qed
qed

text \<open>The bytes that belong to the callers and to the rest of the program.\<close>

definition user_byte :: "nat \<Rightarrow> nat \<Rightarrow> chunk list \<Rightarrow> u32 \<Rightarrow> bool" where
  "user_byte a nl cs x \<longleftrightarrow>
     (\<exists>A s. (A, s, True) \<in> set (blocks a cs) \<and> A + 8 \<le> unat x \<and> unat x < A + s)
     \<or> \<not> (a \<le> unat x \<and> unat x < a + extent cs) \<and> \<not> (nl \<le> unat x \<and> unat x < nl + 304)"

lemma user_byte_not_free:
  assumes "guarded cs" and "(A, s, False) \<in> set (blocks a cs)" and "user_byte a nl cs x"
  shows "\<not> (A \<le> unat x \<and> unat x < A + s)"
  using assms(3) unfolding user_byte_def
proof (elim disjE exE conjE)
  fix B r assume "(B, r, True) \<in> set (blocks a cs)" "B + 8 \<le> unat x" "unat x < B + r"
  with blocks_apart [OF this(1) assms(2) guarded_pos [OF assms(1)]] show ?thesis by auto
qed (use blocks_range [OF assms(2)] in linarith)

text \<open>Bytes of links are neither headers nor user bytes.\<close>

definition link_nodes :: "nat \<Rightarrow> nat \<Rightarrow> chunk list \<Rightarrow> nat set" where
  "link_nodes a nl cs = {B. nl \<le> B \<and> B + 16 \<le> nl + 304} \<union> {B. \<exists>s. (B, s, False) \<in> set (blocks a cs)}"

lemma link_byte_free:
  assumes "guarded cs" and "placed a nl (extent cs)" and "B \<in> link_nodes a nl cs" and "link_byte B x"
  shows "\<not> user_byte a nl cs x" and "(A, s, u) \<in> set (blocks a cs) \<Longrightarrow> \<not> (A \<le> unat x \<and> unat x < A + 8)"
proof -
  note pos = guarded_pos [OF assms(1)]
  consider (head) "nl \<le> B" "B + 16 \<le> nl + 304" | (chunk) t where "(B, t, False) \<in> set (blocks a cs)" "16 \<le> t"
    using assms(1,3) guarded_free by (auto simp: link_nodes_def dest: blocks_range)
  then show "\<not> user_byte a nl cs x" and "(A, s, u) \<in> set (blocks a cs) \<Longrightarrow> \<not> (A \<le> unat x \<and> unat x < A + 8)"
  proof (atomize (full), cases)
    case head
    have "\<not> (A \<le> unat x \<and> unat x < A + s)" if "(A, s, u) \<in> set (blocks a cs)" for A s u
      using blocks_range [OF that] head assms(2,4) by (auto simp: placed_def link_byte_def)
    moreover have "8 \<le> s" if "(A, s, u) \<in> set (blocks a cs)" for A s u
      using blocks_range [OF that] guarded_sizes [OF assms(1)] by fastforce
    ultimately show "\<not> user_byte a nl cs x \<and> ((A, s, u) \<in> set (blocks a cs) \<longrightarrow> \<not> (A \<le> unat x \<and> unat x < A + 8))"
      using head assms(2,4) by (fastforce simp: user_byte_def placed_def link_byte_def)
  next
    case (chunk t)
    have "\<not> (A \<le> unat x \<and> unat x < A + 8) \<and> (u \<longrightarrow> \<not> (A \<le> unat x \<and> unat x < A + s))"
      if "(A, s, u) \<in> set (blocks a cs)" for A s u
    proof -
      have "8 \<le> s" using blocks_range [OF that] guarded_sizes [OF assms(1)] by fastforce
      with blocks_apart [OF that chunk(1) pos] chunk(2) assms(4) show ?thesis
        by (auto simp: link_byte_def)
    qed
    moreover have "a \<le> unat x \<and> unat x < a + extent cs"
      using blocks_range [OF chunk(1)] chunk(2) assms(4) by (auto simp: link_byte_def)
    ultimately show "\<not> user_byte a nl cs x \<and> ((A, s, u) \<in> set (blocks a cs) \<longrightarrow> \<not> (A \<le> unat x \<and> unat x < A + 8))"
      by (fastforce simp: user_byte_def)
  qed
qed

section \<open>The three kinds of steps\<close>

text \<open>A change of links leaves the headers and the user bytes alone.\<close>

lemma heap_links:
  assumes "guarded cs" and "placed a nl (extent cs)" and "links_only S m m'" and "S \<subseteq> link_nodes a nl cs"
  shows "layout m' a 0 cs = layout m a 0 cs" and "user_byte a nl cs x \<Longrightarrow> m' x = m x"
proof -
  have same: "m' x = m x" if "\<And>B. B \<in> S \<Longrightarrow> \<not> link_byte B x" for x
    using assms(3) that by (simp add: links_only_def)
  show "layout m' a 0 cs = layout m a 0 cs"
  proof (rule layout_cong)
    show "m' x = m x" if "(A, s, u) \<in> set (blocks a cs)" "A \<le> unat x" "unat x < A + 8" for A s u x
      using link_byte_free(2) [OF assms(1,2) _ _ that(1)] that(2,3) assms(4) by (intro same) blast
    show "\<forall>c \<in> set cs. 8 \<le> fst c"
      by (rule guarded_ge_8 [OF assms(1)])
    show "a + extent cs \<le> 4294967296"
      using assms(2) by (simp add: placed_def)
  qed
  show "m' x = m x" if "user_byte a nl cs x"
    using link_byte_free(1) [OF assms(1,2)] that assms(4) by (intro same) blast
qed

lemma heap_ok_link_nodes:
  assumes "heap_ok a nl cs D fl h"
  shows "set (nodes nl 0 fl) \<subseteq> link_nodes a nl cs"
proof
  fix B assume "B \<in> set (nodes nl 0 fl)"
  with assms show "B \<in> link_nodes a nl cs"
    by (cases rule: heap_ok_nodes) (auto simp: link_nodes_def)
qed

lemma heap_unlink:
  assumes "heap_ok a nl cs D fl h" and "(A, s) \<in> free_chunks a cs - D"
  obtains m' where "mm_unlink (W A) h = return_run (h\<lparr>mm_mem := m'\<rparr>)"
    and "heap_ok a nl cs (insert (A, s) D) (drop_entry A fl) (h\<lparr>mm_mem := m'\<rparr>)"
    and "\<And>x. user_byte a nl cs x \<Longrightarrow> m' x = mm_mem h x"
proof -
  note k = heap_okD [OF assms(1)]
  have entry: "(A, s) \<in> set (concat fl)" using assms(2) k(6) by simp
  obtain m' where m': "mm_unlink (W A) h = return_run (h\<lparr>mm_mem := m'\<rparr>)" "flist m' nl (drop_entry A fl)"
      "links_only (set (nodes nl 0 (drop_entry A fl))) (mm_mem h) m'"
    by (rule flist_unlink [OF k(5) entry])
  note pos = guarded_pos [OF k(1)]
  have "fst e = A \<longleftrightarrow> e = (A, s)" if "e \<in> free_chunks a cs" for e
    using blocks_unique [of A "snd e" False a cs s False] that assms(2) pos by (cases e) (auto simp: free_chunks_def)
  then have set': "set (concat (drop_entry A fl)) = free_chunks a cs - insert (A, s) D"
    unfolding concat_drop_entry set_filter k(6) by blast
  have "set (nodes nl 0 (drop_entry A fl)) \<subseteq> set (nodes nl 0 fl)"
    unfolding set_nodes concat_drop_entry by (auto simp: drop_entry_def)
  then have "set (nodes nl 0 (drop_entry A fl)) \<subseteq> link_nodes a nl cs"
    using heap_ok_link_nodes [OF assms(1)] by blast
  note links = heap_links [OF k(1,2) m'(3) this]
  show thesis
  proof (rule that [OF m'(1)])
    show "heap_ok a nl cs (insert (A, s) D) (drop_entry A fl) (h\<lparr>mm_mem := m'\<rparr>)"
      using assms(1) m'(2) links(1) set' by (simp add: heap_ok_def)
    show "m' x = mm_mem h x" if "user_byte a nl cs x" for x
      by (rule links(2) [OF that])
  qed
qed

lemma heap_add:
  assumes "heap_ok a nl cs D fl h" and "(A, s) \<in> free_chunks a cs" and "(A, s) \<in> D"
  obtains m' where "mm_addfreechunk (W A) h = return_run (h\<lparr>mm_mem := m'\<rparr>)"
    and "heap_ok a nl cs (D - {(A, s)}) (add_entry (A, s) fl) (h\<lparr>mm_mem := m'\<rparr>)"
    and "\<And>x. user_byte a nl cs x \<Longrightarrow> m' x = mm_mem h x"
proof -
  note k = heap_okD [OF assms(1)]
  have blk: "(A, s, False) \<in> set (blocks a cs)" using assms(2) by (simp add: free_chunks_def)
  note pos = guarded_pos [OF k(1)]
  note range = blocks_range [OF blk]
  have s: "16 \<le> s" "s < 2147483648"
    using guarded_free [OF k(1)] range k(2) by (auto simp: placed_def)
  obtain xs ys where split: "cs = xs @ (s, False) # ys" "A = a + extent xs"
    by (rule blocks_split [OF blk])
  have size: "load (mm_mem h) (W A) = W s"
    using k(4) by (simp add: split layout_append)
  have A: "0 < A" "A + 16 \<le> 4294967296"
    using range s k(2) by (auto simp: placed_def)
  have clear: "clear_of A B" if "B \<in> set (nodes nl 0 fl)" for B
    using assms(1) that
  proof (cases rule: heap_ok_nodes)
    case head
    with range s k(2) show ?thesis by (auto simp: placed_def clear_of_def)
  next
    case (entry t)
    with assms(3) k(6) have "(B, t) \<noteq> (A, s)" by auto
    with blocks_apart [OF blk entry(1) pos] entry(2) s show ?thesis by (auto simp: clear_of_def)
  qed
  obtain m' where m': "mm_addfreechunk (W A) h = return_run (h\<lparr>mm_mem := m'\<rparr>)" "flist m' nl (add_entry (A, s) fl)"
      "links_only (insert A (set (nodes nl 0 fl))) (mm_mem h) m'"
    using flist_add [OF k(5,3) size s A] clear by blast
  have "insert A (set (nodes nl 0 fl)) \<subseteq> link_nodes a nl cs"
    using heap_ok_link_nodes [OF assms(1)] blk by (auto simp: link_nodes_def)
  note links = heap_links [OF k(1,2) m'(3) this]
  have "ndx s < length fl"
    using ndx_le [OF s(1)] s(2) flistD(1) [OF k(5)] by simp
  then have set': "set (concat (add_entry (A, s) fl)) = free_chunks a cs - (D - {(A, s)})"
    using set_concat_add_entry [of "(A, s)" fl] k(6) assms(2) by auto
  show thesis
  proof (rule that [OF m'(1)])
    show "heap_ok a nl cs (D - {(A, s)}) (add_entry (A, s) fl) (h\<lparr>mm_mem := m'\<rparr>)"
      using assms(1) m'(2) links(1) set' by (simp add: heap_ok_def)
    show "m' x = mm_mem h x" if "user_byte a nl cs x" for x
      by (rule links(2) [OF that])
  qed
qed

text \<open>The free chunks of two parts of a row are different.\<close>

lemma free_chunks_range: "(A, s) \<in> free_chunks a cs \<Longrightarrow> a \<le> A \<and> A + s \<le> a + extent cs \<and> (s, False) \<in> set cs"
  by (auto simp: free_chunks_def dest: blocks_range)

lemma free_chunks_disjoint:
  assumes "\<forall>c \<in> set (xs @ ys). 0 < fst c" and "a + extent xs \<le> b"
  shows "free_chunks a xs \<inter> free_chunks b ys = {}"
proof -
  have False if "(A, s) \<in> free_chunks a xs" "(A, s) \<in> free_chunks b ys" for A s
  proof -
    have "0 < s" using free_chunks_range [OF that(1)] bspec [OF assms(1), of "(s, False)"] by simp
    then show False
      using free_chunks_range [OF that(1)] free_chunks_range [OF that(2)] assms(2) by linarith
  qed
  then show ?thesis by auto
qed

lemma flist_section:
  assumes "flist m nl fl" and "section_only A Y m m'"
    and "\<And>B. B \<in> set (nodes nl 0 fl) \<Longrightarrow> B + 16 \<le> A \<or> B = Y \<or> Y + 8 \<le> B" and "A \<le> Y"
  shows "flist m' nl fl"
proof (rule flist_cong [OF assms(1)])
  fix B and x :: u32
  assume "B \<in> set (nodes nl 0 fl)" and "(B \<le> unat x \<and> unat x < B + 4) \<or> link_byte B x"
  with assms(3) [of B] assms(4)
  have "\<not> (A \<le> unat x \<and> unat x < Y)" and "\<not> (Y + 4 \<le> unat x \<and> unat x < Y + 8)"
    by (auto simp: link_byte_def)
  with assms(2) show "m' x = m x" by (simp add: section_only_def)
qed

lemma heap_section:
  assumes ok: "heap_ok a nl (xs @ old @ (t, v) # ys) D fl h" and D: "D = free_chunks (a + extent xs) old"
    and new: "xs \<noteq> []" "new \<noteq> []" "\<forall>c \<in> set new. 16 \<le> fst c" "extent new = extent old"
    and sec: "section_only (a + extent xs) (a + extent xs + extent old) (mm_mem h) m'"
    and lay: "layout m' (a + extent xs) (last (0 # map fst xs)) new"
    and nxt: "load m' (W (a + extent xs + extent old + 4)) = pre (last (0 # map fst new)) v"
  shows "heap_ok a nl (xs @ new @ (t, v) # ys) (free_chunks (a + extent xs) new) fl (h\<lparr>mm_mem := m'\<rparr>)"
    and "user_byte a nl (xs @ old @ (t, v) # ys) x \<Longrightarrow> \<not> (a + extent xs \<le> unat x \<and> unat x < a + extent xs + extent old)
      \<Longrightarrow> m' x = mm_mem h x"
proof -
  note k = heap_okD [OF ok]
  let ?A = "a + extent xs" and ?Y = "a + extent xs + extent old"
  note pos = guarded_pos [OF k(1)] and ge8 = guarded_ge_8 [OF k(1)]
  have grd: "guarded (xs @ new @ (t, v) # ys)"
    by (rule guarded_replace [OF k(1) new(1) _ new(3)]) simp
  have d1: "free_chunks a xs \<inter> D = {}" and d2: "D \<inter> free_chunks ?Y ((t, v) # ys) = {}"
    unfolding D using pos by (auto intro!: free_chunks_disjoint simp del: free_chunks_simps)
  have set1: "set (concat fl) = free_chunks a xs \<union> free_chunks ?Y ((t, v) # ys)"
    using k(6) d1 d2 unfolding D free_chunks_append by blast
  have n1: "free_chunks a xs \<inter> free_chunks ?A new = {}" and n2: "free_chunks ?A new \<inter> free_chunks ?Y ((t, v) # ys) = {}"
    using guarded_pos [OF grd] new(4) by (auto intro!: free_chunks_disjoint simp del: free_chunks_simps)
  have set2: "set (concat fl) = free_chunks a (xs @ new @ (t, v) # ys) - free_chunks ?A new"
    using n1 n2 unfolding set1 free_chunks_append new(4) by blast
  have "flist m' nl fl"
  proof (rule flist_section [OF k(5) sec])
    fix B assume "B \<in> set (nodes nl 0 fl)"
    with ok show "B + 16 \<le> ?A \<or> B = ?Y \<or> ?Y + 8 \<le> B"
    proof (cases rule: heap_ok_nodes)
      case head
      with k(2) ge8 show ?thesis by (auto simp: placed_def)
    next
      case (entry s)
      then consider "(B, s) \<in> free_chunks a xs" | "(B, s) = (?Y, t)" | "(B, s) \<in> free_chunks (?Y + t) ys"
        unfolding set1 by (auto split: if_splits)
      then show ?thesis
        using entry(2) ge8 free_chunks_range by cases fastforce+
    qed
  qed simp
  moreover have "layout m' a 0 (xs @ new @ (t, v) # ys)"
    by (rule layout_section [OF k(4) new(4) sec lay nxt new(2)]) (use ge8 k(2) in \<open>auto simp: placed_def\<close>)
  ultimately show "heap_ok a nl (xs @ new @ (t, v) # ys) (free_chunks ?A new) fl (h\<lparr>mm_mem := m'\<rparr>)"
    using ok grd set2 new(4) by (simp add: heap_ok_def add.left_commute)
  show "m' x = mm_mem h x"
    if "user_byte a nl (xs @ old @ (t, v) # ys) x" "\<not> (?A \<le> unat x \<and> unat x < ?Y)"
  proof -
    have Y: "(?Y, t, v) \<in> set (blocks a (xs @ old @ (t, v) # ys))"
      by (simp add: blocks_append)
    note r = blocks_header [OF Y ge8]
    have "\<not> (?Y \<le> unat x \<and> unat x < ?Y + 8)"
      using that(1) unfolding user_byte_def
    proof (elim disjE exE conjE)
      fix B s assume "(B, s, True) \<in> set (blocks a (xs @ old @ (t, v) # ys))" "B + 8 \<le> unat x" "unat x < B + s"
      with blocks_apart [OF this(1) Y pos] r show ?thesis by auto
    qed (use r in linarith)
    with that(2) sec show ?thesis by (simp add: section_only_def)
  qed
qed

end
