(* ===== verification/Mm_Malloc.thy ===== *)
theory Mm_Malloc
  imports Mm_Layout
begin

text \<open>
  \<open>mm_malloc\<close> on a well-formed heap: the search takes a free chunk of the least sufficient size, the chunk
  is carved, and the heap is well formed again. The row of chunks before and after is the abstract view
  of the call.
\<close>

section \<open>Headers in a row\<close>

lemma last_size: "last (0 # map fst xs) \<le> extent xs"
  by (cases xs rule: rev_cases) auto

lemma heap_header:
  assumes "heap_ok a nl (xs @ (s, u) # (t, v) # ys) D fl h"
  defines "A \<equiv> a + extent xs"
  shows "load (mm_mem h) (W A) = W s" and "load (mm_mem h) (W (A + 4)) = pre (last (0 # map fst xs)) u"
    and "load (mm_mem h) (W (A + s)) = W t" and "load (mm_mem h) (W (A + s + 4)) = pre s v"
    and "A + s + 8 < 4294967296" and "s < 2147483648" and "t < 2147483648" and "0 < A" and "8 \<le> s" and "8 \<le> t"
    and "last (0 # map fst xs) < 2147483648" and "A + s + t < 4294967296"
proof -
  note k = heap_okD [OF assms(1)]
  note ge8 = guarded_ge_8 [OF k(1)]
  show "8 \<le> s" "8 \<le> t" using ge8 by simp_all
  with k(2) show "A + s + 8 < 4294967296" "s < 2147483648" "t < 2147483648" "0 < A" "A + s + t < 4294967296"
    by (auto simp: A_def placed_def)
  show "load (mm_mem h) (W A) = W s" and "load (mm_mem h) (W (A + 4)) = pre (last (0 # map fst xs)) u"
    and "load (mm_mem h) (W (A + s)) = W t" and "load (mm_mem h) (W (A + s + 4)) = pre s v"
    using k(4) by (simp_all add: A_def layout_append)
  with last_size [of xs] k(2) show "last (0 # map fst xs) < 2147483648"
    by (simp add: placed_def)
qed

lemma le_W: "b < 4294967296 \<Longrightarrow> 16 \<le> W b \<longleftrightarrow> 16 \<le> b"
  by (simp add: word_le_nat_alt)

section \<open>Carving a chunk\<close>

definition carve :: "nat \<Rightarrow> nat \<Rightarrow> chunk list" where
  "carve r s = (if r + 16 \<le> s then [(r, True), (s - r, False)] else [(s, True)])"

text \<open>
  Changing the flag of a chunk: a free chunk that is off the list becomes allocated (the last header write of
  \<open>mm_malloc\<close>), an allocated one becomes free and is not yet on the list (the first of \<open>mm_free\<close>).
\<close>

definition off_list :: "nat \<Rightarrow> nat \<Rightarrow> bool \<Rightarrow> entry set" where
  "off_list A s u = (if u then {} else {(A, s)})"

lemma heap_flag:
  fixes w :: bool
  assumes "heap_ok a nl (xs @ (s, u) # (t, v) # ys) (off_list A s u) fl h" and "A = a + extent xs" and "xs \<noteq> []" and "16 \<le> s"
  defines "h' \<equiv> h\<lparr>mm_mem := store (W (A + 4)) (pre (last (0 # map fst xs)) w) (mm_mem h)\<rparr>"
  shows "heap_ok a nl (xs @ (s, w) # (t, v) # ys) (off_list A s w) fl h'"
    and "user_byte a nl (xs @ (s, u) # (t, v) # ys) x \<Longrightarrow> \<not> (A \<le> unat x \<and> unat x < A + s) \<Longrightarrow> mm_mem h' x = mm_mem h x"
proof -
  note e = heap_header [OF assms(1), folded assms(2)]
  let ?p = "last (0 # map fst xs)"
  let ?m = "store (W (A + 4)) (pre ?p w) (mm_mem h)"
  have sec: "section_only (a + extent xs) (a + extent xs + extent [(s, u)]) (mm_mem h) ?m"
    using assms(2,4) e(5) by (intro section_only_store) auto
  have "layout ?m (a + extent xs) ?p [(s, w)]"
    and "load ?m (W (a + extent xs + extent [(s, u)] + 4)) = pre (last (0 # map fst [(s, w)])) v"
    using e assms(2,4) by (simp_all add: load_store_other)
  from heap_section [OF _ _ assms(3) _ _ _ sec this] assms(1,2,4)
  show "heap_ok a nl (xs @ (s, w) # (t, v) # ys) (off_list A s w) fl h'"
    and "user_byte a nl (xs @ (s, u) # (t, v) # ys) x \<Longrightarrow> \<not> (A \<le> unat x \<and> unat x < A + s) \<Longrightarrow> mm_mem h' x = mm_mem h x"
    by (simp_all add: off_list_def h'_def)
qed

lemma heap_mark:
  assumes "heap_ok a nl (xs @ (s, False) # (t, v) # ys) {(A, s)} fl h" and "A = a + extent xs" and "xs \<noteq> []" and "16 \<le> s"
  defines "h' \<equiv> set_preceding (W A) (node_preceding h (W A) OR MM_ALLOC_BIT) h"
  shows "heap_ok a nl (xs @ (s, True) # (t, v) # ys) {} fl h'"
    and "user_byte a nl (xs @ (s, False) # (t, v) # ys) x \<Longrightarrow> mm_mem h' x = mm_mem h x"
proof -
  have h': "h' = h\<lparr>mm_mem := store (W (A + 4)) (pre (last (0 # map fst xs)) True) (mm_mem h)\<rparr>"
    using heap_header(2) [OF assms(1), folded assms(2)]
    by (simp add: h'_def set_preceding_def node_preceding_def)
  note flag = heap_flag [of a nl xs s False, OF _ assms(2-4), where w = True]
  from flag(1) assms(1) show "heap_ok a nl (xs @ (s, True) # (t, v) # ys) {} fl h'"
    by (simp add: h' off_list_def)
  show "mm_mem h' x = mm_mem h x" if "user_byte a nl (xs @ (s, False) # (t, v) # ys) x"
    using flag(2) that user_byte_not_free [OF heap_okD(1) [OF assms(1)] _ that, of A s] assms(1,2)
    by (simp add: h' blocks_append off_list_def)
qed

text \<open>Splitting a chunk that is off the list: the header writes of \<open>mm_malloc\<close> before the remainder is listed.\<close>

lemma heap_split:
  assumes "heap_ok a nl (xs @ (s, False) # (t, v) # ys) {(A, s)} fl h" and "A = a + extent xs" and "xs \<noteq> []"
    and "16 \<le> r" and "r + 16 \<le> s"
  defines "h1 \<equiv> set_size (W A) (W r) (set_preceding (W (A + r)) (W r) (set_size (W (A + r)) (W (s - r)) h))"
  defines "h' \<equiv> set_preceding (W (A + s)) (W (s - r) OR (node_preceding h1 (W (A + s)) AND MM_ALLOC_BIT)) h1"
  shows "heap_ok a nl (xs @ (r, False) # (s - r, False) # (t, v) # ys) {(A, r), (A + r, s - r)} fl h'"
    and "user_byte a nl (xs @ (s, False) # (t, v) # ys) x \<Longrightarrow> mm_mem h' x = mm_mem h x"
proof -
  note e = heap_header [OF assms(1), folded assms(2)]
  let ?p = "last (0 # map fst xs)"
  let ?m1 = "store (W A) (W r) (store (W (A + r + 4)) (W r) (store (W (A + r)) (W (s - r)) (mm_mem h)))"
  let ?m = "store (W (A + s + 4)) (pre (s - r) v) ?m1"
  have h1: "h1 = h\<lparr>mm_mem := ?m1\<rparr>"
    by (simp add: h1_def node_defs)
  have "node_preceding h1 (W (A + s)) = pre s v"
    using e assms(4,5) by (simp add: h1 node_defs load_store_other)
  then have h': "h' = h\<lparr>mm_mem := ?m\<rparr>"
    using e(6) by (simp add: h'_def h1 node_defs pre_simps or_flag)
  have sec: "section_only (a + extent xs) (a + extent xs + extent [(s, False)]) (mm_mem h) ?m"
    using assms(2,4,5) e(5) by (intro section_only_store) auto
  have "layout ?m (a + extent xs) ?p [(r, False), (s - r, False)]"
    and "load ?m (W (a + extent xs + extent [(s, False)] + 4)) = pre (last (0 # map fst [(r, False), (s - r, False)])) v"
    using e assms(2,4,5) by (simp_all add: load_store_other pre_def)
  from heap_section [OF _ _ assms(3) _ _ _ sec this] assms(1,2,4,5)
  have ok: "heap_ok a nl (xs @ (r, False) # (s - r, False) # (t, v) # ys) {(A, r), (A + r, s - r)} fl (h\<lparr>mm_mem := ?m\<rparr>)"
    and same: "user_byte a nl (xs @ (s, False) # (t, v) # ys) x \<Longrightarrow>
      \<not> (A \<le> unat x \<and> unat x < A + s) \<Longrightarrow> ?m x = mm_mem h x" for x
    by (simp_all add: insert_commute)
  show "heap_ok a nl (xs @ (r, False) # (s - r, False) # (t, v) # ys) {(A, r), (A + r, s - r)} fl h'"
    using ok h' by simp
  show "mm_mem h' x = mm_mem h x" if "user_byte a nl (xs @ (s, False) # (t, v) # ys) x"
    using same [OF that] user_byte_not_free [OF heap_okD(1) [OF assms(1)] _ that, of A s] h' assms(2)
    by (simp add: blocks_append)
qed

text \<open>User bytes depend on the chunks in use only.\<close>

lemma user_byte_split:
  "r \<le> s \<Longrightarrow> user_byte a nl (xs @ (r, False) # (s - r, False) # ys) x \<longleftrightarrow> user_byte a nl (xs @ (s, False) # ys) x"
  by (simp add: user_byte_def blocks_append add.assoc)

lemma malloc_from_ok:
  assumes "heap_ok a nl (xs @ (s, False) # ys) {} fl h" and "A = a + extent xs" and "16 \<le> r" and "r \<le> s"
  obtains m' fl' where "malloc_from (W A) (W r) h = return_run (W (A + 8), h\<lparr>mm_mem := m'\<rparr>)"
    and "heap_ok a nl (xs @ carve r s @ ys) {} fl' (h\<lparr>mm_mem := m'\<rparr>)"
    and "\<And>x. user_byte a nl (xs @ (s, False) # ys) x \<Longrightarrow> m' x = mm_mem h x"
proof -
  note k = heap_okD [OF assms(1)]
  have xs: "xs \<noteq> []" and s: "16 \<le> s"
    using guarded_mid [OF k(1)] by simp_all
  obtain t v ys' where ys: "ys = (t, v) # ys'"
    using guarded_mid(2) [OF k(1)] by (cases ys) auto
  note ok = assms(1) [unfolded ys]
  note e = heap_header [OF ok, folded assms(2)]
  obtain m1 where m1: "mm_unlink (W A) h = return_run (h\<lparr>mm_mem := m1\<rparr>)"
      "heap_ok a nl (xs @ (s, False) # (t, v) # ys') {(A, s)} (drop_entry A fl) (h\<lparr>mm_mem := m1\<rparr>)"
      "\<And>x. user_byte a nl (xs @ (s, False) # (t, v) # ys') x \<Longrightarrow> m1 x = mm_mem h x"
    by (rule heap_unlink [OF ok, of A s]) (simp_all add: free_chunks_append assms(2))
  note e1 = heap_header [OF m1(2), folded assms(2)]
  have rem: "W s - W r = W (s - r)" using assms(4) by (simp add: W_diff)
  show thesis
  proof (cases "r + 16 \<le> s")
    case True
    note sp = heap_split [OF m1(2) assms(2) xs assms(3) True]
    let ?h1 = "set_size (W A) (W r) (set_preceding (W (A + r)) (W r) (set_size (W (A + r)) (W (s - r)) (h\<lparr>mm_mem := m1\<rparr>)))"
    let ?h2 = "set_preceding (W (A + s)) (W (s - r) OR (node_preceding ?h1 (W (A + s)) AND MM_ALLOC_BIT)) ?h1"
    obtain m3 where m3: "mm_addfreechunk (W (A + r)) ?h2 = return_run (?h2\<lparr>mm_mem := m3\<rparr>)"
        "heap_ok a nl (xs @ (r, False) # (s - r, False) # (t, v) # ys') {(A, r)} (add_entry (A + r, s - r) (drop_entry A fl)) (?h2\<lparr>mm_mem := m3\<rparr>)"
        "\<And>x. user_byte a nl (xs @ (r, False) # (s - r, False) # (t, v) # ys') x \<Longrightarrow> m3 x = mm_mem ?h2 x"
      by (rule heap_add [OF sp(1), of "A + r" "s - r"]) (use assms(2,3) in \<open>simp_all add: free_chunks_append insert_Diff_if\<close>)
    note mk = heap_mark [OF m3(2) assms(2) xs assms(3)]
    let ?h4 = "set_preceding (W A) (node_preceding (?h2\<lparr>mm_mem := m3\<rparr>) (W A) OR MM_ALLOC_BIT) (?h2\<lparr>mm_mem := m3\<rparr>)"
    have "malloc_from (W A) (W r) h = return_run (W (A + 8), ?h4)"
      using m1(1) e1(1) e(6) rem m3(1) True assms(4)
      by (simp add: malloc_from_def Let_def mm_consts node_size_def le_W)
    moreover have "?h4 = h\<lparr>mm_mem := mm_mem ?h4\<rparr>"
      by (simp add: node_defs)
    moreover have "mm_mem ?h4 x = mm_mem h x" if "user_byte a nl (xs @ (s, False) # ys) x" for x
      using that mk(2) [of x] m3(3) [of x] sp(2) [of x] m1(3) [of x] user_byte_split [OF assms(4)] by (simp add: ys)
    ultimately show ?thesis
      using that [of "mm_mem ?h4"] mk(1) True by (simp add: carve_def ys)
  next
    case False
    note mk = heap_mark [OF m1(2) assms(2) xs s]
    let ?h4 = "set_preceding (W A) (node_preceding (h\<lparr>mm_mem := m1\<rparr>) (W A) OR MM_ALLOC_BIT) (h\<lparr>mm_mem := m1\<rparr>)"
    have "\<not> 16 \<le> W (s - r)"
      using False e(6) by (simp add: le_W)
    then have "malloc_from (W A) (W r) h = return_run (W (A + 8), ?h4)"
      using m1(1) e1(1) rem by (simp add: malloc_from_def Let_def mm_consts node_size_def)
    moreover have "?h4 = h\<lparr>mm_mem := mm_mem ?h4\<rparr>"
      by (simp add: node_defs)
    moreover have "mm_mem ?h4 x = mm_mem h x" if "user_byte a nl (xs @ (s, False) # ys) x" for x
      using that mk(2) [of x] m1(3) [of x] by (simp add: ys)
    ultimately show ?thesis
      using that [of "mm_mem ?h4"] mk(1) False by (simp add: carve_def ys)
  qed
qed

section \<open>Sizes of requests\<close>

lemma and_not_mask: "(x :: 'a::len word) AND NOT (mask n) = push_bit n (drop_bit n x)"
  by (rule bit_word_eqI) (auto simp: bit_simps)

lemma and_not_15: "(x :: u32) AND - 16 = W (unat x div 16 * 16)"
proof -
  have "x AND - 16 = push_bit 4 (drop_bit 4 x)"
    using and_not_mask [of x 4] by (simp add: mask_eq_exp_minus_1)
  also have "\<dots> = W (unat (x div 16) * 16)"
    by (simp add: W_def push_bit_eq_mult drop_bit_eq_div)
  also have "\<dots> = W (unat x div 16 * 16)"
    by (simp add: unat_div)
  finally show ?thesis .
qed

lemma MM_ALIGN_UP_W: "n + 15 < 4294967296 \<Longrightarrow> MM_ALIGN_UP (W n) = W ((n + 15) div 16 * 16)"
  by (simp add: MM_ALIGN_UP_def mm_consts and_not_15)

lemma MM_ALIGN_DOWN_W: "n < 4294967296 \<Longrightarrow> MM_ALIGN_DOWN (W n) = W (n div 16 * 16)"
  by (simp add: MM_ALIGN_DOWN_def mm_consts and_not_15)

text \<open>The chunk size for a request of \<open>n\<close> bytes: header included, a multiple of 16.\<close>

definition chunk_for :: "nat \<Rightarrow> nat" where
  "chunk_for n = (n + 23) div 16 * 16"

lemma chunk_for_bounds: "16 \<le> chunk_for n" "n + 8 \<le> chunk_for n" "chunk_for n < n + 24" "16 dvd chunk_for n"
  by (auto simp: chunk_for_def)

section \<open>The semaphore\<close>

text \<open>The task \<open>pid\<close> may take the semaphore: it is free, or the task holds it already.\<close>

definition sem_ok :: "int \<Rightarrow> mm_heap \<Rightarrow> bool" where
  "sem_ok pid h \<longleftrightarrow> pid \<noteq> -1 \<and>
     (mm_holder h = -1 \<and> mm_counts_held h = 0 \<and> mm_semaphore h > 0 \<or> mm_holder h = pid \<and> mm_counts_held h \<ge> 1)"

lemma sem_balanced:
  assumes "sem_ok pid h"
  obtains h1 where "mm_takesemaphore pid h = return_run h1"
    and "mm_mem h1 = mm_mem h" and "mm_nodelist h1 = mm_nodelist h"
    and "\<And>a nl cs D fl. heap_ok a nl cs D fl h1 = heap_ok a nl cs D fl h"
    and "\<And>a nl cs D fl m. heap_ok a nl cs D fl (h1\<lparr>mm_mem := m\<rparr>) = heap_ok a nl cs D fl (h\<lparr>mm_mem := m\<rparr>)"
    and "\<And>m. mm_givesemaphore pid (h1\<lparr>mm_mem := m\<rparr>) = return_run (h\<lparr>mm_mem := m\<rparr>)"
    and "mm_givesemaphore pid h1 = return_run h"
proof (cases "mm_holder h = pid")
  case True
  with assms show thesis
    by (intro that [of "h\<lparr>mm_counts_held := mm_counts_held h + 1\<rparr>"])
      (auto simp: sem_ok_def mm_takesemaphore_def mm_givesemaphore_def heap_ok_def)
next
  case False
  with assms show thesis
    by (intro that [of "h\<lparr>mm_semaphore := mm_semaphore h - 1, mm_holder := pid, mm_counts_held := 1\<rparr>"])
      (auto simp: sem_ok_def mm_takesemaphore_def mm_givesemaphore_def heap_ok_def)
qed

lemma sem_ok_mem [simp]: "sem_ok pid (h\<lparr>mm_mem := m\<rparr>) = sem_ok pid h"
  by (simp add: sem_ok_def)

section \<open>The whole call\<close>

definition best_fit :: "nat \<Rightarrow> chunk list \<Rightarrow> chunk list \<Rightarrow> nat \<Rightarrow> chunk list \<Rightarrow> bool" where
  "best_fit r cs xs s ys \<longleftrightarrow>
     cs = xs @ (s, False) # ys \<and> r \<le> s \<and> (\<forall>t. (t, False) \<in> set cs \<longrightarrow> r \<le> t \<longrightarrow> s \<le> t)"

lemma free_chunk_of: "(s, False) \<in> set cs \<Longrightarrow> \<exists>A. (A, s) \<in> free_chunks a cs"
proof (induction cs arbitrary: a)
  case (Cons c cs)
  then show ?case
    by (cases c) fastforce
qed simp

lemma malloc_ndx: "16 \<le> r \<Longrightarrow> r < 4294967296 \<Longrightarrow> (if MM_MAX_CHUNK \<le> W r then MM_NNODES - 1 else mm_size2ndx (W r)) = ndx r"
  by (simp add: ndx_def mm_size2ndx_def)

lemma mm_malloc_cases:
  assumes "heap_ok a nl cs {} fl h" and "sem_ok pid h" and "0 < n" and "n + 23 < 4294967296"
  obtains
    (none) "\<forall>t. (t, False) \<in> set cs \<longrightarrow> t < chunk_for n" and "mm_malloc pid (W n) h = return_run (0, h)"
  | (fit) xs s ys m' fl' where "best_fit (chunk_for n) cs xs s ys"
      and "mm_malloc pid (W n) h = return_run (W (a + extent xs + 8), h\<lparr>mm_mem := m'\<rparr>)"
      and "heap_ok a nl (xs @ carve (chunk_for n) s @ ys) {} fl' (h\<lparr>mm_mem := m'\<rparr>)"
      and "\<And>x. user_byte a nl cs x \<Longrightarrow> m' x = mm_mem h x"
proof -
  let ?r = "chunk_for n"
  have r: "16 \<le> ?r" "?r < 4294967296" and size: "MM_ALIGN_UP (W n + SIZEOF_MM_ALLOCNODE) = W ?r" and "\<not> W n < 1"
    using assms(3,4) by (auto simp: SIZEOF_MM_ALLOCNODE_def MM_ALIGN_UP_W chunk_for_def word_less_nat_alt add.commute)
  obtain h1 where h1: "mm_takesemaphore pid h = return_run h1" "mm_mem h1 = mm_mem h"
      "\<And>a nl cs D fl. heap_ok a nl cs D fl h1 = heap_ok a nl cs D fl h"
      "\<And>m. mm_givesemaphore pid (h1\<lparr>mm_mem := m\<rparr>) = return_run (h\<lparr>mm_mem := m\<rparr>)"
      "mm_givesemaphore pid h1 = return_run h"
      "\<And>a nl cs D fl m. heap_ok a nl cs D fl (h1\<lparr>mm_mem := m\<rparr>) = heap_ok a nl cs D fl (h\<lparr>mm_mem := m\<rparr>)"
    using sem_balanced [OF assms(2)] by metis
  have ok1: "heap_ok a nl cs {} fl h1" using assms(1) h1(3) by simp
  note k = heap_okD [OF ok1]
  note search = flist_search [OF k(5,3) r]
  note start = mm_malloc_def [of pid "W n" h, unfolded size Let_def malloc_ndx [OF r]]
  show thesis
  proof (cases "find (\<lambda>d. ?r \<le> snd d) (concat fl)")
    case None
    then have "mm_malloc pid (W n) h = return_run (0, h)"
      using start search h1(1,5) \<open>\<not> W n < 1\<close> by simp
    moreover have "t < ?r" if "(t, False) \<in> set cs" for t
      using free_chunk_of [OF that, of a] None k(6) unfolding find_None_iff by fastforce
    ultimately show ?thesis using none by blast
  next
    case (Some d)
    obtain A s where d: "d = (A, s)" by (cases d)
    with find_SomeD [OF Some] have mem: "(A, s) \<in> set (concat fl)" "?r \<le> s"
      by simp_all
    then have blk: "(A, s, False) \<in> set (blocks a cs)"
      using k(6) unfolding free_chunks_def by blast
    obtain xs ys where split: "cs = xs @ (s, False) # ys" "A = a + extent xs"
      by (rule blocks_split [OF blk])
    have least: "s \<le> t" if "(t, False) \<in> set cs" "?r \<le> t" for t
      using free_chunk_of [OF that(1), of a] that(2) k(6) find_sorted_least [OF sorted_entries [OF k(5)] Some] d
      by fastforce
    obtain m' fl' where m': "malloc_from (W A) (W ?r) h1 = return_run (W (A + 8), h1\<lparr>mm_mem := m'\<rparr>)"
        "heap_ok a nl (xs @ carve ?r s @ ys) {} fl' (h1\<lparr>mm_mem := m'\<rparr>)"
        "\<And>x. user_byte a nl (xs @ (s, False) # ys) x \<Longrightarrow> m' x = mm_mem h1 x"
      using malloc_from_ok [OF ok1 [unfolded split(1)] split(2) r(1) mem(2)] by metis
    have "W A \<noteq> 0"
      using flist_entry(4,5) [OF k(5) mem(1)] by (simp add: W_eq_0_iff)
    then have "mm_malloc pid (W n) h = return_run (W (a + extent xs + 8), h\<lparr>mm_mem := m'\<rparr>)"
      using start search h1(1) h1(4) m'(1) Some d split(2) \<open>\<not> W n < 1\<close> by simp
    moreover have "heap_ok a nl (xs @ carve ?r s @ ys) {} fl' (h\<lparr>mm_mem := m'\<rparr>)"
      using m'(2) h1(6) by simp
    moreover have "best_fit ?r cs xs s ys"
      using split(1) mem(2) least by (auto simp: best_fit_def)
    ultimately show ?thesis
      using fit m'(3) split(1) h1(2) by simp
  qed
qed

end
