(* ===== verification/Mm_Free.thy ===== *)
theory Mm_Free
  imports Mm_Malloc
begin

text \<open>
  \<open>mm_free\<close> on a well-formed heap: the chunk is merged with the free chunk after it and with the free
  chunk before it, and the result is put on the free list.
\<close>

section \<open>Marking the chunk free\<close>

lemma heap_release:
  assumes "heap_ok a nl (xs @ (s, True) # (t, v) # ys) {} fl h" and "A = a + extent xs" and "xs \<noteq> []" and "16 \<le> s"
  defines "h' \<equiv> set_preceding (W A) (node_preceding h (W A) AND NOT MM_ALLOC_BIT) h"
  shows "heap_ok a nl (xs @ (s, False) # (t, v) # ys) {(A, s)} fl h'"
    and "user_byte a nl (xs @ (s, False) # (t, v) # ys) x \<Longrightarrow> mm_mem h' x = mm_mem h x"
proof -
  note e = heap_header [OF assms(1), folded assms(2)]
  have h': "h' = h\<lparr>mm_mem := store (W (A + 4)) (pre (last (0 # map fst xs)) False) (mm_mem h)\<rparr>"
    using e(2) pre_simps(2) [OF e(11), of True] pre_def [of _ False]
    by (simp add: h'_def set_preceding_def node_preceding_def)
  note flag = heap_flag [of a nl xs s True, OF _ assms(2-4), where w = False]
  from flag(1) assms(1) show ok: "heap_ok a nl (xs @ (s, False) # (t, v) # ys) {(A, s)} fl h'"
    by (simp add: h' off_list_def)
  show "mm_mem h' x = mm_mem h x" if x: "user_byte a nl (xs @ (s, False) # (t, v) # ys) x"
  proof -
    have "user_byte a nl (xs @ (s, True) # (t, v) # ys) x"
      using x by (auto simp: user_byte_def blocks_append)
    with flag(2) user_byte_not_free [OF heap_okD(1) [OF ok] _ x, of A s] assms(1,2) show ?thesis
      by (simp add: h' blocks_append off_list_def)
  qed
qed

section \<open>Merging two free chunks\<close>

text \<open>The header writes of both merges: \<open>A\<close> absorbs the chunk at \<open>A + s\<close>.\<close>

definition merged :: "u32 \<Rightarrow> u32 \<Rightarrow> u32 \<Rightarrow> mm_heap \<Rightarrow> mm_heap" where
  "merged node next beyond h =
     (let h = set_size node (node_size h node + node_size h next) h
      in set_preceding beyond (node_size h node OR (node_preceding h beyond AND MM_ALLOC_BIT)) h)"

lemma heap_merge:
  assumes "heap_ok a nl (xs @ (s, False) # (t, False) # (w, v) # ys) {(A, s), (A + s, t)} fl h"
    and "A = a + extent xs" and "xs \<noteq> []" and "16 \<le> s" and "16 \<le> t"
  defines "h' \<equiv> merged (W A) (W (A + s)) (W (A + s + t)) h"
  shows "heap_ok a nl (xs @ (s + t, False) # (w, v) # ys) {(A, s + t)} fl h'"
    and "user_byte a nl (xs @ (s, False) # (t, False) # (w, v) # ys) x \<Longrightarrow> mm_mem h' x = mm_mem h x"
proof -
  note e = heap_header [OF assms(1), folded assms(2)]
  note k = heap_okD [OF assms(1)]
  have e2: "load (mm_mem h) (W (A + s + t + 4)) = pre t v" and bnd: "A + s + t + 8 < 4294967296"
    using k(2,4) guarded_ge_8 [OF k(1)] assms(2) by (auto simp: layout_append placed_def)
  let ?m1 = "store (W A) (W (s + t)) (mm_mem h)"
  let ?m = "store (W (A + s + t + 4)) (pre (s + t) v) ?m1"
  have h': "h' = h\<lparr>mm_mem := ?m\<rparr>"
    using e e2 bnd assms(4,5) by (simp add: h'_def merged_def node_defs Let_def load_store_other pre_simps or_flag)
  have sec: "section_only (a + extent xs) (a + extent xs + extent [(s, False), (t, False)]) (mm_mem h) ?m"
    using assms(2,4,5) bnd by (intro section_only_store) auto
  have "layout ?m (a + extent xs) (last (0 # map fst xs)) [(s + t, False)]"
    and "load ?m (W (a + extent xs + extent [(s, False), (t, False)] + 4)) = pre (last (0 # map fst [(s + t, False)])) v"
    using e assms(2,4,5) bnd by (simp_all add: load_store_other add.assoc)
  from heap_section [OF _ _ assms(3) _ _ _ sec this] assms(1,2,4,5)
  have ok: "heap_ok a nl (xs @ (s + t, False) # (w, v) # ys) {(A, s + t)} fl (h\<lparr>mm_mem := ?m\<rparr>)"
    and same: "user_byte a nl (xs @ (s, False) # (t, False) # (w, v) # ys) x \<Longrightarrow>
      \<not> (A \<le> unat x \<and> unat x < A + s + t) \<Longrightarrow> ?m x = mm_mem h x" for x
    by (simp_all add: insert_commute add.assoc)
  show "heap_ok a nl (xs @ (s + t, False) # (w, v) # ys) {(A, s + t)} fl h'"
    using ok h' by simp
  show "mm_mem h' x = mm_mem h x" if "user_byte a nl (xs @ (s, False) # (t, False) # (w, v) # ys) x"
    using same [OF that] user_byte_not_free [OF k(1) _ that, of A s] user_byte_not_free [OF k(1) _ that, of "A + s" t]
      h' assms(2) by (auto simp: blocks_append)
qed

fun absorb_next :: "nat \<Rightarrow> chunk list \<Rightarrow> nat \<times> chunk list" where
  "absorb_next s ((t, False) # ys) = (s + t, ys)"
| "absorb_next s ys = (s, ys)"

lemma user_byte_merge:
  "user_byte a nl (xs @ (s, False) # (t, False) # ys) x \<longleftrightarrow> user_byte a nl (xs @ (s + t, False) # ys) x"
  using user_byte_split [of s "s + t"] by simp

lemma free_merge_next_ok:
  assumes "heap_ok a nl (xs @ (s, False) # ys) {(A, s)} fl h" and "A = a + extent xs" and "absorb_next s ys = (s', ys')"
  obtains m' fl' where "free_merge_next (W A) h = return_run (W (A + s'), h\<lparr>mm_mem := m'\<rparr>)"
    and "heap_ok a nl (xs @ (s', False) # ys') {(A, s')} fl' (h\<lparr>mm_mem := m'\<rparr>)"
    and "\<And>x. user_byte a nl (xs @ (s, False) # ys) x \<Longrightarrow> m' x = mm_mem h x"
proof -
  note k = heap_okD [OF assms(1)]
  have xs: "xs \<noteq> []" and s: "16 \<le> s" using guarded_mid [OF k(1)] by simp_all
  obtain t v zs where ys: "ys = (t, v) # zs"
    using guarded_mid(2) [OF k(1)] by (cases ys) auto
  note e = heap_header [OF assms(1) [unfolded ys], folded assms(2)]
  show thesis
  proof (cases v)
    case True
    with assms(1,3) e pre_simps(1) [of s True] show ?thesis
      by (intro that [of "mm_mem h" fl]) (auto simp: ys free_merge_next_def node_defs)
  next
    case False
    then have grd: "guarded ((xs @ [(s, False)]) @ (t, False) # zs)" using k(1) by (simp add: ys)
    have t: "16 \<le> t" using guarded_mid [OF grd] by simp
    obtain w v' zs' where zs: "zs = (w, v') # zs'"
      using guarded_mid(2) [OF grd] by (cases zs) auto
    let ?cs = "xs @ (s, False) # (t, False) # (w, v') # zs'"
    have ok: "heap_ok a nl ?cs {(A, s)} fl h" using assms(1) False by (simp add: ys zs)
    obtain m1 where m1: "mm_unlink (W (A + s)) h = return_run (h\<lparr>mm_mem := m1\<rparr>)"
        "heap_ok a nl ?cs {(A, s), (A + s, t)} (drop_entry (A + s) fl) (h\<lparr>mm_mem := m1\<rparr>)"
        "\<And>x. user_byte a nl ?cs x \<Longrightarrow> m1 x = mm_mem h x"
      by (rule heap_unlink [OF ok, of "A + s" t]) (use s in \<open>simp_all add: free_chunks_append assms(2) insert_commute\<close>)
    note mg = heap_merge [OF m1(2) assms(2) xs s t]
    let ?h2 = "merged (W A) (W (A + s)) (W (A + s + t)) (h\<lparr>mm_mem := m1\<rparr>)"
    have "free_merge_next (W A) h = return_run (W (A + s + t), ?h2)"
      using e(1,3,4,6) m1(1) False pre_simps(1) [of s False]
      by (simp add: free_merge_next_def node_size_def node_preceding_def merged_def Let_def)
    moreover have "?h2 = h\<lparr>mm_mem := mm_mem ?h2\<rparr>"
      by (simp add: merged_def node_defs Let_def)
    moreover have "s' = s + t" "ys' = (w, v') # zs'"
      using assms(3) False by (simp_all add: ys zs)
    ultimately show ?thesis
      using that [of "mm_mem ?h2"] mg m1(3) False by (simp add: ys zs add.assoc)
  qed
qed

lemma free_merge_prev_ok:
  assumes "heap_ok a nl (xs @ (q, w) # (s, False) # (t, v) # ys) {(A, s)} fl h" and "A = a + extent xs + q"
  defines "p \<equiv> if w then 0 else q"
  obtains m' fl' where "free_merge_prev (W A) (W (A + s)) h = return_run (W (A - p), h\<lparr>mm_mem := m'\<rparr>)"
    and "heap_ok a nl (xs @ (if w then [(q, w)] else []) @ (p + s, False) # (t, v) # ys) {(A - p, p + s)} fl' (h\<lparr>mm_mem := m'\<rparr>)"
    and "\<And>x. user_byte a nl (xs @ (q, w) # (s, False) # (t, v) # ys) x \<Longrightarrow> m' x = mm_mem h x"
proof -
  note k = heap_okD [OF assms(1)]
  let ?P = "a + extent xs"
  have grd: "guarded ((xs @ [(q, w)]) @ (s, False) # (t, v) # ys)" using k(1) by simp
  have s: "16 \<le> s" using guarded_mid [OF grd] by simp
  note e = heap_header [OF assms(1)] and e2 = heap_header [of a nl "xs @ [(q, w)]" s False t v ys "{(A, s)}" fl h]
  have pre: "load (mm_mem h) (W (A + 4)) = pre q False" "load (mm_mem h) (W A) = W s"
    using e2(1,2) assms(1,2) by (simp_all add: add.assoc)
  have prev: "W A - W q = W ?P" using assms(2) by (simp add: W_diff)
  have flag: "node_preceding h (W ?P) AND MM_ALLOC_BIT = (if w then MM_ALLOC_BIT else 0)"
    using e(2) pre_simps(1) [OF e(11)] by (simp add: node_preceding_def)
  have start: "W A - node_preceding h (W A) = W ?P"
    using pre(1) prev by (simp add: node_preceding_def pre_def)
  show thesis
  proof (cases w)
    case True
    with assms(1) flag start show ?thesis
      by (intro that [of "mm_mem h" fl]) (auto simp: p_def free_merge_prev_def Let_def)
  next
    case False
    then have q: "16 \<le> q" and xs: "xs \<noteq> []" using guarded_mid [OF k(1)] by auto
    let ?cs = "xs @ (q, False) # (s, False) # (t, v) # ys"
    have ok: "heap_ok a nl ?cs {(A, s)} fl h" using assms(1) False by simp
    obtain m1 where m1: "mm_unlink (W ?P) h = return_run (h\<lparr>mm_mem := m1\<rparr>)"
        "heap_ok a nl ?cs {(?P, q), (A, s)} (drop_entry ?P fl) (h\<lparr>mm_mem := m1\<rparr>)"
        "\<And>x. user_byte a nl ?cs x \<Longrightarrow> m1 x = mm_mem h x"
      by (rule heap_unlink [OF ok, of ?P q]) (use q in \<open>simp_all add: free_chunks_append assms(2)\<close>)
    note mg = heap_merge [OF m1(2) [unfolded assms(2)] refl xs q s, folded assms(2)]
    let ?h2 = "merged (W ?P) (W A) (W (A + s)) (h\<lparr>mm_mem := m1\<rparr>)"
    have "free_merge_prev (W A) (W (A + s)) h = return_run (W ?P, ?h2)"
      using flag start m1(1) False by (simp add: free_merge_prev_def merged_def Let_def)
    moreover have "?h2 = h\<lparr>mm_mem := mm_mem ?h2\<rparr>"
      by (simp add: merged_def node_defs Let_def)
    ultimately show ?thesis
      using that [of "mm_mem ?h2"] mg m1(3) False assms(2) by (simp add: p_def)
  qed
qed

section \<open>The whole call\<close>

definition coalesce :: "chunk list \<Rightarrow> nat \<Rightarrow> chunk list \<Rightarrow> chunk list" where
  "coalesce xs s ys =
     (let (s', ys') = absorb_next s ys in
      if snd (last xs) then xs @ (s', False) # ys' else butlast xs @ (fst (last xs) + s', False) # ys')"

lemma user_byte_absorb:
  "absorb_next s ys = (s', ys') \<Longrightarrow>
    user_byte a nl (xs @ (s', False) # ys') x = user_byte a nl (xs @ (s, False) # ys) x"
  by (cases "(s, ys)" rule: absorb_next.cases) (auto simp: user_byte_merge)

text \<open>The two merges and the insertion, from the moment the chunk is marked free.\<close>

lemma free_merges_ok:
  assumes "heap_ok a nl (xs @ (s, False) # ys) {(A, s)} fl h" and "A = a + extent xs"
  obtains m' fl' where
      "next_run (free_merge_next (W A) h) (\<lambda>(next, h). next_run (free_merge_prev (W A) next h)
         (\<lambda>(node, h). next_run (mm_addfreechunk node h) f)) = f (h\<lparr>mm_mem := m'\<rparr>)"
    and "heap_ok a nl (coalesce xs s ys) {} fl' (h\<lparr>mm_mem := m'\<rparr>)"
    and "\<And>x. user_byte a nl (xs @ (s, False) # ys) x \<Longrightarrow> m' x = mm_mem h x"
proof -
  obtain s' ys' where ab: "absorb_next s ys = (s', ys')" by (cases "absorb_next s ys")
  obtain qs q w where qs: "xs = qs @ [(q, w)]"
    using guarded_mid(1) [OF heap_okD(1) [OF assms(1)]] by (cases xs rule: rev_cases) auto
  obtain m1 fl1 where m1: "free_merge_next (W A) h = return_run (W (A + s'), h\<lparr>mm_mem := m1\<rparr>)"
      "heap_ok a nl (xs @ (s', False) # ys') {(A, s')} fl1 (h\<lparr>mm_mem := m1\<rparr>)"
      "\<And>x. user_byte a nl (xs @ (s, False) # ys) x \<Longrightarrow> m1 x = mm_mem h x"
    using free_merge_next_ok [OF assms ab] by metis
  obtain t v zs where ys': "ys' = (t, v) # zs"
    using guarded_mid(2) [OF heap_okD(1) [OF m1(2)]] by (cases ys') auto
  let ?p = "if w then 0 else q"
  let ?cs = "qs @ (if w then [(q, w)] else []) @ (?p + s', False) # ys'"
  have A: "A = a + extent qs + q" using assms(2) qs by simp
  obtain m2 fl2 where m2: "free_merge_prev (W A) (W (A + s')) (h\<lparr>mm_mem := m1\<rparr>) = return_run (W (A - ?p), h\<lparr>mm_mem := m2\<rparr>)"
      "heap_ok a nl ?cs {(A - ?p, ?p + s')} fl2 (h\<lparr>mm_mem := m2\<rparr>)"
      "\<And>x. user_byte a nl (xs @ (s', False) # ys') x \<Longrightarrow> m2 x = m1 x"
    using free_merge_prev_ok [of a nl qs q w s' t v zs A fl1 "h\<lparr>mm_mem := m1\<rparr>", OF _ A] m1(2) by (auto simp: qs ys')
  have fc: "(A - ?p, ?p + s') \<in> free_chunks a ?cs"
    using A by (auto simp: free_chunks_append)
  obtain m3 where m3: "mm_addfreechunk (W (A - ?p)) (h\<lparr>mm_mem := m2\<rparr>) = return_run (h\<lparr>mm_mem := m3\<rparr>)"
      "heap_ok a nl ?cs {} (add_entry (A - ?p, ?p + s') fl2) (h\<lparr>mm_mem := m3\<rparr>)"
      "\<And>x. user_byte a nl ?cs x \<Longrightarrow> m3 x = m2 x"
    using heap_add [OF m2(2) fc] by auto
  show thesis
  proof (rule that)
    show "next_run (free_merge_next (W A) h) (\<lambda>(next, h). next_run (free_merge_prev (W A) next h)
         (\<lambda>(node, h). next_run (mm_addfreechunk node h) f)) = f (h\<lparr>mm_mem := m3\<rparr>)"
      using m1(1) m2(1) m3(1) by simp
    show "heap_ok a nl (coalesce xs s ys) {} (add_entry (A - ?p, ?p + s') fl2) (h\<lparr>mm_mem := m3\<rparr>)"
      using m3(2) by (simp add: coalesce_def ab qs split: if_splits)
    show "m3 x = mm_mem h x" if x: "user_byte a nl (xs @ (s, False) # ys) x" for x
    proof -
      have "user_byte a nl (xs @ (s', False) # ys') x" using x user_byte_absorb [OF ab] by simp
      moreover from this have "user_byte a nl ?cs x"
        using user_byte_merge [of a nl qs q s' ys' x] by (cases w) (simp_all add: qs)
      ultimately show ?thesis
        using m3(3) m2(3) m1(3) [OF x] by simp
    qed
  qed
qed

lemma mm_free_ok:
  assumes "heap_ok a nl (xs @ (s, True) # ys) {} fl h" and "sem_ok pid h" and "16 \<le> s" and "A = a + extent xs"
  obtains m' fl' where "mm_free pid (W (A + 8)) h = return_run (h\<lparr>mm_mem := m'\<rparr>)"
    and "heap_ok a nl (coalesce xs s ys) {} fl' (h\<lparr>mm_mem := m'\<rparr>)"
    and "\<And>x. user_byte a nl (xs @ (s, False) # ys) x \<Longrightarrow> m' x = mm_mem h x"
proof -
  have xs: "xs \<noteq> []" and "ys \<noteq> []"
    using guarded_mid [OF heap_okD(1) [OF assms(1)]] assms(3) by auto
  then obtain t v zs where ys: "ys = (t, v) # zs" by (cases ys) auto
  note e = heap_header [OF assms(1) [unfolded ys], folded assms(4)]
  obtain h1 where h1: "mm_takesemaphore pid h = return_run h1" "mm_mem h1 = mm_mem h"
      "\<And>a nl cs D fl. heap_ok a nl cs D fl h1 = heap_ok a nl cs D fl h"
      "\<And>m. mm_givesemaphore pid (h1\<lparr>mm_mem := m\<rparr>) = return_run (h\<lparr>mm_mem := m\<rparr>)"
      "\<And>a nl cs D fl m. heap_ok a nl cs D fl (h1\<lparr>mm_mem := m\<rparr>) = heap_ok a nl cs D fl (h\<lparr>mm_mem := m\<rparr>)"
    using sem_balanced [OF assms(2)] by metis
  have ok1: "heap_ok a nl (xs @ (s, True) # (t, v) # zs) {} fl h1" using assms(1) h1(3) by (simp add: ys)
  let ?h2 = "set_preceding (W A) (node_preceding h1 (W A) AND NOT MM_ALLOC_BIT) h1"
  note rel = heap_release [OF ok1 assms(4) xs assms(3), folded ys]
  obtain m' fl' where m':
      "next_run (free_merge_next (W A) ?h2) (\<lambda>(next, h). next_run (free_merge_prev (W A) next h)
         (\<lambda>(node, h). next_run (mm_addfreechunk node h) (mm_givesemaphore pid))) = mm_givesemaphore pid (?h2\<lparr>mm_mem := m'\<rparr>)"
      "heap_ok a nl (coalesce xs s ys) {} fl' (?h2\<lparr>mm_mem := m'\<rparr>)"
      "\<And>x. user_byte a nl (xs @ (s, False) # ys) x \<Longrightarrow> m' x = mm_mem ?h2 x"
    using free_merges_ok [OF rel(1) assms(4)] by metis
  have h2: "?h2\<lparr>mm_mem := m'\<rparr> = h1\<lparr>mm_mem := m'\<rparr>"
    by (simp add: set_preceding_def)
  have mem: "W (A + 8) - SIZEOF_MM_ALLOCNODE = W A" "W (A + 8) \<noteq> 0"
    using e(5,8) assms(3) W_diff [of 8 "A + 8"] by (simp_all add: SIZEOF_MM_ALLOCNODE_def W_eq_0_iff flip: W_numeral)
  have "mm_free pid (W (A + 8)) h = return_run (h\<lparr>mm_mem := m'\<rparr>)"
    using mem h1(1,4) m'(1) h2 by (simp add: mm_free_def Let_def)
  moreover have "heap_ok a nl (coalesce xs s ys) {} fl' (h\<lparr>mm_mem := m'\<rparr>)"
    using m'(2) h2 h1(5) by simp
  moreover have "m' x = mm_mem h x" if "user_byte a nl (xs @ (s, False) # ys) x" for x
    using m'(3) [OF that] rel(2) [OF that] h1(2) by simp
  ultimately show thesis by (rule that)
qed

end
