(* ===== verification/Mm_Init.thy ===== *)
theory Mm_Init
  imports Mm_Free
begin

text \<open>
  \<open>mm_initialize\<close> turns any memory into a well-formed heap: two guard nodes and one free chunk between
  them, which is the only entry of the free list.
\<close>

section \<open>The array of list heads\<close>

lemma load_zero:
  assumes "\<And>x. A \<le> unat x \<Longrightarrow> unat x < A + 4 \<Longrightarrow> m x = 0" and "A + 4 \<le> 4294967296"
  shows "load m (W A) = 0"
proof -
  have "load m (W A) = load (\<lambda>_. 0) (W A)"
    using assms by (intro load_cong) auto
  also have "\<dots> = 0" by (simp add: load_def)
  finally show ?thesis .
qed

definition heads :: "nat \<Rightarrow> nat \<Rightarrow> nat list" where
  "heads nl k = map (\<lambda>i. nl + 16 * i) [0..<k]"

lemma heads_Suc: "heads nl (Suc k) = heads nl k @ [nl + 16 * k]"
  by (simp add: heads_def)

lemma apart_heads: "0 < nl \<Longrightarrow> nl + 16 * k \<le> 4294967296 \<Longrightarrow> apart (heads nl k)"
proof (induction k)
  case (Suc k)
  then show ?case by (auto simp: heads_Suc clear_of_def) (auto simp: heads_def)
qed (simp add: heads_def)

text \<open>After \<open>k\<close> heads have been linked, everything else in the array is still zero.\<close>

definition heads_linked :: "nat \<Rightarrow> nat \<Rightarrow> memory \<Rightarrow> bool" where
  "heads_linked nl k m \<longleftrightarrow> dseg m 0 (heads nl k) 0 \<and>
     (\<forall>x. nl \<le> unat x \<longrightarrow> unat x < nl + 304 \<longrightarrow> (\<forall>i<k. \<not> link_byte (nl + 16 * i) x) \<longrightarrow> m x = 0)"

lemma heads_linked_step:
  assumes "heads_linked nl k m" and "0 < k" and "k < 19" and "0 < nl" and "nl + 304 < 4294967296"
  defines "m' \<equiv> store (W (nl + 16 * k + 12)) (W (nl + 16 * (k - 1))) (store (W (nl + 16 * (k - 1) + 8)) (W (nl + 16 * k)) m)"
  shows "heads_linked nl (Suc k) m'"
proof -
  let ?H = "nl + 16 * k" and ?P = "nl + 16 * (k - 1)"
  have last: "heads nl k \<noteq> []" "last (heads nl k) = ?P"
    using assms(2) heads_Suc [of nl "k - 1"] by (simp_all add: heads_def)
  have ap: "apart (heads nl (Suc k))" using assms(3-5) by (intro apart_heads) auto
  have zero: "m x = 0" if "?H \<le> unat x" "unat x < ?H + 16" for x
    using assms(1,3,5) that unfolding heads_linked_def by (auto simp: link_byte_def)
  have "dseg (store (W (?P + 8)) (W ?H) m) 0 (heads nl k) ?H"
    using assms(1) last ap by (intro dseg_new_end) (auto simp: heads_linked_def heads_Suc)
  then have "dseg m' 0 (heads nl k) ?H"
    unfolding m'_def using ap assms(3,5) by (subst dseg_store_other) (auto simp: heads_Suc dest: apart_bound)
  moreover have "load m (W (?H + 8)) = 0"
    using zero assms(3,5) by (intro load_zero) auto
  then have "load m' (W (?H + 8)) = 0"
    unfolding m'_def using assms(2,3,5) by (cases k) (simp_all add: load_store_other)
  moreover have "load m' (W (?H + 12)) = W ?P"
    unfolding m'_def by simp
  moreover have "m' x = 0" if x: "nl \<le> unat x" "unat x < nl + 304" "\<forall>i<Suc k. \<not> link_byte (nl + 16 * i) x" for x
  proof -
    have "\<not> link_byte ?H x" "\<not> link_byte ?P x" using x(3) by auto
    then have "m' x = m x"
      unfolding m'_def using assms(2,3,5) by (cases k) (auto simp: store_apply_other link_byte_def)
    then show ?thesis using x assms(1) by (simp add: heads_linked_def)
  qed
  ultimately show ?thesis
    unfolding heads_linked_def heads_Suc dseg_append using last by auto
qed

lemma init_links_ok:
  assumes "heads_linked nl 1 (mm_mem h)" and "mm_nodelist h = W nl" and "0 < nl" and "nl + 304 < 4294967296" and "k < 19"
  shows "\<exists>m'. fold init_links [1..<Suc k] h = h\<lparr>mm_mem := m'\<rparr> \<and> heads_linked nl (Suc k) m'
    \<and> (\<forall>x. \<not> (nl \<le> unat x \<and> unat x < nl + 304) \<longrightarrow> m' x = mm_mem h x)"
  using assms(5)
proof (induction k)
  case 0
  then show ?case using assms(1) by (intro exI [of _ "mm_mem h"]) simp
next
  case (Suc k)
  then obtain m where m: "fold init_links [1..<Suc k] h = h\<lparr>mm_mem := m\<rparr>" "heads_linked nl (Suc k) m"
      "\<forall>x. \<not> (nl \<le> unat x \<and> unat x < nl + 304) \<longrightarrow> m x = mm_mem h x" by auto
  let ?m' = "store (W (nl + 16 * Suc k + 12)) (W (nl + 16 * k)) (store (W (nl + 16 * k + 8)) (W (nl + 16 * Suc k)) m)"
  have "heads_linked nl (Suc (Suc k)) ?m'"
    using heads_linked_step [OF m(2) _ Suc.prems assms(3,4)] by simp
  moreover have "fold init_links [1..<Suc (Suc k)] h = h\<lparr>mm_mem := ?m'\<rparr>"
    using m(1) assms(2) by (simp add: init_links_def node_defs nodelist_entry_def Let_def flip: W_def)
  moreover have "?m' x = mm_mem h x" if "\<not> (nl \<le> unat x \<and> unat x < nl + 304)" for x
    using that m(3) Suc.prems assms(4) by (auto simp: store_apply_other)
  ultimately show ?case by blast
qed

lemma heads_flist:
  assumes "heads_linked nl 19 m" and "0 < nl" and "nl + 304 < 4294967296"
  shows "flist m nl (replicate 19 [])"
proof -
  have ns: "nodes nl 0 (replicate 19 []) = heads nl 19"
    by (simp add: heads_def numeral_eq_Suc)
  have "load m (W (nl + 16 * i)) = 0" if "i < 19" for i
  proof (rule load_zero)
    fix x :: u32
    assume x: "nl + 16 * i \<le> unat x" "unat x < nl + 16 * i + 4"
    have "\<not> link_byte (nl + 16 * j) x" for j
      using x unfolding link_byte_def by presburger
    with x assms(1) that show "m x = 0" by (simp add: heads_linked_def)
  qed (use assms(3) that in simp)
  with assms show ?thesis
    unfolding flist_def ns by (simp add: heads_linked_def apart_heads)
qed

section \<open>The first region\<close>

text \<open>The bounds of the region, rounded inwards to 16 bytes.\<close>

definition region_start :: "nat \<Rightarrow> nat" where "region_start b = (b + 15) div 16 * 16"
definition region_size :: "nat \<Rightarrow> nat \<Rightarrow> nat" where "region_size b n = (b + n) div 16 * 16 - region_start b"

definition good_region :: "nat \<Rightarrow> nat \<Rightarrow> nat \<Rightarrow> bool" where
  "good_region nl b n \<longleftrightarrow> b + n < 4294967296 \<and> 32 \<le> region_size b n \<and> placed (region_start b) nl (region_size b n)"

lemma mm_addregion_ok:
  assumes "flist (mm_mem h) nl (replicate 19 [])" and "mm_nodelist h = W nl" and "mm_heapsize h = 0" and "good_region nl b n"
  defines "a \<equiv> region_start b" and "S \<equiv> region_size b n"
  obtains h' where "mm_addregion (W b) (W n) h = return_run h'" and "sem_ok pid h' = sem_ok pid h" and "mm_heapsize h' = W S"
    and "heap_ok a nl [guard, (S - 16, False), guard] {} (add_entry (a + 8, S - 16) (replicate 19 [])) h'"
    and "\<And>x. \<not> (a \<le> unat x \<and> unat x < a + S) \<Longrightarrow> \<not> (nl \<le> unat x \<and> unat x < nl + 304) \<Longrightarrow> mm_mem h' x = mm_mem h x"
proof -
  let ?cs = "[guard, (S - 16, False), guard]"
  have S: "32 \<le> S" "S < 2147483648" and aS: "a + S < 4294967296" and pl: "placed a nl S" and bn: "b + n < 4294967296"
    using assms(4) by (simp_all add: good_region_def a_def S_def placed_def)
  obtain F where F: "S = F + 16" "16 \<le> F" using S(1) by (intro that [of "S - 16"]) auto
  have aS': "(b + n) div 16 * 16 = a + S"
    using S(1) unfolding S_def a_def region_size_def by simp
  then have up: "MM_ALIGN_UP (W b) = W a" and dn: "MM_ALIGN_DOWN (W b + W n) = W (a + S)"
    using bn aS S(1) by (simp_all add: MM_ALIGN_UP_W MM_ALIGN_DOWN_W a_def region_start_def)
  let ?m0 = "mm_mem h"
  let ?m2 = "store (W (a + 4)) MM_ALLOC_BIT (store (W a) 8 ?m0)"
  let ?m4 = "store (W (a + 12)) 8 (store (W (a + 8)) (W F) ?m2)"
  let ?m6 = "store (W (a + F + 12)) (pre F True) (store (W (a + F + 8)) 8 ?m4)"
  let ?h6 = "h\<lparr>mm_heapsize := W S, mm_heapstart := W a, mm_heapend := W (a + F + 8), mm_mem := ?m6\<rparr>"
  have diffs: "W (a + S) - W a = W S" "W S - 16 = W F" "W (a + S) - 8 = W (a + F + 8)"
      "W (a + S) - 4 = W (a + F + 12)"
    using W_diff [of a "a + S"] W_diff [of 16 S] W_diff [of 8 "a + S"] W_diff [of 4 "a + S"] F(1) by (simp_all add: W_numeral add.commute)
  have ld: "load (store (W (a + F + 8)) 8 ?m4) (W (a + 8)) = W F"
    using F aS by (simp add: load_store_other)
  have run: "mm_addregion (W b) (W n) h = mm_addfreechunk (W (a + 8)) ?h6"
    unfolding mm_addregion_def up dn using assms(3) ld
    by (simp add: Let_def diffs node_defs SIZEOF_MM_ALLOCNODE_def pre_def)
  have lay: "layout ?m6 a 0 ?cs"
    using F aS by (simp add: load_store_other pre_def W_numeral ac_simps)
  have fl: "flist ?m6 nl (replicate 19 [])"
  proof (rule flist_cong [OF assms(1)])
    fix B x assume "B \<in> set (nodes nl 0 (replicate 19 []))" "(B \<le> unat x \<and> unat x < B + 4) \<or> link_byte B x"
    then have "nl \<le> unat x \<and> unat x < nl + 304" by (auto simp: set_nodes link_byte_def)
    with pl F aS show "?m6 x = ?m0 x" by (auto simp: store_apply_other placed_def)
  qed
  have ok6: "heap_ok a nl ?cs {(a + 8, S - 16)} (replicate 19 []) ?h6"
  proof -
    have "extent ?cs = S" "a + S - 8 = a + F + 8" "guarded ?cs" "free_chunks a ?cs = {(a + 8, S - 16)}"
      using F by (simp_all add: guarded_def)
    with fl lay pl assms(2) show ?thesis
      unfolding heap_ok_def by (simp del: layout.simps extent_simps)
  qed
  obtain m' where m': "mm_addfreechunk (W (a + 8)) ?h6 = return_run (?h6\<lparr>mm_mem := m'\<rparr>)"
      "heap_ok a nl ?cs {} (add_entry (a + 8, S - 16) (replicate 19 [])) (?h6\<lparr>mm_mem := m'\<rparr>)"
      "\<And>x. user_byte a nl ?cs x \<Longrightarrow> m' x = ?m6 x"
    using heap_add [OF ok6, of "a + 8" "S - 16"] by auto
  have "m' x = ?m0 x" if "\<not> (a \<le> unat x \<and> unat x < a + S)" "\<not> (nl \<le> unat x \<and> unat x < nl + 304)" for x
    using that m'(3) [of x] F aS by (auto simp: user_byte_def store_apply_other)
  with m'(1,2) run show thesis
    by (intro that [of "?h6\<lparr>mm_mem := m'\<rparr>"]) (simp_all add: sem_ok_def)
qed

lemma mm_initialize_ok:
  assumes "mm_nodelist h = W nl" and "good_region nl b n" and "pid \<noteq> -1"
  defines "a \<equiv> region_start b" and "S \<equiv> region_size b n"
  obtains h' where "mm_initialize (W b) (W n) h = return_run h'" and "sem_ok pid h'" and "mm_heapsize h' = W S"
    and "heap_ok a nl [guard, (S - 16, False), guard] {} (add_entry (a + 8, S - 16) (replicate 19 [])) h'"
    and "\<And>x. \<not> (a \<le> unat x \<and> unat x < a + S) \<Longrightarrow> \<not> (nl \<le> unat x \<and> unat x < nl + 304) \<Longrightarrow> mm_mem h' x = mm_mem h x"
proof -
  have nl: "0 < nl" "nl + 304 < 4294967296"
    using assms(2) by (simp_all add: good_region_def placed_def)
  let ?m0 = "memset (W nl) 0 304 (mm_mem h)"
  let ?h0 = "h\<lparr>mm_heapsize := 0, mm_mem := ?m0\<rparr>"
  have m0: "?m0 x = (if nl \<le> unat x \<and> unat x < nl + 304 then 0 else mm_mem h x)" for x
    using nl by (simp add: memset_apply)
  have "load ?m0 (W (nl + 8)) = 0" "load ?m0 (W (nl + 12)) = 0"
    using nl m0 by (auto intro!: load_zero)
  then have "heads_linked nl 1 (mm_mem ?h0)"
    using m0 by (simp add: heads_linked_def heads_def)
  then obtain m1 where m1: "fold init_links [1..<Suc 18] ?h0 = ?h0\<lparr>mm_mem := m1\<rparr>" "heads_linked nl (Suc 18) m1"
      "\<forall>x. \<not> (nl \<le> unat x \<and> unat x < nl + 304) \<longrightarrow> m1 x = ?m0 x"
    using init_links_ok [of nl ?h0 18] assms(1) nl by auto
  let ?h1 = "mm_seminitialize (?h0\<lparr>mm_mem := m1\<rparr>)"
  have fl: "flist (mm_mem ?h1) nl (replicate 19 [])"
    using heads_flist [of nl m1] m1(2) nl by (simp add: mm_seminitialize_def)
  have run: "mm_initialize (W b) (W n) h = mm_addregion (W b) (W n) ?h1"
    using m1(1) assms(1) by (simp add: mm_initialize_def mm_consts Let_def)
  obtain h' where h': "mm_addregion (W b) (W n) ?h1 = return_run h'" "sem_ok pid h' = sem_ok pid ?h1" "mm_heapsize h' = W S"
      "heap_ok a nl [guard, (S - 16, False), guard] {} (add_entry (a + 8, S - 16) (replicate 19 [])) h'"
      "\<And>x. \<not> (a \<le> unat x \<and> unat x < a + S) \<Longrightarrow> \<not> (nl \<le> unat x \<and> unat x < nl + 304) \<Longrightarrow> mm_mem h' x = mm_mem ?h1 x"
    using mm_addregion_ok [OF fl _ _ assms(2), of pid] assms(1) unfolding a_def S_def
    by (auto simp: mm_seminitialize_def)
  show thesis
  proof (rule that)
    show "mm_initialize (W b) (W n) h = return_run h'" using run h'(1) by simp
    show "mm_heapsize h' = W S" by (rule h'(3))
    show "sem_ok pid h'" using h'(2) assms(3) by (simp add: sem_ok_def mm_seminitialize_def)
    show "heap_ok a nl [guard, (S - 16, False), guard] {} (add_entry (a + 8, S - 16) (replicate 19 [])) h'"
      by (rule h'(4))
    show "mm_mem h' x = mm_mem h x"
      if "\<not> (a \<le> unat x \<and> unat x < a + S)" "\<not> (nl \<le> unat x \<and> unat x < nl + 304)" for x
      using h'(5) [OF that] m1(3) m0 that(2) by (simp add: mm_seminitialize_def)
  qed
qed

end
