(* ===== verification/Mm_Resize.thy ===== *)
theory Mm_Resize
  imports Mm_Init
begin

text \<open>
  Shrinking a chunk in place: the tail becomes a free chunk, merged with a free chunk behind it.
\<close>

section \<open>Headers are not user bytes\<close>

lemma user_byte_not_header:
  assumes "guarded cs" and "(B, t, v) \<in> set (blocks a cs)" and "user_byte a nl cs x"
  shows "\<not> (B \<le> unat x \<and> unat x < B + 8)"
proof -
  note pos = guarded_pos [OF assms(1)] and r = blocks_header [OF assms(2) guarded_ge_8 [OF assms(1)]]
  show ?thesis
    using assms(3) unfolding user_byte_def
  proof (elim disjE exE conjE)
    fix A s assume "(A, s, True) \<in> set (blocks a cs)" "A + 8 \<le> unat x" "unat x < A + s"
    with blocks_apart [OF this(1) assms(2) pos] r show ?thesis by auto
  qed (use r in linarith)
qed

lemma store_header_user:
  assumes "guarded cs" and "placed a nl (extent cs)" and "(B, t, v) \<in> set (blocks a cs)" and "user_byte a nl cs x"
    and "C = B \<or> C = B + 4"
  shows "store (W C) w m x = m x"
proof -
  have "B + 8 \<le> 4294967296"
    using blocks_header [OF assms(3) guarded_ge_8 [OF assms(1)]] assms(2) by (simp add: placed_def)
  with user_byte_not_header [OF assms(1,3,4)] assms(5) show ?thesis
    by (intro store_apply_other) auto
qed

section \<open>Shrinking\<close>

fun shrunk :: "nat \<Rightarrow> nat \<Rightarrow> chunk list \<Rightarrow> chunk list" where
  "shrunk r s ((t, False) # ys) = (r, True) # (s + t - r, False) # ys"
| "shrunk r s ys = (if r + 16 \<le> s then (r, True) # (s - r, False) # ys else (s, True) # ys)"

text \<open>A free chunk of \<open>d\<close> bytes, or nothing.\<close>

definition rest :: "nat \<Rightarrow> chunk list" where
  "rest d = (if d = 0 then [] else [(d, False)])"

lemma extent_rest [simp]: "extent (rest d) = d"
  by (simp add: rest_def)

text \<open>A chunk in a row that is granular by 8 and starts at a multiple of 8 is at a multiple of 8.\<close>

definition granular :: "nat \<Rightarrow> chunk list \<Rightarrow> bool" where
  "granular g cs \<longleftrightarrow> (\<forall>c \<in> set cs. c = guard \<or> g dvd fst c)"

lemma granular_simps [simp]:
  "granular g []" "granular g (c # cs) \<longleftrightarrow> (c = guard \<or> g dvd fst c) \<and> granular g cs"
  "granular g (xs @ ys) \<longleftrightarrow> granular g xs \<and> granular g ys"
  by (auto simp: granular_def)

lemma granular_extent: "granular 8 cs \<Longrightarrow> 8 dvd extent cs"
  by (induction cs) auto

text \<open>The header writes, with \<open>u\<close> bytes to divide into the chunk and the free chunk behind it.\<close>

lemma heap_cut:
  assumes "heap_ok a nl (xs @ old @ (w, v) # ys) (free_chunks A old) fl h" and "A = a + extent xs" and "xs \<noteq> []"
    and "extent old = u" and "16 \<le> r" and "r + 16 \<le> u" and "old = (s, True) # old'"
  defines "m' \<equiv> store (W (A + u + 4)) (pre (u - r) v) (store (W A) (W r)
      (store (W (A + r + 4)) (W r) (store (W (A + r)) (W (u - r)) (mm_mem h))))"
  shows "heap_ok a nl (xs @ [(r, True), (u - r, False)] @ (w, v) # ys) {(A + r, u - r)} fl (h\<lparr>mm_mem := m'\<rparr>)"
    and "user_byte a nl (xs @ [(r, True), (u - r, False)] @ (w, v) # ys) x \<Longrightarrow> m' x = mm_mem h x"
proof -
  let ?new = "[(r, True), (u - r, False)]"
  note k = heap_okD [OF assms(1)]
  have bnd: "A + u + 8 < 4294967296"
    using k(2) guarded_ge_8 [OF k(1)] assms(2,4) by (auto simp: placed_def)
  have "load (mm_mem h) (W (A + 4)) = pre (last (0 # map fst xs)) True"
    using k(4) assms(2) by (simp add: layout_append assms(7))
  then have lay: "layout m' (a + extent xs) (last (0 # map fst xs)) ?new"
    and nxt: "load m' (W (a + extent xs + extent old + 4)) = pre (last (0 # map fst ?new)) v"
    using assms(2,4,5,6) bnd by (simp_all add: m'_def load_store_other pre_def)
  have sec: "section_only (a + extent xs) (a + extent xs + extent old) (mm_mem h) m'"
    unfolding m'_def using assms(2,4,5,6) bnd by (intro section_only_store) auto
  have ok: "heap_ok a nl (xs @ ?new @ (w, v) # ys) (free_chunks (a + extent xs) ?new) fl (h\<lparr>mm_mem := m'\<rparr>)"
    by (rule heap_section(1) [OF assms(1) _ assms(3) _ _ _ sec lay nxt]) (use assms(2,4,5,6) in auto)
  then show "heap_ok a nl (xs @ ?new @ (w, v) # ys) {(A + r, u - r)} fl (h\<lparr>mm_mem := m'\<rparr>)"
    using assms(2) by simp
  show "m' x = mm_mem h x" if "user_byte a nl (xs @ ?new @ (w, v) # ys) x"
  proof -
    note st = store_header_user [OF heap_okD(1,2) [OF ok] _ that]
    have "(A, r, True) \<in> set (blocks a (xs @ ?new @ (w, v) # ys))"
      and "(A + r, u - r, False) \<in> set (blocks a (xs @ ?new @ (w, v) # ys))"
      and "(A + u, w, v) \<in> set (blocks a (xs @ ?new @ (w, v) # ys))"
      using assms(2,5,6) by (simp_all add: blocks_append)
    then show ?thesis
      unfolding m'_def using st by (metis (no_types, lifting))
  qed
qed

text \<open>Replacing a section of the row by one whose chunks in use cover the old ones.\<close>

definition used_byte :: "nat \<Rightarrow> chunk list \<Rightarrow> u32 \<Rightarrow> bool" where
  "used_byte a cs x \<longleftrightarrow> (\<exists>A s. (A, s, True) \<in> set (blocks a cs) \<and> A + 8 \<le> unat x \<and> unat x < A + s)"

lemma used_byte_simps [simp]:
  "\<not> used_byte a [] x"
  "used_byte a ((s, u) # cs) x \<longleftrightarrow> (u \<and> a + 8 \<le> unat x \<and> unat x < a + s) \<or> used_byte (a + s) cs x"
  "used_byte a (cs @ ds) x \<longleftrightarrow> used_byte a cs x \<or> used_byte (a + extent cs) ds x"
  by (auto simp: used_byte_def blocks_append)

lemma used_byte_range: "used_byte a cs x \<Longrightarrow> a \<le> unat x \<and> unat x < a + extent cs"
  unfolding used_byte_def by (auto dest!: blocks_range)

lemma user_byte_used: "user_byte a nl cs x \<longleftrightarrow>
    used_byte a cs x \<or> \<not> (a \<le> unat x \<and> unat x < a + extent cs) \<and> \<not> (nl \<le> unat x \<and> unat x < nl + 304)"
  by (simp add: user_byte_def used_byte_def)

lemma user_byte_payload:
  assumes "(A, s, True) \<in> set (blocks a cs)" and "i < s - 8" and "A + s < 4294967296"
  shows "user_byte a nl cs (W (A + 8 + i))"
proof -
  have "A + 8 \<le> unat (W (A + 8 + i))" and "unat (W (A + 8 + i)) < A + s"
    using assms(2,3) by simp_all
  with assms(1) show ?thesis unfolding user_byte_def by blast
qed

lemma user_byte_section:
  assumes "user_byte a nl (xs @ old @ ys) x" and "extent new = extent old"
    and "used_byte (a + extent xs) old x \<Longrightarrow> used_byte (a + extent xs) new x"
  shows "user_byte a nl (xs @ new @ ys) x"
  using assms by (auto simp: user_byte_used)

lemma user_byte_shrunk:
  assumes "user_byte a nl (xs @ shrunk r s ys) x" and "r \<le> s"
  shows "user_byte a nl (xs @ (s, True) # ys) x"
  using assms
  by (cases "(r, s, ys)" rule: shrunk.cases) (auto simp: user_byte_used add.assoc split: if_splits)

text \<open>With a chunk in use behind it.\<close>

lemma mm_shrinkchunk_used:
  assumes "heap_ok a nl (xs @ (s, True) # (t, True) # ys) {} fl h" and "A = a + extent xs" and "16 \<le> r" and "r + 8 \<le> s"
  obtains m' fl' where "mm_shrinkchunk (W A) (W r) h = return_run (h\<lparr>mm_mem := m'\<rparr>)"
    and "heap_ok a nl (xs @ shrunk r s ((t, True) # ys)) {} fl' (h\<lparr>mm_mem := m'\<rparr>)"
    and "\<And>x. user_byte a nl (xs @ shrunk r s ((t, True) # ys)) x \<Longrightarrow> m' x = mm_mem h x"
proof -
  have xs: "xs \<noteq> []" using guarded_mid [OF heap_okD(1) [OF assms(1)]] assms(3,4) by auto
  note e = heap_header [OF assms(1), folded assms(2)]
  note flag = pre_simps(1) [OF e(6), of True]
  show thesis
  proof (cases "r + 16 \<le> s")
    case False
    then have "\<not> W (r + 16) \<le> W s"
      using e(6) assms(4) by (simp add: W_le_iff)
    with assms(1) e False flag show ?thesis
      by (intro that [of "mm_mem h" fl]) (auto simp: mm_shrinkchunk_def node_defs mm_consts)
  next
    case True
    let ?m1 = "store (W (A + s + 4)) (pre (s - r) True) (store (W A) (W r)
        (store (W (A + r + 4)) (W r) (store (W (A + r)) (W (s - r)) (mm_mem h))))"
    have ok: "heap_ok a nl (xs @ [(s, True)] @ (t, True) # ys) (free_chunks A [(s, True)]) fl h"
      using assms(1) by simp
    note cut = heap_cut [OF ok assms(2) xs _ assms(3) True refl, simplified]
    obtain m2 where m2: "mm_addfreechunk (W (A + r)) (h\<lparr>mm_mem := ?m1\<rparr>) = return_run (h\<lparr>mm_mem := m2\<rparr>)"
        "heap_ok a nl (xs @ (r, True) # (s - r, False) # (t, True) # ys) {} (add_entry (A + r, s - r) fl) (h\<lparr>mm_mem := m2\<rparr>)"
        "\<And>x. user_byte a nl (xs @ (r, True) # (s - r, False) # (t, True) # ys) x \<Longrightarrow> m2 x = ?m1 x"
      using heap_add [OF cut(1), of "A + r" "s - r"] by (auto simp: free_chunks_append assms(2) add.assoc)
    have "mm_shrinkchunk (W A) (W r) h = mm_addfreechunk (W (A + r)) (h\<lparr>mm_mem := ?m1\<rparr>)"
      using e flag True assms(3,4) W_diff [of r s]
      by (simp add: mm_shrinkchunk_def node_defs Let_def SIZEOF_MM_FREENODE_def SIZEOF_MM_ALLOCNODE_def W_le_iff
          load_store_other pre_def)
    with m2 cut(2) True show ?thesis
      by (intro that [of m2]) auto
  qed
qed

text \<open>With a free chunk behind it, which takes the tail over.\<close>

lemma mm_shrinkchunk_free:
  assumes "heap_ok a nl (xs @ (s, True) # (t, False) # ys) {} fl h" and "A = a + extent xs" and "16 \<le> r" and "r + 8 \<le> s"
  obtains m' fl' where "mm_shrinkchunk (W A) (W r) h = return_run (h\<lparr>mm_mem := m'\<rparr>)"
    and "heap_ok a nl (xs @ shrunk r s ((t, False) # ys)) {} fl' (h\<lparr>mm_mem := m'\<rparr>)"
    and "\<And>x. user_byte a nl (xs @ shrunk r s ((t, False) # ys)) x \<Longrightarrow> m' x = mm_mem h x"
proof -
  note k = heap_okD [OF assms(1)]
  have xs: "xs \<noteq> []" using guarded_mid [OF k(1)] assms(3,4) by auto
  have grd: "guarded ((xs @ [(s, True)]) @ (t, False) # ys)" using k(1) by simp
  obtain w v zs where ys: "ys = (w, v) # zs" using guarded_mid(2) [OF grd] by (cases ys) auto
  have t: "16 \<le> t" using guarded_mid(3) [OF grd] by simp
  let ?cs = "xs @ (s, True) # (t, False) # (w, v) # zs"
  obtain m1 where m1: "mm_unlink (W (A + s)) h = return_run (h\<lparr>mm_mem := m1\<rparr>)"
      "heap_ok a nl ?cs {(A + s, t)} (drop_entry (A + s) fl) (h\<lparr>mm_mem := m1\<rparr>)"
      "\<And>x. user_byte a nl ?cs x \<Longrightarrow> m1 x = mm_mem h x"
    by (rule heap_unlink [OF assms(1), of "A + s" t]) (simp_all add: free_chunks_append assms(2) ys add.assoc)
  note e0 = heap_header [OF assms(1), folded assms(2)] and e = heap_header [OF m1(2), folded assms(2)]
  have e2: "load m1 (W (A + s + t + 4)) = pre t v" and bnd: "A + s + t + 8 < 4294967296"
    using heap_okD(2,4) [OF m1(2)] guarded_ge_8 [OF heap_okD(1) [OF m1(2)]] assms(2)
    by (auto simp: layout_append placed_def)
  let ?u = "s + t"
  let ?m2 = "store (W (A + ?u + 4)) (pre (?u - r) v) (store (W A) (W r)
      (store (W (A + r + 4)) (W r) (store (W (A + r)) (W (?u - r)) m1)))"
  have ok: "heap_ok a nl (xs @ [(s, True), (t, False)] @ (w, v) # zs) (free_chunks A [(s, True), (t, False)])
      (drop_entry (A + s) fl) (h\<lparr>mm_mem := m1\<rparr>)"
    using m1(2) by simp
  have ru: "r + 16 \<le> ?u" using assms(4) t by simp
  note cut = heap_cut [OF ok assms(2) xs _ assms(3) ru refl, simplified]
  obtain m3 where m3: "mm_addfreechunk (W (A + r)) (h\<lparr>mm_mem := ?m2\<rparr>) = return_run (h\<lparr>mm_mem := m3\<rparr>)"
      "heap_ok a nl (xs @ (r, True) # (?u - r, False) # (w, v) # zs) {} (add_entry (A + r, ?u - r) (drop_entry (A + s) fl)) (h\<lparr>mm_mem := m3\<rparr>)"
      "\<And>x. user_byte a nl (xs @ (r, True) # (?u - r, False) # (w, v) # zs) x \<Longrightarrow> m3 x = ?m2 x"
    using heap_add [OF cut(1), of "A + r" "?u - r"] by (auto simp: free_chunks_append assms(2) add.assoc)
  have size: "W t + W s - W r = W (?u - r)" using W_diff [of r ?u] ru by (simp add: add.commute)
  have "mm_shrinkchunk (W A) (W r) h = mm_addfreechunk (W (A + r)) (h\<lparr>mm_mem := ?m2\<rparr>)"
    using e0(1,3,4,6) pre_simps(1) [OF e0(6), of False] m1(1) e e2 assms(3,4) bnd size pre_simps(1) [OF e(7), of v]
    by (simp add: mm_shrinkchunk_def node_defs Let_def load_store_other or_flag add.assoc)
  moreover have "m3 x = mm_mem h x" if x: "user_byte a nl (xs @ shrunk r s ((t, False) # ys)) x" for x
    using x user_byte_shrunk [OF x] m3(3) [of x] cut(2) [of x] m1(3) [of x] assms(4) by (simp add: ys)
  ultimately show thesis
    using that m3(1,2) by (simp add: ys)
qed

lemma mm_shrinkchunk_ok:
  assumes "heap_ok a nl (xs @ (s, True) # ys) {} fl h" and "A = a + extent xs" and "16 \<le> r" and "r + 8 \<le> s"
  obtains m' fl' where "mm_shrinkchunk (W A) (W r) h = return_run (h\<lparr>mm_mem := m'\<rparr>)"
    and "heap_ok a nl (xs @ shrunk r s ys) {} fl' (h\<lparr>mm_mem := m'\<rparr>)"
    and "\<And>x. user_byte a nl (xs @ shrunk r s ys) x \<Longrightarrow> m' x = mm_mem h x"
proof -
  have "ys \<noteq> []" using guarded_mid(2) [OF heap_okD(1) [OF assms(1)]] assms(3,4) by auto
  then obtain t v zs where ys: "ys = (t, v) # zs" by (cases ys) auto
  show thesis
  proof (cases v)
    case True
    with mm_shrinkchunk_used [OF _ assms(2-4)] assms(1) that show ?thesis unfolding ys by metis
  next
    case False
    with mm_shrinkchunk_free [OF _ assms(2-4)] assms(1) that show ?thesis unfolding ys by metis
  qed
qed

end
