(* ===== verification/Mm_Memalign.thy ===== *)
theory Mm_Memalign
  imports Mm_Resize
begin

text \<open>
  \<open>mm_memalign\<close>: a chunk that is larger by twice the alignment is allocated, the part before the first
  alignment point that leaves room for a free node is released, and the tail is cut off.
\<close>

section \<open>The leading part\<close>

lemma heap_lead:
  assumes "heap_ok a nl (xs @ (s, True) # (t, v) # ys) {} fl h" and "A = a + extent xs" and "xs \<noteq> []"
    and "16 \<le> d" and "d + 16 \<le> s"
  defines "m' \<equiv> store (W (A + s + 4)) (pre (s - d) v) (store (W (A + 4)) (pre (last (0 # map fst xs)) False)
      (store (W A) (W d) (store (W (A + d + 4)) (pre d True) (store (W (A + d)) (W (s - d)) (mm_mem h)))))"
  shows "heap_ok a nl (xs @ (d, False) # (s - d, True) # (t, v) # ys) {(A, d)} fl (h\<lparr>mm_mem := m'\<rparr>)"
    and "user_byte a nl (xs @ (s, False) # (t, v) # ys) x \<Longrightarrow> m' x = mm_mem h x"
proof -
  let ?old = "[(s, True)]" and ?new = "[(d, False), (s - d, True)]"
  note k = heap_okD [OF assms(1)] and e = heap_header [OF assms(1), folded assms(2)]
  have sec: "section_only (a + extent xs) (a + extent xs + extent ?old) (mm_mem h) m'"
    unfolding m'_def using assms(2,4,5) e(5) by (intro section_only_store) auto
  have lay: "layout m' (a + extent xs) (last (0 # map fst xs)) ?new"
    using assms(2,4,5) e(5) by (simp add: m'_def load_store_other)
  have nxt: "load m' (W (a + extent xs + extent ?old + 4)) = pre (last (0 # map fst ?new)) v"
    using assms(2) by (simp add: m'_def)
  note sct = heap_section [OF _ _ assms(3) _ _ _ sec lay nxt]
  from sct(1) assms(1,2,4,5)
  show "heap_ok a nl (xs @ (d, False) # (s - d, True) # (t, v) # ys) {(A, d)} fl (h\<lparr>mm_mem := m'\<rparr>)"
    by simp
  show "m' x = mm_mem h x" if x: "user_byte a nl (xs @ (s, False) # (t, v) # ys) x"
  proof -
    have "guarded (xs @ [(s, False)] @ (t, v) # ys)"
      using guarded_replace [of xs "[(s, True)]" "(t, v) # ys" "[(s, False)]"] k(1) assms(3,4,5) by simp
    then have "\<not> (A \<le> unat x \<and> unat x < A + s)"
      using assms(2) x by (intro user_byte_not_free [of _ A s a nl]) (auto simp: blocks_append)
    moreover have "user_byte a nl (xs @ [(s, True)] @ (t, v) # ys) x"
      using x by (auto simp: user_byte_used)
    ultimately show ?thesis
      using sct(2) [of nl t ys "{}" fl x] assms(1,2,4,5) by simp
  qed
qed

lemma memalign_lead_ok:
  assumes "heap_ok a nl (xs @ (s, True) # ys) {} fl h" and "A = a + extent xs" and "16 \<le> s"
    and "8 \<le> d0" and "d = (if d0 < 16 then d0 + al else d0)" and "16 \<le> al" and "d + 16 \<le> s"
  obtains m' fl' where "memalign_lead (W al) (W (A + 8)) (W (A + 8 + d0)) (W A) h
      = return_run (W (A + 8 + d), W (A + d), W (s - d - 8), h\<lparr>mm_mem := m'\<rparr>)"
    and "heap_ok a nl (xs @ (d, False) # (s - d, True) # ys) {} fl' (h\<lparr>mm_mem := m'\<rparr>)"
    and "\<And>x. user_byte a nl (xs @ (s, False) # ys) x \<Longrightarrow> m' x = mm_mem h x"
proof -
  note k = heap_okD [OF assms(1)]
  have xs: "xs \<noteq> []" and "ys \<noteq> []" using guarded_mid [OF k(1)] assms(3) by auto
  then obtain t v zs where ys: "ys = (t, v) # zs" by (cases ys) auto
  note e = heap_header [OF assms(1) [unfolded ys], folded assms(2)]
  have d: "16 \<le> d" using assms(4-6) by auto
  note ld = heap_lead [OF assms(1) [unfolded ys] assms(2) xs d assms(7)]
  let ?m1 = "store (W (A + s + 4)) (pre (s - d) v) (store (W (A + 4)) (pre (last (0 # map fst xs)) False)
      (store (W A) (W d) (store (W (A + d + 4)) (pre d True) (store (W (A + d)) (W (s - d)) (mm_mem h)))))"
  obtain m2 where m2: "mm_addfreechunk (W A) (h\<lparr>mm_mem := ?m1\<rparr>) = return_run (h\<lparr>mm_mem := m2\<rparr>)"
      "heap_ok a nl (xs @ (d, False) # (s - d, True) # (t, v) # zs) {} (add_entry (A, d) fl) (h\<lparr>mm_mem := m2\<rparr>)"
      "\<And>x. user_byte a nl (xs @ (d, False) # (s - d, True) # (t, v) # zs) x \<Longrightarrow> m2 x = ?m1 x"
    using heap_add [OF ld(1), of A d] by (auto simp: free_chunks_append assms(2))
  have d0: "d0 \<le> d" using assms(5) by auto
  have shift: "W (A + 8 + k) - 8 = W (A + k)" "W (A + 8 + k) - 4 = W (A + k + 4)" "W (A + k) - W A = W k" for k
    using W_diff [of 8 "A + 8 + k"] W_diff [of 4 "A + 8 + k"] W_diff [of A "A + k"] by (simp_all add: W_numeral ac_simps)
  have diffs: "W (A + s) - W (A + d) = W (s - d)" "W (s - d) - 8 = W (s - d - 8)"
    using assms(7) W_diff [of "A + d" "A + s"] W_diff [of 8 "s - d"] by (simp_all add: W_numeral)
  note sz = SIZEOF_MM_ALLOCNODE_def SIZEOF_MM_FREENODE_def
  have or_alloc: "W q OR MM_ALLOC_BIT = pre q True" for q by (simp add: pre_def)
  have clear: "pre (last (map fst xs)) True AND NOT MM_ALLOC_BIT = pre (last (map fst xs)) False"
    using pre_simps(2) [of "last (map fst xs)" True] e(11) xs by (simp add: pre_def)
  have ge: "W (A + 8) + 8 \<le> W (A + 8 + d0)"
    using assms(4,7) e(5) d0 by (simp add: W_le_iff)
  have "memalign_lead (W al) (W (A + 8)) (W (A + 8 + d0)) (W A) h
      = next_run (mm_addfreechunk (W A) (h\<lparr>mm_mem := ?m1\<rparr>)) (\<lambda>h. return_run (W (A + 8 + d), W (A + d), W (s - d - 8), h))"
  proof (cases "d0 < 16")
    case True
    then have "W d0 < 16" and eqs: "A + 8 + d0 + al = A + 8 + d"
      using assms(5) by (simp_all add: word_less_nat_alt)
    with ge assms(7) d e(5) xs show ?thesis
      by (simp add: memalign_lead_def Let_def node_defs sz eqs shift diffs e(1-4) load_store_other or_flag or_alloc
          pre_simps [OF e(6)] clear)
  next
    case False
    then have "\<not> W d0 < 16" and eqs: "d0 = d"
      using assms(5,7) e(6) by (simp_all add: word_less_nat_alt)
    with ge assms(7) d e(5) xs show ?thesis
      by (simp add: memalign_lead_def Let_def node_defs sz eqs shift diffs e(1-4) load_store_other or_flag or_alloc
          pre_simps [OF e(6)] clear)
  qed
  with m2(1) have run: "memalign_lead (W al) (W (A + 8)) (W (A + 8 + d0)) (W A) h
      = return_run (W (A + 8 + d), W (A + d), W (s - d - 8), h\<lparr>mm_mem := m2\<rparr>)"
    by simp
  have "m2 x = mm_mem h x" if "user_byte a nl (xs @ (s, False) # ys) x" for x
  proof -
    have "user_byte a nl (xs @ (d, False) # (s - d, True) # ys) x"
      using that assms(7) by (auto simp: user_byte_used add.assoc)
    with that show ?thesis
      using m2(3) [of x] ld(2) [of x] ys by simp
  qed
  with run m2(2) show thesis
    by (intro that [of m2 "add_entry (A, d) fl"]) (simp_all add: ys)
qed

section \<open>The whole call\<close>

text \<open>The offset of the first alignment point after \<open>p\<close>, and the one that leaves room for a free node.\<close>

definition align_gap :: "nat \<Rightarrow> nat \<Rightarrow> nat" where
  "align_gap al p = (p + al - 1) div al * al - p"

definition lead_size :: "nat \<Rightarrow> nat \<Rightarrow> nat" where
  "lead_size al p = (let g = align_gap al p in if g = 0 then 0 else if g < 16 then g + al else g)"

lemma align_gap_props:
  assumes "0 < al"
  shows "al dvd p + align_gap al p" and "align_gap al p < al" and "(p + al - 1) div al * al = p + align_gap al p"
proof -
  let ?q = "(p + al - 1) div al * al"
  have "?q + (p + al - 1) mod al = p + al - 1" by simp
  moreover have "(p + al - 1) mod al < al" using assms by simp
  ultimately have "p \<le> ?q" "?q < p + al" by linarith+
  then show "?q = p + align_gap al p" and "align_gap al p < al" by (simp_all add: align_gap_def)
  then show "al dvd p + align_gap al p" by (metis dvd_triv_right)
qed

lemma lead_size_props:
  assumes "32 \<le> al" and "8 dvd al" and "8 dvd p"
  shows "al dvd p + lead_size al p" and "lead_size al p = 0 \<or> 16 \<le> lead_size al p" and "lead_size al p \<le> al + 8"
    and "align_gap al p \<noteq> 0 \<Longrightarrow> 8 \<le> align_gap al p"
proof -
  note g = align_gap_props [of al p]
  have al: "0 < al" using assms(1) by simp
  have "8 dvd p + align_gap al p" using g(1) [OF al] assms(2) by (rule dvd_trans [rotated])
  with assms(3) have e: "8 dvd align_gap al p" by (simp add: dvd_add_right_iff)
  then show "align_gap al p \<noteq> 0 \<Longrightarrow> 8 \<le> align_gap al p" by (simp add: dvd_imp_le)
  show "al dvd p + lead_size al p"
    using g(1) [OF al] by (auto simp: lead_size_def Let_def dvd_add_right_iff add.assoc [symmetric])
  show "lead_size al p = 0 \<or> 16 \<le> lead_size al p" using assms(1) by (simp add: lead_size_def Let_def)
  from e have "align_gap al p < 16 \<Longrightarrow> align_gap al p \<le> 8" by (auto elim!: dvdE)
  with g(2) [OF al] show "lead_size al p \<le> al + 8" by (auto simp: lead_size_def Let_def)
qed

lemma align_word:
  assumes "p + 2 ^ k - 1 < 4294967296" and "k < 32"
  shows "(W p + (W (2 ^ k) - 1)) AND NOT (W (2 ^ k) - 1) = W (p + align_gap (2 ^ k) p)"
proof -
  have m: "W (2 ^ k) - 1 = mask k" by (simp add: W_def mask_eq_exp_minus_1)
  have "W p + (W (2 ^ k) - 1) = W (p + 2 ^ k - 1)"
    using W_diff [of 1 "p + 2 ^ k"] one_le_power [of "2 :: nat" k] by (simp add: W_def add_diff_eq trans_le_add2)
  then have "(W p + (W (2 ^ k) - 1)) AND NOT (W (2 ^ k) - 1) = push_bit k (drop_bit k (W (p + 2 ^ k - 1)))"
    by (simp add: m and_not_mask)
  also have "\<dots> = W (unat (drop_bit k (W (p + 2 ^ k - 1))) * 2 ^ k)"
    by (simp add: W_def push_bit_eq_mult)
  also have "\<dots> = W (unat (W (p + 2 ^ k - 1)) div 2 ^ k * 2 ^ k)"
    by (subst unat_drop_bit_eq) (simp add: drop_bit_eq_div)
  also have "\<dots> = W (p + align_gap (2 ^ k) p)"
    using assms(1) align_gap_props(3) [of "2 ^ k" p] by simp
  finally show ?thesis .
qed

lemma user_byte_shrunk_keep:
  "user_byte a nl (xs @ (s, False) # ys) x \<Longrightarrow> r \<le> s \<Longrightarrow> user_byte a nl (xs @ shrunk r s ys) x"
  by (cases "(r, s, ys)" rule: shrunk.cases) (auto simp: user_byte_used add.assoc split: if_splits)

lemma carve_first:
  assumes "r \<le> s"
  obtains t ts where "carve r s = (t, True) # ts" and "r \<le> t" and "t \<le> s" and "t + extent ts = s" and "\<And>b x. \<not> used_byte b ts x"
  by (rule that [of "if r + 16 \<le> s then r else s" "if r + 16 \<le> s then [(s - r, False)] else []"])
    (use assms in \<open>auto simp: carve_def\<close>)

text \<open>The second half: the chunk of \<open>t\<close> bytes at \<open>A\<close> is there, what is before the alignment point and behind is released.\<close>

lemma memalign_trim_ok:
  assumes "heap_ok a nl (xs @ (t, True) # ys) {} fl h" and "A = a + extent xs" and "32 \<le> al" and "8 dvd al" and "8 dvd A"
    and "d = lead_size al (A + 8)" and "16 \<le> sz" and "sz + 2 * al + 16 \<le> t" and "allocsize = W (sz + 2 * al)"
  obtains m' fl' where
      "next_run (if W (A + 8 + align_gap al (A + 8)) \<noteq> W (A + 8)
                 then memalign_lead (W al) (W (A + 8)) (W (A + 8 + align_gap al (A + 8))) (W A) h
                 else return_run (W (A + 8 + align_gap al (A + 8)), W A, allocsize, h))
         (\<lambda>(alignedchunk, node, allocsize, h).
            next_run (if allocsize > W sz then mm_shrinkchunk node (W sz + SIZEOF_MM_ALLOCNODE) h else return_run h) (f alignedchunk))
       = f (W (A + 8 + d)) (h\<lparr>mm_mem := m'\<rparr>)"
    and "heap_ok a nl (xs @ rest d @ shrunk (sz + 8) (t - d) ys) {} fl' (h\<lparr>mm_mem := m'\<rparr>)"
    and "\<And>x. user_byte a nl (xs @ (t, False) # ys) x \<Longrightarrow> m' x = mm_mem h x"
proof -
  let ?g = "align_gap al (A + 8)"
  have p: "8 dvd A + 8" using assms(5) by simp
  note g = align_gap_props [of al "A + 8"] and l = lead_size_props [OF assms(3,4) p, folded assms(6)]
  have "16 \<le> t" using assms(7,8) by simp
  have rng: "A + t < 4294967296" "t < 2147483648"
    using heap_okD(2) [OF assms(1)] assms(2) by (auto simp: placed_def)
  have ne: "W (A + 8 + ?g) \<noteq> W (A + 8) \<longleftrightarrow> ?g \<noteq> 0"
    using g(2) assms(3,8) rng by (simp add: W_eq_iff)
  obtain m1 fl1 al1 where m1: "(if W (A + 8 + ?g) \<noteq> W (A + 8)
                 then memalign_lead (W al) (W (A + 8)) (W (A + 8 + ?g)) (W A) h
                 else return_run (W (A + 8 + ?g), W A, allocsize, h)) = return_run (W (A + 8 + d), W (A + d), W al1, h\<lparr>mm_mem := m1\<rparr>)"
      "heap_ok a nl (xs @ rest d @ (t - d, True) # ys) {} fl1 (h\<lparr>mm_mem := m1\<rparr>)"
      "\<And>x. user_byte a nl (xs @ (t, False) # ys) x \<Longrightarrow> m1 x = mm_mem h x" "sz < al1" "al1 < 4294967296"
  proof (cases "?g = 0")
    case True
    then have "d = 0" using assms(6) by (simp add: lead_size_def)
    show ?thesis
      by (rule that [of "sz + 2 * al" "mm_mem h" fl])
        (use True \<open>d = 0\<close> ne assms(1,3,8,9) rng in \<open>simp_all add: rest_def\<close>)
  next
    case False
    then have d: "d = (if ?g < 16 then ?g + al else ?g)" using assms(6) by (simp add: lead_size_def)
    have "d + 16 \<le> t" using l(3) assms(3,8) by simp
    obtain m' fl' where m': "memalign_lead (W al) (W (A + 8)) (W (A + 8 + ?g)) (W A) h
        = return_run (W (A + 8 + d), W (A + d), W (t - d - 8), h\<lparr>mm_mem := m'\<rparr>)"
        "heap_ok a nl (xs @ (d, False) # (t - d, True) # ys) {} fl' (h\<lparr>mm_mem := m'\<rparr>)"
        "\<And>x. user_byte a nl (xs @ (t, False) # ys) x \<Longrightarrow> m' x = mm_mem h x"
      by (rule memalign_lead_ok [OF assms(1,2) \<open>16 \<le> t\<close> l(4) [OF False] d _ \<open>d + 16 \<le> t\<close>]) (use assms(3) in auto)
    have "0 < d" using d False by auto
    show ?thesis
      by (rule that [of "t - d - 8" m' fl'])
        (use False \<open>0 < d\<close> ne m' l(3) assms(3,8) rng in \<open>auto simp: rest_def\<close>)
  qed
  have r: "16 \<le> sz + 8" "sz + 8 + 8 \<le> t - d" using assms(3,7,8) l(3) by auto
  have A: "A + d = a + extent (xs @ rest d)" using assms(2) by simp
  obtain m2 fl2 where m2: "mm_shrinkchunk (W (A + d)) (W (sz + 8)) (h\<lparr>mm_mem := m1\<rparr>) = return_run (h\<lparr>mm_mem := m2\<rparr>)"
      "heap_ok a nl ((xs @ rest d) @ shrunk (sz + 8) (t - d) ys) {} fl2 (h\<lparr>mm_mem := m2\<rparr>)"
      "\<And>x. user_byte a nl ((xs @ rest d) @ shrunk (sz + 8) (t - d) ys) x \<Longrightarrow> m2 x = m1 x"
    using mm_shrinkchunk_ok [OF _ A r, of nl ys fl1 "h\<lparr>mm_mem := m1\<rparr>"] m1(2) by auto
  have keep: "m2 x = mm_mem h x" if x: "user_byte a nl (xs @ (t, False) # ys) x" for x
  proof -
    have "user_byte a nl ((xs @ rest d) @ (t - d, False) # ys) x"
      using x r(2) by (auto simp: user_byte_used rest_def add.assoc)
    from user_byte_shrunk_keep [OF this, of "sz + 8"] r(2) show ?thesis
      using m2(3) m1(3) [OF x] by simp
  qed
  have "W sz < W al1" using m1(4,5) by (simp add: W_less_iff)
  with m1(1) m2(1) have run: "next_run (if W (A + 8 + ?g) \<noteq> W (A + 8)
                 then memalign_lead (W al) (W (A + 8)) (W (A + 8 + ?g)) (W A) h
                 else return_run (W (A + 8 + ?g), W A, allocsize, h))
         (\<lambda>(alignedchunk, node, allocsize, h).
            next_run (if allocsize > W sz then mm_shrinkchunk node (W sz + SIZEOF_MM_ALLOCNODE) h else return_run h) (f alignedchunk))
       = f (W (A + 8 + d)) (h\<lparr>mm_mem := m2\<rparr>)"
    by (simp add: SIZEOF_MM_ALLOCNODE_def del: if_not_P if_P)
  show thesis
    by (rule that [OF run]) (use m2(2) keep in simp_all)
qed

lemma mm_memalign_ok:
  fixes n :: nat
  assumes "heap_ok a nl cs {} fl h" and "sem_ok pid h" and "8 dvd a" and "granular 8 cs"
    and "al = 2 ^ k" and "32 \<le> al" and "0 < n"
  defines "sz \<equiv> (n + 15) div 16 * 16"
  defines "r \<equiv> chunk_for (sz + 2 * al)"
  assumes "sz + 2 * al + 23 < 4294967296"
  obtains
    (none) "\<forall>t. (t, False) \<in> set cs \<longrightarrow> t < r" and "mm_memalign pid (W al) (W n) h = return_run (0, h)"
  | (fit) xs s ys d t ts m' fl' where "best_fit r cs xs s ys" and "carve r s = (t, True) # ts"
      and "al dvd a + extent xs + 8 + d" and "d + sz + 16 \<le> t"
      and "mm_memalign pid (W al) (W n) h = return_run (W (a + extent xs + 8 + d), h\<lparr>mm_mem := m'\<rparr>)"
      and "heap_ok a nl (xs @ rest d @ shrunk (sz + 8) (t - d) (ts @ ys)) {} fl' (h\<lparr>mm_mem := m'\<rparr>)"
      and "\<And>x. user_byte a nl cs x \<Longrightarrow> m' x = mm_mem h x"
proof -
  have k: "k < 32" using power_less_imp_less_exp [of "2 :: nat" k 32] assms(5,10) by simp
  have al: "8 dvd al" "16 dvd al" 
    using assms(5,6) power_le_imp_le_exp [of "2 :: nat" 5 k] le_imp_power_dvd [of 3 k "2 :: nat"] le_imp_power_dvd [of 4 k "2 :: nat"]
    by auto
  have sz: "MM_ALIGN_UP (W n) = W sz" "n \<le> sz" "16 \<le> sz" "16 dvd sz"
    using assms(7,10) MM_ALIGN_UP_W [of n] by (auto simp: sz_def)
  have "16 dvd sz + 2 * al" using sz(4) al(2) by simp
  then have r: "r = sz + 2 * al + 16" unfolding r_def chunk_for_def by (auto elim!: dvdE)
  have nal: "\<not> W al \<le> MM_MIN_CHUNK" using assms(6,10) by (simp add: mm_consts word_le_nat_alt)
  have two: "W sz + 2 * W al = W (sz + 2 * al)" by (simp add: W_def)
  have pos: "0 < sz + 2 * al" using assms(6) by simp
  show thesis
    using assms(1,2) pos assms(10)
  proof (cases rule: mm_malloc_cases)
    case none
    with that(1) show ?thesis
      using nal two sz(1) by (simp add: mm_memalign_def Let_def r_def)
  next
    case (fit xs s ys m1 fl1)
    let ?A = "a + extent xs"
    have "r \<le> s" and cs: "cs = xs @ (s, False) # ys" using fit(1) by (auto simp: best_fit_def r_def)
    then obtain t ts where t: "carve r s = (t, True) # ts" "r \<le> t" "t \<le> s" "t + extent ts = s" "\<And>b x. \<not> used_byte b ts x"
      using carve_first by metis
    have ok1: "heap_ok a nl (xs @ (t, True) # ts @ ys) {} fl1 (h\<lparr>mm_mem := m1\<rparr>)"
      using fit(3) t(1) by (simp add: r_def)
    have A: "8 dvd ?A" using assms(3,4) granular_extent [of xs] by (simp add: cs)
    have rng: "?A + t < 4294967296" using heap_okD(2) [OF ok1] by (auto simp: placed_def)
    let ?d = "lead_size al (?A + 8)"
    let ?h = "h\<lparr>mm_mem := m1\<rparr>"
    have "sem_ok pid ?h" using assms(2) by simp
    then obtain h1 where "mm_takesemaphore pid ?h = return_run h1" "mm_mem h1 = mm_mem ?h"
        "\<And>a nl cs D fl. heap_ok a nl cs D fl h1 = heap_ok a nl cs D fl ?h"
        "\<And>m. mm_givesemaphore pid (h1\<lparr>mm_mem := m\<rparr>) = return_run (?h\<lparr>mm_mem := m\<rparr>)"
        "\<And>a nl cs D fl m. heap_ok a nl cs D fl (h1\<lparr>mm_mem := m\<rparr>) = heap_ok a nl cs D fl (?h\<lparr>mm_mem := m\<rparr>)"
      by (rule sem_balanced) metis
    note h1 = this [simplified]
    have ok2: "heap_ok a nl (xs @ (t, True) # ts @ ys) {} fl1 h1" using ok1 h1(3) by simp
    obtain m2 fl2 where m2:
      "next_run (if W (?A + 8 + align_gap al (?A + 8)) \<noteq> W (?A + 8)
                 then memalign_lead (W al) (W (?A + 8)) (W (?A + 8 + align_gap al (?A + 8))) (W ?A) h1
                 else return_run (W (?A + 8 + align_gap al (?A + 8)), W ?A, W (sz + 2 * al), h1))
         (\<lambda>(alignedchunk, node, allocsize, h).
            next_run (if allocsize > W sz then mm_shrinkchunk node (W sz + SIZEOF_MM_ALLOCNODE) h else return_run h)
              (\<lambda>h. next_run (mm_givesemaphore pid h) (\<lambda>h. return_run (alignedchunk, h))))
       = next_run (mm_givesemaphore pid (h1\<lparr>mm_mem := m2\<rparr>)) (\<lambda>h. return_run (W (?A + 8 + ?d), h))"
      "heap_ok a nl (xs @ rest ?d @ shrunk (sz + 8) (t - ?d) (ts @ ys)) {} fl2 (h1\<lparr>mm_mem := m2\<rparr>)"
      "\<And>x. user_byte a nl (xs @ (t, False) # ts @ ys) x \<Longrightarrow> m2 x = mm_mem h1 x"
      by (rule memalign_trim_ok [OF ok2 refl assms(6) al(1) A refl sz(3) t(2) [unfolded r] refl,
          where f = "\<lambda>alignedchunk h. next_run (mm_givesemaphore pid h) (\<lambda>h. return_run (alignedchunk, h))"])
        (rule that)
    have node: "W (?A + 8) - SIZEOF_MM_ALLOCNODE = W ?A" "W (?A + 8) \<noteq> 0"
      using W_diff [of 8 "?A + 8"] rng r t(2) by (simp_all add: SIZEOF_MM_ALLOCNODE_def W_numeral W_eq_0_iff)
    have "?A + 8 + 2 ^ k - 1 < 4294967296" using rng r t(2) assms(5) by simp
    note aligned = align_word [OF this k, folded assms(5)]
    have run: "mm_memalign pid (W al) (W n) h = return_run (W (?A + 8 + ?d), h\<lparr>mm_mem := m2\<rparr>)"
      using nal two sz(1) fit(2) node h1(1,4) m2(1)
      by (simp add: mm_memalign_def Let_def r_def aligned del: W_add_numeral split del: if_split cong del: if_weak_cong)
    have l: "al dvd ?A + 8 + ?d" "?d \<le> al + 8"
      using lead_size_props(1,3) [OF assms(6) al(1), of "?A + 8"] A by simp_all
    have "m2 x = mm_mem h x" if x: "user_byte a nl cs x" for x
    proof -
      have "user_byte a nl (xs @ (t, False) # ts @ ys) x"
        using x unfolding cs t(4) [symmetric] by (auto simp: user_byte_used add.assoc)
      with m2(3) fit(4) [OF x] h1(2) show ?thesis by simp
    qed
    with fit(1) t(1) l run m2(2) h1(5) show ?thesis
      using that(2) [of xs s ys t ts ?d m2 fl2] t(2) sz(2) assms(6) r by (simp add: r_def [symmetric])
  qed
qed

end
