(* ===== verification/Mm_Realloc.thy ===== *)
theory Mm_Realloc
  imports Mm_Resize
begin

text \<open>
  \<open>mm_realloc\<close>: extension into the previous and the next free chunk, with the contents moved down, and the
  fall-back to a new chunk. The sizes are multiples of 16, as \<open>mm_malloc\<close> makes them; with a free
  neighbour of another size the code can leave a free chunk too small for its links.
\<close>

section \<open>Writing user bytes\<close>

lemma heap_ok_user_write:
  assumes "heap_ok a nl cs D fl h" and "\<And>x. \<not> user_byte a nl cs x \<Longrightarrow> m' x = mm_mem h x"
  shows "heap_ok a nl cs D fl (h\<lparr>mm_mem := m'\<rparr>)"
proof -
  note k = heap_okD [OF assms(1)]
  have "layout m' a 0 cs = layout (mm_mem h) a 0 cs"
  proof (rule layout_cong)
    show "m' x = mm_mem h x" if "(A, s, u) \<in> set (blocks a cs)" "A \<le> unat x" "unat x < A + 8" for A s u x
      using user_byte_not_header [OF k(1) that(1)] that(2,3) by (intro assms(2)) blast
  qed (use guarded_ge_8 [OF k(1)] k(2) in \<open>auto simp: placed_def\<close>)
  moreover have "flist m' nl fl"
  proof (rule flist_cong [OF k(5)])
    fix B x assume B: "B \<in> set (nodes nl 0 fl)" and x: "(B \<le> unat x \<and> unat x < B + 4) \<or> link_byte B x"
    have "\<not> user_byte a nl cs x"
      using assms(1) B
    proof (cases rule: heap_ok_nodes)
      case head
      then have "nl \<le> unat x" "unat x < nl + 304" using x by (auto simp: link_byte_def)
      with k(2) show ?thesis
        by (auto simp: user_byte_def placed_def dest!: blocks_range)
    next
      case (entry s)
      then have "B \<le> unat x \<and> unat x < B + s" using x by (auto simp: link_byte_def)
      with user_byte_not_free [OF k(1) entry(1)] show ?thesis by blast
    qed
    then show "m' x = mm_mem h x" by (rule assms(2))
  qed
  ultimately show ?thesis
    using assms(1) by (simp add: heap_ok_def)
qed

text \<open>A copy into the payload of a chunk in use.\<close>

lemma heap_ok_memcpy:
  assumes "heap_ok a nl cs D fl h" and "(B, t, True) \<in> set (blocks a cs)" and "n + 8 \<le> t"
  shows "heap_ok a nl cs D fl (h\<lparr>mm_mem := memcpy (W (B + 8)) p n (mm_mem h)\<rparr>)"
    and "unat x < B + 8 \<or> B + t \<le> unat x \<Longrightarrow> memcpy (W (B + 8)) p n (mm_mem h) x = mm_mem h x"
proof -
  note k = heap_okD [OF assms(1)]
  have bnd: "B + 8 + n \<le> 4294967296"
    using blocks_range [OF assms(2)] assms(3) k(2) by (auto simp: placed_def)
  have same: "memcpy (W (B + 8)) p n (mm_mem h) x = mm_mem h x" if "unat x < B + 8 \<or> B + t \<le> unat x" for x
    using that assms(3) bnd by (intro memcpy_apply_other) auto
  then show "unat x < B + 8 \<or> B + t \<le> unat x \<Longrightarrow> memcpy (W (B + 8)) p n (mm_mem h) x = mm_mem h x" .
  show "heap_ok a nl cs D fl (h\<lparr>mm_mem := memcpy (W (B + 8)) p n (mm_mem h)\<rparr>)"
  proof (rule heap_ok_user_write [OF assms(1)])
    show "memcpy (W (B + 8)) p n (mm_mem h) x = mm_mem h x" if "\<not> user_byte a nl cs x" for x
      using that assms(2) unfolding user_byte_def by (intro same) (meson leI)
  qed
qed

section \<open>Extending into the previous chunk\<close>

text \<open>Taking \<open>p\<close> bytes of a free chunk of size \<open>d + p\<close> before the chunk.\<close>

lemma heap_grow_down_part:
  assumes "heap_ok a nl (xs @ (d + p, False) # (s, True) # (t, v) # ys) {(P, d + p)} fl h" and "P = a + extent xs"
    and "16 \<le> d" and "8 \<le> p" and "16 \<le> s" and "xs \<noteq> []"
  defines "m' \<equiv> store (W (P + d + p + s + 4)) (pre (s + p) v) (store (W (P + d + 4)) (pre d True)
      (store (W (P + d)) (W (s + p)) (store (W P) (W d) (mm_mem h))))"
  shows "heap_ok a nl (xs @ (d, False) # (s + p, True) # (t, v) # ys) {(P, d)} fl (h\<lparr>mm_mem := m'\<rparr>)"
    and "user_byte a nl (xs @ (d + p, False) # (s, True) # (t, v) # ys) x \<Longrightarrow> m' x = mm_mem h x"
proof -
  let ?old = "[(d + p, False), (s, True)]" and ?new = "[(d, False), (s + p, True)]"
  note k = heap_okD [OF assms(1)] and e = heap_header [OF assms(1), folded assms(2)]
  have bnd: "P + d + p + s + 8 < 4294967296"
    using k(2) guarded_ge_8 [OF k(1)] assms(2) by (auto simp: placed_def)
  have sec: "section_only (a + extent xs) (a + extent xs + extent ?old) (mm_mem h) m'"
    unfolding m'_def using assms(2-6) bnd by (intro section_only_store) auto
  have lay: "layout m' (a + extent xs) (last (0 # map fst xs)) ?new"
    using e(1,2) assms(2-6) bnd by (simp add: m'_def load_store_other)
  have nxt: "load m' (W (a + extent xs + extent ?old + 4)) = pre (last (0 # map fst ?new)) v"
    using assms(2) by (simp add: m'_def add.assoc)
  from heap_section(1) [OF _ _ assms(6) _ _ _ sec lay nxt] assms(1-5)
  show "heap_ok a nl (xs @ (d, False) # (s + p, True) # (t, v) # ys) {(P, d)} fl (h\<lparr>mm_mem := m'\<rparr>)"
    by simp
  show "m' x = mm_mem h x" if x: "user_byte a nl (xs @ (d + p, False) # (s, True) # (t, v) # ys) x"
  proof -
    have "\<not> (P \<le> unat x \<and> unat x < P + (d + p))"
      using assms(2) by (intro user_byte_not_free [OF k(1) _ x]) (simp add: blocks_append)
    moreover have "\<not> (P + d + p + s \<le> unat x \<and> unat x < P + d + p + s + 8)"
      using assms(2) by (intro user_byte_not_header [OF k(1) _ x, of _ t v]) (simp add: blocks_append add.assoc)
    ultimately show ?thesis
      unfolding m'_def using assms(3,4) bnd by (auto simp: store_apply_other)
  qed
qed

lemma heap_grow_down_whole:
  assumes "heap_ok a nl (xs @ (q, False) # (s, True) # (t, v) # ys) {(P, q)} fl h" and "P = a + extent xs"
    and "16 \<le> q" and "16 \<le> s" and "xs \<noteq> []"
  defines "m' \<equiv> store (W (P + q + s + 4)) (pre (q + s) v) (store (W (P + 4)) (pre (last (0 # map fst xs)) True)
      (store (W P) (W (q + s)) (mm_mem h)))"
  shows "heap_ok a nl (xs @ (q + s, True) # (t, v) # ys) {} fl (h\<lparr>mm_mem := m'\<rparr>)"
    and "user_byte a nl (xs @ (q, False) # (s, True) # (t, v) # ys) x \<Longrightarrow> m' x = mm_mem h x"
proof -
  let ?old = "[(q, False), (s, True)]" and ?new = "[(q + s, True)]"
  note k = heap_okD [OF assms(1)] and e = heap_header [OF assms(1), folded assms(2)]
  have bnd: "P + q + s + 8 < 4294967296"
    using k(2) guarded_ge_8 [OF k(1)] assms(2) by (auto simp: placed_def)
  have sec: "section_only (a + extent xs) (a + extent xs + extent ?old) (mm_mem h) m'"
    unfolding m'_def using assms(2-5) bnd by (intro section_only_store) auto
  have lay: "layout m' (a + extent xs) (last (0 # map fst xs)) ?new"
    using e(1,2) assms(2-5) bnd by (simp add: m'_def load_store_other)
  have nxt: "load m' (W (a + extent xs + extent ?old + 4)) = pre (last (0 # map fst ?new)) v"
    using assms(2) by (simp add: m'_def add.assoc)
  from heap_section(1) [OF _ _ assms(5) _ _ _ sec lay nxt] assms(1-4)
  show "heap_ok a nl (xs @ (q + s, True) # (t, v) # ys) {} fl (h\<lparr>mm_mem := m'\<rparr>)"
    by simp
  show "m' x = mm_mem h x" if x: "user_byte a nl (xs @ (q, False) # (s, True) # (t, v) # ys) x"
  proof -
    have "\<not> (P \<le> unat x \<and> unat x < P + q)"
      using assms(2) by (intro user_byte_not_free [OF k(1) _ x]) (simp add: blocks_append)
    moreover have "\<not> (P + q + s \<le> unat x \<and> unat x < P + q + s + 8)"
      using assms(2) by (intro user_byte_not_header [OF k(1) _ x, of _ t v]) (simp add: blocks_append add.assoc)
    ultimately show ?thesis
      unfolding m'_def using assms(3) bnd by (auto simp: store_apply_other)
  qed
qed

text \<open>Moving the contents down by \<open>p\<close> bytes; the copy reads \<open>p\<close> bytes past the old contents.\<close>

lemma heap_move_down:
  assumes "heap_ok a nl cs {} fl h" and "(N, s + p, True) \<in> set (blocks a cs)" and "16 \<le> s"
  defines "m' \<equiv> memcpy (W (N + 8)) (W (N + p + 8)) (s + p - 8) (mm_mem h)"
  shows "heap_ok a nl cs {} fl (h\<lparr>mm_mem := m'\<rparr>)"
    and "i < s - 8 \<Longrightarrow> m' (W (N + 8 + i)) = mm_mem h (W (N + p + 8 + i))"
    and "unat x < N + 8 \<or> N + s + p \<le> unat x \<Longrightarrow> m' x = mm_mem h x"
proof -
  have bnd: "N + s + p < 4294967296"
    using blocks_range [OF assms(2)] heap_okD(2) [OF assms(1)] by (auto simp: placed_def)
  note cp = heap_ok_memcpy [OF assms(1,2), where n = "s + p - 8" and p = "W (N + p + 8)"]
  from cp(1) assms(3) show "heap_ok a nl cs {} fl (h\<lparr>mm_mem := m'\<rparr>)"
    unfolding m'_def by simp
  show "m' (W (N + 8 + i)) = mm_mem h (W (N + p + 8 + i))" if "i < s - 8" for i
    unfolding m'_def using that bnd by (intro memcpy_apply) auto
  show "m' x = mm_mem h x" if "unat x < N + 8 \<or> N + s + p \<le> unat x" for x
    unfolding m'_def using cp(2) that assms(3) by (simp add: add.assoc)
qed

text \<open>Everything up to the move: the chunk has grown down to \<open>N = P + d\<close>, the contents are still in the old place.\<close>

lemma realloc_prev_headers:
  assumes "heap_ok a nl (xs @ (d + p, False) # (s, True) # (t, v) # ys) {} fl h" and "P = a + extent xs"
    and "d = 0 \<or> 16 \<le> d" and "8 \<le> p" and "16 \<le> s"
  obtains m' fl' where
      "realloc_prev oldmem (W (P + d + p)) (W s) (W P) (W (d + p)) (W (P + d + p + s)) (W p) h
        = return_run (W (P + d), W (s + p), W (P + d + 8),
            h\<lparr>mm_mem := memcpy (W (P + d + 8)) oldmem (s + p - 8) m'\<rparr>)"
    and "heap_ok a nl (xs @ rest d @ (s + p, True) # (t, v) # ys) {} fl' (h\<lparr>mm_mem := m'\<rparr>)"
    and "\<And>x. user_byte a nl (xs @ (d + p, False) # (s, True) # (t, v) # ys) x \<Longrightarrow> m' x = mm_mem h x"
proof -
  let ?cs = "xs @ (d + p, False) # (s, True) # (t, v) # ys"
  note k = heap_okD [OF assms(1)]
  have xs: "xs \<noteq> []" and q: "16 \<le> d + p" using guarded_mid [OF k(1)] by simp_all
  obtain m1 where m1: "mm_unlink (W P) h = return_run (h\<lparr>mm_mem := m1\<rparr>)"
      "heap_ok a nl ?cs {(P, d + p)} (drop_entry P fl) (h\<lparr>mm_mem := m1\<rparr>)"
      "\<And>x. user_byte a nl ?cs x \<Longrightarrow> m1 x = mm_mem h x"
    by (rule heap_unlink [OF assms(1), of P "d + p"]) (simp_all add: free_chunks_append assms(2))
  note e = heap_header [OF m1(2), folded assms(2)]
  have e2: "load m1 (W (P + d + p + s + 4)) = pre s v" and bnd: "P + d + p + s + 8 < 4294967296" and sp: "s + p < 2147483648"
    using heap_okD(2,4) [OF m1(2)] guarded_ge_8 [OF heap_okD(1) [OF m1(2)]] assms(2)
    by (auto simp: layout_append placed_def add.assoc)
  have nz: "W p \<noteq> 0" and nn: "W (P + d + p) - W p = W (P + d)" and n8: "unat (W (s + p) - 8) = s + p - 8"
    using assms(4,5) sp W_diff [of p "P + d + p"] W_diff [of 8 "s + p"] by (simp_all add: W_eq_0_iff W_numeral)
  have flag: "pre s v AND MM_ALLOC_BIT = (if v then MM_ALLOC_BIT else 0)"
    by (rule pre_simps(1)) (use sp in simp)
  show thesis
  proof (cases "d = 0")
    case True
    note gr = heap_grow_down_whole [OF m1(2) [unfolded True, simplified] assms(2) _ assms(5) xs]
    let ?m2 = "store (W (P + p + s + 4)) (pre (p + s) v) (store (W (P + 4)) (pre (last (0 # map fst xs)) True)
      (store (W P) (W (p + s)) m1))"
    have "realloc_prev oldmem (W (P + d + p)) (W s) (W P) (W (d + p)) (W (P + d + p + s)) (W p) h
        = return_run (W (P + d), W (s + p), W (P + d + 8), h\<lparr>mm_mem := memcpy (W (P + d + 8)) oldmem (s + p - 8) ?m2\<rparr>)"
      using True m1(1) nz nn n8 e e2 bnd flag assms(4,5)
      by (simp add: realloc_prev_def Let_def node_defs SIZEOF_MM_ALLOCNODE_def load_store_other or_flag add.commute [of s p])
    with gr q True m1(3) show ?thesis
      by (intro that [of ?m2]) (auto simp: rest_def add.commute [of s p])
  next
    case False
    then have d: "16 \<le> d" using assms(3) by simp
    note gr = heap_grow_down_part [OF m1(2) assms(2) d assms(4,5) xs]
    let ?m2 = "store (W (P + d + p + s + 4)) (pre (s + p) v) (store (W (P + d + 4)) (pre d True)
      (store (W (P + d)) (W (s + p)) (store (W P) (W d) m1)))"
    obtain m3 where m3: "mm_addfreechunk (W P) (h\<lparr>mm_mem := ?m2\<rparr>) = return_run (h\<lparr>mm_mem := m3\<rparr>)"
        "heap_ok a nl (xs @ (d, False) # (s + p, True) # (t, v) # ys) {} (add_entry (P, d) (drop_entry P fl)) (h\<lparr>mm_mem := m3\<rparr>)"
        "\<And>x. user_byte a nl (xs @ (d, False) # (s + p, True) # (t, v) # ys) x \<Longrightarrow> m3 x = ?m2 x"
      using heap_add [OF gr(1), of P d] by (auto simp: free_chunks_append assms(2))
    have size: "load m3 (W (P + d)) = W (s + p)"
      using heap_okD(4) [OF m3(2)] assms(2) by (simp add: layout_append)
    have "W p < W (d + p)" and "W (d + p) - W p = W d"
      using d e(6) W_diff [of p "d + p"] by (simp_all add: W_less_iff)
    then have "realloc_prev oldmem (W (P + d + p)) (W s) (W P) (W (d + p)) (W (P + d + p + s)) (W p) h
        = return_run (W (P + d), W (s + p), W (P + d + 8), h\<lparr>mm_mem := memcpy (W (P + d + 8)) oldmem (s + p - 8) m3\<rparr>)"
      using m1(1) nz nn n8 e(1) e2 bnd flag d assms(4,5) m3(1) size
      by (simp add: realloc_prev_def Let_def node_defs SIZEOF_MM_ALLOCNODE_def load_store_other or_flag pre_def)
    moreover have "m3 x = mm_mem h x" if x: "user_byte a nl ?cs x" for x
    proof -
      have "user_byte a nl (xs @ (d, False) # (s + p, True) # (t, v) # ys) x"
        using user_byte_section [of a nl xs "[(d + p, False), (s, True)]" "(t, v) # ys" x "[(d, False), (s + p, True)]"] x
        by auto
      with m3(3) gr(2) [OF x] m1(3) [OF x] show ?thesis by simp
    qed
    ultimately show ?thesis
      using that m3(2) False by (simp add: rest_def)
  qed
qed

section \<open>Extending into the next chunk\<close>

lemma heap_grow_up:
  assumes "heap_ok a nl (xs @ (s, True) # (p + d, False) # (w, v) # ys) {(A + s, p + d)} fl h" and "A = a + extent xs"
    and "d = 0 \<or> 16 \<le> d" and "16 \<le> s" and "xs \<noteq> []" and "8 \<le> p"
  defines "m' \<equiv> store (W (A + s + p + d + 4)) (pre (if d = 0 then s + p else d) v)
      (let m = store (W A) (W (s + p)) (mm_mem h) in
       if d = 0 then m else store (W (A + s + p + 4)) (W (s + p)) (store (W (A + s + p)) (W d) m))"
  shows "heap_ok a nl (xs @ (s + p, True) # rest d @ (w, v) # ys) (free_chunks (A + s + p) (rest d)) fl (h\<lparr>mm_mem := m'\<rparr>)"
    and "user_byte a nl (xs @ (s, True) # (p + d, False) # (w, v) # ys) x \<Longrightarrow> m' x = mm_mem h x"
proof -
  let ?old = "[(s, True), (p + d, False)]" and ?new = "(s + p, True) # rest d"
  note k = heap_okD [OF assms(1)] and e = heap_header [OF assms(1), folded assms(2)]
  have bnd: "A + s + p + d + 8 < 4294967296"
    using k(2) guarded_ge_8 [OF k(1)] assms(2) by (auto simp: placed_def)
  have sec: "section_only (a + extent xs) (a + extent xs + extent ?old) (mm_mem h) m'"
    unfolding m'_def using assms(2-6) bnd by (cases "d = 0") (auto intro!: section_only_store simp: Let_def)
  have lay: "layout m' (a + extent xs) (last (0 # map fst xs)) ?new"
    using e(1,2) assms(2-6) bnd
    by (cases "d = 0") (simp_all add: m'_def rest_def load_store_other Let_def pre_def add.assoc)
  have nxt: "load m' (W (a + extent xs + extent ?old + 4)) = pre (last (0 # map fst ?new)) v"
    using assms(2) by (simp add: m'_def rest_def add.assoc)
  from heap_section(1) [OF _ _ assms(5) _ _ _ sec lay nxt] assms(1-6)
  show "heap_ok a nl (xs @ (s + p, True) # rest d @ (w, v) # ys) (free_chunks (A + s + p) (rest d)) fl (h\<lparr>mm_mem := m'\<rparr>)"
    by (auto simp: rest_def add.assoc)
  show "m' x = mm_mem h x" if x: "user_byte a nl (xs @ (s, True) # (p + d, False) # (w, v) # ys) x"
  proof -
    have "\<not> (A + s \<le> unat x \<and> unat x < A + s + (p + d))"
      using assms(2) by (intro user_byte_not_free [OF k(1) _ x]) (simp add: blocks_append)
    moreover have "\<not> (A + s + p + d \<le> unat x \<and> unat x < A + s + p + d + 8)"
      using assms(2) by (intro user_byte_not_header [OF k(1) _ x, of _ w v]) (simp add: blocks_append add.assoc)
    moreover have "\<not> (A \<le> unat x \<and> unat x < A + 8)"
      using assms(2) by (intro user_byte_not_header [OF k(1) _ x, of _ s True]) (simp add: blocks_append)
    ultimately show ?thesis
      unfolding m'_def using assms(3,4) bnd by (cases "d = 0") (auto simp: store_apply_other Let_def)
  qed
qed

lemma realloc_next_ok:
  assumes "heap_ok a nl (xs @ (s, True) # (p + d, False) # ys) {} fl h" and "A = a + extent xs"
    and "d = 0 \<or> 16 \<le> d" and "8 \<le> p" and "16 \<le> s"
  obtains m' fl' where
      "realloc_next (W A) (W s) (W (A + s)) (W (p + d)) (W p) h = return_run (h\<lparr>mm_mem := m'\<rparr>)"
    and "heap_ok a nl (xs @ (s + p, True) # rest d @ ys) {} fl' (h\<lparr>mm_mem := m'\<rparr>)"
    and "\<And>x. user_byte a nl (xs @ (s, True) # (p + d, False) # ys) x \<Longrightarrow> m' x = mm_mem h x"
proof -
  note k = heap_okD [OF assms(1)]
  have xs: "xs \<noteq> []" using guarded_mid(1) [OF k(1)] assms(5) by auto
  have grd: "guarded ((xs @ [(s, True)]) @ (p + d, False) # ys)" using k(1) by simp
  obtain w v zs where ys: "ys = (w, v) # zs" using guarded_mid(2) [OF grd] by (cases ys) auto
  let ?cs = "xs @ (s, True) # (p + d, False) # (w, v) # zs"
  obtain m1 where m1: "mm_unlink (W (A + s)) h = return_run (h\<lparr>mm_mem := m1\<rparr>)"
      "heap_ok a nl ?cs {(A + s, p + d)} (drop_entry (A + s) fl) (h\<lparr>mm_mem := m1\<rparr>)"
      "\<And>x. user_byte a nl ?cs x \<Longrightarrow> m1 x = mm_mem h x"
    by (rule heap_unlink [OF assms(1), of "A + s" "p + d"]) (simp_all add: free_chunks_append assms(2) ys add.assoc)
  note gr = heap_grow_up [OF m1(2) assms(2,3,5) xs assms(4)]
  let ?m2 = "store (W (A + s + p + d + 4)) (pre (if d = 0 then s + p else d) v)
      (let m = store (W A) (W (s + p)) m1 in
       if d = 0 then m else store (W (A + s + p + 4)) (W (s + p)) (store (W (A + s + p)) (W d) m))"
  have e2: "load m1 (W (A + s + p + d + 4)) = pre (p + d) v" and bnd: "A + s + p + d + 8 < 4294967296" and pd: "p + d < 2147483648"
    using heap_okD(2,4) [OF m1(2)] guarded_ge_8 [OF heap_okD(1) [OF m1(2)]] assms(2)
    by (auto simp: layout_append placed_def add.assoc)
  have flag: "pre (p + d) v AND MM_ALLOC_BIT = (if v then MM_ALLOC_BIT else 0)"
    by (rule pre_simps(1)) (use pd in simp)
  have nz: "W p \<noteq> 0" and dd: "W (p + d) - W p = W d" and lt: "W p < W (p + d) \<longleftrightarrow> d \<noteq> 0"
    using assms(4) pd W_diff [of p "p + d"] by (simp_all add: W_eq_0_iff W_less_iff)
  have cov: "user_byte a nl (xs @ (s + p, True) # rest d @ (w, v) # zs) x" if "user_byte a nl ?cs x" for x
    using user_byte_section [of a nl xs "[(s, True), (p + d, False)]" "(w, v) # zs" x "(s + p, True) # rest d"] that
    by (auto simp: rest_def)
  show thesis
  proof (cases "d = 0")
    case True
    have "realloc_next (W A) (W s) (W (A + s)) (W (p + d)) (W p) h = return_run (h\<lparr>mm_mem := ?m2\<rparr>)"
      using True m1(1) nz lt e2 bnd flag assms(4,5)
      by (simp add: realloc_next_def Let_def node_defs load_store_other or_flag add.assoc)
    with gr True m1(3) show ?thesis
      by (intro that [of ?m2]) (auto simp: ys rest_def)
  next
    case False
    then have d: "16 \<le> d" using assms(3) by simp
    have fc: "(A + s + p, d) \<in> free_chunks a (xs @ (s + p, True) # rest d @ (w, v) # zs)"
        "(A + s + p, d) \<in> free_chunks (A + s + p) (rest d)" "free_chunks (A + s + p) (rest d) - {(A + s + p, d)} = {}"
      using False assms(2) by (auto simp: free_chunks_append rest_def add.assoc)
    obtain m3 where m3: "mm_addfreechunk (W (A + s + p)) (h\<lparr>mm_mem := ?m2\<rparr>) = return_run (h\<lparr>mm_mem := m3\<rparr>)"
        "heap_ok a nl (xs @ (s + p, True) # rest d @ (w, v) # zs) {} (add_entry (A + s + p, d) (drop_entry (A + s) fl)) (h\<lparr>mm_mem := m3\<rparr>)"
        "\<And>x. user_byte a nl (xs @ (s + p, True) # rest d @ (w, v) # zs) x \<Longrightarrow> m3 x = ?m2 x"
      using heap_add [OF gr(1) fc(1,2)] unfolding fc(3) by auto
    have "realloc_next (W A) (W s) (W (A + s)) (W (p + d)) (W p) h = mm_addfreechunk (W (A + s + p)) (h\<lparr>mm_mem := ?m2\<rparr>)"
      using False d m1(1) nz lt dd e2 bnd flag assms(4,5)
      by (simp add: realloc_next_def Let_def node_defs load_store_other or_flag add.assoc)
    moreover have "m3 x = mm_mem h x" if "user_byte a nl ?cs x" for x
      using m3(3) [OF cov [OF that]] gr(2) [OF that] m1(3) [OF that] by simp
    ultimately show ?thesis
      using that m3(1,2) by (simp add: ys)
  qed
qed

section \<open>The plan\<close>

lemma realloc_plan_ok:
  assumes "0 < n" and "n \<le> q + t" and "q + t < 2147483648"
  obtains p1 p2 where "realloc_plan (W n) (W q) (W t) = (W p1, W p2)" and "p1 + p2 = n" and "p1 \<le> q" and "p2 \<le> t"
    and "16 dvd n \<and> 16 dvd q \<and> 16 dvd t \<longrightarrow> 16 dvd p1 \<and> 16 dvd p2"
proof -
  have cmp: "W x < W y \<longleftrightarrow> x < y" "W x \<le> W y \<longleftrightarrow> x \<le> y" "0 < W x \<longleftrightarrow> 0 < x" "W x < 1 \<longleftrightarrow> x = 0" "W x = 0 \<longleftrightarrow> x = 0"
    if "x < 4294967296" "y < 4294967296" for x y
    using that by (auto simp: word_less_nat_alt word_le_nat_alt W_eq_0_iff)
  note cs = cmp [of n q] cmp [of n t] cmp [of q t] cmp [of q n] cmp [of t n] cmp [of t q]
  consider (down_all) "0 < q" "q \<le> t \<or> t = 0" "q < n" | (down) "0 < q" "q \<le> t \<or> t = 0" "n \<le> q"
    | (up_all) "q = 0 \<or> t < q \<and> 0 < t" "t < n" | (up) "q = 0 \<or> t < q \<and> 0 < t" "n \<le> t"
    using assms(1,2) by linarith
  then show thesis
  proof cases
    case down_all
    with assms cs have "realloc_plan (W n) (W q) (W t) = (W q, W (n - q))"
      by (auto simp: realloc_plan_def W_diff)
    then show ?thesis by (rule that) (use down_all assms in auto)
  next
    case down
    with assms cs have "realloc_plan (W n) (W q) (W t) = (W n, W 0)"
      by (auto simp: realloc_plan_def)
    then show ?thesis by (rule that) (use down in auto)
  next
    case up_all
    with assms cs have "realloc_plan (W n) (W q) (W t) = (W (n - t), W t)"
      by (auto simp: realloc_plan_def W_diff)
    then show ?thesis by (rule that) (use up_all assms in auto)
  next
    case up
    with assms(1) have "0 < t" and "\<not> t < n" and "q = 0 \<or> \<not> q \<le> t \<and> \<not> q < n" by auto
    with assms(1) cs assms(3) have "realloc_plan (W n) (W q) (W t) = (W 0, W n)"
      by (elim disjE) (simp_all add: realloc_plan_def)
    then show ?thesis by (rule that) (use up in auto)
  qed
qed

definition left_of :: "chunk list \<Rightarrow> nat \<Rightarrow> chunk list" where
  "left_of xs p = (if p = 0 then xs else butlast xs @ rest (fst (last xs) - p))"

definition right_of :: "chunk list \<Rightarrow> nat \<Rightarrow> chunk list" where
  "right_of ys p = (if p = 0 then ys else rest (fst (hd ys) - p) @ tl ys)"

text \<open>The free space before and after a chunk.\<close>

definition spare :: "chunk \<Rightarrow> nat" where
  "spare c = (if snd c then 0 else fst c)"

lemma realloc_prev_ok:
  assumes "heap_ok a nl (xs @ (s, True) # ys) {} fl h" and "A = a + extent xs" and "16 \<le> s"
    and "p \<le> spare (last xs)" and "16 dvd p" and "16 dvd spare (last xs)"
  obtains m' fl' where
      "realloc_prev (W (A + 8)) (W A) (W s) (W (A - fst (last xs))) (W (spare (last xs))) (W (A + s)) (W p) h
        = return_run (W (A - p), W (s + p), W (A - p + 8), h\<lparr>mm_mem := m'\<rparr>)"
    and "heap_ok a nl (left_of xs p @ (s + p, True) # ys) {} fl' (h\<lparr>mm_mem := m'\<rparr>)"
    and "a + extent (left_of xs p) = A - p"
    and "\<And>i. i < s - 8 \<Longrightarrow> m' (W (A - p + 8 + i)) = mm_mem h (W (A + 8 + i))"
    and "\<And>x. user_byte a nl (xs @ (s, False) # ys) x \<Longrightarrow> m' x = mm_mem h x"
proof (cases "p = 0")
  case True
  with assms show thesis
    by (intro that [of "mm_mem h" fl]) (auto simp: realloc_prev_def left_of_def)
next
  case False
  note k = heap_okD [OF assms(1)]
  have "xs \<noteq> []" "ys \<noteq> []" using guarded_mid [OF k(1)] assms(3) by auto
  then obtain qs q t v zs where xs: "xs = qs @ [(q, False)]" and ys: "ys = (t, v) # zs"
    using False assms(4) by (cases xs rule: rev_cases; cases ys) (auto simp: spare_def split: if_splits)
  let ?P = "a + extent qs"
  obtain d where q: "q = d + p" using assms(4) xs by (auto simp: spare_def intro: that [of "q - p"])
  have d: "d = 0 \<or> 16 \<le> d"
    using assms(5,6) dvd_imp_le [of 16 d] dvd_add_left_iff [of 16 p d] by (auto simp: xs spare_def q)
  have p: "8 \<le> p" using assms(5) False dvd_imp_le [of 16 p] by auto
  have A: "A = ?P + d + p" using assms(2) by (simp add: xs q add.assoc)
  have ok: "heap_ok a nl (qs @ (d + p, False) # (s, True) # (t, v) # zs) {} fl h"
    using assms(1) by (simp add: xs ys q)
  obtain m1 fl' where m1: "realloc_prev (W (A + 8)) (W (?P + d + p)) (W s) (W ?P) (W (d + p)) (W (?P + d + p + s)) (W p) h
        = return_run (W (?P + d), W (s + p), W (?P + d + 8), h\<lparr>mm_mem := memcpy (W (?P + d + 8)) (W (A + 8)) (s + p - 8) m1\<rparr>)"
      "heap_ok a nl (qs @ rest d @ (s + p, True) # (t, v) # zs) {} fl' (h\<lparr>mm_mem := m1\<rparr>)"
      "\<And>x. user_byte a nl (qs @ (d + p, False) # (s, True) # (t, v) # zs) x \<Longrightarrow> m1 x = mm_mem h x"
    using realloc_prev_headers [OF ok refl d p assms(3)] by metis
  have blk: "(?P + d, s + p, True) \<in> set (blocks a (qs @ rest d @ (s + p, True) # (t, v) # zs))"
    by (simp add: blocks_append add.assoc)
  note mv = heap_move_down [OF m1(2) blk assms(3)]
  let ?m2 = "memcpy (W (?P + d + 8)) (W (?P + d + p + 8)) (s + p - 8) m1"
  have left: "left_of xs p = qs @ rest d" using False by (simp add: left_of_def xs q)
  have bnd: "A + s < 4294967296"
    using k(2) assms(2) by (simp add: placed_def)
  show thesis
  proof (rule that [of ?m2])
    show "realloc_prev (W (A + 8)) (W A) (W s) (W (A - fst (last xs))) (W (spare (last xs))) (W (A + s)) (W p) h
        = return_run (W (A - p), W (s + p), W (A - p + 8), h\<lparr>mm_mem := ?m2\<rparr>)"
      using m1(1) A by (simp add: xs q spare_def add.assoc)
    show "heap_ok a nl (left_of xs p @ (s + p, True) # ys) {} fl' (h\<lparr>mm_mem := ?m2\<rparr>)"
      using mv(1) by (simp add: left ys)
    show "a + extent (left_of xs p) = A - p" using A left by (simp add: add.assoc)
    show "?m2 (W (A - p + 8 + i)) = mm_mem h (W (A + 8 + i))" if "i < s - 8" for i
    proof -
      have "user_byte a nl (qs @ (d + p, False) # (s, True) # (t, v) # zs) (W (A + 8 + i))"
        using that bnd A by (auto simp: user_byte_used add.assoc)
      with m1(3) mv(2) [OF that] A show ?thesis by (simp add: add.assoc)
    qed
    show "?m2 x = mm_mem h x" if x: "user_byte a nl (xs @ (s, False) # ys) x" for x
    proof -
      have grd: "guarded (xs @ [(s, False)] @ ys)"
        using guarded_replace [of xs "[(s, True)]" ys "[(s, False)]"] k(1) assms(3) xs ys by simp
      have "\<not> (?P \<le> unat x \<and> unat x < ?P + (d + p))" and "\<not> (A \<le> unat x \<and> unat x < A + s)"
        by (rule user_byte_not_free [OF grd]; use x A in \<open>simp add: xs ys q blocks_append add.assoc\<close>)+
      then have "?m2 x = m1 x"
        using A by (intro mv(3) [simplified]) auto
      moreover have "user_byte a nl (qs @ (d + p, False) # (s, True) # (t, v) # zs) x"
        using x by (auto simp: user_byte_used xs ys q)
      ultimately show ?thesis using m1(3) by simp
    qed
  qed
qed

lemma user_byte_left:
  assumes "user_byte a nl (xs @ (s, False) # ys) x" and "xs \<noteq> []" and "p \<le> spare (last xs)"
  shows "user_byte a nl (left_of xs p @ (s + p, True) # ys) x"
proof (cases "p = 0")
  case True
  with assms show ?thesis by (auto simp: user_byte_used left_of_def)
next
  case False
  obtain qs q where xs: "xs = qs @ [(q, False)]" and "p \<le> q"
    using assms(2,3) False by (cases xs rule: rev_cases) (auto simp: spare_def split: if_splits)
  then obtain d where q: "q = d + p" by (auto intro: that [of "q - p"])
  with assms(1) False show ?thesis by (auto simp: user_byte_used left_of_def xs rest_def ac_simps)
qed

lemma realloc_extend_ok:
  assumes "heap_ok a nl (xs @ (s, True) # ys) {} fl h" and "A = a + extent xs" and "16 \<le> s"
    and "p1 \<le> spare (last xs)" and "16 dvd p1" and "16 dvd spare (last xs)"
    and "p2 \<le> spare (hd ys)" and "16 dvd p2" and "16 dvd spare (hd ys)"
  obtains m' fl' where
      "next_run (realloc_prev (W (A + 8)) (W A) (W s) (W (A - fst (last xs))) (W (spare (last xs))) (W (A + s)) (W p1) h)
         (\<lambda>(oldnode, oldsize, newmem, h). next_run (realloc_next oldnode oldsize (W (A + s)) (W (spare (hd ys))) (W p2) h) (f newmem))
       = f (W (A - p1 + 8)) (h\<lparr>mm_mem := m'\<rparr>)"
    and "heap_ok a nl (left_of xs p1 @ (s + p1 + p2, True) # right_of ys p2) {} fl' (h\<lparr>mm_mem := m'\<rparr>)"
    and "a + extent (left_of xs p1) = A - p1"
    and "\<And>i. i < s - 8 \<Longrightarrow> m' (W (A - p1 + 8 + i)) = mm_mem h (W (A + 8 + i))"
    and "\<And>x. user_byte a nl (xs @ (s, False) # ys) x \<Longrightarrow> m' x = mm_mem h x"
proof -
  note k = heap_okD [OF assms(1)]
  have xs: "xs \<noteq> []" and "ys \<noteq> []" using guarded_mid [OF k(1)] assms(3) by auto
  obtain m1 fl1 where m1: "realloc_prev (W (A + 8)) (W A) (W s) (W (A - fst (last xs))) (W (spare (last xs))) (W (A + s)) (W p1) h
        = return_run (W (A - p1), W (s + p1), W (A - p1 + 8), h\<lparr>mm_mem := m1\<rparr>)"
      "heap_ok a nl (left_of xs p1 @ (s + p1, True) # ys) {} fl1 (h\<lparr>mm_mem := m1\<rparr>)"
      "a + extent (left_of xs p1) = A - p1"
      "\<And>i. i < s - 8 \<Longrightarrow> m1 (W (A - p1 + 8 + i)) = mm_mem h (W (A + 8 + i))"
      "\<And>x. user_byte a nl (xs @ (s, False) # ys) x \<Longrightarrow> m1 x = mm_mem h x"
    using realloc_prev_ok [OF assms(1-6)] by metis
  show thesis
  proof (cases "p2 = 0")
    case True
    with m1 show ?thesis
      by (intro that [of m1 fl1]) (simp_all add: realloc_next_def right_of_def)
  next
    case False
    obtain t zs where ys: "ys = (t, False) # zs" and "p2 \<le> t"
      using \<open>ys \<noteq> []\<close> assms(7) False by (cases ys) (auto simp: spare_def split: if_splits)
    then obtain d where t: "t = p2 + d" by (auto intro: that [of "t - p2"])
    have d: "d = 0 \<or> 16 \<le> d"
      using assms(8,9) dvd_imp_le [of 16 d] dvd_add_right_iff [of 16 p2 d] by (auto simp: ys spare_def t)
    have p2: "8 \<le> p2" using assms(8) False dvd_imp_le [of 16 p2] by auto
    have A: "A - p1 = a + extent (left_of xs p1)" "16 \<le> s + p1" using m1(3) assms(3) by simp_all
    have p1: "p1 \<le> A" using assms(2,4) xs by (cases xs rule: rev_cases) (auto simp: spare_def split: if_splits)
    have ok: "heap_ok a nl (left_of xs p1 @ (s + p1, True) # (p2 + d, False) # zs) {} fl1 (h\<lparr>mm_mem := m1\<rparr>)"
      using m1(2) by (simp add: ys t)
    obtain m2 fl2 where m2: "realloc_next (W (A - p1)) (W (s + p1)) (W (A - p1 + (s + p1))) (W (p2 + d)) (W p2) (h\<lparr>mm_mem := m1\<rparr>)
          = return_run (h\<lparr>mm_mem := m2\<rparr>)"
        "heap_ok a nl (left_of xs p1 @ (s + p1 + p2, True) # rest d @ zs) {} fl2 (h\<lparr>mm_mem := m2\<rparr>)"
        "\<And>x. user_byte a nl (left_of xs p1 @ (s + p1, True) # (p2 + d, False) # zs) x \<Longrightarrow> m2 x = m1 x"
      using realloc_next_ok [OF ok A(1) d p2 A(2)] by auto
    have nx: "A - p1 + (s + p1) = A + s" using p1 by simp
    have bnd: "A + s < 4294967296" using k(2) assms(2) by (simp add: placed_def)
    show ?thesis
    proof (rule that [of m2 fl2])
      show "next_run (realloc_prev (W (A + 8)) (W A) (W s) (W (A - fst (last xs))) (W (spare (last xs))) (W (A + s)) (W p1) h)
         (\<lambda>(oldnode, oldsize, newmem, h). next_run (realloc_next oldnode oldsize (W (A + s)) (W (spare (hd ys))) (W p2) h) (f newmem))
       = f (W (A - p1 + 8)) (h\<lparr>mm_mem := m2\<rparr>)"
        using m1(1) m2(1) by (simp add: ys t spare_def nx)
      show "heap_ok a nl (left_of xs p1 @ (s + p1 + p2, True) # right_of ys p2) {} fl2 (h\<lparr>mm_mem := m2\<rparr>)"
        using m2(2) False by (simp add: ys t right_of_def)
      show "m2 (W (A - p1 + 8 + i)) = mm_mem h (W (A + 8 + i))" if "i < s - 8" for i
      proof -
        have "user_byte a nl (left_of xs p1 @ (s + p1, True) # (p2 + d, False) # zs) (W (A - p1 + 8 + i))"
          using that bnd p1 m1(3) by (intro user_byte_payload [where s = "s + p1"]) (auto simp: blocks_append)
        with m2(3) m1(4) [OF that] show ?thesis by simp
      qed
      show "m2 x = mm_mem h x" if x: "user_byte a nl (xs @ (s, False) # ys) x" for x
        using m2(3) [of x] m1(5) [OF x] user_byte_left [OF x xs assms(4)] by (simp add: ys t)
    qed (rule m1(3))
  qed
qed

section \<open>Moving to a new chunk\<close>

lemma extent_carve [simp]: "r \<le> s \<Longrightarrow> extent (carve r s) = s"
  by (simp add: carve_def)

text \<open>A chunk in use stays where it is when another chunk is carved, and the new chunk holds the request.\<close>

lemma best_fit_blocks:
  assumes "best_fit r cs xs2 s2 ys2" and "cs' = xs2 @ carve r s2 @ ys2"
  shows "(A, s, True) \<in> set (blocks a cs) \<Longrightarrow> (A, s, True) \<in> set (blocks a cs')"
    and "\<exists>t. r \<le> t \<and> t \<le> s2 \<and> (a + extent xs2, t, True) \<in> set (blocks a cs')" and "extent cs' = extent cs"
proof -
  have r: "r \<le> s2" and cs: "cs = xs2 @ (s2, False) # ys2"
    using assms(1) by (auto simp: best_fit_def)
  show "(A, s, True) \<in> set (blocks a cs) \<Longrightarrow> (A, s, True) \<in> set (blocks a cs')"
    using r by (auto simp: cs assms(2) blocks_append add.assoc)
  show "\<exists>t. r \<le> t \<and> t \<le> s2 \<and> (a + extent xs2, t, True) \<in> set (blocks a cs')"
    using r by (auto simp: assms(2) carve_def blocks_append)
  show "extent cs' = extent cs" using r by (simp add: cs assms(2))
qed

lemma carve_other_chunk:
  assumes "best_fit r cs xs2 s2 ys2" and "(A, s, True) \<in> set (blocks a cs)" and "\<forall>c \<in> set cs. 0 < fst c"
    and "(a + extent xs2, t, True) \<in> set (blocks a (xs2 @ carve r s2 @ ys2))" and "0 < r"
    and "\<forall>c \<in> set (xs2 @ carve r s2 @ ys2). 0 < fst c"
  shows "A + s \<le> a + extent xs2 \<or> a + extent xs2 + t \<le> A"
proof -
  have "(A, s, True) \<in> set (blocks a (xs2 @ carve r s2 @ ys2))"
    using best_fit_blocks(1) [OF assms(1) refl assms(2)] .
  with blocks_apart [OF this assms(4,6)] consider "A = a + extent xs2" | "A + s \<le> a + extent xs2 \<or> a + extent xs2 + t \<le> A"
    by auto
  then show ?thesis
  proof cases
    case 1
    have "(a + extent xs2, s2, False) \<in> set (blocks a cs)"
      using assms(1) by (simp add: best_fit_def blocks_append)
    with blocks_unique [OF assms(2), of s2 False] assms(3) 1 show ?thesis by simp
  qed
qed

lemma realloc_move_ok:
  assumes "heap_ok a nl cs {} fl h" and "sem_ok pid h" and "(A, s, True) \<in> set (blocks a cs)" and "16 \<le> s"
    and "0 < r" and "r + 23 < 4294967296" and "s < r"
  defines "run \<equiv> next_run (mm_malloc pid (W r) h) (\<lambda>(newmem, h). realloc_copy pid (W (A + 8)) (W s) newmem h)"
  obtains
    (none) "run = return_run (0, h)" and "\<forall>t. (t, False) \<in> set cs \<longrightarrow> t < chunk_for r"
  | (moved) xs s2 ys xs3 ys3 m' fl' where "best_fit (chunk_for r) cs xs s2 ys"
      and "xs @ carve (chunk_for r) s2 @ ys = xs3 @ (s, True) # ys3" and "A = a + extent xs3"
      and "run = return_run (W (a + extent xs + 8), h\<lparr>mm_mem := m'\<rparr>)"
      and "heap_ok a nl (coalesce xs3 s ys3) {} fl' (h\<lparr>mm_mem := m'\<rparr>)"
      and "\<And>i. i < s - 8 \<Longrightarrow> m' (W (a + extent xs + 8 + i)) = mm_mem h (W (A + 8 + i))"
      and "\<And>x. user_byte a nl cs x \<Longrightarrow> \<not> (A \<le> unat x \<and> unat x < A + s) \<Longrightarrow> m' x = mm_mem h x"
  using assms(1,2,5,6)
proof (cases rule: mm_malloc_cases)
  case none
  with that(1) show ?thesis by (simp add: run_def realloc_copy_def)
next
  case (fit xs s2 ys m1 fl1)
  let ?r = "chunk_for r" and ?B = "a + extent xs"
  let ?cs1 = "xs @ carve ?r s2 @ ys"
  note k = heap_okD [OF assms(1)] and k1 = heap_okD [OF fit(3)]
  have A1: "(A, s, True) \<in> set (blocks a ?cs1)" and ext: "extent ?cs1 = extent cs"
    using best_fit_blocks [OF fit(1) refl] assms(3) by blast+
  obtain t where t: "?r \<le> t" "(?B, t, True) \<in> set (blocks a ?cs1)" "t \<le> s2"
    using best_fit_blocks(2) [OF fit(1) refl] by blast
  have sep: "A + s \<le> ?B \<or> ?B + t \<le> A"
    using carve_other_chunk [OF fit(1) assms(3) guarded_pos [OF k(1)] t(2) _ guarded_pos [OF k1(1)]] chunk_for_bounds(1) [of r] by simp
  have fits: "s + 8 \<le> t" using t(1) chunk_for_bounds(2) [of r] assms(7) by simp
  have bnd: "?B + t < 4294967296" "A + s < 4294967296" and nz: "W (?B + 8) \<noteq> 0" and us: "unat (W s) = s"
    using blocks_range [OF t(2)] blocks_range [OF A1] k1(2) fits by (auto simp: placed_def W_eq_0_iff)
  note cp = heap_ok_memcpy [OF fit(3) t(2) fits, where p = "W (A + 8)"]
  let ?m2 = "memcpy (W (?B + 8)) (W (A + 8)) s m1"
  obtain xs3 ys3 where sp: "?cs1 = xs3 @ (s, True) # ys3" "A = a + extent xs3"
    by (rule blocks_split [OF A1])
  have ok2: "heap_ok a nl (xs3 @ (s, True) # ys3) {} fl1 (h\<lparr>mm_mem := ?m2\<rparr>)"
    using cp(1) by (simp add: sp(1) [symmetric])
  obtain m3 fl3 where m3: "mm_free pid (W (A + 8)) (h\<lparr>mm_mem := ?m2\<rparr>) = return_run (h\<lparr>mm_mem := m3\<rparr>)"
      "heap_ok a nl (coalesce xs3 s ys3) {} fl3 (h\<lparr>mm_mem := m3\<rparr>)"
      "\<And>x. user_byte a nl (xs3 @ (s, False) # ys3) x \<Longrightarrow> m3 x = ?m2 x"
    using mm_free_ok [OF ok2 _ assms(4) sp(2)] assms(2) by auto
  have other: "user_byte a nl (xs3 @ (s, False) # ys3) x"
    if "user_byte a nl ?cs1 x" "\<not> (A \<le> unat x \<and> unat x < A + s)" for x
    using that unfolding sp(1) by (auto simp: user_byte_used sp(2))
  have run: "run = return_run (W (?B + 8), h\<lparr>mm_mem := m3\<rparr>)"
    unfolding run_def using fit(2) m3(1) nz us by (simp add: realloc_copy_def)
  show ?thesis
  proof (rule that(2) [OF fit(1) sp run m3(2)])
    show "m3 (W (?B + 8 + i)) = mm_mem h (W (A + 8 + i))" if "i < s - 8" for i
    proof -
      have "user_byte a nl ?cs1 (W (?B + 8 + i))"
        using that bnd fits by (intro user_byte_payload [OF t(2)]) auto
      then have "m3 (W (?B + 8 + i)) = ?m2 (W (?B + 8 + i))"
        using sep that bnd fits by (intro m3(3) other) auto
      also have "\<dots> = m1 (W (A + 8 + i))"
        using that bnd fits sep by (intro memcpy_apply) auto
      also have "\<dots> = mm_mem h (W (A + 8 + i))"
        using that bnd by (intro fit(4) user_byte_payload [OF assms(3)]) auto
      finally show ?thesis .
    qed
    show "m3 x = mm_mem h x" if x: "user_byte a nl cs x" "\<not> (A \<le> unat x \<and> unat x < A + s)" for x
    proof -
      have cs: "cs = xs @ (s2, False) # ys" and "?r \<le> s2" using fit(1) by (auto simp: best_fit_def)
      have "user_byte a nl ?cs1 x"
        using user_byte_section [of a nl xs "[(s2, False)]" ys x "carve ?r s2"] x(1) \<open>?r \<le> s2\<close> by (simp add: cs)
      moreover have "\<not> (?B \<le> unat x \<and> unat x < ?B + s2)"
        by (rule user_byte_not_free [OF k(1) _ x(1)]) (simp add: cs blocks_append)
      ultimately show ?thesis
        using m3(3) other x(2) cp(2) [of x] fit(4) [OF x(1)] t(3) by auto
    qed
  qed
qed

section \<open>The whole call\<close>

lemma granular_spare: "granular 16 cs \<Longrightarrow> c \<in> set cs \<Longrightarrow> 16 dvd spare c"
  unfolding granular_def spare_def by auto

lemma mm_realloc_shrink:
  assumes "heap_ok a nl (xs @ (s, True) # ys) {} fl h" and "sem_ok pid h" and "A = a + extent xs" and "16 dvd s"
    and "0 < n" and "n + 23 < 4294967296" and "chunk_for n \<le> s"
  obtains m' fl' where "mm_realloc pid (W (A + 8)) (W n) h = return_run (W (A + 8), h\<lparr>mm_mem := m'\<rparr>)"
    and "heap_ok a nl (xs @ (if chunk_for n < s then shrunk (chunk_for n) s ys else (s, True) # ys)) {} fl' (h\<lparr>mm_mem := m'\<rparr>)"
    and "\<And>x. user_byte a nl (xs @ (if chunk_for n < s then shrunk (chunk_for n) s ys else (s, True) # ys)) x
      \<Longrightarrow> m' x = mm_mem h x"
proof -
  let ?r = "chunk_for n"
  note k = heap_okD [OF assms(1)] and cb = chunk_for_bounds [of n]
  have "16 \<le> s" and "ys \<noteq> []" using guarded_mid [OF k(1)] cb(1) assms(7) by auto
  then obtain t v zs where ys: "ys = (t, v) # zs" by (cases ys) auto
  note e = heap_header [OF assms(1) [unfolded ys], folded assms(3)]
  obtain h1 where h1: "mm_takesemaphore pid h = return_run h1" "mm_mem h1 = mm_mem h"
      "\<And>a nl cs D fl. heap_ok a nl cs D fl h1 = heap_ok a nl cs D fl h"
      "\<And>m. mm_givesemaphore pid (h1\<lparr>mm_mem := m\<rparr>) = return_run (h\<lparr>mm_mem := m\<rparr>)"
      "\<And>a nl cs D fl m. heap_ok a nl cs D fl (h1\<lparr>mm_mem := m\<rparr>) = heap_ok a nl cs D fl (h\<lparr>mm_mem := m\<rparr>)"
      "mm_givesemaphore pid h1 = return_run h"
    using sem_balanced [OF assms(2)] by metis
  have size: "MM_ALIGN_UP (W n + SIZEOF_MM_ALLOCNODE) = W ?r" and "\<not> W n < 1" and "W (A + 8) \<noteq> 0"
      and node: "W (A + 8) - SIZEOF_MM_ALLOCNODE = W A"
    using assms(5,6) e(5,8) W_diff [of 8 "A + 8"]
    by (auto simp: SIZEOF_MM_ALLOCNODE_def MM_ALIGN_UP_W chunk_for_def word_less_nat_alt add.commute W_eq_0_iff W_numeral)
  note start = mm_realloc_def [of pid "W (A + 8)" "W n" h, unfolded size node Let_def]
  have cmp: "node_size h1 (W A) = W s" "W ?r \<le> W s" "W ?r < W s \<longleftrightarrow> ?r < s"
    using e(1,6) h1(2) assms(7) by (simp_all add: node_size_def W_le_iff W_less_iff)
  show thesis
  proof (cases "?r < s")
    case True
    have "?r + 8 \<le> s"
      using True assms(4) cb(4) dvd_imp_le [of 16 "s - ?r"] by (simp add: dvd_diff_nat)
    then obtain m' fl' where m': "mm_shrinkchunk (W A) (W ?r) h1 = return_run (h1\<lparr>mm_mem := m'\<rparr>)"
        "heap_ok a nl (xs @ shrunk ?r s ys) {} fl' (h1\<lparr>mm_mem := m'\<rparr>)"
        "\<And>x. user_byte a nl (xs @ shrunk ?r s ys) x \<Longrightarrow> m' x = mm_mem h1 x"
      using mm_shrinkchunk_ok [OF _ assms(3) cb(1)] assms(1) h1(3) by metis
    show ?thesis
      by (rule that [of m' fl'])
        (use True m' h1 start cmp \<open>\<not> W n < 1\<close> \<open>W (A + 8) \<noteq> 0\<close> in simp_all)
  next
    case False
    then have "mm_realloc pid (W (A + 8)) (W n) h = return_run (W (A + 8), h)"
      using h1(1,6) start cmp \<open>\<not> W n < 1\<close> \<open>W (A + 8) \<noteq> 0\<close> by simp
    with False assms(1) show ?thesis by (intro that [of "mm_mem h" fl]) auto
  qed
qed

lemma mm_realloc_grow:
  assumes "heap_ok a nl (xs @ (s, True) # ys) {} fl h" and "sem_ok pid h" and "A = a + extent xs" and "16 \<le> s"
    and "granular 16 (xs @ (s, True) # ys)" and "0 < n" and "n + 47 < 4294967296" and "s < chunk_for n"
  obtains
    (none) "mm_realloc pid (W (A + 8)) (W n) h = return_run (0, h)"
  | (extended) p1 p2 m' fl' where "p1 \<le> spare (last xs)" and "p2 \<le> spare (hd ys)" and "s + p1 + p2 = chunk_for n"
      and "16 dvd p1" and "16 dvd p2"
      and "mm_realloc pid (W (A + 8)) (W n) h = return_run (W (A - p1 + 8), h\<lparr>mm_mem := m'\<rparr>)"
      and "heap_ok a nl (left_of xs p1 @ (s + p1 + p2, True) # right_of ys p2) {} fl' (h\<lparr>mm_mem := m'\<rparr>)"
      and "a + extent (left_of xs p1) = A - p1"
      and "\<And>i. i < s - 8 \<Longrightarrow> m' (W (A - p1 + 8 + i)) = mm_mem h (W (A + 8 + i))"
      and "\<And>x. user_byte a nl (xs @ (s, False) # ys) x \<Longrightarrow> m' x = mm_mem h x"
  | (moved) xs2 s2 ys2 xs3 ys3 m' fl' where "best_fit (chunk_for (chunk_for n)) (xs @ (s, True) # ys) xs2 s2 ys2"
      and "xs2 @ carve (chunk_for (chunk_for n)) s2 @ ys2 = xs3 @ (s, True) # ys3" and "A = a + extent xs3"
      and "mm_realloc pid (W (A + 8)) (W n) h = return_run (W (a + extent xs2 + 8), h\<lparr>mm_mem := m'\<rparr>)"
      and "heap_ok a nl (coalesce xs3 s ys3) {} fl' (h\<lparr>mm_mem := m'\<rparr>)"
      and "\<And>i. i < s - 8 \<Longrightarrow> m' (W (a + extent xs2 + 8 + i)) = mm_mem h (W (A + 8 + i))"
      and "\<And>x. user_byte a nl (xs @ (s, True) # ys) x \<Longrightarrow> \<not> (A \<le> unat x \<and> unat x < A + s) \<Longrightarrow> m' x = mm_mem h x"
proof -
  let ?r = "chunk_for n"
  note k = heap_okD [OF assms(1)] and cb = chunk_for_bounds [of n]
  have xs: "xs \<noteq> []" and "ys \<noteq> []" using guarded_mid [OF k(1)] assms(4) by auto
  then obtain qs q w t v zs where qs: "xs = qs @ [(q, w)]" and ys: "ys = (t, v) # zs"
    by (cases xs rule: rev_cases; cases ys) auto
  note e = heap_header [OF assms(1) [unfolded ys], folded assms(3)]
  have eq: "load (mm_mem h) (W (a + extent qs)) = W q" "load (mm_mem h) (W (a + extent qs + 4)) = pre (last (0 # map fst qs)) w"
    and lq: "last (0 # map fst qs) < 2147483648"
    using heap_header(1,2,11) [of a nl qs q w s True "(t, v) # zs"] assms(1) by (simp_all add: qs ys)
  have A: "A = a + extent qs + q" using assms(3) qs by simp
  have sum: "q + s + t < 2147483648" "q < 2147483648" "A < 4294967296"
    using k(2) A by (auto simp: placed_def qs ys)
  obtain h1 where h1: "mm_takesemaphore pid h = return_run h1" "mm_mem h1 = mm_mem h"
      "\<And>a nl cs D fl. heap_ok a nl cs D fl h1 = heap_ok a nl cs D fl h"
      "\<And>m. mm_givesemaphore pid (h1\<lparr>mm_mem := m\<rparr>) = return_run (h\<lparr>mm_mem := m\<rparr>)"
      "\<And>a nl cs D fl m. heap_ok a nl cs D fl (h1\<lparr>mm_mem := m\<rparr>) = heap_ok a nl cs D fl (h\<lparr>mm_mem := m\<rparr>)"
      "mm_givesemaphore pid h1 = return_run h"
    using sem_balanced [OF assms(2)] by metis
  have size: "MM_ALIGN_UP (W n + SIZEOF_MM_ALLOCNODE) = W ?r" and nz: "\<not> W n < 1" "W (A + 8) \<noteq> 0"
      and node: "W (A + 8) - SIZEOF_MM_ALLOCNODE = W A"
    using assms(6,7) e(5,8) W_diff [of 8 "A + 8"]
    by (auto simp: SIZEOF_MM_ALLOCNODE_def MM_ALIGN_UP_W chunk_for_def word_less_nat_alt add.commute W_eq_0_iff W_numeral)
  have r: "?r < 4294967296" using cb(3) assms(7) by simp
  have sz: "node_size h1 (W A) = W s" "\<not> W ?r \<le> W s"
    using e(1,6) h1(2) assms(8) r by (simp_all add: node_size_def W_le_iff)
  have nx: "node_preceding h1 (W (A + s)) AND MM_ALLOC_BIT = (if v then MM_ALLOC_BIT else 0)" "node_size h1 (W (A + s)) = W t"
    using e(3,4) pre_simps(1) [OF e(6)] h1(2) by (simp_all add: node_preceding_def node_size_def)
  have pv: "W A - (node_preceding h1 (W A) AND NOT MM_ALLOC_BIT) = W (a + extent qs)"
    using e(2) pre_simps(2) [of q True] sum(2) h1(2) A W_diff [of q A] by (simp add: node_preceding_def qs)
  have pv2: "node_preceding h1 (W (a + extent qs)) AND MM_ALLOC_BIT = (if w then MM_ALLOC_BIT else 0)" "node_size h1 (W (a + extent qs)) = W q"
    using eq pre_simps(1) [OF lq] h1(2) by (simp_all add: node_preceding_def node_size_def)
  let ?Q = "spare (last xs)" and ?T = "spare (hd ys)"
  have room: "W ?r \<le> W ?T + W ?Q + W s \<longleftrightarrow> ?r \<le> ?T + ?Q + s" and diff: "W ?r - W s = W (?r - s)"
    using sum r assms(8) by (simp_all add: spare_def qs ys W_le_iff W_diff)
  have prev: "A - fst (last xs) = a + extent qs" using A by (simp add: qs)
  have start: "mm_realloc pid (W (A + 8)) (W n) h =
      (if ?r \<le> ?T + ?Q + s
       then (let (takeprev, takenext) = realloc_plan (W (?r - s)) (W ?Q) (W ?T) in
             next_run (realloc_prev (W (A + 8)) (W A) (W s) (W (A - fst (last xs))) (W ?Q) (W (A + s)) takeprev h1)
               (\<lambda>(oldnode, oldsize, newmem, h). next_run (realloc_next oldnode oldsize (W (A + s)) (W ?T) takenext h) (\<lambda>h.
                  next_run (mm_givesemaphore pid h) (\<lambda>h. return_run (newmem, h)))))
       else next_run (mm_malloc pid (W ?r) h) (\<lambda>(newmem, h). realloc_copy pid (W (A + 8)) (W s) newmem h))"
    using nz h1(1,6) room diff prev
    by (cases v; cases w) (simp_all add: mm_realloc_def Let_def size node pv sz nx pv2 spare_def ys qs add.assoc)
  show thesis
  proof (cases "?r \<le> ?T + ?Q + s")
    case True
    have gr: "16 dvd ?Q" "16 dvd ?T" "16 dvd s" using granular_spare [OF assms(5)] assms(4,5) xs \<open>ys \<noteq> []\<close>
      by (auto simp: granular_def)
    have "0 < ?r - s" "?r - s \<le> ?Q + ?T" "?Q + ?T < 2147483648"
      using True assms(8) sum by (auto simp: spare_def qs ys)
    then obtain p1 p2 where p: "realloc_plan (W (?r - s)) (W ?Q) (W ?T) = (W p1, W p2)" "p1 + p2 = ?r - s" "p1 \<le> ?Q" "p2 \<le> ?T"
        "16 dvd ?r - s \<and> 16 dvd ?Q \<and> 16 dvd ?T \<longrightarrow> 16 dvd p1 \<and> 16 dvd p2"
      by (rule realloc_plan_ok)
    have dv: "16 dvd p1" "16 dvd p2" using p(5) gr cb(4) by (simp_all add: dvd_diff_nat)
    have ok1: "heap_ok a nl (xs @ (s, True) # ys) {} fl h1" using assms(1) h1(3) by simp
    obtain m' fl' where m': "next_run (realloc_prev (W (A + 8)) (W A) (W s) (W (A - fst (last xs))) (W ?Q) (W (A + s)) (W p1) h1)
         (\<lambda>(oldnode, oldsize, newmem, h). next_run (realloc_next oldnode oldsize (W (A + s)) (W ?T) (W p2) h)
           (\<lambda>h. next_run (mm_givesemaphore pid h) (\<lambda>h. return_run (newmem, h))))
       = next_run (mm_givesemaphore pid (h1\<lparr>mm_mem := m'\<rparr>)) (\<lambda>h. return_run (W (A - p1 + 8), h))"
        "heap_ok a nl (left_of xs p1 @ (s + p1 + p2, True) # right_of ys p2) {} fl' (h1\<lparr>mm_mem := m'\<rparr>)"
        "a + extent (left_of xs p1) = A - p1"
        "\<And>i. i < s - 8 \<Longrightarrow> m' (W (A - p1 + 8 + i)) = mm_mem h1 (W (A + 8 + i))"
        "\<And>x. user_byte a nl (xs @ (s, False) # ys) x \<Longrightarrow> m' x = mm_mem h1 x"
      using realloc_extend_ok [OF ok1 assms(3,4) p(3) dv(1) gr(1) p(4) dv(2) gr(2),
            where f = "\<lambda>newmem h. next_run (mm_givesemaphore pid h) (\<lambda>h. return_run (newmem, h))"] by blast
    show ?thesis
      by (rule extended [OF p(3,4) _ dv, of m' fl'])
        (use p(2) assms(8) True start p(1) m' h1(2,4,5) in simp_all)
  next
    case False
    have blk: "(A, s, True) \<in> set (blocks a (xs @ (s, True) # ys))" using assms(3) by (simp add: blocks_append)
    have r23: "0 < ?r" "?r + 23 < 4294967296" using cb assms(7) by auto
    show ?thesis
      using assms(1,2) blk assms(4) r23 assms(8)
    proof (cases rule: realloc_move_ok)
      case none
      with start False show ?thesis using that(1) by simp
    next
      case (moved xs2 s2 ys2 xs3 ys3 m' fl')
      with start False show ?thesis using that(3) [of xs2 s2 ys2 xs3 ys3 m' fl'] by simp
    qed
  qed
qed

end
