(* ===== verification/Mm_Info.thy ===== *)
theory Mm_Info
  imports Mm_Init Mm_Realloc
begin

text \<open>
  The operations around the allocator proper: \<open>mm_mallinfo\<close>, which walks over the chunks and adds them up;
  \<open>mm_zalloc\<close> and \<open>mm_calloc\<close>; \<open>mm_extend\<close>, which makes the heap longer.
\<close>

section \<open>Totals of a row\<close>

definition free_sizes :: "chunk list \<Rightarrow> nat list" where
  "free_sizes cs = map fst (filter (\<lambda>c. \<not> snd c) cs)"

definition used_sizes :: "chunk list \<Rightarrow> nat list" where
  "used_sizes cs = map fst (filter snd cs)"

lemma free_sizes_simps [simp]:
  "free_sizes [] = []" "free_sizes ((s, u) # cs) = (if u then [] else [s]) @ free_sizes cs" "free_sizes (xs @ ys) = free_sizes xs @ free_sizes ys"
  by (simp_all add: free_sizes_def)

lemma used_sizes_simps [simp]:
  "used_sizes [] = []" "used_sizes ((s, u) # cs) = (if u then [s] else []) @ used_sizes cs" "used_sizes (xs @ ys) = used_sizes xs @ used_sizes ys"
  by (simp_all add: used_sizes_def)

lemma extent_sizes: "sum_list (used_sizes cs) + sum_list (free_sizes cs) = extent cs"
proof (induction cs)
  case (Cons c cs)
  then show ?case by (cases c) auto
qed simp

section \<open>Statistics\<close>

lemma mallinfo_walk_ok:
  assumes "layout (mm_mem h) A p (ys @ [c])" and "mm_heapend h = W (A + extent ys)" and "A + extent ys < 4294967296"
    and "\<forall>d \<in> set ys. 0 < fst d" and "p < 2147483648" and "extent ys < 2147483648" and "mx < 4294967296"
  shows "mallinfo_walk h (W A) (W mx) k (W u) (W f)
    = Some (W (A + extent ys), W (foldl max mx (free_sizes ys)), k + int (length (free_sizes ys)),
        W (u + sum_list (used_sizes ys)), W (f + sum_list (free_sizes ys)))"
  using assms
proof (induction ys arbitrary: A p mx k u f)
  case Nil
  then show ?case by (subst mallinfo_walk.simps) simp
next
  case (Cons d ys)
  obtain s v where d: "d = (s, v)" by (cases d)
  have hd: "load (mm_mem h) (W A) = W s" "load (mm_mem h) (W (A + 4)) = pre p v"
      and tl: "layout (mm_mem h) (A + s) s (ys @ [c])" and s: "0 < s" "s < 2147483648"
    using Cons.prems d by simp_all
  have IH: "mallinfo_walk h (W (A + s)) (W mx') k' (W u') (W f')
    = Some (W (A + s + extent ys), W (foldl max mx' (free_sizes ys)), k' + int (length (free_sizes ys)),
        W (u' + sum_list (used_sizes ys)), W (f' + sum_list (free_sizes ys)))" if "mx' < 4294967296" for mx' k' u' f'
    using Cons.IH [OF tl] Cons.prems d s that by (simp add: add.assoc)
  have "W A < mm_heapend h" using Cons.prems(2,3) d s by (simp add: W_less_iff)
  moreover have "W mx < W s \<longleftrightarrow> mx < s" using Cons.prems(7) s(2) by (simp add: W_less_iff)
  moreover have "max mx s = (if mx < s then s else mx)" by simp
  ultimately show ?case
    using IH [of mx] IH [of s] hd d pre_simps(1) [OF Cons.prems(5), of v] Cons.prems(7) s(2)
    by (subst mallinfo_walk.simps) (simp add: node_defs add.assoc)
qed

lemma mallinfo_walk_heap:
  assumes "heap_ok a nl (ys @ [guard]) D fl h"
  shows "mallinfo_walk h (mm_heapstart h) 0 0 0 0 = Some (mm_heapend h, W (foldl max 0 (free_sizes ys)), int (length (free_sizes ys)),
        W (sum_list (used_sizes ys)), W (sum_list (free_sizes ys)))"
proof -
  note k = heap_okD [OF assms]
  have pos: "\<forall>d \<in> set ys. 0 < fst d" using guarded_pos [OF k(1)] by simp
  have rng: "a + extent ys < 4294967296" "extent ys < 2147483648" using k(2) by (simp_all add: placed_def)
  have he: "mm_heapend h = W (a + extent ys)" using k(8) by simp
  show ?thesis
    using mallinfo_walk_ok [OF k(4) he rng(1) pos _ rng(2), of 0 0 0 0] k(7) he by simp
qed

lemma mm_mallinfo_ok:
  assumes "heap_ok a nl cs {} fl h" and "sem_ok pid h"
  shows "mm_mallinfo pid h = (if mm_heapsize h = W (extent cs)
    then return_run (\<lparr>arena = W (extent cs), ordblks = int (length (free_sizes cs)), mxordblk = W (foldl max 0 (free_sizes cs)),
           uordblks = W (sum_list (used_sizes cs)), fordblks = W (sum_list (free_sizes cs))\<rparr>, h)
    else Some (Inl Assertion))"
proof -
  note k = heap_okD [OF assms(1)]
  obtain ys where cs: "cs = ys @ [guard]" using k(1) unfolding guarded_def by (metis append_Cons)
  obtain h1 where h1: "mm_takesemaphore pid h = return_run h1" "mm_mem h1 = mm_mem h"
      "\<And>a nl cs D fl. heap_ok a nl cs D fl h1 = heap_ok a nl cs D fl h" "mm_givesemaphore pid h1 = return_run h"
    using sem_balanced [OF assms(2)] by metis
  have ok1: "heap_ok a nl (ys @ [guard]) {} fl h1" using assms(1) h1(3) cs by simp
  have "mm_heapend h1 = mm_heapend h" using heap_okD(8) [OF ok1] k(8) cs by simp
  moreover have "W (sum_list (used_sizes ys)) + 8 + W (sum_list (free_sizes ys)) = W (extent cs)"
    by (simp add: cs extent_sizes [symmetric] ac_simps)
  ultimately show ?thesis
    using h1(1,4) mallinfo_walk_heap [OF ok1] by (simp add: mm_mallinfo_def SIZEOF_MM_ALLOCNODE_def cs add.commute)
qed

section \<open>Zeroed memory\<close>

lemma heap_ok_memset:
  assumes "heap_ok a nl cs D fl h" and "(B, t, True) \<in> set (blocks a cs)" and "n + 8 \<le> t"
  shows "heap_ok a nl cs D fl (h\<lparr>mm_mem := memset (W (B + 8)) c n (mm_mem h)\<rparr>)"
    and "memset (W (B + 8)) c n (mm_mem h) x = (if B + 8 \<le> unat x \<and> unat x < B + 8 + n then c else mm_mem h x)"
proof -
  note k = heap_okD [OF assms(1)]
  have bnd: "B + 8 + n \<le> 4294967296"
    using blocks_range [OF assms(2)] assms(3) k(2) by (auto simp: placed_def)
  then show eq: "memset (W (B + 8)) c n (mm_mem h) x = (if B + 8 \<le> unat x \<and> unat x < B + 8 + n then c else mm_mem h x)" for x
    by (rule memset_apply)
  show "heap_ok a nl cs D fl (h\<lparr>mm_mem := memset (W (B + 8)) c n (mm_mem h)\<rparr>)"
  proof (rule heap_ok_user_write [OF assms(1)])
    fix x assume x: "\<not> user_byte a nl cs x"
    have "\<not> (B + 8 \<le> unat x \<and> unat x < B + t)"
      using x assms(2) unfolding user_byte_def by blast
    then show "memset (W (B + 8)) c n (mm_mem h) x = mm_mem h x"
      unfolding eq using assms(3) by auto
  qed
qed

lemma mm_zalloc_cases:
  assumes "heap_ok a nl cs {} fl h" and "sem_ok pid h" and "0 < n" and "n + 23 < 4294967296"
  obtains
    (none) "\<forall>t. (t, False) \<in> set cs \<longrightarrow> t < chunk_for n" and "mm_zalloc pid (W n) h = return_run (0, h)"
  | (fit) xs s ys m' fl' where "best_fit (chunk_for n) cs xs s ys"
      and "mm_zalloc pid (W n) h = return_run (W (a + extent xs + 8), h\<lparr>mm_mem := m'\<rparr>)"
      and "heap_ok a nl (xs @ carve (chunk_for n) s @ ys) {} fl' (h\<lparr>mm_mem := m'\<rparr>)"
      and "\<And>x. user_byte a nl cs x \<Longrightarrow> m' x = mm_mem h x"
      and "\<And>i. i < n \<Longrightarrow> m' (W (a + extent xs + 8 + i)) = 0"
  using assms
proof (cases rule: mm_malloc_cases)
  case none
  with that(1) show ?thesis by (simp add: mm_zalloc_def)
next
  case (fit xs s ys m1 fl1)
  let ?A = "a + extent xs"
  obtain t where t: "chunk_for n \<le> t" "t \<le> s" "(?A, t, True) \<in> set (blocks a (xs @ carve (chunk_for n) s @ ys))"
    using best_fit_blocks(2) [OF fit(1) refl] by blast
  have n: "n + 8 \<le> t" using chunk_for_bounds(2) [of n] t(1) by simp
  note ms = heap_ok_memset [OF fit(3) t(3) n, where c = 0]
  have rng: "?A + t < 4294967296"
    using blocks_range [OF t(3)] heap_okD(2) [OF fit(3)] by (auto simp: placed_def)
  let ?m = "memset (W (?A + 8)) 0 n m1"
  have run: "mm_zalloc pid (W n) h = return_run (W (?A + 8), h\<lparr>mm_mem := ?m\<rparr>)"
    using fit(2) rng n assms(4) by (simp add: mm_zalloc_def W_eq_0_iff)
  have cs: "cs = xs @ (s, False) # ys" using fit(1) by (simp add: best_fit_def)
  have "?m x = mm_mem h x" if x: "user_byte a nl cs x" for x
  proof -
    have "\<not> (?A \<le> unat x \<and> unat x < ?A + s)"
      by (rule user_byte_not_free [OF heap_okD(1) [OF assms(1)] _ x]) (simp add: cs blocks_append)
    then show ?thesis using ms(2) [of x] fit(4) [OF x] n t(2) by auto
  qed
  moreover have "?m (W (?A + 8 + i)) = 0" if "i < n" for i
    using ms(2) [of "W (?A + 8 + i)"] that rng n by simp
  ultimately show ?thesis
    using that(2) [OF fit(1) run] ms(1) by simp
qed

section \<open>A longer heap\<close>

lemma heap_lengthen:
  assumes "heap_ok a nl (xs @ [guard]) {} fl h" and "A = a + extent xs" and "16 \<le> n" and "placed a nl (extent xs + n + 8)"
  defines "m' \<equiv> store (W (A + n + 4)) (pre n True) (store (W (A + n)) 8 (store (W A) (W n) (mm_mem h)))"
  shows "heap_ok a nl (xs @ [(n, True), guard]) {} fl (h\<lparr>mm_heapend := W (A + n), mm_mem := m'\<rparr>)"
    and "unat x < A \<or> A + n + 8 \<le> unat x \<Longrightarrow> m' x = mm_mem h x"
proof -
  note k = heap_okD [OF assms(1)]
  have rng: "A + n + 8 < 4294967296" and off: "nl + 304 \<le> a \<or> A + n + 8 \<le> nl"
    using assms(2,4) by (auto simp: placed_def)
  show same: "m' x = mm_mem h x" if "unat x < A \<or> A + n + 8 \<le> unat x" for x
    unfolding m'_def using that rng assms(3) by (auto simp: store_apply_other)
  have "layout m' a 0 xs = layout (mm_mem h) a 0 xs"
    using same assms(2) guarded_ge_8 [OF k(1)] rng by (intro layout_cong) (auto dest!: blocks_header(2))
  moreover have "load (mm_mem h) (W (A + 4)) = pre (last (0 # map fst xs)) True"
    using k(4) by (simp add: layout_append assms(2))
  ultimately have lay: "layout m' a 0 (xs @ [(n, True), guard])"
    using k(4) rng assms(3) unfolding layout_append by (simp add: m'_def load_store_other assms(2) [symmetric] W_numeral)
  have "flist m' nl fl"
  proof (rule flist_cong [OF k(5)])
    fix B x assume B: "B \<in> set (nodes nl 0 fl)" and x: "(B \<le> unat x \<and> unat x < B + 4) \<or> link_byte B x"
    have "unat x < A \<or> A + n + 8 \<le> unat x"
      using assms(1) B
    proof (cases rule: heap_ok_nodes)
      case head
      then show ?thesis using x off assms(2) by (auto simp: link_byte_def)
    next
      case (entry s)
      then have "(B, s, False) \<in> set (blocks a xs)" by (simp add: blocks_append)
      from blocks_range [OF this] show ?thesis using x entry(2) assms(2) by (auto simp: link_byte_def)
    qed
    then show "m' x = mm_mem h x" by (rule same)
  qed
  moreover have "xs \<noteq> []" using k(1) by (auto simp: guarded_def)
  then have "guarded (xs @ [(n, True)] @ [guard])"
    using guarded_replace [of xs "[]" "[guard]" "[(n, True)]"] k(1) assms(3) by simp
  ultimately show "heap_ok a nl (xs @ [(n, True), guard]) {} fl (h\<lparr>mm_heapend := W (A + n), mm_mem := m'\<rparr>)"
    using k lay assms(2,4) by (simp add: heap_ok_def free_chunks_append add.assoc)
qed

lemma mm_extend_ok:
  assumes "heap_ok a nl (xs @ [guard]) {} fl h" and "sem_ok pid h" and "E = a + extent xs + 8"
    and "16 dvd E" and "16 dvd n" and "0 < n" and "placed a nl (extent xs + n + 8)"
  obtains m' fl' where "mm_extend pid (W E) (W n) 0 h = return_run (h\<lparr>mm_heapend := W (E + n - 8), mm_mem := m'\<rparr>)"
    and "heap_ok a nl (coalesce xs n [guard]) {} fl' (h\<lparr>mm_heapend := W (E + n - 8), mm_mem := m'\<rparr>)"
    and "\<And>x. user_byte a nl (xs @ [guard]) x \<Longrightarrow> \<not> (E \<le> unat x \<and> unat x < E + n) \<Longrightarrow> m' x = mm_mem h x"
proof -
  let ?A = "a + extent xs"
  note k = heap_okD [OF assms(1)]
  have n: "16 \<le> n" using assms(5,6) by (auto elim!: dvdE)
  have rng: "?A + n + 8 < 4294967296" "n < 2147483648" using assms(7) by (auto simp: placed_def)
  obtain h1 where h1: "mm_takesemaphore pid h = return_run h1" "mm_mem h1 = mm_mem h"
      "\<And>a nl cs D fl. heap_ok a nl cs D fl h1 = heap_ok a nl cs D fl h"
    using sem_balanced [OF assms(2)] by metis
  have give: "mm_givesemaphore pid (h1\<lparr>mm_mem := m, mm_heapend := e\<rparr>) = return_run (h\<lparr>mm_heapend := e, mm_mem := m\<rparr>)" for e m
    using h1(1) assms(2) by (auto simp: mm_takesemaphore_def mm_givesemaphore_def sem_ok_def split: if_splits)
  note len = heap_lengthen [OF assms(1) refl n assms(7)]
  let ?m = "store (W (?A + n + 4)) (pre n True) (store (W (?A + n)) 8 (store (W ?A) (W n) (mm_mem h)))"
  let ?h2 = "h\<lparr>mm_heapend := W (?A + n), mm_mem := ?m\<rparr>"
  obtain m' fl' where m': "mm_free pid (W (?A + 8)) ?h2 = return_run (?h2\<lparr>mm_mem := m'\<rparr>)"
      "heap_ok a nl (coalesce xs n [guard]) {} fl' (?h2\<lparr>mm_mem := m'\<rparr>)"
      "\<And>x. user_byte a nl (xs @ (n, False) # [guard]) x \<Longrightarrow> m' x = ?m x"
    using mm_free_ok [OF len(1), of pid ?A] n assms(2) by (auto simp: sem_ok_def)
  have he: "mm_heapend h1 = W ?A" using assms(1) h1(3) [of a nl "xs @ [guard]" "{}" fl] by (simp add: heap_ok_def)
  have up: "MM_ALIGN_UP (W E) = W E" "MM_ALIGN_DOWN (W (E + n)) = W (E + n)"
  proof -
    have "E + 15 < 4294967296" "E + n < 4294967296" using rng n assms(3) by simp_all
    then show "MM_ALIGN_UP (W E) = W E" "MM_ALIGN_DOWN (W (E + n)) = W (E + n)"
      using assms(4,5) by (auto simp: MM_ALIGN_UP_W MM_ALIGN_DOWN_W mult.commute elim!: dvdE)
  qed
  have par: "W E \<noteq> 0" "16 \<le> W n"
    using assms(3) rng n by (simp_all add: W_eq_0_iff le_W)
  have "W (E + n) - 8 = W (?A + n)"
    using assms(3) W_diff [of 8 "E + n"] by (simp add: W_numeral ac_simps)
  note par = par this
  have pr: "load (store (W ?A) (W n) (mm_mem h)) (W (?A + 4)) = pre (last (0 # map fst xs)) True"
    using k(4) rng by (simp add: layout_append load_store_other)
  have ld: "load (store (W (?A + n)) 8 (store (W ?A) (W n) (mm_mem h))) (W ?A) = W n"
    using rng n by (simp add: load_store_other)
  have lst: "last (0 # map fst xs) < 2147483648"
    using assms(7) last_size [of xs] by (simp add: placed_def)
  have "mm_extend pid (W E) (W n) 0 h = mm_free pid (W E) ?h2"
    unfolding mm_extend_def using par up h1(1,2) he pr ld pre_simps(1) [OF lst, of True] give [of "W (?A + n)" ?m]
    by (simp add: Let_def node_defs SIZEOF_MM_ALLOCNODE_def assms(3) pre_def)
  moreover have "E + n - 8 = ?A + n" using assms(3) by simp
  moreover have "m' x = mm_mem h x" if "user_byte a nl (xs @ [guard]) x" "\<not> (E \<le> unat x \<and> unat x < E + n)" for x
  proof -
    have "user_byte a nl (xs @ (n, False) # [guard]) x" "unat x < ?A \<or> ?A + n + 8 \<le> unat x"
      using that assms(3) used_byte_range [of a xs x] by (auto simp: user_byte_used)
    then show ?thesis using m'(3) len(2) by simp
  qed
  ultimately show thesis
    using m'(1,2) by (intro that [of m' fl']) (simp_all add: assms(3) add.assoc)
qed

end
