(* ===== verification/Mm_Invariant.thy ===== *)
theory Mm_Invariant
  imports Mm_Memalign Mm_Info
begin

text \<open>
  The invariant of the heap between calls: the headers and lists are consistent (\<open>heap_ok\<close>), no two free
  chunks are neighbours, and the sizes are multiples of a granule. Chunks come in granules of 16 bytes as
  long as \<open>mm_memalign\<close> is not used and of 8 bytes otherwise.
\<close>

section \<open>No two free chunks in a row\<close>

definition tidy :: "chunk list \<Rightarrow> bool" where
  "tidy cs \<longleftrightarrow> successively (\<lambda>c d. snd c \<or> snd d) cs"

lemma tidy_simps [simp]:
  "tidy []" "tidy [c]" "tidy (c # d # cs) \<longleftrightarrow> (snd c \<or> snd d) \<and> tidy (d # cs)"
  by (auto simp: tidy_def)

lemma tidy_append: "tidy (xs @ ys) \<longleftrightarrow> tidy xs \<and> tidy ys \<and> (xs = [] \<or> ys = [] \<or> snd (last xs) \<or> snd (hd ys))"
  by (auto simp: tidy_def successively_append_iff)

lemma tidy_Cons: "tidy (c # cs) \<longleftrightarrow> tidy cs \<and> (cs = [] \<or> snd c \<or> snd (hd cs))"
  by (cases cs) auto

lemma tidy_carve: "tidy (xs @ (s, False) # ys) \<Longrightarrow> tidy (xs @ carve r s @ ys)"
  by (auto simp: tidy_append tidy_Cons carve_def)

lemma tidy_shrunk:
  assumes "tidy (xs @ (s, True) # ys)"
  shows "tidy (xs @ shrunk r s ys)"
  using assms by (cases "(r, s, ys)" rule: shrunk.cases) (auto simp: tidy_append tidy_Cons)

lemma tidy_lead: "tidy (xs @ (s, True) # ys) \<Longrightarrow> xs = [] \<or> snd (last xs) \<Longrightarrow> tidy (xs @ rest d @ (t, True) # ys)"
  by (auto simp: tidy_append tidy_Cons rest_def)

lemma tidy_coalesce:
  assumes "tidy (xs @ (s, True) # ys)" and "xs \<noteq> []"
  shows "tidy (coalesce xs s ys)"
proof -
  obtain qs q u where xs: "xs = qs @ [(q, u)]" using assms(2) by (cases xs rule: rev_cases) auto
  from assms(1) show ?thesis
    by (cases "(s, ys)" rule: absorb_next.cases; cases u) (auto simp: coalesce_def xs tidy_append tidy_Cons)
qed

lemma tidy_left_of:
  assumes "tidy (xs @ (s, True) # ys)" and "p \<le> spare (last xs)"
  shows "tidy (left_of xs p @ (t, True) # ys)"
  using assms
  by (cases xs rule: rev_cases) (auto simp: left_of_def tidy_append tidy_Cons rest_def spare_def split: if_splits)

lemma tidy_right_of:
  assumes "tidy (xs @ (s, True) # ys)" and "p \<le> spare (hd ys)"
  shows "tidy (xs @ (t, True) # right_of ys p)"
  using assms by (cases ys) (auto simp: right_of_def tidy_append tidy_Cons rest_def spare_def split: if_splits)

section \<open>Granules\<close>

lemma granular_carve: "granular g (xs @ (s, False) # ys) \<Longrightarrow> g dvd r \<Longrightarrow> granular g (xs @ carve r s @ ys)"
  by (auto simp: carve_def)

lemma granular_shrunk:
  assumes "granular g (xs @ (s, True) # ys)" and "g dvd r" and "16 \<le> s"
  shows "granular g (xs @ shrunk r s ys)"
  using assms by (cases "(r, s, ys)" rule: shrunk.cases) auto

lemma granular_coalesce:
  assumes "granular g (xs @ (s, True) # ys)" and "16 \<le> s" and "xs \<noteq> []"
  shows "granular g (coalesce xs s ys)"
proof -
  obtain qs q u where xs: "xs = qs @ [(q, u)]" using assms(3) by (cases xs rule: rev_cases) auto
  from assms(1,2) show ?thesis
    by (cases "(s, ys)" rule: absorb_next.cases; cases u) (auto simp: coalesce_def xs)
qed

lemma granular_rest: "g dvd d \<Longrightarrow> granular g (rest d)"
  by (simp add: rest_def)

lemma granular_left_of:
  assumes "granular g xs" and "p \<le> spare (last xs)" and "g dvd p" and "xs \<noteq> []"
  shows "granular g (left_of xs p)"
  using assms by (cases xs rule: rev_cases) (auto simp: left_of_def spare_def granular_rest split: if_splits)

lemma granular_right_of:
  assumes "granular g ys" and "p \<le> spare (hd ys)" and "g dvd p" and "ys \<noteq> []"
  shows "granular g (right_of ys p)"
  using assms by (cases ys) (auto simp: right_of_def spare_def granular_rest split: if_splits)

lemma granular_aligned:
  assumes "granular 16 cs" and "guarded cs" and "(A, s, u) \<in> set (blocks a cs)" and "16 \<le> s" and "16 dvd a"
  shows "16 dvd A + 8"
proof -
  obtain mid where cs: "cs = guard # mid @ [guard]" and mid: "\<forall>c \<in> set mid. 16 \<le> fst c"
    using assms(2) by (auto simp: guarded_def)
  obtain xs ys where sp: "cs = xs @ (s, u) # ys" "A = a + extent xs" by (rule blocks_split [OF assms(3)])
  then obtain xs' where xs': "xs = guard # xs'" using cs assms(4) by (cases xs) auto
  then have "set xs' \<subseteq> set mid"
    using sp(1) cs assms(4) by (cases ys rule: rev_cases) (auto simp: append_eq_append_conv2 append_eq_Cons_conv)
  then have "\<forall>c \<in> set xs'. 16 dvd fst c"
    using assms(1) mid unfolding granular_def cs by fastforce
  then have "16 dvd extent xs'" by (induction xs') auto
  moreover have "A + 8 = a + (16 + extent xs')" using sp(2) xs' by simp
  ultimately show ?thesis using assms(5) by (metis dvd_add dvd_refl)
qed

lemma extent_left_of:
  "p \<le> spare (last xs) \<Longrightarrow> xs \<noteq> [] \<Longrightarrow> extent (left_of xs p) + p = extent xs"
  by (cases xs rule: rev_cases) (auto simp: left_of_def spare_def split: if_splits)

lemma extent_right_of:
  "p \<le> spare (hd ys) \<Longrightarrow> ys \<noteq> [] \<Longrightarrow> extent (right_of ys p) + p = extent ys"
  by (cases ys) (auto simp: right_of_def spare_def split: if_splits)

lemma extent_coalesce: "xs \<noteq> [] \<Longrightarrow> extent (coalesce xs s ys) = extent xs + s + extent ys"
  by (cases xs rule: rev_cases; cases "(s, ys)" rule: absorb_next.cases) (auto simp: coalesce_def)

section \<open>The invariant\<close>

definition heap_inv :: "nat \<Rightarrow> nat \<Rightarrow> nat \<Rightarrow> chunk list \<Rightarrow> mm_heap \<Rightarrow> bool" where
  "heap_inv g a nl cs h \<longleftrightarrow>
     (\<exists>fl. heap_ok a nl cs {} fl h) \<and> tidy cs \<and> granular g cs \<and> 16 dvd a \<and> mm_heapsize h = W (extent cs)"

lemma heap_invI:
  "heap_ok a nl cs {} fl (h\<lparr>mm_mem := m\<rparr>) \<Longrightarrow> tidy cs \<Longrightarrow> granular g cs \<Longrightarrow> 16 dvd a \<Longrightarrow> mm_heapsize h = W (extent cs)
    \<Longrightarrow> heap_inv g a nl cs (h\<lparr>mm_mem := m\<rparr>)"
  unfolding heap_inv_def by auto

lemma heap_invE:
  assumes "heap_inv g a nl cs h"
  obtains fl where "heap_ok a nl cs {} fl h" and "tidy cs" and "granular g cs" and "16 dvd a" and "mm_heapsize h = W (extent cs)"
  using assms unfolding heap_inv_def by blast

lemma heap_inv_guarded: "heap_inv g a nl cs h \<Longrightarrow> guarded cs" and heap_inv_placed: "heap_inv g a nl cs h \<Longrightarrow> placed a nl (extent cs)"
  by (auto elim!: heap_invE dest: heap_okD)

section \<open>The chunks in use\<close>

definition used_chunks :: "nat \<Rightarrow> chunk list \<Rightarrow> (nat \<times> nat) set" where
  "used_chunks a cs = {(A, s). (A, s, True) \<in> set (blocks a cs) \<and> 16 \<le> s}"

lemma used_chunks_simps [simp]:
  "used_chunks a [] = {}"
  "used_chunks a ((s, u) # cs) = (if u \<and> 16 \<le> s then insert (a, s) (used_chunks (a + s) cs) else used_chunks (a + s) cs)"
  "used_chunks a (xs @ ys) = used_chunks a xs \<union> used_chunks (a + extent xs) ys"
  by (auto simp: used_chunks_def blocks_append)

lemma used_chunk_block: "(A, s) \<in> used_chunks a cs \<Longrightarrow> (A, s, True) \<in> set (blocks a cs) \<and> 16 \<le> s"
  by (simp add: used_chunks_def)

lemma used_chunks_range: "(A, s) \<in> used_chunks a cs \<Longrightarrow> a \<le> A \<and> A + s \<le> a + extent cs \<and> 16 \<le> s"
  using blocks_range by (auto simp: used_chunks_def)

lemma used_chunk_split:
  assumes "(A, s) \<in> used_chunks a cs"
  obtains xs ys where "cs = xs @ (s, True) # ys" and "A = a + extent xs" and "16 \<le> s"
  using used_chunk_block [OF assms] blocks_split by metis

lemma used_chunks_not_next:
  "16 \<le> s \<Longrightarrow> A = a + extent xs \<Longrightarrow> (A, t) \<notin> used_chunks a xs" "16 \<le> s \<Longrightarrow> (A, t) \<notin> used_chunks (A + s) ys"
  by (auto dest: used_chunks_range)

lemma used_chunks_carve:
  assumes "r \<le> s" and "16 \<le> r" and "A = a + extent xs"
  obtains t where "used_chunks a (xs @ carve r s @ ys) = insert (A, t) (used_chunks a (xs @ (s, False) # ys))" and "r \<le> t"
    and "(A, t) \<notin> used_chunks a (xs @ (s, False) # ys)"
proof (rule that [of "if r + 16 \<le> s then r else s"])
  show "(A, if r + 16 \<le> s then r else s) \<notin> used_chunks a (xs @ (s, False) # ys)"
    using assms used_chunks_not_next(1) [of s A a xs] used_chunks_not_next(2) [of s A] by simp
qed (use assms in \<open>auto simp: carve_def add.assoc\<close>)

lemma used_chunks_coalesce:
  assumes "16 \<le> s" and "A = a + extent xs" and "xs \<noteq> []"
  shows "used_chunks a (coalesce xs s ys) = used_chunks a (xs @ (s, True) # ys) - {(A, s)}"
proof -
  obtain qs q u where xs: "xs = qs @ [(q, u)]" using assms(3) by (cases xs rule: rev_cases) auto
  have "used_chunks a (coalesce xs s ys) = used_chunks a xs \<union> used_chunks (A + s) ys"
    using assms(1,2) by (cases "(s, ys)" rule: absorb_next.cases; cases u) (auto simp: coalesce_def xs add.assoc)
  moreover have "used_chunks a (xs @ (s, True) # ys) = insert (A, s) (used_chunks a xs \<union> used_chunks (A + s) ys)"
    using assms(1,2) by simp
  ultimately show ?thesis
    using used_chunks_not_next(1) [OF assms(1,2)] used_chunks_not_next(2) [OF assms(1)] by simp
qed

lemma used_chunks_shrunk:
  assumes "16 \<le> r" and "r \<le> s" and "A = a + extent xs"
  obtains t where "used_chunks a (xs @ shrunk r s ys) = insert (A, t) (used_chunks a (xs @ (s, True) # ys) - {(A, s)})"
    and "r \<le> t" and "t \<le> s"
proof (rule that [of "fst (hd (shrunk r s ys))"])
  have "used_chunks a (xs @ shrunk r s ys) = insert (A, fst (hd (shrunk r s ys))) (used_chunks a xs \<union> used_chunks (A + s) ys)"
    using assms by (cases "(r, s, ys)" rule: shrunk.cases) (auto simp: add.assoc)
  moreover have "used_chunks a (xs @ (s, True) # ys) - {(A, s)} = used_chunks a xs \<union> used_chunks (A + s) ys"
    using assms used_chunks_not_next(1) [of s A a xs s] used_chunks_not_next(2) [of s A s ys] by auto
  ultimately show "used_chunks a (xs @ shrunk r s ys) = insert (A, fst (hd (shrunk r s ys))) (used_chunks a (xs @ (s, True) # ys) - {(A, s)})"
    by simp
  show "r \<le> fst (hd (shrunk r s ys))" "fst (hd (shrunk r s ys)) \<le> s"
    using assms by (cases "(r, s, ys)" rule: shrunk.cases; simp)+
qed

lemma used_chunks_left_right:
  assumes "16 \<le> s" and "A = a + extent xs" and "p1 \<le> spare (last xs)" and "p2 \<le> spare (hd ys)" and "xs \<noteq> []" and "ys \<noteq> []"
    and "a + extent (left_of xs p1) = A - p1"
  shows "used_chunks a (left_of xs p1 @ (s + p1 + p2, True) # right_of ys p2)
    = insert (A - p1, s + p1 + p2) (used_chunks a (xs @ (s, True) # ys) - {(A, s)})"
proof -
  have "used_chunks a (left_of xs p1) = used_chunks a xs"
    using assms(3,5) by (cases xs rule: rev_cases) (auto simp: left_of_def spare_def rest_def split: if_splits)
  moreover have "used_chunks (A + s + p2) (right_of ys p2) = used_chunks (A + s) ys"
    using assms(4,6) by (cases ys) (auto simp: right_of_def spare_def rest_def add.assoc split: if_splits)
  moreover have "p1 \<le> A"
    using assms(2,3,5) by (cases xs rule: rev_cases) (auto simp: spare_def split: if_splits)
  then have "A - p1 + (s + p1 + p2) = A + s + p2" by simp
  ultimately have "used_chunks a (left_of xs p1 @ (s + p1 + p2, True) # right_of ys p2)
      = insert (A - p1, s + p1 + p2) (used_chunks a xs \<union> used_chunks (A + s) ys)"
    using assms(1,7) by (simp add: add.assoc)
  moreover have "used_chunks a (xs @ (s, True) # ys) - {(A, s)} = used_chunks a xs \<union> used_chunks (A + s) ys"
    using assms(1,2) used_chunks_not_next(1) [of s A a xs s] used_chunks_not_next(2) [of s A s ys] by auto
  ultimately show ?thesis by simp
qed

end
