(* ===== verification/Mm_Client.thy ===== *)
theory Mm_Client
  imports Mm_Invariant
begin

text \<open>
  What a client of the heap sees: a set of blocks, each a pointer and the number of bytes that can be used.
  \<open>mm_view\<close> relates a heap to its blocks. The operations are described by their effect on the blocks and on
  the bytes in them; chunks, headers and lists do not occur in the descriptions.
\<close>

section \<open>Blocks\<close>

type_synonym heap_block = "u32 \<times> nat"

definition payloads :: "nat \<Rightarrow> chunk list \<Rightarrow> heap_block set" where
  "payloads a cs = (\<lambda>(A, s). (W (A + 8), s - 8)) ` used_chunks a cs"

definition same_on :: "heap_block set \<Rightarrow> memory \<Rightarrow> memory \<Rightarrow> bool" where
  "same_on L m m' \<longleftrightarrow> (\<forall>(p, k) \<in> L. \<forall>i < k. m' (p + W i) = m (p + W i))"

definition mm_view :: "nat \<Rightarrow> nat \<Rightarrow> nat \<Rightarrow> nat \<Rightarrow> int \<Rightarrow> heap_block set \<Rightarrow> mm_heap \<Rightarrow> bool" where
  "mm_view g a nl T pid L h \<longleftrightarrow> sem_ok pid h \<and> (\<exists>cs. heap_inv g a nl cs h \<and> extent cs = T \<and> L = payloads a cs)"

lemma same_onI: "(\<And>p k i. (p, k) \<in> L \<Longrightarrow> i < k \<Longrightarrow> m' (p + W i) = m (p + W i)) \<Longrightarrow> same_on L m m'"
  unfolding same_on_def by auto

lemma same_onD: "same_on L m m' \<Longrightarrow> (p, k) \<in> L \<Longrightarrow> i < k \<Longrightarrow> m' (p + W i) = m (p + W i)"
  unfolding same_on_def by auto

lemma mm_viewI: "sem_ok pid h \<Longrightarrow> heap_inv g a nl cs (h\<lparr>mm_mem := m\<rparr>) \<Longrightarrow> extent cs = T \<Longrightarrow> mm_view g a nl T pid (payloads a cs) (h\<lparr>mm_mem := m\<rparr>)"
  unfolding mm_view_def by auto

lemma mm_viewE:
  assumes "mm_view g a nl T pid L h"
  obtains cs fl where "heap_ok a nl cs {} fl h" and "tidy cs" and "granular g cs" and "16 dvd a" and "mm_heapsize h = W (extent cs)"
    and "sem_ok pid h" and "L = payloads a cs" and "extent cs = T"
  using assms unfolding mm_view_def heap_inv_def by blast

lemma payload_inj:
  assumes "placed a nl (extent cs)"
  shows "inj_on (\<lambda>(A, s). (W (A + 8), s - 8)) (used_chunks a cs)"
proof (rule inj_onI, clarify)
  fix A s B t assume A: "(A, s) \<in> used_chunks a cs" and B: "(B, t) \<in> used_chunks a cs"
    and eq: "W (A + 8) = W (B + 8)" "s - 8 = t - 8"
  have "A + 8 < 4294967296" "B + 8 < 4294967296" "16 \<le> s" "16 \<le> t"
    using used_chunks_range [OF A] used_chunks_range [OF B] assms by (auto simp: placed_def)
  with eq show "A = B \<and> s = t" by (simp add: W_eq_iff)
qed

lemma payloads_insert: "used_chunks a cs' = insert (A, t) (used_chunks a cs) \<Longrightarrow> payloads a cs' = insert (W (A + 8), t - 8) (payloads a cs)"
  by (simp add: payloads_def)

lemma payload_fresh:
  assumes "placed a nl (extent cs')" and "used_chunks a cs' = insert (A, t) U" and "(A, t) \<notin> U"
  shows "(W (A + 8), t - 8) \<notin> (\<lambda>(A, s). (W (A + 8), s - 8)) ` U" and "W (A + 8) \<noteq> 0" and "unat (W (A + 8)) = A + 8"
proof -
  have "(A, t) \<in> used_chunks a cs'" using assms(2) by simp
  from used_chunks_range [OF this] assms(1) have "A + 16 < 4294967296" by (simp add: placed_def)
  then show "W (A + 8) \<noteq> 0" and "unat (W (A + 8)) = A + 8" by (simp_all add: W_eq_0_iff)
  show "(W (A + 8), t - 8) \<notin> (\<lambda>(A, s). (W (A + 8), s - 8)) ` U"
  proof
    assume "(W (A + 8), t - 8) \<in> (\<lambda>(A, s). (W (A + 8), s - 8)) ` U"
    then obtain B u where B: "(B, u) \<in> U" "W (A + 8) = W (B + 8)" "t - 8 = u - 8" by auto
    then have "(B, u) = (A, t)"
      using inj_onD [OF payload_inj [OF assms(1)], of "(A, t)" "(B, u)"] assms(2) by auto
    with B(1) assms(3) show False by simp
  qed
qed

lemma payloads_remove:
  assumes "placed a nl (extent cs)" and "(A, s) \<in> used_chunks a cs" and "used_chunks a cs' = used_chunks a cs - {(A, s)}"
  shows "payloads a cs' = payloads a cs - {(W (A + 8), s - 8)}"
  using inj_on_image_set_diff [OF payload_inj [OF assms(1)], of "used_chunks a cs" "{(A, s)}"] assms(2,3)
  by (auto simp: payloads_def)

lemma payloads_replace:
  assumes "placed a nl (extent cs)" and "(A, s) \<in> used_chunks a cs" and "placed a nl (extent cs')"
    and "used_chunks a cs' = insert (B, t) (used_chunks a cs - {(A, s)})" and "(B, t) \<notin> used_chunks a cs - {(A, s)}"
  shows "payloads a cs' = insert (W (B + 8), t - 8) (payloads a cs - {(W (A + 8), s - 8)})"
    and "(W (B + 8), t - 8) \<notin> payloads a cs - {(W (A + 8), s - 8)}" and "W (B + 8) \<noteq> 0"
proof -
  have img: "(\<lambda>(A, s). (W (A + 8), s - 8)) ` (used_chunks a cs - {(A, s)}) = payloads a cs - {(W (A + 8), s - 8)}"
    using inj_on_image_set_diff [OF payload_inj [OF assms(1)], of "used_chunks a cs" "{(A, s)}"] assms(2)
    by (auto simp: payloads_def)
  have "payloads a cs' = insert (W (B + 8), t - 8) ((\<lambda>(A, s). (W (A + 8), s - 8)) ` (used_chunks a cs - {(A, s)}))"
    unfolding payloads_def assms(4) by simp
  with img show "payloads a cs' = insert (W (B + 8), t - 8) (payloads a cs - {(W (A + 8), s - 8)})" by simp
  note fresh = payload_fresh [OF assms(3-5)]
  from fresh(1) show "(W (B + 8), t - 8) \<notin> payloads a cs - {(W (A + 8), s - 8)}" unfolding img .
  show "W (B + 8) \<noteq> 0" by (rule fresh(2))
qed

lemma overlap_not_used:
  assumes "guarded cs" and "(A, s) \<in> used_chunks a cs" and "B \<le> A" and "A < B + t"
  shows "(B, t) \<notin> used_chunks a cs - {(A, s)}"
  using blocks_apart [of B t True a cs A s True] used_chunk_block [OF assms(2)] guarded_pos [OF assms(1)] assms(3,4)
  by (auto simp: used_chunks_def)

lemma payload_chunk:
  assumes "(p, k) \<in> payloads a cs" and "placed a nl (extent cs)"
  obtains A where "(A, k + 8) \<in> used_chunks a cs" and "p = W (A + 8)" and "unat p = A + 8" and "A + k + 8 < 4294967296" and "8 \<le> k"
proof -
  obtain A s where A: "(A, s) \<in> used_chunks a cs" and p: "p = W (A + 8)" "k = s - 8"
    using assms(1) by (auto simp: payloads_def)
  have "a \<le> A" "A + s \<le> a + extent cs" "16 \<le> s" using used_chunks_range [OF A] by simp_all
  with assms(2) A p that [of A] show thesis by (simp add: placed_def)
qed

lemma same_on_payloads:
  assumes "placed a nl (extent cs)" and "\<And>x. user_byte a nl cs x \<Longrightarrow> m' x = m x"
  shows "same_on (payloads a cs) m m'"
proof (rule same_onI)
  fix p k i assume "(p, k) \<in> payloads a cs" and i: "i < k"
  then obtain A where A: "(A, k + 8) \<in> used_chunks a cs" "p = W (A + 8)" "A + k + 8 < 4294967296"
    using payload_chunk [OF _ assms(1)] by metis
  have "user_byte a nl cs (W (A + 8 + i))"
    using A i used_chunk_block [OF A(1)] by (intro user_byte_payload [where s = "k + 8"]) auto
  then show "m' (p + W i) = m (p + W i)" using assms(2) A(2) by simp
qed

text \<open>The same for all blocks but one.\<close>

lemma same_on_others:
  assumes "placed a nl (extent cs)" and "guarded cs" and "(A, s) \<in> used_chunks a cs"
    and "\<And>x. user_byte a nl cs x \<Longrightarrow> \<not> (A \<le> unat x \<and> unat x < A + s) \<Longrightarrow> m' x = m x"
  shows "same_on (payloads a cs - {(W (A + 8), s - 8)}) m m'"
proof (rule same_onI)
  fix p k i assume "(p, k) \<in> payloads a cs - {(W (A + 8), s - 8)}" and i: "i < k"
  then have "(p, k) \<in> payloads a cs" and ne: "(p, k) \<noteq> (W (A + 8), s - 8)" by auto
  then obtain B where B: "(B, k + 8) \<in> used_chunks a cs" "p = W (B + 8)" "B + k + 8 < 4294967296"
    using payload_chunk [OF _ assms(1)] by metis
  have "(B, k + 8) \<noteq> (A, s)" using ne B(2) by auto
  then have "B + (k + 8) \<le> A \<or> A + s \<le> B"
    using blocks_apart [of B "k + 8" True a cs A s True] used_chunk_block [OF B(1)] used_chunk_block [OF assms(3)] guarded_pos [OF assms(2)]
    by auto
  moreover have "user_byte a nl cs (W (B + 8 + i))"
    using B i used_chunk_block [OF B(1)] by (intro user_byte_payload [where s = "k + 8"]) auto
  ultimately show "m' (p + W i) = m (p + W i)"
    using assms(4) [of "W (B + 8 + i)"] B(2,3) i by auto
qed

section \<open>The operations on blocks\<close>

lemma best_fit_view:
  assumes "heap_ok a nl cs {} fl h" and "tidy cs" and "granular g cs" and "16 dvd a" and "mm_heapsize h = W (extent cs)" and "sem_ok pid h"
    and "g dvd 16" and "extent cs = T" and "best_fit (chunk_for n) cs xs s ys"
    and "heap_ok a nl (xs @ carve (chunk_for n) s @ ys) {} fl' (h\<lparr>mm_mem := m'\<rparr>)"
    and "\<And>x. user_byte a nl cs x \<Longrightarrow> m' x = mm_mem h x"
  obtains k where "n \<le> k" and "W (a + extent xs + 8) \<noteq> 0" and "(W (a + extent xs + 8), k) \<notin> payloads a cs"
    and "mm_view g a nl T pid (insert (W (a + extent xs + 8), k) (payloads a cs)) (h\<lparr>mm_mem := m'\<rparr>)"
    and "same_on (payloads a cs) (mm_mem h) m'"
proof -
  note cb = chunk_for_bounds [of n]
  have cs: "cs = xs @ (s, False) # ys" and r: "chunk_for n \<le> s" using assms(9) by (auto simp: best_fit_def)
  obtain t where t: "used_chunks a (xs @ carve (chunk_for n) s @ ys) = insert (a + extent xs, t) (used_chunks a cs)"
      "chunk_for n \<le> t" "(a + extent xs, t) \<notin> used_chunks a cs"
    using used_chunks_carve [OF r cb(1) refl] cs by metis
  have "g dvd chunk_for n" using assms(7) cb(4) by (rule dvd_trans)
  then have inv: "heap_inv g a nl (xs @ carve (chunk_for n) s @ ys) (h\<lparr>mm_mem := m'\<rparr>)"
    using tidy_carve [of xs s ys] granular_carve [of g xs s ys] assms(2-5) r
    by (intro heap_invI [OF assms(10)]) (auto simp: cs)
  have pl: "placed a nl (extent (xs @ carve (chunk_for n) s @ ys))" using heap_okD(2) [OF assms(10)] .
  note fresh = payload_fresh [OF pl t(1,3)]
  have "same_on (payloads a cs) (mm_mem h) m'"
    using same_on_payloads [OF heap_okD(2) [OF assms(1)]] assms(11) by blast
  moreover have "extent (xs @ carve (chunk_for n) s @ ys) = T" using assms(8) r by (simp add: cs)
  ultimately show thesis
    using that [of "t - 8"] fresh [folded payloads_def] t(2) cb(2) mm_viewI [OF assms(6) inv] payloads_insert [OF t(1)] by simp
qed

lemma malloc_view:
  assumes "mm_view g a nl T pid L h" and "g dvd 16" and "0 < n" and "unat n + 23 < 4294967296"
  obtains (none) "mm_malloc pid n h = return_run (0, h)"
  | (some) p k h' where "mm_malloc pid n h = return_run (p, h')" and "p \<noteq> 0" and "unat n \<le> k" and "(p, k) \<notin> L"
      and "mm_view g a nl T pid (insert (p, k) L) h'" and "same_on L (mm_mem h) (mm_mem h')"
proof -
  obtain cs fl where v: "heap_ok a nl cs {} fl h" "tidy cs" "granular g cs" "16 dvd a" "mm_heapsize h = W (extent cs)"
      "sem_ok pid h" and L: "L = payloads a cs" and T: "extent cs = T"
    by (rule mm_viewE [OF assms(1)])
  have n: "0 < unat n" using assms(3) by (simp add: word_less_nat_alt)
  show thesis
    using v(1,6) n assms(4)
  proof (cases rule: mm_malloc_cases)
    case none
    then show ?thesis using that(1) by simp
  next
    case (fit xs s ys m' fl')
    from best_fit_view [OF v assms(2) T fit(1,3,4)] obtain k where "unat n \<le> k" "W (a + extent xs + 8) \<noteq> 0"
        "(W (a + extent xs + 8), k) \<notin> payloads a cs"
        "mm_view g a nl T pid (insert (W (a + extent xs + 8), k) (payloads a cs)) (h\<lparr>mm_mem := m'\<rparr>)" "same_on (payloads a cs) (mm_mem h) m'"
      by metis
    with fit(2) show ?thesis using that(2) [of "W (a + extent xs + 8)" "h\<lparr>mm_mem := m'\<rparr>" k] L by simp
  qed
qed

lemma zalloc_view:
  assumes "mm_view g a nl T pid L h" and "g dvd 16" and "0 < n" and "unat n + 23 < 4294967296"
  obtains (none) "mm_zalloc pid n h = return_run (0, h)"
  | (some) p k h' where "mm_zalloc pid n h = return_run (p, h')" and "p \<noteq> 0" and "unat n \<le> k" and "(p, k) \<notin> L"
      and "mm_view g a nl T pid (insert (p, k) L) h'" and "same_on L (mm_mem h) (mm_mem h')"
      and "\<And>i. i < unat n \<Longrightarrow> mm_mem h' (p + W i) = 0"
proof -
  obtain cs fl where v: "heap_ok a nl cs {} fl h" "tidy cs" "granular g cs" "16 dvd a" "mm_heapsize h = W (extent cs)"
      "sem_ok pid h" and L: "L = payloads a cs" and T: "extent cs = T"
    by (rule mm_viewE [OF assms(1)])
  have n: "0 < unat n" using assms(3) by (simp add: word_less_nat_alt)
  show thesis
    using v(1,6) n assms(4)
  proof (cases rule: mm_zalloc_cases)
    case none
    then show ?thesis using that(1) by simp
  next
    case (fit xs s ys m' fl')
    from best_fit_view [OF v assms(2) T fit(1,3,4)] obtain k where "unat n \<le> k" "W (a + extent xs + 8) \<noteq> 0"
        "(W (a + extent xs + 8), k) \<notin> payloads a cs"
        "mm_view g a nl T pid (insert (W (a + extent xs + 8), k) (payloads a cs)) (h\<lparr>mm_mem := m'\<rparr>)" "same_on (payloads a cs) (mm_mem h) m'"
      by metis
    with fit(2,5) show ?thesis using that(2) [of "W (a + extent xs + 8)" "h\<lparr>mm_mem := m'\<rparr>" k] L by simp
  qed
qed

lemma user_byte_flag:
  "user_byte a nl (xs @ (s, True) # ys) x \<Longrightarrow> \<not> (a + extent xs \<le> unat x \<and> unat x < a + extent xs + s) \<Longrightarrow>
    user_byte a nl (xs @ (s, False) # ys) x"
  by (auto simp: user_byte_used)

lemma free_view:
  assumes "mm_view g a nl T pid L h" and "(p, k) \<in> L"
  obtains h' where "mm_free pid p h = return_run h'" and "mm_view g a nl T pid (L - {(p, k)}) h'"
    and "same_on (L - {(p, k)}) (mm_mem h) (mm_mem h')"
proof -
  obtain cs fl where v: "heap_ok a nl cs {} fl h" "tidy cs" "granular g cs" "16 dvd a" "mm_heapsize h = W (extent cs)"
      "sem_ok pid h" and L: "L = payloads a cs" and T: "extent cs = T"
    by (rule mm_viewE [OF assms(1)])
  have g: "guarded cs" "placed a nl (extent cs)" using heap_okD [OF v(1)] by simp_all
  obtain A where A: "(A, k + 8) \<in> used_chunks a cs" "p = W (A + 8)"
    using payload_chunk [OF _ g(2)] assms(2) L by metis
  obtain xs ys where sp: "cs = xs @ (k + 8, True) # ys" "A = a + extent xs" "16 \<le> k + 8"
    by (rule used_chunk_split [OF A(1)])
  have xs: "xs \<noteq> []" using guarded_mid(1) [of xs "k + 8" True ys] g(1) sp(1,3) by auto
  obtain m' fl' where m': "mm_free pid (W (A + 8)) h = return_run (h\<lparr>mm_mem := m'\<rparr>)"
      "heap_ok a nl (coalesce xs (k + 8) ys) {} fl' (h\<lparr>mm_mem := m'\<rparr>)"
      "\<And>x. user_byte a nl (xs @ (k + 8, False) # ys) x \<Longrightarrow> m' x = mm_mem h x"
    using mm_free_ok [OF v(1) [unfolded sp(1)] v(6) sp(3,2)] by metis
  have ext: "extent (coalesce xs (k + 8) ys) = extent cs"
    using extent_coalesce [OF xs] sp(1) by simp
  have "heap_inv g a nl (coalesce xs (k + 8) ys) (h\<lparr>mm_mem := m'\<rparr>)"
    using tidy_coalesce [OF _ xs] granular_coalesce [OF _ sp(3) xs] v(2-5) sp(1) ext by (intro heap_invI [OF m'(2)]) simp_all
  note view = mm_viewI [OF v(6) this ext [unfolded T]]
  have "payloads a (coalesce xs (k + 8) ys) = L - {(p, k)}"
    using payloads_remove [OF g(2) A(1) used_chunks_coalesce [OF sp(3,2) xs, of ys, folded sp(1)]] L A(2) by simp
  moreover have "same_on (L - {(p, k)}) (mm_mem h) m'"
    using same_on_others [OF g(2,1) A(1), of m' "mm_mem h"] m'(3) user_byte_flag [of a nl xs "k + 8" ys] L A(2) sp(1,2) by simp
  ultimately show thesis
    using that [of "h\<lparr>mm_mem := m'\<rparr>"] m'(1) view A(2) by simp
qed

text \<open>
  \<open>mm_realloc\<close>: the block moves to \<open>q\<close> and has \<open>j\<close> bytes afterwards, with the old contents as far as they fit.
\<close>

definition resized :: "heap_block set \<Rightarrow> u32 \<Rightarrow> nat \<Rightarrow> u32 \<Rightarrow> nat \<Rightarrow> nat \<Rightarrow> memory \<Rightarrow> memory \<Rightarrow> bool" where
  "resized L p k q j n m m' \<longleftrightarrow> q \<noteq> 0 \<and> n \<le> j \<and> (q, j) \<notin> L - {(p, k)} \<and> same_on (L - {(p, k)}) m m' \<and> (\<forall>i < min k n. m' (q + W i) = m (p + W i))"

lemma realloc_shrink_view:
  assumes "heap_inv 16 a nl (xs @ (k + 8, True) # ys) h" and "sem_ok pid h" and "A = a + extent xs" and "8 \<le> k" and "extent (xs @ (k + 8, True) # ys) = T"
    and "0 < n" and "n + 23 < 4294967296" and "chunk_for n \<le> k + 8"
  defines "L \<equiv> payloads a (xs @ (k + 8, True) # ys)"
  obtains j h' where "mm_realloc pid (W (A + 8)) (W n) h = return_run (W (A + 8), h')"
    and "resized L (W (A + 8)) k (W (A + 8)) j n (mm_mem h) (mm_mem h')"
    and "mm_view 16 a nl T pid (insert (W (A + 8), j) (L - {(W (A + 8), k)})) h'"
proof -
  let ?cs = "xs @ (k + 8, True) # ys" and ?r = "chunk_for n"
  obtain fl where v: "heap_ok a nl ?cs {} fl h" "tidy ?cs" "granular 16 ?cs" "16 dvd a" "mm_heapsize h = W (extent ?cs)"
    by (rule heap_invE [OF assms(1)])
  note g = heap_okD(1,2) [OF v(1)] and cb = chunk_for_bounds [of n]
  have s: "16 dvd k + 8" "16 \<le> k + 8" using v(3) assms(4) by simp_all
  let ?new = "xs @ (if ?r < k + 8 then shrunk ?r (k + 8) ys else (k + 8, True) # ys)"
  obtain m' fl' where m': "mm_realloc pid (W (A + 8)) (W n) h = return_run (W (A + 8), h\<lparr>mm_mem := m'\<rparr>)"
      "heap_ok a nl ?new {} fl' (h\<lparr>mm_mem := m'\<rparr>)" "\<And>x. user_byte a nl ?new x \<Longrightarrow> m' x = mm_mem h x"
    by (rule mm_realloc_shrink [OF v(1) assms(2,3) s(1) assms(6-8)]) (rule that)
  have A: "(A, k + 8) \<in> used_chunks a ?cs" using s(2) assms(3) by simp
  obtain t where t: "used_chunks a ?new = insert (A, t) (used_chunks a ?cs - {(A, k + 8)})" "?r \<le> t"
  proof (cases "?r < k + 8")
    case True
    then show ?thesis using used_chunks_shrunk [OF cb(1) assms(8,3), of ys] that by auto
  next
    case False
    then show ?thesis using that [of "k + 8"] A assms(8) by auto
  qed
  have ext: "extent ?new = extent ?cs"
    using assms(8) by (cases "(?r, k + 8, ys)" rule: shrunk.cases) auto
  have inv: "heap_inv 16 a nl ?new (h\<lparr>mm_mem := m'\<rparr>)"
    using tidy_shrunk [OF v(2), of ?r] granular_shrunk [OF v(3) cb(4) s(2)] v(2-5) ext
    by (intro heap_invI [OF m'(2)]) (simp_all split del: if_split, simp_all)
  have "(A, t) \<notin> used_chunks a ?cs - {(A, k + 8)}" using overlap_not_used [OF g(1) A, of A t] t(2) cb(1) by simp
  note pl = payloads_replace [OF g(2) A heap_okD(2) [OF m'(2)] t(1) this, folded L_def, simplified add_diff_cancel_right']
  have "(A, t) \<in> used_chunks a ?new" using t(1) by simp
  then have blk: "(A, t, True) \<in> set (blocks a ?new)" "16 \<le> t" and rng: "A + t < 4294967296"
    using used_chunk_block used_chunks_range heap_okD(2) [OF m'(2)] by (fastforce simp: placed_def)+
  have "m' (W (A + 8) + W i) = mm_mem h (W (A + 8) + W i)" if "i < min k n" for i
  proof -
    have "i < t - 8" using that t(2) cb(2) by auto
    from m'(3) [OF user_byte_payload [OF blk(1) this rng]] show ?thesis by simp
  qed
  moreover have "same_on (L - {(W (A + 8), k)}) (mm_mem h) m'"
  proof -
    have "m' x = mm_mem h x" if x: "user_byte a nl ?cs x" "\<not> (A \<le> unat x \<and> unat x < A + (k + 8))" for x
      using m'(3) [of x] x(1) user_byte_shrunk_keep [OF user_byte_flag [of a nl xs "k + 8" ys x], of ?r] x assms(3,8) by (auto split: if_splits)
    then show ?thesis using same_on_others [OF g(2,1) A] L_def by simp
  qed
  ultimately show thesis
    using that [of "h\<lparr>mm_mem := m'\<rparr>" "t - 8"] m'(1) mm_viewI [OF assms(2) inv ext [unfolded assms(5)]] pl t(2) cb(2) by (simp add: resized_def)
qed

lemma realloc_grow_view:
  assumes "heap_inv 16 a nl (xs @ (k + 8, True) # ys) h" and "sem_ok pid h" and "A = a + extent xs" and "8 \<le> k" and "extent (xs @ (k + 8, True) # ys) = T"
    and "0 < n" and "n + 47 < 4294967296" and "k + 8 < chunk_for n"
  defines "L \<equiv> payloads a (xs @ (k + 8, True) # ys)"
  obtains (none) "mm_realloc pid (W (A + 8)) (W n) h = return_run (0, h)"
  | (some) q j h' where "mm_realloc pid (W (A + 8)) (W n) h = return_run (q, h')"
    and "resized L (W (A + 8)) k q j n (mm_mem h) (mm_mem h')"
    and "mm_view 16 a nl T pid (insert (q, j) (L - {(W (A + 8), k)})) h'"
proof -
  let ?cs = "xs @ (k + 8, True) # ys" and ?r = "chunk_for n"
  obtain fl where v: "heap_ok a nl ?cs {} fl h" "tidy ?cs" "granular 16 ?cs" "16 dvd a" "mm_heapsize h = W (extent ?cs)"
    by (rule heap_invE [OF assms(1)])
  note g = heap_okD(1,2) [OF v(1)] and cb = chunk_for_bounds [of n]
  have s: "16 \<le> k + 8" and ne: "xs \<noteq> []" "ys \<noteq> []" using guarded_mid [OF g(1)] assms(4) by auto
  have A: "(A, k + 8) \<in> used_chunks a ?cs" using s assms(3) by simp
  show thesis
    using v(1) assms(2,3) s v(3) assms(6-8)
  proof (cases rule: mm_realloc_grow)
    case none
    then show ?thesis by (rule that(1))
  next
    case (extended p1 p2 m' fl')
    let ?new = "left_of xs p1 @ (k + 8 + p1 + p2, True) # right_of ys p2"
    have u: "used_chunks a ?new = insert (A - p1, k + 8 + p1 + p2) (used_chunks a ?cs - {(A, k + 8)})"
      by (rule used_chunks_left_right [OF s assms(3) extended(1,2) ne extended(8)])
    have ext: "extent ?new = extent ?cs"
      using extent_left_of [OF extended(1) ne(1)] extent_right_of [OF extended(2) ne(2)] by simp
    have inv: "heap_inv 16 a nl ?new (h\<lparr>mm_mem := m'\<rparr>)"
    proof (rule heap_invI [OF extended(7)])
      show "tidy ?new" using tidy_right_of [OF tidy_left_of [OF v(2) extended(1)] extended(2)] .
      show "granular 16 ?new"
        using granular_left_of [OF _ extended(1,4) ne(1)] granular_right_of [OF _ extended(2,5) ne(2)] v(3) s extended(4,5) by auto
      show "mm_heapsize h = W (extent ?new)" unfolding ext by (rule v(5))
    qed (rule v(4))
    have "(A - p1, k + 8 + p1 + p2) \<notin> used_chunks a ?cs - {(A, k + 8)}" by (rule overlap_not_used [OF g(1) A]) auto
    note pl = payloads_replace [OF g(2) A heap_okD(2) [OF extended(7)] u this, folded L_def, simplified add_diff_cancel_right']
    have "m' x = mm_mem h x" if "user_byte a nl ?cs x" "\<not> (A \<le> unat x \<and> unat x < A + (k + 8))" for x
      using extended(10) [of x] user_byte_flag [of a nl xs "k + 8" ys x] that assms(3) by simp
    then have "same_on (L - {(W (A + 8), k)}) (mm_mem h) m'"
      using same_on_others [OF g(2,1) A] L_def by simp
    with pl(2,3) extended(3,9) cb(2) have "resized L (W (A + 8)) k (W (A - p1 + 8)) (k + 8 + p1 + p2 - 8) n (mm_mem h) m'"
      by (simp add: resized_def)
    with that(2) extended(6) mm_viewI [OF assms(2) inv ext [unfolded assms(5)]] pl(1) show ?thesis by simp
  next
    case (moved xs2 s2 ys2 xs3 ys3 m' fl')
    let ?R = "chunk_for ?r" and ?B = "a + extent xs2"
    have r: "?R \<le> s2" and cs: "?cs = xs2 @ (s2, False) # ys2" using moved(1) by (auto simp: best_fit_def)
    obtain t where t: "used_chunks a (xs2 @ carve ?R s2 @ ys2) = insert (?B, t) (used_chunks a ?cs)" "?R \<le> t" "(?B, t) \<notin> used_chunks a ?cs"
      using used_chunks_carve [OF r chunk_for_bounds(1) refl, of a xs2 ys2] unfolding cs [symmetric] by metis
    have ne3: "xs3 \<noteq> []"
      using moved(3) assms(3) ne(1) guarded_pos [OF g(1)] by (cases xs) auto
    have tg: "tidy (xs3 @ (k + 8, True) # ys3)" "granular 16 (xs3 @ (k + 8, True) # ys3)"
      using tidy_carve [of xs2 s2 ys2 ?R] granular_carve [of 16 xs2 s2 ys2 ?R] v(2,3) chunk_for_bounds(4) [of ?r]
      unfolding moved(2) [symmetric] cs [symmetric] by simp_all
    have "extent (xs2 @ carve ?R s2 @ ys2) = extent ?cs" using cs r by simp
    then have ext: "extent (coalesce xs3 (k + 8) ys3) = extent ?cs"
      using extent_coalesce [OF ne3, of "k + 8" ys3] moved(2) by simp
    have inv: "heap_inv 16 a nl (coalesce xs3 (k + 8) ys3) (h\<lparr>mm_mem := m'\<rparr>)"
      using tidy_coalesce [OF tg(1) ne3] granular_coalesce [OF tg(2) s ne3] v(4,5) ext by (intro heap_invI [OF moved(5)]) simp_all
    have u: "used_chunks a (coalesce xs3 (k + 8) ys3) = insert (?B, t) (used_chunks a ?cs - {(A, k + 8)})"
      using used_chunks_coalesce [OF s moved(3) ne3, of ys3] t(1,3) A unfolding moved(2) by auto
    have "(?B, t) \<notin> used_chunks a ?cs - {(A, k + 8)}" using t(3) by simp
    note pl = payloads_replace [OF g(2) A heap_okD(2) [OF moved(5)] u this, folded L_def, simplified add_diff_cancel_right']
    have "same_on (L - {(W (A + 8), k)}) (mm_mem h) m'"
      using same_on_others [OF g(2,1) A] moved(7) L_def by simp
    moreover have "n \<le> t - 8" using t(2) cb(2) chunk_for_bounds(2) [of ?r] by simp
    ultimately have "resized L (W (A + 8)) k (W (?B + 8)) (t - 8) n (mm_mem h) m'"
      using pl(2,3) moved(6) by (simp add: resized_def)
    with that(2) moved(4) mm_viewI [OF assms(2) inv ext [unfolded assms(5)]] pl(1) show ?thesis by simp
  qed
qed

lemma realloc_view:
  assumes "mm_view 16 a nl T pid L h" and "(p, k) \<in> L" and "0 < n" and "unat n + 47 < 4294967296"
  obtains (none) "mm_realloc pid p n h = return_run (0, h)"
  | (some) q j h' where "mm_realloc pid p n h = return_run (q, h')" and "resized L p k q j (unat n) (mm_mem h) (mm_mem h')"
      and "mm_view 16 a nl T pid (insert (q, j) (L - {(p, k)})) h'"
proof -
  obtain cs where inv: "heap_inv 16 a nl cs h" and sem: "sem_ok pid h" and L: "L = payloads a cs" and T: "extent cs = T"
    using assms(1) by (auto simp: mm_view_def)
  obtain A where A: "(A, k + 8) \<in> used_chunks a cs" "p = W (A + 8)" "8 \<le> k"
    using payload_chunk [OF _ heap_inv_placed [OF inv]] assms(2) L by metis
  obtain xs ys where sp: "cs = xs @ (k + 8, True) # ys" "A = a + extent xs"
    by (rule used_chunk_split [OF A(1)])
  have n: "0 < unat n" "unat n + 23 < 4294967296" using assms(3,4) by (simp_all add: word_less_nat_alt)
  note inv' = inv [unfolded sp(1)]
  show thesis
  proof (cases "chunk_for (unat n) \<le> k + 8")
    case True
    show ?thesis
      by (rule realloc_shrink_view [OF inv' sem sp(2) A(3) T [unfolded sp(1)] n True]) (rule that(2); simp add: A(2) L sp(1))
  next
    case False
    then have "k + 8 < chunk_for (unat n)" by simp
    with inv' sem sp(2) A(3) T [unfolded sp(1)] n(1) assms(4) show ?thesis
      by (cases rule: realloc_grow_view) (use that in \<open>auto simp: A(2) L sp(1)\<close>)
  qed
qed

lemma extent_shrunk: "r \<le> s \<Longrightarrow> extent (shrunk r s ys) = s + extent ys"
  by (cases "(r, s, ys)" rule: shrunk.cases) auto

lemma memalign_view:
  assumes "mm_view 8 a nl T pid L h" and "al = 2 ^ k" and "32 \<le> al" and "0 < n" and "unat n + 2 * al + 38 < 4294967296"
  obtains (none) "mm_memalign pid (W al) n h = return_run (0, h)"
  | (some) p j h' where "mm_memalign pid (W al) n h = return_run (p, h')" and "p \<noteq> 0" and "al dvd unat p" and "unat n \<le> j"
      and "(p, j) \<notin> L" and "mm_view 8 a nl T pid (insert (p, j) L) h'" and "same_on L (mm_mem h) (mm_mem h')"
proof -
  obtain cs fl where v: "heap_ok a nl cs {} fl h" "tidy cs" "granular 8 cs" "16 dvd a" "mm_heapsize h = W (extent cs)"
      "sem_ok pid h" and L: "L = payloads a cs" and T: "extent cs = T"
    by (rule mm_viewE [OF assms(1)])
  let ?sz = "(unat n + 15) div 16 * 16"
  have n: "0 < unat n" using assms(4) by (simp add: word_less_nat_alt)
  have a8: "8 dvd a" using v(4) by (rule dvd_trans [rotated]) simp
  have sz: "?sz + 2 * al + 23 < 4294967296" "16 \<le> ?sz" "unat n \<le> ?sz" using assms(5) n by auto
  show thesis
    using v(1,6) a8 v(3) assms(2,3) n sz(1)
  proof (cases rule: mm_memalign_ok)
    case none
    then show ?thesis using that(1) by simp
  next
    case (fit xs s ys d t ts m' fl')
    let ?A = "a + extent xs" and ?new = "xs @ rest d @ shrunk (?sz + 8) (t - d) (ts @ ys)"
    have cs: "cs = xs @ (s, False) # ys" and r: "chunk_for (?sz + 2 * al) \<le> s" using fit(1) by (auto simp: best_fit_def)
    let ?r = "chunk_for (?sz + 2 * al)"
    note cb = chunk_for_bounds [of "?sz + 2 * al"]
    have t: "t + extent ts = s" "\<And>b. used_chunks b ts = {}" "16 \<le> t"
      using fit(2) r cb(1) by (auto simp: carve_def split: if_splits)
    have "8 dvd ?r" by (rule dvd_trans [OF _ cb(4)]) simp
    then have g: "granular 8 (xs @ (t, True) # ts @ ys)" "8 dvd t" and ty: "tidy (xs @ (t, True) # ts @ ys)"
      using granular_carve [of 8 xs s ys ?r] tidy_carve [of xs s ys ?r] v(2,3) fit(2) t(3) unfolding cs by auto
    have A8: "8 dvd ?A" using a8 granular_extent [of xs] v(3) by (simp add: cs)
    have "8 dvd ?A + 8 + d"
      using fit(3) assms(2,3) power_le_imp_le_exp [of "2 :: nat" 5 k] le_imp_power_dvd [of 3 k "2 :: nat"] by (auto intro: dvd_trans)
    with A8 have d8: "8 dvd d" by (simp add: dvd_add_right_iff)
    have sz8: "8 dvd ?sz + 8" by (simp add: dvd_add_left_iff dvd_mult)
    have le: "?sz + 8 \<le> t - d" "16 \<le> t - d" "d \<le> t" using fit(4) sz(2) by auto
    have used: "xs = [] \<or> snd (last xs)" using v(2) by (auto simp: cs tidy_append)
    have ext: "extent ?new = extent cs" using extent_shrunk [OF le(1)] le(3) t(1) by (simp add: cs)
    have inv: "heap_inv 8 a nl ?new (h\<lparr>mm_mem := m'\<rparr>)"
    proof (rule heap_invI [OF fit(6)])
      show "tidy ?new" using tidy_shrunk [of "xs @ rest d" "t - d" "ts @ ys"] tidy_lead [OF ty used, of d "t - d"] by simp
      have "granular 8 ((xs @ rest d) @ (t - d, True) # ts @ ys)" using g d8 granular_rest [OF d8] by auto
      from granular_shrunk [OF this sz8 le(2)] show "granular 8 ?new" by simp
      show "mm_heapsize h = W (extent ?new)" unfolding ext by (rule v(5))
    qed (rule v(4))
    have A: "?A + d = a + extent (xs @ rest d)" by simp
    obtain t2 where t2: "used_chunks a ((xs @ rest d) @ shrunk (?sz + 8) (t - d) (ts @ ys))
        = insert (?A + d, t2) (used_chunks a ((xs @ rest d) @ (t - d, True) # ts @ ys) - {(?A + d, t - d)})" "?sz + 8 \<le> t2"
      using used_chunks_shrunk [OF _ le(1) A] sz(2) by (metis trans_le_add1)
    have "used_chunks a ((xs @ rest d) @ (t - d, True) # ts @ ys) - {(?A + d, t - d)} = used_chunks a cs"
    proof -
      have "(?A + d, t - d) \<notin> used_chunks a cs"
        using le(2) used_chunks_range [of "?A + d" "t - d" a xs] used_chunks_range [of "?A + d" "t - d" "?A + s" ys] t(1) le(3) by (auto simp: cs)
      moreover have "used_chunks b (rest d) = {}" for b by (simp add: rest_def)
      ultimately show ?thesis using t(1,2) le by (auto simp: cs add.assoc)
    qed
    with t2(1) have u: "used_chunks a ?new = insert (?A + d, t2) (used_chunks a cs)" by simp
    have new: "(?A + d, t2) \<notin> used_chunks a cs"
      using sz(2) t2(2) t(1) le used_chunks_range [of "?A + d" t2 a xs] used_chunks_range [of "?A + d" t2 "?A + s" ys] by (auto simp: cs)
    note pl = payloads_insert [OF u]
    note fresh = payload_fresh [OF heap_okD(2) [OF fit(6)] u new, folded payloads_def]
    have "same_on L (mm_mem h) m'" using same_on_payloads [OF heap_okD(2) [OF v(1)] fit(7)] L by simp
    then show ?thesis
      using fresh that(2) [of "W (?A + d + 8)" "h\<lparr>mm_mem := m'\<rparr>" "t2 - 8"] fit(3,5) mm_viewI [OF v(6) inv ext [unfolded T]] pl L t2(2) sz(3)
      by (simp add: ac_simps)
  qed
qed

end
