(* ===== verification/Mm_Arrays.thy ===== *)
theory Mm_Arrays
  imports Mm_Client
begin

text \<open>
  The contract of a heap and its clients. A client asks for arrays of bytes, writes into them, resizes and
  releases them, and expects each to hold what it wrote whatever happens to the others. The locale
  \<open>allocator\<close> has the laws of the operations on blocks; in it every sequence of requests is shown to behave
  like operations on independent lists of bytes. The allocator of NuttX is an instance.
\<close>

section \<open>Requests\<close>

type_synonym array = "u32 \<times> u8 list"

definition read_bytes :: "memory \<Rightarrow> u32 \<Rightarrow> nat \<Rightarrow> u8 list" where
  "read_bytes m p n = map (\<lambda>i. m (p + W i)) [0..<n]"

lemma length_read_bytes [simp]: "length (read_bytes m p n) = n"
  by (simp add: read_bytes_def)

lemma nth_read_bytes [simp]: "i < n \<Longrightarrow> read_bytes m p n ! i = m (p + W i)"
  by (simp add: read_bytes_def)

datatype request = Req_malloc u32 | Req_zalloc u32 | Req_realloc nat u32 | Req_free nat | Req_write nat nat u8

text \<open>
  A client keeps its arrays in a list, each with the bytes it expects there; requests name arrays by
  position. A request for an array that is not there has no effect.
\<close>

fun serve :: "(u32 \<Rightarrow> 'h \<Rightarrow> (u32 \<times> 'h) run) \<Rightarrow> (u32 \<Rightarrow> 'h \<Rightarrow> (u32 \<times> 'h) run) \<Rightarrow> (u32 \<Rightarrow> u32 \<Rightarrow> 'h \<Rightarrow> (u32 \<times> 'h) run)
    \<Rightarrow> (u32 \<Rightarrow> 'h \<Rightarrow> 'h run) \<Rightarrow> (u32 \<Rightarrow> u8 \<Rightarrow> 'h \<Rightarrow> 'h) \<Rightarrow> ('h \<Rightarrow> memory) \<Rightarrow> request \<Rightarrow> 'h \<times> array list
    \<Rightarrow> ('h \<times> array list) run" where
  "serve malloc zalloc realloc free put get (Req_malloc n) (h, bs) =
     next_run (malloc n h) (\<lambda>(p, h).
       return_run (h, if p = 0 then bs else bs @ [(p, read_bytes (get h) p (unat n))]))"
| "serve malloc zalloc realloc free put get (Req_zalloc n) (h, bs) =
     next_run (zalloc n h) (\<lambda>(p, h).
       return_run (h, if p = 0 then bs else bs @ [(p, replicate (unat n) 0)]))"
| "serve malloc zalloc realloc free put get (Req_realloc i n) (h, bs) =
     (if i < length bs
      then next_run (realloc (fst (bs ! i)) n h) (\<lambda>(q, h).
             return_run (h, if q = 0 then bs
               else bs[i := (q, take (unat n) (snd (bs ! i)) @
                                drop (length (snd (bs ! i))) (read_bytes (get h) q (unat n)))]))
      else return_run (h, bs))"
| "serve malloc zalloc realloc free put get (Req_free i) (h, bs) =
     (if i < length bs
      then next_run (free (fst (bs ! i)) h) (\<lambda>h. return_run (h, take i bs @ drop (Suc i) bs))
      else return_run (h, bs))"
| "serve malloc zalloc realloc free put get (Req_write i j v) (h, bs) =
     return_run (if i < length bs \<and> j < length (snd (bs ! i))
                 then (put (fst (bs ! i) + W j) v h, bs[i := (fst (bs ! i), (snd (bs ! i))[j := v])])
                 else (h, bs))"

fun good_request :: "nat \<Rightarrow> request \<Rightarrow> bool" where
  "good_request lim (Req_malloc n) = (0 < n \<and> unat n \<le> lim)"
| "good_request lim (Req_zalloc n) = (0 < n \<and> unat n \<le> lim)"
| "good_request lim (Req_realloc i n) = (0 < n \<and> unat n \<le> lim)"
| "good_request lim _ = True"

text \<open>The arrays \<open>bs\<close> are in the blocks \<open>L\<close> of the memory \<open>m\<close>, one in each.\<close>

definition arrays_at :: "heap_block set \<Rightarrow> memory \<Rightarrow> array list \<Rightarrow> bool" where
  "arrays_at L m bs \<longleftrightarrow> distinct (map fst bs) \<and> fst ` L = fst ` set bs \<and>
     (\<forall>(p, c) \<in> set bs. \<exists>k. (p, k) \<in> L \<and> length c \<le> k \<and> c = read_bytes m p (length c))"

lemma arrays_at_entry:
  "arrays_at L m bs \<Longrightarrow> (p, c) \<in> set bs \<Longrightarrow> \<exists>k. (p, k) \<in> L \<and> length c \<le> k \<and> c = read_bytes m p (length c)"
  unfolding arrays_at_def by fastforce

lemma same_on_read:
  assumes "same_on L m m'" and "(p, k) \<in> L" and "length c \<le> k" and "c = read_bytes m p (length c)"
  shows "c = read_bytes m' p (length c)"
proof (rule nth_equalityI)
  fix i assume i: "i < length c"
  then have "c ! i = read_bytes m p (length c) ! i" using assms(4) by simp
  with i show "c ! i = read_bytes m' p (length c) ! i"
    using same_onD [OF assms(1,2), of i] assms(3) by simp
qed simp

lemma arrays_at_add:
  assumes "arrays_at L m (us @ vs)" and "same_on L m m'" and "p \<notin> fst ` L" and "length c \<le> k" and "c = read_bytes m' p (length c)"
  shows "arrays_at (insert (p, k) L) m' (us @ (p, c) # vs)"
proof -
  have "\<exists>j. (q, j) \<in> insert (p, k) L \<and> length d \<le> j \<and> d = read_bytes m' q (length d)" if "(q, d) \<in> set (us @ vs)" for q d
    using arrays_at_entry [OF assms(1) that] same_on_read [OF assms(2)] by blast
  moreover have "fst ` L = fst ` set (us @ vs)" "distinct (map fst (us @ vs))" using assms(1) by (simp_all add: arrays_at_def)
  ultimately show ?thesis
    unfolding arrays_at_def using assms(3-5) by auto
qed

lemma arrays_at_remove:
  assumes "arrays_at L m (us @ (p, c) # vs)" and "(p, k) \<in> L" and "\<And>j. (p, j) \<in> L \<Longrightarrow> j = k"
  shows "arrays_at (L - {(p, k)}) m (us @ vs)" and "length c \<le> k" and "c = read_bytes m p (length c)"
proof -
  show "length c \<le> k" and "c = read_bytes m p (length c)"
    using arrays_at_entry [OF assms(1), of p c] assms(3) by auto
  have d: "distinct (map fst (us @ (p, c) # vs))" "fst ` L = fst ` set (us @ (p, c) # vs)" using assms(1) by (simp_all add: arrays_at_def)
  have "\<exists>j. (q, j) \<in> L - {(p, k)} \<and> length e \<le> j \<and> e = read_bytes m q (length e)" if "(q, e) \<in> set (us @ vs)" for q e
  proof -
    have "q \<noteq> p" using d(1) that by force
    then show ?thesis using arrays_at_entry [OF assms(1), of q e] that by auto
  qed
  moreover have "fst ` (L - {(p, k)}) = fst ` L - {p}" using assms(3) by force
  ultimately show "arrays_at (L - {(p, k)}) m (us @ vs)"
    unfolding arrays_at_def using d by auto
qed

lemma split_nth: "i < length bs \<Longrightarrow> \<exists>us vs. bs = us @ bs ! i # vs \<and> length us = i"
  using id_take_nth_drop [of i bs] by (metis length_take min.absorb2 less_imp_le)

text \<open>The outcomes of an allocation and of a change of size.\<close>

definition granted :: "(heap_block set \<Rightarrow> 'h \<Rightarrow> bool) \<Rightarrow> ('h \<Rightarrow> memory) \<Rightarrow> heap_block set \<Rightarrow> u32 \<Rightarrow> 'h \<Rightarrow> u32 \<times> 'h \<Rightarrow> bool" where
  "granted view get L n h = (\<lambda>(p, h'). p = 0 \<and> h' = h \<or> p \<noteq> 0 \<and>
     (\<exists>k. unat n \<le> k \<and> (p, k) \<notin> L \<and> view (insert (p, k) L) h' \<and> same_on L (get h) (get h')))"

definition moved :: "(heap_block set \<Rightarrow> 'h \<Rightarrow> bool) \<Rightarrow> ('h \<Rightarrow> memory) \<Rightarrow> heap_block set \<Rightarrow> u32 \<Rightarrow> nat \<Rightarrow> u32 \<Rightarrow> 'h \<Rightarrow> u32 \<times> 'h \<Rightarrow> bool" where
  "moved view get L p k n h = (\<lambda>(q, h'). q = 0 \<and> h' = h \<or>
     (\<exists>j. resized L p k q j (unat n) (get h) (get h') \<and> view (insert (q, j) (L - {(p, k)})) h'))"

definition arrays_ok :: "(heap_block set \<Rightarrow> 'h \<Rightarrow> bool) \<Rightarrow> ('h \<Rightarrow> memory) \<Rightarrow> 'h \<times> array list \<Rightarrow> bool" where
  "arrays_ok view get = (\<lambda>(h, bs). \<exists>L. view L h \<and> arrays_at L (get h) bs)"

section \<open>The contract\<close>

locale allocator =
  fixes view :: "heap_block set \<Rightarrow> 'h \<Rightarrow> bool"
    and get :: "'h \<Rightarrow> memory"
    and malloc :: "u32 \<Rightarrow> 'h \<Rightarrow> (u32 \<times> 'h) run"
    and zalloc :: "u32 \<Rightarrow> 'h \<Rightarrow> (u32 \<times> 'h) run"
    and realloc :: "u32 \<Rightarrow> u32 \<Rightarrow> 'h \<Rightarrow> (u32 \<times> 'h) run"
    and free :: "u32 \<Rightarrow> 'h \<Rightarrow> 'h run"
    and put :: "u32 \<Rightarrow> u8 \<Rightarrow> 'h \<Rightarrow> 'h"
    and lim :: nat
  assumes apart: "view L h \<Longrightarrow> (p, k) \<in> L \<Longrightarrow> (q, j) \<in> L \<Longrightarrow> i < k \<Longrightarrow> i' < j \<Longrightarrow> p + W i = q + W i' \<Longrightarrow> p = q \<and> i = i'"
    and unique: "view L h \<Longrightarrow> (p, k) \<in> L \<Longrightarrow> (p, j) \<in> L \<Longrightarrow> k = j"
    and malloc_law: "view L h \<Longrightarrow> 0 < n \<Longrightarrow> unat n \<le> lim \<Longrightarrow> runs (granted view get L n h) (malloc n h)"
    and zalloc_law: "view L h \<Longrightarrow> 0 < n \<Longrightarrow> unat n \<le> lim \<Longrightarrow>
      runs (\<lambda>r. granted view get L n h r \<and> (fst r \<noteq> 0 \<longrightarrow> read_bytes (get (snd r)) (fst r) (unat n) = replicate (unat n) 0)) (zalloc n h)"
    and realloc_law: "view L h \<Longrightarrow> (p, k) \<in> L \<Longrightarrow> 0 < n \<Longrightarrow> unat n \<le> lim \<Longrightarrow> runs (moved view get L p k n h) (realloc p n h)"
    and free_law: "view L h \<Longrightarrow> (p, k) \<in> L \<Longrightarrow>
      runs (\<lambda>h'. view (L - {(p, k)}) h' \<and> same_on (L - {(p, k)}) (get h) (get h')) (free p h)"
    and put_law: "view L h \<Longrightarrow> (p, k) \<in> L \<Longrightarrow> i < k \<Longrightarrow>
      view L (put (p + W i) v h) \<and> get (put (p + W i) v h) = (get h)(p + W i := v)"
begin

lemma fresh_pointer: "view (insert (p, k) L) h \<Longrightarrow> (p, k) \<notin> L \<Longrightarrow> p \<notin> fst ` L"
  using unique [of "insert (p, k) L" h p k] by fastforce

lemma grant_ok:
  assumes "view L h" and "arrays_at L (get h) bs" and "granted view get L n h (p, h')"
    and "length c = unat n" and "p \<noteq> 0 \<Longrightarrow> c = read_bytes (get h') p (unat n)"
  shows "arrays_ok view get (h', if p = 0 then bs else bs @ [(p, c)])"
proof (cases "p = 0")
  case True
  with assms(1-3) show ?thesis by (auto simp: arrays_ok_def granted_def)
next
  case False
  then obtain k where k: "unat n \<le> k" "(p, k) \<notin> L" "view (insert (p, k) L) h'" "same_on L (get h) (get h')"
    using assms(3) by (auto simp: granted_def)
  have "arrays_at (insert (p, k) L) (get h') (bs @ [(p, c)])"
    using arrays_at_add [of L "get h" bs "[]" "get h'" p c k] assms(2,4,5) k(1,4) fresh_pointer [OF k(3,2)] False by simp
  with k(3) False show ?thesis by (auto simp: arrays_ok_def)
qed

lemma resize_ok:
  assumes "view L h" and "arrays_at L (get h) (us @ (p, c) # vs)" and "(p, k) \<in> L" and "moved view get L p k n h (q, h')"
  shows "arrays_ok view get (h', if q = 0 then us @ (p, c) # vs
      else us @ (q, take (unat n) c @ drop (length c) (read_bytes (get h') q (unat n))) # vs)"
proof (cases "q = 0")
  case True
  with assms(1,2,4) show ?thesis by (auto simp: arrays_ok_def moved_def resized_def)
next
  case False
  then obtain j where j: "resized L p k q j (unat n) (get h) (get h')" "view (insert (q, j) (L - {(p, k)})) h'"
    using assms(4) by (auto simp: moved_def)
  note r = arrays_at_remove [OF assms(2,3) unique [OF assms(1) _ assms(3)]]
  let ?c = "take (unat n) c @ drop (length c) (read_bytes (get h') q (unat n))"
  have len: "length ?c = unat n" by simp
  have "?c ! i = get h' (q + W i)" if "i < unat n" for i
  proof (cases "i < length c")
    case True
    then have "c ! i = get h (p + W i)" using arg_cong [OF r(3), of "\<lambda>x. x ! i"] by simp
    with True that j(1) r(2) show ?thesis by (simp add: nth_append resized_def)
  qed (use that in \<open>simp add: nth_append\<close>)
  then have c: "?c = read_bytes (get h') q (length ?c)"
    unfolding len by (intro nth_equalityI) simp_all
  have "q \<notin> fst ` (L - {(p, k)})"
    by (rule fresh_pointer [OF j(2)]) (use j(1) in \<open>simp add: resized_def\<close>)
  then have "arrays_at (insert (q, j) (L - {(p, k)})) (get h') (us @ (q, ?c) # vs)"
    using arrays_at_add [OF r(1), of "get h'" q ?c j] j(1) c len by (simp add: resized_def)
  with j(2) False show ?thesis by (auto simp: arrays_ok_def)
qed

lemma write_ok:
  assumes "view L h" and "arrays_at L (get h) (us @ (p, c) # vs)" and "(p, k) \<in> L" and "j < length c"
  shows "arrays_ok view get (put (p + W j) v h, us @ (p, c[j := v]) # vs)"
proof -
  note r = arrays_at_remove [OF assms(2,3) unique [OF assms(1) _ assms(3)]]
  have "j < k" using assms(4) r(2) by simp
  note put = put_law [OF assms(1,3) this, of v]
  have "same_on (L - {(p, k)}) (get h) (get (put (p + W j) v h))"
  proof (rule same_onI)
    fix q l i assume q: "(q, l) \<in> L - {(p, k)}" and i: "i < l"
    then have "q + W i \<noteq> p + W j" using apart [OF assms(1) _ assms(3) i \<open>j < k\<close>] unique [OF assms(1) assms(3)] by auto
    then show "get (put (p + W j) v h) (q + W i) = get h (q + W i)" using put by simp
  qed
  moreover have "p \<notin> fst ` (L - {(p, k)})" using unique [OF assms(1) assms(3)] by auto
  moreover have "c[j := v] = read_bytes (get (put (p + W j) v h)) p (length (c[j := v]))"
  proof (rule nth_equalityI)
    fix i assume "i < length (c[j := v])"
    then have i: "i < length c" by simp
    then have "c ! i = get h (p + W i)" using arg_cong [OF r(3), of "\<lambda>x. x ! i"] by simp
    moreover have "p + W i = p + W j \<longleftrightarrow> i = j" using apart [OF assms(1,3,3), of i j] i r(2) \<open>j < k\<close> by auto
    ultimately show "c[j := v] ! i = read_bytes (get (put (p + W j) v h)) p (length (c[j := v])) ! i"
      using i put by (simp add: nth_list_update)
  qed simp
  ultimately have "arrays_at (insert (p, k) (L - {(p, k)})) (get (put (p + W j) v h)) (us @ (p, c[j := v]) # vs)"
    by (intro arrays_at_add [OF r(1)]) (simp_all add: r(2))
  with put assms(3) show ?thesis by (auto simp: arrays_ok_def insert_absorb)
qed

lemma serve_ok:
  assumes "arrays_ok view get s" and "good_request lim r"
  shows "runs (arrays_ok view get) (serve malloc zalloc realloc free put get r s)"
proof -
  obtain h bs where s: "s = (h, bs)" by (cases s)
  obtain L where L: "view L h" "arrays_at L (get h) bs" using assms(1) by (auto simp: arrays_ok_def s)
  have entry: "\<exists>us c vs p k. bs = us @ (p, c) # vs \<and> length us = i \<and> bs ! i = (p, c) \<and> (p, k) \<in> L" if i: "i < length bs" for i
  proof -
    obtain us vs where "bs = us @ bs ! i # vs" "length us = i" using split_nth [OF i] by blast
    moreover obtain p c where pc: "bs ! i = (p, c)" by (cases "bs ! i")
    moreover have "(p, c) \<in> set bs" using nth_mem [OF i] pc by simp
    ultimately show ?thesis using arrays_at_entry [OF L(2)] by metis
  qed
  show ?thesis
  proof (cases r)
    case (Req_malloc n)
    with malloc_law [OF L(1)] assms(2) have "runs (granted view get L n h) (malloc n h)" by simp
    then show ?thesis
      unfolding s Req_malloc serve.simps runs_next
      by (rule runs_mono) (clarsimp split del: if_split, rule grant_ok [OF L], simp_all)
  next
    case (Req_zalloc n)
    with zalloc_law [OF L(1)] assms(2) have "runs (\<lambda>r. granted view get L n h r \<and>
        (fst r \<noteq> 0 \<longrightarrow> read_bytes (get (snd r)) (fst r) (unat n) = replicate (unat n) 0)) (zalloc n h)" by simp
    then show ?thesis
      unfolding s Req_zalloc serve.simps runs_next
      by (rule runs_mono) (clarsimp split del: if_split, rule grant_ok [OF L], assumption, simp, metis)
  next
    case (Req_realloc i n)
    show ?thesis
    proof (cases "i < length bs")
      case True
      from entry [OF True] obtain us p c vs k where e: "bs = us @ (p, c) # vs" "length us = i" "bs ! i = (p, c)" "(p, k) \<in> L" by blast
      from realloc_law [OF L(1) e(4)] assms(2) Req_realloc have "runs (moved view get L p k n h) (realloc p n h)" by simp
      then have "runs (\<lambda>(q, h'). arrays_ok view get (h', if q = 0 then us @ (p, c) # vs
          else us @ (q, take (unat n) c @ drop (length c) (read_bytes (get h') q (unat n))) # vs)) (realloc p n h)"
        by (rule runs_mono) (use resize_ok [OF L(1) L(2) [unfolded e(1)] e(4)] in \<open>simp add: split_def\<close>)
      moreover have "bs[i := x] = us @ x # vs" for x using e(1,2) by (simp add: list_update_append)
      ultimately show ?thesis
        using e(1,3) True by (simp add: s Req_realloc split_def split del: if_split cong del: if_weak_cong)
    qed (use assms(1) s Req_realloc in simp)
  next
    case (Req_free i)
    show ?thesis
    proof (cases "i < length bs")
      case True
      from entry [OF True] obtain us p c vs k where e: "bs = us @ (p, c) # vs" "length us = i" "bs ! i = (p, c)" "(p, k) \<in> L" by blast
      note r = arrays_at_remove(1) [OF L(2) [unfolded e(1)] e(4) unique [OF L(1) _ e(4)]]
      have "arrays_ok view get (h', us @ vs)" if "view (L - {(p, k)}) h'" "same_on (L - {(p, k)}) (get h) (get h')" for h'
      proof -
        have "arrays_at (L - {(p, k)}) (get h') (us @ vs)"
          using r same_on_read [OF that(2)] unfolding arrays_at_def by fastforce
        with that(1) show ?thesis by (auto simp: arrays_ok_def)
      qed
      with free_law [OF L(1) e(4)] e True show ?thesis
        by (auto simp: s Req_free elim!: runs_mono)
    qed (use assms(1) s Req_free in simp)
  next
    case (Req_write i j v)
    show ?thesis
    proof (cases "i < length bs \<and> j < length (snd (bs ! i))")
      case True
      from entry [of i] True obtain us p c vs k where e: "bs = us @ (p, c) # vs" "length us = i" "bs ! i = (p, c)" "(p, k) \<in> L" by blast
      with write_ok [OF L(1) L(2) [unfolded e(1)] e(4), of j v] True show ?thesis
        by (simp add: s Req_write list_update_append)
    qed (use assms(1) s Req_write in auto)
  qed
qed

end

text \<open>A sequence of requests is a run of the machine that serves them.\<close>

definition returned :: "'a run \<Rightarrow> 'a option" where
  "returned r = (case r of Some (Inr a) \<Rightarrow> Some a | _ \<Rightarrow> None)"

lemma runs_returned: "runs Q r \<longleftrightarrow> (\<exists>a. returned r = Some a \<and> Q a)"
  by (auto simp: runs_def returned_def split: option.splits sum.splits)

sublocale allocator \<subseteq> requests: safe_machine "\<lambda>r s. returned (serve malloc zalloc realloc free put get r s)"
    "good_request lim" "arrays_ok view get"
  by unfold_locales (use serve_ok in \<open>simp add: runs_returned\<close>)

section \<open>The heap of NuttX\<close>

definition mm_put :: "u32 \<Rightarrow> u8 \<Rightarrow> mm_heap \<Rightarrow> mm_heap" where
  "mm_put x v h = h\<lparr>mm_mem := (mm_mem h)(x := v)\<rparr>"

lemma mm_view_apart:
  assumes "mm_view g a nl T pid L h" and "(p, k) \<in> L" and "(q, j) \<in> L" and "i < k" and "i' < j" and "p + W i = q + W i'"
  shows "p = q \<and> i = i'"
proof -
  obtain cs where inv: "heap_inv g a nl cs h" and L: "L = payloads a cs" using assms(1) by (auto simp: mm_view_def)
  note g = heap_inv_guarded [OF inv] heap_inv_placed [OF inv]
  obtain A where A: "(A, k + 8) \<in> used_chunks a cs" "p = W (A + 8)" "A + k + 8 < 4294967296"
    using payload_chunk [OF _ g(2)] assms(2) L by metis
  obtain B where B: "(B, j + 8) \<in> used_chunks a cs" "q = W (B + 8)" "B + j + 8 < 4294967296"
    using payload_chunk [OF _ g(2)] assms(3) L by metis
  have eq: "A + i = B + i'"
    using assms(4-6) A(2,3) B(2,3) by (simp add: W_eq_iff)
  with blocks_apart [of A "k + 8" True a cs B "j + 8" True] used_chunk_block [OF A(1)] used_chunk_block [OF B(1)] guarded_pos [OF g(1)]
  show ?thesis using assms(4,5) A(2) B(2) by auto
qed

lemma mm_view_unique:
  assumes "mm_view g a nl T pid L h" and "(p, k) \<in> L" and "(p, j) \<in> L"
  shows "k = j"
proof -
  obtain cs where inv: "heap_inv g a nl cs h" and L: "L = payloads a cs" using assms(1) by (auto simp: mm_view_def)
  note g = heap_inv_guarded [OF inv] heap_inv_placed [OF inv]
  obtain A where A: "(A, k + 8) \<in> used_chunks a cs" "unat p = A + 8"
    using payload_chunk [OF _ g(2)] assms(2) L by metis
  obtain B where B: "(B, j + 8) \<in> used_chunks a cs" "unat p = B + 8"
    using payload_chunk [OF _ g(2)] assms(3) L by metis
  then show ?thesis
    using blocks_unique [of A "k + 8" True a cs "j + 8" True] used_chunk_block [OF A(1)] used_chunk_block [OF B(1)] guarded_pos [OF g(1)] A(2) by simp
qed

lemma mm_put_view:
  assumes "mm_view g a nl T pid L h" and "(p, k) \<in> L" and "i < k"
  shows "mm_view g a nl T pid L (mm_put (p + W i) v h)"
proof -
  obtain cs fl where v: "heap_ok a nl cs {} fl h" "tidy cs" "granular g cs" "16 dvd a" "mm_heapsize h = W (extent cs)"
      "sem_ok pid h" and L: "L = payloads a cs" and T: "extent cs = T"
    by (rule mm_viewE [OF assms(1)])
  obtain A where A: "(A, k + 8) \<in> used_chunks a cs" "p = W (A + 8)" "A + k + 8 < 4294967296"
    using payload_chunk [OF _ heap_okD(2) [OF v(1)]] assms(2) L by metis
  have "user_byte a nl cs (W (A + 8 + i))"
    using A(3) assms(3) used_chunk_block [OF A(1)] by (intro user_byte_payload [where s = "k + 8"]) auto
  then have "heap_ok a nl cs {} fl (h\<lparr>mm_mem := (mm_mem h)(p + W i := v)\<rparr>)"
    using A(2) by (intro heap_ok_user_write [OF v(1)]) auto
  from heap_invI [OF this v(2-5)] v(6) L T show ?thesis
    by (auto simp: mm_view_def mm_put_def)
qed

definition mm_limit :: nat where "mm_limit = 4294967248"

interpretation mm: allocator "mm_view 16 a nl T pid" mm_mem "mm_malloc pid" "mm_zalloc pid" "mm_realloc pid" "mm_free pid" mm_put mm_limit
  for a nl T pid
proof (unfold_locales, goal_cases)
  case (1 L h p k q j i i')
  then show ?case by (rule mm_view_apart)
next
  case (2 L h p k j)
  then show ?case by (rule mm_view_unique)
next
  case (3 L h n)
  then show ?case
    by (cases rule: malloc_view [OF 3(1) dvd_refl 3(2)]) (auto simp: granted_def mm_limit_def)
next
  case (4 L h n)
  then show ?case
    by (cases rule: zalloc_view [OF 4(1) dvd_refl 4(2)]) (auto simp: granted_def mm_limit_def intro!: nth_equalityI)
next
  case (5 L h p k n)
  then show ?case
    by (cases rule: realloc_view [OF 5(1-3)]) (auto simp: moved_def mm_limit_def)
next
  case (6 L h p k)
  then show ?case by (rule free_view) auto
next
  case (7 L h p k i v)
  then show ?case using mm_put_view [OF 7] by (simp add: mm_put_def)
qed

text \<open>What the view says about arrays: bounds, alignment, no overlap.\<close>

lemma mm_view_block:
  assumes "mm_view 16 a nl T pid L h" and "(p, k) \<in> L"
  shows "a \<le> unat p" and "unat p + k \<le> a + T" and "16 dvd unat p"
proof -
  obtain cs where inv: "heap_inv 16 a nl cs h" and L: "L = payloads a cs" and T: "extent cs = T" using assms(1) by (auto simp: mm_view_def)
  obtain A where A: "(A, k + 8) \<in> used_chunks a cs" "unat p = A + 8"
    using payload_chunk [OF _ heap_inv_placed [OF inv]] assms(2) L by metis
  from used_chunks_range [OF A(1)] A(2) T show "a \<le> unat p" "unat p + k \<le> a + T" by auto
  have "16 dvd A + 8"
    using granular_aligned [of cs A "k + 8" True a] inv heap_inv_guarded [OF inv] used_chunk_block [OF A(1)] by (auto simp: heap_inv_def)
  with A(2) show "16 dvd unat p" by simp
qed

lemma mm_view_disjoint:
  assumes "mm_view g a nl T pid L h" and "(p, k) \<in> L" and "(q, j) \<in> L" and "p \<noteq> q"
  shows "unat p + k \<le> unat q \<or> unat q + j \<le> unat p"
proof -
  obtain cs where inv: "heap_inv g a nl cs h" and L: "L = payloads a cs" using assms(1) by (auto simp: mm_view_def)
  note g = heap_inv_guarded [OF inv] heap_inv_placed [OF inv]
  obtain A where A: "(A, k + 8) \<in> used_chunks a cs" "unat p = A + 8" using payload_chunk [OF _ g(2)] assms(2) L by metis
  obtain B where B: "(B, j + 8) \<in> used_chunks a cs" "unat q = B + 8" using payload_chunk [OF _ g(2)] assms(3) L by metis
  from blocks_apart [of A "k + 8" True a cs B "j + 8" True] used_chunk_block [OF A(1)] used_chunk_block [OF B(1)] guarded_pos [OF g(1)]
  show ?thesis using A(2) B(2) assms(4) by (auto simp: word_unat_eq_iff)
qed

lemma mm_arrays:
  assumes "arrays_ok (mm_view 16 a nl T pid) mm_mem (h, bs)"
  shows "\<forall>(p, c) \<in> set bs. read_bytes (mm_mem h) p (length c) = c \<and> 16 dvd unat p \<and> a \<le> unat p \<and> unat p + length c \<le> a + T"
    and "\<forall>i < length bs. \<forall>j < length bs. i \<noteq> j \<longrightarrow> unat (fst (bs ! i)) + length (snd (bs ! i)) \<le> unat (fst (bs ! j))
         \<or> unat (fst (bs ! j)) + length (snd (bs ! j)) \<le> unat (fst (bs ! i))"
proof -
  obtain L where L: "mm_view 16 a nl T pid L h" "arrays_at L (mm_mem h) bs" using assms by (auto simp: arrays_ok_def)
  have entry: "\<exists>k. (p, k) \<in> L \<and> length c \<le> k \<and> read_bytes (mm_mem h) p (length c) = c" if "(p, c) \<in> set bs" for p c
    using arrays_at_entry [OF L(2) that] by metis
  show "\<forall>(p, c) \<in> set bs. read_bytes (mm_mem h) p (length c) = c \<and> 16 dvd unat p \<and> a \<le> unat p \<and> unat p + length c \<le> a + T"
    using entry mm_view_block [OF L(1)] by fastforce
  have dist: "distinct (map fst bs)" using L(2) by (simp add: arrays_at_def)
  show "\<forall>i < length bs. \<forall>j < length bs. i \<noteq> j \<longrightarrow> unat (fst (bs ! i)) + length (snd (bs ! i)) \<le> unat (fst (bs ! j))
         \<or> unat (fst (bs ! j)) + length (snd (bs ! j)) \<le> unat (fst (bs ! i))"
  proof (intro allI impI)
    fix i j assume ij: "i < length bs" "j < length bs" "i \<noteq> j"
    obtain k where k: "(fst (bs ! i), k) \<in> L" "length (snd (bs ! i)) \<le> k" using entry [of "fst (bs ! i)" "snd (bs ! i)"] ij(1) by auto
    obtain l where l: "(fst (bs ! j), l) \<in> L" "length (snd (bs ! j)) \<le> l" using entry [of "fst (bs ! j)" "snd (bs ! j)"] ij(2) by auto
    have "fst (bs ! i) \<noteq> fst (bs ! j)" using dist ij nth_eq_iff_index_eq [OF dist, of i j] by simp
    from mm_view_disjoint [OF L(1) k(1) l(1) this] k(2) l(2)
    show "unat (fst (bs ! i)) + length (snd (bs ! i)) \<le> unat (fst (bs ! j))
         \<or> unat (fst (bs ! j)) + length (snd (bs ! j)) \<le> unat (fst (bs ! i))" by linarith
  qed
qed

end
