(* ===== verification/Mm_Properties.thy ===== *)
theory Mm_Properties
  imports Mm_Arrays
begin

text \<open>
  The properties of the heap allocator, stated over the C functions of \<open>Mm_Heap\<close> and the views of
  \<open>Mm_Invariant\<close> and \<open>Mm_Client\<close>.
\<close>

section \<open>A heap to start from\<close>

text \<open>The heap structure at address 4096, all memory zero, a region of 32 KB at 65536.\<close>

definition blank_heap :: mm_heap where
  "blank_heap = \<lparr>mm_semaphore = 0, mm_holder = 0, mm_counts_held = 0, mm_heapsize = 0, mm_heapstart = 0, mm_heapend = 0,
     mm_nodelist = 4096, mm_mem = (\<lambda>_. 0)\<rparr>"

lemma blank_good [simp]: "good_region 4096 65536 32768" and blank_nodelist [simp]: "mm_nodelist blank_heap = W 4096"
  by (simp_all add: good_region_def region_size_def region_start_def placed_def blank_heap_def W_numeral)

lemma fresh_heap_inv:
  assumes "mm_nodelist h = W nl" and "good_region nl b n" and "pid \<noteq> -1"
  defines "a \<equiv> region_start b" and "S \<equiv> region_size b n"
  obtains h' where "mm_initialize (W b) (W n) h = return_run h'" and "sem_ok pid h'"
    and "heap_inv 16 a nl [guard, (S - 16, False), guard] h'" and "mm_view 16 a nl S pid {} h'"
    and "\<And>x. \<not> (a \<le> unat x \<and> unat x < a + S) \<Longrightarrow> \<not> (nl \<le> unat x \<and> unat x < nl + 304) \<Longrightarrow> mm_mem h' x = mm_mem h x"
proof -
  let ?cs = "[guard, (S - 16, False), guard]"
  have S: "32 \<le> S" "16 dvd a" "16 dvd S"
    using assms(2) by (auto simp: good_region_def a_def S_def region_start_def region_size_def dvd_diff_nat)
  obtain h' where h': "mm_initialize (W b) (W n) h = return_run h'" "sem_ok pid h'" "mm_heapsize h' = W S"
      "heap_ok a nl ?cs {} (add_entry (a + 8, S - 16) (replicate 19 [])) h'"
      "\<And>x. \<not> (a \<le> unat x \<and> unat x < a + S) \<Longrightarrow> \<not> (nl \<le> unat x \<and> unat x < nl + 304) \<Longrightarrow> mm_mem h' x = mm_mem h x"
    by (rule mm_initialize_ok [OF assms(1-3), folded a_def S_def]) (rule that)
  have inv: "heap_inv 16 a nl ?cs h'"
    using h'(3,4) S by (auto simp: heap_inv_def dvd_diff_nat)
  moreover have "payloads a ?cs = {}" by (simp add: payloads_def)
  ultimately have "mm_view 16 a nl S pid {} h'"
    using h'(2) S(1) by (auto simp: mm_view_def intro!: exI [of _ ?cs])
  with that h'(1,2,5) inv show thesis by blast
qed

text \<open>
  C28. Initialisation: the region becomes one free chunk between two guards, the invariant holds, the semaphore is
  free, and nothing outside of the region and the heap structure is written.
\<close>

theorem initialize_establishes_inv:
  assumes "mm_nodelist h = W nl" and "good_region nl b n" and "pid \<noteq> -1"
  shows "\<exists>h'. mm_initialize (W b) (W n) h = return_run h' \<and> sem_ok pid h'
    \<and> heap_inv 16 (region_start b) nl [guard, (region_size b n - 16, False), guard] h'
    \<and> (\<forall>x. \<not> (region_start b \<le> unat x \<and> unat x < region_start b + region_size b n)
           \<and> \<not> (nl \<le> unat x \<and> unat x < nl + 304) \<longrightarrow> mm_mem h' x = mm_mem h x)"
  by (rule fresh_heap_inv [OF assms]) auto

theorem initialize_establishes_inv_witness:
  "\<exists>h'. mm_initialize (W 65536) (W 32768) blank_heap = return_run h'
    \<and> heap_inv 16 65536 4096 [guard, (32752, False), guard] h'"
  using initialize_establishes_inv [of blank_heap 4096 65536 32768 1]
  by (auto simp: region_start_def region_size_def)

lemma example_heap:
  obtains h where "mm_initialize (W 65536) (W 32768) blank_heap = return_run h" and "sem_ok 1 h"
    and "heap_inv 16 65536 4096 [guard, (32752, False), guard] h" and "mm_view 16 65536 4096 32768 1 {} h"
  by (rule fresh_heap_inv [of blank_heap 4096 65536 32768 1]) (auto simp: region_start_def region_size_def)

section \<open>Arrays\<close>

text \<open>
  C2. The heap as its clients see it. After initialisation every sequence of requests (allocate, allocate zeroed,
  resize, release, write a byte) is served without a failed assertion and without an endless loop. The
  arrays of the client then hold exactly the bytes the client expects: what it wrote, zeros after a
  zeroed allocation, and the old contents after a change of size, whatever happened to other arrays.
  They do not overlap, lie inside the region and are aligned to 16 bytes.
\<close>

theorem heap_serves_arrays:
  assumes "mm_nodelist h = W nl" and "good_region nl b n" and "pid \<noteq> -1" and "list_all (good_request mm_limit) rs"
  shows "\<exists>h1 h2 bs. mm_initialize (W b) (W n) h = return_run h1
    \<and> run_steps (\<lambda>r s. returned (serve (mm_malloc pid) (mm_zalloc pid) (mm_realloc pid) (mm_free pid) mm_put mm_mem r s)) rs (h1, [])
        = Some (h2, bs)
    \<and> (\<forall>(p, c) \<in> set bs. read_bytes (mm_mem h2) p (length c) = c \<and> 16 dvd unat p
         \<and> region_start b \<le> unat p \<and> unat p + length c \<le> region_start b + region_size b n)
    \<and> (\<forall>i < length bs. \<forall>j < length bs. i \<noteq> j \<longrightarrow>
         unat (fst (bs ! i)) + length (snd (bs ! i)) \<le> unat (fst (bs ! j))
         \<or> unat (fst (bs ! j)) + length (snd (bs ! j)) \<le> unat (fst (bs ! i)))"
proof (rule fresh_heap_inv [OF assms(1-3)])
  fix h1 assume h1: "mm_initialize (W b) (W n) h = return_run h1" "mm_view 16 (region_start b) nl (region_size b n) pid {} h1"
  then have "arrays_ok (mm_view 16 (region_start b) nl (region_size b n) pid) mm_mem (h1, [])"
    by (auto simp: arrays_ok_def arrays_at_def)
  from mm.requests.run_safe [OF this assms(4)] obtain h2 bs
    where r: "run_steps (\<lambda>r s. returned (serve (mm_malloc pid) (mm_zalloc pid) (mm_realloc pid) (mm_free pid) mm_put mm_mem r s)) rs (h1, [])
        = Some (h2, bs)"
      and ok: "arrays_ok (mm_view 16 (region_start b) nl (region_size b n) pid) mm_mem (h2, bs)" by auto
  show ?thesis
    by (intro exI conjI, rule h1(1), rule r, rule mm_arrays(1) [OF ok], rule mm_arrays(2) [OF ok])
qed

theorem heap_serves_arrays_witness:
  "\<exists>h1 h2 bs. mm_initialize (W 65536) (W 32768) blank_heap = return_run h1
    \<and> run_steps (\<lambda>r s. returned (serve (mm_malloc 1) (mm_zalloc 1) (mm_realloc 1) (mm_free 1) mm_put mm_mem r s))
        [Req_malloc 100, Req_zalloc 20, Req_write 1 3 7, Req_realloc 0 5000, Req_free 1] (h1, []) = Some (h2, bs)
    \<and> (\<forall>(p, c) \<in> set bs. read_bytes (mm_mem h2) p (length c) = c)"
  using heap_serves_arrays [of blank_heap 4096 65536 32768 1 "[Req_malloc 100, Req_zalloc 20, Req_write 1 3 7, Req_realloc 0 5000, Req_free 1]"]
  by (fastforce simp: mm_limit_def)

section \<open>Allocation and release\<close>

lemma example_fit:
  "best_fit (chunk_for 100) [guard, (32752, False), guard] xs s ys \<Longrightarrow> xs = [guard] \<and> s = 32752 \<and> ys = [guard]"
  by (auto simp: best_fit_def Cons_eq_append_conv)

lemma malloc_row:
  assumes "heap_inv 16 a nl cs h" and "sem_ok pid h" and "0 < n" and "n + 23 < 4294967296"
  obtains (none) "\<not> (\<exists>t. (t, False) \<in> set cs \<and> chunk_for n \<le> t)" and "mm_malloc pid (W n) h = return_run (0, h)"
  | (fit) xs s ys h' where "\<exists>t. (t, False) \<in> set cs \<and> chunk_for n \<le> t" and "best_fit (chunk_for n) cs xs s ys"
      and "mm_malloc pid (W n) h = return_run (W (a + extent xs + 8), h')" and "sem_ok pid h'" and "16 dvd a + extent xs + 8"
      and "heap_inv 16 a nl (xs @ carve (chunk_for n) s @ ys) h'" and "\<And>x. user_byte a nl cs x \<Longrightarrow> mm_mem h' x = mm_mem h x"
proof -
  obtain fl where v: "heap_ok a nl cs {} fl h" "tidy cs" "granular 16 cs" "16 dvd a" "mm_heapsize h = W (extent cs)"
    by (rule heap_invE [OF assms(1)])
  show thesis
    using v(1) assms(2-4)
  proof (cases rule: mm_malloc_cases)
    case none
    then show ?thesis using that(1) by (meson not_le)
  next
    case (fit xs s ys m' fl')
    have cs: "cs = xs @ (s, False) # ys" and r: "chunk_for n \<le> s" using fit(1) by (auto simp: best_fit_def)
    have "heap_inv 16 a nl (xs @ carve (chunk_for n) s @ ys) (h\<lparr>mm_mem := m'\<rparr>)"
      using tidy_carve [of xs s ys] granular_carve [of 16 xs s ys] v(2-5) r chunk_for_bounds(4)
      by (intro heap_invI [OF fit(3)]) (auto simp: cs)
    moreover have "16 dvd a + extent xs + 8"
      using granular_aligned [OF v(3) heap_okD(1) [OF v(1)], of "a + extent xs" s False a] guarded_free [OF heap_okD(1) [OF v(1)], of s] v(4)
      by (simp add: cs blocks_append)
    moreover have "\<exists>t. (t, False) \<in> set cs \<and> chunk_for n \<le> t" using cs r by auto
    ultimately show ?thesis using that(2) [of xs s ys "h\<lparr>mm_mem := m'\<rparr>"] fit(1,2,4) assms(2) by simp
  qed
qed

text \<open>
  C12. \<open>mm_malloc\<close> on a row of chunks. It returns NULL exactly when no free chunk is large enough, and then the heap
  is unchanged. Otherwise it takes a free chunk of the least sufficient size and carves the request from
  its front; the pointer is aligned to 16 bytes, the invariant holds for the new row, and no byte of a
  client changes.
\<close>

theorem malloc_best_fit:
  assumes "heap_inv 16 a nl cs h" and "sem_ok pid h" and "0 < n" and "n + 23 < 4294967296"
  shows "if \<exists>t. (t, False) \<in> set cs \<and> chunk_for n \<le> t
    then (\<exists>xs s ys h'. best_fit (chunk_for n) cs xs s ys
       \<and> mm_malloc pid (W n) h = return_run (W (a + extent xs + 8), h') \<and> sem_ok pid h' \<and> 16 dvd a + extent xs + 8
       \<and> heap_inv 16 a nl (xs @ carve (chunk_for n) s @ ys) h' \<and> (\<forall>x. user_byte a nl cs x \<longrightarrow> mm_mem h' x = mm_mem h x))
    else mm_malloc pid (W n) h = return_run (0, h)"
  using assms
proof (cases rule: malloc_row)
  case (fit xs s ys h')
  then show ?thesis by (simp only: if_True) blast
qed auto

theorem malloc_best_fit_witness:
  "\<exists>h h'. heap_inv 16 65536 4096 [guard, (32752, False), guard] h \<and> mm_malloc 1 (W 100) h = return_run (W 65552, h')
    \<and> heap_inv 16 65536 4096 [guard, (112, True), (32640, False), guard] h'"
proof -
  obtain h where h: "heap_inv 16 65536 4096 [guard, (32752, False), guard] h" "sem_ok 1 h" by (rule example_heap)
  have "\<exists>t. (t, False) \<in> set [guard, (32752, False), guard] \<and> chunk_for 100 \<le> t" by (auto simp: chunk_for_def)
  with malloc_best_fit [OF h, of 100] obtain xs s ys h' where
    m: "best_fit (chunk_for 100) [guard, (32752, False), guard] xs s ys" "mm_malloc 1 (W 100) h = return_run (W (65536 + extent xs + 8), h')"
      "heap_inv 16 65536 4096 (xs @ carve (chunk_for 100) s @ ys) h'"
    by (auto split: if_splits)
  with example_fit [OF m(1)] h(1) show ?thesis by (auto simp: carve_def chunk_for_def)
qed

lemma free_row:
  assumes "heap_inv g a nl (xs @ (s, True) # ys) h" and "sem_ok pid h" and "16 \<le> s"
  shows "\<exists>h'. mm_free pid (W (a + extent xs + 8)) h = return_run h' \<and> sem_ok pid h'
    \<and> heap_inv g a nl (coalesce xs s ys) h'
    \<and> (\<forall>x. user_byte a nl (xs @ (s, False) # ys) x \<longrightarrow> mm_mem h' x = mm_mem h x)"
proof -
  obtain fl where v: "heap_ok a nl (xs @ (s, True) # ys) {} fl h" "tidy (xs @ (s, True) # ys)" "granular g (xs @ (s, True) # ys)"
      "16 dvd a" "mm_heapsize h = W (extent (xs @ (s, True) # ys))"
    by (rule heap_invE [OF assms(1)])
  have xs: "xs \<noteq> []" using guarded_mid(1) [OF heap_okD(1) [OF v(1)]] assms(3) by auto
  obtain m' fl' where m': "mm_free pid (W (a + extent xs + 8)) h = return_run (h\<lparr>mm_mem := m'\<rparr>)"
      "heap_ok a nl (coalesce xs s ys) {} fl' (h\<lparr>mm_mem := m'\<rparr>)"
      "\<And>x. user_byte a nl (xs @ (s, False) # ys) x \<Longrightarrow> m' x = mm_mem h x"
    using mm_free_ok [OF v(1) assms(2,3) refl] by metis
  have "heap_inv g a nl (coalesce xs s ys) (h\<lparr>mm_mem := m'\<rparr>)"
    using tidy_coalesce [OF v(2) xs] granular_coalesce [OF v(3) assms(3) xs] v(4,5) extent_coalesce [OF xs, of s ys]
    by (intro heap_invI [OF m'(2)]) (simp_all add: add.assoc)
  with m'(1,3) assms(2) show ?thesis by auto
qed

text \<open>
  C13. \<open>mm_free\<close> on the chunk at any position: the chunk becomes free and is joined with free neighbours, the
  invariant (which excludes two free chunks in a row) holds for the new row, and the bytes of all other
  chunks are unchanged.
\<close>

theorem free_coalesces:
  assumes "heap_inv g a nl (xs @ (s, True) # ys) h" and "sem_ok pid h" and "16 \<le> s"
  shows "\<exists>h'. mm_free pid (W (a + extent xs + 8)) h = return_run h' \<and> sem_ok pid h'
    \<and> heap_inv g a nl (coalesce xs s ys) h'
    \<and> (\<forall>x. user_byte a nl (xs @ (s, False) # ys) x \<longrightarrow> mm_mem h' x = mm_mem h x)"
  using assms by (rule free_row)

text \<open>The example heap after one allocation.\<close>

lemma example_allocated:
  obtains h h1 where "heap_inv 16 65536 4096 [guard, (32752, False), guard] h" and "sem_ok 1 h"
    and "mm_malloc 1 (W 100) h = return_run (W 65552, h1)" and "heap_inv 16 65536 4096 [guard, (112, True), (32640, False), guard] h1"
    and "sem_ok 1 h1"
proof -
  obtain h where h: "heap_inv 16 65536 4096 [guard, (32752, False), guard] h" "sem_ok 1 h" by (rule example_heap)
  moreover have "0 < (100 :: nat)" "100 + 23 < (4294967296 :: nat)" by simp_all
  ultimately show thesis
  proof (cases rule: malloc_row)
    case (fit xs s ys h')
    with example_fit [OF fit(2)] h that [of h h'] show ?thesis by (simp add: carve_def chunk_for_def)
  qed (auto simp: chunk_for_def)
qed

theorem free_coalesces_witness:
  "\<exists>h h'. heap_inv 16 65536 4096 [guard, (112, True), (32640, False), guard] h \<and> mm_free 1 (W 65552) h = return_run h'
    \<and> heap_inv 16 65536 4096 [guard, (32752, False), guard] h'"
proof -
  obtain h where h: "heap_inv 16 65536 4096 ([guard] @ (112, True) # [(32640, False), guard]) h" "sem_ok 1 h"
    by (rule example_allocated) simp
  from free_coalesces [OF h] h(1) show ?thesis by (auto simp: coalesce_def)
qed

lemma coalesce_carve:
  assumes "tidy (xs @ (s, False) # ys)" and "xs \<noteq> []" and "carve r s = (t, True) # ts" and "r \<le> s"
  shows "coalesce xs t (ts @ ys) = xs @ (s, False) # ys"
proof -
  have "snd (last xs)" and ys: "ys = [] \<or> snd (hd ys)" using assms(1,2) by (auto simp: tidy_append tidy_Cons)
  moreover have "absorb_next t (ts @ ys) = (s, ys)"
    using assms(3,4) ys by (cases ys) (auto simp: carve_def split: if_splits elim!: absorb_next.elims)
  ultimately show ?thesis by (simp add: coalesce_def)
qed

text \<open>
  Allocation followed by release restores the row of chunks: the carved chunk and the remainder join again,
  so that no sequence of such pairs fragments the heap.
\<close>

lemma malloc_free_round_trip:
  assumes "heap_inv 16 a nl cs h" and "sem_ok pid h" and "0 < n" and "n + 23 < 4294967296"
    and "mm_malloc pid (W n) h = return_run (p, h1)" and "p \<noteq> 0"
  shows "\<exists>h2. mm_free pid p h1 = return_run h2 \<and> heap_inv 16 a nl cs h2 \<and> sem_ok pid h2
    \<and> (\<forall>x. user_byte a nl cs x \<longrightarrow> mm_mem h2 x = mm_mem h x)"
  using assms(1-4)
proof (cases rule: malloc_row)
  case none
  then show ?thesis using assms(5,6) by simp
next
  case (fit xs s ys h')
  let ?r = "chunk_for n"
  have cs: "cs = xs @ (s, False) # ys" and r: "?r \<le> s" using fit(2) by (auto simp: best_fit_def)
  obtain t ts where t: "carve ?r s = (t, True) # ts" "?r \<le> t" "t + extent ts = s" "\<And>b x. \<not> used_byte b ts x"
    using carve_first [OF r] by metis
  have h1: "h1 = h'" "p = W (a + extent xs + 8)" using fit(3) assms(5) by simp_all
  have "heap_inv 16 a nl (xs @ (t, True) # ts @ ys) h'" using fit(6) t(1) by simp
  from free_row [OF this fit(4)] t(2) chunk_for_bounds(1) [of n]
  obtain h2 where h2: "mm_free pid (W (a + extent xs + 8)) h' = return_run h2" "sem_ok pid h2" "heap_inv 16 a nl (coalesce xs t (ts @ ys)) h2"
      "\<And>x. user_byte a nl (xs @ (t, False) # ts @ ys) x \<Longrightarrow> mm_mem h2 x = mm_mem h' x"
    by (meson le_trans)
  have "tidy cs" "xs \<noteq> []"
    using assms(1) guarded_mid(1) [of xs s False ys] heap_inv_guarded [OF assms(1)] by (auto simp: heap_inv_def cs)
  then have "coalesce xs t (ts @ ys) = cs" using coalesce_carve [OF _ _ t(1) r] by (simp add: cs)
  moreover have "mm_mem h2 x = mm_mem h x" if x: "user_byte a nl cs x" for x
  proof -
    have "user_byte a nl (xs @ (t, False) # ts @ ys) x"
      using x t(4) unfolding cs t(3) [symmetric] by (auto simp: user_byte_used add.assoc)
    with h2(4) fit(7) [OF x] show ?thesis by simp
  qed
  ultimately show ?thesis using h2 h1 by auto
qed

section \<open>Changes of size, alignment, zeroed memory\<close>

lemma view_of_inv: "heap_inv g a nl cs h \<Longrightarrow> sem_ok pid h \<Longrightarrow> mm_view g a nl (extent cs) pid (payloads a cs) h"
  by (auto simp: mm_view_def)

lemma example_views:
  obtains h h1 where "mm_view 16 65536 4096 32768 1 {} h" and "mm_view 8 65536 4096 32768 1 {} h"
    and "mm_view 16 65536 4096 32768 1 {(W 65552, 104)} h1"
proof (rule example_allocated)
  fix h h1 assume h: "heap_inv 16 65536 4096 [guard, (32752, False), guard] h" "sem_ok 1 h"
    and h1: "heap_inv 16 65536 4096 [guard, (112, True), (32640, False), guard] h1" "sem_ok 1 h1"
  have "heap_inv 8 65536 4096 [guard, (32752, False), guard] h" using h(1) by (simp add: heap_inv_def)
  from that [of h h1] view_of_inv [OF this h(2)] view_of_inv [OF h] view_of_inv [OF h1] show thesis
    by (simp add: payloads_def)
qed

text \<open>
  C14. \<open>mm_realloc\<close> on a block in use: it either returns NULL and leaves the heap as it was, or a block with room for
  the new size that holds the old contents as far as they fit, in place of the old block. The bytes of all
  other blocks are unchanged. This covers shrinking, growth into the free chunks before and behind, with
  the move of the data, and the copy into a new chunk.
\<close>

theorem realloc_keeps_contents:
  assumes "mm_view 16 a nl T pid L h" and "(p, k) \<in> L" and "0 < n" and "unat n + 47 < 4294967296"
  shows "\<exists>q h'. mm_realloc pid p n h = return_run (q, h') \<and> (q = 0 \<and> h' = h \<or>
    (\<exists>j. unat n \<le> j \<and> mm_view 16 a nl T pid (insert (q, j) (L - {(p, k)})) h'
       \<and> (\<forall>i < min k (unat n). mm_mem h' (q + W i) = mm_mem h (p + W i))
       \<and> (\<forall>(r, l) \<in> L - {(p, k)}. \<forall>i < l. mm_mem h' (r + W i) = mm_mem h (r + W i))))"
  using assms
proof (cases rule: realloc_view)
  case (some q j h')
  then show ?thesis by (auto simp: resized_def same_on_def)
qed simp

theorem realloc_keeps_contents_witness:
  "\<exists>h q h'. mm_view 16 65536 4096 32768 1 {(W 65552, 104)} h \<and> mm_realloc 1 (W 65552) 5000 h = return_run (q, h')
    \<and> (q \<noteq> 0 \<longrightarrow> (\<forall>i < 104. mm_mem h' (q + W i) = mm_mem h (W 65552 + W i)))"
proof -
  obtain h where h: "mm_view 16 65536 4096 32768 1 {(W 65552, 104)} h" by (rule example_views)
  from realloc_keeps_contents [OF h, of "W 65552" 104 5000] h show ?thesis by auto
qed

text \<open>
  \<open>mm_memalign\<close> with an alignment of 32 or a larger power of two: NULL with the heap unchanged, or a new block
  of the requested size at a multiple of the alignment; what is before and behind it goes back to the heap,
  and the bytes of the other blocks are unchanged.
\<close>

lemma memalign_aligned:
  assumes "mm_view 8 a nl T pid L h" and "al = 2 ^ k" and "32 \<le> al" and "0 < n" and "unat n + 2 * al + 38 < 4294967296"
  shows "\<exists>p h'. mm_memalign pid (W al) n h = return_run (p, h') \<and> (p = 0 \<and> h' = h \<or>
    p \<noteq> 0 \<and> al dvd unat p \<and> (\<exists>j. unat n \<le> j \<and> (p, j) \<notin> L \<and> mm_view 8 a nl T pid (insert (p, j) L) h')
      \<and> (\<forall>(r, l) \<in> L. \<forall>i < l. mm_mem h' (r + W i) = mm_mem h (r + W i)))"
  using assms
proof (cases rule: memalign_view)
  case (some p j h')
  then show ?thesis by (auto simp: same_on_def)
qed simp

text \<open>
  \<open>mm_calloc\<close> for a product that fits: NULL with the heap unchanged, or a new block of which the requested bytes
  are zero, the other blocks unchanged.
\<close>

lemma calloc_zeroes:
  assumes "mm_view 16 a nl T pid L h" and "0 < n" and "0 < e" and "unat n * unat e + 23 < 4294967296"
  shows "\<exists>p h'. mm_calloc pid n e h = return_run (p, h') \<and> (p = 0 \<and> h' = h \<or>
    p \<noteq> 0 \<and> (\<exists>j. unat n * unat e \<le> j \<and> (p, j) \<notin> L \<and> mm_view 16 a nl T pid (insert (p, j) L) h')
      \<and> (\<forall>i < unat n * unat e. mm_mem h' (p + W i) = 0)
      \<and> (\<forall>(r, l) \<in> L. \<forall>i < l. mm_mem h' (r + W i) = mm_mem h (r + W i)))"
proof -
  have u: "unat (n * e) = unat n * unat e" using assms(4) by (simp add: unat_word_ariths)
  then have "0 < n * e" using assms(2,3) by (simp add: word_less_nat_alt)
  moreover have "mm_calloc pid n e h = mm_zalloc pid (n * e) h" using assms(2,3) by (simp add: mm_calloc_def)
  ultimately show ?thesis
    using assms(1) assms(4) u by (cases rule: zalloc_view [OF assms(1) dvd_refl, of "n * e"]) (auto simp: same_on_def)
qed

section \<open>Searches and statistics\<close>

text \<open>
  The size classes: \<open>mm_size2ndx\<close> ends, its result is an index of \<open>mm_nodelist\<close>, and class \<open>i\<close> holds the sizes from
  \<open>2^(i+4)\<close> to \<open>2^(i+5) - 1\<close>, the last class all sizes from 4 MB.
\<close>

lemma size2ndx_classes:
  assumes "16 \<le> s" and "s < 4294967296"
  shows "mm_size2ndx (W s) < MM_NNODES \<and> 2 ^ (mm_size2ndx (W s) + MM_MIN_SHIFT) \<le> s
    \<and> (mm_size2ndx (W s) < MM_NNODES - 1 \<longrightarrow> s < 2 ^ (mm_size2ndx (W s) + MM_MIN_SHIFT + 1))"
proof (cases "s < 4194304")
  case True
  then show ?thesis
    using ndx_spec [OF assms(1)] ndx_le [OF assms] by (simp add: ndx_def mm_consts add.commute)
next
  case False
  then show ?thesis using ndx_large [of s] assms(2) by (simp add: ndx_def mm_consts)
qed

text \<open>
  C27. The loops of the allocator end on every heap with the invariant: the search of \<open>mm_malloc\<close> from any size, and
  it ends at NULL or at a free chunk that is large enough; the search for the place of a free chunk; the
  walk of \<open>mm_mallinfo\<close>, which ends at the last guard.
\<close>

theorem heap_loops_end:
  assumes "heap_inv g a nl cs h" and "16 \<le> r" and "r < 2147483648"
  shows "(\<exists>node. find_fit h (W r) (node_flink h (nodelist_entry h (mm_size2ndx (W r)))) = Some node
      \<and> (node = 0 \<or> (\<exists>A s. node = W A \<and> (A, s) \<in> free_chunks a cs \<and> r \<le> s)))
    \<and> (\<exists>slot. find_slot h (W r) (nodelist_entry h (mm_size2ndx (W r)))
        (node_flink h (nodelist_entry h (mm_size2ndx (W r)))) = Some slot)
    \<and> (\<exists>mx ords uord ford. mallinfo_walk h (mm_heapstart h) 0 0 0 0 = Some (mm_heapend h, mx, ords, uord, ford))"
proof -
  obtain fl where ok: "heap_ok a nl cs {} fl h" by (rule heap_invE [OF assms(1)])
  note k = heap_okD [OF ok]
  have e: "nodelist_entry h (mm_size2ndx (W r)) = W (nl + 16 * ndx r)"
    using k(3) by (simp add: nodelist_entry_def ndx_def W_def)
  have "\<exists>node. find_fit h (W r) (node_flink h (nodelist_entry h (mm_size2ndx (W r)))) = Some node
      \<and> (node = 0 \<or> (\<exists>A s. node = W A \<and> (A, s) \<in> free_chunks a cs \<and> r \<le> s))"
  proof (cases "find (\<lambda>d. r \<le> snd d) (concat fl)")
    case None
    then show ?thesis using flist_search [OF k(5,3) assms(2)] assms(3) by (simp add: ndx_def)
  next
    case (Some d)
    with find_SomeD [OF Some] k(6) have "(fst d, snd d) \<in> free_chunks a cs" "r \<le> snd d" by auto
    with Some flist_search [OF k(5,3) assms(2)] assms(3) show ?thesis by (auto simp: ndx_def)
  qed
  moreover have "\<exists>slot. find_slot h (W r) (nodelist_entry h (mm_size2ndx (W r))) (node_flink h (nodelist_entry h (mm_size2ndx (W r)))) = Some slot"
    by (rule flist_slot [OF k(5) assms(2,3), of 0]) (auto simp: e node_flink_def)
  moreover have "\<exists>mx ords uord ford. mallinfo_walk h (mm_heapstart h) 0 0 0 0 = Some (mm_heapend h, mx, ords, uord, ford)"
  proof -
    obtain ys where "cs = ys @ [guard]" using k(1) unfolding guarded_def by (metis append_Cons)
    with mallinfo_walk_heap [of a nl ys "{}" fl h] ok show ?thesis by blast
  qed
  ultimately show ?thesis by blast
qed

theorem heap_loops_end_witness:
  "\<exists>h node. heap_inv 16 65536 4096 [guard, (32752, False), guard] h
    \<and> find_fit h (W 112) (node_flink h (nodelist_entry h (mm_size2ndx (W 112)))) = Some node"
proof -
  obtain h where h: "heap_inv 16 65536 4096 [guard, (32752, False), guard] h" by (rule example_heap)
  from heap_loops_end [OF h, of 112] h show ?thesis by auto
qed

text \<open>
  \<open>mm_mallinfo\<close> on a heap with the invariant returns the exact totals: the number of free chunks, the largest of
  them, the bytes in free chunks and in chunks in use; both assertions hold, and the heap is unchanged.
\<close>

lemma mallinfo_exact:
  assumes "heap_inv g a nl cs h" and "sem_ok pid h"
  shows "mm_mallinfo pid h = return_run (\<lparr>arena = W (extent cs), ordblks = int (length (free_sizes cs)),
      mxordblk = W (foldl max 0 (free_sizes cs)), uordblks = W (sum_list (used_sizes cs)), fordblks = W (sum_list (free_sizes cs))\<rparr>, h)
    \<and> sum_list (used_sizes cs) + sum_list (free_sizes cs) = extent cs \<and> extent cs < 2147483648"
proof -
  obtain fl where "heap_ok a nl cs {} fl h" "mm_heapsize h = W (extent cs)" by (rule heap_invE [OF assms(1)])
  with mm_mallinfo_ok [OF _ assms(2)] extent_sizes [of cs] heap_inv_placed [OF assms(1)] show ?thesis
    by (simp add: placed_def)
qed

section \<open>Sizes that do not fit, and a longer heap\<close>

text \<open>
  C36. The size computations wrap: a request for 4294967295 bytes is served like one for 8 bytes by \<open>mm_malloc\<close> and
  \<open>mm_realloc\<close> (which thereby cuts the block down to 8 bytes), and \<open>mm_calloc\<close> for 65536 elements of 65537 bytes like
  \<open>mm_zalloc\<close> for 65536 bytes.
\<close>

theorem heap_size_wraps:
  "mm_malloc pid 4294967295 h = mm_malloc pid 8 h \<and> mm_realloc pid p 4294967295 h = mm_realloc pid p 8 h
    \<and> mm_calloc pid 65536 65537 h = mm_zalloc pid 65536 h"
proof -
  have eq: "MM_ALIGN_UP (4294967295 + SIZEOF_MM_ALLOCNODE) = MM_ALIGN_UP (8 + SIZEOF_MM_ALLOCNODE)"
    by (simp add: MM_ALIGN_UP_def mm_consts)
  have m: "mm_malloc pid 4294967295 h = mm_malloc pid 8 h" for h
    unfolding mm_malloc_def eq by simp
  have "mm_realloc pid p 4294967295 h = mm_realloc pid p 8 h"
    unfolding mm_realloc_def eq m by simp
  moreover have "65536 * 65537 = (65536 :: u32)" by code_simp
  then have "mm_calloc pid 65536 65537 h = mm_zalloc pid 65536 h"
    unfolding mm_calloc_def by (simp only:) simp
  ultimately show ?thesis using m by simp
qed

text \<open>
  C37. \<open>mm_extend\<close> with a block that follows the heap makes the heap longer by the block and joins it with a free
  chunk before it; all user bytes outside the block are kept. It does not add the block to \<open>mm_heapsize\<close>: the
  next \<open>mm_mallinfo\<close> fails its assertion.
\<close>

theorem extend_breaks_mallinfo:
  assumes "heap_inv g a nl (xs @ [guard]) h" and "sem_ok pid h" and "E = a + extent xs + 8" and "16 dvd E" and "16 dvd n" and "0 < n"
    and "placed a nl (extent xs + n + 8)"
  shows "\<exists>h' fl'. mm_extend pid (W E) (W n) 0 h = return_run h' \<and> heap_ok a nl (coalesce xs n [guard]) {} fl' h'
    \<and> (\<forall>x. user_byte a nl (xs @ [guard]) x \<longrightarrow> \<not> (E \<le> unat x \<and> unat x < E + n) \<longrightarrow> mm_mem h' x = mm_mem h x)
    \<and> mm_mallinfo pid h' = Some (Inl Assertion)"
proof -
  obtain fl where ok: "heap_ok a nl (xs @ [guard]) {} fl h" and hs: "mm_heapsize h = W (extent (xs @ [guard]))"
    by (rule heap_invE [OF assms(1)])
  have xs: "xs \<noteq> []" using heap_okD(1) [OF ok] by (auto simp: guarded_def)
  obtain m' fl' where m': "mm_extend pid (W E) (W n) 0 h = return_run (h\<lparr>mm_heapend := W (E + n - 8), mm_mem := m'\<rparr>)"
      "heap_ok a nl (coalesce xs n [guard]) {} fl' (h\<lparr>mm_heapend := W (E + n - 8), mm_mem := m'\<rparr>)"
      "\<And>x. user_byte a nl (xs @ [guard]) x \<Longrightarrow> \<not> (E \<le> unat x \<and> unat x < E + n) \<Longrightarrow> m' x = mm_mem h x"
    by (rule mm_extend_ok [OF ok assms(2-7)]) (rule that)
  have "W (extent (xs @ [guard])) \<noteq> W (extent (coalesce xs n [guard]))"
    using extent_coalesce [OF xs, of n "[guard]"] assms(6,7) by (simp add: W_eq_iff placed_def)
  moreover have "sem_ok pid (h\<lparr>mm_heapend := W (E + n - 8), mm_mem := m'\<rparr>)" using assms(2) by (simp add: sem_ok_def)
  ultimately show ?thesis
    using m' mm_mallinfo_ok [OF m'(2)] hs by auto
qed

theorem extend_breaks_mallinfo_witness:
  "\<exists>h h'. heap_inv 16 65536 4096 [guard, (32752, False), guard] h \<and> mm_extend 1 (W 98304) (W 4096) 0 h = return_run h'
    \<and> mm_mallinfo 1 h' = Some (Inl Assertion)"
proof -
  obtain h where h: "heap_inv 16 65536 4096 ([guard, (32752, False)] @ [guard]) h" "sem_ok 1 h" by (rule example_heap) simp
  from extend_breaks_mallinfo [OF h, of 98304 4096] h(1) show ?thesis by (auto simp: placed_def)
qed

end
