(* ===== verification/Ieee_Double.thy ===== *)
theory Ieee_Double
  imports Complex_Main Prelude "HOL-Library.Log_Nat"
begin

text \<open>
  The \<open>double\<close> of C as the engine uses it: IEEE 754 binary64 with rounding to nearest, ties to even,
  which is what the soft floating point library of the target computes. A finite double is its rational
  value. The two zeros are one value here: they compare equal, convert equally, and the engine never
  divides by a zero (shown where it divides), which is the only operation that tells them apart.
  A conversion to an integer type of a value that does not fit is undefined in C and \<open>None\<close> here.
\<close>

section \<open>Rounding\<close>

datatype dbl = NaN | Inf bool | Fin rat

definition round_even :: "rat \<Rightarrow> int" where
  "round_even q =
     (let f = \<lfloor>q\<rfloor>; r = q - of_int f
      in if r < 1 / 2 \<or> r = 1 / 2 \<and> even f then f else f + 1)"

text \<open>\<open>binade q\<close> is the exponent of the leading binary digit of a positive rational.\<close>

definition binade :: "rat \<Rightarrow> int" where
  "binade q =
     (let (n, d) = quotient_of q; k = int (floorlog 2 (nat n)) - int (floorlog 2 (nat d))
      in if 2 powi k \<le> q then k else k - 1)"

text \<open>The exponent of the smallest subnormal number and the bound of the finite numbers.\<close>

definition min_exp :: int where
  "min_exp = - 1074"

definition dbl_limit :: rat where
  "dbl_limit = 2 ^ 1024"

text \<open>The exponent of the last of the 53 significant digits; below \<open>2 powi - 1022\<close> it is that of the
  smallest subnormal number.\<close>

definition quantum :: "rat \<Rightarrow> int" where
  "quantum q = max (binade \<bar>q\<bar> - 52) min_exp"

definition dbl_round :: "rat \<Rightarrow> dbl" where
  "dbl_round q =
     (if q = 0 then Fin 0
      else (let u = 2 powi quantum q; r = of_int (round_even (q / u)) * u
            in if dbl_limit \<le> \<bar>r\<bar> then Inf (q < 0) else Fin r))"

definition finite_dbl :: "rat \<Rightarrow> bool" where
  "finite_dbl q \<longleftrightarrow> (\<exists>m k. q = of_int m * 2 powi k \<and> \<bar>m\<bar> < 2 ^ 53 \<and> min_exp \<le> k \<and> \<bar>q\<bar> < dbl_limit)"

section \<open>Operations\<close>

fun dbl_add :: "dbl \<Rightarrow> dbl \<Rightarrow> dbl" where
  "dbl_add (Fin a) (Fin b) = dbl_round (a + b)"
| "dbl_add (Inf s) (Inf t) = (if s = t then Inf s else NaN)"
| "dbl_add (Inf s) (Fin _) = Inf s"
| "dbl_add (Fin _) (Inf t) = Inf t"
| "dbl_add _ _ = NaN"

fun dbl_sub :: "dbl \<Rightarrow> dbl \<Rightarrow> dbl" where
  "dbl_sub (Fin a) (Fin b) = dbl_round (a - b)"
| "dbl_sub (Inf s) (Inf t) = (if s = t then NaN else Inf s)"
| "dbl_sub (Inf s) (Fin _) = Inf s"
| "dbl_sub (Fin _) (Inf t) = Inf (\<not> t)"
| "dbl_sub _ _ = NaN"

fun dbl_mult :: "dbl \<Rightarrow> dbl \<Rightarrow> dbl" where
  "dbl_mult (Fin a) (Fin b) = dbl_round (a * b)"
| "dbl_mult (Inf s) (Inf t) = Inf (s \<noteq> t)"
| "dbl_mult (Inf s) (Fin b) = (if b = 0 then NaN else Inf (s \<noteq> (b < 0)))"
| "dbl_mult (Fin a) (Inf t) = (if a = 0 then NaN else Inf ((a < 0) \<noteq> t))"
| "dbl_mult _ _ = NaN"

text \<open>\<open>None\<close> is a division by zero, whose result depends on the sign of the zero.\<close>

fun dbl_div :: "dbl \<Rightarrow> dbl \<Rightarrow> dbl option" where
  "dbl_div (Fin a) (Fin b) = (if b = 0 then None else Some (dbl_round (a / b)))"
| "dbl_div (Inf s) (Fin b) = (if b = 0 then None else Some (Inf (s \<noteq> (b < 0))))"
| "dbl_div (Fin a) (Inf _) = Some (Fin 0)"
| "dbl_div _ _ = Some NaN"

fun dbl_less :: "dbl \<Rightarrow> dbl \<Rightarrow> bool" where
  "dbl_less (Fin a) (Fin b) \<longleftrightarrow> a < b"
| "dbl_less (Inf s) (Inf t) \<longleftrightarrow> s \<and> \<not> t"
| "dbl_less (Inf s) (Fin _) \<longleftrightarrow> s"
| "dbl_less (Fin _) (Inf t) \<longleftrightarrow> \<not> t"
| "dbl_less _ _ \<longleftrightarrow> False"

fun dbl_eq :: "dbl \<Rightarrow> dbl \<Rightarrow> bool" where
  "dbl_eq (Fin a) (Fin b) \<longleftrightarrow> a = b"
| "dbl_eq (Inf s) (Inf t) \<longleftrightarrow> s = t"
| "dbl_eq _ _ \<longleftrightarrow> False"

definition truncate_rat :: "rat \<Rightarrow> int" where
  "truncate_rat q = (if q < 0 then \<lceil>q\<rceil> else \<lfloor>q\<rfloor>)"

fun dbl_to_int :: "int \<Rightarrow> int \<Rightarrow> dbl \<Rightarrow> int option" where
  "dbl_to_int lo hi (Fin q) =
     (let i = truncate_rat q in if lo \<le> i \<and> i \<le> hi then Some i else None)"
| "dbl_to_int lo hi _ = None"

definition dbl_to_u16 :: "dbl \<Rightarrow> u16 option" where
  "dbl_to_u16 d = map_option word_of_int (dbl_to_int 0 65535 d)"

definition dbl_to_u32 :: "dbl \<Rightarrow> u32 option" where
  "dbl_to_u32 d = map_option word_of_int (dbl_to_int 0 4294967295 d)"

definition dbl_to_i16 :: "dbl \<Rightarrow> u16 option" where
  "dbl_to_i16 d = map_option word_of_int (dbl_to_int (- 32768) 32767 d)"

definition dbl_to_i32 :: "dbl \<Rightarrow> u32 option" where
  "dbl_to_i32 d = map_option word_of_int (dbl_to_int (- 2147483648) 2147483647 d)"

definition dbl_to_bool :: "dbl \<Rightarrow> bool" where
  "dbl_to_bool d \<longleftrightarrow> \<not> dbl_eq d (Fin 0)"

section \<open>Exact results\<close>

lemma floorlog2_bounds:
  assumes "0 < n"
  shows "2 ^ (floorlog 2 n - 1) \<le> n" and "n < 2 ^ floorlog 2 n" and "0 < floorlog 2 n"
proof -
  show "2 ^ (floorlog 2 n - 1) \<le> n" and "n < 2 ^ floorlog 2 n"
    using floorlog_bounds [of n 2] assms by auto
  show "0 < floorlog 2 n"
    using floorlog_bounds [of n 2] assms by (cases "floorlog 2 n") auto
qed

lemma binade_bounds:
  assumes "0 < q"
  shows "2 powi binade q \<le> q" and "q < 2 powi (binade q + 1)"
proof -
  obtain n d where nd: "quotient_of q = (n, d)"
    by (cases "quotient_of q")
  have d: "0 < d" and q: "q = of_int n / of_int d"
    using quotient_of_denom_pos [OF nd] quotient_of_div [OF nd] by auto
  have n: "0 < n"
    using assms d unfolding q by (simp add: zero_less_divide_iff)
  define a where "a = floorlog 2 (nat n)"
  define b where "b = floorlog 2 (nat d)"
  define k where "k = int a - int b"
  have a: "2 ^ (a - 1) \<le> nat n" "nat n < 2 ^ a" "0 < a"
    using floorlog2_bounds [of "nat n"] n unfolding a_def by auto
  have b: "2 ^ (b - 1) \<le> nat d" "nat d < 2 ^ b" "0 < b"
    using floorlog2_bounds [of "nat d"] d unfolding b_def by auto
  have nr: "(2 :: rat) powi (int a - 1) \<le> of_int n" "of_int n < (2 :: rat) powi int a"
  proof -
    have "(2 :: rat) powi (int a - 1) = of_nat (2 ^ (a - 1))"
      using a(3) by (simp add: power_int_def nat_diff_distrib)
    also have "\<dots> \<le> of_nat (nat n)"
      using a(1) by (simp only: of_nat_le_iff)
    finally show "(2 :: rat) powi (int a - 1) \<le> of_int n"
      using n by simp
    have "(of_nat (nat n) :: rat) < of_nat (2 ^ a)"
      using a(2) by (simp only: of_nat_less_iff)
    then show "of_int n < (2 :: rat) powi int a"
      using n by simp
  qed
  have dr: "(2 :: rat) powi (int b - 1) \<le> of_int d" "of_int d < (2 :: rat) powi int b"
  proof -
    have "(2 :: rat) powi (int b - 1) = of_nat (2 ^ (b - 1))"
      using b(3) by (simp add: power_int_def nat_diff_distrib)
    also have "\<dots> \<le> of_nat (nat d)"
      using b(1) by (simp only: of_nat_le_iff)
    finally show "(2 :: rat) powi (int b - 1) \<le> of_int d"
      using d by simp
    have "(of_nat (nat d) :: rat) < of_nat (2 ^ b)"
      using b(2) by (simp only: of_nat_less_iff)
    then show "of_int d < (2 :: rat) powi int b"
      using d by simp
  qed
  have low: "2 powi (k - 1) \<le> q"
  proof -
    have "(2 :: rat) powi (k - 1) * of_int d \<le> 2 powi (k - 1) * 2 powi int b"
      using dr(2) by (intro mult_left_mono) auto
    also have "\<dots> = 2 powi (int a - 1)"
      by (simp add: k_def flip: power_int_add del: power_int_of_nat)
    also note nr(1)
    finally show ?thesis
      using d by (simp add: q pos_le_divide_eq)
  qed
  have up: "q < 2 powi (k + 1)"
  proof -
    have "of_int n < (2 :: rat) powi int a" by (rule nr(2))
    also have "\<dots> = 2 powi (k + 1) * 2 powi (int b - 1)"
      by (simp add: k_def flip: power_int_add)
    also have "\<dots> \<le> 2 powi (k + 1) * of_int d"
      using dr(1) by (intro mult_left_mono) auto
    finally show ?thesis
      using d by (simp add: q pos_divide_less_eq)
  qed
  have "binade q = (if 2 powi k \<le> q then k else k - 1)"
    by (simp add: binade_def nd k_def a_def b_def)
  then show "2 powi binade q \<le> q" and "q < 2 powi (binade q + 1)"
    using low up by (auto split: if_splits)
qed

lemma round_even_of_int [simp]: "round_even (of_int n) = n"
  by (simp add: round_even_def)

lemma round_even_close: "\<bar>of_int (round_even q) - q\<bar> \<le> 1 / 2"
proof -
  have "of_int \<lfloor>q\<rfloor> \<le> q" and "q < of_int \<lfloor>q\<rfloor> + 1"
    by linarith+
  then show ?thesis
    by (auto simp: round_even_def Let_def abs_le_iff)
qed

lemma round_even_nonzero:
  assumes "1 \<le> \<bar>q\<bar>"
  shows "round_even q \<noteq> 0"
  using round_even_close [of q] assms by auto

lemma dbl_round_exact:
  assumes "finite_dbl q"
  shows "dbl_round q = Fin q"
proof (cases "q = 0")
  case False
  obtain m k where q: "q = of_int m * 2 powi k" and m: "\<bar>m\<bar> < 2 ^ 53" and k: "min_exp \<le> k"
    and big: "\<bar>q\<bar> < dbl_limit"
    using assms unfolding finite_dbl_def by blast
  have "2 powi binade \<bar>q\<bar> \<le> \<bar>q\<bar>"
    using False by (intro binade_bounds) simp
  also have "\<bar>q\<bar> = of_int \<bar>m\<bar> * 2 powi k"
    by (simp add: q abs_mult)
  also have "\<dots> < 2 ^ 53 * 2 powi k"
  proof (rule mult_strict_right_mono)
    have "(of_int \<bar>m\<bar> :: rat) < of_int (2 ^ 53)"
      using m by (simp only: of_int_less_iff)
    then show "(of_int \<bar>m\<bar> :: rat) < 2 ^ 53" by simp
  qed simp
  also have "\<dots> = 2 powi (k + 53)"
    by (simp add: power_int_add)
  finally have "binade \<bar>q\<bar> < k + 53"
    using power_int_increasing [of "k + 53" "binade \<bar>q\<bar>" "2 :: rat"] by (cases "binade \<bar>q\<bar> < k + 53") auto
  then have le: "quantum q \<le> k"
    using k by (simp add: quantum_def)
  have "q / 2 powi quantum q = of_int m * 2 powi (k - quantum q)"
    by (simp add: q power_int_diff)
  also have "\<dots> = of_int (m * 2 ^ nat (k - quantum q))"
    using le by (simp add: power_int_def)
  finally have whole: "q / 2 powi quantum q = of_int (m * 2 ^ nat (k - quantum q))" .
  have "of_int (round_even (q / 2 powi quantum q)) * 2 powi quantum q = q"
    unfolding whole round_even_of_int by (simp flip: whole del: of_int_mult)
  then show ?thesis
    using False big by (simp add: dbl_round_def Let_def)
qed (simp add: dbl_round_def)

lemma finite_dbl_of_int:
  assumes "\<bar>n\<bar> < 2 ^ 53"
  shows "finite_dbl (of_int n)"
proof -
  have "(of_int \<bar>n\<bar> :: rat) < of_int (2 ^ 53)"
    using assms by (simp only: of_int_less_iff)
  then have "\<bar>of_int n :: rat\<bar> < dbl_limit"
    by (simp add: dbl_limit_def)
  then show ?thesis
    unfolding finite_dbl_def using assms by (intro exI [of _ n] exI [of _ 0]) (auto simp: min_exp_def)
qed

lemma dbl_sub_of_int:
  assumes "\<bar>a - b\<bar> < 2 ^ 53"
  shows "dbl_sub (Fin (of_int a)) (Fin (of_int b)) = Fin (of_int (a - b))"
  using dbl_round_exact [OF finite_dbl_of_int [OF assms]] by simp

lemma truncate_of_int [simp]: "truncate_rat (of_int i) = i"
  by (simp add: truncate_rat_def)

text \<open>Gradual underflow: the difference of two doubles is zero only when they are equal.\<close>

lemma dbl_round_nonzero:
  assumes "q = of_int m * 2 powi min_exp" and "q \<noteq> 0"
  shows "dbl_round q \<noteq> Fin 0"
proof -
  define u where "u = (2 :: rat) powi quantum q"
  have u: "0 < u" by (simp add: u_def)
  have "round_even (q / u) \<noteq> 0"
  proof (cases "quantum q = min_exp")
    case True
    then have "q / u = of_int m"
      by (simp add: u_def assms(1))
    then show ?thesis
      using assms by auto
  next
    case False
    then have quant: "quantum q = binade \<bar>q\<bar> - 52"
      by (simp add: quantum_def max_def split: if_splits)
    have "u \<le> 2 powi binade \<bar>q\<bar>"
      by (simp add: u_def quant power_int_increasing)
    also have "\<dots> \<le> \<bar>q\<bar>"
      using assms(2) by (intro binade_bounds) simp
    finally have "1 \<le> \<bar>q / u\<bar>"
      using u by (simp add: abs_divide)
    then show ?thesis by (rule round_even_nonzero)
  qed
  then show ?thesis
    using assms(2) u by (simp add: dbl_round_def Let_def flip: u_def)
qed

lemma finite_dbl_grid:
  assumes "finite_dbl q"
  obtains m where "q = of_int m * 2 powi min_exp"
proof -
  obtain m k where q: "q = of_int m * 2 powi k" and k: "min_exp \<le> k"
    using assms unfolding finite_dbl_def by blast
  have "(2 :: rat) powi k = 2 powi (k - min_exp) * 2 powi min_exp"
    by (simp flip: power_int_add)
  also have "(2 :: rat) powi (k - min_exp) = of_int (2 ^ nat (k - min_exp))"
    using k by (simp add: power_int_def)
  finally have "q = of_int (m * 2 ^ nat (k - min_exp)) * 2 powi min_exp"
    unfolding q by simp
  then show ?thesis by (rule that)
qed

lemma dbl_sub_zero_iff:
  assumes "finite_dbl a" and "finite_dbl b"
  shows "dbl_sub (Fin a) (Fin b) = Fin 0 \<longleftrightarrow> a = b"
proof -
  obtain m n where a: "a = of_int m * 2 powi min_exp" and b: "b = of_int n * 2 powi min_exp"
    using finite_dbl_grid [OF assms(1)] finite_dbl_grid [OF assms(2)] by metis
  have "a - b = of_int (m - n) * 2 powi min_exp"
    by (simp add: a b algebra_simps)
  then show ?thesis
    using dbl_round_nonzero [of "a - b" "m - n"] by (auto simp: dbl_round_def)
qed

end
