(* ===== verification/Json_Item.thy ===== *)
theory Json_Item
  imports Faults Ieee_Double Libc_String
begin

text \<open>
  The items of the JSON library (\<open>apps/netutils/json/cJSON.c\<close>, \<open>cJSON_internal.h\<close>). An item is one block of
  memory: a byte with the formats of its fields, a field for the next item, a field for the data in the
  smallest of several formats, and a field for the name with a length of one or two bytes. The model keeps
  the formats and the sizes of the fields, which decide whether a field fits into the block that was allocated
  for it. The children of an array or object are a list; whether they are stored one by one or packed into
  one block is left out: packing moves the same fields.

  What the library takes from its surroundings is in the record \<open>json_env\<close>: whether an allocation succeeds,
  by the number of allocations before it, the result of converting a double that does not fit an \<open>int\<close>, the
  function \<open>pow\<close> for the base 10, and the text for a number that is not an integer.
\<close>

section \<open>Items\<close>

text \<open>A double with its sign bit, which tells the two zeros apart.\<close>

type_synonym sdouble = "bool \<times> dbl"

record json_env =
  alloc :: "nat \<Rightarrow> bool"
  d2i :: "dbl \<Rightarrow> u32"
  pow10 :: "int \<Rightarrow> dbl"
  print_double :: "sdouble \<Rightarrow> bytes"

datatype cJSON = cJSON (item_name: bytes) (item_data: json_data)
and json_data =
    JSON_DATA_NULL
  | JSON_DATA_FALSE
  | JSON_DATA_TRUE
  | JSON_DATA_NUM_INT8 u8
  | JSON_DATA_NUM_INT16 u16
  | JSON_DATA_NUM_INT32 u32
  | JSON_DATA_NUM_FLOAT sdouble
  | JSON_DATA_NUM_DOUBLE sdouble
  | JSON_DATA_STR bytes
  | JSON_DATA_ARRAY "cJSON list"
  | JSON_DATA_OBJECT "cJSON list"
  | JSON_DATA_BUFFER bytes

datatype cJSON_type_e =
  cJSON_NULL | cJSON_False | cJSON_True | cJSON_Number | cJSON_String | cJSON_Array | cJSON_Object | cJSON_Buffer

fun cJSON_InfoToType :: "json_data \<Rightarrow> cJSON_type_e" where
  "cJSON_InfoToType JSON_DATA_NULL = cJSON_NULL"
| "cJSON_InfoToType JSON_DATA_FALSE = cJSON_False"
| "cJSON_InfoToType JSON_DATA_TRUE = cJSON_True"
| "cJSON_InfoToType (JSON_DATA_NUM_INT8 _) = cJSON_Number"
| "cJSON_InfoToType (JSON_DATA_NUM_INT16 _) = cJSON_Number"
| "cJSON_InfoToType (JSON_DATA_NUM_INT32 _) = cJSON_Number"
| "cJSON_InfoToType (JSON_DATA_NUM_FLOAT _) = cJSON_Number"
| "cJSON_InfoToType (JSON_DATA_NUM_DOUBLE _) = cJSON_Number"
| "cJSON_InfoToType (JSON_DATA_STR _) = cJSON_String"
| "cJSON_InfoToType (JSON_DATA_ARRAY _) = cJSON_Array"
| "cJSON_InfoToType (JSON_DATA_OBJECT _) = cJSON_Object"
| "cJSON_InfoToType (JSON_DATA_BUFFER _) = cJSON_Buffer"

section \<open>Sizes of fields\<close>

datatype name_type = JSON_NAME_EMPTY | JSON_NAME_SHORT | JSON_NAME_LONG

definition cJSON_NameFieldTypeByLength :: "nat \<Rightarrow> name_type" where
  "cJSON_NameFieldTypeByLength len =
     (if len = 0 then JSON_NAME_EMPTY else if len + 1 \<le> 255 then JSON_NAME_SHORT else JSON_NAME_LONG)"

text \<open>The size that a new item reserves for its name, and the size of the field once the name is stored, by the
  length that its length field holds.\<close>

definition cJSON_CalculateNameFieldSize :: "bytes \<Rightarrow> nat" where
  "cJSON_CalculateNameFieldSize name =
     (case cJSON_NameFieldTypeByLength (length name) of
        JSON_NAME_EMPTY \<Rightarrow> 0
      | JSON_NAME_SHORT \<Rightarrow> 1 + length name + 1
      | JSON_NAME_LONG \<Rightarrow> 1 + length name + 1)"

fun cJSON_NameFieldLength :: "name_type \<Rightarrow> nat \<Rightarrow> nat" where
  "cJSON_NameFieldLength JSON_NAME_EMPTY len = 0"
| "cJSON_NameFieldLength JSON_NAME_SHORT len = 1 + unat (word_of_nat len :: u8)"
| "cJSON_NameFieldLength JSON_NAME_LONG len = 2 + unat (word_of_nat len :: u16)"

definition cJSON_CalculateDataStringFieldSize :: "nat \<Rightarrow> nat" where
  "cJSON_CalculateDataStringFieldSize len = (if len + 1 \<le> 255 then 1 + len + 1 else 2 + len + 1)"

definition cJSON_CalculateNextFieldSize :: nat where
  "cJSON_CalculateNextFieldSize = 4"

fun cJSON_DataFieldLength :: "json_data \<Rightarrow> nat" where
  "cJSON_DataFieldLength JSON_DATA_NULL = 0"
| "cJSON_DataFieldLength JSON_DATA_FALSE = 0"
| "cJSON_DataFieldLength JSON_DATA_TRUE = 0"
| "cJSON_DataFieldLength (JSON_DATA_NUM_INT8 _) = 1"
| "cJSON_DataFieldLength (JSON_DATA_NUM_INT16 _) = 2"
| "cJSON_DataFieldLength (JSON_DATA_NUM_INT32 _) = 4"
| "cJSON_DataFieldLength (JSON_DATA_NUM_FLOAT _) = 4"
| "cJSON_DataFieldLength (JSON_DATA_NUM_DOUBLE _) = 8"
| "cJSON_DataFieldLength (JSON_DATA_STR s) = cJSON_CalculateDataStringFieldSize (length s)"
| "cJSON_DataFieldLength (JSON_DATA_ARRAY _) = 4"
| "cJSON_DataFieldLength (JSON_DATA_OBJECT _) = 4"
| "cJSON_DataFieldLength (JSON_DATA_BUFFER b) = 2 + length b"

text \<open>\<open>cJSON_New_Item\<close> allocates the byte of formats and the fields. Storing the name (\<open>cJSON_SetName\<close>) writes it
  with its header behind the data; it fails when this leaves the block.\<close>

definition cJSON_SetName :: "nat \<Rightarrow> nat \<Rightarrow> bytes \<Rightarrow> bool" where
  "cJSON_SetName block pos name \<longleftrightarrow>
     (case cJSON_NameFieldTypeByLength (length name) of
        JSON_NAME_EMPTY \<Rightarrow> True
      | JSON_NAME_SHORT \<Rightarrow> pos + 1 + (length name + 1) \<le> block
      | JSON_NAME_LONG \<Rightarrow> pos + 2 + (length name + 1) \<le> block)"

text \<open>The functions \<open>cJSON_CreateNamed...\<close>: an item with data and name in a block of the calculated size, at the
  price of one allocation. The result \<open>None\<close> is NULL.\<close>

definition cJSON_New_Item :: "json_env \<Rightarrow> bytes \<Rightarrow> json_data \<Rightarrow> nat \<Rightarrow> (cJSON option \<times> nat) res" where
  "cJSON_New_Item e name data n =
     (let data_len = cJSON_DataFieldLength data;
          fields_size = cJSON_CalculateNextFieldSize + data_len + cJSON_CalculateNameFieldSize name
      in if \<not> alloc e n then Inr (None, Suc n)
         else check Memory (cJSON_SetName (1 + fields_size) (1 + cJSON_CalculateNextFieldSize + data_len) name)
                (Some (cJSON name data), Suc n))"

section \<open>Numbers\<close>

fun dbl_abs :: "dbl \<Rightarrow> dbl" where
  "dbl_abs NaN = NaN"
| "dbl_abs (Inf _) = Inf False"
| "dbl_abs (Fin q) = Fin \<bar>q\<bar>"

definition dbl_le :: "dbl \<Rightarrow> dbl \<Rightarrow> bool" where
  "dbl_le a b \<longleftrightarrow> dbl_less a b \<or> dbl_eq a b"

definition DBL_EPSILON :: dbl where
  "DBL_EPSILON = Fin (1 / 2 ^ 52)"

definition dbl_equal :: "dbl \<Rightarrow> dbl \<Rightarrow> bool" where
  "dbl_equal a b =
     (let fabs_a = dbl_abs a; fabs_b = dbl_abs b
      in dbl_le (dbl_abs (dbl_sub a b)) (dbl_mult (if dbl_less fabs_b fabs_a then fabs_b else fabs_a) DBL_EPSILON))"

text \<open>Conversions from a double: to \<open>int\<close>, and to \<open>float\<close> (IEEE 754 binary32), rounding to nearest even.\<close>

definition double_to_int :: "json_env \<Rightarrow> dbl \<Rightarrow> u32" where
  "double_to_int e d = (case dbl_to_i32 d of Some w \<Rightarrow> w | None \<Rightarrow> d2i e d)"

definition flt_quantum :: "rat \<Rightarrow> int" where
  "flt_quantum q = max (binade \<bar>q\<bar> - 23) (- 149)"

definition flt_round :: "rat \<Rightarrow> dbl" where
  "flt_round q =
     (if q = 0 then Fin 0
      else (let u = 2 powi flt_quantum q; r = of_int (round_even (q / u)) * u
            in if 2 ^ 128 \<le> \<bar>r\<bar> then Inf (q < 0) else Fin r))"

fun double_to_float :: "dbl \<Rightarrow> dbl" where
  "double_to_float (Fin q) = flt_round q"
| "double_to_float d = d"

text \<open>\<open>cJSON_CalculateDataNumberFieldSize\<close> and \<open>cJSON_SetValueNumber\<close>: the smallest format that holds the number,
  with the number stored in it.\<close>

definition store_number :: "json_env \<Rightarrow> sdouble \<Rightarrow> json_data" where
  "store_number e num =
     (let (sign, d) = num
      in if dbl_eq d (Fin 0)
         then (if \<not> sign then JSON_DATA_NUM_INT8 0 else JSON_DATA_NUM_FLOAT num)
         else
           (let s32 = double_to_int e d; i = sint s32; f = double_to_float d
            in if dbl_eq (Fin (of_int i)) d \<or> dbl_equal d (Fin (of_int i))
               then
                 (if i \<ge> - 128 \<and> i \<le> 127 then JSON_DATA_NUM_INT8 (ucast s32)
                  else if i \<ge> - 32768 \<and> i \<le> 32767 then JSON_DATA_NUM_INT16 (ucast s32)
                  else JSON_DATA_NUM_INT32 s32)
               else if dbl_eq f d \<or> dbl_equal d f then JSON_DATA_NUM_FLOAT (sign, f)
               else JSON_DATA_NUM_DOUBLE num))"

fun cJSON_GetValueInt :: "json_env \<Rightarrow> json_data \<Rightarrow> int" where
  "cJSON_GetValueInt e (JSON_DATA_NUM_INT8 w) = sint w"
| "cJSON_GetValueInt e (JSON_DATA_NUM_INT16 w) = sint w"
| "cJSON_GetValueInt e (JSON_DATA_NUM_INT32 w) = sint w"
| "cJSON_GetValueInt e (JSON_DATA_NUM_FLOAT d) = sint (double_to_int e (snd d))"
| "cJSON_GetValueInt e (JSON_DATA_NUM_DOUBLE d) = sint (double_to_int e (snd d))"
| "cJSON_GetValueInt e _ = 0"

fun cJSON_GetValueDouble :: "json_data \<Rightarrow> sdouble" where
  "cJSON_GetValueDouble (JSON_DATA_NUM_INT8 w) = (sint w < 0, Fin (of_int (sint w)))"
| "cJSON_GetValueDouble (JSON_DATA_NUM_INT16 w) = (sint w < 0, Fin (of_int (sint w)))"
| "cJSON_GetValueDouble (JSON_DATA_NUM_INT32 w) = (sint w < 0, Fin (of_int (sint w)))"
| "cJSON_GetValueDouble (JSON_DATA_NUM_FLOAT d) = d"
| "cJSON_GetValueDouble (JSON_DATA_NUM_DOUBLE d) = d"
| "cJSON_GetValueDouble _ = (False, Fin 0)"

section \<open>Creating and naming items\<close>

definition cJSON_CreateNamedNull :: "json_env \<Rightarrow> bytes \<Rightarrow> nat \<Rightarrow> (cJSON option \<times> nat) res" where
  "cJSON_CreateNamedNull e name = cJSON_New_Item e name JSON_DATA_NULL"

definition cJSON_CreateNamedBool :: "json_env \<Rightarrow> bytes \<Rightarrow> bool \<Rightarrow> nat \<Rightarrow> (cJSON option \<times> nat) res" where
  "cJSON_CreateNamedBool e name b = cJSON_New_Item e name (if b then JSON_DATA_TRUE else JSON_DATA_FALSE)"

definition cJSON_CreateNamedNumber :: "json_env \<Rightarrow> bytes \<Rightarrow> sdouble \<Rightarrow> nat \<Rightarrow> (cJSON option \<times> nat) res" where
  "cJSON_CreateNamedNumber e name num = cJSON_New_Item e name (store_number e num)"

text \<open>\<open>cJSON_SetValueBuffer\<close> asserts that the length of the string with its terminator fits its length field.\<close>

definition cJSON_CreateNamedString :: "json_env \<Rightarrow> bytes \<Rightarrow> bytes \<Rightarrow> nat \<Rightarrow> (cJSON option \<times> nat) res" where
  "cJSON_CreateNamedString e name s n =
     (if \<not> alloc e n then Inr (None, Suc n)
      else if length s + 1 < 65536 then cJSON_New_Item e name (JSON_DATA_STR s) n
      else Inl Assertion)"

definition cJSON_CreateNamedArray :: "json_env \<Rightarrow> bytes \<Rightarrow> nat \<Rightarrow> (cJSON option \<times> nat) res" where
  "cJSON_CreateNamedArray e name = cJSON_New_Item e name (JSON_DATA_ARRAY [])"

definition cJSON_CreateNamedObject :: "json_env \<Rightarrow> bytes \<Rightarrow> nat \<Rightarrow> (cJSON option \<times> nat) res" where
  "cJSON_CreateNamedObject e name n =
     and_then (cJSON_CreateNamedArray e name n)
       (\<lambda>(item, n). Inr (map_option (\<lambda>i. cJSON (item_name i) (JSON_DATA_OBJECT [])) item, n))"

text \<open>\<open>cJSON_ChangeName\<close> reallocates the block when the size of the name field changes. When that fails it deletes
  the item and returns NULL. At the end it asserts that the sizes of the fields add up.\<close>

definition cJSON_ChangeName :: "json_env \<Rightarrow> cJSON \<Rightarrow> bytes \<Rightarrow> nat \<Rightarrow> (cJSON option \<times> nat) res" where
  "cJSON_ChangeName e item new_name n =
     (let name_type = cJSON_NameFieldTypeByLength (length (item_name item));
          name_field_len = cJSON_NameFieldLength name_type (length (item_name item) + 1);
          new_name_type = cJSON_NameFieldTypeByLength (length new_name);
          new_name_field_len = (case new_name_type of
            JSON_NAME_EMPTY \<Rightarrow> 0 | JSON_NAME_SHORT \<Rightarrow> 1 + length new_name + 1 | JSON_NAME_LONG \<Rightarrow> 2 + length new_name + 1);
          renamed = check Assertion (cJSON_NameFieldLength new_name_type (length new_name + 1) = new_name_field_len)
                      (cJSON new_name (item_data item))
      in if name_type = new_name_type \<and> name_field_len = new_name_field_len
         then and_then renamed (\<lambda>item. Inr (Some item, n))
         else if \<not> alloc e n then Inr (None, Suc n)
         else and_then renamed (\<lambda>item. Inr (Some item, Suc n)))"

section \<open>Reading items\<close>

fun cJSON_child :: "cJSON \<Rightarrow> cJSON list" where
  "cJSON_child (cJSON _ (JSON_DATA_ARRAY items)) = items"
| "cJSON_child (cJSON _ (JSON_DATA_OBJECT items)) = items"
| "cJSON_child _ = []"

fun set_child :: "cJSON list \<Rightarrow> cJSON \<Rightarrow> cJSON" where
  "set_child items (cJSON name (JSON_DATA_ARRAY _)) = cJSON name (JSON_DATA_ARRAY items)"
| "set_child items (cJSON name (JSON_DATA_OBJECT _)) = cJSON name (JSON_DATA_OBJECT items)"
| "set_child items item = item"

definition cJSON_AddItemToArray :: "cJSON \<Rightarrow> cJSON \<Rightarrow> cJSON" where
  "cJSON_AddItemToArray array item = set_child (cJSON_child array @ [item]) array"

definition cJSON_GetArraySize :: "cJSON \<Rightarrow> nat" where
  "cJSON_GetArraySize array = length (cJSON_child array)"

fun nth_item :: "cJSON list \<Rightarrow> nat \<Rightarrow> cJSON option" where
  "nth_item [] item = None"
| "nth_item (c # cs) item = (if 0 < item then nth_item cs (item - 1) else Some c)"

definition cJSON_GetArrayItem :: "cJSON \<Rightarrow> nat \<Rightarrow> cJSON option" where
  "cJSON_GetArrayItem array item = nth_item (cJSON_child array) item"

definition tolower :: "u8 \<Rightarrow> u8" where
  "tolower c = (if c \<ge> 65 \<and> c \<le> 90 then c - 65 + 97 else c)"

fun cJSON_strcasecmp :: "bytes \<Rightarrow> bytes \<Rightarrow> int" where
  "cJSON_strcasecmp [] t = (if tolower (char_at t 0) = 0 then 0 else - uint (tolower (char_at t 0)))"
| "cJSON_strcasecmp (c # cs) t =
     (if tolower c = tolower (char_at t 0) then (if c = 0 then 0 else cJSON_strcasecmp cs (tl t))
      else uint (tolower c) - uint (tolower (char_at t 0)))"

definition cJSON_GetObjectItem :: "cJSON \<Rightarrow> bytes \<Rightarrow> cJSON option" where
  "cJSON_GetObjectItem object name = find (\<lambda>c. cJSON_strcasecmp (item_name c) name = 0) (cJSON_child object)"

definition cJSON_type :: "cJSON \<Rightarrow> cJSON_type_e" where
  "cJSON_type item = cJSON_InfoToType (item_data item)"

definition cJSON_string :: "cJSON \<Rightarrow> bytes" where
  "cJSON_string item = (case item_data item of JSON_DATA_STR s \<Rightarrow> s | _ \<Rightarrow> [])"

definition cJSON_int :: "json_env \<Rightarrow> cJSON \<Rightarrow> int" where
  "cJSON_int e item = (if cJSON_type item \<noteq> cJSON_Number then 0 else cJSON_GetValueInt e (item_data item))"

definition cJSON_double :: "cJSON \<Rightarrow> sdouble" where
  "cJSON_double item = (if cJSON_type item \<noteq> cJSON_Number then (False, Fin 0) else cJSON_GetValueDouble (item_data item))"

definition cJSON_boolean :: "json_env \<Rightarrow> cJSON \<Rightarrow> bool" where
  "cJSON_boolean e item =
     (case cJSON_type item of
        cJSON_True \<Rightarrow> True
      | cJSON_String \<Rightarrow> char_at (cJSON_string item) 0 \<noteq> 0
      | cJSON_Number \<Rightarrow> cJSON_int e item \<noteq> 0
      | cJSON_Array \<Rightarrow> cJSON_child item \<noteq> []
      | cJSON_Object \<Rightarrow> cJSON_child item \<noteq> []
      | _ \<Rightarrow> False)"

end
