(* ===== verification/Json_Parse.thy ===== *)
theory Json_Parse
  imports Json_Item
begin

text \<open>
  The JSON parser (\<open>apps/netutils/json/cJSON_stream_parse.c\<close>). It reads characters through \<open>stream_peek\<close> and
  \<open>stream_get\<close> with one character of lookahead; here the stream is the list of the characters that
  \<open>stream_get\<close> has not delivered yet, and behind its end there are NUL characters, as behind the end of a C string.
  \<open>lookahead\<close> at the end of the theory relates the two.

  A parser returns NULL (\<open>None\<close>) or a value with the rest of the stream and the number of allocations so far; it
  can also fail (\<open>Faults\<close>). The recursive functions take a fuel, and \<open>None\<close> outside is that it was not enough; the
  fuel of \<open>cJSON_Parse_Stream\<close>, more than twice the number of characters, always is. Freeing what was built
  before an error is left out. The number of bytes allocated for a string is its length so far and one more,
  for the terminator, so the writes of the string parser stay inside.
\<close>

section \<open>The stream\<close>

definition stream_peek :: "bytes \<Rightarrow> u8" where
  "stream_peek s = (case s of [] \<Rightarrow> 0 | c # _ \<Rightarrow> c)"

definition stream_get :: "bytes \<Rightarrow> bytes" where
  "stream_get s = tl s"

definition skip :: "bytes \<Rightarrow> bytes" where
  "skip s = dropWhile (\<lambda>c. c \<noteq> 0 \<and> c \<le> 32) s"

text \<open>Characters of the syntax.\<close>

abbreviation (input) QUOTE :: u8 where "QUOTE \<equiv> 34"
abbreviation (input) BACKSLASH :: u8 where "BACKSLASH \<equiv> 92"
abbreviation (input) COMMA :: u8 where "COMMA \<equiv> 44"
abbreviation (input) COLON :: u8 where "COLON \<equiv> 58"
abbreviation (input) LBRACK :: u8 where "LBRACK \<equiv> 91"
abbreviation (input) RBRACK :: u8 where "RBRACK \<equiv> 93"
abbreviation (input) LBRACE :: u8 where "LBRACE \<equiv> 123"
abbreviation (input) RBRACE :: u8 where "RBRACE \<equiv> 125"
abbreviation (input) MINUS :: u8 where "MINUS \<equiv> 45"

section \<open>Results\<close>

type_synonym 'a parsed = "('a \<times> bytes \<times> nat) option run"

definition then_parse :: "'a option run \<Rightarrow> ('a \<Rightarrow> 'b option run) \<Rightarrow> 'b option run" where
  "then_parse r f = next_run r (\<lambda>x. case x of None \<Rightarrow> return_run None | Some a \<Rightarrow> f a)"

datatype stream_parse_value =
    PNull
  | PFalse
  | PTrue
  | PNumber sdouble
  | PString bytes
  | PObject cJSON

text \<open>The item for a value. A failed renaming of an array or object has deleted it, and it is deleted again here.\<close>

definition stream_parse_create_item :: "json_env \<Rightarrow> stream_parse_value \<Rightarrow> bytes \<Rightarrow> nat \<Rightarrow> (cJSON option \<times> nat) res" where
  "stream_parse_create_item e value name n =
     (case value of
        PNull \<Rightarrow> cJSON_CreateNamedNull e name n
      | PFalse \<Rightarrow> cJSON_CreateNamedBool e name False n
      | PTrue \<Rightarrow> cJSON_CreateNamedBool e name True n
      | PNumber d \<Rightarrow> cJSON_CreateNamedNumber e name d n
      | PString s \<Rightarrow> cJSON_CreateNamedString e name s n
      | PObject item \<Rightarrow>
          and_then (cJSON_ChangeName e item name n)
            (\<lambda>(renamed, n). if renamed = None then Inl Memory else Inr (renamed, n)))"

definition create :: "(cJSON option \<times> nat) res \<Rightarrow> bytes \<Rightarrow> cJSON parsed" where
  "create r s = Some (and_then r (\<lambda>(item, n). Inr (map_option (\<lambda>i. (i, s, n)) item)))"

definition create_item :: "json_env \<Rightarrow> stream_parse_value \<Rightarrow> bytes \<Rightarrow> bytes \<Rightarrow> nat \<Rightarrow> cJSON parsed" where
  "create_item e value name s n = create (stream_parse_create_item e value name n) s"

section \<open>Numbers\<close>

definition digit_value :: "u8 \<Rightarrow> dbl" where
  "digit_value c = Fin (of_int (uint c - 48))"

fun parse_digits :: "dbl \<Rightarrow> u32 \<Rightarrow> bytes \<Rightarrow> dbl \<times> u32 \<times> bytes" where
  "parse_digits n scale [] = (n, scale, [])"
| "parse_digits n scale (c # s) =
     (if is_digit c then parse_digits (dbl_add (dbl_mult n (Fin 10)) (digit_value c)) (scale - 1) s
      else (n, scale, c # s))"

fun parse_exponent :: "u32 \<Rightarrow> bytes \<Rightarrow> u32 \<times> bytes" where
  "parse_exponent subscale [] = (subscale, [])"
| "parse_exponent subscale (c # s) =
     (if is_digit c then parse_exponent (subscale * 10 + word_of_int (uint c - 48)) s else (subscale, c # s))"

fun dbl_neg :: "dbl \<Rightarrow> dbl" where
  "dbl_neg NaN = NaN"
| "dbl_neg (Inf s) = Inf (\<not> s)"
| "dbl_neg (Fin q) = Fin (- q)"

definition copysign :: "dbl \<Rightarrow> bool \<Rightarrow> sdouble" where
  "copysign d sign = (sign, if sign then dbl_neg (dbl_abs d) else dbl_abs d)"

text \<open>The parts of a number: digits, fraction, exponent with its sign, and the power of ten they are multiplied with.\<close>

definition number_digits :: "bytes \<Rightarrow> dbl \<times> u32 \<times> bytes" where
  "number_digits s = (if stream_peek s \<ge> 49 \<and> stream_peek s \<le> 57 then parse_digits (Fin 0) 0 s else (Fin 0, 0, s))"

definition number_fraction :: "dbl \<Rightarrow> bytes \<Rightarrow> dbl \<times> u32 \<times> bytes" where
  "number_fraction n s = (if stream_peek s = 46 then parse_digits n 0 (stream_get s) else (n, 0, s))"

definition number_exponent :: "bytes \<Rightarrow> u32 \<times> bytes" where
  "number_exponent s =
     (if stream_peek s = 101 \<or> stream_peek s = 69
      then
        (let s = stream_get s;
             minus = (stream_peek s = MINUS);
             s = (if stream_peek s = 43 \<or> minus then stream_get s else s);
             (subscale, s) = parse_exponent 0 s
         in (subscale * (if minus then - 1 else 1), s))
      else (0, s))"

definition stream_parse_number :: "json_env \<Rightarrow> bytes \<Rightarrow> sdouble \<times> bytes" where
  "stream_parse_number e s =
     (let sign = (stream_peek s = MINUS);
          s = (if sign then stream_get s else s);
          zero = (stream_peek s = 48);
          s = (if zero then stream_get s else s)
      in if zero \<and> stream_peek s \<noteq> 46 \<and> stream_peek s \<noteq> 101 \<and> stream_peek s \<noteq> 69
         then (copysign (Fin 0) sign, s)
         else
           (let (n, _, s) = number_digits s;
                (n, scale, s) = number_fraction n s;
                (subscale, s) = number_exponent s;
                n = (if \<not> dbl_eq n (Fin 0) then dbl_mult n (pow10 e (sint (scale + subscale))) else n)
            in (copysign n sign, s)))"

section \<open>Strings\<close>

definition stream_parse_hex :: "bytes \<Rightarrow> u32 option" where
  "stream_parse_hex s =
     (let ascii = stream_peek s
      in if ascii \<ge> 48 \<and> ascii \<le> 57 then Some (ucast ascii - 48)
         else if ascii \<ge> 65 \<and> ascii \<le> 70 then Some (10 + ucast ascii - 65)
         else if ascii \<ge> 97 \<and> ascii \<le> 102 then Some (10 + ucast ascii - 97)
         else None)"

text \<open>Reading stops at a character that is not a hexadecimal digit, with the value 0.\<close>

fun parse_hex :: "nat \<Rightarrow> u32 \<Rightarrow> bytes \<Rightarrow> u32 \<times> bytes" where
  "parse_hex 0 h s = (h, s)"
| "parse_hex (Suc k) h s =
     (case stream_parse_hex s of
        None \<Rightarrow> (0, s)
      | Some val \<Rightarrow> parse_hex k (push_bit 4 h + val) (stream_get s))"

definition stream_parse_hex4 :: "bytes \<Rightarrow> u32 \<times> bytes" where
  "stream_parse_hex4 s = parse_hex 4 0 s"

definition firstByteMark :: "nat \<Rightarrow> u32" where
  "firstByteMark len = [0x00, 0x00, 0xc0, 0xe0, 0xf0, 0xf8, 0xfc] ! len"

text \<open>The bytes of a character, written from the last one to the first.\<close>

fun utf8_tail :: "nat \<Rightarrow> u32 \<Rightarrow> bytes \<Rightarrow> u32 \<times> bytes" where
  "utf8_tail 0 uc out = (uc, out)"
| "utf8_tail (Suc k) uc out = utf8_tail k (drop_bit 6 uc) (ucast ((uc OR 0x80) AND 0xbf) # out)"

definition utf8_char :: "u32 \<Rightarrow> bytes" where
  "utf8_char uc =
     (let len = (if uc < 0x80 then 1 else if uc < 0x800 then 2 else if uc < 0x10000 then 3 else 4);
          (first, rest) = utf8_tail (len - 1) uc []
      in ucast (first OR firstByteMark len) # rest)"

definition unescape :: "u8 \<Rightarrow> u8" where
  "unescape val =
     (if val = 98 then 8 else if val = 102 then 12 else if val = 110 then 10 else if val = 114 then 13
      else if val = 116 then 9 else val)"

lemma parse_hex_length [simp]: "parse_hex k h s = (h', s') \<Longrightarrow> length s' \<le> length s"
proof (induction k arbitrary: h s)
  case (Suc k)
  then show ?case
    using le_trans [OF Suc.IH [of _ "stream_get s"]] by (auto simp: stream_get_def split: option.splits)
qed auto

lemma hex4_length: "length (snd (stream_parse_hex4 s)) \<le> length s"
  using parse_hex_length [of 4 0 s] by (cases "parse_hex 4 0 s") (simp add: stream_parse_hex4_def)

lemma peek_nonempty: "stream_peek s \<noteq> 0 \<Longrightarrow> length s = Suc (length (stream_get s))"
  by (cases s) (auto simp: stream_peek_def stream_get_def)

lemma get_length: "length (stream_get s) \<le> length s"
  by (simp add: stream_get_def)

text \<open>The escape of a UTF-16 code unit, behind \<open>\u\<close>: the character, if there is one, and whether the rest is behind
  the backslash of another escape.\<close>

definition unicode_escape :: "bytes \<Rightarrow> u32 option \<times> bool \<times> bytes" where
  "unicode_escape s =
     (let (uc, s) = stream_parse_hex4 s
      in if uc \<ge> 0xdc00 \<and> uc \<le> 0xdfff \<or> uc = 0 then (None, False, s)
         else if uc \<ge> 0xd800 \<and> uc \<le> 0xdbff
         then
           (if stream_peek s \<noteq> BACKSLASH then (None, False, s)
            else
              (let s = stream_get s
               in if stream_peek s \<noteq> 117 then (None, True, s)
                  else
                    (let (uc2, s) = stream_parse_hex4 (stream_get s)
                     in if uc2 < 0xdc00 \<or> uc2 > 0xdfff then (None, False, s)
                        else (Some (0x10000 OR push_bit 10 (uc AND 0x3ff) OR (uc2 AND 0x3ff)), False, s))))
         else (Some uc, False, s))"

text \<open>Every round of the loop takes a character off the stream or leaves an escape.\<close>

definition string_measure :: "bool \<Rightarrow> bytes \<Rightarrow> nat" where
  "string_measure esc s = 2 * length s + (if esc then 1 else 0)"

lemma unicode_escape_measure:
  assumes "unicode_escape s = (uc, esc, s')"
  shows "string_measure esc s' \<le> 2 * length s"
proof -
  obtain h t where h: "stream_parse_hex4 s = (h, t)"
    by (cases "stream_parse_hex4 s")
  obtain h2 t2 where h2: "stream_parse_hex4 (stream_get (stream_get t)) = (h2, t2)"
    by (cases "stream_parse_hex4 (stream_get (stream_get t))")
  have "length t \<le> length s" and "length t2 \<le> length t"
    using hex4_length [of s] h hex4_length [of "stream_get (stream_get t)"] h2
      get_length [of "stream_get t"] get_length [of t] by auto
  moreover have "stream_peek t = BACKSLASH \<Longrightarrow> length t = Suc (length (stream_get t))"
    using peek_nonempty [of t] by simp
  ultimately show ?thesis
    using assms h h2 by (auto simp: unicode_escape_def string_measure_def Let_def split: if_splits)
qed

text \<open>The loop over the characters of a string. \<open>esc\<close> is the position behind a backslash, the label
  \<open>next_escape\<close> of the code.\<close>

function string_loop :: "json_env \<Rightarrow> bool \<Rightarrow> bytes \<Rightarrow> nat \<Rightarrow> bytes \<Rightarrow> (bytes \<times> bytes \<times> nat) option" where
  "string_loop e esc out n s =
     (if \<not> esc
      then
        (if stream_peek s = QUOTE \<or> stream_peek s = 0 then Some (out, s, n)
         else if stream_peek s \<noteq> BACKSLASH
         then (if alloc e n then string_loop e False (out @ [stream_peek s]) (Suc n) (stream_get s) else None)
         else string_loop e True out n (stream_get s))
      else
        (let val = unescape (stream_peek s)
         in if val \<noteq> 117
            then (if alloc e n then string_loop e False (out @ [val]) (Suc n) (stream_get s) else None)
            else
              (case unicode_escape (stream_get s) of
                 (None, esc, s) \<Rightarrow> string_loop e esc out n s
               | (Some uc, _, s) \<Rightarrow>
                   if alloc e n then string_loop e False (out @ utf8_char uc) (Suc n) s else None)))"
  by pat_completeness auto

lemma escape_measure:
  assumes "(uc, esc, s') = unicode_escape (stream_get s)"
  shows "2 * length s' + (if esc then 1 else 0) < Suc (2 * length s)" and "length s' \<le> length s"
proof -
  show less: "2 * length s' + (if esc then 1 else 0) < Suc (2 * length s)"
    using unicode_escape_measure [OF assms [symmetric]] get_length [of s] by (simp add: string_measure_def)
  then show "length s' \<le> length s"
    by (simp split: if_splits)
qed

termination string_loop
  by (relation "measure (\<lambda>(e, esc, out, n, s). string_measure esc s)")
    (auto simp: string_measure_def peek_nonempty get_length le_imp_less_Suc
       dest: escape_measure split: if_splits)

declare string_loop.simps [simp del]

definition stream_parse_string :: "json_env \<Rightarrow> nat \<Rightarrow> bytes \<Rightarrow> (bytes \<times> bytes \<times> nat) option" where
  "stream_parse_string e n s =
     (if stream_peek s \<noteq> QUOTE then None
      else if \<not> alloc e n then None
      else
        (case string_loop e False [] (Suc n) (stream_get s) of
           None \<Rightarrow> None
         | Some (out, s, n) \<Rightarrow>
             Some (takeWhile (\<lambda>c. c \<noteq> 0) out, if stream_peek s = QUOTE then stream_get s else s, n)))"

section \<open>Values\<close>

fun match_name :: "bytes \<Rightarrow> bytes \<Rightarrow> bytes option" where
  "match_name [] s = Some s"
| "match_name (m # ms) s = (if stream_peek s = m then match_name ms (stream_get s) else None)"

definition parse_name :: "stream_parse_value \<Rightarrow> bytes \<Rightarrow> nat \<Rightarrow> bytes \<Rightarrow> stream_parse_value parsed" where
  "parse_name value name n s = return_run (map_option (\<lambda>s. (value, s, n)) (match_name name s))"

text \<open>Packing the children takes one allocation, if there are any; when it fails they stay as they are.\<close>

definition cJSON_PackChild :: "cJSON \<Rightarrow> nat \<Rightarrow> nat" where
  "cJSON_PackChild array n = (if cJSON_child array = [] then n else Suc n)"

text \<open>The end of an array or object.\<close>

definition close_array :: "u8 \<Rightarrow> cJSON \<Rightarrow> nat \<Rightarrow> bytes \<Rightarrow> stream_parse_value parsed" where
  "close_array bracket array n s =
     return_run (if stream_peek s = bracket then Some (PObject array, stream_get s, cJSON_PackChild array n) else None)"

fun parse_value :: "nat \<Rightarrow> json_env \<Rightarrow> nat \<Rightarrow> bytes \<Rightarrow> stream_parse_value parsed"
and array_items :: "nat \<Rightarrow> json_env \<Rightarrow> cJSON \<Rightarrow> nat \<Rightarrow> bytes \<Rightarrow> stream_parse_value parsed"
and object_items :: "nat \<Rightarrow> json_env \<Rightarrow> cJSON \<Rightarrow> nat \<Rightarrow> bytes \<Rightarrow> stream_parse_value parsed" where
  "parse_value 0 e n s = None"
| "parse_value (Suc fuel) e n s =
     (if stream_peek s = 110 then parse_name PNull (of_string ''null'') n s
      else if stream_peek s = 102 then parse_name PFalse (of_string ''false'') n s
      else if stream_peek s = 116 then parse_name PTrue (of_string ''true'') n s
      else if stream_peek s = QUOTE
      then return_run (map_option (\<lambda>(str, s, n). (PString str, s, n)) (stream_parse_string e n s))
      else if stream_peek s = MINUS \<or> is_digit (stream_peek s)
      then (let (d, s) = stream_parse_number e s in return_run (Some (PNumber d, s, n)))
      else if stream_peek s = LBRACK
      then
        then_parse (create (cJSON_CreateNamedArray e [] n) (skip (stream_get s))) (\<lambda>(array, s, n).
          if stream_peek s = RBRACK then return_run (Some (PObject array, stream_get s, n))
          else array_items fuel e array n s)
      else if stream_peek s = LBRACE
      then
        then_parse (create (cJSON_CreateNamedObject e [] n) (skip (stream_get s))) (\<lambda>(object, s, n).
          if stream_peek s = RBRACE then return_run (Some (PObject object, stream_get s, n))
          else object_items fuel e object n s)
      else return_run None)"
| "array_items 0 e array n s = None"
| "array_items (Suc fuel) e array n s =
     then_parse (parse_value fuel e n (skip s)) (\<lambda>(value, s, n).
     then_parse (create_item e value [] (skip s) n) (\<lambda>(new_item, s, n).
       let array = cJSON_AddItemToArray array new_item
       in if stream_peek s = COMMA then array_items fuel e array n (stream_get s)
          else close_array RBRACK array n s))"
| "object_items 0 e object n s = None"
| "object_items (Suc fuel) e object n s =
     then_parse (return_run (stream_parse_string e n (skip s))) (\<lambda>(name, s, n).
     let s = skip s
     in if stream_peek s \<noteq> COLON then return_run None
        else
          then_parse (parse_value fuel e n (skip (stream_get s))) (\<lambda>(value, s, n).
          then_parse (create_item e value name (skip s) n) (\<lambda>(new_item, s, n).
            let object = cJSON_AddItemToArray object new_item
            in if stream_peek s = COMMA then object_items fuel e object n (stream_get s)
               else close_array RBRACE object n s)))"

text \<open>The whole text. What follows the value has to end it, up to white space.\<close>

definition cJSON_Parse_Stream :: "json_env \<Rightarrow> nat \<Rightarrow> bytes \<Rightarrow> (cJSON \<times> bytes \<times> nat) option run" where
  "cJSON_Parse_Stream e n s =
     then_parse (parse_value (2 * length s + 1) e n (skip s)) (\<lambda>(value, s, n).
     then_parse (create_item e value [] s n) (\<lambda>(c, s, n).
       return_run (if stream_peek (skip s) \<noteq> 0 then None else Some (c, stream_get (skip s), n))))"

definition cJSON_Parse :: "json_env \<Rightarrow> nat \<Rightarrow> bytes \<Rightarrow> (cJSON \<times> nat) option run" where
  "cJSON_Parse e n value = then_parse (cJSON_Parse_Stream e n value) (\<lambda>(c, _, n). return_run (Some (c, n)))"

section \<open>The stream as the code keeps it\<close>

text \<open>\<open>curr\<close> is the character that has been peeked at, or -1; \<open>src\<close> are the characters that the source has not delivered.\<close>

record cJSON_instream =
  curr :: int
  src :: bytes

definition getc_string :: "bytes \<Rightarrow> u8 \<times> bytes" where
  "getc_string s = (if stream_peek s \<noteq> 0 then (stream_peek s, tl s) else (stream_peek s, s))"

definition instream_get :: "cJSON_instream \<Rightarrow> u8 \<times> cJSON_instream" where
  "instream_get i =
     (if curr i \<ge> 0 then (word_of_int (curr i), i\<lparr>curr := - 1\<rparr>)
      else (let (c, s) = getc_string (src i) in (c, i\<lparr>src := s\<rparr>)))"

definition instream_peek :: "cJSON_instream \<Rightarrow> u8 \<times> cJSON_instream" where
  "instream_peek i =
     (if curr i \<ge> 0 then (word_of_int (curr i), i)
      else (let (c, s) = getc_string (src i) in (c, i\<lparr>curr := uint c, src := s\<rparr>)))"

definition lookahead :: "cJSON_instream \<Rightarrow> bytes" where
  "lookahead i = (if curr i < 0 then src i else if curr i = 0 then [] else word_of_int (curr i) # src i)"

definition instream_ok :: "cJSON_instream \<Rightarrow> bool" where
  "instream_ok i \<longleftrightarrow> no_nul (src i) \<and> curr i < 256 \<and> (curr i = 0 \<longrightarrow> src i = [])"

lemma instream_peek_view:
  assumes "instream_ok i" and "instream_peek i = (c, i')"
  shows "c = stream_peek (lookahead i) \<and> lookahead i' = lookahead i \<and> instream_ok i'"
  using assms uint_lt2p [of c]
  by (cases "src i") (auto simp: instream_peek_def instream_ok_def lookahead_def getc_string_def stream_peek_def
      Let_def uint_0_iff split: if_splits)

lemma instream_get_view:
  assumes "instream_ok i" and "instream_get i = (c, i')"
  shows "c = stream_peek (lookahead i) \<and> lookahead i' = stream_get (lookahead i) \<and> instream_ok i'"
  using assms
  by (cases "src i") (auto simp: instream_get_def instream_ok_def lookahead_def getc_string_def stream_peek_def
      stream_get_def Let_def split: if_splits)

section \<open>Reading from a file\<close>

text \<open>\<open>unread\<close> is the part of the file that has not been read, \<open>fd_reads\<close> the number of calls of \<open>read\<close>; how many bytes
  at most a call returns, which is none at an error, is the parameter \<open>avail\<close>.\<close>

record parse_fd_priv_s =
  max_readlen :: nat
  nread :: nat
  fd_buf :: "bytes option"
  bufpos :: nat
  unread :: bytes
  fd_reads :: nat

definition FD_PARSER_CACHE_SIZE :: nat where
  "FD_PARSER_CACHE_SIZE = 256"

definition fd_read :: "(nat \<Rightarrow> nat) \<Rightarrow> nat \<Rightarrow> parse_fd_priv_s \<Rightarrow> bytes \<times> parse_fd_priv_s" where
  "fd_read avail len p =
     (let k = min len (avail (fd_reads p))
      in (take k (unread p), p\<lparr>unread := drop k (unread p), fd_reads := Suc (fd_reads p)\<rparr>))"

definition getc_fd :: "json_env \<Rightarrow> (nat \<Rightarrow> nat) \<Rightarrow> parse_fd_priv_s \<Rightarrow> u8 \<times> parse_fd_priv_s" where
  "getc_fd e avail p =
     (if max_readlen p > 0 \<and> nread p = max_readlen p then (0, p)
      else if fd_buf p \<noteq> None \<and> bufpos p < length (the (fd_buf p))
      then (the (fd_buf p) ! bufpos p, p\<lparr>bufpos := bufpos p + 1\<rparr>)
      else
        (let p = (if max_readlen p > 0 \<and> fd_buf p = None \<and> alloc e 0 then p\<lparr>fd_buf := Some []\<rparr> else p)
         in if fd_buf p \<noteq> None
            then
              (let maxread = min (max_readlen p - nread p) FD_PARSER_CACHE_SIZE;
                   (data, p) = fd_read avail maxread p
               in if data = [] then (0, p)
                  else (data ! 0, p\<lparr>nread := nread p + length data, fd_buf := Some data, bufpos := 1\<rparr>))
            else
              (let (data, p) = fd_read avail 1 p
               in if data = [] then (0, p) else (data ! 0, p\<lparr>nread := nread p + 1\<rparr>))))"

text \<open>The first characters that the parser gets.\<close>

fun fd_chars :: "json_env \<Rightarrow> (nat \<Rightarrow> nat) \<Rightarrow> nat \<Rightarrow> parse_fd_priv_s \<Rightarrow> bytes" where
  "fd_chars e avail 0 p = []"
| "fd_chars e avail (Suc k) p = (let (c, p) = getc_fd e avail p in c # fd_chars e avail k p)"

definition fd_open :: "nat \<Rightarrow> bytes \<Rightarrow> parse_fd_priv_s" where
  "fd_open len text = \<lparr>max_readlen = len, nread = 0, fd_buf = None, bufpos = 0, unread = text, fd_reads = 0\<rparr>"

text \<open>A limit above the length of the file gives all of it, in pieces of any size. A limit of exactly its length loses
  what is in the buffer after the last call of \<open>read\<close>.\<close>

definition fd_view :: "parse_fd_priv_s \<Rightarrow> bytes" where
  "fd_view p = (case fd_buf p of None \<Rightarrow> [] | Some b \<Rightarrow> drop (bufpos p) b) @ unread p"

definition fd_ok :: "parse_fd_priv_s \<Rightarrow> bool" where
  "fd_ok p \<longleftrightarrow> nread p + length (unread p) < max_readlen p"

lemma getc_fd_step:
  assumes "fd_ok p" and "alloc e 0" and "\<And>k. 0 < avail k"
  shows "\<exists>p'. getc_fd e avail p = (stream_peek (fd_view p), p') \<and> fd_view p' = stream_get (fd_view p) \<and> fd_ok p'"
proof (cases "fd_buf p \<noteq> None \<and> bufpos p < length (the (fd_buf p))")
  case True
  then show ?thesis
    using assms(1) by (auto simp: getc_fd_def fd_ok_def fd_view_def stream_peek_def stream_get_def
        Cons_nth_drop_Suc [symmetric] drop_Suc tl_drop)
next
  case False
  then have view: "fd_view p = unread p"
    by (auto simp: fd_view_def split: option.splits)
  have "0 < min (max_readlen p - nread p) FD_PARSER_CACHE_SIZE"
    using assms(1) by (simp add: fd_ok_def FD_PARSER_CACHE_SIZE_def)
  then obtain k where k: "Suc k = min (min (max_readlen p - nread p) FD_PARSER_CACHE_SIZE) (avail (fd_reads p))"
    using assms(3) [of "fd_reads p"] by (metis min_def not0_implies_Suc gr0_conv_Suc)
  show ?thesis
    using False assms view k
    by (cases "unread p") (auto simp: getc_fd_def fd_ok_def fd_view_def fd_read_def stream_peek_def stream_get_def
        Let_def k [symmetric])
qed

lemma fd_complete:
  assumes "fd_ok p" and "alloc e 0" and "\<And>k. 0 < avail k"
  shows "fd_chars e avail k p = take k (fd_view p @ replicate k 0)"
  using assms(1)
proof (induction k arbitrary: p)
  case (Suc k)
  obtain p' where p': "getc_fd e avail p = (stream_peek (fd_view p), p')" "fd_view p' = stream_get (fd_view p)" "fd_ok p'"
    using getc_fd_step [OF Suc.prems assms(2), of avail] assms(3) by blast
  then show ?case
    using Suc.IH [OF p'(3)] by (cases "fd_view p") (auto simp: stream_peek_def stream_get_def replicate_append_same [symmetric])
qed simp

lemma fd_truncated:
  assumes "text = c # cs" and "length text \<le> FD_PARSER_CACHE_SIZE" and "length text \<le> avail 0" and "alloc e 0"
  shows "fd_chars e avail (Suc k) (fd_open (length text) text) = c # replicate k 0"
proof -
  define p where "p = \<lparr>max_readlen = length text, nread = length text, fd_buf = Some text, bufpos = 1, unread = [], fd_reads = 1\<rparr>"
  have "getc_fd e avail (fd_open (length text) text) = (c, p)"
    using assms by (simp add: getc_fd_def fd_open_def fd_read_def Let_def p_def min_def)
  moreover have "fd_chars e avail j p = replicate j 0" for j
    using assms(1) by (induction j) (simp_all add: getc_fd_def p_def)
  ultimately show ?thesis by simp
qed

end
