(* ===== verification/Json_Print.thy ===== *)
theory Json_Print
  imports Json_Item
begin

text \<open>
  The JSON printer (\<open>apps/netutils/json/cJSON_stream_print.c\<close>). It sends characters to a function; the model is the
  list of the characters sent. \<open>putc_string\<close> is the function that writes them to a buffer of limited size and
  counts the ones that do not fit. The text of a number that is not an integer comes from the environment,
  everything else is computed here.
\<close>

section \<open>Characters\<close>

record putc_string_priv_s =
  put_buf :: bytes
  buflen :: nat
  numput :: nat

text \<open>\<open>put_buf\<close> holds the characters written so far to the buffer.\<close>

definition putc_string :: "u8 \<Rightarrow> putc_string_priv_s \<Rightarrow> putc_string_priv_s" where
  "putc_string c priv =
     (if numput priv \<ge> buflen priv then priv\<lparr>numput := numput priv + 1\<rparr>
      else priv\<lparr>put_buf := put_buf priv @ [c], numput := numput priv + 1\<rparr>)"

section \<open>Numbers, buffers and strings\<close>

definition stream_print_number :: "json_env \<Rightarrow> cJSON \<Rightarrow> bytes" where
  "stream_print_number e item =
     (let d = cJSON_double item; int_d = cJSON_int e item
      in if int_d = 0 \<and> dbl_eq (snd d) (Fin 0)
         then (if \<not> fst d then of_string ''0'' else of_string ''-0.0'')
         else if int_d \<noteq> 0 \<and> dbl_le (snd d) (Fin 2147483647) \<and> dbl_le (Fin (- 2147483648)) (snd d)
                \<and> dbl_equal (snd d) (Fin (of_int int_d))
         then decimal_int int_d
         else print_double e d)"

definition hex_digit :: "bool \<Rightarrow> nat \<Rightarrow> u8" where
  "hex_digit upper v = (if v < 10 then 48 + word_of_nat v else (if upper then 55 else 87) + word_of_nat v)"

definition stream_print_buffer :: "cJSON \<Rightarrow> bytes" where
  "stream_print_buffer item =
     [40] @ concat (map (\<lambda>b. [hex_digit True (unat b div 16), hex_digit True (unat b mod 16)])
              (case item_data item of JSON_DATA_BUFFER b \<Rightarrow> b | JSON_DATA_STR s \<Rightarrow> s @ [0] | _ \<Rightarrow> [])) @ [41]"

definition print_char :: "u8 \<Rightarrow> bytes" where
  "print_char c =
     (if c > 31 \<and> c \<noteq> 34 \<and> c \<noteq> 92 then [c]
      else 92 # (if c = 92 then [92] else if c = 34 then [34] else if c = 8 then [98] else if c = 12 then [102]
                 else if c = 10 then [110] else if c = 13 then [114] else if c = 9 then [116]
                 else [117, 48, 48, hex_digit False (unat c div 16), hex_digit False (unat c mod 16)]))"

definition stream_print_string_ptr :: "bytes \<Rightarrow> bytes" where
  "stream_print_string_ptr str = [34] @ concat (map print_char str) @ [34]"

section \<open>Values\<close>

text \<open>A comma follows every child but the last; a formatted array puts a space behind it, a formatted object starts a
  line for each member, with as many tabulators as the object is deep.\<close>

fun stream_print_value :: "json_env \<Rightarrow> nat \<Rightarrow> bool \<Rightarrow> cJSON \<Rightarrow> bytes"
and print_items :: "json_env \<Rightarrow> nat \<Rightarrow> bool \<Rightarrow> cJSON list \<Rightarrow> bytes"
and print_members :: "json_env \<Rightarrow> nat \<Rightarrow> bool \<Rightarrow> cJSON list \<Rightarrow> bytes" where
  "stream_print_value e depth fmt (cJSON name data) =
     (case data of
        JSON_DATA_NULL \<Rightarrow> of_string ''null''
      | JSON_DATA_FALSE \<Rightarrow> of_string ''false''
      | JSON_DATA_TRUE \<Rightarrow> of_string ''true''
      | JSON_DATA_STR s \<Rightarrow> stream_print_string_ptr s
      | JSON_DATA_BUFFER _ \<Rightarrow> stream_print_buffer (cJSON name data)
      | JSON_DATA_ARRAY items \<Rightarrow> [91] @ print_items e depth fmt items @ [93]
      | JSON_DATA_OBJECT items \<Rightarrow>
          [123] @ (if fmt then [10] else []) @ print_members e depth fmt items @
          (if fmt then replicate (depth - 1) 9 else []) @ [125]
      | _ \<Rightarrow> stream_print_number e (cJSON name data))"
| "print_items e depth fmt [] = []"
| "print_items e depth fmt (child # items) =
     stream_print_value e (depth + 1) fmt child @
     (if items \<noteq> [] then [44] @ (if fmt then [32] else []) else []) @ print_items e depth fmt items"
| "print_members e depth fmt [] = []"
| "print_members e depth fmt (child # items) =
     (if fmt then replicate depth 9 else []) @
     stream_print_string_ptr (item_name child) @ [58] @ (if fmt then [9] else []) @
     stream_print_value e (depth + 1) fmt child @
     (if items \<noteq> [] then [44] else []) @ (if fmt then [10] else []) @ print_members e depth fmt items"

section \<open>Printing to a buffer\<close>

definition cJSON_Print_Stream :: "json_env \<Rightarrow> cJSON \<Rightarrow> bool \<Rightarrow> putc_string_priv_s \<Rightarrow> putc_string_priv_s" where
  "cJSON_Print_Stream e item formatted priv = fold putc_string (stream_print_value e 0 formatted item) priv"

definition cJSON_Print_Buf :: "json_env \<Rightarrow> cJSON \<Rightarrow> bool \<Rightarrow> nat \<Rightarrow> nat \<times> bytes" where
  "cJSON_Print_Buf e item formatted len =
     (let priv = cJSON_Print_Stream e item formatted \<lparr>put_buf = [], buflen = len, numput = 0\<rparr>
      in (numput priv, put_buf priv))"

text \<open>Two passes: the first counts the characters, the second writes them to a block of that size and the
  terminator. The count of the second pass is asserted to be the same.\<close>

definition cJSON_Print_String :: "json_env \<Rightarrow> cJSON \<Rightarrow> bool \<Rightarrow> nat \<Rightarrow> (bytes option \<times> nat) res" where
  "cJSON_Print_String e item formatted n =
     (let num_chars = fst (cJSON_Print_Buf e item formatted 0);
          (numput, out) = cJSON_Print_Buf e item formatted num_chars
      in if \<not> alloc e n then Inr (None, Suc n)
         else check Assertion (numput = num_chars) (Some out, Suc n))"

lemma fold_putc_string:
  "fold putc_string cs priv =
     priv\<lparr>put_buf := put_buf priv @ take (buflen priv - numput priv) cs, numput := numput priv + length cs\<rparr>"
  by (induction cs arbitrary: priv) (auto simp: putc_string_def Suc_diff_le not_le Suc_le_eq take_Cons')

lemma Print_Buf_eq:
  "cJSON_Print_Buf e item fmt len =
     (length (stream_print_value e 0 fmt item), take len (stream_print_value e 0 fmt item))"
  by (simp add: cJSON_Print_Buf_def cJSON_Print_Stream_def fold_putc_string)

lemma Print_String_eq:
  "alloc e n \<Longrightarrow> cJSON_Print_String e item fmt n = Inr (Some (stream_print_value e 0 fmt item), Suc n)"
  by (simp add: cJSON_Print_String_def Print_Buf_eq check_def)

end
