(* ===== verification/Json_Laws.thy ===== *)
theory Json_Laws
  imports Json_Parse Json_Print
begin

text \<open>
  What the building blocks of the JSON library do when memory is available: items with short names are created,
  integers are stored in the smallest format and read back, and the text that the printer makes of a string or
  an integer is read back by the parser.
\<close>

section \<open>Sequencing\<close>

lemma then_parse_simps [simp]:
  "then_parse None f = None"
  "then_parse (Some (Inl x)) f = Some (Inl x)"
  "then_parse (return_run None) f = return_run None"
  "then_parse (return_run (Some a)) f = f a"
  by (simp_all add: then_parse_def)

lemma runs_then_parse [simp]:
  "runs Q (then_parse r f) \<longleftrightarrow> runs (\<lambda>x. case x of None \<Rightarrow> Q None | Some a \<Rightarrow> runs Q (f a)) r"
  unfolding then_parse_def runs_next by (rule arg_cong [where f = "\<lambda>P. runs P r"]) (auto split: option.split)

section \<open>Creating items\<close>

definition short_name :: "bytes \<Rightarrow> bool" where
  "short_name name \<longleftrightarrow> length name < 255"

lemma New_Item_short:
  assumes "short_name name" and "alloc e n"
  shows "cJSON_New_Item e name data n = Inr (Some (cJSON name data), Suc n)"
  using assms
  by (auto simp: cJSON_New_Item_def cJSON_SetName_def cJSON_CalculateNameFieldSize_def cJSON_NameFieldTypeByLength_def
      short_name_def Let_def check_def)

fun data_of :: "json_env \<Rightarrow> stream_parse_value \<Rightarrow> json_data" where
  "data_of e PNull = JSON_DATA_NULL"
| "data_of e PFalse = JSON_DATA_FALSE"
| "data_of e PTrue = JSON_DATA_TRUE"
| "data_of e (PNumber d) = store_number e d"
| "data_of e (PString s) = JSON_DATA_STR s"
| "data_of e (PObject item) = item_data item"

text \<open>Values of the parser: strings are short enough for their length field and items have no name yet.\<close>

fun value_ok :: "stream_parse_value \<Rightarrow> bool" where
  "value_ok (PString s) \<longleftrightarrow> length s < 65535"
| "value_ok (PObject item) \<longleftrightarrow> item_name item = []"
| "value_ok _ \<longleftrightarrow> True"

lemma unat_of_nat_u8: "k < 256 \<Longrightarrow> unat (word_of_nat k :: u8) = k"
  by (simp add: unsigned_of_nat take_bit_nat_eq_self)

lemma ChangeName_short:
  assumes "short_name name" and "item_name item = []" and "\<And>n. alloc e n"
  shows "\<exists>n'. cJSON_ChangeName e item name n = Inr (Some (cJSON name (item_data item)), n')"
  using assms
  by (auto simp: cJSON_ChangeName_def cJSON_NameFieldTypeByLength_def short_name_def Let_def check_def unat_of_nat_u8
      simp del: of_nat_Suc of_nat_add)

lemma create_item_short:
  assumes "short_name name" and "value_ok v" and "\<And>n. alloc e n"
  shows "\<exists>n'. create_item e v name s n = return_run (Some (cJSON name (data_of e v), s, n'))"
proof (cases v)
  case (PObject item)
  then obtain n' where "cJSON_ChangeName e item name n = Inr (Some (cJSON name (item_data item)), n')"
    using ChangeName_short [OF assms(1) _ assms(3)] assms(2) by auto
  with PObject show ?thesis
    by (simp add: create_item_def create_def stream_parse_create_item_def)
qed (use assms in \<open>auto simp: create_item_def create_def stream_parse_create_item_def New_Item_short
  cJSON_CreateNamedNull_def cJSON_CreateNamedBool_def cJSON_CreateNamedNumber_def cJSON_CreateNamedString_def\<close>)

lemma create_container:
  assumes "alloc e n"
  shows "create (cJSON_CreateNamedArray e [] n) s = return_run (Some (cJSON [] (JSON_DATA_ARRAY []), s, Suc n))"
    and "create (cJSON_CreateNamedObject e [] n) s = return_run (Some (cJSON [] (JSON_DATA_OBJECT []), s, Suc n))"
  using assms
  by (simp_all add: create_def cJSON_CreateNamedArray_def cJSON_CreateNamedObject_def New_Item_short short_name_def)

section \<open>Integers\<close>

definition int_data :: "int \<Rightarrow> json_data" where
  "int_data i =
     (if - 128 \<le> i \<and> i \<le> 127 then JSON_DATA_NUM_INT8 (word_of_int i)
      else if - 32768 \<le> i \<and> i \<le> 32767 then JSON_DATA_NUM_INT16 (word_of_int i)
      else JSON_DATA_NUM_INT32 (word_of_int i))"

definition int32 :: "int \<Rightarrow> bool" where
  "int32 i \<longleftrightarrow> - 2147483648 \<le> i \<and> i \<le> 2147483647"

lemma sint_of_int:
  "- 128 \<le> i \<Longrightarrow> i \<le> 127 \<Longrightarrow> sint (word_of_int i :: u8) = i"
  "- 32768 \<le> i \<Longrightarrow> i \<le> 32767 \<Longrightarrow> sint (word_of_int i :: u16) = i"
  "int32 i \<Longrightarrow> sint (word_of_int i :: u32) = i"
  by (simp_all add: sint_sbintrunc' int32_def signed_take_bit_int_eq_self)

lemma ucast_of_int: "ucast (word_of_int i :: u32) = (word_of_int i :: u8)" "ucast (word_of_int i :: u32) = (word_of_int i :: u16)"
  by (rule bit_word_eqI, auto simp: bit_simps)+

lemma store_number_int:
  assumes "int32 i"
  shows "store_number e (i < 0, Fin (of_int i)) = int_data i"
proof -
  have "dbl_to_i32 (Fin (of_int i)) = Some (word_of_int i)"
    using assms by (simp add: dbl_to_i32_def Let_def int32_def)
  then show ?thesis
    using assms sint_of_int(3) [OF assms]
    by (auto simp: store_number_def Let_def double_to_int_def int_data_def ucast_of_int)
qed

lemma int_data_read:
  assumes "int32 i"
  shows "cJSON_GetValueInt e (int_data i) = i" and "cJSON_GetValueDouble (int_data i) = (i < 0, Fin (of_int i))"
    and "cJSON_InfoToType (int_data i) = cJSON_Number"
  using assms by (auto simp: int_data_def sint_of_int)

lemma dbl_equal_refl_int:
  assumes "int32 i"
  shows "dbl_equal (Fin (of_int i)) (Fin (of_int i))"
proof -
  have "finite_dbl (of_int \<bar>i\<bar> * 2 powi - 52)"
  proof -
    have "(of_int \<bar>i\<bar> * 2 powi - 52 :: rat) \<le> of_int \<bar>i\<bar>"
      by (simp add: power_int_minus divide_simps mult_left_le)
    also have "\<dots> < dbl_limit"
    proof -
      have "(of_int \<bar>i\<bar> :: rat) \<le> of_int (2 ^ 32)"
        using assms unfolding of_int_le_iff int32_def by simp linarith
      also have "\<dots> = 2 ^ 32" by simp
      also have "\<dots> < dbl_limit" unfolding dbl_limit_def by (rule power_strict_increasing) auto
      finally show ?thesis .
    qed
    finally have "\<bar>of_int \<bar>i\<bar> * 2 powi - 52 :: rat\<bar> < dbl_limit" by simp
    then show ?thesis
      using assms unfolding finite_dbl_def int32_def min_exp_def by (intro exI [of _ "\<bar>i\<bar>"] exI [of _ "- 52"]) auto
  qed
  from dbl_round_exact [OF this] have "dbl_mult (Fin \<bar>of_int i\<bar>) DBL_EPSILON = Fin (of_int \<bar>i\<bar> * 2 powi - 52)"
    by (simp add: DBL_EPSILON_def power_int_minus inverse_eq_divide)
  moreover have "dbl_round 0 = Fin 0" by (simp add: dbl_round_def)
  ultimately show ?thesis
    by (auto simp: dbl_equal_def dbl_le_def Let_def)
qed

lemma print_int:
  assumes "int32 i"
  shows "stream_print_number e (cJSON name (int_data i)) = decimal_int i"
proof -
  have d: "decimal_int 0 = of_string ''0''"
    by (simp add: decimal_int_def decimal.simps of_string_def)
  have r: "- 2147483648 \<le> (of_int i :: rat)" "(of_int i :: rat) \<le> 2147483647"
    using assms unfolding int32_def by linarith+
  show ?thesis
    using d r int_data_read [OF assms] dbl_equal_refl_int [OF assms]
    by (auto simp: stream_print_number_def cJSON_double_def cJSON_int_def cJSON_type_def Let_def dbl_le_def)
qed

section \<open>The text of an integer\<close>

definition digit_step :: "dbl \<Rightarrow> u8 \<Rightarrow> dbl" where
  "digit_step n c = dbl_add (dbl_mult n (Fin 10)) (digit_value c)"

lemma parse_digits_append:
  assumes "list_all is_digit ds" and "\<not> is_digit (stream_peek rest)"
  shows "\<exists>k'. parse_digits n k (ds @ rest) = (foldl digit_step n ds, k', rest)"
  using assms
proof (induction ds arbitrary: n k)
  case Nil
  then show ?case by (cases rest) (auto simp: stream_peek_def)
qed (auto simp: digit_step_def)

lemma digit_step_exact:
  assumes "10 * a + d < 2 ^ 53" and "d < 10"
  shows "digit_step (Fin (of_nat a)) (48 + word_of_nat d) = Fin (of_nat (10 * a + d))"
proof -
  have fin: "dbl_round (of_nat k) = Fin (of_nat k)" if "k < 2 ^ 53" for k :: nat
  proof -
    have "\<bar>int k\<bar> < 2 ^ 53" using that by (metis abs_of_nat of_nat_less_iff of_nat_numeral of_nat_power)
    from dbl_round_exact [OF finite_dbl_of_int [OF this]] show ?thesis by simp
  qed
  have "dbl_mult (Fin (of_nat a)) (Fin 10) = Fin (of_nat (10 * a))"
    using fin [of "10 * a"] assms(1) by (simp add: mult.commute)
  moreover have "digit_value (48 + word_of_nat d) = Fin (of_nat d)"
    using uint_digit [OF assms(2)] by (simp add: digit_value_def)
  moreover have "dbl_add (Fin (of_nat (10 * a))) (Fin (of_nat d)) = Fin (of_nat (10 * a + d))"
    using fin [OF assms(1)] by (simp del: of_nat_mult)
  ultimately show ?thesis by (simp only: digit_step_def)
qed

lemma foldl_decimal:
  "n < 2 ^ 53 \<Longrightarrow> foldl digit_step (Fin 0) (decimal n) = Fin (of_nat n)"
proof (induction n rule: decimal.induct)
  case (1 n)
  show ?case
  proof (cases "n < 10")
    case True
    then show ?thesis
      using digit_step_exact [of 0 n] by (simp add: decimal.simps)
  next
    case False
    have "n div 10 < 2 ^ 53" using 1(2) by simp
    then have "foldl digit_step (Fin 0) (decimal (n div 10)) = Fin (of_nat (n div 10))"
      using 1(1) False by blast
    then show ?thesis
      using False digit_step_exact [of "n div 10" "n mod 10"] 1(2) by (simp add: decimal.simps [of n])
  qed
qed

lemma decimal_first:
  assumes "0 < n"
  shows "\<exists>c cs. decimal n = c # cs \<and> 49 \<le> c \<and> c \<le> 57"
  using assms
proof (induction n rule: decimal.induct)
  case (1 n)
  show ?case
  proof (cases "n < 10")
    case True
    then have "uint (48 + word_of_nat n :: u8) = 48 + int n" by (rule uint_digit)
    with True 1(2) show ?thesis by (simp add: decimal.simps word_le_def)
  next
    case False
    with 1(1) have "\<exists>c cs. decimal (n div 10) = c # cs \<and> 49 \<le> c \<and> c \<le> 57" by simp
    then show ?thesis using False by (auto simp: decimal.simps [of n])
  qed
qed

definition ends_number :: "bytes \<Rightarrow> bool" where
  "ends_number s \<longleftrightarrow> \<not> is_digit (stream_peek s) \<and> stream_peek s \<noteq> 46 \<and> stream_peek s \<noteq> 101 \<and> stream_peek s \<noteq> 69"

text \<open>The documented value of \<open>pow\<close> at exponent zero, and an allocator that does not run out of memory.\<close>

definition json_ok :: "json_env \<Rightarrow> bool" where
  "json_ok e \<longleftrightarrow> (\<forall>n. alloc e n) \<and> pow10 e 0 = Fin 1"

lemma json_okD: "json_ok e \<Longrightarrow> alloc e n" "json_ok e \<Longrightarrow> pow10 e 0 = Fin 1"
  by (simp_all add: json_ok_def)

lemma parse_decimal:
  assumes "0 < n" and "n < 2 ^ 53" and "ends_number rest" and "json_ok e"
  shows "stream_parse_number e (decimal n @ rest) = (copysign (Fin (of_nat n)) False, rest)"
    and "stream_parse_number e (45 # decimal n @ rest) = (copysign (Fin (of_nat n)) True, rest)"
proof -
  obtain c cs where c: "decimal n = c # cs" "49 \<le> c" "c \<le> 57"
    using decimal_first [OF assms(1)] by blast
  have ne: "c \<noteq> 45" "c \<noteq> 48" using c(2) by (auto simp: word_le_def)
  obtain k where k: "parse_digits (Fin 0) 0 (decimal n @ rest) = (Fin (of_nat n), k, rest)"
    using parse_digits_append [where ds = "decimal n" and rest = rest and n = "Fin 0" and k = 0] decimal_digits foldl_decimal [OF assms(2)] assms(3)
    by (auto simp: ends_number_def)
  have "dbl_mult (Fin (of_nat n)) (Fin 1) = Fin (of_nat n)"
  proof -
    have "\<bar>int n\<bar> < 2 ^ 53" using assms(2) by (metis abs_of_nat of_nat_less_iff of_nat_numeral of_nat_power)
    from dbl_round_exact [OF finite_dbl_of_int [OF this]] show ?thesis by simp
  qed
  then show "stream_parse_number e (decimal n @ rest) = (copysign (Fin (of_nat n)) False, rest)"
    and "stream_parse_number e (45 # decimal n @ rest) = (copysign (Fin (of_nat n)) True, rest)"
    using k c ne assms(1,3) json_okD(2) [OF assms(4)]
    by (simp_all add: stream_parse_number_def number_digits_def number_fraction_def number_exponent_def stream_get_def ends_number_def stream_peek_def [of "_ # _"])
qed

lemma parse_int:
  assumes "int32 i" and "ends_number rest" and "json_ok e"
  shows "stream_parse_number e (decimal_int i @ rest) = ((i < 0, Fin (of_int i)), rest)"
proof -
  have bound: "nat \<bar>i\<bar> < 2 ^ 53" using assms(1) by (auto simp: int32_def)
  consider "i = 0" | "0 < i" | "i < 0" by linarith
  then show ?thesis
  proof cases
    case 1
    then show ?thesis
      using assms(2) by (simp add: decimal_int_def decimal.simps stream_parse_number_def stream_peek_def [of "_ # _"]
          stream_get_def ends_number_def copysign_def)
  next
    case 2
    then show ?thesis
      using parse_decimal(1) [of "nat i" rest e] bound assms(2,3) by (simp add: decimal_int_def copysign_def)
  next
    case 3
    then show ?thesis
      using parse_decimal(2) [of "nat (- i)" rest e] bound assms(2,3) by (simp add: decimal_int_def copysign_def)
  qed
qed

section \<open>The text of a string\<close>

lemma parse_hex_digit:
  assumes "v < 16"
  shows "stream_parse_hex (hex_digit False v # s) = Some (word_of_nat v)"
proof -
  have "v = 0 \<or> v = 1 \<or> v = 2 \<or> v = 3 \<or> v = 4 \<or> v = 5 \<or> v = 6 \<or> v = 7 \<or> v = 8 \<or> v = 9 \<or> v = 10 \<or> v = 11 \<or>
    v = 12 \<or> v = 13 \<or> v = 14 \<or> v = 15"
    using assms by presburger
  then show ?thesis
    by (elim disjE) (simp_all add: stream_parse_hex_def stream_peek_def hex_digit_def)
qed

lemma ucast_byte_u32: "uint (ucast (c :: u8) :: u32) = uint c" "ucast (ucast c :: u32) = c"
  by (simp add: uint_up_ucast is_up) (rule bit_word_eqI, auto simp: bit_simps)

lemma hex4_byte:
  "stream_parse_hex4 (48 # 48 # hex_digit False (unat c div 16) # hex_digit False (unat c mod 16) # s) = (ucast (c :: u8), s)"
proof -
  have zero: "stream_parse_hex (48 # t) = Some 0" for t
    using parse_hex_digit [of 0 t] by (simp add: hex_digit_def)
  have "unat c div 16 < 16" by (simp add: div_less_iff_less_mult)
  note high = parse_hex_digit [OF this]
  have "unat c mod 16 < 16" by simp
  note low = parse_hex_digit [OF this]
  have "push_bit 4 (word_of_nat (unat c div 16)) + word_of_nat (unat c mod 16) = (ucast c :: u32)"
  proof -
    have "word_of_nat (unat c div 16 * 16 + unat c mod 16) = (word_of_nat (unat c) :: u32)"
      by (simp only: div_mult_mod_eq)
    then have "word_of_nat (unat c div 16) * 16 + word_of_nat (unat c mod 16) = (word_of_nat (unat c) :: u32)"
      by (simp only: of_nat_add of_nat_mult of_nat_numeral)
    also have "\<dots> = ucast c" by (rule of_nat_unat)
    finally show ?thesis by (simp add: push_bit_eq_mult)
  qed
  moreover have "stream_parse_hex4 t = parse_hex (Suc (Suc (Suc (Suc 0)))) 0 t" for t
    by (simp add: stream_parse_hex4_def numeral_eq_Suc)
  ultimately show ?thesis
    using zero high low by (simp add: stream_get_def)
qed

lemma utf8_char_ascii: "c < 0x80 \<Longrightarrow> utf8_char (ucast (c :: u8)) = [c]"
proof -
  assume "c < 0x80"
  then have "(ucast c :: u32) < 0x80"
    by (simp add: word_less_def ucast_byte_u32)
  then show ?thesis
    by (simp add: utf8_char_def firstByteMark_def ucast_byte_u32)
qed

text \<open>A character is read back as it was printed.\<close>

lemma string_loop_char:
  assumes "c \<noteq> 0" and "alloc e n"
  shows "string_loop e False out n (print_char c @ s) = string_loop e False (out @ [c]) (Suc n) s"
proof -
  note steps = string_loop.simps stream_peek_def [of "_ # _"] stream_get_def unescape_def
  consider "c > 31" "c \<noteq> 34" "c \<noteq> 92" | "c \<in> {92, 34, 8, 12, 10, 13, 9}"
    | "c \<le> 31" "c \<notin> {92, 34, 8, 12, 10, 13, 9}"
    by fastforce
  then show ?thesis
  proof cases
    case 1
    then show ?thesis
      using assms by (simp add: print_char_def string_loop.simps [of e False out n] stream_peek_def stream_get_def)
  next
    case 2
    then show ?thesis
      using assms by (auto simp: print_char_def string_loop.simps [of e False out n] string_loop.simps [of e True]
          stream_peek_def stream_get_def unescape_def)
  next
    case 3
    then have u: "c < 0x80" and t: "\<not> c > 31"
      by (auto simp: word_le_def word_less_def)
    have "ucast c \<noteq> (0 :: u32)" using assms(1) ucast_byte_u32(2) [of c] by force
    moreover have "(ucast c :: u32) \<le> 31" using 3(1) by (simp add: word_le_def ucast_byte_u32)
    ultimately have "unicode_escape (48 # 48 # hex_digit False (unat c div 16) # hex_digit False (unat c mod 16) # s)
        = (Some (ucast c), False, s)"
      by (auto simp: unicode_escape_def hex4_byte word_le_def)
    then show ?thesis
      using 3 t assms utf8_char_ascii [OF u]
      by (simp add: print_char_def string_loop.simps [of e False out n] string_loop.simps [of e True]
          stream_peek_def stream_get_def unescape_def)
  qed
qed

lemma string_loop_text:
  assumes "no_nul str" and "\<And>n. alloc e n"
  shows "string_loop e False out n (concat (map print_char str) @ 34 # s) = Some (out @ str, 34 # s, n + length str)"
  using assms(1)
proof (induction str arbitrary: out n)
  case Nil
  then show ?case by (simp add: string_loop.simps stream_peek_def)
next
  case (Cons c str)
  then show ?case
    using string_loop_char [of c e n out "concat (map print_char str) @ 34 # s"] assms(2) by simp
qed

lemma parse_printed_string:
  assumes "no_nul str" and "json_ok e"
  shows "stream_parse_string e n (stream_print_string_ptr str @ s) = Some (str, s, Suc n + length str)"
proof -
  have "takeWhile (\<lambda>c. c \<noteq> 0) str = str"
    using assms(1) by (simp add: takeWhile_eq_all_conv) blast
  then show ?thesis
    using string_loop_text [OF assms(1) json_okD(1) [OF assms(2)]] json_okD(1) [OF assms(2)]
    by (simp add: stream_parse_string_def stream_print_string_ptr_def stream_peek_def stream_get_def)
qed

end
