(* ===== verification/Json_Roundtrip.thy ===== *)
theory Json_Roundtrip
  imports Json_Laws
begin

text \<open>
  The parser reads back what the printer writes, formatted or not. The trees are those whose numbers are integers
  of 32 bits, in the format in which the library stores them, and whose strings are C strings of the lengths that
  fit their fields.
\<close>

section \<open>Printable trees\<close>

fun printable :: "cJSON \<Rightarrow> bool" where
  "printable (cJSON name data) \<longleftrightarrow>
     (case data of
        JSON_DATA_NULL \<Rightarrow> True
      | JSON_DATA_FALSE \<Rightarrow> True
      | JSON_DATA_TRUE \<Rightarrow> True
      | JSON_DATA_STR s \<Rightarrow> no_nul s \<and> length s < 65535
      | JSON_DATA_ARRAY items \<Rightarrow> (\<forall>i \<in> set items. item_name i = [] \<and> printable i)
      | JSON_DATA_OBJECT items \<Rightarrow> (\<forall>i \<in> set items. no_nul (item_name i) \<and> short_name (item_name i) \<and> printable i)
      | JSON_DATA_NUM_INT8 w \<Rightarrow> data = int_data (sint w)
      | JSON_DATA_NUM_INT16 w \<Rightarrow> data = int_data (sint w)
      | JSON_DATA_NUM_INT32 w \<Rightarrow> data = int_data (sint w)
      | _ \<Rightarrow> False)"

fun value_of :: "cJSON \<Rightarrow> stream_parse_value" where
  "value_of (cJSON name data) =
     (case data of
        JSON_DATA_NULL \<Rightarrow> PNull
      | JSON_DATA_FALSE \<Rightarrow> PFalse
      | JSON_DATA_TRUE \<Rightarrow> PTrue
      | JSON_DATA_STR s \<Rightarrow> PString s
      | JSON_DATA_ARRAY items \<Rightarrow> PObject (cJSON [] data)
      | JSON_DATA_OBJECT items \<Rightarrow> PObject (cJSON [] data)
      | _ \<Rightarrow> PNumber (cJSON_GetValueDouble data))"

lemma int32_sint: "int32 (sint (w :: u8))" "int32 (sint (v :: u16))" "int32 (sint (x :: u32))"
  using sint_greater_eq [of w] sint_less [of w] sint_greater_eq [of v] sint_less [of v]
    sint_greater_eq [of x] sint_less [of x] by (simp_all add: int32_def)

lemma printable_number:
  assumes "printable (cJSON name data)" and "cJSON_InfoToType data = cJSON_Number"
  obtains i where "int32 i" and "data = int_data i" and "value_of (cJSON name data) = PNumber (i < 0, Fin (of_int i))"
proof -
  have "\<exists>i. int32 i \<and> data = int_data i"
    using assms int32_sint by (cases data) auto
  then obtain i where i: "int32 i" "data = int_data i" by blast
  moreover from i have "value_of (cJSON name data) = PNumber (cJSON_GetValueDouble data)"
    by (simp add: int_data_def)
  ultimately show ?thesis
    using that int_data_read(2) by metis
qed

lemma value_of_printable:
  assumes "printable t"
  shows "value_ok (value_of t)" and "data_of e (value_of t) = item_data t"
proof -
  obtain name data where t: "t = cJSON name data" by (cases t)
  have "value_ok (value_of t) \<and> data_of e (value_of t) = item_data t"
  proof (cases "cJSON_InfoToType data = cJSON_Number")
    case True
    obtain i where "int32 i" "data = int_data i" "value_of t = PNumber (i < 0, Fin (of_int i))"
      using printable_number [OF assms [unfolded t] True] t by blast
    then show ?thesis
      using t store_number_int [of i e] by simp
  next
    case False
    then show ?thesis using assms t by (cases data) auto
  qed
  then show "value_ok (value_of t)" and "data_of e (value_of t) = item_data t" by auto
qed

section \<open>White space\<close>

definition blank :: "bytes \<Rightarrow> bool" where
  "blank ws \<longleftrightarrow> (\<forall>c \<in> set ws. c \<noteq> 0 \<and> c \<le> 32)"

definition starts_token :: "bytes \<Rightarrow> bool" where
  "starts_token s \<longleftrightarrow> 32 < stream_peek s"

lemma skip_token [simp]: "starts_token s \<Longrightarrow> skip s = s"
  by (cases s) (auto simp: skip_def starts_token_def stream_peek_def)

lemma skip_blank [simp]: "blank ws \<Longrightarrow> skip (ws @ s) = skip s"
  by (simp add: skip_def blank_def dropWhile_append2)

lemma blank_simps [simp]: "blank []" "blank (c # ws) \<longleftrightarrow> c \<noteq> 0 \<and> c \<le> 32 \<and> blank ws" "blank (replicate k 9)"
  by (auto simp: blank_def)

lemma skip_skip [simp]: "skip (skip s) = skip s"
  by (simp add: skip_def)

lemma starts_token_Cons [simp]: "starts_token (c # s) \<longleftrightarrow> 32 < c"
  by (simp add: starts_token_def stream_peek_def)

lemma peek_Cons [simp]: "stream_peek (c # s) = c"
  by (simp add: stream_peek_def)

lemma get_Cons [simp]: "stream_get (c # s) = s"
  by (simp add: stream_get_def)

lemma items_skip:
  "array_items fuel e array n (skip s) = array_items fuel e array n s"
  "object_items fuel e object n (skip s) = object_items fuel e object n s"
  by (cases fuel, simp_all)+

lemma starts_string [simp]: "starts_token (stream_print_string_ptr str @ s)"
  by (simp add: stream_print_string_ptr_def)

lemma starts_decimal: "starts_token (decimal_int i @ s) \<and> stream_peek (decimal_int i @ s) \<noteq> 93"
proof (cases "i = 0")
  case False
  then obtain c cs where "decimal (nat \<bar>i\<bar>) = c # cs" "49 \<le> c" "c \<le> 57"
    using decimal_first [of "nat \<bar>i\<bar>"] by auto
  then show ?thesis
    by (auto simp: decimal_int_def word_le_def word_less_def)
qed (simp add: decimal_int_def decimal.simps)

lemma starts_value:
  assumes "printable t"
  shows "starts_token (stream_print_value e depth fmt t @ s)" and "stream_peek (stream_print_value e depth fmt t @ s) \<noteq> 93"
proof -
  obtain name data where t: "t = cJSON name data" by (cases t)
  have "starts_token (stream_print_value e depth fmt t @ s) \<and> stream_peek (stream_print_value e depth fmt t @ s) \<noteq> 93"
  proof (cases "cJSON_InfoToType data = cJSON_Number")
    case True
    obtain i where "int32 i" "data = int_data i"
      using printable_number [OF assms [unfolded t] True] by blast
    then show ?thesis
      using print_int [of i e name] starts_decimal [of i s] by (auto simp: t int_data_def)
  next
    case False
    then show ?thesis using assms t by (cases data) (auto simp: of_string_def stream_print_string_ptr_def)
  qed
  then show "starts_token (stream_print_value e depth fmt t @ s)" and "stream_peek (stream_print_value e depth fmt t @ s) \<noteq> 93"
    by auto
qed

section \<open>One child\<close>

lemma array_step:
  assumes "parse_value fuel e n (skip s) = return_run (Some (value_of t, rest, n1))"
    and "printable t" and "item_name t = []" and "json_ok e"
  shows "\<exists>n2. array_items (Suc fuel) e (cJSON [] (JSON_DATA_ARRAY pre)) n s =
    (let array = cJSON [] (JSON_DATA_ARRAY (pre @ [t])); s = skip rest
     in if stream_peek s = COMMA then array_items fuel e array n2 (stream_get s) else close_array RBRACK array n2 s)"
proof -
  have t: "cJSON [] (item_data t) = t"
    using assms(3) by (cases t) simp
  obtain n2 where "create_item e (value_of t) [] (skip rest) n1 = return_run (Some (t, skip rest, n2))"
    using create_item_short [of "[]" "value_of t" e "skip rest" n1] value_of_printable [OF assms(2)] json_okD(1) [OF assms(4)] t
    by (auto simp: short_name_def)
  then show ?thesis
    using assms(1) by (intro exI [of _ n2]) (simp add: cJSON_AddItemToArray_def Let_def)
qed

lemma object_step:
  assumes "skip s = stream_print_string_ptr (item_name t) @ 58 # s1"
    and "\<And>n. \<exists>n1. parse_value fuel e n (skip s1) = return_run (Some (value_of t, rest, n1))"
    and "printable t" and "no_nul (item_name t)" and "short_name (item_name t)" and "json_ok e"
  shows "\<exists>n2. object_items (Suc fuel) e (cJSON [] (JSON_DATA_OBJECT pre)) n s =
    (let object = cJSON [] (JSON_DATA_OBJECT (pre @ [t])); s = skip rest
     in if stream_peek s = COMMA then object_items fuel e object n2 (stream_get s) else close_array RBRACE object n2 s)"
proof -
  have t: "cJSON (item_name t) (item_data t) = t"
    by simp
  obtain n0 where name: "stream_parse_string e n (skip s) = Some (item_name t, 58 # s1, n0)"
    using parse_printed_string [OF assms(4,6)] assms(1) by simp
  obtain n1 where val: "parse_value fuel e n0 (skip s1) = return_run (Some (value_of t, rest, n1))"
    using assms(2) by blast
  obtain n2 where "create_item e (value_of t) (item_name t) (skip rest) n1 = return_run (Some (t, skip rest, n2))"
    using create_item_short [of "item_name t" "value_of t" e "skip rest" n1] value_of_printable [OF assms(3)] json_okD(1) [OF assms(6)] t
      assms(5) by auto
  then show ?thesis
    using name val by (intro exI [of _ n2]) (simp add: cJSON_AddItemToArray_def Let_def)
qed

section \<open>Trees\<close>

definition reads_value :: "json_env \<Rightarrow> nat \<Rightarrow> bool \<Rightarrow> cJSON \<Rightarrow> bool" where
  "reads_value e depth fmt t \<longleftrightarrow> (printable t \<longrightarrow> json_ok e \<longrightarrow>
     (\<forall>fuel n rest. ends_number rest \<longrightarrow> 2 * length (stream_print_value e depth fmt t) < fuel \<longrightarrow>
       (\<exists>n'. parse_value fuel e n (stream_print_value e depth fmt t @ rest) = return_run (Some (value_of t, rest, n')))))"

definition reads_items :: "json_env \<Rightarrow> nat \<Rightarrow> bool \<Rightarrow> cJSON list \<Rightarrow> bool" where
  "reads_items e depth fmt items \<longleftrightarrow> ((\<forall>i \<in> set items. item_name i = [] \<and> printable i) \<longrightarrow> json_ok e \<longrightarrow> items \<noteq> [] \<longrightarrow>
     (\<forall>fuel n rest pre. 2 * length (print_items e depth fmt items) + 2 \<le> fuel \<longrightarrow>
       (\<exists>n'. array_items fuel e (cJSON [] (JSON_DATA_ARRAY pre)) n (print_items e depth fmt items @ 93 # rest)
          = return_run (Some (PObject (cJSON [] (JSON_DATA_ARRAY (pre @ items))), rest, n')))))"

definition reads_members :: "json_env \<Rightarrow> nat \<Rightarrow> bool \<Rightarrow> cJSON list \<Rightarrow> bool" where
  "reads_members e depth fmt items \<longleftrightarrow>
     ((\<forall>i \<in> set items. no_nul (item_name i) \<and> short_name (item_name i) \<and> printable i) \<longrightarrow> json_ok e \<longrightarrow> items \<noteq> [] \<longrightarrow>
     (\<forall>fuel n rest pre ws. blank ws \<longrightarrow> 2 * length (print_members e depth fmt items) + 2 \<le> fuel \<longrightarrow>
       (\<exists>n'. object_items fuel e (cJSON [] (JSON_DATA_OBJECT pre)) n (print_members e depth fmt items @ ws @ 125 # rest)
          = return_run (Some (PObject (cJSON [] (JSON_DATA_OBJECT (pre @ items))), rest, n')))))"

lemma reads_valueD:
  assumes "reads_value e depth fmt t" and "printable t" and "json_ok e" and "ends_number rest"
    and "2 * length (stream_print_value e depth fmt t) < fuel"
  shows "\<exists>n'. parse_value fuel e n (stream_print_value e depth fmt t @ rest) = return_run (Some (value_of t, rest, n'))"
  using assms by (simp add: reads_value_def)

lemma reads_itemsD:
  assumes "reads_items e depth fmt items" and "\<forall>i \<in> set items. item_name i = [] \<and> printable i" and "json_ok e"
    and "items \<noteq> []" and "2 * length (print_items e depth fmt items) + 2 \<le> fuel"
  shows "\<exists>n'. array_items fuel e (cJSON [] (JSON_DATA_ARRAY pre)) n (print_items e depth fmt items @ 93 # rest)
    = return_run (Some (PObject (cJSON [] (JSON_DATA_ARRAY (pre @ items))), rest, n'))"
  using assms by (simp add: reads_items_def)

lemma reads_membersD:
  assumes "reads_members e depth fmt items"
    and "\<forall>i \<in> set items. no_nul (item_name i) \<and> short_name (item_name i) \<and> printable i" and "json_ok e"
    and "items \<noteq> []" and "blank ws" and "2 * length (print_members e depth fmt items) + 2 \<le> fuel"
  shows "\<exists>n'. object_items fuel e (cJSON [] (JSON_DATA_OBJECT pre)) n (print_members e depth fmt items @ ws @ 125 # rest)
    = return_run (Some (PObject (cJSON [] (JSON_DATA_OBJECT (pre @ items))), rest, n'))"
  using assms by (simp add: reads_members_def)

lemma ends_number_simps [simp]:
  "ends_number (44 # s)" "ends_number (93 # s)" "ends_number (125 # s)" "ends_number (10 # s)" "ends_number []"
  by (simp_all add: ends_number_def stream_peek_def is_digit_def)

lemma reads_items_Cons:
  assumes "reads_value e (depth + 1) fmt child" and "reads_items e depth fmt items"
  shows "reads_items e depth fmt (child # items)"
  unfolding reads_items_def
proof (intro impI allI)
  fix fuel n rest pre
  assume all: "\<forall>i \<in> set (child # items). item_name i = [] \<and> printable i" and e: "json_ok e"
    and fuel: "2 * length (print_items e depth fmt (child # items)) + 2 \<le> fuel"
  let ?text = "stream_print_value e (depth + 1) fmt child"
  let ?rest = "(if items \<noteq> [] then [44] @ (if fmt then [32] else []) else []) @ print_items e depth fmt items @ 93 # rest"
  obtain f where f: "fuel = Suc f" using fuel by (cases fuel) auto
  have child: "printable child" "item_name child = []" using all by auto
  have "ends_number ?rest" by auto
  moreover have "2 * length ?text < f" using fuel f by simp
  ultimately obtain n1 where "parse_value f e n (?text @ ?rest) = return_run (Some (value_of child, ?rest, n1))"
    using reads_valueD [OF assms(1) child(1) e] by blast
  then have "parse_value f e n (skip (?text @ ?rest)) = return_run (Some (value_of child, ?rest, n1))"
    using skip_token [OF starts_value(1) [OF child(1)]] by simp
  from array_step [OF this child e, of pre] obtain n2 where
    step: "array_items fuel e (cJSON [] (JSON_DATA_ARRAY pre)) n (?text @ ?rest) =
      (let array = cJSON [] (JSON_DATA_ARRAY (pre @ [child])); s = skip ?rest
       in if stream_peek s = COMMA then array_items f e array n2 (stream_get s) else close_array RBRACK array n2 s)"
    using f by auto
  show "\<exists>n'. array_items fuel e (cJSON [] (JSON_DATA_ARRAY pre)) n (print_items e depth fmt (child # items) @ 93 # rest)
      = return_run (Some (PObject (cJSON [] (JSON_DATA_ARRAY (pre @ child # items))), rest, n'))"
  proof (cases "items = []")
    case True
    then show ?thesis using step by (simp add: close_array_def Let_def)
  next
    case False
    have "2 * length (print_items e depth fmt items) + 2 \<le> f" using fuel f False by simp
    then obtain n3 where "array_items f e (cJSON [] (JSON_DATA_ARRAY (pre @ [child]))) n2 (print_items e depth fmt items @ 93 # rest)
        = return_run (Some (PObject (cJSON [] (JSON_DATA_ARRAY ((pre @ [child]) @ items))), rest, n3))"
      using reads_itemsD [OF assms(2) _ e False] all by (metis list.set_intros(2))
    moreover have "array_items f e array n2 ((if fmt then [32] else []) @ s) = array_items f e array n2 s" for array s
      using items_skip(1) [of f e array n2 "[32] @ s"] items_skip(1) [of f e array n2 s] by (simp del: append_Cons)
    ultimately show ?thesis using step False by (simp del: array_items.simps)
  qed
qed

lemma reads_members_Cons:
  assumes "reads_value e (depth + 1) fmt child" and "reads_members e depth fmt items"
  shows "reads_members e depth fmt (child # items)"
  unfolding reads_members_def
proof (intro impI allI)
  fix fuel n rest pre ws
  assume all: "\<forall>i \<in> set (child # items). no_nul (item_name i) \<and> short_name (item_name i) \<and> printable i" and e: "json_ok e"
    and fuel: "2 * length (print_members e depth fmt (child # items)) + 2 \<le> fuel" and ws: "blank ws"
  let ?text = "stream_print_value e (depth + 1) fmt child"
  let ?nl = "if fmt then [10] else []" and ?tabs = "if fmt then replicate depth 9 else []"
  let ?more = "print_members e depth fmt items @ ws @ 125 # rest"
  let ?rest = "(if items \<noteq> [] then [44] else []) @ ?nl @ ?more"
  let ?s1 = "(if fmt then [9] else []) @ ?text @ ?rest"
  let ?s = "?tabs @ stream_print_string_ptr (item_name child) @ 58 # ?s1"
  obtain f where f: "fuel = Suc f" using fuel by (cases fuel) auto
  have child: "printable child" "no_nul (item_name child)" "short_name (item_name child)" using all by auto
  have skip_s: "skip ?s = stream_print_string_ptr (item_name child) @ 58 # ?s1"
    using skip_blank [of ?tabs] skip_token [OF starts_string] by simp
  have s1: "skip ?s1 = ?text @ ?rest"
    using skip_blank [of "if fmt then [9] else []"] skip_token [OF starts_value(1) [OF child(1)]] by simp
  have ends: "ends_number ?rest"
    using ws by (cases ws) (auto simp: ends_number_def is_digit_def word_le_def)
  have "2 * length ?text < f" using fuel f by simp
  then have "\<exists>n1. parse_value f e n (skip ?s1) = return_run (Some (value_of child, ?rest, n1))" for n
    unfolding s1 by (rule reads_valueD [OF assms(1) child(1) e ends])
  from object_step [OF skip_s this child e, of pre n] obtain n2 where
    step: "object_items fuel e (cJSON [] (JSON_DATA_OBJECT pre)) n ?s =
      (let object = cJSON [] (JSON_DATA_OBJECT (pre @ [child])); s = skip ?rest
       in if stream_peek s = COMMA then object_items f e object n2 (stream_get s) else close_array RBRACE object n2 s)"
    using f by blast
  have "print_members e depth fmt (child # items) @ ws @ 125 # rest = ?s" by simp
  moreover have "\<exists>n'. object_items fuel e (cJSON [] (JSON_DATA_OBJECT pre)) n ?s
      = return_run (Some (PObject (cJSON [] (JSON_DATA_OBJECT (pre @ child # items))), rest, n'))"
  proof (cases "items = []")
    case True
    then have "skip ?rest = 125 # rest"
      using ws skip_blank [of "?nl @ ws" "125 # rest"] by (auto simp: blank_def)
    then show ?thesis using step True by (simp add: close_array_def Let_def)
  next
    case False
    have "2 * length (print_members e depth fmt items) + 2 \<le> f" using fuel f False by simp
    then obtain n3 where "object_items f e (cJSON [] (JSON_DATA_OBJECT (pre @ [child]))) n2 ?more
        = return_run (Some (PObject (cJSON [] (JSON_DATA_OBJECT ((pre @ [child]) @ items))), rest, n3))"
      using reads_membersD [OF assms(2) _ e False ws] all by (metis list.set_intros(2))
    moreover have "object_items f e object n2 (?nl @ s) = object_items f e object n2 s" for object s
      using items_skip(2) [of f e object n2 "[10] @ s"] items_skip(2) [of f e object n2 s] by (simp del: append_Cons)
    moreover have "skip ?rest = 44 # ?nl @ ?more" using False by simp
    ultimately show ?thesis using step False by (simp add: Let_def del: object_items.simps)
  qed
  ultimately show "\<exists>n'. object_items fuel e (cJSON [] (JSON_DATA_OBJECT pre)) n
      (print_members e depth fmt (child # items) @ ws @ 125 # rest)
      = return_run (Some (PObject (cJSON [] (JSON_DATA_OBJECT (pre @ child # items))), rest, n'))"
    by (simp only:)
qed

lemma reads_array:
  assumes "reads_items e depth fmt items" and "\<forall>i \<in> set items. item_name i = [] \<and> printable i" and "json_ok e"
    and "2 * length (print_items e depth fmt items) + 4 < fuel"
  shows "\<exists>n'. parse_value fuel e n (91 # print_items e depth fmt items @ 93 # rest)
    = return_run (Some (PObject (cJSON [] (JSON_DATA_ARRAY items)), rest, n'))"
proof -
  obtain f where f: "fuel = Suc f" using assms(4) by (cases fuel) auto
  note al = json_okD(1) [OF assms(3)]
  show ?thesis
  proof (cases items)
    case Nil
    then show ?thesis using f al by (simp add: create_container is_digit_def)
  next
    case (Cons child items')
    let ?text = "print_items e depth fmt items @ 93 # rest"
    have start: "stream_peek ?text \<noteq> 93" "skip ?text = ?text"
      using starts_value [of child] skip_token assms(2) Cons by auto
    have "items \<noteq> []" "2 * length (print_items e depth fmt items) + 2 \<le> f" using assms(4) f Cons by auto
    from reads_itemsD [OF assms(1-3) this, of "[]" "Suc n" rest] show ?thesis
      using f al start by (simp add: create_container is_digit_def)
  qed
qed

lemma reads_object:
  assumes "reads_members e depth fmt items"
    and "\<forall>i \<in> set items. no_nul (item_name i) \<and> short_name (item_name i) \<and> printable i" and "json_ok e"
    and "2 * length (print_members e depth fmt items) + 4 < fuel" and "blank ws" and "blank ws'"
  shows "\<exists>n'. parse_value fuel e n (123 # ws @ print_members e depth fmt items @ ws' @ 125 # rest)
    = return_run (Some (PObject (cJSON [] (JSON_DATA_OBJECT items)), rest, n'))"
proof -
  obtain f where f: "fuel = Suc f" using assms(4) by (cases fuel) auto
  note al = json_okD(1) [OF assms(3)]
  show ?thesis
  proof (cases items)
    case Nil
    then show ?thesis using f al assms(5,6) by (simp add: create_container is_digit_def)
  next
    case (Cons child items')
    let ?text = "print_members e depth fmt items @ ws' @ 125 # rest"
    have "skip ?text = drop (if fmt then depth else 0) ?text"
      using skip_blank [of "replicate depth 9"] skip_token [OF starts_string] Cons by simp
    then have start: "stream_peek (skip (ws @ ?text)) \<noteq> 125" "skip (ws @ ?text) = skip ?text"
      using assms(5) Cons by (auto simp: stream_print_string_ptr_def)
    have "items \<noteq> []" "2 * length (print_members e depth fmt items) + 2 \<le> f" using assms(4) f Cons by auto
    from reads_membersD [OF assms(1-3) this(1) assms(6) this(2), of "[]" "Suc n" rest] show ?thesis
      using f al start by (simp add: create_container is_digit_def items_skip)
  qed
qed

lemma parse_number_value:
  assumes "stream_peek s = 45 \<or> is_digit (stream_peek s)" and "stream_parse_number e s = (d, s')"
  shows "parse_value (Suc f) e n s = return_run (Some (PNumber d, s', n))"
  using assms by (auto simp: is_digit_def)

lemma peek_decimal: "stream_peek (decimal_int i @ s) = 45 \<or> is_digit (stream_peek (decimal_int i @ s))"
proof -
  have "decimal k \<noteq> []" "list_all is_digit (decimal k)" for k
    by (simp add: decimal.simps [of k]) (rule decimal_digits)
  from this [of "nat i"] show ?thesis
    by (cases "decimal (nat i)") (auto simp: decimal_int_def)
qed

lemma reads_leaf:
  assumes "printable (cJSON name data)" and "json_ok e" and "cJSON_InfoToType data \<notin> {cJSON_Array, cJSON_Object}"
    and "ends_number rest"
  shows "parse_value (Suc f) e n (stream_print_value e depth fmt (cJSON name data) @ rest)
    = return_run (Some (value_of (cJSON name data), rest, n + (case data of JSON_DATA_STR s \<Rightarrow> Suc (length s) | _ \<Rightarrow> 0)))"
proof (cases "cJSON_InfoToType data = cJSON_Number")
  case True
  from printable_number [OF assms(1) True] obtain i where i: "int32 i" "data = int_data i"
    "value_of (cJSON name data) = PNumber (i < 0, Fin (of_int i))" .
  have "stream_print_value e depth fmt (cJSON name data) = decimal_int i"
    using i print_int [of i e name] by (auto simp: int_data_def)
  moreover have "(case data of JSON_DATA_STR s \<Rightarrow> Suc (length s) | _ \<Rightarrow> 0) = 0"
    using True by (cases data) auto
  ultimately show ?thesis
    using parse_number_value [OF peek_decimal parse_int [OF i(1) assms(4,2)], of f n] i(3) by simp
next
  case False
  note string = parse_printed_string [OF _ assms(2)]
  show ?thesis
  proof (cases data)
    case (JSON_DATA_STR s)
    then show ?thesis using string [of s n rest] assms(1) by (simp add: stream_print_string_ptr_def)
  qed (use False assms in \<open>auto simp: of_string_def parse_name_def\<close>)
qed

text \<open>Every printable tree is read back.\<close>

lemma reads_printed:
  "reads_value e depth fmt t" "reads_items e depth fmt items" "reads_members e depth fmt items"
proof (induction e depth fmt t and e depth fmt items and e depth fmt items
    rule: stream_print_value_print_items_print_members.induct)
  case (1 e depth fmt name data)
  show ?case
    unfolding reads_value_def
  proof (intro impI allI)
    fix fuel n rest
    assume p: "printable (cJSON name data)" and e: "json_ok e" and r: "ends_number rest"
      and fuel: "2 * length (stream_print_value e depth fmt (cJSON name data)) < fuel"
    obtain f where f: "fuel = Suc f" using fuel by (cases fuel) auto
    show "\<exists>n'. parse_value fuel e n (stream_print_value e depth fmt (cJSON name data) @ rest)
        = return_run (Some (value_of (cJSON name data), rest, n'))"
    proof (cases data)
      case (JSON_DATA_ARRAY items)
      then show ?thesis
        using reads_array [OF 1(1) _ e, of items fuel n rest] p fuel by simp
    next
      case (JSON_DATA_OBJECT items)
      then show ?thesis
        using reads_object [OF 1(2) _ e, of items fuel "if fmt then [10] else []" "if fmt then replicate (depth - 1) 9 else []" n rest]
          p fuel by (simp split: if_splits)
    qed (use reads_leaf [OF p e _ r] f in auto)
  qed
qed (fact reads_items_Cons reads_members_Cons | simp add: reads_items_def reads_members_def)+

lemma parse_printed:
  assumes "printable t" and "json_ok e"
  shows "\<exists>n'. cJSON_Parse e n (stream_print_value e 0 fmt t) = return_run (Some (cJSON [] (item_data t), n'))"
proof -
  let ?text = "stream_print_value e 0 fmt t"
  have "skip ?text = ?text"
    using skip_token [OF starts_value(1) [OF assms(1), of e 0 fmt "[]"]] by simp
  moreover obtain n1 where "parse_value (2 * length ?text + 1) e n ?text = return_run (Some (value_of t, [], n1))"
    using reads_valueD [OF reads_printed(1) assms, of "[]" 0 fmt "2 * length ?text + 1" n] by auto
  moreover obtain n2 where "create_item e (value_of t) [] [] n1 = return_run (Some (cJSON [] (item_data t), [], n2))"
    using create_item_short [of "[]" "value_of t" e "[]" n1] value_of_printable [OF assms(1)] json_okD(1) [OF assms(2)]
    by (auto simp: short_name_def)
  ultimately show ?thesis
    by (simp add: cJSON_Parse_def cJSON_Parse_Stream_def skip_def stream_peek_def)
qed

end
