(* ===== verification/Json_Safety.thy ===== *)
theory Json_Safety
  imports Json_Laws "HOL-Library.Sublist"
begin

text \<open>
  The parser returns for every text, and it makes no error in its use of memory as long as memory is available and
  no string of the text is longer than a name may be.
\<close>

section \<open>The rest of the stream\<close>

lemma suffix_get [simp]: "suffix (stream_get s) s"
  by (simp add: stream_get_def suffix_tl)

lemma suffix_skip [simp]: "suffix (skip s) s"
  by (simp add: skip_def suffix_dropWhile)

lemma suffix_trans [trans]: "suffix a b \<Longrightarrow> suffix b c \<Longrightarrow> suffix a c"
  by (rule suffix_order.trans)

lemma suffix_parse_digits: "parse_digits n k s = (n', k', s') \<Longrightarrow> suffix s' s"
  by (induction s arbitrary: n k) (auto split: if_splits intro: suffix_ConsI)

lemma suffix_parse_exponent: "parse_exponent k s = (k', s') \<Longrightarrow> suffix s' s"
  by (induction s arbitrary: k) (auto split: if_splits intro: suffix_ConsI)

lemma suffix_number_parts:
  "number_digits s = (n, k, s') \<Longrightarrow> suffix s' s"
  "number_fraction n0 s = (n, k, s') \<Longrightarrow> suffix s' s"
  "number_exponent s = (k, s') \<Longrightarrow> suffix s' s"
proof -
  show "number_digits s = (n, k, s') \<Longrightarrow> suffix s' s"
    using suffix_parse_digits by (auto simp: number_digits_def split: if_splits)
  show "number_fraction n0 s = (n, k, s') \<Longrightarrow> suffix s' s"
    using suffix_parse_digits suffix_trans [OF _ suffix_get] by (auto simp: number_fraction_def split: if_splits)
  have "suffix t s" if "parse_exponent 0 (stream_get (stream_get s)) = (j, t)" for j t
    using suffix_parse_exponent [OF that] suffix_trans suffix_get by blast
  moreover have "suffix t s" if "parse_exponent 0 (stream_get s) = (j, t)" for j t
    using suffix_parse_exponent [OF that] suffix_trans suffix_get by blast
  ultimately show "number_exponent s = (k, s') \<Longrightarrow> suffix s' s"
    by (auto simp: number_exponent_def Let_def split: if_splits prod.splits)
qed

lemma suffix_number:
  assumes "stream_parse_number e s = (d, s')"
  shows "suffix s' s"
proof -
  define s1 where "s1 = (if stream_peek s = MINUS then stream_get s else s)"
  define s2 where "s2 = (if stream_peek s1 = 48 then stream_get s1 else s1)"
  have "suffix s1 s" and "suffix s2 s1"
    by (auto simp: s1_def s2_def)
  then have s2: "suffix s2 s"
    using suffix_trans by blast
  obtain n1 k1 s3 where d1: "number_digits s2 = (n1, k1, s3)" by (rule prod_cases3)
  obtain n2 k2 s4 where d2: "number_fraction n1 s3 = (n2, k2, s4)" by (rule prod_cases3)
  obtain k3 s5 where d3: "number_exponent s4 = (k3, s5)" by (cases "number_exponent s4")
  have "s' = s2 \<or> s' = s5"
    using assms d1 d2 d3 unfolding stream_parse_number_def Let_def s1_def [symmetric] s2_def [symmetric]
    by (auto split: if_splits)
  moreover have "suffix s5 s"
    using suffix_trans [OF suffix_number_parts(3) [OF d3] suffix_trans [OF suffix_number_parts(2) [OF d2]
          suffix_trans [OF suffix_number_parts(1) [OF d1] s2]]] .
  ultimately show ?thesis
    using s2 by auto
qed

lemma suffix_parse_hex: "parse_hex k h s = (h', s') \<Longrightarrow> suffix s' s"
proof (induction k arbitrary: h s)
  case (Suc k)
  then show ?case
    using suffix_trans [OF Suc.IH suffix_get] by (fastforce split: option.splits)
qed auto

lemma suffix_hex4: "stream_parse_hex4 s = (h, s') \<Longrightarrow> suffix s' s"
  by (auto simp: stream_parse_hex4_def dest: suffix_parse_hex)

lemma suffix_unicode_escape:
  assumes "unicode_escape s = (uc, esc, s')"
  shows "suffix s' s"
proof -
  obtain h t where h: "stream_parse_hex4 s = (h, t)"
    by (cases "stream_parse_hex4 s")
  obtain h2 t2 where h2: "stream_parse_hex4 (stream_get (stream_get t)) = (h2, t2)"
    by (cases "stream_parse_hex4 (stream_get (stream_get t))")
  have t: "suffix t s" and "suffix t2 (stream_get (stream_get t))"
    using suffix_hex4 h h2 by auto
  then have "suffix t2 s" and "suffix (stream_get t) s"
    using suffix_trans suffix_get by metis+
  then show ?thesis
    using assms h h2 t by (auto simp: unicode_escape_def Let_def split: if_splits)
qed

lemma suffix_string_loop: "string_loop e esc out n s = Some (out', s', n') \<Longrightarrow> suffix s' s"
proof (induction e esc out n s rule: string_loop.induct)
  case (1 e esc out n s)
  have get: "suffix t s" if "suffix t (stream_get s)" for t
    using that suffix_trans suffix_get by blast
  have esc: "suffix u s" if "unicode_escape (stream_get s) = (uc, es, t)" and "suffix u t" for uc es t u
    using that get suffix_trans suffix_unicode_escape by blast
  note step = 1(6) [unfolded string_loop.simps [of e esc out n s]]
  show ?case
  proof (cases esc)
    case False
    then show ?thesis
      using step 1(1,2) by (auto split: if_splits intro: get)
  next
    case True
    obtain uc es t where u: "unicode_escape (stream_get s) = (uc, es, t)" by (rule prod_cases3)
    show ?thesis
    proof (cases "unescape (stream_peek s) = 117")
      case False
      then show ?thesis
        using step True 1(3) by (auto simp: Let_def split: if_splits intro: get)
    next
      case v: True
      show ?thesis
      proof (cases uc)
        case None
        then have "string_loop e es out n t = Some (out', s', n')" using step True v u by simp
        from 1(4) [OF _ refl _ u [symmetric] None refl this] show ?thesis
          using True v esc [OF u] by simp
      next
        case (Some c)
        then have "alloc e n" "string_loop e False (out @ utf8_char c) (Suc n) t = Some (out', s', n')"
          using step True v u by (auto split: if_splits)
        from 1(5) [OF _ refl _ u [symmetric] Some refl this] show ?thesis
          using True v esc [OF u] by simp
      qed
    qed
  qed
qed

lemma suffix_parse_string:
  assumes "stream_parse_string e n s = Some (str, s', n')"
  shows "suffix s' s"
proof -
  obtain out t m where loop: "string_loop e False [] (Suc n) (stream_get s) = Some (out, t, m)"
    and s': "s' = (if stream_peek t = QUOTE then stream_get t else t)"
    using assms by (auto simp: stream_parse_string_def split: if_splits option.splits)
  have "suffix s' t" using s' by simp
  with suffix_string_loop [OF loop] show ?thesis
    using suffix_trans suffix_get by blast
qed

text \<open>With an allocator that does not fail, the string that is read does not depend on the number of allocations.\<close>

lemma string_loop_count:
  assumes "\<And>n. alloc e n"
  shows "\<exists>out' s'. \<forall>m. \<exists>n'. string_loop e esc out m s = Some (out', s', n')"
proof (induction "string_measure esc s" arbitrary: esc out s rule: less_induct)
  case less
  have get: "string_measure False (stream_get s) < string_measure esc s" if "esc \<or> stream_peek s \<noteq> 0"
    using that peek_nonempty [of s] get_length [of s] by (auto simp: string_measure_def)
  show ?case
  proof (cases esc)
    case False
    have True: "string_measure True (stream_get s) < string_measure esc s" if "stream_peek s = BACKSLASH"
      using that False peek_nonempty [of s] by (simp add: string_measure_def)
    consider "stream_peek s = QUOTE \<or> stream_peek s = 0" | "stream_peek s = BACKSLASH"
      | "stream_peek s \<noteq> QUOTE" "stream_peek s \<noteq> 0" "stream_peek s \<noteq> BACKSLASH" by blast
    then show ?thesis
    proof cases
      case 1
      then show ?thesis using False by (auto simp: string_loop.simps [of e False out _ s])
    next
      case 2
      then show ?thesis using False less [OF True, of out] by (simp add: string_loop.simps [of e False out _ s])
    next
      case 3
      then show ?thesis
        using False assms less [OF get, of "out @ [stream_peek s]"] by (simp add: string_loop.simps [of e False out _ s]) blast
    qed
  next
    case True
    obtain uc es t where u: "unicode_escape (stream_get s) = (uc, es, t)" by (rule prod_cases3)
    have "string_measure es t < string_measure esc s"
      using escape_measure(1) [OF u [symmetric]] True by (simp add: string_measure_def)
    note ih = less [OF this, of out]
    have "string_measure False t < string_measure esc s"
      using escape_measure(2) [OF u [symmetric]] True by (simp add: string_measure_def)
    note ih' = less [OF this]
    have ih2: "\<exists>out' s'. \<forall>m. \<exists>n'. string_loop e False (out @ [unescape (stream_peek s)]) m (stream_get s) = Some (out', s', n')"
      using less [OF get] True by simp
    show ?thesis
    proof (cases "unescape (stream_peek s) = 117")
      case v: True
      show ?thesis
      proof (cases uc)
        case None
        then show ?thesis using ih True v u by (simp add: string_loop.simps [of e True])
      next
        case (Some c)
        then show ?thesis
          using ih' [of "out @ utf8_char c"] True v u assms by (simp add: string_loop.simps [of e True]) blast
      qed
    next
      case False
      then show ?thesis
        using ih2 True assms by (simp add: string_loop.simps [of e True] Let_def) blast
    qed
  qed
qed

section \<open>Short strings\<close>

definition short_strings :: "json_env \<Rightarrow> bytes \<Rightarrow> bool" where
  "short_strings e s \<longleftrightarrow>
     list_all (\<lambda>t. case stream_parse_string e 0 t of None \<Rightarrow> True | Some (str, _, _) \<Rightarrow> short_name str) (suffixes s)"

lemma short_strings_suffix: "short_strings e s \<Longrightarrow> suffix t s \<Longrightarrow> short_strings e t"
  by (auto simp: short_strings_def list_all_iff in_set_suffixes intro: suffix_trans)

lemma short_strings_parse:
  assumes "short_strings e s" and "\<And>n. alloc e n" and "stream_parse_string e n s = Some (str, s', n')"
  shows "short_name str"
proof -
  obtain out t where loop: "\<And>m. \<exists>n'. string_loop e False [] m (stream_get s) = Some (out, t, n')"
    using string_loop_count [OF assms(2)] by meson
  have q: "stream_peek s = QUOTE"
    using assms(3) by (simp add: stream_parse_string_def split: if_splits)
  obtain k where "string_loop e False [] (Suc n) (stream_get s) = Some (out, t, k)" using loop by blast
  then have str: "str = takeWhile (\<lambda>c. c \<noteq> 0) out"
    using assms(2,3) q by (simp add: stream_parse_string_def)
  obtain k where "string_loop e False [] (Suc 0) (stream_get s) = Some (out, t, k)" using loop by blast
  then obtain r j where "stream_parse_string e 0 s = Some (str, r, j)"
    using assms(2) q str by (simp add: stream_parse_string_def)
  moreover have "s \<in> set (suffixes s)"
    by (simp add: in_set_suffixes)
  ultimately show ?thesis
    using assms(1) by (auto simp: short_strings_def list_all_iff dest!: bspec [of _ _ s])
qed

section \<open>Totality\<close>

definition good_result :: "bytes \<Rightarrow> (stream_parse_value \<times> bytes \<times> nat) option \<Rightarrow> bool" where
  "good_result s x \<longleftrightarrow> (case x of None \<Rightarrow> True | Some (v, s', n') \<Rightarrow> value_ok v \<and> suffix s' s)"

lemma good_result_suffix: "good_result t x \<Longrightarrow> suffix t s \<Longrightarrow> good_result s x"
  by (auto simp: good_result_def split: option.splits intro: suffix_trans)

lemma item_name_AddItem [simp]: "item_name (cJSON_AddItemToArray array item) = item_name array"
  unfolding cJSON_AddItemToArray_def by (induction "cJSON_child array @ [item]" array rule: set_child.induct) auto

lemma runs_return_bind:
  "runs Q (then_parse (return_run x) f) \<longleftrightarrow> (case x of None \<Rightarrow> Q None | Some a \<Rightarrow> runs Q (f a))"
  by (simp split: option.split)

lemma runs_create_item:
  assumes "short_name name" and "value_ok v" and "\<And>n. alloc e n" and "\<And>item n'. item_name item = name \<Longrightarrow> runs Q (f (item, s, n'))"
  shows "runs Q (then_parse (create_item e v name s n) f)"
  using create_item_short [OF assms(1-3)] assms(4) by (metis cJSON.sel(1) then_parse_simps(4))

lemma suffix_match_name: "match_name m s = Some s' \<Longrightarrow> suffix s' s"
  by (induction m s rule: match_name.induct) (auto split: if_splits intro: suffix_trans [OF _ suffix_get])

lemma runs_parse_name: "value_ok v \<Longrightarrow> runs (good_result s) (parse_name v m n s)"
  using suffix_match_name by (auto simp: parse_name_def good_result_def split: option.splits)

lemma suffix_length: "suffix t s \<Longrightarrow> length t \<le> length s"
  by (rule suffix_length_le)

lemma runs_good_suffix: "runs (good_result t) r \<Longrightarrow> suffix t s \<Longrightarrow> runs (good_result s) r"
  by (erule runs_mono) (rule good_result_suffix)

lemma close_array_total: "item_name array = [] \<Longrightarrow> runs (good_result s) (close_array bracket array n s)"
  by (simp add: close_array_def good_result_def)

text \<open>The contract of the two loops at a given fuel.\<close>

definition loop_total :: "json_env \<Rightarrow> nat \<Rightarrow> (cJSON \<Rightarrow> nat \<Rightarrow> bytes \<Rightarrow> stream_parse_value parsed) \<Rightarrow> bool" where
  "loop_total e fuel loop \<longleftrightarrow>
     (\<forall>s n array. short_strings e s \<longrightarrow> 2 * length s + 2 \<le> fuel \<longrightarrow> item_name array = [] \<longrightarrow>
        runs (good_result s) (loop array n s))"

definition value_total :: "json_env \<Rightarrow> nat \<Rightarrow> bool" where
  "value_total e fuel \<longleftrightarrow>
     (\<forall>s n. short_strings e s \<longrightarrow> 2 * length s + 1 \<le> fuel \<longrightarrow> runs (good_result s) (parse_value fuel e n s))"

lemma container_total:
  assumes "loop_total e fuel loop" and "short_strings e s" and "2 * length s \<le> fuel" and "stream_peek s \<noteq> 0"
    and "item_name array = []" and "t = skip (stream_get s)"
  shows "runs (good_result s) (if stream_peek t = bracket then return_run (Some (PObject array, stream_get t, m)) else loop array n t)"
proof -
  have t: "suffix t s"
    using suffix_trans [OF suffix_skip suffix_get] assms(6) by simp
  have "length t < length s"
    using peek_nonempty [OF assms(4)] suffix_length [OF suffix_skip, of "stream_get s"] assms(6) by simp
  then have "2 * length t + 2 \<le> fuel" using assms(3) by simp
  then have "runs (good_result t) (loop array n t)"
    using assms(1,5) short_strings_suffix [OF assms(2) t] by (simp add: loop_total_def)
  moreover have "good_result s (Some (PObject array, stream_get t, m))"
    using assms(5) suffix_trans [OF suffix_get t] by (simp add: good_result_def)
  ultimately show ?thesis
    using runs_good_suffix t by auto
qed

lemma value_total_Suc:
  assumes "\<And>n. alloc e n" and "loop_total e fuel (array_items fuel e)" and "loop_total e fuel (object_items fuel e)"
  shows "value_total e (Suc fuel)"
  unfolding value_total_def
proof (intro allI impI)
  fix s n
  assume short: "short_strings e s" and fuel: "2 * length s + 1 \<le> Suc fuel"
  have string: "runs (good_result s) (return_run (map_option (\<lambda>(str, s, n). (PString str, s, n)) (stream_parse_string e n s)))"
    using short_strings_parse [OF short assms(1)] suffix_parse_string
    by (cases "stream_parse_string e n s") (fastforce simp: good_result_def short_name_def)+
  have number: "runs (good_result s) (case stream_parse_number e s of (d, s) \<Rightarrow> return_run (Some (PNumber d, s, n)))"
    using suffix_number [of e s] by (auto simp: good_result_def split: prod.splits)
  have array: "runs (good_result s) (then_parse (create (cJSON_CreateNamedArray e [] n) (skip (stream_get s))) (\<lambda>(array, s, n).
      if stream_peek s = RBRACK then return_run (Some (PObject array, stream_get s, n)) else array_items fuel e array n s))"
    if "stream_peek s \<noteq> 0"
    using container_total [OF assms(2) short _ that, of "cJSON [] (JSON_DATA_ARRAY [])" _ RBRACK "Suc n" "Suc n"] fuel assms(1)
    by (simp add: create_container)
  have object: "runs (good_result s) (then_parse (create (cJSON_CreateNamedObject e [] n) (skip (stream_get s))) (\<lambda>(object, s, n).
      if stream_peek s = RBRACE then return_run (Some (PObject object, stream_get s, n)) else object_items fuel e object n s))"
    if "stream_peek s \<noteq> 0"
    using container_total [OF assms(3) short _ that, of "cJSON [] (JSON_DATA_OBJECT [])" _ RBRACE "Suc n" "Suc n"] fuel assms(1)
    by (simp add: create_container)
  show "runs (good_result s) (parse_value (Suc fuel) e n s)"
    using string number array object runs_parse_name [of _ s]
    by (simp add: good_result_def [of s None] Let_def del: runs_then_parse)
qed

text \<open>One child: its value, its item, and then the end or the rest.\<close>

lemma child_total:
  assumes "\<And>n. alloc e n" and "value_total e fuel" and "loop_total e fuel loop"
    and "short_strings e s" and "2 * length s + 1 \<le> fuel" and "item_name array = []" and "short_name name"
  shows "runs (good_result s)
    (then_parse (parse_value fuel e n (skip s)) (\<lambda>(value, s, n).
     then_parse (create_item e value name (skip s) n) (\<lambda>(new_item, s, n).
       let array = cJSON_AddItemToArray array new_item
       in if stream_peek s = COMMA then loop array n (stream_get s) else close_array bracket array n s)))"
proof -
  have rest: "runs (good_result s) (if stream_peek t = COMMA then loop a m (stream_get t) else close_array bracket a m t)"
    if t: "suffix t s" and a: "item_name a = []" for t a m
  proof (cases "stream_peek t = COMMA")
    case True
    have "length t = Suc (length (stream_get t))"
      using True by (intro peek_nonempty) simp
    then have "2 * length (stream_get t) + 2 \<le> fuel"
      using suffix_length [OF t] assms(5) by simp
    moreover have st: "suffix (stream_get t) s"
      using suffix_trans [OF suffix_get t] .
    ultimately show ?thesis
      using assms(3) a True short_strings_suffix [OF assms(4) st] runs_good_suffix [OF _ st] by (simp add: loop_total_def)
  next
    case False
    then show ?thesis
      using runs_good_suffix [OF close_array_total [OF a] t] by simp
  qed
  have "short_strings e (skip s)" and "2 * length (skip s) + 1 \<le> fuel"
    using short_strings_suffix [OF assms(4)] suffix_length [of "skip s" s] assms(5) by simp_all
  then have "runs (good_result (skip s)) (parse_value fuel e n (skip s))"
    using assms(2) by (simp add: value_total_def)
  then show ?thesis
    unfolding runs_then_parse [of "good_result s" "parse_value fuel e n (skip s)"]
  proof (rule runs_mono)
    fix x
    assume x: "good_result (skip s) x"
    show "case x of None \<Rightarrow> good_result s None | Some a \<Rightarrow>
        runs (good_result s) ((\<lambda>(value, s, n). then_parse (create_item e value name (skip s) n) (\<lambda>(new_item, s, n).
          let array = cJSON_AddItemToArray array new_item
          in if stream_peek s = COMMA then loop array n (stream_get s) else close_array bracket array n s)) a)"
    proof (cases x)
      case None
      then show ?thesis by (simp add: good_result_def)
    next
      case (Some a)
      obtain v t m where a: "a = (v, t, m)" by (cases a)
      then have v: "value_ok v" "suffix t (skip s)" using x Some by (simp_all add: good_result_def)
      then have st: "suffix (skip t) s" using suffix_trans suffix_skip by metis
      show ?thesis
        using runs_create_item [OF assms(7) v(1) assms(1), where f = "\<lambda>(new_item, s, n).
          let array = cJSON_AddItemToArray array new_item
          in if stream_peek s = COMMA then loop array n (stream_get s) else close_array bracket array n s"
          and s = "skip t" and n = m] rest [OF st] assms(6)
        by (simp add: Some a Let_def del: runs_then_parse)
    qed
  qed
qed

lemma loops_total_Suc:
  assumes "\<And>n. alloc e n" and "value_total e fuel"
  shows "loop_total e fuel (array_items fuel e) \<Longrightarrow> loop_total e (Suc fuel) (array_items (Suc fuel) e)"
    and "loop_total e fuel (object_items fuel e) \<Longrightarrow> loop_total e (Suc fuel) (object_items (Suc fuel) e)"
proof -
  assume "loop_total e fuel (array_items fuel e)"
  then show "loop_total e (Suc fuel) (array_items (Suc fuel) e)"
    using child_total [OF assms, of "array_items fuel e" _ _ "[]"] unfolding loop_total_def [of e "Suc fuel"]
    by (simp add: short_name_def del: runs_then_parse)
next
  assume loop: "loop_total e fuel (object_items fuel e)"
  show "loop_total e (Suc fuel) (object_items (Suc fuel) e)"
    unfolding loop_total_def [of e "Suc fuel"]
  proof (intro allI impI)
    fix s n object
    assume short: "short_strings e s" and fuel: "2 * length s + 2 \<le> Suc fuel" and obj: "item_name object = []"
    show "runs (good_result s) (object_items (Suc fuel) e object n s)"
    proof (cases "stream_parse_string e n (skip s)")
      case None
      then show ?thesis by (simp add: good_result_def del: runs_then_parse)
    next
      case (Some r)
      obtain name t m where r: "r = (name, t, m)" by (cases r)
      have name: "short_name name"
        using short_strings_parse [OF short_strings_suffix [OF short suffix_skip] assms(1)] Some r by blast
      have "suffix t (skip s)" using suffix_parse_string Some r by blast
      then have u: "suffix (stream_get (skip t)) s"
        using suffix_trans suffix_skip suffix_get by metis
      have "2 * length (stream_get (skip t)) + 1 \<le> fuel"
        using suffix_length [OF u] fuel by simp
      from runs_good_suffix [OF child_total [OF assms loop short_strings_suffix [OF short u] this obj name] u]
      show ?thesis
        by (simp add: Some r Let_def good_result_def [of s None] del: runs_then_parse)
    qed
  qed
qed

lemma parsers_total:
  assumes "\<And>n. alloc e n"
  shows "value_total e fuel \<and> loop_total e fuel (array_items fuel e) \<and> loop_total e fuel (object_items fuel e)"
proof (induction fuel)
  case 0
  then show ?case by (simp add: value_total_def loop_total_def)
next
  case (Suc fuel)
  then show ?case
    using value_total_Suc loops_total_Suc assms by blast
qed

text \<open>Every text is parsed to NULL or to an item.\<close>

lemma cJSON_Parse_total:
  assumes "\<And>n. alloc e n" and "short_strings e s"
  shows "\<exists>x. cJSON_Parse e n s = return_run x"
proof -
  have "runs (good_result (skip s)) (parse_value (2 * length s + 1) e n (skip s))"
    using parsers_total [OF assms(1)] short_strings_suffix [OF assms(2) suffix_skip] suffix_length [OF suffix_skip, of s]
    unfolding value_total_def by (meson add_le_mono1 mult_le_mono2)
  then obtain x where x: "parse_value (2 * length s + 1) e n (skip s) = return_run x" "good_result (skip s) x"
    unfolding runs_def by blast
  show ?thesis
  proof (cases x)
    case None
    with x(1) show ?thesis by (simp add: cJSON_Parse_def cJSON_Parse_Stream_def)
  next
    case (Some a)
    obtain v t m where a: "a = (v, t, m)" by (cases a)
    have "value_ok v" using x(2) Some a by (simp add: good_result_def)
    then obtain m' where "create_item e v [] t m = return_run (Some (cJSON [] (data_of e v), t, m'))"
      using create_item_short [of "[]" v e t m] assms(1) by (auto simp: short_name_def)
    with x(1) Some a show ?thesis by (simp add: cJSON_Parse_def cJSON_Parse_Stream_def)
  qed
qed

end
