(* ===== verification/Json_Unicode.thy ===== *)
theory Json_Unicode
  imports Json_Laws Sms_Pdu
begin

text \<open>
  Escaped characters of a JSON string. A character outside the basic plane is escaped as a pair of UTF-16
  surrogates. The parser combines them with a bitwise OR where an addition is meant, which gives the
  right character for every other plane.
\<close>

section \<open>Encoding\<close>

lemma ucast_word_of_nat: "ucast (word_of_nat k :: u32) = (word_of_nat k :: u8)"
  by (rule bit_word_eqI) (auto simp: bit_simps)

lemma byte_bits:
  assumes "(n :: nat) < 8"
  shows "n = 0 \<or> n = 1 \<or> n = 2 \<or> n = 3 \<or> n = 4 \<or> n = 5 \<or> n = 6 \<or> n = 7"
  using assms by presburger

text \<open>A marker in the upper bits of a byte is added to the lower bits.\<close>

lemma or_marker:
  shows "m < 64 \<Longrightarrow> word_of_nat m OR 0x80 = (0x80 + word_of_nat m :: u8)"
    and "m < 32 \<Longrightarrow> word_of_nat m OR 0xc0 = (0xc0 + word_of_nat m :: u8)"
    and "m < 16 \<Longrightarrow> word_of_nat m OR 0xe0 = (0xe0 + word_of_nat m :: u8)"
    and "m < 8 \<Longrightarrow> word_of_nat m OR 0xf0 = (0xf0 + word_of_nat m :: u8)"
proof -
  have high: "\<not> bit (word_of_nat m :: u8) n" if "m < 2 ^ k" "k \<le> n" for n k
  proof -
    have "take_bit k m = m" using that(1) by (simp add: take_bit_nat_eq_self)
    then have "\<not> bit m n" using that(2) by (metis bit_take_bit_iff not_le)
    then show ?thesis by (simp add: bit_simps)
  qed
  have low: "\<not> bit (c :: u8) n" if "take_bit k c = 0" "n < k" for c n k
    using that by (metis bit_0_eq bit_take_bit_iff bot_apply bot_bool_def)
  have plus: "word_of_nat m OR c = c + word_of_nat m" if "m < 2 ^ k" "take_bit k c = 0" for k and c :: u8
    using high [OF that(1)] low [OF that(2)] by (subst disjunctive_add [symmetric]) (auto simp: not_le [symmetric] add.commute)
  show "word_of_nat m OR 0x80 = (0x80 + word_of_nat m :: u8)" if "m < 64"
    using plus [of 6 "0x80"] that by (simp add: take_bit_eq_mod)
  show "word_of_nat m OR 0xc0 = (0xc0 + word_of_nat m :: u8)" if "m < 32"
    using plus [of 5 "0xc0"] that by (simp add: take_bit_eq_mod)
  show "word_of_nat m OR 0xe0 = (0xe0 + word_of_nat m :: u8)" if "m < 16"
    using plus [of 4 "0xe0"] that by (simp add: take_bit_eq_mod)
  show "word_of_nat m OR 0xf0 = (0xf0 + word_of_nat m :: u8)" if "m < 8"
    using plus [of 3 "0xf0"] that by (simp add: take_bit_eq_mod)
qed

lemma tail_byte: "ucast ((word_of_nat m OR 0x80) AND (0xbf :: u32)) = (0x80 + word_of_nat (m mod 64) :: u8)"
proof -
  have "ucast ((word_of_nat m OR 0x80) AND (0xbf :: u32)) = (word_of_nat (m mod 64) OR 0x80 :: u8)"
  proof (rule bit_word_eqI)
    fix n
    assume "n < LENGTH(8)"
    then have "n = 0 \<or> n = 1 \<or> n = 2 \<or> n = 3 \<or> n = 4 \<or> n = 5 \<or> n = 6 \<or> n = 7"
      using byte_bits [of n] by simp
    moreover have "bit (m mod 64) n \<longleftrightarrow> n < 6 \<and> bit m n"
      by (simp add: take_bit_eq_mod [of 6, symmetric, simplified] bit_take_bit_iff)
    ultimately show "bit (ucast ((word_of_nat m OR 0x80) AND (0xbf :: u32)) :: u8) n = bit (word_of_nat (m mod 64) OR 0x80 :: u8) n"
      by (elim disjE) (simp_all add: bit_simps bit_unsigned_iff)
  qed
  then show ?thesis
    using or_marker(1) [of "m mod 64"] by simp
qed

lemma drop_bit_word_of_nat:
  assumes "cp < 2 ^ 32"
  shows "drop_bit 6 (word_of_nat cp :: u32) = word_of_nat (cp div 64)"
proof (rule bit_word_eqI)
  fix n
  assume n: "n < LENGTH(32)"
  have "take_bit 32 cp = cp" using assms by (simp add: take_bit_nat_eq_self)
  then have "bit cp (6 + n) \<Longrightarrow> 6 + n < 32" by (metis bit_take_bit_iff)
  moreover have "bit (cp div 64) n = bit cp (6 + n)"
    using bit_drop_bit_eq [of 6 cp] drop_bit_eq_div [of 6 cp] by (simp add: comp_def)
  ultimately show "bit (drop_bit 6 (word_of_nat cp :: u32)) n = bit (word_of_nat (cp div 64) :: u32) n"
    using n by (auto simp: bit_simps)
qed

lemma word_of_nat_less: "cp < 2 ^ 32 \<Longrightarrow> k < 2 ^ 32 \<Longrightarrow> (word_of_nat cp :: u32) < word_of_nat k \<longleftrightarrow> cp < k"
  by (simp add: word_less_nat_alt unsigned_of_nat take_bit_nat_eq_self)

lemma utf8_tail_numeral:
  "utf8_tail 2 uc out = utf8_tail 1 (drop_bit 6 uc) (ucast ((uc OR 0x80) AND 0xbf) # out)"
  "utf8_tail 3 uc out = utf8_tail 2 (drop_bit 6 uc) (ucast ((uc OR 0x80) AND 0xbf) # out)"
  by (simp_all add: numeral_eq_Suc)

lemma utf8_char_encode:
  assumes "cp < 0x200000"
  shows "utf8_char (word_of_nat cp) = utf8_encode cp"
proof -
  have cmp: "(word_of_nat cp :: u32) < 0x80 \<longleftrightarrow> cp < 0x80" "(word_of_nat cp :: u32) < 0x800 \<longleftrightarrow> cp < 0x800"
    "(word_of_nat cp :: u32) < 0x10000 \<longleftrightarrow> cp < 0x10000"
    using word_of_nat_less [of cp "0x80"] word_of_nat_less [of cp "0x800"] word_of_nat_less [of cp "0x10000"] assms by simp_all
  have shift: "drop_bit 6 (word_of_nat m :: u32) = word_of_nat (m div 64)" if "m \<le> cp" for m
    using that assms by (intro drop_bit_word_of_nat) simp
  have le: "cp div 64 \<le> cp" "cp div 64 div 64 \<le> cp" by simp_all
  have div: "cp div 64 div 64 = cp div 4096" "cp div 4096 div 64 = cp div 262144"
    by (simp_all add: div_mult2_eq [symmetric])
  have mark: "cp < 0x800 \<Longrightarrow> word_of_nat (cp div 64) OR 0xc0 = (0xc0 + word_of_nat (cp div 64) :: u8)"
    "cp < 0x10000 \<Longrightarrow> word_of_nat (cp div 4096) OR 0xe0 = (0xe0 + word_of_nat (cp div 4096) :: u8)"
    "word_of_nat (cp div 262144) OR 0xf0 = (0xf0 + word_of_nat (cp div 262144) :: u8)"
    using or_marker [of "cp div 64"] or_marker [of "cp div 4096"] or_marker [of "cp div 262144"] assms by simp_all
  consider "cp < 0x80" | "0x80 \<le> cp" "cp < 0x800" | "0x800 \<le> cp" "cp < 0x10000" | "0x10000 \<le> cp" by linarith
  then show ?thesis
    by cases (simp_all add: utf8_char_def utf8_encode_def cmp firstByteMark_def tail_byte utf8_tail_numeral shift le div
        unsigned_or_eq ucast_word_of_nat mark)
qed

section \<open>Escapes\<close>

definition hex4_text :: "nat \<Rightarrow> bytes" where
  "hex4_text u = map (hex_digit False) [u div 4096, u div 256 mod 16, u div 16 mod 16, u mod 16]"

text \<open>The escape of a code point in UTF-16, and the code point that the parser makes of it.\<close>

definition json_escape :: "nat \<Rightarrow> bytes" where
  "json_escape cp =
     (if cp < 0x10000 then [92, 117] @ hex4_text cp
      else (let v = cp - 0x10000
            in [92, 117] @ hex4_text (0xd800 + v div 1024) @ [92, 117] @ hex4_text (0xdc00 + v mod 1024)))"

definition parsed_char :: "nat \<Rightarrow> nat" where
  "parsed_char cp = (if 0x10000 \<le> cp \<and> even (cp div 0x10000) then cp - 0x10000 else cp)"

lemma horner: "push_bit 4 (word_of_nat (k div 16)) + word_of_nat (k mod 16) = (word_of_nat k :: u32)"
proof -
  have "word_of_nat (k div 16 * 16 + k mod 16) = (word_of_nat k :: u32)"
    by (simp only: div_mult_mod_eq)
  then have "word_of_nat (k div 16) * 16 + word_of_nat (k mod 16) = (word_of_nat k :: u32)"
    by (simp only: of_nat_add of_nat_mult of_nat_numeral)
  then show ?thesis by (simp add: push_bit_eq_mult)
qed

lemma hex4_of_text:
  assumes "u < 65536"
  shows "stream_parse_hex4 (hex4_text u @ s) = (word_of_nat u, s)"
proof -
  have small: "u div 4096 < 16" "u div 256 mod 16 < 16" "u div 16 mod 16 < 16" "u mod 16 < 16"
    using assms by simp_all
  note digits = small [THEN parse_hex_digit]
  have "u div 256 div 16 = u div 4096" "u div 16 div 16 = u div 256"
    by (simp_all add: div_mult2_eq [symmetric])
  then have sum: "push_bit 4 (push_bit 4 (push_bit 4 (word_of_nat (u div 4096)) + word_of_nat (u div 256 mod 16))
      + word_of_nat (u div 16 mod 16)) + word_of_nat (u mod 16) = (word_of_nat u :: u32)"
    using horner [of "u div 256"] horner [of "u div 16"] horner [of u] by (simp only:)
  have "stream_parse_hex4 t = parse_hex (Suc (Suc (Suc (Suc 0)))) 0 t" for t
    by (simp add: stream_parse_hex4_def numeral_eq_Suc)
  then show ?thesis
    using digits sum by (simp add: hex4_text_def stream_get_def)
qed

lemma word_of_nat_le: "a < 2 ^ 32 \<Longrightarrow> b < 2 ^ 32 \<Longrightarrow> (word_of_nat a :: u32) \<le> word_of_nat b \<longleftrightarrow> a \<le> b"
  by (simp add: word_le_nat_alt unsigned_of_nat take_bit_nat_eq_self)

lemma unit_range:
  assumes "u < 65536"
  shows "0xdc00 \<le> (word_of_nat u :: u32) \<longleftrightarrow> 0xdc00 \<le> u" "(word_of_nat u :: u32) \<le> 0xdfff \<longleftrightarrow> u \<le> 0xdfff"
    "0xd800 \<le> (word_of_nat u :: u32) \<longleftrightarrow> 0xd800 \<le> u" "(word_of_nat u :: u32) \<le> 0xdbff \<longleftrightarrow> u \<le> 0xdbff"
    "word_of_nat u = (0 :: u32) \<longleftrightarrow> u = 0" "(word_of_nat u :: u32) < 0xdc00 \<longleftrightarrow> u < 0xdc00"
    "0xdfff < (word_of_nat u :: u32) \<longleftrightarrow> 0xdfff < u"
  using assms word_of_nat_le [of "0xdc00" u] word_of_nat_le [of u "0xdfff"] word_of_nat_le [of "0xd800" u]
    word_of_nat_le [of u "0xdbff"] word_of_nat_less [of u "0xdc00"] word_of_nat_less [of "0xdfff" u] word_of_nat_le [of u 0]
  by auto

lemma low_bits: "(word_of_nat u :: u32) AND 0x3ff = word_of_nat (u mod 1024)"
proof -
  have m: "(0x3ff :: u32) = mask 10" by (simp add: mask_eq_exp_minus_1)
  have "(word_of_nat u :: u32) AND 0x3ff = take_bit 10 (word_of_nat u)"
    unfolding m by (rule take_bit_eq_mask [symmetric])
  also have "\<dots> = word_of_nat (take_bit 10 u)" by (rule take_bit_of_nat)
  also have "take_bit 10 u = u mod 1024" by (simp add: take_bit_eq_mod)
  finally show ?thesis .
qed

lemma surrogates_join:
  assumes "v < 0x100000"
  shows "0x10000 OR push_bit 10 (word_of_nat (0xd800 + v div 1024) AND 0x3ff) OR (word_of_nat (0xdc00 + v mod 1024) AND 0x3ff)
    = (word_of_nat (0x10000 OR v) :: u32)"
proof -
  have "(0xd800 + v div 1024) mod 1024 = v div 1024" "(0xdc00 + v mod 1024) mod 1024 = v mod 1024"
    using assms by (simp_all add: mod_add_left_eq [of "0xd800", symmetric] mod_add_left_eq [of "0xdc00", symmetric])
  then have "0x10000 OR push_bit 10 (word_of_nat (0xd800 + v div 1024) AND 0x3ff) OR (word_of_nat (0xdc00 + v mod 1024) AND 0x3ff)
      = (0x10000 OR push_bit 10 (word_of_nat (drop_bit 10 v)) OR word_of_nat (take_bit 10 v) :: u32)"
    by (simp only: low_bits drop_bit_eq_div take_bit_eq_mod) simp
  also have "\<dots> = word_of_nat (0x10000 OR v)"
  proof (rule bit_word_eqI)
    fix n
    assume n: "n < LENGTH(32)"
    have "bit (0x10000 :: u32) n \<longleftrightarrow> n = 16" and "bit (0x10000 :: nat) n \<longleftrightarrow> n = 16"
      using bit_exp_iff [of 16 n, where 'a = u32] bit_exp_iff [of 16 n, where 'a = nat] n by auto
    then show "bit (0x10000 OR push_bit 10 (word_of_nat (drop_bit 10 v)) OR word_of_nat (take_bit 10 v) :: u32) n
        = bit (word_of_nat (0x10000 OR v) :: u32) n"
      using n by (auto simp: bit_simps not_less)
  qed
  finally show ?thesis .
qed

lemma join_plane:
  assumes "0x10000 \<le> cp" and "cp \<le> 0x10ffff"
  shows "0x10000 OR (cp - 0x10000) = parsed_char cp"
proof -
  define w where "w = (cp - 0x10000) mod 0x10000"
  define k where "k = (cp - 0x10000) div 0x10000"
  have cp: "cp - 0x10000 = k * 2 ^ 16 + w" by (simp add: k_def w_def)
  have k: "cp div 0x10000 = Suc k" using assms(1) by (simp add: k_def le_div_geq)
  have w: "w < 2 ^ 16" by (simp add: w_def)
  have split: "a * 2 ^ 16 + w = push_bit 16 a OR w" for a :: nat
  proof -
    have "take_bit 16 w = w" using w by (simp add: take_bit_nat_eq_self)
    then have "bit w n \<Longrightarrow> n < 16" for n by (metis bit_take_bit_iff)
    then have "\<not> bit (push_bit 16 a) n \<or> \<not> bit w n" for n
      by (simp add: bit_push_bit_iff) (meson not_le)
    from disjunctive_add [OF this] show ?thesis by (simp add: push_bit_eq_mult)
  qed
  have "0x10000 OR (cp - 0x10000) = push_bit 16 1 OR (push_bit 16 k OR w)"
    unfolding cp split by simp
  also have "\<dots> = push_bit 16 (1 OR k) OR w"
    by (simp only: or.assoc push_bit_or)
  also have "1 OR k = (if even k then k + 1 else k)"
    using one_or_eq [of k] by (simp add: of_bool_def)
  finally have "0x10000 OR (cp - 0x10000) = push_bit 16 (if even k then k + 1 else k) OR w" .
  also have "\<dots> = (if even k then k + 1 else k) * 2 ^ 16 + w"
    by (rule split [symmetric])
  finally show ?thesis
    using cp k assms(1) by (auto simp: parsed_char_def)
qed

section \<open>Escaped characters\<close>

lemma unicode_escape_basic:
  assumes "scalar_value cp" and "cp < 0x10000"
  shows "unicode_escape (hex4_text cp @ s) = (Some (word_of_nat cp), False, s)"
proof -
  have "\<not> (55296 \<le> cp \<and> cp \<le> 56319)" using assms(1) by (auto simp: scalar_value_def)
  then show ?thesis
    using assms hex4_of_text [of cp s] unit_range [of cp]
    by (auto simp: unicode_escape_def scalar_value_def)
qed

lemma unicode_escape_pair:
  assumes "v < 0x100000"
  shows "unicode_escape (hex4_text (0xd800 + v div 1024) @ 92 # 117 # hex4_text (0xdc00 + v mod 1024) @ s)
    = (Some (word_of_nat (0x10000 OR v)), False, s)"
proof -
  have "0xd800 + v div 1024 < 65536" "v div 1024 < 1024" and "0xdc00 + v mod 1024 < 65536" "v mod 1024 < 1024"
    using assms by simp_all
  then show ?thesis
    using hex4_of_text [of "0xd800 + v div 1024"] hex4_of_text [of "0xdc00 + v mod 1024"] surrogates_join [OF assms]
      unit_range [of "0xd800 + v div 1024"] unit_range [of "0xdc00 + v mod 1024"]
    by (simp add: unicode_escape_def stream_peek_def stream_get_def del: of_nat_add)
qed

lemma string_loop_escape:
  assumes "scalar_value cp" and "alloc e n"
  shows "string_loop e False out n (json_escape cp @ s) = string_loop e False (out @ utf8_encode (parsed_char cp)) (Suc n) s"
proof -
  define t where "t = tl (tl (json_escape cp))"
  have esc: "json_escape cp = 92 # 117 # t"
    by (simp add: t_def json_escape_def Let_def)
  have "unicode_escape (t @ s) = (Some (word_of_nat (parsed_char cp)), False, s)"
  proof (cases "cp < 0x10000")
    case True
    then show ?thesis
      using unicode_escape_basic [OF assms(1) True, of s] by (simp add: t_def json_escape_def parsed_char_def)
  next
    case False
    have "cp - 0x10000 < 0x100000" and le: "0x10000 \<le> cp" "cp \<le> 0x10ffff"
      using assms(1) False by (auto simp: scalar_value_def)
    from unicode_escape_pair [OF this(1), of s] show ?thesis
      using False unfolding join_plane [OF le] by (simp add: t_def json_escape_def Let_def)
  qed
  moreover have "parsed_char cp < 0x200000"
    using assms(1) by (auto simp: parsed_char_def scalar_value_def)
  ultimately show ?thesis
    using assms(2) utf8_char_encode [of "parsed_char cp"]
    by (simp add: esc string_loop.simps [of e False out n] string_loop.simps [of e True out n] stream_peek_def stream_get_def
        unescape_def)
qed

lemma string_loop_escapes:
  assumes "list_all scalar_value cps" and "\<And>n. alloc e n"
  shows "string_loop e False out n (concat (map json_escape cps) @ 34 # s)
    = Some (out @ utf8_string (map parsed_char cps), 34 # s, n + length cps)"
  using assms(1)
proof (induction cps arbitrary: out n)
  case Nil
  then show ?case by (simp add: string_loop.simps stream_peek_def utf8_string_def)
next
  case (Cons cp cps)
  then show ?case
    using string_loop_escape [of cp e n out "concat (map json_escape cps) @ 34 # s"] assms(2)
    by (simp add: utf8_string_def)
qed

end
