(* ===== verification/Json_Properties.thy ===== *)
theory Json_Properties
  imports Json_Roundtrip Json_Safety Json_Unicode
begin

text \<open>
  The properties of the JSON library, with an evaluation of each on concrete values.
\<close>

definition json_demo :: json_env where
  "json_demo = \<lparr>alloc = \<lambda>_. True, d2i = \<lambda>_. 0, pow10 = \<lambda>_. Fin 1, print_double = \<lambda>_. []\<rparr>"

lemma json_demo_simps [simp]: "alloc json_demo n" "json_ok json_demo"
  by (simp_all add: json_demo_def json_ok_def)

section \<open>Printing and parsing\<close>

text \<open>
  C8. Printing and parsing are inverse: a tree of nulls, booleans, 32-bit integers, strings, arrays and objects is
  printed to a new block, formatted or not, and parsing the text gives the tree back (the name of the root, which
  is not printed, is empty).
\<close>

theorem json_round_trip:
  assumes "printable t" and "json_ok e"
  shows "\<exists>text n' m'. cJSON_Print_String e t fmt n = Inr (Some text, n') \<and>
    cJSON_Parse e m text = return_run (Some (cJSON [] (item_data t), m'))"
  using Print_String_eq [OF json_okD(1) [OF assms(2)]] parse_printed [OF assms] by blast

theorem json_round_trip_witness:
  "\<exists>text n' m'.
     cJSON_Print_String json_demo (cJSON [] (JSON_DATA_OBJECT [cJSON [97] (JSON_DATA_NUM_INT8 7),
       cJSON [98] (JSON_DATA_ARRAY [cJSON [] JSON_DATA_TRUE, cJSON [] (JSON_DATA_STR [10, 34])])])) True 0 = Inr (Some text, n') \<and>
     cJSON_Parse json_demo 0 text = return_run (Some (cJSON [] (JSON_DATA_OBJECT [cJSON [97] (JSON_DATA_NUM_INT8 7),
       cJSON [98] (JSON_DATA_ARRAY [cJSON [] JSON_DATA_TRUE, cJSON [] (JSON_DATA_STR [10, 34])])]), m'))"
  using json_round_trip [of "cJSON [] (JSON_DATA_OBJECT [cJSON [97] (JSON_DATA_NUM_INT8 7),
       cJSON [98] (JSON_DATA_ARRAY [cJSON [] JSON_DATA_TRUE, cJSON [] (JSON_DATA_STR [10, 34])])])" json_demo True 0 0]
  by (simp add: int_data_def short_name_def)

section \<open>All texts\<close>



section \<open>Escaped characters\<close>

lemma utf8_encode_no_nul:
  assumes "0 < cp" and "cp < 0x200000"
  shows "no_nul (utf8_encode cp)"
proof -
  have nz: "word_of_nat k \<noteq> (0 :: u8)" if "0 < k" "k < 256" for k
  proof -
    have "unat (word_of_nat k :: u8) = k" using that(2) by (rule unat_of_nat_u8)
    with that(1) show ?thesis by auto
  qed
  have "list_all (\<lambda>k. 0 < k \<and> k < 256)
      (if cp < 0x80 then [cp] else if cp < 0x800 then [0xC0 + cp div 64, 0x80 + cp mod 64]
       else if cp < 0x10000 then [0xE0 + cp div 4096, 0x80 + cp div 64 mod 64, 0x80 + cp mod 64]
       else [0xF0 + cp div 262144, 0x80 + cp div 4096 mod 64, 0x80 + cp div 64 mod 64, 0x80 + cp mod 64])"
    using assms by (auto simp: div_less_iff_less_mult)
  moreover have "no_nul (map word_of_nat ks)" if "list_all (\<lambda>k. 0 < k \<and> k < 256) ks" for ks
    using that nz by (induction ks) auto
  ultimately show ?thesis
    unfolding utf8_encode_def by blast
qed

text \<open>
  C34. Escapes: a string of escaped characters, in the basic plane or as surrogate pairs, is read as the UTF-8 encoding
  of these characters, except that a character in an even plane above the first (U+20000 to U+2FFFF,
  U+40000 to U+4FFFF, ...) becomes the character one plane below, because the halves of the pair are joined with OR
  instead of an addition.
\<close>

theorem json_escapes:
  assumes "list_all scalar_value cps" and "\<And>n. alloc e n"
  shows "\<exists>n'. stream_parse_string e n (34 # concat (map json_escape cps) @ 34 # s)
    = Some (utf8_string (map (\<lambda>cp. if 0x10000 \<le> cp \<and> even (cp div 0x10000) then cp - 0x10000 else cp) cps), s, n')"
proof -
  have "parsed_char = (\<lambda>cp. if 0x10000 \<le> cp \<and> even (cp div 0x10000) then cp - 0x10000 else cp)"
    by (simp add: fun_eq_iff parsed_char_def)
  moreover have "takeWhile (\<lambda>c. c \<noteq> 0) (utf8_string (map parsed_char cps)) = utf8_string (map parsed_char cps)"
  proof -
    have "0 < parsed_char cp \<and> parsed_char cp < 0x200000" if "cp \<in> set cps" for cp
      using assms(1) that by (cases "cp = 0x10000") (auto simp: list_all_iff scalar_value_def parsed_char_def)
    then have "no_nul (utf8_string (map parsed_char cps))"
      using utf8_encode_no_nul by (auto simp: utf8_string_def)
    then show ?thesis by (auto simp: takeWhile_eq_all_conv)
  qed
  ultimately show ?thesis
    using string_loop_escapes [OF assms] assms(2) by (simp add: stream_parse_string_def stream_peek_def stream_get_def)
qed

theorem json_escapes_witness:
  "\<exists>n'. stream_parse_string json_demo 0 (34 # json_escape 0x20AC @ json_escape 0x1F600 @ json_escape 0x20000 @ [34])
     = Some (utf8_string [0x20AC, 0x1F600, 0x10000], [], n')"
  using json_escapes [of "[0x20AC, 0x1F600, 0x20000]" json_demo 0 "[]"] by (simp add: scalar_value_def)

section \<open>Memory\<close>



end
