(* ===== verification/Engine_Geofence.thy ===== *)
theory Engine_Geofence
  imports Ieee_Double
begin

text \<open>
  The geofence test of the engine (\<open>apps/ts_engine/engine/geofence.c\<close>): whether a position lies in a polygon,
  by counting the edges that a ray to its right crosses, in floating point. The division is never by zero,
  however small the difference of the coordinates, and a rectangle is decided exactly.
\<close>

section \<open>Points and polygons\<close>

record point =
  pt_x :: dbl
  pt_y :: dbl

text \<open>One edge of the polygon, from \<open>points[j]\<close> to \<open>points[i]\<close>: is it crossed by the ray to the right of
  the point? The quotient is evaluated only for an edge whose ends are on different sides.\<close>

definition edge_crossed :: "point \<Rightarrow> point \<Rightarrow> point \<Rightarrow> bool option" where
  "edge_crossed t p q =
     (if dbl_less (pt_y t) (pt_y p) = dbl_less (pt_y t) (pt_y q) then Some False
      else
        (case dbl_div (dbl_mult (dbl_sub (pt_x q) (pt_x p)) (dbl_sub (pt_y t) (pt_y p)))
                (dbl_sub (pt_y q) (pt_y p)) of
           None \<Rightarrow> None
         | Some r \<Rightarrow> Some (dbl_less (pt_x t) (dbl_add r (pt_x p)))))"

fun polygon_loop :: "point \<Rightarrow> point \<Rightarrow> point list \<Rightarrow> bool \<Rightarrow> bool option" where
  "polygon_loop t q [] inside = Some inside"
| "polygon_loop t q (p # ps) inside =
     (case edge_crossed t p q of
        None \<Rightarrow> None
      | Some c \<Rightarrow> polygon_loop t p ps (inside \<noteq> c))"

definition point_in_polygon :: "point \<Rightarrow> point list \<Rightarrow> bool option" where
  "point_in_polygon t ps = (if ps = [] then Some False else polygon_loop t (last ps) ps False)"

section \<open>No division by zero\<close>

fun dbl_ok :: "dbl \<Rightarrow> bool" where
  "dbl_ok (Fin q) \<longleftrightarrow> finite_dbl q"
| "dbl_ok _ \<longleftrightarrow> True"

definition point_ok :: "point \<Rightarrow> bool" where
  "point_ok p \<longleftrightarrow> dbl_ok (pt_x p) \<and> dbl_ok (pt_y p)"

lemma dbl_div_None: "dbl_div a b = None \<Longrightarrow> b = Fin 0"
  by (cases a; cases b) (auto split: if_splits)

lemma dbl_sub_eq_zero:
  assumes "dbl_ok a" and "dbl_ok b" and "dbl_sub a b = Fin 0"
  shows "a = b"
  using assms dbl_sub_zero_iff by (cases a; cases b) (auto split: if_splits)

lemma edge_crossed_total:
  assumes "point_ok p" and "point_ok q"
  shows "edge_crossed t p q \<noteq> None"
proof
  assume "edge_crossed t p q = None"
  then have "dbl_sub (pt_y q) (pt_y p) = Fin 0" and "dbl_less (pt_y t) (pt_y p) \<noteq> dbl_less (pt_y t) (pt_y q)"
    by (auto simp: edge_crossed_def dest!: dbl_div_None split: if_splits option.splits)
  then show False
    using dbl_sub_eq_zero [of "pt_y q" "pt_y p"] assms by (simp add: point_ok_def)
qed

lemma polygon_loop_total:
  assumes "point_ok q" and "list_all point_ok ps"
  shows "polygon_loop t q ps inside \<noteq> None"
  using assms by (induction ps arbitrary: q inside) (auto simp: edge_crossed_total split: option.splits)

lemma point_in_polygon_total:
  assumes "list_all point_ok ps"
  shows "point_in_polygon t ps \<noteq> None"
proof (cases "ps = []")
  case False
  then have "point_ok (last ps)"
    using assms by (simp add: list_all_iff)
  then show ?thesis
    using polygon_loop_total assms False by (simp add: point_in_polygon_def)
qed (simp add: point_in_polygon_def)

section \<open>Rectangles\<close>

lemma dbl_round_finite:
  assumes "\<bar>q\<bar> \<le> 2 ^ 20"
  obtains r where "dbl_round q = Fin r"
proof (cases "q = 0")
  case False
  define u where "u = (2 :: rat) powi quantum q"
  define r where "r = of_int (round_even (q / u)) * u"
  have u: "0 < u" by (simp add: u_def)
  have "u \<le> max (2 powi binade \<bar>q\<bar>) 1"
  proof (cases "quantum q = min_exp")
    case True
    then show ?thesis
      by (simp add: u_def min_exp_def le_max_iff_disj power_int_le_one)
  next
    case False
    then have "quantum q \<le> binade \<bar>q\<bar>"
      by (simp add: quantum_def max_def split: if_splits)
    then show ?thesis
      by (simp add: u_def le_max_iff_disj power_int_increasing)
  qed
  also have "\<dots> \<le> 2 ^ 20"
    using binade_bounds(1) [of "\<bar>q\<bar>"] False assms by simp
  finally have u20: "u \<le> 2 ^ 20" .
  have "r - q = (of_int (round_even (q / u)) - q / u) * u"
    using u by (simp add: r_def left_diff_distrib)
  then have "\<bar>r - q\<bar> \<le> 1 / 2 * u"
    using round_even_close [of "q / u"] u by (simp add: abs_mult)
  then have "\<bar>r\<bar> < 2 ^ 22"
    using u20 assms abs_triangle_ineq2 [of r q] by simp
  also have "\<dots> \<le> dbl_limit"
    unfolding dbl_limit_def by (rule power_increasing) simp_all
  finally have "\<bar>r\<bar> < dbl_limit" .
  then have "dbl_round q = Fin r"
    using False by (simp add: dbl_round_def Let_def r_def flip: u_def)
  then show ?thesis by (rule that)
qed (simp add: dbl_round_def that)

definition on_map :: "rat \<Rightarrow> bool" where
  "on_map q \<longleftrightarrow> finite_dbl q \<and> \<bar>q\<bar> \<le> 1000"

lemma horizontal_edge: "edge_crossed t \<lparr>pt_x = a, pt_y = c\<rparr> \<lparr>pt_x = b, pt_y = c\<rparr> = Some False"
  by (simp add: edge_crossed_def)

lemma vertical_edge:
  assumes "on_map a" and "on_map c" and "on_map d" and "on_map ty"
  shows "edge_crossed \<lparr>pt_x = Fin tx, pt_y = Fin ty\<rparr> \<lparr>pt_x = Fin a, pt_y = Fin c\<rparr> \<lparr>pt_x = Fin a, pt_y = Fin d\<rparr>
    = Some ((ty < c) \<noteq> (ty < d) \<and> tx < a)"
proof (cases "(ty < c) = (ty < d)")
  case False
  have near: "\<bar>p - q\<bar> \<le> 2 ^ 20" if "on_map p" and "on_map q" for p q
    using that by (simp add: on_map_def abs_le_iff)
  obtain r where r: "dbl_round (ty - c) = Fin r"
    using dbl_round_finite [OF near [OF assms(4,2)]] by blast
  obtain s where s: "dbl_round (d - c) = Fin s"
    using dbl_round_finite [OF near [OF assms(3,2)]] by blast
  have "s \<noteq> 0"
    using dbl_sub_zero_iff [of d c] assms(2,3) s False by (auto simp: on_map_def)
  moreover have "dbl_round 0 = Fin 0"
    by (simp add: dbl_round_def)
  moreover have "dbl_round a = Fin a"
    using assms(1) by (intro dbl_round_exact) (simp add: on_map_def)
  ultimately show ?thesis
    using False r s by (simp add: edge_crossed_def)
qed (simp add: edge_crossed_def)

lemma rectangle_decided:
  assumes "on_map x0" and "on_map x1" and "on_map y0" and "on_map y1" and "on_map ty"
    and "x0 < x1" and "y0 < y1"
  shows "point_in_polygon \<lparr>pt_x = Fin tx, pt_y = Fin ty\<rparr>
      [\<lparr>pt_x = Fin x0, pt_y = Fin y0\<rparr>, \<lparr>pt_x = Fin x1, pt_y = Fin y0\<rparr>,
       \<lparr>pt_x = Fin x1, pt_y = Fin y1\<rparr>, \<lparr>pt_x = Fin x0, pt_y = Fin y1\<rparr>]
    = Some (x0 \<le> tx \<and> tx < x1 \<and> y0 \<le> ty \<and> ty < y1)"
  using assms by (auto simp: point_in_polygon_def horizontal_edge vertical_edge)

end
