(* ===== verification/Engine_Threshold.thy ===== *)
theory Engine_Threshold
  imports Engine_Geofence Libc_String
begin

text \<open>
  Measured values and thresholds of the Thingsee engine (\<open>apps/ts_engine/engine/value.h\<close>, \<open>parse.h\<close>,
  the geofence check and the \<open>check_*_threshold\<close> functions of \<open>execute.c\<close>). \<open>struct ts_value\<close> is a tagged union;
  the accessors of the model read a member of it and are \<open>None\<close> where the bytes read were not all
  written by the store that made the value (a boolean occupies one byte of a double), so a check whose
  result depends on such bytes has no result here. \<open>None\<close> also stands for a failed \<open>DEBUGASSERT\<close>, for
  \<open>strcmp\<close> on NULL and for a conversion of a double that does not fit the integer type.
\<close>

section \<open>Values\<close>

datatype ts_value =
    VDouble dbl
  | VUint16 u16
  | VUint32 u32
  | VInt16 u16
  | VInt32 u32
  | VString "bytes option"
  | VArray "ts_value list option"
  | VBool bool

fun valuedouble :: "ts_value \<Rightarrow> dbl option" where
  "valuedouble (VDouble d) = Some d"
| "valuedouble _ = None"

text \<open>The two bytes of \<open>valueint16\<close> are the lower half of the 32-bit members on the little-endian target.\<close>

fun valueint16 :: "ts_value \<Rightarrow> u16 option" where
  "valueint16 (VUint16 w) = Some w"
| "valueint16 (VInt16 w) = Some w"
| "valueint16 (VUint32 w) = Some (ucast w)"
| "valueint16 (VInt32 w) = Some (ucast w)"
| "valueint16 _ = None"

fun valueint32 :: "ts_value \<Rightarrow> u32 option" where
  "valueint32 (VUint32 w) = Some w"
| "valueint32 (VInt32 w) = Some w"
| "valueint32 _ = None"

fun valuestring :: "ts_value \<Rightarrow> bytes option" where
  "valuestring (VString s) = s"
| "valuestring _ = None"

fun valuebool :: "ts_value \<Rightarrow> bool option" where
  "valuebool (VBool b) = Some b"
| "valuebool _ = None"

fun valuearray_items :: "ts_value \<Rightarrow> ts_value list option" where
  "valuearray_items (VArray its) = its"
| "valuearray_items _ = None"

text \<open>Freeing the items of an array value leaves the NULL pointer behind.\<close>

fun free_valuearray :: "ts_value \<Rightarrow> ts_value" where
  "free_valuearray (VArray _) = VArray None"
| "free_valuearray v = v"

section \<open>Thresholds\<close>

datatype ts_threshold_t = isOneOf | isGt | isLt | isNotIn | isAny | isInsideGeo

text \<open>The function pointer \<open>check_threshold\<close> of a threshold is NULL or \<open>__ts_engine_check_geofence\<close>.\<close>

record ts_threshold =
  thr_value :: ts_value
  thr_type :: ts_threshold_t
  thr_geofence :: bool

text \<open>The part of the cause that a check reads: whether it is an active relative cause, and its bias.\<close>

record bias =
  relative_active :: bool
  sense_bias :: ts_value

fun polygon_of :: "ts_value list \<Rightarrow> point list option" where
  "polygon_of [] = Some []"
| "polygon_of [_] = None"
| "polygon_of (a # b # vs) =
     (case (valuedouble a, valuedouble b, polygon_of vs) of
        (Some px, Some py, Some ps) \<Rightarrow> Some (\<lparr>pt_x = px, pt_y = py\<rparr> # ps)
      | _ \<Rightarrow> None)"

text \<open>\<open>alloc\<close> says whether the \<open>malloc\<close> of the polygon succeeds. The check replaces the measured array by
  its verdict.\<close>

definition ts_engine_check_geofence :: "bool \<Rightarrow> ts_threshold \<Rightarrow> ts_value \<Rightarrow> (bool \<times> ts_value) option" where
  "ts_engine_check_geofence alloc thr v =
     (case (thr_value thr, v) of
        (VArray (Some corners), VArray (Some sample)) \<Rightarrow>
          if odd (length corners) \<or> length sample \<noteq> 7 then None
          else if length corners div 2 < 3 then Some (False, v)
          else if \<not> alloc then Some (False, v)
          else
            (case (polygon_of corners, valuedouble (sample ! 0), valuedouble (sample ! 1)) of
               (Some ps, Some tx, Some ty) \<Rightarrow>
                 (case point_in_polygon \<lparr>pt_x = tx, pt_y = ty\<rparr> ps of
                    None \<Rightarrow> None
                  | Some r \<Rightarrow> Some (r, VBool r))
             | _ \<Rightarrow> None)
      | _ \<Rightarrow> None)"

text \<open>The loops of the \<open>isOneOf\<close> and \<open>isNotIn\<close> cases stop at the first item that is equal.\<close>

fun one_of :: "(ts_value \<Rightarrow> bool option) \<Rightarrow> ts_value list \<Rightarrow> bool option" where
  "one_of eq [] = Some False"
| "one_of eq (v # vs) =
     (case eq v of None \<Rightarrow> None | Some True \<Rightarrow> Some True | Some False \<Rightarrow> one_of eq vs)"

fun not_in :: "(ts_value \<Rightarrow> bool option) \<Rightarrow> ts_value list \<Rightarrow> bool option" where
  "not_in eq [] = Some True"
| "not_in eq (v # vs) =
     (case eq v of None \<Rightarrow> None | Some True \<Rightarrow> Some False | Some False \<Rightarrow> not_in eq vs)"

text \<open>The \<open>switch\<close> on the type of the threshold, which the seven functions share: \<open>eq\<close> compares the value
  with an item, \<open>gt\<close> and \<open>lt\<close> compare it with the limit.\<close>

definition check_type ::
  "(ts_value \<Rightarrow> bool option) \<Rightarrow> (ts_value \<Rightarrow> bool option) \<Rightarrow> (ts_value \<Rightarrow> bool option) \<Rightarrow> ts_threshold \<Rightarrow> bool option" where
  "check_type eq gt lt thr =
     (case thr_type thr of
        isOneOf \<Rightarrow> Option.bind (valuearray_items (thr_value thr)) (one_of eq)
      | isGt \<Rightarrow> gt (thr_value thr)
      | isLt \<Rightarrow> lt (thr_value thr)
      | isNotIn \<Rightarrow> Option.bind (valuearray_items (thr_value thr)) (not_in eq)
      | isAny \<Rightarrow> Some True
      | isInsideGeo \<Rightarrow> Some False)"

definition relative_value :: "bias \<Rightarrow> (ts_value \<Rightarrow> 'a option) \<Rightarrow> ('a \<Rightarrow> 'a \<Rightarrow> 'a) \<Rightarrow> ts_value \<Rightarrow> 'a option" where
  "relative_value b get sub v =
     (if relative_active b
      then Option.bind (get v) (\<lambda>a. map_option (sub a) (get (sense_bias b)))
      else get v)"

definition check_valuedouble_threshold :: "bias \<Rightarrow> ts_threshold \<Rightarrow> ts_value \<Rightarrow> bool option" where
  "check_valuedouble_threshold b thr v =
     Option.bind (relative_value b valuedouble dbl_sub v) (\<lambda>val.
       check_type (\<lambda>i. map_option (dbl_eq val) (valuedouble i))
         (\<lambda>l. map_option (\<lambda>d. dbl_less d val) (valuedouble l))
         (\<lambda>l. map_option (dbl_less val) (valuedouble l)) thr)"

definition check_valueuint16_threshold :: "bias \<Rightarrow> ts_threshold \<Rightarrow> ts_value \<Rightarrow> bool option" where
  "check_valueuint16_threshold b thr v =
     Option.bind (relative_value b valueint16 (-) v) (\<lambda>val.
       let limit = (\<lambda>l. Option.bind (valuedouble l) dbl_to_u16)
       in check_type (\<lambda>i. map_option (\<lambda>w. val = w) (limit i))
            (\<lambda>l. map_option (\<lambda>w. w < val) (limit l)) (\<lambda>l. map_option (\<lambda>w. val < w) (limit l)) thr)"

definition check_valueuint32_threshold :: "bias \<Rightarrow> ts_threshold \<Rightarrow> ts_value \<Rightarrow> bool option" where
  "check_valueuint32_threshold b thr v =
     Option.bind (relative_value b valueint32 (-) v) (\<lambda>val.
       let limit = (\<lambda>l. Option.bind (valuedouble l) dbl_to_u32)
       in check_type (\<lambda>i. map_option (\<lambda>w. val = w) (limit i))
            (\<lambda>l. map_option (\<lambda>w. w < val) (limit l)) (\<lambda>l. map_option (\<lambda>w. val < w) (limit l)) thr)"

definition check_valueint16_threshold :: "bias \<Rightarrow> ts_threshold \<Rightarrow> ts_value \<Rightarrow> bool option" where
  "check_valueint16_threshold b thr v =
     Option.bind (relative_value b valueint16 (-) v) (\<lambda>val.
       let limit = (\<lambda>l. Option.bind (valuedouble l) dbl_to_i16)
       in check_type (\<lambda>i. map_option (\<lambda>w. sint val = sint w) (limit i))
            (\<lambda>l. map_option (\<lambda>w. sint w < sint val) (limit l))
            (\<lambda>l. map_option (\<lambda>w. sint val < sint w) (limit l)) thr)"

definition check_valueint32_threshold :: "bias \<Rightarrow> ts_threshold \<Rightarrow> ts_value \<Rightarrow> bool option" where
  "check_valueint32_threshold b thr v =
     Option.bind (relative_value b valueint32 (-) v) (\<lambda>val.
       let limit = (\<lambda>l. Option.bind (valuedouble l) dbl_to_i32)
       in check_type (\<lambda>i. map_option (\<lambda>w. sint val = sint w) (limit i))
            (\<lambda>l. map_option (\<lambda>w. sint w < sint val) (limit l))
            (\<lambda>l. map_option (\<lambda>w. sint val < sint w) (limit l)) thr)"

definition check_valuestring_threshold :: "ts_threshold \<Rightarrow> ts_value \<Rightarrow> bool option" where
  "check_valuestring_threshold thr v =
     (let same = (\<lambda>i. Option.bind (valuestring v) (\<lambda>s. map_option (\<lambda>l. strcmp s l = 0) (valuestring i)))
      in check_type same (\<lambda>l. map_option Not (same l)) same thr)"

definition check_valuebool_threshold :: "ts_threshold \<Rightarrow> ts_value \<Rightarrow> bool option" where
  "check_valuebool_threshold thr v =
     Option.bind (valuebool v) (\<lambda>val.
       let limit = (\<lambda>l. map_option dbl_to_bool (valuedouble l))
       in check_type (\<lambda>i. map_option (\<lambda>b. val = b) (limit i))
            (\<lambda>l. map_option (\<lambda>b. val \<and> \<not> b) (limit l)) (\<lambda>l. map_option (\<lambda>b. \<not> val \<and> b) (limit l)) thr)"

text \<open>
  An array value without a geofence: after the assertion on the type, each iteration over the items of the
  threshold begins with the assertion that the threshold is not an array, so the recursive call behind it
  is not reached. The result is that of the empty loop.
\<close>

definition check_array_threshold :: "ts_threshold \<Rightarrow> bool option" where
  "check_array_threshold thr =
     (if thr_type thr = isOneOf \<or> thr_type thr = isNotIn
      then Option.bind (valuearray_items (thr_value thr))
             (\<lambda>items. if items = [] then Some (thr_type thr = isNotIn) else None)
      else None)"

definition check_threshold :: "bool \<Rightarrow> bias \<Rightarrow> ts_threshold \<Rightarrow> ts_value \<Rightarrow> (bool \<times> ts_value) option" where
  "check_threshold alloc b thr v =
     (if thr_geofence thr then ts_engine_check_geofence alloc thr v
      else map_option (\<lambda>r. (r, v))
        (case v of
           VDouble _ \<Rightarrow> check_valuedouble_threshold b thr v
         | VUint16 _ \<Rightarrow> check_valueuint16_threshold b thr v
         | VUint32 _ \<Rightarrow> check_valueuint32_threshold b thr v
         | VInt16 _ \<Rightarrow> check_valueint16_threshold b thr v
         | VInt32 _ \<Rightarrow> check_valueint32_threshold b thr v
         | VString _ \<Rightarrow> check_valuestring_threshold thr v
         | VBool _ \<Rightarrow> check_valuebool_threshold thr v
         | VArray _ \<Rightarrow> check_array_threshold thr))"

section \<open>What the checks decide\<close>

lemma not_in_one_of: "not_in eq vs = map_option Not (one_of eq vs)"
  by (induction vs) (auto split: option.splits bool.splits)

lemma one_of_total:
  assumes "\<And>v. v \<in> set vs \<Longrightarrow> eq v = Some (P v)"
  shows "one_of eq vs = Some (\<exists>v \<in> set vs. P v)"
  using assms by (induction vs) (auto split: bool.splits)

text \<open>The reference: what a threshold means for a whole number.\<close>

fun threshold_spec :: "ts_threshold_t \<Rightarrow> int list \<Rightarrow> int \<Rightarrow> int \<Rightarrow> bool" where
  "threshold_spec isOneOf items limit n \<longleftrightarrow> n \<in> set items"
| "threshold_spec isGt items limit n \<longleftrightarrow> limit < n"
| "threshold_spec isLt items limit n \<longleftrightarrow> n < limit"
| "threshold_spec isNotIn items limit n \<longleftrightarrow> n \<notin> set items"
| "threshold_spec isAny items limit n \<longleftrightarrow> True"
| "threshold_spec isInsideGeo items limit n \<longleftrightarrow> False"

text \<open>A threshold as the parser makes it from whole numbers.\<close>

definition number :: "int \<Rightarrow> ts_value" where
  "number i = VDouble (Fin (of_int i))"

definition number_threshold :: "ts_threshold_t \<Rightarrow> int list \<Rightarrow> int \<Rightarrow> ts_threshold" where
  "number_threshold ty items limit =
     \<lparr>thr_value = (if ty = isOneOf \<or> ty = isNotIn then VArray (Some (map number items)) else number limit),
      thr_type = ty, thr_geofence = False\<rparr>"

text \<open>The whole number a value stands for, after the bias of a relative cause: the difference wraps around
  at the width of the type.\<close>

fun reading :: "bias \<Rightarrow> ts_value \<Rightarrow> int option" where
  "reading b (VDouble (Fin q)) =
     (if q \<noteq> of_int \<lfloor>q\<rfloor> then None
      else if relative_active b
      then (case sense_bias b of
              VDouble (Fin r) \<Rightarrow>
                if r = of_int \<lfloor>r\<rfloor> \<and> \<bar>\<lfloor>q\<rfloor> - \<lfloor>r\<rfloor>\<bar> < 2 ^ 53 then Some (\<lfloor>q\<rfloor> - \<lfloor>r\<rfloor>) else None
            | _ \<Rightarrow> None)
      else Some \<lfloor>q\<rfloor>)"
| "reading b (VUint16 w) =
     (if relative_active b
      then (case sense_bias b of VUint16 v \<Rightarrow> Some ((uint w - uint v) mod 65536) | _ \<Rightarrow> None)
      else Some (uint w))"
| "reading b (VUint32 w) =
     (if relative_active b
      then (case sense_bias b of VUint32 v \<Rightarrow> Some ((uint w - uint v) mod 4294967296) | _ \<Rightarrow> None)
      else Some (uint w))"
| "reading b (VInt16 w) =
     (if relative_active b
      then (case sense_bias b of
              VInt16 v \<Rightarrow> Some ((sint w - sint v + 32768) mod 65536 - 32768) | _ \<Rightarrow> None)
      else Some (sint w))"
| "reading b (VInt32 w) =
     (if relative_active b
      then (case sense_bias b of
              VInt32 v \<Rightarrow> Some ((sint w - sint v + 2147483648) mod 4294967296 - 2147483648) | _ \<Rightarrow> None)
      else Some (sint w))"
| "reading b _ = None"

text \<open>The numbers a threshold for a value of this type may contain.\<close>

fun fits :: "ts_value \<Rightarrow> int \<Rightarrow> bool" where
  "fits (VUint16 _) i \<longleftrightarrow> 0 \<le> i \<and> i < 65536"
| "fits (VUint32 _) i \<longleftrightarrow> 0 \<le> i \<and> i < 4294967296"
| "fits (VInt16 _) i \<longleftrightarrow> - 32768 \<le> i \<and> i < 32768"
| "fits (VInt32 _) i \<longleftrightarrow> - 2147483648 \<le> i \<and> i < 2147483648"
| "fits _ i \<longleftrightarrow> True"

fun numbers_of :: "ts_threshold_t \<Rightarrow> int list \<Rightarrow> int \<Rightarrow> int list" where
  "numbers_of isOneOf items limit = items"
| "numbers_of isNotIn items limit = items"
| "numbers_of isGt items limit = [limit]"
| "numbers_of isLt items limit = [limit]"
| "numbers_of _ items limit = []"

lemma one_of_numbers:
  assumes "\<And>i. i \<in> set items \<Longrightarrow> eq (number i) = Some (n = i)"
  shows "one_of eq (map number items) = Some (n \<in> set items)"
  using assms by (induction items) (auto split: option.splits bool.splits)

lemma check_type_spec:
  assumes "\<And>i. i \<in> set (numbers_of ty items limit) \<Longrightarrow>
      eq (number i) = Some (n = i) \<and> gt (number i) = Some (i < n) \<and> lt (number i) = Some (n < i)"
  shows "check_type eq gt lt (number_threshold ty items limit) = Some (threshold_spec ty items limit n)"
  using assms one_of_numbers [of items eq n]
  by (cases ty) (auto simp: check_type_def number_threshold_def not_in_one_of)

lemma number_simps [simp]:
  "valuedouble (number i) = Some (Fin (of_int i))"
  by (simp add: number_def)

lemma uint_number: "0 \<le> i \<Longrightarrow> i < 2 ^ LENGTH('a) \<Longrightarrow> uint (word_of_int i :: 'a::len word) = i"
  by (simp add: uint_word_of_int_eq take_bit_int_eq_self)

lemma sint_number:
  "- (2 ^ (LENGTH('a) - 1)) \<le> i \<Longrightarrow> i < 2 ^ (LENGTH('a) - 1) \<Longrightarrow> sint (word_of_int i :: 'a::len word) = i"
  by (simp add: sint_sbintrunc' signed_take_bit_int_eq_self)

lemma u16_limit: "fits (VUint16 w) i \<Longrightarrow> dbl_to_u16 (Fin (of_int i)) = Some (word_of_int i) \<and> uint (word_of_int i :: u16) = i"
  using uint_number [of i, where 'a = 16] by (simp add: dbl_to_u16_def Let_def)

lemma u32_limit: "fits (VUint32 w) i \<Longrightarrow> dbl_to_u32 (Fin (of_int i)) = Some (word_of_int i) \<and> uint (word_of_int i :: u32) = i"
  using uint_number [of i, where 'a = 32] by (simp add: dbl_to_u32_def Let_def)

lemma i16_limit: "fits (VInt16 w) i \<Longrightarrow> dbl_to_i16 (Fin (of_int i)) = Some (word_of_int i) \<and> sint (word_of_int i :: u16) = i"
  using sint_number [of i, where 'a = 16] by (simp add: dbl_to_i16_def Let_def)

lemma i32_limit: "fits (VInt32 w) i \<Longrightarrow> dbl_to_i32 (Fin (of_int i)) = Some (word_of_int i) \<and> sint (word_of_int i :: u32) = i"
  using sint_number [of i, where 'a = 32] by (simp add: dbl_to_i32_def Let_def)

lemma uint_diff16: "uint (a - b :: u16) = (uint a - uint b) mod 65536"
  by (simp add: uint_word_ariths)

lemma uint_diff32: "uint (a - b :: u32) = (uint a - uint b) mod 4294967296"
  by (simp add: uint_word_ariths)

lemma sint_diff16: "sint (a - b :: u16) = (sint a - sint b + 32768) mod 65536 - 32768"
  by (simp add: sint_word_ariths signed_take_bit_eq_take_bit_shift take_bit_eq_mod)

lemma sint_diff32: "sint (a - b :: u32) = (sint a - sint b + 2147483648) mod 4294967296 - 2147483648"
  by (simp add: sint_word_ariths signed_take_bit_eq_take_bit_shift take_bit_eq_mod)

lemma check_uint16_spec:
  assumes "reading b (VUint16 w) = Some n" and "\<forall>i \<in> set (numbers_of ty items limit). fits (VUint16 w) i"
  shows "check_valueuint16_threshold b (number_threshold ty items limit) (VUint16 w)
    = Some (threshold_spec ty items limit n)"
proof -
  obtain val where val: "relative_value b valueint16 (-) (VUint16 w) = Some val" and n: "uint val = n"
    using assms(1) by (auto simp: relative_value_def uint_diff16 split: if_splits ts_value.splits)
  show ?thesis
    unfolding check_valueuint16_threshold_def val bind.simps Let_def
    using assms(2) n [symmetric] u16_limit [of w]
    by (intro check_type_spec) (auto simp: word_uint_eq_iff word_less_def)
qed

lemma check_uint32_spec:
  assumes "reading b (VUint32 w) = Some n" and "\<forall>i \<in> set (numbers_of ty items limit). fits (VUint32 w) i"
  shows "check_valueuint32_threshold b (number_threshold ty items limit) (VUint32 w)
    = Some (threshold_spec ty items limit n)"
proof -
  obtain val where val: "relative_value b valueint32 (-) (VUint32 w) = Some val" and n: "uint val = n"
    using assms(1) by (auto simp: relative_value_def uint_diff32 split: if_splits ts_value.splits)
  show ?thesis
    unfolding check_valueuint32_threshold_def val bind.simps Let_def
    using assms(2) n [symmetric] u32_limit [of w]
    by (intro check_type_spec) (auto simp: word_uint_eq_iff word_less_def)
qed

lemma check_int16_spec:
  assumes "reading b (VInt16 w) = Some n" and "\<forall>i \<in> set (numbers_of ty items limit). fits (VInt16 w) i"
  shows "check_valueint16_threshold b (number_threshold ty items limit) (VInt16 w)
    = Some (threshold_spec ty items limit n)"
proof -
  obtain val where val: "relative_value b valueint16 (-) (VInt16 w) = Some val" and n: "sint val = n"
    using assms(1) by (auto simp: relative_value_def sint_diff16 split: if_splits ts_value.splits)
  show ?thesis
    unfolding check_valueint16_threshold_def val bind.simps Let_def
    using assms(2) n [symmetric] i16_limit [of w] by (intro check_type_spec) auto
qed

lemma check_int32_spec:
  assumes "reading b (VInt32 w) = Some n" and "\<forall>i \<in> set (numbers_of ty items limit). fits (VInt32 w) i"
  shows "check_valueint32_threshold b (number_threshold ty items limit) (VInt32 w)
    = Some (threshold_spec ty items limit n)"
proof -
  obtain val where val: "relative_value b valueint32 (-) (VInt32 w) = Some val" and n: "sint val = n"
    using assms(1) by (auto simp: relative_value_def sint_diff32 split: if_splits ts_value.splits)
  show ?thesis
    unfolding check_valueint32_threshold_def val bind.simps Let_def
    using assms(2) n [symmetric] i32_limit [of w] by (intro check_type_spec) auto
qed

lemma check_double_spec:
  assumes "reading b (VDouble d) = Some n"
  shows "check_valuedouble_threshold b (number_threshold ty items limit) (VDouble d)
    = Some (threshold_spec ty items limit n)"
proof -
  obtain q where d: "d = Fin q" and q: "q = of_int \<lfloor>q\<rfloor>"
    using assms by (cases d) (auto split: if_splits)
  have val: "relative_value b valuedouble dbl_sub (VDouble d) = Some (Fin (of_int n))"
  proof (cases "relative_active b")
    case True
    then obtain r where r: "sense_bias b = VDouble (Fin r)" "r = of_int \<lfloor>r\<rfloor>"
      "\<bar>\<lfloor>q\<rfloor> - \<lfloor>r\<rfloor>\<bar> < 2 ^ 53" "n = \<lfloor>q\<rfloor> - \<lfloor>r\<rfloor>"
      using assms q by (auto simp: d split: if_splits ts_value.splits dbl.splits)
    then show ?thesis
      using True q dbl_sub_of_int [OF r(3)] by (simp add: relative_value_def d)
  next
    case False
    then show ?thesis
      using assms q by (auto simp: relative_value_def d)
  qed
  show ?thesis
    unfolding check_valuedouble_threshold_def val bind.simps
    by (intro check_type_spec) auto
qed

lemma check_threshold_numbers:
  assumes "reading b v = Some n" and "\<forall>i \<in> set (numbers_of ty items limit). fits v i"
  shows "check_threshold alloc b (number_threshold ty items limit) v = Some (threshold_spec ty items limit n, v)"
proof -
  have [simp]: "\<not> thr_geofence (number_threshold ty items limit)"
    by (simp add: number_threshold_def)
  show ?thesis
    using assms check_uint16_spec check_uint32_spec check_int16_spec check_int32_spec check_double_spec
    by (cases v) (auto simp: check_threshold_def)
qed

end
