(* ===== verification/Lib_Time.thy ===== *)
theory Lib_Time
  imports Prelude
begin

text \<open>
  The calendar routines of the C library (\<open>nuttx/libc/time\<close>) in the configuration of the product
  (\<open>CONFIG_GREGORIAN_TIME\<close> unset): \<open>gmtime_r\<close> with \<open>clock_utc2calendar\<close>, \<open>mktime\<close> with
  \<open>clock_calendar2utc\<close> and the helpers they share. A \<open>time_t\<close> has 32 bits, so a day number is at most
  49710 and the intermediate \<open>int\<close> values of \<open>gmtime_r\<close> do not overflow; they are integers here, and
  \<open>mktime\<close> reduces to 32 bits. The reference is the Gregorian calendar: \<open>day_number\<close> counts the days of
  the years and months before a date.
\<close>

section \<open>The routines\<close>

definition clock_isleapyear :: "int \<Rightarrow> bool" where
  "clock_isleapyear year \<longleftrightarrow>
     (if year mod 400 \<noteq> 0 then (if year mod 100 \<noteq> 0 then year mod 4 = 0 else False) else True)"

definition g_daysbeforemonth :: "int list" where
  "g_daysbeforemonth = [0, 31, 59, 90, 120, 151, 181, 212, 243, 273, 304, 334, 365]"

text \<open>\<open>None\<close> is an index outside the table.\<close>

definition clock_daysbeforemonth :: "int \<Rightarrow> bool \<Rightarrow> int option" where
  "clock_daysbeforemonth month leapyear =
     (if 0 \<le> month \<and> month \<le> 12
      then Some (g_daysbeforemonth ! nat month + (if 2 \<le> month \<and> leapyear then 1 else 0))
      else None)"

text \<open>The loop over the years: the years since 1970 and the days into the year.\<close>

definition days_in_year :: "int \<Rightarrow> int" where
  "days_in_year value = (if clock_isleapyear (value + 1970) then 366 else 365)"

function year_loop :: "int \<Rightarrow> int \<Rightarrow> int \<times> int" where
  "year_loop value days =
     (if days \<ge> days_in_year value then year_loop (value + 1) (days - days_in_year value) else (value, days))"
  by pat_completeness auto
termination
  by (relation "measure (\<lambda>(value, days). nat days)") (auto simp: days_in_year_def split: if_splits)

declare year_loop.simps [simp del]

text \<open>The binary search for the month.\<close>

function month_loop :: "bool \<Rightarrow> int \<Rightarrow> int \<Rightarrow> int \<Rightarrow> int option" where
  "month_loop leapyear days lo hi =
     (let value = (lo + hi) div 2 in
      case (clock_daysbeforemonth (value + 1) leapyear, clock_daysbeforemonth value leapyear) of
        (Some next_start, Some start) \<Rightarrow>
          if next_start > days then
            if start > days
            then (if lo < value - 1 then month_loop leapyear days lo (value - 1) else Some lo)
            else Some value
          else (if value + 1 < hi then month_loop leapyear days (value + 1) hi else Some (value + 1))
      | _ \<Rightarrow> None)"
  by pat_completeness auto
termination
  by (relation "measure (\<lambda>(leapyear, days, lo, hi). nat (hi - lo))") auto

declare month_loop.simps [simp del]

definition clock_utc2calendar :: "int \<Rightarrow> (int \<times> int \<times> int) option" where
  "clock_utc2calendar days =
     (let value = days div (4 * 365 + 1);
          days = days - value * (4 * 365 + 1);
          (value, days) = year_loop (value * 4) days;
          leapyear = clock_isleapyear (value + 1970)
      in case month_loop leapyear days 0 11 of
           None \<Rightarrow> None
         | Some month \<Rightarrow>
             (case clock_daysbeforemonth month leapyear of
                None \<Rightarrow> None
              | Some start \<Rightarrow> Some (1970 + value, month + 1, days - start + 1)))"

record tm =
  tm_sec :: int
  tm_min :: int
  tm_hour :: int
  tm_mday :: int
  tm_mon :: int
  tm_year :: int

definition gmtime_r :: "u32 \<Rightarrow> tm option" where
  "gmtime_r timer =
     (let epoch = uint timer;
          jdn = epoch div 86400; epoch = epoch - 86400 * jdn;
          hour = epoch div 3600; epoch = epoch - 3600 * hour;
          min = epoch div 60; epoch = epoch - 60 * min
      in case clock_utc2calendar jdn of
           None \<Rightarrow> None
         | Some (year, month, day) \<Rightarrow>
             Some \<lparr>tm_sec = epoch, tm_min = min, tm_hour = hour, tm_mday = day, tm_mon = month - 1,
                   tm_year = year - 1900\<rparr>)"

definition clock_calendar2utc :: "int \<Rightarrow> int \<Rightarrow> int \<Rightarrow> int option" where
  "clock_calendar2utc year month day =
     (case clock_daysbeforemonth month (clock_isleapyear year) of
        None \<Rightarrow> None
      | Some start \<Rightarrow> Some ((year - 1970) * 365 + (year - 1969) div 4 + start + (day - 1)))"

definition mktime :: "tm \<Rightarrow> u32 option" where
  "mktime tp =
     (case clock_calendar2utc (tm_year tp + 1900) (tm_mon tp) (tm_mday tp) of
        None \<Rightarrow> None
      | Some jdn \<Rightarrow> Some (word_of_int (((jdn * 24 + tm_hour tp) * 60 + tm_min tp) * 60 + tm_sec tp)))"

section \<open>The reference calendar\<close>

fun days_in_month :: "int \<Rightarrow> int \<Rightarrow> int" where
  "days_in_month year month =
     (if month = 2 then (if clock_isleapyear year then 29 else 28)
      else if month \<in> {4, 6, 9, 11} then 30 else 31)"

definition valid_date :: "int \<Rightarrow> int \<Rightarrow> int \<Rightarrow> bool" where
  "valid_date year month day \<longleftrightarrow> 1970 \<le> year \<and> 1 \<le> month \<and> month \<le> 12 \<and> 1 \<le> day \<and> day \<le> days_in_month year month"

definition day_number :: "int \<Rightarrow> int \<Rightarrow> int \<Rightarrow> int" where
  "day_number year month day =
     (\<Sum>y = 1970..<year. days_in_year (y - 1970)) + (\<Sum>m = 1..<month. days_in_month year m) + (day - 1)"

section \<open>Months\<close>

lemma months: "0 \<le> m \<Longrightarrow> m \<le> 12 \<Longrightarrow> m \<in> {0, 1, 2, 3, 4, 5, 6, 7, 8, 9, 10, 11, 12 :: int}"
  by (simp, presburger)

lemma daysbeforemonth_total:
  assumes "0 \<le> m" and "m \<le> 12"
  obtains b where "clock_daysbeforemonth m l = Some b"
  using assms by (simp add: clock_daysbeforemonth_def)

definition month_sum :: "int \<Rightarrow> int \<Rightarrow> int" where
  "month_sum y m = (\<Sum>k = 1..<m + 1. days_in_month y k)"

lemma month_sum_0: "month_sum y 0 = 0"
  by (simp add: month_sum_def)

lemma month_sum_step: "0 < m \<Longrightarrow> month_sum y m = month_sum y (m - 1) + days_in_month y m"
proof -
  assume "0 < m"
  then have "{1..<m + 1} = insert m {1..<m}" by auto
  then show ?thesis
    by (simp add: month_sum_def del: days_in_month.simps)
qed

lemma daysbeforemonth_sum:
  assumes "0 \<le> m" and "m \<le> 12"
  shows "clock_daysbeforemonth m (clock_isleapyear y) = Some (month_sum y m)"
  using months [OF assms]
  by (elim insertE emptyE)
    (simp_all add: clock_daysbeforemonth_def g_daysbeforemonth_def month_sum_step month_sum_0)

text \<open>The search invariant: the wanted month lies between \<open>lo\<close> and \<open>hi\<close>.\<close>

definition days_before :: "bool \<Rightarrow> int \<Rightarrow> int" where
  "days_before l m = the (clock_daysbeforemonth m l)"

lemma daysbeforemonth_eq: "0 \<le> m \<Longrightarrow> m \<le> 12 \<Longrightarrow> clock_daysbeforemonth m l = Some (days_before l m)"
  by (simp add: days_before_def clock_daysbeforemonth_def)

lemma month_loop_correct:
  assumes "0 \<le> lo" and "hi \<le> 11" and "days_before l lo \<le> days" and "days < days_before l (hi + 1)" and "lo \<le> hi"
  shows "\<exists>m. month_loop l days lo hi = Some m \<and> lo \<le> m \<and> m \<le> hi \<and>
    days_before l m \<le> days \<and> days < days_before l (m + 1)"
  using assms
proof (induction l days lo hi rule: month_loop.induct)
  case (1 l days lo hi)
  define v where "v = (lo + hi) div 2"
  have v: "lo \<le> v" "v \<le> hi" "v = hi \<Longrightarrow> lo = hi"
    using 1(7) by (auto simp: v_def)
  have eqs: "clock_daysbeforemonth (v + 1) l = Some (days_before l (v + 1))"
    "clock_daysbeforemonth v l = Some (days_before l v)"
    using 1(3,4) v by (auto intro!: daysbeforemonth_eq)
  note prems = 1(3-7)
  note IH = 1(1,2) [OF v_def refl eqs(1) eqs(2)]
  have step: "month_loop l days lo hi =
      (if days < days_before l (v + 1)
       then if days < days_before l v
            then if lo < v - 1 then month_loop l days lo (v - 1) else Some lo
            else Some v
       else if v + 1 < hi then month_loop l days (v + 1) hi else Some (v + 1))"
    by (subst month_loop.simps) (simp add: eqs Let_def flip: v_def)
  consider "days < days_before l v" "days < days_before l (v + 1)"
    | "days_before l v \<le> days" "days < days_before l (v + 1)" | "days_before l (v + 1) \<le> days"
    by linarith
  then show ?case
  proof cases
    case 1
    then have "v \<noteq> lo" using prems by auto
    then have lt: "lo < v" using v by simp
    show ?thesis
    proof (cases "lo < v - 1")
      case True
      then show ?thesis
        using IH(1) 1 prems v unfolding step by fastforce
    next
      case False
      then have "v = lo + 1" using lt by simp
      then show ?thesis
        using 1 prems v unfolding step by simp
    qed
  next
    case 2
    then show ?thesis
      using v unfolding step by simp
  next
    case 3
    then have "v \<noteq> hi" using prems by auto
    then have lt: "v < hi" using v by simp
    show ?thesis
    proof (cases "v + 1 < hi")
      case True
      then show ?thesis
        using IH(2) 3 prems v unfolding step by fastforce
    next
      case False
      then have "hi = v + 1" using lt by simp
      then show ?thesis
        using 3 prems v unfolding step by simp
    qed
  qed
qed

section \<open>Years\<close>

definition year_days :: "int \<Rightarrow> int" where
  "year_days v = (\<Sum>y = 1970..<1970 + v. days_in_year (y - 1970))"

lemma year_days_0: "year_days 0 = 0"
  by (simp add: year_days_def)

lemma year_days_step: "0 \<le> v \<Longrightarrow> year_days (v + 1) = year_days v + days_in_year v"
proof -
  assume "0 \<le> v"
  then have "{1970..<1970 + (v + 1)} = insert (1970 + v) {1970..<1970 + v}" by auto
  then show ?thesis by (simp add: year_days_def)
qed

lemma year_days_mono:
  assumes "0 \<le> v" and "v \<le> w"
  shows "year_days v \<le> year_days w"
  unfolding year_days_def using assms by (intro sum_mono2) (auto simp: days_in_year_def)

lemma days_in_year_pos: "0 < days_in_year v"
  by (simp add: days_in_year_def)

lemma year_loop_correct:
  assumes "0 \<le> v" and "0 \<le> d" and "year_loop v d = (w, r)"
  shows "v \<le> w \<and> 0 \<le> r \<and> r < days_in_year w \<and> year_days w + r = year_days v + d"
  using assms
proof (induction v d rule: year_loop.induct)
  case (1 v d)
  show ?case
  proof (cases "days_in_year v \<le> d")
    case True
    then have "year_loop (v + 1) (d - days_in_year v) = (w, r)"
      using 1(4) by (subst (asm) year_loop.simps) simp
    with 1(1) [OF True] True 1(2) show ?thesis
      by (simp add: year_days_step)
  next
    case False
    then show ?thesis
      using 1(2-4) by (subst (asm) year_loop.simps) simp
  qed
qed

lemma leap_until_2101:
  assumes "0 \<le> v" and "v \<le> 130"
  shows "clock_isleapyear (v + 1970) \<longleftrightarrow> v mod 4 = 2 \<and> v \<noteq> 130"
proof -
  have "v \<in> set [0..130]" using assms by simp
  moreover have "\<forall>v \<in> set [0..130]. clock_isleapyear (v + 1970) \<longleftrightarrow> v mod 4 = 2 \<and> v \<noteq> 130"
    by code_simp
  ultimately show ?thesis by blast
qed

lemma year_days_formula:
  assumes "n \<le> 130"
  shows "year_days (int n) = int n * 365 + (int n + 1) div 4"
  using assms
proof (induction n)
  case (Suc n)
  have "year_days (int (Suc n)) = int n * 365 + (int n + 1) div 4 + days_in_year (int n)"
    using Suc year_days_step [of "int n"] by (simp add: add.commute)
  also have "\<dots> = int (Suc n) * 365 + (int (Suc n) + 1) div 4"
    using leap_until_2101 [of "int n"] Suc(2) by (simp add: days_in_year_def) presburger
  finally show ?case .
qed (simp add: year_days_0)

lemma year_days_until_2101:
  assumes "0 \<le> v" and "v \<le> 130"
  shows "year_days v = v * 365 + (v + 1) div 4"
  using year_days_formula [of "nat v"] assms by simp

lemma year_days_131: "year_days 131 = 47847"
  using year_days_step [of 130] year_days_until_2101 [of 130] leap_until_2101 [of 130]
  by (simp add: days_in_year_def)

section \<open>Calendar dates\<close>

lemma utc2calendar_correct:
  assumes "0 \<le> n" and "n < 48213"
  obtains y m d where "clock_utc2calendar n = Some (y, m, d)" and "valid_date y m d" and "day_number y m d = n"
proof -
  define k where "k = n div 1461"
  have k: "0 \<le> k" "k \<le> 32" using assms by (auto simp: k_def)
  obtain w r where yl: "year_loop (k * 4) (n - k * 1461) = (w, r)"
    by (cases "year_loop (k * 4) (n - k * 1461)")
  have "0 \<le> n - k * 1461"
    by (simp add: k_def minus_div_mult_eq_mod)
  with year_loop_correct [OF _ _ yl] k(1)
  have w: "k * 4 \<le> w" "0 \<le> r" "r < days_in_year w" "year_days w + r = year_days (k * 4) + (n - k * 1461)"
    by auto
  have "year_days (k * 4) = k * 1461"
    using year_days_until_2101 [of "k * 4"] k by simp
  then have n: "year_days w + r = n" using w(4) by simp
  define l where "l = clock_isleapyear (w + 1970)"
  have db: "days_before l m = month_sum (w + 1970) m" if "0 \<le> m" "m \<le> 12" for m
    using daysbeforemonth_sum [OF that, of "w + 1970"] by (simp add: days_before_def l_def)
  have "days_before l 0 = 0" "days_before l 12 = days_in_year w"
    by (auto simp: days_before_def clock_daysbeforemonth_def g_daysbeforemonth_def days_in_year_def l_def)
  then obtain m where m: "month_loop l r 0 11 = Some m" "0 \<le> m" "m \<le> 11" "days_before l m \<le> r" "r < days_before l (m + 1)"
    using month_loop_correct [of 0 11 l r] w(2,3) by auto
  have "clock_utc2calendar n = Some (1970 + w, m + 1, r - days_before l m + 1)"
    using m daysbeforemonth_eq [of m l] yl
    by (simp add: clock_utc2calendar_def Let_def flip: k_def l_def)
  moreover have "valid_date (1970 + w) (m + 1) (r - days_before l m + 1)"
    using m db [of m] db [of "m + 1"] month_sum_step [of "m + 1" "w + 1970"] w(1) k
    by (simp add: valid_date_def add.commute del: days_in_month.simps)
  moreover have "day_number (1970 + w) (m + 1) (r - days_before l m + 1) = n"
    using n m(2,3) db [of m] by (simp add: day_number_def year_days_def month_sum_def add.commute del: days_in_month.simps)
  ultimately show ?thesis by (rule that)
qed

lemma calendar2utc_correct:
  assumes "valid_date y m d" and "y \<le> 2100"
  shows "clock_calendar2utc y (m - 1) d = Some (day_number y m d)"
proof -
  have "year_days (y - 1970) = (y - 1970) * 365 + (y - 1969) div 4"
    using assms year_days_until_2101 [of "y - 1970"] by (simp add: valid_date_def)
  moreover have "clock_daysbeforemonth (m - 1) (clock_isleapyear y) = Some (month_sum y (m - 1))"
    using assms by (intro daysbeforemonth_sum) (auto simp: valid_date_def)
  ultimately show ?thesis
    by (simp add: clock_calendar2utc_def day_number_def year_days_def month_sum_def del: days_in_month.simps)
qed

lemma day_number_year:
  assumes "valid_date y m d" and "day_number y m d < 47847"
  shows "y \<le> 2100"
proof (rule ccontr)
  assume "\<not> y \<le> 2100"
  then have "year_days 131 \<le> year_days (y - 1970)"
    by (intro year_days_mono) auto
  moreover have "0 \<le> (\<Sum>k = 1..<m. days_in_month y k)"
    by (intro sum_nonneg) simp
  moreover have "day_number y m d = year_days (y - 1970) + (\<Sum>k = 1..<m. days_in_month y k) + (d - 1)"
    by (simp add: day_number_def year_days_def del: days_in_month.simps)
  ultimately show False
    using assms by (simp add: year_days_131 valid_date_def del: days_in_month.simps)
qed

lemma gmtime_r_correct:
  assumes "uint t div 86400 < 48213"
  obtains y m d where "gmtime_r t = Some \<lparr>tm_sec = uint t mod 60, tm_min = uint t div 60 mod 60,
      tm_hour = uint t div 3600 mod 24, tm_mday = d, tm_mon = m - 1, tm_year = y - 1900\<rparr>"
    and "valid_date y m d" and "day_number y m d = uint t div 86400"
proof -
  obtain y m d where ymd: "clock_utc2calendar (uint t div 86400) = Some (y, m, d)" "valid_date y m d"
    "day_number y m d = uint t div 86400"
    using utc2calendar_correct [OF _ assms] by (metis div_int_pos_iff uint_ge_0 zero_le_numeral)
  define e where "e = uint t"
  have "e - 86400 * (e div 86400) = e mod 86400"
    by (simp add: minus_mult_div_eq_mod)
  moreover have "e mod 86400 div 3600 = e div 3600 mod 24"
    using mod_mult2_eq' [of e 3600 24] by simp
  moreover have "e mod 86400 - 3600 * (e mod 86400 div 3600) = e mod 3600"
    by (simp add: minus_mult_div_eq_mod mod_mod_cancel)
  moreover have "e mod 3600 div 60 = e div 60 mod 60"
    using mod_mult2_eq' [of e 60 60] by simp
  moreover have "e mod 3600 - 60 * (e mod 3600 div 60) = e mod 60"
    by (simp add: minus_mult_div_eq_mod mod_mod_cancel)
  ultimately have "gmtime_r t = Some \<lparr>tm_sec = uint t mod 60, tm_min = uint t div 60 mod 60,
      tm_hour = uint t div 3600 mod 24, tm_mday = d, tm_mon = m - 1, tm_year = y - 1900\<rparr>"
    using ymd(1) by (simp add: gmtime_r_def Let_def e_def)
  then show ?thesis
    using ymd(2,3) by (rule that)
qed

lemma mktime_inverts:
  assumes "uint t div 86400 < 47847"
  shows "Option.bind (gmtime_r t) mktime = Some t"
proof -
  have lt: "uint t div 86400 < 48213" using assms by simp
  obtain y m d where g: "gmtime_r t = Some \<lparr>tm_sec = uint t mod 60, tm_min = uint t div 60 mod 60,
      tm_hour = uint t div 3600 mod 24, tm_mday = d, tm_mon = m - 1, tm_year = y - 1900\<rparr>"
    and v: "valid_date y m d" and n: "day_number y m d = uint t div 86400"
    by (rule gmtime_r_correct [OF lt])
  have "y \<le> 2100"
    using day_number_year [OF v] n assms by simp
  define e where "e = uint t"
  have "e div 3600 mod 24 + e div 86400 * 24 = e div 3600"
    using mod_mult_div_eq [of "e div 3600" 24] by (simp add: zdiv_zmult2_eq [of 24 e 3600, simplified] mult.commute)
  moreover have "e div 60 mod 60 + e div 3600 * 60 = e div 60"
    using mod_mult_div_eq [of "e div 60" 60] by (simp add: zdiv_zmult2_eq [of 60 e 60, simplified] mult.commute)
  moreover have "e mod 60 + e div 60 * 60 = e"
    by simp
  ultimately have "((e div 86400 * 24 + e div 3600 mod 24) * 60 + e div 60 mod 60) * 60 + e mod 60 = e"
    by (simp add: add.commute)
  then have "word_of_int (((uint t div 86400 * 24 + uint t div 3600 mod 24) * 60 + uint t div 60 mod 60) * 60 + uint t mod 60) = t"
    unfolding e_def by (simp only: word_of_int_uint)
  then show ?thesis
    using calendar2utc_correct [OF v \<open>y \<le> 2100\<close>] unfolding g n
    by (simp only: mktime_def tm.simps option.case Option.bind.simps diff_add_cancel)
qed

text \<open>The conversion has a result for every time.\<close>

lemma utc2calendar_total:
  assumes "0 \<le> n"
  shows "clock_utc2calendar n \<noteq> None"
proof -
  define k where "k = n div 1461"
  have k: "0 \<le> k" "0 \<le> n - k * 1461" using assms by (auto simp: k_def minus_div_mult_eq_mod)
  obtain w r where yl: "year_loop (k * 4) (n - k * 1461) = (w, r)"
    by (cases "year_loop (k * 4) (n - k * 1461)")
  then have r: "0 \<le> r" "r < days_in_year w"
    using year_loop_correct [OF _ k(2) yl] k(1) by auto
  define l where "l = clock_isleapyear (w + 1970)"
  have "days_before l 0 = 0" "days_before l 12 = days_in_year w"
    by (auto simp: days_before_def clock_daysbeforemonth_def g_daysbeforemonth_def days_in_year_def l_def)
  then obtain m where m: "month_loop l r 0 11 = Some m" "0 \<le> m" "m \<le> 11"
    using month_loop_correct [of 0 11 l r] r by auto
  then show ?thesis
    using daysbeforemonth_eq [of m l] yl by (simp add: clock_utc2calendar_def Let_def flip: k_def l_def)
qed

lemma gmtime_r_total: "gmtime_r t \<noteq> None"
  using utc2calendar_total [of "uint t div 86400"]
  by (auto simp: gmtime_r_def Let_def div_int_pos_iff split: option.splits)

end
