(* ===== verification/Engine_Sms.thy ===== *)
theory Engine_Sms
  imports Lib_Time
begin

text \<open>
  The rate limit for text messages of the engine (\<open>can_send_sms\<close> of \<open>apps/ts_engine/engine/execute.c\<close>): a
  counter of the messages of the day and the time of the last one, kept in two backup registers of the
  real-time clock, so that they survive a reset. All comparisons are between unsigned 32-bit values, as
  the C conversions make them.
\<close>

section \<open>The limiter\<close>

record sms_limit =
  min_interval_minutes :: u32
  max_per_day :: u32

record rtc_values =
  sent_per_day_count :: u32
  last_sent_time :: u32

definition are_dates_on_same_day :: "tm \<Rightarrow> tm \<Rightarrow> bool" where
  "are_dates_on_same_day t1 t2 \<longleftrightarrow>
     tm_mday t1 = tm_mday t2 \<and> tm_mon t1 = tm_mon t2 \<and> tm_year t1 = tm_year t2"

definition can_send_sms :: "sms_limit \<Rightarrow> u32 \<Rightarrow> rtc_values \<Rightarrow> (bool \<times> rtc_values) option" where
  "can_send_sms lim current_time rtc =
     (let min_interval_secs = min_interval_minutes lim * 60 in
      if current_time - last_sent_time rtc \<ge> min_interval_secs then
        (case (gmtime_r current_time, gmtime_r (last_sent_time rtc)) of
           (Some current_tm, Some last_tm) \<Rightarrow>
             (let count = (if are_dates_on_same_day last_tm current_tm then sent_per_day_count rtc else 0)
              in if count < max_per_day lim
                 then Some (True, \<lparr>sent_per_day_count = count + 1, last_sent_time = current_time\<rparr>)
                 else Some (False, rtc))
         | _ \<Rightarrow> None)
      else Some (False, rtc))"

text \<open>A sequence of requests and the times of those that are granted.\<close>

fun sms_grants :: "sms_limit \<Rightarrow> u32 list \<Rightarrow> rtc_values \<Rightarrow> u32 list option" where
  "sms_grants lim [] rtc = Some []"
| "sms_grants lim (t # ts) rtc =
     (case can_send_sms lim t rtc of
        None \<Rightarrow> None
      | Some (granted, rtc') \<Rightarrow>
          map_option (\<lambda>gs. if granted then t # gs else gs) (sms_grants lim ts rtc'))"

section \<open>Days\<close>

definition day_of :: "u32 \<Rightarrow> int" where
  "day_of t = uint t div 86400"

definition calendar_ok :: "u32 \<Rightarrow> bool" where
  "calendar_ok t \<longleftrightarrow> day_of t < 48213"

lemma gmtime_r_day:
  assumes "calendar_ok t"
  obtains tm y m d where "gmtime_r t = Some tm" and "tm_mday tm = d" and "tm_mon tm = m - 1"
    and "tm_year tm = y - 1900" and "clock_utc2calendar (day_of t) = Some (y, m, d)"
    and "day_number y m d = day_of t"
proof -
  have lt: "day_of t < 48213" and ge: "0 \<le> day_of t"
    using assms by (simp_all add: calendar_ok_def day_of_def div_int_pos_iff)
  obtain y m d where u: "clock_utc2calendar (day_of t) = Some (y, m, d)" "day_number y m d = day_of t"
    by (rule utc2calendar_correct [OF ge lt])
  obtain tm where "gmtime_r t = Some tm" "tm_mday tm = d" "tm_mon tm = m - 1" "tm_year tm = y - 1900"
    using u(1) by (simp add: gmtime_r_def day_of_def Let_def)
  then show ?thesis using u by (rule that)
qed

lemma same_day_iff:
  assumes "calendar_ok s" and "calendar_ok t"
  obtains a b where "gmtime_r s = Some a" and "gmtime_r t = Some b"
    and "are_dates_on_same_day a b \<longleftrightarrow> day_of s = day_of t"
proof -
  obtain a y m d where a: "gmtime_r s = Some a" "tm_mday a = d" "tm_mon a = m - 1" "tm_year a = y - 1900"
    "clock_utc2calendar (day_of s) = Some (y, m, d)" "day_number y m d = day_of s"
    by (rule gmtime_r_day [OF assms(1)])
  obtain b y' m' d' where b: "gmtime_r t = Some b" "tm_mday b = d'" "tm_mon b = m' - 1" "tm_year b = y' - 1900"
    "clock_utc2calendar (day_of t) = Some (y', m', d')" "day_number y' m' d' = day_of t"
    by (rule gmtime_r_day [OF assms(2)])
  have "are_dates_on_same_day a b \<longleftrightarrow> day_of s = day_of t"
    using a b by (auto simp: are_dates_on_same_day_def)
  then show ?thesis using a(1) b(1) by (intro that)
qed

text \<open>What one request does, in terms of days.\<close>

lemma can_send_sms_days:
  assumes "calendar_ok t" and "calendar_ok (last_sent_time rtc)"
  shows "can_send_sms lim t rtc =
     (let count = (if day_of (last_sent_time rtc) = day_of t then sent_per_day_count rtc else 0)
      in if min_interval_minutes lim * 60 \<le> t - last_sent_time rtc \<and> count < max_per_day lim
         then Some (True, \<lparr>sent_per_day_count = count + 1, last_sent_time = t\<rparr>)
         else Some (False, rtc))"
proof -
  obtain a b where "gmtime_r (last_sent_time rtc) = Some a" and "gmtime_r t = Some b"
    and "are_dates_on_same_day a b \<longleftrightarrow> day_of (last_sent_time rtc) = day_of t"
    by (rule same_day_iff [OF assms(2,1)])
  then show ?thesis
    by (simp add: can_send_sms_def Let_def)
qed

section \<open>The limits\<close>

definition spent :: "int \<Rightarrow> rtc_values \<Rightarrow> nat" where
  "spent day rtc = (if day_of (last_sent_time rtc) = day then unat (sent_per_day_count rtc) else 0)"

lemma unat_count_Suc: "c < m \<Longrightarrow> unat (c + 1) = Suc (unat c)" for c m :: u32
proof -
  assume "c < m"
  then have "unat c < unat m" by (simp add: word_less_nat_alt)
  moreover have "unat m < 4294967296" using unsigned_less [of m] by simp
  ultimately show ?thesis by (simp add: unat_word_ariths)
qed

lemma day_of_mono: "s \<le> t \<Longrightarrow> day_of s \<le> day_of t"
  by (simp add: day_of_def word_le_def zdiv_mono1)

lemma sms_grants_subset: "sms_grants lim ts rtc = Some gs \<Longrightarrow> set gs \<subseteq> set ts"
  by (induction ts arbitrary: rtc gs) (fastforce split: option.splits if_splits)+

lemma sms_grants_bounded:
  assumes "sorted (map uint ts)" and "\<forall>t \<in> set ts. calendar_ok t" and "calendar_ok (last_sent_time rtc)"
    and "\<forall>t \<in> set ts. last_sent_time rtc \<le> t"
  shows "\<exists>gs. sms_grants lim ts rtc = Some gs \<and>
    length (filter (\<lambda>t. day_of t = day) gs) \<le> unat (max_per_day lim) - spent day rtc"
  using assms
proof (induction ts arbitrary: rtc)
  case (Cons t ts)
  let ?count = "if day_of (last_sent_time rtc) = day_of t then sent_per_day_count rtc else 0"
  have ok: "calendar_ok t" using Cons.prems(2) by simp
  have later: "\<forall>s \<in> set ts. t \<le> s"
    using Cons.prems(1) by (auto simp: word_le_def)
  show ?case
  proof (cases "min_interval_minutes lim * 60 \<le> t - last_sent_time rtc \<and> ?count < max_per_day lim")
    case True
    define rtc' where "rtc' = \<lparr>sent_per_day_count = ?count + 1, last_sent_time = t\<rparr>"
    have step: "can_send_sms lim t rtc = Some (True, rtc')"
      using can_send_sms_days [OF ok Cons.prems(3), of lim] True by (simp add: Let_def rtc'_def)
    obtain gs where gs: "sms_grants lim ts rtc' = Some gs"
      "length (filter (\<lambda>t. day_of t = day) gs) \<le> unat (max_per_day lim) - spent day rtc'"
      using Cons.IH [of rtc'] Cons.prems(1,2) ok later by (auto simp: rtc'_def)
    have count: "unat ?count < unat (max_per_day lim)" "unat (?count + 1) = Suc (unat ?count)"
      using True unat_count_Suc by (auto simp: word_less_nat_alt)
    have "length (filter (\<lambda>t. day_of t = day) (t # gs)) \<le> unat (max_per_day lim) - spent day rtc"
    proof (cases "day_of t = day")
      case True
      then show ?thesis
        using gs(2) count by (simp add: spent_def rtc'_def split: if_splits)
    next
      case False
      show ?thesis
      proof (cases "day_of (last_sent_time rtc) = day")
        case True
        have "day_of s \<noteq> day" if "s \<in> set gs" for s
        proof -
          have "t \<le> s" using that sms_grants_subset [OF gs(1)] later by blast
          then have "day_of t \<le> day_of s" by (rule day_of_mono)
          moreover have "day_of (last_sent_time rtc) \<le> day_of t"
            using Cons.prems(4) by (intro day_of_mono) simp
          ultimately show ?thesis using True False by simp
        qed
        then show ?thesis using False by (simp add: filter_empty_conv)
      next
        case other: False
        then show ?thesis using gs(2) False by (simp add: spent_def)
      qed
    qed
    then show ?thesis using gs(1) step by simp
  next
    case False
    then have "can_send_sms lim t rtc = Some (False, rtc)"
      using can_send_sms_days [OF ok Cons.prems(3), of lim] by (auto simp: Let_def)
    then show ?thesis
      using Cons.IH [of rtc] Cons.prems by simp
  qed
qed (simp)

text \<open>Messages are at least the minimum interval apart, if it fits the register.\<close>

lemma sms_grants_apart:
  assumes "sorted (map uint ts)" and "\<forall>t \<in> set ts. calendar_ok t" and "calendar_ok (last_sent_time rtc)"
    and "\<forall>t \<in> set ts. last_sent_time rtc \<le> t" and "sms_grants lim ts rtc = Some gs"
  shows "sorted_wrt (\<lambda>s t. uint s + uint (min_interval_minutes lim * 60) \<le> uint t) (last_sent_time rtc # gs)"
  using assms
proof (induction ts arbitrary: rtc gs)
  case (Cons t ts)
  let ?gap = "min_interval_minutes lim * 60"
  have ok: "calendar_ok t" and le: "last_sent_time rtc \<le> t"
    using Cons.prems(2,4) by simp_all
  have later: "\<forall>s \<in> set ts. t \<le> s"
    using Cons.prems(1) by (auto simp: word_le_def)
  obtain granted rtc' gs' where step: "can_send_sms lim t rtc = Some (granted, rtc')"
    and gs': "sms_grants lim ts rtc' = Some gs'" and gs: "gs = (if granted then t # gs' else gs')"
    using Cons.prems(5) by (auto split: option.splits)
  show ?case
  proof (cases granted)
    case True
    then have rtc': "last_sent_time rtc' = t" and gap: "?gap \<le> t - last_sent_time rtc"
      using step can_send_sms_days [OF ok Cons.prems(3), of lim]
      by (auto simp: Let_def split: if_splits)
    have "uint (t - last_sent_time rtc) = (uint t - uint (last_sent_time rtc)) mod 4294967296"
      by (simp add: uint_word_ariths)
    also have "\<dots> = uint t - uint (last_sent_time rtc)"
    proof (rule mod_pos_pos_trivial)
      show "0 \<le> uint t - uint (last_sent_time rtc)"
        using le by (simp add: word_le_def)
      have "uint t < 4294967296"
        using uint_lt2p [of t] by simp
      then show "uint t - uint (last_sent_time rtc) < 4294967296"
        using uint_ge_0 [of "last_sent_time rtc"] by linarith
    qed
    finally have "uint (t - last_sent_time rtc) = uint t - uint (last_sent_time rtc)" .
    then have "uint (last_sent_time rtc) + uint ?gap \<le> uint t"
      using gap by (simp add: word_le_def)
    moreover have "sorted_wrt (\<lambda>s t. uint s + uint ?gap \<le> uint t) (t # gs')"
      using Cons.IH [OF _ _ _ _ gs'] Cons.prems(1,2) ok later by (simp add: rtc')
    moreover have "uint t \<le> uint x" if "x \<in> set gs'" for x
      using that sms_grants_subset [OF gs'] later by (auto simp: word_le_def)
    ultimately show ?thesis
      using True by (force simp: gs)
  next
    case False
    then have "rtc' = rtc"
      using step can_send_sms_days [OF ok Cons.prems(3), of lim]
      by (auto simp: Let_def split: if_splits)
    then show ?thesis
      using Cons.IH [OF _ _ _ _ gs'] Cons.prems(1-4) False by (simp add: gs)
  qed
qed simp

end
