(* ===== verification/Engine_State.thy ===== *)
theory Engine_State
  imports Ts_Core Engine_Threshold Engine_Sms "HOL-Library.Monad_Syntax"
begin

text \<open>
  The data of the Thingsee engine (\<open>apps/ts_engine/engine/parse.h\<close>, \<open>sense.h\<close>) and the operations on one
  cause: starting its measurement, restarting and stopping it (\<open>init_cause\<close>, \<open>reinit_cause\<close>, \<open>uninit_cause\<close>
  of \<open>execute.c\<close> and the functions of \<open>sense.c\<close> they call).

  A profile is a tree: purposes have states, states have events, events have causes. The parser makes it and
  nothing changes its configuration while the engine runs, so \<open>profile\<close> is a value: pointers are numbers,
  the four tables give the structure a pointer points to, a \<open>conf\<close> queue is the list of its entries. What
  changes is in the record \<open>engine\<close>: the \<open>dyn\<close> part of causes, events and states, the links of the
  \<open>active_entry\<close> fields (the store of \<open>Sq_Queue\<close>), the event loop with its timers and descriptors, the
  backup registers, and \<open>trace\<close>, the list of what the engine did to the outside, which no operation reads.

  The operations of a sensor (\<open>struct ts_sense_info\<close>) are code behind function pointers. Their results come
  from the environment: a return code, the descriptor stored in the cause, a date timer set up for the
  cause, and operations on the descriptors of the event loop.
\<close>

section \<open>Profiles\<close>

type_synonym cause_p = nat
type_synonym event_p = nat
type_synonym state_p = nat
type_synonym purpose_p = nat

record ts_sense_info =
  si_min :: ts_value
  has_irq_init :: bool
  has_irq_uninit :: bool
  has_active_init :: bool
  has_active_uninit :: bool
  has_active_read :: bool

record cause_conf =
  c_parent :: event_p
  sId :: u32
  orderId :: int
  senseLog :: bool
  measurement_log :: bool
  measurement_interval :: int
  measurement_count :: int
  measurement_send :: bool
  threshold_count :: int
  threshold_negate :: bool
  threshold_relative :: bool
  thresholds :: "ts_threshold list"
  sense_info :: ts_sense_info

record event_conf =
  e_parent :: state_p
  evId :: int
  eventLog :: bool
  sendEvent :: bool
  sendLog :: bool
  sendPush :: bool
  url_host :: "bytes option"
  gotoStId :: int
  gotoPuId :: int
  showText :: "bytes option"
  sms_text :: "bytes option"
  phoneNumber :: "bytes option"
  causes :: "cause_p list"

record state_conf =
  s_parent :: purpose_p
  stId :: int
  isGlobal :: bool
  state_events :: "event_p list"

record purpose_conf =
  puId :: int
  initStId :: int
  states :: "state_p list"

record profile =
  initPuId :: int
  purposes :: "purpose_p list"
  purpose_at :: "purpose_p \<Rightarrow> purpose_conf"
  state_at :: "state_p \<Rightarrow> state_conf"
  event_at :: "event_p \<Rightarrow> event_conf"
  cause_at :: "cause_p \<Rightarrow> cause_conf"

section \<open>The running engine\<close>

record cause_dyn =
  timer_id :: int
  cause_time :: timespec
  cause_fd :: int
  triggered :: bool
  measure_bias :: bool
  measurement_counter :: int
  threshold_counter :: int
  sense_value :: "ts_value option"
  bias_value :: "ts_value option"

datatype ts_engine_state = ENGINE_STOPPED | ENGINE_RUNNING | ENGINE_PAUSED

record payload =
  pl_puId :: int
  pl_stId :: int
  pl_evId :: int
  senses :: "(u32 \<times> ts_value option) list"

datatype sense_op = ActiveInit | ActiveUninit | IrqInit | IrqUninit

datatype action =
  SenseOp sense_op cause_p
| CloseFd int
| SendCause payload
| LogCause payload
| SendEvent payload "bytes option"
| LogEvent payload
| SendLog "bytes option"
| ShowText bytes
| SendSms bytes bytes
| SendPing

record engine =
  current_purpose :: "purpose_p option"
  current_state :: "state_p option"
  global_states :: "state_p list"
  engine_state :: ts_engine_state
  engine_sms_limit :: sms_limit
  dyn :: "cause_p \<Rightarrow> cause_dyn"
  expected_order_id :: "event_p \<Rightarrow> int"
  active_causes :: "state_p \<Rightarrow> cause_p sq_queue"
  active_entry :: "cause_p links"
  core :: ts_core_s
  rtc :: rtc_values
  asked :: nat
  trace :: "action list"

text \<open>The environment, indexed by the number of questions asked before.\<close>

record sense_effect =
  se_ret :: int
  se_fd :: "int option"
  se_date :: "timespec option"
  se_ops :: "api_op list"

record engine_env =
  evloop :: env
  sense_effect_of :: "nat \<Rightarrow> sense_op \<Rightarrow> cause_p \<Rightarrow> sense_effect"
  malloc_ok :: "nat \<Rightarrow> bool"
  global_alloc_ok :: "nat \<Rightarrow> bool"
  connector_ok :: "nat \<Rightarrow> bool"
  have_logs :: "nat \<Rightarrow> bool"
  wall_clock :: "nat \<Rightarrow> u32"

abbreviation (input) OK :: int where "OK \<equiv> 0"
abbreviation (input) ERROR :: int where "ERROR \<equiv> - 1"
abbreviation (input) TS_ENGINE_ERROR_OOM :: int where "TS_ENGINE_ERROR_OOM \<equiv> 3"
abbreviation (input) TS_ENGINE_ERROR_NOT_RUNNING :: int where "TS_ENGINE_ERROR_NOT_RUNNING \<equiv> 9"
abbreviation (input) TS_ENGINE_ERROR_NOT_PAUSED :: int where "TS_ENGINE_ERROR_NOT_PAUSED \<equiv> 11"
abbreviation (input) TS_ENGINE_ERROR_SYSTEM :: int where "TS_ENGINE_ERROR_SYSTEM \<equiv> 12"
abbreviation (input) FIRST_ORDER_ID :: int where "FIRST_ORDER_ID \<equiv> 1"
abbreviation (input) DEEP_SLEEP_RATE_LIMIT :: int where "DEEP_SLEEP_RATE_LIMIT \<equiv> 1000"

text \<open>Three callbacks that the engine registers with the event loop, as the numbers of their addresses.\<close>

abbreviation (input) cause_timer_callback :: nat where "cause_timer_callback \<equiv> 1"
abbreviation (input) cause_timer_callback_date :: nat where "cause_timer_callback_date \<equiv> 2"
abbreviation (input) timer_callback_date :: nat where "timer_callback_date \<equiv> 3"

type_synonym 'a eng = "engine \<Rightarrow> ('a \<times> engine) option"

definition state_of :: "profile \<Rightarrow> cause_p \<Rightarrow> state_p" where
  "state_of P c = e_parent (event_at P (c_parent (cause_at P c)))"

definition upd_dyn :: "cause_p \<Rightarrow> (cause_dyn \<Rightarrow> cause_dyn) \<Rightarrow> engine \<Rightarrow> engine" where
  "upd_dyn c f w = w\<lparr>dyn := (dyn w)(c := f (dyn w c))\<rparr>"

definition emit :: "action \<Rightarrow> engine \<Rightarrow> engine" where
  "emit a w = w\<lparr>trace := trace w @ [a]\<rparr>"

definition ask :: "(nat \<Rightarrow> 'a) \<Rightarrow> engine \<Rightarrow> 'a \<times> engine" where
  "ask f w = (f (asked w), w\<lparr>asked := Suc (asked w)\<rparr>)"

section \<open>Timers of causes\<close>

text \<open>The interface of the event loop with the identifier it returns; -1 is an error.\<close>

definition loop_timer_setup :: "env \<Rightarrow> u32 \<Rightarrow> nat \<Rightarrow> nat \<Rightarrow> ts_core_s \<Rightarrow> (int \<times> ts_core_s) option" where
  "loop_timer_setup e ms cb priv c =
     (case ts_core_timer_setup TS_TIMER_TYPE_INTERVAL ms (Some cb) priv (clk e (ticks c))
             (calloc e (tmem (tq c))) (arena e) (tq c) of
        None \<Rightarrow> None
      | Some (Inl _, q) \<Rightarrow> Some (- 1, c\<lparr>tq := q\<rparr>)
      | Some (Inr tid, q) \<Rightarrow> Some (tid, c\<lparr>tq := q, ticks := Suc (ticks c)\<rparr>))"

definition loop_timer_setup_date :: "env \<Rightarrow> timespec \<Rightarrow> nat \<Rightarrow> nat \<Rightarrow> ts_core_s \<Rightarrow> (int \<times> ts_core_s) option" where
  "loop_timer_setup_date e date cb priv c =
     (case ts_core_timer_setup_date date (Some cb) priv date (calloc e (tmem (tq c))) (arena e) (tq c) of
        None \<Rightarrow> None
      | Some (Inl _, q) \<Rightarrow> Some (- 1, c\<lparr>tq := q\<rparr>)
      | Some (Inr tid, q) \<Rightarrow> Some (tid, c\<lparr>tq := q\<rparr>))"

definition cause_timer_in_past :: "timespec \<Rightarrow> timespec \<Rightarrow> bool" where
  "cause_timer_in_past time currts \<longleftrightarrow>
     (if tv_sec time = tv_sec currts then sint (tv_nsec time) < sint (tv_nsec currts)
      else tv_sec time < tv_sec currts)"

text \<open>One round of the loop of \<open>start_cause_timer\<close>, and the loop, which skips the dates that have passed.\<close>

definition next_date :: "int \<Rightarrow> timespec \<Rightarrow> timespec" where
  "next_date interval t =
     (let (s, n) = carry_up (tv_sec t + word_of_int (interval div 1000))
                     (tv_nsec t + word_of_int (interval mod 1000 * 1000 * 1000))
      in \<lparr>tv_sec = s, tv_nsec = n\<rparr>)"

partial_function (option) advance_date :: "int \<Rightarrow> timespec \<Rightarrow> timespec \<Rightarrow> timespec option" where
  "advance_date interval currts t =
     (let t = next_date interval t
      in if cause_timer_in_past t currts then advance_date interval currts t else Some t)"

definition start_cause_timer :: "profile \<Rightarrow> engine_env \<Rightarrow> cause_p \<Rightarrow> int eng" where
  "start_cause_timer P e c w =
     (let interval = measurement_interval (cause_at P c) in
      if interval < DEEP_SLEEP_RATE_LIMIT then
        do {
          (tid, cr) \<leftarrow> loop_timer_setup (evloop e) (word_of_int interval) cause_timer_callback c (core w);
          let w = upd_dyn c (timer_id_update (\<lambda>_. tid)) (w\<lparr>core := cr\<rparr>);
          Some (if tid < 0 then - TS_ENGINE_ERROR_SYSTEM else OK, w)
        }
      else
        do {
          let (currts, cr) = clock_gettime (evloop e) (core w);
          date \<leftarrow> advance_date interval currts (cause_time (dyn w c));
          let w = upd_dyn c (cause_time_update (\<lambda>_. date)) w;
          (tid, cr) \<leftarrow> loop_timer_setup_date (evloop e) date cause_timer_callback_date c cr;
          let w = upd_dyn c (timer_id_update (\<lambda>_. tid)) (w\<lparr>core := cr\<rparr>);
          Some (if tid < 0 then - TS_ENGINE_ERROR_SYSTEM else OK, w)
        })"

text \<open>The \<open>ts_core_timer_stop\<close> macro asserts that the identifier is positive.\<close>

definition stop_cause_timer :: "engine_env \<Rightarrow> cause_p \<Rightarrow> engine \<Rightarrow> engine option" where
  "stop_cause_timer e c w =
     do {
       cr \<leftarrow> apply_op (evloop e) (Op_timer_stop (timer_id (dyn w c))) (core w);
       Some (upd_dyn c (timer_id_update (\<lambda>_. - 1)) (w\<lparr>core := cr\<rparr>))
     }"

section \<open>Sensor operations\<close>

definition sense_call :: "engine_env \<Rightarrow> sense_op \<Rightarrow> cause_p \<Rightarrow> int eng" where
  "sense_call e sop c w =
     (let (eff, w) = ask (\<lambda>n. sense_effect_of e n sop c) (emit (SenseOp sop c) w)
      in do {
        cr \<leftarrow> run_steps (apply_op (evloop e)) (se_ops eff) (core w);
        let w = w\<lparr>core := cr\<rparr>;
        let w = (case se_fd eff of None \<Rightarrow> w | Some f \<Rightarrow> upd_dyn c (cause_fd_update (\<lambda>_. f)) w);
        case se_date eff of
          None \<Rightarrow> Some (se_ret eff, w)
        | Some date \<Rightarrow>
            do {
              (tid, cr) \<leftarrow> loop_timer_setup_date (evloop e) date timer_callback_date c (core w);
              let w = upd_dyn c (timer_id_update (\<lambda>_. tid)) (w\<lparr>core := cr\<rparr>);
              Some (if tid < 0 then ERROR else se_ret eff, w)
            }
      })"

text \<open>Setting the type tag of a value of another type leaves no determined value until the next sample.\<close>

fun same_type :: "ts_value \<Rightarrow> ts_value \<Rightarrow> bool" where
  "same_type (VDouble _) (VDouble _) = True"
| "same_type (VUint16 _) (VUint16 _) = True"
| "same_type (VUint32 _) (VUint32 _) = True"
| "same_type (VInt16 _) (VInt16 _) = True"
| "same_type (VInt32 _) (VInt32 _) = True"
| "same_type (VString _) (VString _) = True"
| "same_type (VArray _) (VArray _) = True"
| "same_type (VBool _) (VBool _) = True"
| "same_type _ _ = False"

definition set_valuetype :: "ts_value \<Rightarrow> ts_value option \<Rightarrow> ts_value option" where
  "set_valuetype m v = (case v of None \<Rightarrow> None | Some u \<Rightarrow> if same_type m u then v else None)"

definition engine_cause_request_value :: "profile \<Rightarrow> engine_env \<Rightarrow> cause_p \<Rightarrow> int eng" where
  "engine_cause_request_value P e c w =
     (let info = sense_info (cause_at P c);
          w = upd_dyn c (sense_value_update (set_valuetype (si_min info))) w
      in if 0 < measurement_interval (cause_at P c) \<and> has_active_read info then
           do {
             (_, w) \<leftarrow> (if has_active_init info then sense_call e ActiveInit c w else Some (OK, w));
             let (now, cr) = clock_gettime (evloop e) (core w);
             start_cause_timer P e c (upd_dyn c (cause_time_update (\<lambda>_. now)) (w\<lparr>core := cr\<rparr>))
           }
         else if \<not> has_irq_init info then Some (ERROR, w)
         else sense_call e IrqInit c w)"

section \<open>Causes\<close>

definition is_active_relative_cause :: "cause_conf \<Rightarrow> bool" where
  "is_active_relative_cause cf \<longleftrightarrow> measurement_interval cf \<noteq> - 1 \<and> threshold_relative cf"

definition active_queue :: "profile \<Rightarrow> cause_p \<Rightarrow> engine \<Rightarrow> cause_p sq_state" where
  "active_queue P c w = (active_causes w (state_of P c), active_entry w)"

definition set_active_queue :: "profile \<Rightarrow> cause_p \<Rightarrow> cause_p sq_state \<Rightarrow> engine \<Rightarrow> engine" where
  "set_active_queue P c s w =
     w\<lparr>active_causes := (active_causes w)(state_of P c := fst s), active_entry := snd s\<rparr>"

definition fresh_dyn :: "cause_conf \<Rightarrow> cause_dyn \<Rightarrow> cause_dyn" where
  "fresh_dyn cf d =
     d\<lparr>timer_id := - 1, cause_fd := - 1, triggered := False, threshold_counter := threshold_count cf,
       measurement_counter := (if measurement_count cf = 0 then - 1 else measurement_count cf),
       measure_bias := is_active_relative_cause cf\<rparr>"

definition init_cause :: "profile \<Rightarrow> engine_env \<Rightarrow> cause_p \<Rightarrow> int eng" where
  "init_cause P e c w =
     (if 0 \<le> timer_id (dyn w c) \<or> 0 \<le> cause_fd (dyn w c) then None
      else do {
        let w = upd_dyn c (fresh_dyn (cause_at P c)) w;
        s \<leftarrow> sq_addlast c (active_queue P c w);
        engine_cause_request_value P e c (set_active_queue P c s w)
      })"

definition reinit_cause :: "profile \<Rightarrow> engine_env \<Rightarrow> cause_p \<Rightarrow> int eng" where
  "reinit_cause P e c w =
     (if measurement_counter (dyn w c) = 0 then init_cause P e c w
      else Some (OK, upd_dyn c (\<lambda>d. d\<lparr>triggered := False, threshold_counter := threshold_count (cause_at P c)\<rparr>) w))"

definition uninit_fd :: "engine_env \<Rightarrow> cause_p \<Rightarrow> engine \<Rightarrow> engine option" where
  "uninit_fd e c w =
     (let f = cause_fd (dyn w c) in
      do {
        cr \<leftarrow> apply_op (evloop e) (Op_fd_unregister f) (core w);
        Some (upd_dyn c (cause_fd_update (\<lambda>_. - 1)) (emit (CloseFd f) (w\<lparr>core := cr\<rparr>)))
      })"

definition sense_uninit :: "profile \<Rightarrow> engine_env \<Rightarrow> cause_p \<Rightarrow> int eng" where
  "sense_uninit P e c w =
     (let info = sense_info (cause_at P c) in
      if 0 < measurement_interval (cause_at P c) \<and> has_active_read info
      then (if has_active_uninit info then sense_call e ActiveUninit c w else Some (OK, w))
      else (if has_irq_uninit info then sense_call e IrqUninit c w else Some (OK, w)))"

definition uninit_cause :: "profile \<Rightarrow> engine_env \<Rightarrow> cause_p \<Rightarrow> int eng" where
  "uninit_cause P e c w =
     do {
       s \<leftarrow> sq_rem (Some c) (active_queue P c w);
       let w = set_active_queue P c s w;
       w \<leftarrow> (if 0 \<le> timer_id (dyn w c) then stop_cause_timer e c w else Some w);
       w \<leftarrow> (if 0 \<le> cause_fd (dyn w c) then uninit_fd e c w else Some w);
       (_, w) \<leftarrow> sense_uninit P e c w;
       Some (OK, upd_dyn c (sense_value_update (map_option free_valuearray)) w)
     }"

end
