(* ===== verification/Engine_Execute.thy ===== *)
theory Engine_Execute
  imports Engine_State
begin

text \<open>
  The state machine of the Thingsee engine (\<open>apps/ts_engine/engine/execute.c\<close>): starting and stopping the
  causes of an event and of a state, global states, the change of state and purpose, the evaluation of a
  sample (thresholds, counters, ordered causes), the actions of an event, and the interface of the profile:
  start, stop and continue. An integer result is the return code of the C function.
\<close>

section \<open>Events and states\<close>

text \<open>The loops over a queue of the configuration, which stop at the first negative result.\<close>

fun each :: "(nat \<Rightarrow> int eng) \<Rightarrow> nat list \<Rightarrow> int eng" where
  "each f [] w = Some (OK, w)"
| "each f (c # cs) w =
     do {
       (ret, w) \<leftarrow> f c w;
       if ret < 0 then Some (ret, w) else each f cs w
     }"

definition init_event :: "profile \<Rightarrow> (cause_p \<Rightarrow> int eng) \<Rightarrow> event_p \<Rightarrow> int eng" where
  "init_event P cause_init ev w =
     do {
       (ret, w) \<leftarrow> each cause_init (causes (event_at P ev)) w;
       if ret < 0 then Some (ERROR, w)
       else Some (OK, w\<lparr>expected_order_id := (expected_order_id w)(ev := FIRST_ORDER_ID)\<rparr>)
     }"

definition init_state :: "profile \<Rightarrow> (cause_p \<Rightarrow> int eng) \<Rightarrow> state_p \<Rightarrow> int eng" where
  "init_state P cause_init st w =
     each (init_event P cause_init) (state_events (state_at P st))
       (w\<lparr>active_causes := (active_causes w)(st := sq_init)\<rparr>)"

section \<open>Global states, purposes and profiles\<close>

definition find_state_by_id :: "profile \<Rightarrow> purpose_p \<Rightarrow> int \<Rightarrow> state_p option" where
  "find_state_by_id P pu state_id =
     (let state_id = (if state_id = - 1 then initStId (purpose_at P pu) else state_id)
      in find (\<lambda>st. stId (state_at P st) = state_id) (states (purpose_at P pu)))"

definition find_purpose_by_id :: "profile \<Rightarrow> int \<Rightarrow> purpose_p option" where
  "find_purpose_by_id P purpose_id =
     (let purpose_id = (if purpose_id = - 1 then initPuId P else purpose_id)
      in find (\<lambda>pu. puId (purpose_at P pu) = purpose_id) (purposes P))"

definition add_global_state :: "profile \<Rightarrow> engine_env \<Rightarrow> state_p \<Rightarrow> int eng" where
  "add_global_state P e st w =
     (let (ok, w) = ask (global_alloc_ok e) w
      in if \<not> ok then Some (- TS_ENGINE_ERROR_OOM, w)
         else init_state P (init_cause P e) st (w\<lparr>global_states := global_states w @ [st]\<rparr>))"

definition init_global_states :: "profile \<Rightarrow> engine_env \<Rightarrow> purpose_p \<Rightarrow> int eng" where
  "init_global_states P e pu =
     each (\<lambda>st w. if isGlobal (state_at P st) then add_global_state P e st w else Some (OK, w))
       (states (purpose_at P pu))"

text \<open>The result of each \<open>init_state\<close> is ignored.\<close>

fun uninit_each :: "profile \<Rightarrow> engine_env \<Rightarrow> state_p list \<Rightarrow> engine \<Rightarrow> engine option" where
  "uninit_each P e [] w = Some w"
| "uninit_each P e (st # sts) w =
     do {
       w \<leftarrow> (if isGlobal (state_at P st)
             then map_option snd (init_state P (uninit_cause P e) st w) else Some w);
       uninit_each P e sts w
     }"

definition uninit_global_states :: "profile \<Rightarrow> engine_env \<Rightarrow> engine \<Rightarrow> engine option" where
  "uninit_global_states P e w =
     map_option (\<lambda>w. w\<lparr>global_states := []\<rparr>) (uninit_each P e (global_states w) w)"

definition init_purpose :: "profile \<Rightarrow> engine_env \<Rightarrow> purpose_p \<Rightarrow> int \<Rightarrow> int eng" where
  "init_purpose P e pu state_id w =
     (case find_state_by_id P pu state_id of
        None \<Rightarrow> Some (ERROR, w)
      | Some st \<Rightarrow>
          if current_state w = Some st then Some (OK, w)
          else
            do {
              (ret, w) \<leftarrow> (case current_state w of
                             None \<Rightarrow> Some (OK, w)
                           | Some old \<Rightarrow> init_state P (uninit_cause P e) old w);
              if ret < 0 then Some (ERROR, w)
              else do {
                (ret, w) \<leftarrow> init_state P (init_cause P e) st w;
                if ret < 0 then Some (ERROR, w) else Some (OK, w\<lparr>current_state := Some st\<rparr>)
              }
            })"

text \<open>The result of the ping is only reported.\<close>

definition init_profile :: "profile \<Rightarrow> engine_env \<Rightarrow> int \<Rightarrow> int \<Rightarrow> int eng" where
  "init_profile P e purpose_id state_id w =
     (case find_purpose_by_id P purpose_id of
        None \<Rightarrow> Some (ERROR, w)
      | Some pu \<Rightarrow>
          do {
            (ret, w) \<leftarrow> init_purpose P e pu state_id w;
            if ret < 0 then Some (ERROR, w)
            else if current_purpose w = Some pu then Some (OK, w)
            else do {
              w \<leftarrow> uninit_global_states P e w;
              (ret, w) \<leftarrow> init_global_states P e pu w;
              if ret < 0 then Some (ERROR, w)
              else Some (OK, emit SendPing w\<lparr>current_purpose := Some pu\<rparr>)
            }
          })"

section \<open>Thresholds of a cause\<close>

fun check_all :: "bool \<Rightarrow> bias \<Rightarrow> ts_threshold list \<Rightarrow> ts_value \<Rightarrow> bool \<Rightarrow> (bool \<times> ts_value) option" where
  "check_all alloc b [] v ret = Some (ret, v)"
| "check_all alloc b (thr # thrs) v ret =
     do {
       (r, v) \<leftarrow> check_threshold alloc b thr v;
       check_all alloc b thrs v (r \<and> ret)
     }"

text \<open>A missing bias of a relative cause is a read of a value that was never measured.\<close>

definition bias_of :: "cause_conf \<Rightarrow> cause_dyn \<Rightarrow> bias option" where
  "bias_of cf d =
     (if is_active_relative_cause cf
      then map_option (\<lambda>v. \<lparr>relative_active = True, sense_bias = v\<rparr>) (bias_value d)
      else Some \<lparr>relative_active = False, sense_bias = VBool False\<rparr>)"

definition check_order :: "profile \<Rightarrow> engine_env \<Rightarrow> cause_p \<Rightarrow> bool eng" where
  "check_order P e c w =
     (let cf = cause_at P c; ev = c_parent cf in
      if orderId cf = 0 then Some (True, w)
      else if orderId cf \<noteq> expected_order_id w ev
      then map_option (\<lambda>(_, w). (False, w)) (init_event P (reinit_cause P e) ev w)
      else Some (True, w\<lparr>expected_order_id := (expected_order_id w)(ev := expected_order_id w ev + 1)\<rparr>))"

definition not_in_limits :: "profile \<Rightarrow> engine_env \<Rightarrow> cause_p \<Rightarrow> bool eng" where
  "not_in_limits P e c w =
     (let cf = cause_at P c in
      if orderId cf \<noteq> 0
      then map_option (\<lambda>(_, w). (False, w)) (init_event P (reinit_cause P e) (c_parent cf) w)
      else Some (False, upd_dyn c (threshold_counter_update (\<lambda>_. threshold_count cf)) w))"

definition in_limits :: "profile \<Rightarrow> engine_env \<Rightarrow> cause_p \<Rightarrow> bool eng" where
  "in_limits P e c w =
     (if 0 < threshold_counter (dyn w c)
      then (let w = upd_dyn c (threshold_counter_update (\<lambda>n. n - 1)) w
            in if 0 < threshold_counter (dyn w c) then Some (False, w) else check_order P e c w)
      else check_order P e c w)"

definition check_thresholds :: "profile \<Rightarrow> engine_env \<Rightarrow> cause_p \<Rightarrow> bool eng" where
  "check_thresholds P e c w =
     (let cf = cause_at P c; d = dyn w c in
      if measure_bias d
      then Some (False, upd_dyn c (\<lambda>d. d\<lparr>bias_value := sense_value d, measure_bias := False\<rparr>) w)
      else if 0 < measurement_counter d
      then (let w = upd_dyn c (measurement_counter_update (\<lambda>n. n - 1)) w
            in if measurement_counter (dyn w c) = 0
               then map_option (\<lambda>(_, w). (True, w)) (uninit_cause P e c w)
               else Some (False, w))
      else if thresholds cf = [] then Some (False, w)
      else
        do {
          v \<leftarrow> sense_value d;
          b \<leftarrow> bias_of cf d;
          let (ok, w) = ask (malloc_ok e) w;
          (r, v) \<leftarrow> check_all ok b (thresholds cf) v True;
          let w = upd_dyn c (sense_value_update (\<lambda>_. Some v)) w;
          if r \<noteq> threshold_negate cf then in_limits P e c w else not_in_limits P e c w
        })"

definition all_causes_triggered :: "profile \<Rightarrow> event_p \<Rightarrow> engine \<Rightarrow> bool" where
  "all_causes_triggered P ev w = list_all (\<lambda>c. triggered (dyn w c)) (causes (event_at P ev))"

section \<open>Payloads and actions\<close>

definition sense_of :: "profile \<Rightarrow> engine \<Rightarrow> cause_p \<Rightarrow> u32 \<times> ts_value option" where
  "sense_of P w c = (sId (cause_at P c), sense_value (dyn w c))"

definition generate_event_payload :: "profile \<Rightarrow> engine_env \<Rightarrow> event_p \<Rightarrow> engine \<Rightarrow> payload option \<times> engine" where
  "generate_event_payload P e ev w =
     (let st = e_parent (event_at P ev);
          pl = \<lparr>pl_puId = puId (purpose_at P (s_parent (state_at P st))), pl_stId = stId (state_at P st),
                pl_evId = evId (event_at P ev), senses = map (sense_of P w) (causes (event_at P ev))\<rparr>;
          (ok, w) = ask (malloc_ok e) w
      in (if ok then Some pl else None, w))"

definition generate_cause_payload :: "profile \<Rightarrow> engine_env \<Rightarrow> cause_p \<Rightarrow> engine \<Rightarrow> payload option \<times> engine" where
  "generate_cause_payload P e c w =
     (let st = state_of P c;
          pl = \<lparr>pl_puId = puId (purpose_at P (s_parent (state_at P st))), pl_stId = stId (state_at P st),
                pl_evId = - 1, senses = [sense_of P w c]\<rparr>;
          (ok, w) = ask (malloc_ok e) w
      in (if ok then Some pl else None, w))"

definition log_event :: "profile \<Rightarrow> engine_env \<Rightarrow> event_p \<Rightarrow> engine \<Rightarrow> engine" where
  "log_event P e ev w =
     (case generate_event_payload P e ev w of (None, w) \<Rightarrow> w | (Some pl, w) \<Rightarrow> emit (LogEvent pl) w)"

definition log_cause :: "profile \<Rightarrow> engine_env \<Rightarrow> cause_p \<Rightarrow> engine \<Rightarrow> engine" where
  "log_cause P e c w =
     (case generate_cause_payload P e c w of (None, w) \<Rightarrow> w | (Some pl, w) \<Rightarrow> emit (LogCause pl) w)"

text \<open>A payload that the connector does not accept is logged.\<close>

definition send_event :: "profile \<Rightarrow> engine_env \<Rightarrow> event_p \<Rightarrow> engine \<Rightarrow> engine" where
  "send_event P e ev w =
     (case generate_event_payload P e ev w of
        (None, w) \<Rightarrow> w
      | (Some pl, w) \<Rightarrow>
          (let (ok, w) = ask (connector_ok e) w
           in emit (if ok then SendEvent pl (url_host (event_at P ev)) else LogEvent pl) w))"

definition send_cause :: "profile \<Rightarrow> engine_env \<Rightarrow> cause_p \<Rightarrow> engine \<Rightarrow> engine" where
  "send_cause P e c w =
     (case generate_cause_payload P e c w of
        (None, w) \<Rightarrow> w
      | (Some pl, w) \<Rightarrow>
          (let (ok, w) = ask (connector_ok e) w in emit (if ok then SendCause pl else LogCause pl) w))"

definition send_log :: "engine_env \<Rightarrow> bytes option \<Rightarrow> engine \<Rightarrow> engine" where
  "send_log e url w = (let (any, w) = ask (have_logs e) w in if any then emit (SendLog url) w else w)"

definition send_sms :: "engine_env \<Rightarrow> bytes \<Rightarrow> bytes \<Rightarrow> engine \<Rightarrow> engine option" where
  "send_sms e phone text w =
     (let (now, w) = ask (wall_clock e) w
      in do {
        (granted, r) \<leftarrow> can_send_sms (engine_sms_limit w) now (rtc w);
        let w = w\<lparr>rtc := r\<rparr>;
        Some (if granted then emit (SendSms phone text) w else w)
      })"

definition do_event_actions :: "profile \<Rightarrow> engine_env \<Rightarrow> event_p \<Rightarrow> engine \<Rightarrow> engine option" where
  "do_event_actions P e ev w =
     (let cf = event_at P ev;
          w = (if eventLog cf \<and> \<not> sendEvent cf \<and> \<not> sendPush cf then log_event P e ev w else w);
          w = (if sendEvent cf \<or> sendPush cf then send_event P e ev w else w);
          w = (if sendLog cf then send_log e (url_host cf) w else w);
          w = (case showText cf of None \<Rightarrow> w | Some t \<Rightarrow> emit (ShowText t) w)
      in case (phoneNumber cf, sms_text cf) of
           (Some phone, Some text) \<Rightarrow> send_sms e phone text w
         | _ \<Rightarrow> Some w)"

section \<open>Samples\<close>

text \<open>The part of \<open>handle_cause_event\<close> after the sample has triggered its cause.\<close>

definition fire_event :: "profile \<Rightarrow> engine_env \<Rightarrow> event_p \<Rightarrow> bool eng" where
  "fire_event P e ev w =
     do {
       w \<leftarrow> do_event_actions P e ev w;
       let cf = event_at P ev;
       purpose_changing \<leftarrow> (if gotoPuId cf = - 1 then Some False
          else map_option (\<lambda>pu. puId (purpose_at P pu) \<noteq> gotoPuId cf) (current_purpose w));
       state_changing \<leftarrow> (if purpose_changing then Some True else if gotoStId cf = - 1 then Some False
          else map_option (\<lambda>st. gotoStId cf \<noteq> stId (state_at P st)) (current_state w));
       if \<not> state_changing
       then map_option (\<lambda>(_, w). (False, w)) (init_event P (reinit_cause P e) ev w)
       else do {
         target \<leftarrow> (if purpose_changing then Some (gotoPuId cf)
                    else map_option (\<lambda>pu. puId (purpose_at P pu)) (current_purpose w));
         map_option (\<lambda>(_, w). (True, w)) (init_profile P e target (gotoStId cf) w)
       }
     }"

definition handle_cause_event :: "profile \<Rightarrow> engine_env \<Rightarrow> cause_p \<Rightarrow> bool eng" where
  "handle_cause_event P e c w =
     (let cf = cause_at P c; ev = c_parent cf;
          w = (if measurement_send cf then send_cause P e c w else w)
      in do {
        (ret, w) \<leftarrow> check_thresholds P e c w;
        let w = upd_dyn c (triggered_update (\<lambda>_. ret)) w;
        let w = (if measurement_log cf \<or> ret \<and> senseLog cf then log_cause P e c w else w);
        (changing, w) \<leftarrow> (if ret \<and> all_causes_triggered P ev w then fire_event P e ev w else Some (False, w));
        Some (changing, upd_dyn c (sense_value_update (map_option free_valuearray)) w)
      })"

text \<open>\<open>handle_cause\<close> hands the sample to every active cause of the state with the same sensor, following the
  links of the queue as they are when each step is taken.\<close>

partial_function (option) handle_cause_loop :: "profile \<Rightarrow> engine_env \<Rightarrow> cause_p \<Rightarrow> cause_p option \<Rightarrow> bool \<Rightarrow> bool eng" where
  "handle_cause_loop P e c it changing w =
     (case it of
        None \<Rightarrow> Some (changing, w)
      | Some a \<Rightarrow>
          if sId (cause_at P a) = sId (cause_at P c)
          then Option.bind
                 (handle_cause_event P e a (upd_dyn a (sense_value_update (\<lambda>_. sense_value (dyn w c))) w))
                 (\<lambda>(ch, w). handle_cause_loop P e c (sq_next a (active_queue P a w)) (changing \<or> ch) w)
          else handle_cause_loop P e c (sq_next a (active_queue P a w)) changing w)"

definition handle_cause :: "profile \<Rightarrow> engine_env \<Rightarrow> cause_p \<Rightarrow> bool eng" where
  "handle_cause P e c w = handle_cause_loop P e c (sq_peek (active_queue P c w)) False w"

section \<open>Starting, stopping and continuing\<close>

definition profile_main :: "profile \<Rightarrow> engine_env \<Rightarrow> sms_limit \<Rightarrow> bool eng" where
  "profile_main P e limit w =
     do {
       let w = w\<lparr>current_purpose := None, current_state := None, global_states := [], engine_sms_limit := limit\<rparr>;
       (ret, w) \<leftarrow> init_profile P e (- 1) (- 1) w;
       if ret \<noteq> OK then Some (False, w) else Some (True, w\<lparr>engine_state := ENGINE_RUNNING\<rparr>)
     }"

text \<open>\<open>init_state\<close> on a NULL state would be a NULL dereference.\<close>

definition profile_stop :: "profile \<Rightarrow> engine_env \<Rightarrow> bool \<Rightarrow> int eng" where
  "profile_stop P e free w =
     (if engine_state w \<noteq> ENGINE_RUNNING then Some (- TS_ENGINE_ERROR_NOT_RUNNING, w)
      else do {
        w \<leftarrow> uninit_global_states P e w;
        st \<leftarrow> current_state w;
        (_, w) \<leftarrow> init_state P (uninit_cause P e) st w;
        Some (OK, w\<lparr>engine_state := (if free then ENGINE_STOPPED else ENGINE_PAUSED)\<rparr>)
      })"

definition profile_continue :: "profile \<Rightarrow> engine_env \<Rightarrow> int eng" where
  "profile_continue P e w =
     (if engine_state w \<noteq> ENGINE_PAUSED then Some (- TS_ENGINE_ERROR_NOT_PAUSED, w)
      else do {
        pu \<leftarrow> current_purpose w;
        (ret, w) \<leftarrow> init_global_states P e pu w;
        if ret < 0 then Some (ret, w)
        else do {
          st \<leftarrow> current_state w;
          (ret, w) \<leftarrow> init_state P (init_cause P e) st w;
          if ret < 0 then Some (ret, w) else Some (OK, w\<lparr>engine_state := ENGINE_RUNNING\<rparr>)
        }
      })"

end
