(* ===== verification/Engine_Timers.thy ===== *)
theory Engine_Timers
  imports Engine_Execute
begin

text \<open>
  What the engine does to the event loop. The loop of the engine's measurement timers skips the dates that
  have passed and ends; setting up a timer adds exactly one armed timer and stopping it removes exactly that
  one. \<open>timers_match\<close> is the ownership of timers: every armed timer of the engine belongs to the cause that
  holds its identifier, and every identifier a cause holds is that of an armed timer.
\<close>

section \<open>Dates\<close>

lemma sint_nsec_sum:
  assumes "0 \<le> sint (n :: u32)" and "sint n < NSEC_PER_SEC" and "0 \<le> k" and "k < NSEC_PER_SEC"
  shows "sint (n + word_of_int k) = sint n + k"
proof -
  have "sint (word_of_int k :: u32) = k"
    using assms(3,4) by (intro sint_number) auto
  then show ?thesis
    using assms by (simp add: sint_word_ariths signed_take_bit_int_eq_self)
qed

lemma carry_up_once:
  assumes "0 \<le> sint n" and "sint n < 2 * NSEC_PER_SEC"
  shows "carry_up s n = (if NSEC_PER_SEC \<le> sint n then (s + 1, n - 1000000000) else (s, n))"
proof (cases "NSEC_PER_SEC \<le> sint n")
  case True
  then have "sint (n - 1000000000) < NSEC_PER_SEC"
    using assms sint_sub_sec by simp
  then show ?thesis
    using True by (simp add: carry_up.simps [of s n] carry_up.simps [of "s + 1"])
next
  case False
  then show ?thesis by (simp add: carry_up.simps)
qed

lemma uint_sec_add:
  assumes "uint (s :: u32) + k < 2 ^ 32" and "0 \<le> k"
  shows "uint (s + word_of_int k) = uint s + k"
proof -
  have "uint (s + word_of_int k) = (uint s + k) mod 2 ^ 32"
    by (simp add: uint_word_ariths uint_word_of_int mod_simps)
  also have "\<dots> = uint s + k"
    using assms by (intro mod_pos_pos_trivial) simp_all
  finally show ?thesis .
qed

lemma next_date_ns:
  assumes "normal_ts t" and "0 \<le> interval" and "uint (tv_sec t) + interval div 1000 + 1 < 2 ^ 32"
  shows "ns_of (next_date interval t) = ns_of t + interval * 1000000" and "normal_ts (next_date interval t)"
proof -
  define k where "k = interval mod 1000 * 1000 * 1000"
  have k: "0 \<le> k" "k < NSEC_PER_SEC" by (simp_all add: k_def)
  have n: "sint (tv_nsec t + word_of_int k) = sint (tv_nsec t) + k"
    using assms(1) k by (intro sint_nsec_sum) (auto simp: normal_ts_def)
  have s: "uint (tv_sec t + word_of_int (interval div 1000)) = uint (tv_sec t) + interval div 1000"
    using assms by (intro uint_sec_add) simp_all
  have s1: "uint (tv_sec t + word_of_int (interval div 1000) + 1) = uint (tv_sec t) + interval div 1000 + 1"
    using uint_sec_add [of "tv_sec t + word_of_int (interval div 1000)" 1] assms s by simp
  have i: "interval * 1000000 = interval div 1000 * NSEC_PER_SEC + k"
    unfolding k_def using div_mult_mod_eq [of interval 1000] by linarith
  have "carry_up (tv_sec t + word_of_int (interval div 1000)) (tv_nsec t + word_of_int k) =
    (if NSEC_PER_SEC \<le> sint (tv_nsec t) + k
     then (tv_sec t + word_of_int (interval div 1000) + 1, tv_nsec t + word_of_int k - 1000000000)
     else (tv_sec t + word_of_int (interval div 1000), tv_nsec t + word_of_int k))"
    using carry_up_once [of "tv_nsec t + word_of_int k"] n assms(1) k by (simp add: normal_ts_def)
  then have nd: "next_date interval t = (if NSEC_PER_SEC \<le> sint (tv_nsec t) + k
     then \<lparr>tv_sec = tv_sec t + word_of_int (interval div 1000) + 1, tv_nsec = tv_nsec t + word_of_int k - 1000000000\<rparr>
     else \<lparr>tv_sec = tv_sec t + word_of_int (interval div 1000), tv_nsec = tv_nsec t + word_of_int k\<rparr>)"
    by (simp add: next_date_def k_def [symmetric] split: prod.splits)
  have sub: "sint (tv_nsec t + word_of_int k - 1000000000) = sint (tv_nsec t) + k - NSEC_PER_SEC"
    if "NSEC_PER_SEC \<le> sint (tv_nsec t) + k"
    using sint_sub_sec [of "tv_nsec t + word_of_int k"] that n by simp
  show "ns_of (next_date interval t) = ns_of t + interval * 1000000"
    using s s1 n sub by (simp add: nd ns_of_def i algebra_simps)
  show "normal_ts (next_date interval t)"
    using n sub assms(1) k by (simp add: nd normal_ts_def)
qed

lemma in_past_iff:
  assumes "normal_ts a" and "normal_ts b"
  shows "cause_timer_in_past a b \<longleftrightarrow> ns_of a < ns_of b"
proof -
  have "uint (tv_sec a) < uint (tv_sec b) \<longleftrightarrow> tv_sec a < tv_sec b"
    by (simp add: word_less_def)
  then show ?thesis
    using assms unfolding cause_timer_in_past_def normal_ts_def ns_of_def
    by (auto simp: word_uint_eq_iff word_less_def)
qed

text \<open>The first date of the grid, one interval or more after \<open>t\<close>, that is not in the past.\<close>

lemma advance_date_correct:
  assumes "normal_ts t" and "normal_ts now" and "1000 \<le> interval"
    and "uint (tv_sec t) + interval div 1000 + 1 < 2 ^ 32" and "uint (tv_sec now) + interval div 1000 + 1 < 2 ^ 32"
  shows "\<exists>d k. advance_date interval now t = Some d \<and> normal_ts d \<and> ns_of now \<le> ns_of d \<and> 1 \<le> k \<and>
    ns_of d = ns_of t + k * (interval * 1000000) \<and> (k = 1 \<or> ns_of d < ns_of now + interval * 1000000)"
  using assms
proof (induction "nat (ns_of now - ns_of t)" arbitrary: t rule: less_induct)
  case less
  note nd = next_date_ns [OF less.prems(1) _ less.prems(4)]
  have step: "ns_of (next_date interval t) = ns_of t + interval * 1000000" "normal_ts (next_date interval t)"
    using nd less.prems(3) by auto
  show ?case
  proof (cases "ns_of (next_date interval t) < ns_of now")
    case True
    then have past: "cause_timer_in_past (next_date interval t) now"
      using in_past_iff step(2) less.prems(2) by simp
    have "uint (tv_sec (next_date interval t)) \<le> uint (tv_sec now)"
      using True step(2) less.prems(2) unfolding ns_of_def normal_ts_def by linarith
    then have bound: "uint (tv_sec (next_date interval t)) + interval div 1000 + 1 < 2 ^ 32"
      using less.prems(5) by linarith
    have "nat (ns_of now - ns_of (next_date interval t)) < nat (ns_of now - ns_of t)"
      using True step(1) less.prems(3) by simp
    from less.hyps [OF this step(2) less.prems(2,3) bound less.prems(5)]
    obtain d k where d: "advance_date interval now (next_date interval t) = Some d" "normal_ts d"
      "ns_of now \<le> ns_of d" "1 \<le> k" "ns_of d = ns_of (next_date interval t) + k * (interval * 1000000)"
      "k = 1 \<or> ns_of d < ns_of now + interval * 1000000"
      by blast
    moreover have "ns_of d < ns_of now + interval * 1000000"
      using d(4-6) True by auto
    ultimately show ?thesis
      using past step(1) by (intro exI [of _ d] exI [of _ "k + 1"]) (simp add: advance_date.simps [of _ _ t] algebra_simps)
  next
    case False
    then have "\<not> cause_timer_in_past (next_date interval t) now"
      using in_past_iff step(2) less.prems(2) by simp
    then show ?thesis
      using False step
      by (intro exI [of _ "next_date interval t"] exI [of _ 1]) (simp add: advance_date.simps [of _ _ t])
  qed
qed

section \<open>Timers of the event loop\<close>

definition loop_ok :: "nat \<Rightarrow> nat \<Rightarrow> nat \<Rightarrow> ts_core_s \<Rightarrow> bool" where
  "loop_ok base ar nt c \<longleftrightarrow>
     core_inv c \<and> (heap_size (tq c) = 0 \<or> heap_size (tq c) = ar) \<and> in_arena base (tq c) \<and>
     card (dom (tmem (tq c))) \<le> nt"

text \<open>The allocator of the event loop gives unused blocks of its heap, which has room for \<open>cap\<close> timers.\<close>

definition allocates :: "nat \<Rightarrow> nat \<Rightarrow> nat \<Rightarrow> env \<Rightarrow> bool" where
  "allocates base ar cap e \<longleftrightarrow>
     env_ok e \<and> arena e = ar \<and>
     (\<forall>m. finite (dom m) \<and> card (dom m) < cap \<longrightarrow> (\<exists>a. calloc e m = Some a \<and> base \<le> a \<and> a < base + ar))"

lemma loop_ok_mono: "loop_ok base ar nt c \<Longrightarrow> nt \<le> nt' \<Longrightarrow> loop_ok base ar nt' c"
  by (simp add: loop_ok_def)

lemma loop_ok_finite: "loop_ok base ar nt c \<Longrightarrow> finite (dom (tmem (tq c)))"
  by (auto simp: loop_ok_def core_inv_def tq_inv_def)

text \<open>One more armed timer, and nothing else.\<close>

definition adds_timer :: "nat \<Rightarrow> nat \<Rightarrow> int \<Rightarrow> addr \<Rightarrow> timer_queues \<Rightarrow> timer_queues \<Rightarrow> bool" where
  "adds_timer cb priv tid a q q' \<longleftrightarrow>
     1 \<le> tid \<and> a \<notin> dom (tmem q) \<and> armed q' = insert a (armed q) \<and> dom (tmem q') = insert a (dom (tmem q)) \<and>
     t_id (timer_at q' a) = tid \<and> t_priv (timer_at q' a) = priv \<and> t_callback (timer_at q' a) = cb \<and>
     (\<forall>b. b \<noteq> a \<longrightarrow> timer_at q' b = timer_at q b)"

lemma timer_setup_internal_adds:
  assumes "allocates base ar cap e" and "loop_ok base ar nt c" and "nt < cap" and "ty \<noteq> TS_TIMER_TYPE_MAX"
  shows "\<exists>tid q' a. timer_setup_internal ty date ms (Some cb) priv now (calloc e (tmem (tq c))) (arena e) (tq c) =
      Some (Inr tid, q') \<and> adds_timer cb priv tid a (tq c) q' \<and>
      tq_inv q' \<and> heap_size q' = ar \<and> in_arena base q' \<and> card (dom (tmem q')) \<le> Suc nt"
proof -
  let ?q = "tq c"
  have count: "finite (dom (tmem ?q))" "card (dom (tmem ?q)) \<le> nt"
    using loop_ok_finite [OF assms(2)] assms(2) by (auto simp: loop_ok_def)
  then obtain a where a: "calloc e (tmem ?q) = Some a" "base \<le> a" "a < base + ar"
    using assms(1,3) by (fastforce simp: allocates_def)
  have e: "env_ok e" "arena e = ar" using assms(1) by (auto simp: allocates_def)
  have new: "a \<notin> dom (tmem ?q)" using e(1) a(1) by (auto simp: env_ok_def)
  obtain r q' where s: "timer_setup_internal ty date ms (Some cb) priv now (Some a) (arena e) ?q = Some (r, q')"
    using timer_setup_internal_total [of "arena e"] e(1) by (fastforce simp: env_ok_def)
  have inv: "tq_inv q'"
    using timer_setup_internal_inv [OF _ _ s] assms(2) new by (auto simp: loop_ok_def core_inv_def)
  have "r \<noteq> Inl x" for x
    using s assms(4) by (auto simp: timer_setup_internal_def split: option.splits)
  then obtain tid where r: "r = Inr tid" and h: "heap_size q' = (if heap_size ?q = 0 then arena e else heap_size ?q)"
    and tid: "tid = int (a mod heap_size q') + 1"
    and q': "q' = ?q\<lparr>heap_size := heap_size q',
      tmem := (tmem ?q)(a \<mapsto> timer_setup_fields ty date ms now tid cb priv), new_timers := new_timers ?q @ [a]\<rparr>"
    using timer_setup_internal_cases [OF s] by auto
  have heap: "heap_size q' = ar" using h e(2) assms(2) by (auto simp: loop_ok_def)
  have mem: "tmem q' = (tmem ?q)(a \<mapsto> timer_setup_fields ty date ms now tid cb priv)"
    "timers q' = timers ?q" "new_timers q' = new_timers ?q @ [a]"
    by (subst q', simp)+
  have "dom (tmem ?q) = {} \<or> heap_size ?q = ar"
    using assms(2) by (auto simp: loop_ok_def core_inv_def tq_inv_def)
  then have "in_arena base q'"
    using assms(2) a heap mem by (auto simp: loop_ok_def in_arena_def)
  moreover have "adds_timer cb priv tid a ?q q'"
    using tid new mem by (auto simp: adds_timer_def armed_def timer_at_def timer_setup_fields_def)
  moreover have "card (dom (tmem q')) \<le> Suc nt"
    using count mem(1) new by simp
  ultimately show ?thesis
    using s r a inv heap by auto
qed

lemma loop_timer_setup_adds:
  assumes "allocates base ar cap e" and "loop_ok base ar nt c" and "nt < cap"
  shows "\<exists>tid c' a. loop_timer_setup e ms cb priv c = Some (tid, c') \<and> adds_timer cb priv tid a (tq c) (tq c') \<and>
    loop_ok base ar (Suc nt) c'"
  using timer_setup_internal_adds [OF assms, of TS_TIMER_TYPE_INTERVAL "clk e (ticks c)" ms cb priv "clk e (ticks c)"] assms(2)
  by (auto simp: loop_timer_setup_def ts_core_timer_setup_def loop_ok_def core_inv_def)

lemma loop_timer_setup_date_adds:
  assumes "allocates base ar cap e" and "loop_ok base ar nt c" and "nt < cap"
  shows "\<exists>tid c' a. loop_timer_setup_date e date cb priv c = Some (tid, c') \<and> adds_timer cb priv tid a (tq c) (tq c') \<and>
    loop_ok base ar (Suc nt) c'"
  using timer_setup_internal_adds [OF assms, of TS_TIMER_TYPE_DATE date 0 cb priv date] assms(2)
  by (auto simp: loop_timer_setup_date_def ts_core_timer_setup_date_def loop_ok_def core_inv_def)

text \<open>One armed timer less, and nothing else.\<close>

definition drops_timer :: "addr \<Rightarrow> timer_queues \<Rightarrow> timer_queues \<Rightarrow> bool" where
  "drops_timer a q q' \<longleftrightarrow>
     armed q' = armed q - {a} \<and> dom (tmem q') = dom (tmem q) \<and> (\<forall>b. b \<noteq> a \<longrightarrow> timer_at q' b = timer_at q b)"

lemma loop_timer_stop_drops:
  assumes "loop_ok base ar nt c" and "a \<in> armed (tq c)"
  shows "\<exists>c'. apply_op e (Op_timer_stop (t_id (timer_at (tq c) a))) c = Some c' \<and>
    drops_timer a (tq c) (tq c') \<and> loop_ok base ar nt c'"
proof -
  let ?q = "tq c"
  have q: "tq_inv ?q" "in_arena base ?q" using assms(1) by (auto simp: loop_ok_def core_inv_def)
  obtain q' where q': "ts_core_timer_stop (t_id (timer_at ?q a)) ?q = (Inr (), q')" "armed q' = armed ?q - {a}"
    "done_timers q' = done_timers ?q @ [a]" "\<forall>b. b \<noteq> a \<longrightarrow> timer_at q' b = timer_at ?q b"
    using ts_core_timer_stop_armed [OF q assms(2)] by blast
  have inv: "tq_inv q'" by (rule ts_core_timer_stop_inv [OF q(1) q'(1)])
  have aq: "a \<in> set (queued ?q)" using assms(2) by (auto simp: armed_def queued_def)
  have "1 \<le> t_id (timer_at ?q a)" using timer_id_positive [OF q(1) aq] by simp
  moreover have "dom (tmem q') = dom (tmem ?q)"
    using inv q(1) q'(2,3) aq assms(2) by (auto simp: tq_inv_def queued_def armed_def)
  moreover have "heap_size q' = heap_size ?q"
    using q'(1) by (cases rule: ts_core_timer_stop_cases) auto
  ultimately show ?thesis
    using q' inv assms(1) by (auto simp: drops_timer_def loop_ok_def core_inv_def in_arena_def)
qed

text \<open>Operations on descriptors leave the timers alone.\<close>

fun fd_op :: "api_op \<Rightarrow> bool" where
  "fd_op (Op_fd_register _ _ _ _ _) = True"
| "fd_op (Op_fd_set_poll_events _ _) = True"
| "fd_op (Op_fd_unregister _) = True"
| "fd_op _ = False"

lemma fd_op_safe:
  assumes "env_ok e" and "loop_ok base ar nt c" and "fd_op op"
  shows "\<exists>c'. apply_op e op c = Some c' \<and> tq c' = tq c \<and> loop_ok base ar nt c'"
proof -
  have "op_ok op" using assms(3) by (cases op) auto
  moreover have "core_inv c" using assms(2) by (simp add: loop_ok_def)
  ultimately obtain c' where c': "apply_op e op c = Some c'" "core_inv c'"
    using apply_op_safe [OF assms(1)] by blast
  have "tq c' = tq c"
    using c'(1) assms(3) by (cases op) auto
  then show ?thesis using assms(2) c' by (simp add: loop_ok_def)
qed

lemma fd_ops_safe:
  assumes "env_ok e" and "loop_ok base ar nt c" and "list_all fd_op ops"
  shows "\<exists>c'. run_steps (apply_op e) ops c = Some c' \<and> tq c' = tq c \<and> loop_ok base ar nt c'"
  using assms(2,3)
proof (induction ops arbitrary: c)
  case (Cons op ops)
  obtain c1 where "apply_op e op c = Some c1" "tq c1 = tq c" "loop_ok base ar nt c1"
    using fd_op_safe [OF assms(1) Cons.prems(1), of op] Cons.prems(2) by auto
  with Cons.IH [of c1] Cons.prems(2) show ?case by auto
qed simp

section \<open>Ownership of timers\<close>

definition engine_timers :: "timer_queues \<Rightarrow> addr set" where
  "engine_timers q = {a \<in> armed q. t_callback (timer_at q a) \<in> {1, 2, 3}}"

text \<open>\<open>X\<close> holds the timers that no cause owns: those of other components, and the one-shot timer whose callback
  is running, which its cause has let go of and the event loop retires when the callback returns.\<close>

definition timers_match :: "cause_p set \<Rightarrow> addr set \<Rightarrow> (cause_p \<Rightarrow> int) \<Rightarrow> timer_queues \<Rightarrow> bool" where
  "timers_match C X ids q \<longleftrightarrow>
     X \<subseteq> dom (tmem q) \<and> armed q \<subseteq> engine_timers q \<union> X \<and>
     (\<forall>a \<in> engine_timers q - X. t_priv (timer_at q a) \<in> C \<and> ids (t_priv (timer_at q a)) = t_id (timer_at q a)) \<and>
     (\<forall>c \<in> C. 0 \<le> ids c \<longrightarrow> (\<exists>a \<in> engine_timers q - X. t_priv (timer_at q a) = c \<and> t_id (timer_at q a) = ids c))"

lemma timers_match_add:
  assumes "timers_match C X ids q" and "adds_timer cb c tid a q q'" and "cb \<in> {1, 2, 3}" and "c \<in> C"
    and "ids c < 0" and "tq_inv q"
  shows "timers_match C X (ids(c := tid)) q'"
proof -
  have new: "a \<notin> armed q" "a \<notin> X"
    using assms by (auto simp: adds_timer_def timers_match_def tq_inv_def queued_def armed_def)
  have et: "engine_timers q' = insert a (engine_timers q)"
    using assms(2,3) new by (auto simp: adds_timer_def engine_timers_def)
  have no: "t_priv (timer_at q b) \<noteq> c" if "b \<in> engine_timers q - X" for b
  proof
    assume "t_priv (timer_at q b) = c"
    then have "t_id (timer_at q b) < 0"
      using assms(1,5) that by (auto simp: timers_match_def)
    moreover have "b \<in> set (queued q)"
      using that by (auto simp: engine_timers_def armed_def queued_def)
    ultimately show False
      using timer_id_positive [OF assms(6)] by force
  qed
  have "X \<subseteq> dom (tmem q')" "armed q' \<subseteq> engine_timers q' \<union> X"
    using assms(1,2) et by (auto simp: timers_match_def adds_timer_def)
  moreover have "t_priv (timer_at q' b) \<in> C \<and> (ids(c := tid)) (t_priv (timer_at q' b)) = t_id (timer_at q' b)"
    if "b \<in> engine_timers q' - X" for b
    using that assms(1,2,4) no [of b] new et by (cases "b = a") (auto simp: timers_match_def adds_timer_def)
  moreover have "\<exists>b \<in> engine_timers q' - X. t_priv (timer_at q' b) = d \<and> t_id (timer_at q' b) = (ids(c := tid)) d"
    if dC: "d \<in> C" and "0 \<le> (ids(c := tid)) d" for d
  proof (cases "d = c")
    case True
    then show ?thesis
      using assms(2) new et by (intro bexI [of _ a]) (auto simp: adds_timer_def)
  next
    case False
    then have "0 \<le> ids d" using that by simp
    then obtain b where b: "b \<in> engine_timers q - X" "t_priv (timer_at q b) = d" "t_id (timer_at q b) = ids d"
      using dC assms(1) unfolding timers_match_def by blast
    moreover have "b \<noteq> a" using b(1) new by (auto simp: engine_timers_def)
    ultimately show ?thesis
      using assms(2) et False by (intro bexI [of _ b]) (auto simp: adds_timer_def)
  qed
  ultimately show ?thesis unfolding timers_match_def by blast
qed

lemma timers_match_drop:
  assumes "timers_match C X ids q" and "drops_timer a q q'" and "a \<in> engine_timers q - X"
    and "t_priv (timer_at q a) = c" and "tq_inv q" and "in_arena base q"
  shows "timers_match C X (ids(c := - 1)) q'"
proof -
  have et: "engine_timers q' = engine_timers q - {a}"
    using assms(2) by (auto simp: drops_timer_def engine_timers_def)
  have id: "t_id (timer_at q a) = ids c" "c \<in> C"
    using assms(1,3,4) by (auto simp: timers_match_def)
  have other: "t_priv (timer_at q b) \<noteq> c" if "b \<in> engine_timers q - X" and "b \<noteq> a" for b
  proof
    assume "t_priv (timer_at q b) = c"
    then have "t_id (timer_at q b) = t_id (timer_at q a)"
      using assms(1) that(1) id(1) by (auto simp: timers_match_def)
    moreover have "b \<in> set (queued q)" and "a \<in> set (queued q)"
      using that assms(3) by (auto simp: engine_timers_def armed_def queued_def)
    ultimately show False
      using timer_ids_distinct [OF assms(5,6)] that(2) by blast
  qed
  have "X \<subseteq> dom (tmem q')" "armed q' \<subseteq> engine_timers q' \<union> X"
    using assms(1,2) et by (auto simp: timers_match_def drops_timer_def)
  moreover have "t_priv (timer_at q' b) \<in> C \<and> (ids(c := - 1)) (t_priv (timer_at q' b)) = t_id (timer_at q' b)"
    if "b \<in> engine_timers q' - X" for b
    using that assms(1,2) other [of b] et by (auto simp: timers_match_def drops_timer_def)
  moreover have "\<exists>b \<in> engine_timers q' - X. t_priv (timer_at q' b) = d \<and> t_id (timer_at q' b) = (ids(c := - 1)) d"
    if dC: "d \<in> C" and "0 \<le> (ids(c := - 1)) d" for d
  proof -
    have d: "d \<noteq> c" "0 \<le> ids d" using that by (auto split: if_splits)
    then obtain b where b: "b \<in> engine_timers q - X" "t_priv (timer_at q b) = d" "t_id (timer_at q b) = ids d"
      using dC assms(1) unfolding timers_match_def by blast
    then have "b \<noteq> a" using d(1) assms(4) by auto
    then show ?thesis
      using assms(2) et d(1) b by (intro bexI [of _ b]) (auto simp: drops_timer_def)
  qed
  ultimately show ?thesis unfolding timers_match_def by blast
qed

text \<open>No cause owns two timers, so the timers in use are bounded by the causes and the foreign timers.\<close>

lemma timers_match_card:
  assumes "timers_match C X ids q" and "tq_inv q" and "in_arena base q" and "finite C"
  shows "card (armed q) \<le> card C + card X"
proof -
  have finX: "finite X"
    using assms(1,2) by (auto simp: timers_match_def tq_inv_def intro: finite_subset)
  have "inj_on (\<lambda>a. t_priv (timer_at q a)) (engine_timers q - X)"
  proof (rule inj_onI)
    fix a b assume ab: "a \<in> engine_timers q - X" "b \<in> engine_timers q - X" "t_priv (timer_at q a) = t_priv (timer_at q b)"
    then have "t_id (timer_at q a) = t_id (timer_at q b)"
      using assms(1) unfolding timers_match_def by metis
    moreover have "a \<in> set (queued q)" "b \<in> set (queued q)"
      using ab by (auto simp: engine_timers_def armed_def queued_def)
    ultimately show "a = b" using timer_ids_distinct [OF assms(2,3)] by blast
  qed
  then have "card (engine_timers q - X) \<le> card C"
    by (rule card_inj_on_le) (use assms(1,4) in \<open>auto simp: timers_match_def\<close>)
  moreover have "card (armed q) \<le> card ((engine_timers q - X) \<union> X)"
    using assms(1) finX by (intro card_mono) (auto simp: timers_match_def engine_timers_def armed_def)
  moreover have "card ((engine_timers q - X) \<union> X) \<le> card (engine_timers q - X) + card X"
    by (rule card_Un_le)
  ultimately show ?thesis by simp
qed

text \<open>The garbage collection of the event loop frees what is not armed.\<close>

lemma gc_timers_memory:
  assumes "tq_inv q"
  shows "dom (tmem (ts_core_gc_timers q)) = armed q" and "armed (ts_core_gc_timers q) = armed q"
  using ts_core_gc_timers_inv [OF assms] by (auto simp: tq_inv_def queued_def armed_def ts_core_gc_timers_set)

lemma timers_match_gc:
  assumes "timers_match C X ids q" and "tq_inv q"
  shows "timers_match C (X \<inter> armed q) ids (ts_core_gc_timers q)"
proof -
  let ?q = "ts_core_gc_timers q"
  have et: "engine_timers ?q = engine_timers q"
    using ts_core_gc_timers_at(2) [OF assms(2)] gc_timers_memory(2) [OF assms(2)] by (auto simp: engine_timers_def)
  then have sub: "engine_timers ?q - X \<inter> armed q = engine_timers q - X"
    by (auto simp: engine_timers_def)
  have at: "timer_at ?q a = timer_at q a" if "a \<in> engine_timers q - X" for a
    using that ts_core_gc_timers_at(2) [OF assms(2)] by (auto simp: engine_timers_def)
  show ?thesis
    unfolding timers_match_def sub gc_timers_memory [OF assms(2)]
    using assms(1) at et by (auto simp: timers_match_def)
qed

end
