(* ===== verification/Engine_Invariant.thy ===== *)
theory Engine_Invariant
  imports Engine_Timers
begin

text \<open>
  The invariant of the engine. \<open>einv\<close> holds at every point inside an operation for a set \<open>A\<close> of started
  causes, which may hold a timer or a descriptor, and a set \<open>Q\<close> of causes in the active queues of their
  states: a cause that is not started holds nothing, every timer has its owner, and the queue of each state
  contains its causes in \<open>Q\<close>. Each operation on a cause adds to these sets or removes from them; the
  operations on events and states follow by induction on their causes.
\<close>

section \<open>Well-formed profiles and environments\<close>

definition causes_of :: "profile \<Rightarrow> state_p \<Rightarrow> cause_p list" where
  "causes_of P st = concat (map (\<lambda>ev. causes (event_at P ev)) (state_events (state_at P st)))"

definition all_states :: "profile \<Rightarrow> state_p list" where
  "all_states P = concat (map (\<lambda>pu. states (purpose_at P pu)) (purposes P))"

definition prof_causes :: "profile \<Rightarrow> cause_p set" where
  "prof_causes P = (\<Union>st \<in> set (all_states P). set (causes_of P st))"

text \<open>A cause is measured at an interval by a sensor that can be read, or by one with an interrupt.\<close>

definition startable :: "cause_conf \<Rightarrow> bool" where
  "startable cf \<longleftrightarrow>
     (if 0 < measurement_interval cf \<and> has_active_read (sense_info cf)
      then measurement_interval cf < 2 ^ 31 else has_irq_init (sense_info cf))"

text \<open>The parser builds a tree whose parent pointers are right.\<close>

definition tree_ok :: "profile \<Rightarrow> bool" where
  "tree_ok P \<longleftrightarrow> distinct (all_states P) \<and>
     (\<forall>st \<in> set (all_states P). distinct (causes_of P st) \<and>
        (\<forall>ev \<in> set (state_events (state_at P st)). e_parent (event_at P ev) = st \<and>
           (\<forall>c \<in> set (causes (event_at P ev)). c_parent (cause_at P c) = ev))) \<and>
     (\<forall>c \<in> prof_causes P. startable (cause_at P c))"

definition senses_ok :: "engine_env \<Rightarrow> bool" where
  "senses_ok e \<longleftrightarrow>
     (\<forall>n sop c. list_all fd_op (se_ops (sense_effect_of e n sop c)) \<and>
        (sop = IrqInit \<longrightarrow> 0 \<le> se_ret (sense_effect_of e n sop c)) \<and>
        (sop \<noteq> IrqInit \<longrightarrow> se_fd (sense_effect_of e n sop c) = None \<and> se_date (sense_effect_of e n sop c) = None))"

definition clock_good :: "env \<Rightarrow> bool" where
  "clock_good e \<longleftrightarrow> (\<forall>n. normal_ts (clk e n) \<and> uint (tv_sec (clk e n)) < 2 ^ 31)"

definition engine_env_ok :: "nat \<Rightarrow> nat \<Rightarrow> nat \<Rightarrow> engine_env \<Rightarrow> bool" where
  "engine_env_ok base ar cap e \<longleftrightarrow>
     allocates base ar cap (evloop e) \<and> clock_good (evloop e) \<and> senses_ok e \<and> (\<forall>n. global_alloc_ok e n)"

lemma env_okD: "engine_env_ok base ar cap e \<Longrightarrow> allocates base ar cap (evloop e)"
  "engine_env_ok base ar cap e \<Longrightarrow> env_ok (evloop e)"
  "engine_env_ok base ar cap e \<Longrightarrow> senses_ok e"
  "engine_env_ok base ar cap e \<Longrightarrow> clock_good (evloop e)"
  "engine_env_ok base ar cap e \<Longrightarrow> global_alloc_ok e n"
  by (auto simp: engine_env_ok_def allocates_def)

lemma state_of_cause:
  assumes "tree_ok P" and "st \<in> set (all_states P)" and "c \<in> set (causes_of P st)"
  shows "state_of P c = st"
  using assms by (fastforce simp: tree_ok_def causes_of_def state_of_def)

lemma prof_causesI: "st \<in> set (all_states P) \<Longrightarrow> c \<in> set (causes_of P st) \<Longrightarrow> c \<in> prof_causes P"
  by (auto simp: prof_causes_def)

lemma prof_causesD:
  assumes "tree_ok P" and "c \<in> prof_causes P"
  shows "state_of P c \<in> set (all_states P)" and "c \<in> set (causes_of P (state_of P c))"
  using assms state_of_cause by (auto simp: prof_causes_def)

section \<open>What an operation leaves alone\<close>

definition same_top :: "engine \<Rightarrow> engine \<Rightarrow> bool" where
  "same_top w w' \<longleftrightarrow>
     current_purpose w' = current_purpose w \<and> current_state w' = current_state w \<and>
     global_states w' = global_states w \<and> engine_state w' = engine_state w \<and>
     engine_sms_limit w' = engine_sms_limit w \<and> rtc w' = rtc w"

definition control :: "cause_dyn \<Rightarrow> bool \<times> bool \<times> int \<times> int" where
  "control d = (triggered d, measure_bias d, measurement_counter d, threshold_counter d)"

definition touches :: "cause_p \<Rightarrow> engine \<Rightarrow> engine \<Rightarrow> bool" where
  "touches c w w' \<longleftrightarrow>
     same_top w w' \<and> (\<forall>d. d \<noteq> c \<longrightarrow> dyn w' d = dyn w d) \<and> control (dyn w' c) = control (dyn w c) \<and>
     active_causes w' = active_causes w \<and> active_entry w' = active_entry w \<and>
     expected_order_id w' = expected_order_id w"

lemma same_top_refl [simp]: "same_top w w"
  by (simp add: same_top_def)

lemma same_top_trans: "same_top a b \<Longrightarrow> same_top b c \<Longrightarrow> same_top a c"
  by (simp add: same_top_def)

lemma touches_refl [simp]: "touches c w w"
  by (simp add: touches_def)

lemma touches_trans: "touches c w1 w2 \<Longrightarrow> touches c w2 w3 \<Longrightarrow> touches c w1 w3"
  by (auto simp: touches_def intro: same_top_trans)

lemma touches_simps [simp]:
  "touches c w (w\<lparr>core := k\<rparr>)" "touches c w (w\<lparr>asked := n\<rparr>)" "touches c w (w\<lparr>trace := ts\<rparr>)"
  "touches c w (emit a w)"
  "touches c w (upd_dyn c (timer_id_update f) w)" "touches c w (upd_dyn c (cause_fd_update f) w)"
  "touches c w (upd_dyn c (cause_time_update f') w)" "touches c w (upd_dyn c (sense_value_update f'') w)"
  by (auto simp: touches_def same_top_def emit_def upd_dyn_def control_def)

lemma upd_dyn_simps [simp]:
  "core (upd_dyn c f w) = core w" "asked (upd_dyn c f w) = asked w" "core (emit a w) = core w"
  "dyn (emit a w) = dyn w" "asked (emit a w) = asked w"
  "dyn (upd_dyn c f w) d = (if d = c then f (dyn w c) else dyn w d)"
  "active_causes (upd_dyn c f w) = active_causes w" "active_entry (upd_dyn c f w) = active_entry w"
  "expected_order_id (upd_dyn c f w) = expected_order_id w"
  "active_causes (emit a w) = active_causes w" "active_entry (emit a w) = active_entry w"
  by (simp_all add: upd_dyn_def emit_def)

section \<open>Timers of a cause\<close>

definition cause_timers_ok :: "nat \<Rightarrow> nat \<Rightarrow> nat \<Rightarrow> profile \<Rightarrow> addr set \<Rightarrow> engine \<Rightarrow> bool" where
  "cause_timers_ok base ar nt P X w \<longleftrightarrow>
     loop_ok base ar nt (core w) \<and>
     timers_match (prof_causes P) X (\<lambda>c. timer_id (dyn w c)) (tq (core w))"

lemma cause_timers_ok_cong:
  assumes "core w' = core w" and "\<And>d. timer_id (dyn w' d) = timer_id (dyn w d)"
  shows "cause_timers_ok base ar nt P X w' = cause_timers_ok base ar nt P X w"
  by (simp add: cause_timers_ok_def assms)

lemma cause_timers_ok_simps [simp]:
  "cause_timers_ok base ar nt P X (upd_dyn c (cause_fd_update f) w) = cause_timers_ok base ar nt P X w"
  "cause_timers_ok base ar nt P X (upd_dyn c (cause_time_update g) w) = cause_timers_ok base ar nt P X w"
  "cause_timers_ok base ar nt P X (upd_dyn c (sense_value_update h) w) = cause_timers_ok base ar nt P X w"
  "cause_timers_ok base ar nt P X (upd_dyn c (triggered_update b) w) = cause_timers_ok base ar nt P X w"
  "cause_timers_ok base ar nt P X (upd_dyn c (threshold_counter_update i) w) = cause_timers_ok base ar nt P X w"
  "cause_timers_ok base ar nt P X (upd_dyn c (measurement_counter_update i) w) = cause_timers_ok base ar nt P X w"
  "cause_timers_ok base ar nt P X (w\<lparr>asked := n\<rparr>) = cause_timers_ok base ar nt P X w"
  "cause_timers_ok base ar nt P X (emit a w) = cause_timers_ok base ar nt P X w"
  by (auto intro!: cause_timers_ok_cong)

lemma cause_timers_ok_tick [simp]:
  "cause_timers_ok base ar nt P X (w\<lparr>core := (core w)\<lparr>ticks := m\<rparr>\<rparr>) = cause_timers_ok base ar nt P X w"
  by (simp add: cause_timers_ok_def loop_ok_def core_inv_def)

lemma cause_timers_ok_mono: "cause_timers_ok base ar nt P X w \<Longrightarrow> nt \<le> nt' \<Longrightarrow> cause_timers_ok base ar nt' P X w"
  by (auto simp: cause_timers_ok_def intro: loop_ok_mono)

lemma cause_timers_ok_loop: "cause_timers_ok base ar nt P X w \<Longrightarrow> loop_ok base ar nt (core w)"
  by (simp add: cause_timers_ok_def)

lemma timers_match_no_timer:
  assumes "tq_inv q" and "ids c < 0"
  shows "timers_match C X (ids(c := - 1)) q = timers_match C X ids q"
proof -
  have "1 \<le> t_id (timer_at q a)" if "a \<in> engine_timers q" for a
    using timer_id_positive [OF assms(1), of a] that by (auto simp: engine_timers_def armed_def queued_def)
  then have "(ids(c := - 1)) (t_priv (timer_at q a)) = t_id (timer_at q a) \<longleftrightarrow>
      ids (t_priv (timer_at q a)) = t_id (timer_at q a)" if "a \<in> engine_timers q" for a
    using that assms(2) by force
  then show ?thesis
    using assms(2) unfolding timers_match_def by (intro conj_cong ball_cong refl) auto
qed

lemma ids_update:
  "(\<lambda>d. timer_id (if d = c then (dyn w c)\<lparr>timer_id := t\<rparr> else dyn w d)) = (\<lambda>d. timer_id (dyn w d))(c := t)"
  by (rule ext) simp

lemma cause_timers_ok_start:
  assumes "cause_timers_ok base ar nt P X w" and "c \<in> prof_causes P" and "timer_id (dyn w c) < 0"
    and "adds_timer cb c tid a (tq (core w)) (tq k)" and "loop_ok base ar nt' k" and "cb \<in> {1, 2, 3}"
  shows "cause_timers_ok base ar nt' P X (upd_dyn c (timer_id_update (\<lambda>_. tid)) (w\<lparr>core := k\<rparr>))"
proof -
  have "timers_match (prof_causes P) X ((\<lambda>c. timer_id (dyn w c))(c := tid)) (tq k)"
    using assms by (intro timers_match_add [of _ _ _ "tq (core w)"]) (auto simp: cause_timers_ok_def loop_ok_def core_inv_def)
  then show ?thesis
    using assms(5) by (simp add: cause_timers_ok_def upd_dyn_def fun_upd_def ids_update if_distrib cong: if_cong)
qed

lemma stop_cause_timer_ok:
  assumes "cause_timers_ok base ar nt P X w" and "c \<in> prof_causes P" and "0 \<le> timer_id (dyn w c)"
  shows "\<exists>w'. stop_cause_timer e c w = Some w' \<and> touches c w w' \<and> cause_timers_ok base ar nt P X w' \<and>
    timer_id (dyn w' c) = - 1 \<and> cause_fd (dyn w' c) = cause_fd (dyn w c)"
proof -
  let ?q = "tq (core w)"
  have q: "tq_inv ?q" "in_arena base ?q" "loop_ok base ar nt (core w)"
    using assms(1) by (auto simp: cause_timers_ok_def loop_ok_def core_inv_def)
  obtain a where a: "a \<in> engine_timers ?q - X" "t_priv (timer_at ?q a) = c" "t_id (timer_at ?q a) = timer_id (dyn w c)"
    using assms unfolding cause_timers_ok_def timers_match_def by blast
  then have "a \<in> armed ?q" by (auto simp: engine_timers_def)
  then obtain k where k: "apply_op (evloop e) (Op_timer_stop (timer_id (dyn w c))) (core w) = Some k"
    "drops_timer a ?q (tq k)" "loop_ok base ar nt k"
    using loop_timer_stop_drops [OF q(3)] a(3) by metis
  have "timers_match (prof_causes P) X ((\<lambda>c. timer_id (dyn w c))(c := - 1)) (tq k)"
    using assms(1) k(2) a q(1,2) by (intro timers_match_drop [of _ _ _ ?q a]) (auto simp: cause_timers_ok_def)
  then have "cause_timers_ok base ar nt P X (upd_dyn c (timer_id_update (\<lambda>_. - 1)) (w\<lparr>core := k\<rparr>))"
    using k(3) by (simp add: cause_timers_ok_def fun_upd_def if_distrib cong: if_cong)
  moreover have "touches c w (upd_dyn c (timer_id_update (\<lambda>_. - 1)) (w\<lparr>core := k\<rparr>))"
    by (rule touches_trans [of _ _ "w\<lparr>core := k\<rparr>"]) simp_all
  ultimately show ?thesis
    using k(1) by (auto simp: stop_cause_timer_def)
qed

definition small_time :: "timespec \<Rightarrow> bool" where
  "small_time t \<longleftrightarrow> normal_ts t \<and> uint (tv_sec t) < 2 ^ 31"

lemma advance_date_small:
  assumes "small_time t" and "small_time now" and "1000 \<le> interval" and "interval < 2 ^ 31"
  shows "\<exists>d. advance_date interval now t = Some d"
proof -
  have "interval div 1000 < 2147484" using assms(4) by simp
  then show ?thesis
    using advance_date_correct [of t now interval] assms by (auto simp: small_time_def)
qed

lemma start_cause_timer_ok:
  assumes "engine_env_ok base ar cap e" and "cause_timers_ok base ar nt P X w" and "c \<in> prof_causes P"
    and "timer_id (dyn w c) < 0" and "small_time (cause_time (dyn w c))"
    and "measurement_interval (cause_at P c) < 2 ^ 31" and "nt < cap"
  shows "\<exists>w'. start_cause_timer P e c w = Some (OK, w') \<and> touches c w w' \<and> cause_timers_ok base ar (Suc nt) P X w'"
proof (cases "measurement_interval (cause_at P c) < 1000")
  case True
  obtain tid k a where k: "loop_timer_setup (evloop e) (word_of_int (measurement_interval (cause_at P c))) 1 c (core w) =
      Some (tid, k)" "adds_timer 1 c tid a (tq (core w)) (tq k)" "loop_ok base ar (Suc nt) k"
    using loop_timer_setup_adds [OF env_okD(1) [OF assms(1)], of _ "core w"] assms(2,7) unfolding cause_timers_ok_def by blast
  let ?w = "upd_dyn c (timer_id_update (\<lambda>_. tid)) (w\<lparr>core := k\<rparr>)"
  have "cause_timers_ok base ar (Suc nt) P X ?w"
    by (rule cause_timers_ok_start [OF assms(2-4) k(2,3)]) simp
  moreover have "touches c w ?w"
    by (rule touches_trans [of _ _ "w\<lparr>core := k\<rparr>"]) simp_all
  moreover have "0 \<le> tid" using k(2) by (simp add: adds_timer_def)
  ultimately show ?thesis
    using True k(1) by (simp add: start_cause_timer_def)
next
  case False
  let ?now = "clk (evloop e) (ticks (core w))"
  let ?c1 = "(core w)\<lparr>ticks := Suc (ticks (core w))\<rparr>"
  have "small_time ?now"
    using env_okD(4) [OF assms(1)] by (auto simp: clock_good_def small_time_def)
  then obtain d where d: "advance_date (measurement_interval (cause_at P c)) ?now (cause_time (dyn w c)) = Some d"
    using advance_date_small [of "cause_time (dyn w c)" ?now] assms(5,6) False by force
  let ?w1 = "upd_dyn c (cause_time_update (\<lambda>_. d)) w"
  have ok1: "loop_ok base ar nt ?c1"
    using assms(2) by (simp add: cause_timers_ok_def loop_ok_def core_inv_def)
  obtain tid k a where k: "loop_timer_setup_date (evloop e) d 2 c ?c1 = Some (tid, k)"
    "adds_timer 2 c tid a (tq ?c1) (tq k)" "loop_ok base ar (Suc nt) k"
    using loop_timer_setup_date_adds [OF env_okD(1) [OF assms(1)] ok1 assms(7)] by blast
  let ?w = "upd_dyn c (timer_id_update (\<lambda>_. tid)) (?w1\<lparr>core := k\<rparr>)"
  have "cause_timers_ok base ar nt P X ?w1"
    using assms(2) by simp
  then have "cause_timers_ok base ar (Suc nt) P X ?w"
    by (rule cause_timers_ok_start) (use assms(3,4) k in auto)
  moreover have "touches c w ?w"
    by (rule touches_trans [of _ _ ?w1], simp, rule touches_trans [of _ _ "?w1\<lparr>core := k\<rparr>"]) simp_all
  moreover have "0 \<le> tid" using k(2) by (simp add: adds_timer_def)
  ultimately show ?thesis
    using False k(1) d by (simp add: start_cause_timer_def clock_gettime_def)
qed

section \<open>Sensor operations\<close>

lemma sense_call_ok:
  assumes "engine_env_ok base ar cap e" and "cause_timers_ok base ar nt P X w" and "sop \<noteq> IrqInit"
  shows "\<exists>r w'. sense_call e sop c w = Some (r, w') \<and> touches c w w' \<and> cause_timers_ok base ar nt P X w' \<and> dyn w' = dyn w"
proof -
  let ?eff = "sense_effect_of e (asked w) sop c"
  have eff: "list_all fd_op (se_ops ?eff)" "se_fd ?eff = None" "se_date ?eff = None"
    using env_okD(3) [OF assms(1)] assms(3) by (auto simp: senses_ok_def)
  obtain k where k: "run_steps (apply_op (evloop e)) (se_ops ?eff) (core w) = Some k" "tq k = tq (core w)"
    "loop_ok base ar nt k"
    using fd_ops_safe [OF env_okD(2) [OF assms(1)] cause_timers_ok_loop [OF assms(2)] eff(1)] by blast
  let ?w = "(emit (SenseOp sop c) w)\<lparr>asked := Suc (asked w), core := k\<rparr>"
  have "sense_call e sop c w = Some (se_ret ?eff, ?w)"
    using k(1) eff by (simp add: sense_call_def ask_def Let_def)
  moreover have "touches c w ?w" "dyn ?w = dyn w"
    by (auto simp: touches_def same_top_def emit_def)
  moreover have "cause_timers_ok base ar nt P X ?w"
    using assms(2) k by (simp add: cause_timers_ok_def emit_def)
  ultimately show ?thesis by blast
qed

lemma sense_call_irq_ok:
  assumes "engine_env_ok base ar cap e" and "cause_timers_ok base ar nt P X w" and "c \<in> prof_causes P"
    and "timer_id (dyn w c) < 0" and "nt < cap"
  shows "\<exists>r w'. sense_call e IrqInit c w = Some (r, w') \<and> 0 \<le> r \<and> touches c w w' \<and> cause_timers_ok base ar (Suc nt) P X w'"
proof -
  let ?eff = "sense_effect_of e (asked w) IrqInit c"
  have eff: "list_all fd_op (se_ops ?eff)" "0 \<le> se_ret ?eff"
    using env_okD(3) [OF assms(1)] by (auto simp: senses_ok_def)
  obtain k where k: "run_steps (apply_op (evloop e)) (se_ops ?eff) (core w) = Some k" "tq k = tq (core w)"
    "loop_ok base ar nt k"
    using fd_ops_safe [OF env_okD(2) [OF assms(1)] cause_timers_ok_loop [OF assms(2)] eff(1)] by blast
  let ?w1 = "(emit (SenseOp IrqInit c) w)\<lparr>asked := Suc (asked w), core := k\<rparr>"
  let ?w2 = "case se_fd ?eff of None \<Rightarrow> ?w1 | Some f \<Rightarrow> upd_dyn c (cause_fd_update (\<lambda>_. f)) ?w1"
  have t1: "touches c w ?w1"
    by (auto simp: touches_def same_top_def emit_def)
  have "touches c ?w1 ?w2"
    by (auto split: option.splits)
  with t1 have t2: "touches c w ?w2" by (rule touches_trans)
  have dyn1: "dyn ?w1 = dyn w" by (simp add: emit_def)
  have ok1: "cause_timers_ok base ar nt P X ?w1"
    using assms(2) k dyn1 by (simp add: cause_timers_ok_def)
  then have ok2: "cause_timers_ok base ar nt P X ?w2"
    by (auto split: option.splits)
  have id2: "timer_id (dyn ?w2 c) < 0"
    using assms(4) dyn1 by (auto split: option.splits)
  show ?thesis
  proof (cases "se_date ?eff")
    case None
    then have "sense_call e IrqInit c w = Some (se_ret ?eff, ?w2)"
      using k(1) by (simp add: sense_call_def ask_def Let_def)
    then show ?thesis using eff(2) t2 cause_timers_ok_mono [OF ok2, of "Suc nt"] by auto
  next
    case (Some date)
    have "loop_ok base ar nt (core ?w2)" using ok2 by (simp add: cause_timers_ok_def)
    then obtain tid k' a where k': "loop_timer_setup_date (evloop e) date 3 c (core ?w2) = Some (tid, k')"
      "adds_timer 3 c tid a (tq (core ?w2)) (tq k')" "loop_ok base ar (Suc nt) k'"
      using loop_timer_setup_date_adds [OF env_okD(1) [OF assms(1)] _ assms(5)] by blast
    let ?w3 = "upd_dyn c (timer_id_update (\<lambda>_. tid)) (?w2\<lparr>core := k'\<rparr>)"
    have "0 \<le> tid" using k'(2) by (simp add: adds_timer_def)
    then have "sense_call e IrqInit c w = Some (se_ret ?eff, ?w3)"
      using k(1) k'(1) Some by (simp add: sense_call_def ask_def Let_def)
    moreover have "cause_timers_ok base ar (Suc nt) P X ?w3"
      using ok2 assms(3) id2 k' by (intro cause_timers_ok_start) auto
    moreover have "touches c w ?w3"
      by (rule touches_trans [OF t2], rule touches_trans [of _ _ "?w2\<lparr>core := k'\<rparr>"]) simp_all
    ultimately show ?thesis using eff(2) by blast
  qed
qed

lemma request_value_ok:
  assumes "engine_env_ok base ar cap e" and "cause_timers_ok base ar nt P X w" and "c \<in> prof_causes P"
    and "timer_id (dyn w c) < 0" and "startable (cause_at P c)" and "nt < cap"
  shows "\<exists>r w'. engine_cause_request_value P e c w = Some (r, w') \<and> 0 \<le> r \<and> touches c w w' \<and> cause_timers_ok base ar (Suc nt) P X w'"
proof -
  let ?info = "sense_info (cause_at P c)"
  let ?w0 = "upd_dyn c (sense_value_update (set_valuetype (si_min ?info))) w"
  have ok0: "cause_timers_ok base ar nt P X ?w0" and t0: "touches c w ?w0" and id0: "timer_id (dyn ?w0 c) < 0"
    using assms(2,4) by simp_all
  show ?thesis
  proof (cases "0 < measurement_interval (cause_at P c) \<and> has_active_read ?info")
    case True
    obtain r w1 where w1: "(if has_active_init ?info then sense_call e ActiveInit c ?w0 else Some (OK, ?w0)) = Some (r, w1)"
      "touches c ?w0 w1" "cause_timers_ok base ar nt P X w1" "dyn w1 = dyn ?w0"
    proof (cases "has_active_init ?info")
      case True
      then show ?thesis
        using sense_call_ok [OF assms(1) ok0, of ActiveInit c] that by auto
    next
      case False
      then show ?thesis
        using ok0 by (intro that [of OK ?w0]) simp_all
    qed
    let ?now = "clk (evloop e) (ticks (core w1))"
    let ?w2 = "upd_dyn c (cause_time_update (\<lambda>_. ?now)) (w1\<lparr>core := (core w1)\<lparr>ticks := Suc (ticks (core w1))\<rparr>\<rparr>)"
    have t2: "touches c w1 ?w2"
      by (rule touches_trans [of _ _ "w1\<lparr>core := (core w1)\<lparr>ticks := Suc (ticks (core w1))\<rparr>\<rparr>"]) simp_all
    have ok2: "cause_timers_ok base ar nt P X ?w2"
      using w1(3) by simp
    have "small_time (cause_time (dyn ?w2 c))"
      using env_okD(4) [OF assms(1)] by (auto simp: clock_good_def small_time_def)
    moreover have "timer_id (dyn ?w2 c) < 0"
      using id0 w1(4) by simp
    moreover have "measurement_interval (cause_at P c) < 2 ^ 31"
      using assms(5) True by (simp add: startable_def)
    ultimately obtain w' where w': "start_cause_timer P e c ?w2 = Some (OK, w')" "touches c ?w2 w'" "cause_timers_ok base ar (Suc nt) P X w'"
      using start_cause_timer_ok [OF assms(1) ok2 assms(3)] assms(6) by blast
    have "engine_cause_request_value P e c w = Some (OK, w')"
      using True w1(1) w'(1) by (auto simp: engine_cause_request_value_def clock_gettime_def Let_def)
    moreover have "touches c w w'"
      using t0 w1(2) t2 w'(2) by (blast intro: touches_trans)
    ultimately show ?thesis using w'(3) by auto
  next
    case False
    then have "has_irq_init ?info" using assms(5) by (auto simp: startable_def)
    then have "engine_cause_request_value P e c w = sense_call e IrqInit c ?w0"
      using False by (auto simp: engine_cause_request_value_def)
    then show ?thesis
      using sense_call_irq_ok [OF assms(1) ok0 assms(3) id0 assms(6)] t0 touches_trans by metis
  qed
qed

section \<open>The invariant\<close>

definition queues_ok :: "profile \<Rightarrow> cause_p set \<Rightarrow> engine \<Rightarrow> bool" where
  "queues_ok P Q w \<longleftrightarrow>
     (\<forall>st \<in> set (all_states P). \<exists>cs. sq_repr (active_causes w st, active_entry w) cs \<and>
        set cs = Q \<inter> set (causes_of P st))"

definition idle_ok :: "profile \<Rightarrow> cause_p set \<Rightarrow> engine \<Rightarrow> bool" where
  "idle_ok P A w \<longleftrightarrow> (\<forall>c \<in> prof_causes P - A. timer_id (dyn w c) < 0 \<and> cause_fd (dyn w c) < 0)"

definition einv :: "nat \<Rightarrow> nat \<Rightarrow> nat \<Rightarrow> profile \<Rightarrow> addr set \<Rightarrow> cause_p set \<Rightarrow> cause_p set \<Rightarrow> engine \<Rightarrow> bool" where
  "einv base ar nt P X A Q w \<longleftrightarrow> cause_timers_ok base ar nt P X w \<and> idle_ok P A w \<and> queues_ok P Q w"

lemma einv_mono: "einv base ar nt P X A Q w \<Longrightarrow> nt \<le> nt' \<Longrightarrow> einv base ar nt' P X A Q w"
  by (auto simp: einv_def intro: cause_timers_ok_mono)

lemma queues_ok_cong:
  assumes "active_causes w' = active_causes w" and "active_entry w' = active_entry w"
  shows "queues_ok P Q w' = queues_ok P Q w"
  by (simp add: queues_ok_def assms)

lemma idle_ok_touches:
  assumes "idle_ok P A w" and "touches c w w'" and "c \<in> A"
  shows "idle_ok P A w'"
  using assms by (auto simp: idle_ok_def touches_def)

lemma queues_ok_touches: "touches c w w' \<Longrightarrow> queues_ok P Q w' = queues_ok P Q w"
  by (rule queues_ok_cong) (auto simp: touches_def)

text \<open>Changing one queue leaves the queues of the other states alone, because no cause is in two states.\<close>

lemma queues_ok_update:
  assumes "tree_ok P" and "queues_ok P Q w" and "st \<in> set (all_states P)"
    and "sq_repr (q, h) cs" and "set cs = Q' \<inter> set (causes_of P st)"
    and "\<And>y. y \<notin> set (causes_of P st) \<Longrightarrow> h y = active_entry w y"
    and "\<And>y. y \<notin> set (causes_of P st) \<Longrightarrow> y \<in> Q' \<longleftrightarrow> y \<in> Q"
    and "active_causes w' = (active_causes w)(st := q)" and "active_entry w' = h"
  shows "queues_ok P Q' w'"
  unfolding queues_ok_def
proof
  fix s assume s: "s \<in> set (all_states P)"
  show "\<exists>ds. sq_repr (active_causes w' s, active_entry w') ds \<and> set ds = Q' \<inter> set (causes_of P s)"
  proof (cases "s = st")
    case True
    then show ?thesis using assms(4,5,8,9) by auto
  next
    case False
    obtain ds where ds: "sq_repr (active_causes w s, active_entry w) ds" "set ds = Q \<inter> set (causes_of P s)"
      using assms(2) s by (auto simp: queues_ok_def)
    have out: "d \<notin> set (causes_of P st)" if "d \<in> set (causes_of P s)" for d
      using that state_of_cause [OF assms(1)] s assms(3) False by blast
    then have "sq_repr (active_causes w s, h) ds"
      using ds sq_repr_agree [of ds h "active_entry w"] assms(6) by auto
    moreover have "set ds = Q' \<inter> set (causes_of P s)"
      using ds(2) out assms(7) by blast
    ultimately show ?thesis using assms(8,9) False by auto
  qed
qed

lemma queue_of_cause:
  assumes "tree_ok P" and "queues_ok P Q w" and "c \<in> prof_causes P"
  obtains cs where "sq_repr (active_queue P c w) cs" and "set cs = Q \<inter> set (causes_of P (state_of P c))"
  using assms prof_causesD [OF assms(1,3)] by (auto simp: queues_ok_def active_queue_def)

lemma queues_ok_addlast:
  assumes "tree_ok P" and "queues_ok P Q w" and "c \<in> prof_causes P" and "c \<notin> Q"
  shows "\<exists>s. sq_addlast c (active_queue P c w) = Some s \<and> queues_ok P (insert c Q) (set_active_queue P c s w)"
proof -
  note st = prof_causesD [OF assms(1,3)]
  obtain cs where cs: "sq_repr (active_queue P c w) cs" "set cs = Q \<inter> set (causes_of P (state_of P c))"
    by (rule queue_of_cause [OF assms(1-3)])
  have "c \<notin> set cs" using cs(2) assms(4) by simp
  then obtain q h where q: "sq_addlast c (active_queue P c w) = Some (q, h)" "sq_repr (q, h) (cs @ [c])"
    "\<forall>y. y \<notin> set cs \<and> y \<noteq> c \<longrightarrow> h y = active_entry w y"
    using sq_addlast_repr [of _ _ cs c] cs(1) unfolding active_queue_def by blast
  have "queues_ok P (insert c Q) (set_active_queue P c (q, h) w)"
    by (rule queues_ok_update [OF assms(1,2) st(1) q(2)])
      (use q(3) cs(2) st(2) in \<open>auto simp: set_active_queue_def\<close>)
  with q(1) show ?thesis by blast
qed

lemma queues_ok_rem:
  assumes "tree_ok P" and "queues_ok P Q w" and "c \<in> prof_causes P"
  shows "\<exists>s. sq_rem (Some c) (active_queue P c w) = Some s \<and> queues_ok P (Q - {c}) (set_active_queue P c s w)"
proof -
  note st = prof_causesD [OF assms(1,3)]
  obtain cs where cs: "sq_repr (active_queue P c w) cs" "set cs = Q \<inter> set (causes_of P (state_of P c))"
    by (rule queue_of_cause [OF assms])
  then obtain q h where q: "sq_rem (Some c) (active_queue P c w) = Some (q, h)" "sq_repr (q, h) (remove1 c cs)"
    "\<forall>y. y \<notin> set cs \<longrightarrow> h y = active_entry w y"
    using sq_rem_repr [of _ _ cs c] cs(1) unfolding active_queue_def by blast
  have "distinct cs" using cs(1) by (simp add: sq_repr_def)
  then have "queues_ok P (Q - {c}) (set_active_queue P c (q, h) w)"
    by (intro queues_ok_update [OF assms(1,2) st(1) q(2)])
      (use q(3) cs(2) st(2) in \<open>auto simp: set_active_queue_def\<close>)
  with q(1) show ?thesis by blast
qed

lemma set_active_queue_simps [simp]:
  "dyn (set_active_queue P c s w) = dyn w" "core (set_active_queue P c s w) = core w"
  "expected_order_id (set_active_queue P c s w) = expected_order_id w"
  "same_top w (set_active_queue P c s w)"
  "cause_timers_ok base ar nt P X (set_active_queue P c s w) = cause_timers_ok base ar nt P X w"
  by (simp_all add: set_active_queue_def same_top_def cause_timers_ok_def)

lemma same_top_upd_dyn [simp]: "same_top w (upd_dyn c f w)"
  by (simp add: same_top_def upd_dyn_def)

section \<open>Starting and stopping a cause\<close>

text \<open>What an operation on the cause \<open>c\<close> may change besides its own queue.\<close>

definition only :: "cause_p \<Rightarrow> engine \<Rightarrow> engine \<Rightarrow> bool" where
  "only c w w' \<longleftrightarrow> same_top w w' \<and> (\<forall>d. d \<noteq> c \<longrightarrow> dyn w' d = dyn w d) \<and> expected_order_id w' = expected_order_id w"

lemma touches_only: "touches c w w' \<Longrightarrow> only c w w'"
  by (auto simp: touches_def only_def)

lemma only_trans: "only c w1 w2 \<Longrightarrow> only c w2 w3 \<Longrightarrow> only c w1 w3"
  by (auto simp: only_def intro: same_top_trans)

definition started :: "cause_conf \<Rightarrow> cause_dyn \<Rightarrow> bool" where
  "started cf d \<longleftrightarrow>
     \<not> triggered d \<and> threshold_counter d = threshold_count cf \<and> measure_bias d = is_active_relative_cause cf \<and>
     measurement_counter d = (if measurement_count cf = 0 then - 1 else measurement_count cf)"

text \<open>A relative cause has measured its bias, in the type of the sensor, or is about to.\<close>

definition biased :: "cause_conf \<Rightarrow> cause_dyn \<Rightarrow> bool" where
  "biased cf d \<longleftrightarrow>
     (is_active_relative_cause cf \<longrightarrow>
        measure_bias d \<or> (\<exists>b. bias_value d = Some b \<and> same_type (si_min (sense_info cf)) b))"

lemma started_biased: "started cf d \<Longrightarrow> biased cf d"
  by (simp add: started_def biased_def)

lemma init_cause_ok:
  assumes "tree_ok P" and "engine_env_ok base ar cap e" and "einv base ar nt P X A Q w" and "c \<in> prof_causes P" and "c \<notin> A" and "c \<notin> Q" and "nt < cap"
  shows "\<exists>r w'. init_cause P e c w = Some (r, w') \<and> 0 \<le> r \<and> only c w w' \<and>
    einv base ar (Suc nt) P X (insert c A) (insert c Q) w' \<and> started (cause_at P c) (dyn w' c)"
proof -
  have idle: "timer_id (dyn w c) < 0" "cause_fd (dyn w c) < 0"
    using assms(3-5) by (auto simp: einv_def idle_ok_def)
  let ?w1 = "upd_dyn c (fresh_dyn (cause_at P c)) w"
  have "queues_ok P Q ?w1"
    using assms(3) queues_ok_cong [of ?w1 w P Q] by (simp add: einv_def)
  then obtain s where s: "sq_addlast c (active_queue P c ?w1) = Some s"
    "queues_ok P (insert c Q) (set_active_queue P c s ?w1)"
    using queues_ok_addlast [OF assms(1) _ assms(4,6)] by blast
  let ?w2 = "set_active_queue P c s ?w1"
  have ids: "(\<lambda>d. timer_id (dyn ?w1 d)) = (\<lambda>d. timer_id (dyn w d))(c := - 1)"
    by (rule ext) (simp add: fresh_dyn_def)
  have "tq_inv (tq (core w))"
    using assms(3) by (simp add: einv_def cause_timers_ok_def loop_ok_def core_inv_def)
  then have "cause_timers_ok base ar nt P X ?w2"
    using assms(3) idle(1) timers_match_no_timer [of "tq (core w)" "\<lambda>d. timer_id (dyn w d)" c]
    unfolding set_active_queue_simps cause_timers_ok_def ids by (simp add: cause_timers_ok_def einv_def)
  moreover have "timer_id (dyn ?w2 c) < 0" by (simp add: fresh_dyn_def)
  moreover have "startable (cause_at P c)" using assms(1,4) by (simp add: tree_ok_def)
  ultimately obtain r w' where w': "engine_cause_request_value P e c ?w2 = Some (r, w')" "0 \<le> r" "touches c ?w2 w'"
    "cause_timers_ok base ar (Suc nt) P X w'"
    using request_value_ok [OF assms(2) _ assms(4)] assms(7) by blast
  have "only c w ?w2"
    by (auto simp: only_def intro: same_top_trans [of _ ?w1])
  then have "only c w w'"
    using touches_only [OF w'(3)] by (rule only_trans)
  moreover have "queues_ok P (insert c Q) w'"
    using s(2) queues_ok_touches [OF w'(3)] by simp
  moreover have "idle_ok P (insert c A) w'"
    using assms(3) \<open>only c w w'\<close> by (auto simp: einv_def idle_ok_def only_def)
  moreover have "started (cause_at P c) (dyn w' c)"
    using w'(3) by (simp add: touches_def control_def started_def fresh_dyn_def)
  moreover have "init_cause P e c w = Some (r, w')"
    using idle s(1) w'(1) by (simp add: init_cause_def)
  ultimately show ?thesis
    using w'(2,4) unfolding einv_def by blast
qed

lemma uninit_fd_ok:
  assumes "engine_env_ok base ar cap e" and "cause_timers_ok base ar nt P X w"
  shows "\<exists>w'. uninit_fd e c w = Some w' \<and> touches c w w' \<and> cause_timers_ok base ar nt P X w' \<and>
    cause_fd (dyn w' c) = - 1 \<and> timer_id (dyn w' c) = timer_id (dyn w c)"
proof -
  obtain k where k: "apply_op (evloop e) (Op_fd_unregister (cause_fd (dyn w c))) (core w) = Some k" "tq k = tq (core w)"
    "loop_ok base ar nt k"
    using fd_op_safe [OF env_okD(2) [OF assms(1)] cause_timers_ok_loop [OF assms(2)], of "Op_fd_unregister (cause_fd (dyn w c))"]
    by auto
  let ?w1 = "emit (CloseFd (cause_fd (dyn w c))) (w\<lparr>core := k\<rparr>)"
  have "uninit_fd e c w = Some (upd_dyn c (cause_fd_update (\<lambda>_. - 1)) ?w1)"
    using k(1) by (simp add: uninit_fd_def Let_def)
  moreover have "touches c w (upd_dyn c (cause_fd_update (\<lambda>_. - 1)) ?w1)"
    by (rule touches_trans [of _ _ "w\<lparr>core := k\<rparr>"], simp, rule touches_trans [of _ _ ?w1]) simp_all
  moreover have "cause_timers_ok base ar nt P X (w\<lparr>core := k\<rparr>)"
    using assms(2) k(2,3) by (simp add: cause_timers_ok_def)
  then have "cause_timers_ok base ar nt P X (upd_dyn c (cause_fd_update (\<lambda>_. - 1)) ?w1)"
    by simp
  ultimately show ?thesis by simp
qed

lemma sense_uninit_ok:
  assumes "engine_env_ok base ar cap e" and "cause_timers_ok base ar nt P X w"
  shows "\<exists>r w'. sense_uninit P e c w = Some (r, w') \<and> touches c w w' \<and> cause_timers_ok base ar nt P X w' \<and> dyn w' = dyn w"
  using sense_call_ok [OF assms, of ActiveUninit c] sense_call_ok [OF assms, of IrqUninit c] assms(2)
  by (auto simp: sense_uninit_def Let_def)

lemma uninit_cause_ok:
  assumes "tree_ok P" and "engine_env_ok base ar cap e" and "einv base ar nt P X A Q w" and "c \<in> prof_causes P"
  shows "\<exists>w'. uninit_cause P e c w = Some (OK, w') \<and> only c w w' \<and> control (dyn w' c) = control (dyn w c) \<and>
    einv base ar nt P X (A - {c}) (Q - {c}) w'"
proof -
  obtain s where s: "sq_rem (Some c) (active_queue P c w) = Some s" "queues_ok P (Q - {c}) (set_active_queue P c s w)"
    using queues_ok_rem [OF assms(1) _ assms(4), of Q w] assms(3) by (auto simp: einv_def)
  let ?w1 = "set_active_queue P c s w"
  have ok1: "cause_timers_ok base ar nt P X ?w1" using assms(3) by (simp add: einv_def)
  obtain w2 where w2: "(if 0 \<le> timer_id (dyn ?w1 c) then stop_cause_timer e c ?w1 else Some ?w1) = Some w2"
    "touches c ?w1 w2" "cause_timers_ok base ar nt P X w2" "timer_id (dyn w2 c) < 0"
  proof (cases "0 \<le> timer_id (dyn ?w1 c)")
    case True
    then show ?thesis
      using stop_cause_timer_ok [OF ok1 assms(4) True, of e] that by auto
  next
    case False
    then show ?thesis
      using ok1 by (intro that [of ?w1]) simp_all
  qed
  obtain w3 where w3: "(if 0 \<le> cause_fd (dyn w2 c) then uninit_fd e c w2 else Some w2) = Some w3"
    "touches c w2 w3" "cause_timers_ok base ar nt P X w3" "timer_id (dyn w3 c) < 0" "cause_fd (dyn w3 c) < 0"
  proof (cases "0 \<le> cause_fd (dyn w2 c)")
    case True
    then show ?thesis
      using uninit_fd_ok [OF assms(2) w2(3), of c] w2(4) that by auto
  next
    case False
    then show ?thesis
      using w2 by (intro that [of w2]) simp_all
  qed
  obtain r w4 where w4: "sense_uninit P e c w3 = Some (r, w4)" "touches c w3 w4" "cause_timers_ok base ar nt P X w4" "dyn w4 = dyn w3"
    using sense_uninit_ok [OF assms(2) w3(3)] by blast
  let ?w = "upd_dyn c (sense_value_update (map_option free_valuearray)) w4"
  have t: "touches c ?w1 ?w"
    using w2(2) w3(2) w4(2) touches_simps(8) [of c w4] by (blast intro: touches_trans)
  have o: "only c w ?w"
    using touches_only [OF t] by (auto simp: only_def intro: same_top_trans [of _ ?w1])
  have "uninit_cause P e c w = Some (OK, ?w)"
    using s(1) w2(1) w3(1) w4(1) by (simp add: uninit_cause_def Let_def)
  moreover have "idle_ok P (A - {c}) ?w"
    using assms(3) o w3(4,5) w4(4) by (auto simp: einv_def idle_ok_def only_def)
  moreover have "control (dyn ?w c) = control (dyn w c)"
    using t by (simp add: touches_def)
  moreover have "queues_ok P (Q - {c}) ?w"
    using s(2) queues_ok_touches [OF t] by simp
  ultimately show ?thesis
    using w4(3) o unfolding einv_def by auto
qed

lemma reinit_cause_ok:
  assumes "tree_ok P" and "engine_env_ok base ar cap e" and "einv base ar nt P X A A w" and "c \<in> prof_causes P"
    and "measurement_counter (dyn w c) = 0 \<longleftrightarrow> c \<notin> A" and "c \<in> A \<longrightarrow> biased (cause_at P c) (dyn w c)" and "nt < cap"
  shows "\<exists>r w'. reinit_cause P e c w = Some (r, w') \<and> 0 \<le> r \<and> only c w w' \<and>
    einv base ar (Suc nt) P X (insert c A) (insert c A) w' \<and> measurement_counter (dyn w' c) \<noteq> 0 \<and>
    \<not> triggered (dyn w' c) \<and> threshold_counter (dyn w' c) = threshold_count (cause_at P c) \<and>
    biased (cause_at P c) (dyn w' c)"
proof (cases "measurement_counter (dyn w c) = 0")
  case True
  then obtain r w' where "init_cause P e c w = Some (r, w')" "0 \<le> r" "only c w w'"
    "einv base ar (Suc nt) P X (insert c A) (insert c A) w'" "started (cause_at P c) (dyn w' c)"
    using init_cause_ok [OF assms(1-4) _ _ assms(7)] assms(5) by blast
  moreover then have "measurement_counter (dyn w' c) \<noteq> 0" "\<not> triggered (dyn w' c)"
    "threshold_counter (dyn w' c) = threshold_count (cause_at P c)" "biased (cause_at P c) (dyn w' c)"
    using started_biased by (auto simp: started_def split: if_splits)
  ultimately show ?thesis using True by (simp add: reinit_cause_def)
next
  case False
  let ?w = "upd_dyn c (\<lambda>d. d\<lparr>triggered := False, threshold_counter := threshold_count (cause_at P c)\<rparr>) w"
  have "insert c A = A" using assms(5) False by auto
  moreover have "cause_timers_ok base ar nt P X ?w"
    using assms(3) cause_timers_ok_cong [of ?w w] by (auto simp: einv_def)
  then have "cause_timers_ok base ar (Suc nt) P X ?w"
    by (rule cause_timers_ok_mono) simp
  moreover have "queues_ok P A ?w"
    using assms(3) queues_ok_cong [of ?w w] by (simp add: einv_def)
  moreover have "idle_ok P A ?w"
    using assms(3) by (auto simp: einv_def idle_ok_def)
  moreover have "biased (cause_at P c) (dyn ?w c)"
    using assms(5,6) False by (simp add: biased_def)
  ultimately show ?thesis
    using False by (auto simp: reinit_cause_def einv_def only_def)
qed

end
