(* ===== verification/Engine_States.thy ===== *)
theory Engine_States
  imports Engine_Invariant
begin

text \<open>
  Starting, restarting and stopping all causes of an event and of a state keeps the invariant and, with the
  environment working, always succeeds: the assertions of \<open>init_cause\<close> against leaking a timer or a
  descriptor hold. On top of it, a change of state or purpose (\<open>init_profile\<close>) leaves exactly the causes of
  the new current state and of the global states of the new purpose started.
\<close>

section \<open>Loops over causes and events\<close>

lemma each_lift:
  assumes "\<And>ys x zs w. xs = ys @ x # zs \<Longrightarrow> I ys w \<Longrightarrow> \<exists>r w'. f x w = Some (r, w') \<and> 0 \<le> r \<and> I (ys @ [x]) w'"
    and "I [] w"
  shows "\<exists>w'. each f xs w = Some (OK, w') \<and> I xs w'"
proof -
  have "\<exists>w'. each f zs w = Some (OK, w') \<and> I (ys @ zs) w'" if "xs = ys @ zs" and "I ys w" for ys zs w
    using that
  proof (induction zs arbitrary: ys w)
    case (Cons z zs)
    obtain r w1 where w1: "f z w = Some (r, w1)" "0 \<le> r" "I (ys @ [z]) w1"
      using assms(1) [OF Cons.prems] by blast
    then show ?case
      using Cons.IH [of "ys @ [z]" w1] Cons.prems(1) by auto
  qed simp
  from this [of "[]" xs w] assms(2) show ?thesis by simp
qed

definition grown :: "nat \<Rightarrow> nat \<Rightarrow> nat \<Rightarrow> profile \<Rightarrow> addr set \<Rightarrow> cause_p set \<Rightarrow> (cause_p \<Rightarrow> cause_dyn \<Rightarrow> bool) \<Rightarrow> engine \<Rightarrow>
    cause_p list \<Rightarrow> engine \<Rightarrow> bool" where
  "grown base ar nt P X A R w0 cs w \<longleftrightarrow>
     einv base ar (nt + length cs) P X (A \<union> set cs) (A \<union> set cs) w \<and> same_top w0 w \<and> (\<forall>d. d \<notin> set cs \<longrightarrow> dyn w d = dyn w0 d) \<and>
     (\<forall>c \<in> set cs. R c (dyn w c))"

definition stopped :: "nat \<Rightarrow> nat \<Rightarrow> nat \<Rightarrow> profile \<Rightarrow> addr set \<Rightarrow> cause_p set \<Rightarrow> cause_p set \<Rightarrow> engine \<Rightarrow> cause_p list \<Rightarrow> engine \<Rightarrow> bool" where
  "stopped base ar nt P X A Q w0 cs w \<longleftrightarrow>
     einv base ar nt P X (A - set cs) (Q - set cs) w \<and> same_top w0 w \<and> (\<forall>d. d \<notin> set cs \<longrightarrow> dyn w d = dyn w0 d) \<and>
     (\<forall>d. control (dyn w d) = control (dyn w0 d))"

lemma grownD:
  assumes "grown base ar nt P X A R w0 cs w"
  shows "einv base ar (nt + length cs) P X (A \<union> set cs) (A \<union> set cs) w" and "same_top w0 w"
    and "d \<notin> set cs \<Longrightarrow> dyn w d = dyn w0 d" and "c \<in> set cs \<Longrightarrow> R c (dyn w c)"
  using assms by (auto simp: grown_def)

lemma stoppedD:
  assumes "stopped base ar nt P X A Q w0 cs w"
  shows "einv base ar nt P X (A - set cs) (Q - set cs) w" and "same_top w0 w"
    and "d \<notin> set cs \<Longrightarrow> dyn w d = dyn w0 d" and "control (dyn w d') = control (dyn w0 d')"
  using assms by (auto simp: stopped_def)

definition restarted :: "cause_conf \<Rightarrow> cause_dyn \<Rightarrow> bool" where
  "restarted cf d \<longleftrightarrow>
     measurement_counter d \<noteq> 0 \<and> \<not> triggered d \<and> threshold_counter d = threshold_count cf \<and> biased cf d"

lemma einv_cong:
  assumes "dyn w' = dyn w" and "core w' = core w" and "active_causes w' = active_causes w" and "active_entry w' = active_entry w"
  shows "einv base ar nt P X A Q w' = einv base ar nt P X A Q w"
  by (simp add: einv_def cause_timers_ok_def idle_ok_def queues_ok_def assms)

lemma einv_frame [simp]:
  "einv base ar nt P X A Q (w\<lparr>expected_order_id := f\<rparr>) = einv base ar nt P X A Q w"
  "einv base ar nt P X A Q (w\<lparr>asked := n\<rparr>) = einv base ar nt P X A Q w"
  "einv base ar nt P X A Q (w\<lparr>trace := t\<rparr>) = einv base ar nt P X A Q w"
  "einv base ar nt P X A Q (w\<lparr>rtc := r\<rparr>) = einv base ar nt P X A Q w"
  "einv base ar nt P X A Q (w\<lparr>global_states := gs\<rparr>) = einv base ar nt P X A Q w"
  "einv base ar nt P X A Q (w\<lparr>current_state := cs\<rparr>) = einv base ar nt P X A Q w"
  "einv base ar nt P X A Q (w\<lparr>current_purpose := cp\<rparr>) = einv base ar nt P X A Q w"
  "einv base ar nt P X A Q (w\<lparr>engine_state := es\<rparr>) = einv base ar nt P X A Q w"
  "einv base ar nt P X A Q (w\<lparr>engine_sms_limit := l\<rparr>) = einv base ar nt P X A Q w"
  "einv base ar nt P X A Q (emit a w) = einv base ar nt P X A Q w"
  by ((rule einv_cong; simp))+

lemma same_top_expected [simp]: "same_top w0 (w\<lparr>expected_order_id := f\<rparr>) = same_top w0 w"
  by (simp add: same_top_def)

lemma grown_expected [simp]: "grown base ar nt P X A R w0 cs (w\<lparr>expected_order_id := f\<rparr>) = grown base ar nt P X A R w0 cs w"
  by (simp add: grown_def)

lemma stopped_expected [simp]: "stopped base ar nt P X A Q w0 cs (w\<lparr>expected_order_id := f\<rparr>) = stopped base ar nt P X A Q w0 cs w"
  by (simp add: stopped_def)

text \<open>A step for each cause gives one for each event, and that one for the state.\<close>

definition cause_step :: "profile \<Rightarrow> (cause_p \<Rightarrow> int eng) \<Rightarrow> (cause_p list \<Rightarrow> engine \<Rightarrow> bool) \<Rightarrow> cause_p list \<Rightarrow> bool" where
  "cause_step P f I all \<longleftrightarrow>
     (\<forall>ys c zs w. all = ys @ c # zs \<longrightarrow> I ys w \<longrightarrow> (\<exists>r w'. f c w = Some (r, w') \<and> 0 \<le> r \<and> I (ys @ [c]) w'))"

lemma init_event_lift:
  assumes "cause_step P f I (pre @ causes (event_at P ev) @ post)" and "I pre w"
    and "\<And>cs w g. I cs (w\<lparr>expected_order_id := g\<rparr>) = I cs w"
  shows "\<exists>w'. init_event P f ev w = Some (OK, w') \<and> I (pre @ causes (event_at P ev)) w'"
proof -
  have "\<exists>r w'. f c w = Some (r, w') \<and> 0 \<le> r \<and> I (pre @ (ys @ [c])) w'"
    if "causes (event_at P ev) = ys @ c # zs" and "I (pre @ ys) w" for ys c zs w
  proof -
    have "pre @ causes (event_at P ev) @ post = (pre @ ys) @ c # (zs @ post)"
      using that(1) by simp
    then have "\<exists>r w'. f c w = Some (r, w') \<and> 0 \<le> r \<and> I ((pre @ ys) @ [c]) w'"
      using assms(1) that(2) unfolding cause_step_def by blast
    then show ?thesis by simp
  qed
  then have "\<exists>w'. each f (causes (event_at P ev)) w = Some (OK, w') \<and> I (pre @ causes (event_at P ev)) w'"
    using assms(2) by (intro each_lift) simp_all
  then obtain w' where w': "each f (causes (event_at P ev)) w = Some (OK, w')" "I (pre @ causes (event_at P ev)) w'"
    by blast
  then show ?thesis
    using assms(3) by (simp add: init_event_def)
qed

lemma init_state_lift:
  assumes "cause_step P f I (causes_of P st)" and "I [] (w\<lparr>active_causes := (active_causes w)(st := sq_init)\<rparr>)"
    and "\<And>cs w g. I cs (w\<lparr>expected_order_id := g\<rparr>) = I cs w"
  shows "\<exists>w'. init_state P f st w = Some (OK, w') \<and> I (causes_of P st) w'"
proof -
  let ?cs = "\<lambda>evs. concat (map (\<lambda>ev. causes (event_at P ev)) evs)"
  have "\<exists>r w'. init_event P f ev w = Some (r, w') \<and> 0 \<le> r \<and> I (?cs (pre @ [ev])) w'"
    if "state_events (state_at P st) = pre @ ev # post" and "I (?cs pre) w" for pre ev post w
  proof -
    have "cause_step P f I (?cs pre @ causes (event_at P ev) @ ?cs post)"
      using assms(1) that(1) by (simp add: causes_of_def)
    from init_event_lift [OF this that(2) assms(3)] show ?thesis by auto
  qed
  then have "\<exists>w'. each (init_event P f) (state_events (state_at P st)) (w\<lparr>active_causes := (active_causes w)(st := sq_init)\<rparr>) =
      Some (OK, w') \<and> I (?cs (state_events (state_at P st))) w'"
    using assms(2) by (intro each_lift [where I = "\<lambda>evs. I (?cs evs)"]) simp_all
  then show ?thesis by (simp add: init_state_def causes_of_def)
qed

section \<open>Starting, restarting and stopping\<close>

lemma init_step:
  assumes "tree_ok P" and "engine_env_ok base ar cap e" and "set all \<subseteq> prof_causes P" and "distinct all" and "set all \<inter> A = {}"
    and "nt + length all \<le> cap"
  shows "cause_step P (init_cause P e) (grown base ar nt P X A (\<lambda>c. started (cause_at P c)) w0) all"
  unfolding cause_step_def
proof (intro allI impI)
  fix ys c zs w
  assume all: "all = ys @ c # zs" and I: "grown base ar nt P X A (\<lambda>c. started (cause_at P c)) w0 ys w"
  have c: "c \<in> prof_causes P" "c \<notin> A \<union> set ys" and room: "nt + length ys < cap"
    using assms(3-6) all by auto
  obtain r w' where w': "init_cause P e c w = Some (r, w')" "0 \<le> r" "only c w w'"
    "einv base ar (Suc (nt + length ys)) P X (insert c (A \<union> set ys)) (insert c (A \<union> set ys)) w'" "started (cause_at P c) (dyn w' c)"
    using init_cause_ok [OF assms(1,2) grownD(1) [OF I] c(1,2,2) room] by blast
  have "grown base ar nt P X A (\<lambda>c. started (cause_at P c)) w0 (ys @ [c]) w'"
    using I w'(3-5) c(2) by (auto simp: grown_def only_def intro: same_top_trans)
  with w'(1,2) show "\<exists>r w'. init_cause P e c w = Some (r, w') \<and> 0 \<le> r \<and>
      grown base ar nt P X A (\<lambda>c. started (cause_at P c)) w0 (ys @ [c]) w'" by blast
qed

lemma reinit_step:
  assumes "tree_ok P" and "engine_env_ok base ar cap e" and "set all \<subseteq> prof_causes P" and "distinct all"
    and "\<forall>c \<in> set all. measurement_counter (dyn w0 c) = 0 \<longleftrightarrow> c \<notin> A"
    and "\<forall>c \<in> A. biased (cause_at P c) (dyn w0 c)" and "nt + length all \<le> cap"
  shows "cause_step P (reinit_cause P e) (grown base ar nt P X A (\<lambda>c. restarted (cause_at P c)) w0) all"
  unfolding cause_step_def
proof (intro allI impI)
  fix ys c zs w
  assume all: "all = ys @ c # zs" and I: "grown base ar nt P X A (\<lambda>c. restarted (cause_at P c)) w0 ys w"
  have c: "c \<in> prof_causes P" "c \<notin> set ys" "c \<in> set all" and room: "nt + length ys < cap"
    using assms(3,4,7) all by auto
  have "measurement_counter (dyn w c) = 0 \<longleftrightarrow> c \<notin> A \<union> set ys"
    and "c \<in> A \<union> set ys \<longrightarrow> biased (cause_at P c) (dyn w c)"
    using assms(5,6) I c by (auto simp: grown_def)
  then obtain r w' where w': "reinit_cause P e c w = Some (r, w')" "0 \<le> r" "only c w w'"
    "einv base ar (Suc (nt + length ys)) P X (insert c (A \<union> set ys)) (insert c (A \<union> set ys)) w'" "restarted (cause_at P c) (dyn w' c)"
    using reinit_cause_ok [OF assms(1,2) grownD(1) [OF I] c(1) _ _ room] unfolding restarted_def by blast
  have "grown base ar nt P X A (\<lambda>c. restarted (cause_at P c)) w0 (ys @ [c]) w'"
    using I w'(3-5) c(2) by (auto simp: grown_def only_def intro: same_top_trans)
  with w'(1,2) show "\<exists>r w'. reinit_cause P e c w = Some (r, w') \<and> 0 \<le> r \<and>
      grown base ar nt P X A (\<lambda>c. restarted (cause_at P c)) w0 (ys @ [c]) w'" by blast
qed

lemma uninit_step:
  assumes "tree_ok P" and "engine_env_ok base ar cap e" and "set all \<subseteq> prof_causes P"
  shows "cause_step P (uninit_cause P e) (stopped base ar nt P X A Q w0) all"
  unfolding cause_step_def
proof (intro allI impI)
  fix ys c zs w
  assume all: "all = ys @ c # zs" and I: "stopped base ar nt P X A Q w0 ys w"
  have c: "c \<in> prof_causes P" using assms(3) all by auto
  obtain w' where w': "uninit_cause P e c w = Some (OK, w')" "only c w w'" "control (dyn w' c) = control (dyn w c)"
    "einv base ar nt P X (A - set ys - {c}) (Q - set ys - {c}) w'"
    using uninit_cause_ok [OF assms(1,2) stoppedD(1) [OF I] c] by blast
  have "control (dyn w' d) = control (dyn w0 d)" for d
    using w'(2,3) I by (cases "d = c") (auto simp: stopped_def only_def)
  moreover have "same_top w0 w'"
    using stoppedD(2) [OF I] w'(2) unfolding only_def by (blast intro: same_top_trans)
  moreover have "dyn w' d = dyn w0 d" if "d \<notin> set (ys @ [c])" for d
    using that stoppedD(3) [OF I] w'(2) by (simp add: only_def)
  moreover have "A - set ys - {c} = A - set (ys @ [c])" "Q - set ys - {c} = Q - set (ys @ [c])"
    by auto
  ultimately have "stopped base ar nt P X A Q w0 (ys @ [c]) w'"
    using w'(4) unfolding stopped_def by simp
  with w'(1) show "\<exists>r w'. uninit_cause P e c w = Some (r, w') \<and> 0 \<le> r \<and> stopped base ar nt P X A Q w0 (ys @ [c]) w'" by auto
qed

text \<open>Resetting the queue of a state.\<close>

lemma queues_ok_reset:
  assumes "tree_ok P" and "queues_ok P Q w" and "st \<in> set (all_states P)"
  shows "queues_ok P (Q - set (causes_of P st)) (w\<lparr>active_causes := (active_causes w)(st := sq_init)\<rparr>)"
  by (rule queues_ok_update [OF assms(1,2,3) sq_repr_init]) auto

lemma einv_reset:
  assumes "tree_ok P" and "einv base ar nt P X A Q w" and "st \<in> set (all_states P)"
  shows "einv base ar nt P X A (Q - set (causes_of P st)) (w\<lparr>active_causes := (active_causes w)(st := sq_init)\<rparr>)"
  using assms queues_ok_reset [OF assms(1) _ assms(3)]
  by (auto simp: einv_def cause_timers_ok_def idle_ok_def)

lemma causes_of_prof: "st \<in> set (all_states P) \<Longrightarrow> set (causes_of P st) \<subseteq> prof_causes P"
  by (auto simp: prof_causes_def)

lemma causes_of_distinct: "tree_ok P \<Longrightarrow> st \<in> set (all_states P) \<Longrightarrow> distinct (causes_of P st)"
  by (simp add: tree_ok_def)

lemma init_state_init_ok:
  assumes "tree_ok P" and "engine_env_ok base ar cap e" and "einv base ar nt P X A A w" and "st \<in> set (all_states P)"
    and "set (causes_of P st) \<inter> A = {}" and "nt + length (causes_of P st) \<le> cap"
  shows "\<exists>w'. init_state P (init_cause P e) st w = Some (OK, w') \<and>
    grown base ar nt P X A (\<lambda>c. started (cause_at P c)) w (causes_of P st) w'"
proof -
  let ?w = "w\<lparr>active_causes := (active_causes w)(st := sq_init)\<rparr>"
  have "einv base ar nt P X A A ?w"
    using einv_reset [OF assms(1,3,4)] assms(5) by (simp add: Diff_triv Int_commute)
  then have "grown base ar nt P X A (\<lambda>c. started (cause_at P c)) w [] ?w"
    by (simp add: grown_def same_top_def)
  then show ?thesis
    using init_step [OF assms(1,2) causes_of_prof [OF assms(4)] causes_of_distinct [OF assms(1,4)] assms(5,6)]
    by (intro init_state_lift) simp_all
qed

lemma init_state_uninit_ok:
  assumes "tree_ok P" and "engine_env_ok base ar cap e" and "einv base ar nt P X A A w" and "st \<in> set (all_states P)"
  shows "\<exists>w'. init_state P (uninit_cause P e) st w = Some (OK, w') \<and>
    stopped base ar nt P X A A w (causes_of P st) w'"
proof -
  let ?w = "w\<lparr>active_causes := (active_causes w)(st := sq_init)\<rparr>"
  have "stopped base ar nt P X A (A - set (causes_of P st)) w [] ?w"
    using einv_reset [OF assms(1,3,4)] by (simp add: stopped_def same_top_def)
  then obtain w' where "init_state P (uninit_cause P e) st w = Some (OK, w')"
    "stopped base ar nt P X A (A - set (causes_of P st)) w (causes_of P st) w'"
    using init_state_lift [OF uninit_step [OF assms(1,2) causes_of_prof [OF assms(4)]]] stopped_expected by blast
  then show ?thesis by (auto simp: stopped_def)
qed

lemma init_event_reinit_ok:
  assumes "tree_ok P" and "engine_env_ok base ar cap e" and "einv base ar nt P X A A w"
    and "set (causes (event_at P ev)) \<subseteq> prof_causes P" and "distinct (causes (event_at P ev))"
    and "\<forall>c \<in> set (causes (event_at P ev)). measurement_counter (dyn w c) = 0 \<longleftrightarrow> c \<notin> A"
    and "\<forall>c \<in> A. biased (cause_at P c) (dyn w c)" and "nt + length (causes (event_at P ev)) \<le> cap"
  shows "\<exists>w'. init_event P (reinit_cause P e) ev w = Some (OK, w') \<and>
    grown base ar nt P X A (\<lambda>c. restarted (cause_at P c)) w (causes (event_at P ev)) w'"
proof -
  have "grown base ar nt P X A (\<lambda>c. restarted (cause_at P c)) w [] w"
    using assms(3) by (simp add: grown_def)
  then show ?thesis
    using init_event_lift [of P "reinit_cause P e" "grown base ar nt P X A (\<lambda>c. restarted (cause_at P c)) w" "[]" ev "[]" w]
      reinit_step [OF assms(1,2,4,5,6,7,8)] by simp
qed

section \<open>Global states\<close>

definition globals_of :: "profile \<Rightarrow> purpose_p \<Rightarrow> state_p list" where
  "globals_of P pu = filter (\<lambda>st. isGlobal (state_at P st)) (states (purpose_at P pu))"

definition causes_in :: "profile \<Rightarrow> state_p list \<Rightarrow> cause_p set" where
  "causes_in P sts = (\<Union>st \<in> set sts. set (causes_of P st))"

definition same_but_globals :: "engine \<Rightarrow> engine \<Rightarrow> bool" where
  "same_but_globals w w' \<longleftrightarrow> same_top w (w'\<lparr>global_states := global_states w\<rparr>)"

lemma causes_in_simps [simp]:
  "causes_in P [] = {}" "causes_in P (st # sts) = set (causes_of P st) \<union> causes_in P sts"
  "causes_in P (xs @ ys) = causes_in P xs \<union> causes_in P ys"
  by (auto simp: causes_in_def)

lemma causes_disjoint:
  assumes "tree_ok P" and "s \<in> set (all_states P)" and "t \<in> set (all_states P)" and "s \<noteq> t"
  shows "set (causes_of P s) \<inter> set (causes_of P t) = {}"
  using state_of_cause [OF assms(1)] assms(2-4) by blast

lemma causes_in_disjoint:
  assumes "tree_ok P" and "s \<in> set (all_states P)" and "set ts \<subseteq> set (all_states P)" and "s \<notin> set ts"
  shows "set (causes_of P s) \<inter> causes_in P ts = {}"
  using causes_disjoint [OF assms(1,2)] assms(3,4) unfolding causes_in_def by blast

lemma states_all: "pu \<in> set (purposes P) \<Longrightarrow> set (states (purpose_at P pu)) \<subseteq> set (all_states P)"
  by (auto simp: all_states_def)

lemma distinct_states:
  assumes "tree_ok P" and "pu \<in> set (purposes P)"
  shows "distinct (states (purpose_at P pu))"
proof -
  obtain ys zs where "purposes P = ys @ pu # zs" using assms(2) by (meson split_list)
  then show ?thesis using assms(1) by (simp add: tree_ok_def all_states_def)
qed

lemma card_causes_in:
  assumes "tree_ok P" and "st \<in> set (all_states P)" and "set ts \<subseteq> set (all_states P)" and "st \<notin> set ts"
  shows "card (causes_in P (ts @ [st])) = card (causes_in P ts) + length (causes_of P st)"
proof -
  have "card (causes_in P (ts @ [st])) = card (causes_in P ts) + card (set (causes_of P st))"
    using causes_in_disjoint [OF assms] by (simp add: card_Un_disjoint Int_commute causes_in_def)
  then show ?thesis
    using causes_of_distinct [OF assms(1,2)] by (simp add: distinct_card)
qed

lemma init_global_states_ok:
  assumes "tree_ok P" and "engine_env_ok base ar cap e" and "einv base ar nt P X A A w" and "pu \<in> set (purposes P)"
    and "causes_in P (globals_of P pu) \<inter> A = {}" and "nt + card (causes_in P (globals_of P pu)) \<le> cap"
  shows "\<exists>w'. init_global_states P e pu w = Some (OK, w') \<and>
    einv base ar (nt + card (causes_in P (globals_of P pu))) P X (A \<union> causes_in P (globals_of P pu)) (A \<union> causes_in P (globals_of P pu)) w' \<and>
    same_but_globals w w' \<and> global_states w' = global_states w @ globals_of P pu \<and>
    (\<forall>d. d \<notin> causes_in P (globals_of P pu) \<longrightarrow> dyn w' d = dyn w d) \<and>
    (\<forall>c \<in> causes_in P (globals_of P pu). started (cause_at P c) (dyn w' c))"
proof -
  let ?g = "\<lambda>sts. filter (\<lambda>st. isGlobal (state_at P st)) sts"
  let ?I = "\<lambda>sts w'. einv base ar (nt + card (causes_in P (?g sts))) P X (A \<union> causes_in P (?g sts)) (A \<union> causes_in P (?g sts)) w' \<and>
    same_but_globals w w' \<and> global_states w' = global_states w @ ?g sts \<and>
    (\<forall>d. d \<notin> causes_in P (?g sts) \<longrightarrow> dyn w' d = dyn w d) \<and>
    (\<forall>c \<in> causes_in P (?g sts). started (cause_at P c) (dyn w' c))"
  let ?f = "\<lambda>st w. if isGlobal (state_at P st) then add_global_state P e st w else Some (OK, w)"
  have "\<exists>r w2. ?f st w1 = Some (r, w2) \<and> 0 \<le> r \<and> ?I (pre @ [st]) w2"
    if split: "states (purpose_at P pu) = pre @ st # post" and I: "?I pre w1" for pre st post w1
  proof (cases "isGlobal (state_at P st)")
    case True
    let ?w = "w1\<lparr>asked := Suc (asked w1), global_states := global_states w1 @ [st]\<rparr>"
    have st: "st \<in> set (all_states P)" and pre: "set (?g pre) \<subseteq> set (all_states P)" "st \<notin> set (?g pre)"
      using states_all [OF assms(4)] split distinct_states [OF assms(1,4)] by auto
    have disj: "set (causes_of P st) \<inter> (A \<union> causes_in P (?g pre)) = {}"
      using causes_in_disjoint [OF assms(1) st pre] assms(5) True split by (auto simp: globals_of_def)
    have count: "card (causes_in P (?g (pre @ [st]))) = card (causes_in P (?g pre)) + length (causes_of P st)"
      using card_causes_in [OF assms(1) st pre] True by simp
    have "card (causes_in P (?g (pre @ [st]))) \<le> card (causes_in P (globals_of P pu))"
      using split by (intro card_mono) (auto simp: globals_of_def causes_in_def)
    then have room: "nt + card (causes_in P (?g pre)) + length (causes_of P st) \<le> cap"
      using assms(6) count by simp
    have "einv base ar (nt + card (causes_in P (?g pre))) P X (A \<union> causes_in P (?g pre)) (A \<union> causes_in P (?g pre)) ?w"
      using I by (simp only: einv_frame)
    then obtain w2 where w2: "init_state P (init_cause P e) st ?w = Some (OK, w2)"
      "grown base ar (nt + card (causes_in P (?g pre))) P X (A \<union> causes_in P (?g pre)) (\<lambda>c. started (cause_at P c)) ?w (causes_of P st) w2"
      using init_state_init_ok [OF assms(1,2) _ st disj room] by blast
    have "add_global_state P e st w1 = Some (OK, w2)"
      using w2(1) env_okD(5) [OF assms(2)] by (simp add: add_global_state_def ask_def)
    moreover have "A \<union> causes_in P (?g (pre @ [st])) = A \<union> causes_in P (?g pre) \<union> set (causes_of P st)"
      using True by auto
    moreover have "same_but_globals w w2" "global_states w2 = global_states w @ ?g (pre @ [st])"
      using I grownD(2) [OF w2(2)] True by (auto simp: same_but_globals_def same_top_def)
    moreover have "dyn w2 d = dyn w d" if "d \<notin> causes_in P (?g (pre @ [st]))" for d
      using that I grownD(3) [OF w2(2), of d] True by auto
    moreover have "started (cause_at P c) (dyn w2 c)" if "c \<in> causes_in P (?g (pre @ [st]))" for c
      using that I grownD(3,4) [OF w2(2), of c] True by (cases "c \<in> set (causes_of P st)") auto
    ultimately show ?thesis
      using True grownD(1) [OF w2(2)] unfolding count add.assoc by auto
  next
    case False
    then show ?thesis using I by auto
  qed
  then have "\<exists>w'. each ?f (states (purpose_at P pu)) w = Some (OK, w') \<and> ?I (states (purpose_at P pu)) w'"
    using assms(3) by (intro each_lift) (auto simp: same_but_globals_def)
  then show ?thesis by (simp add: init_global_states_def globals_of_def)
qed

lemma uninit_each_ok:
  assumes "tree_ok P" and "engine_env_ok base ar cap e" and "einv base ar nt P X A A w"
    and "set sts \<subseteq> set (all_states P)" and "\<forall>st \<in> set sts. isGlobal (state_at P st)"
  shows "\<exists>w'. uninit_each P e sts w = Some w' \<and>
    einv base ar nt P X (A - causes_in P sts) (A - causes_in P sts) w' \<and> same_top w w' \<and>
    (\<forall>d. d \<notin> causes_in P sts \<longrightarrow> dyn w' d = dyn w d) \<and> (\<forall>d. control (dyn w' d) = control (dyn w d))"
  using assms(3-5)
proof (induction sts arbitrary: A w)
  case (Cons st sts)
  obtain w1 where w1: "init_state P (uninit_cause P e) st w = Some (OK, w1)" "stopped base ar nt P X A A w (causes_of P st) w1"
    using init_state_uninit_ok [OF assms(1,2) Cons.prems(1), of st] Cons.prems(2) by auto
  obtain w' where w': "uninit_each P e sts w1 = Some w'"
    "einv base ar nt P X (A - set (causes_of P st) - causes_in P sts) (A - set (causes_of P st) - causes_in P sts) w'"
    "same_top w1 w'" "\<forall>d. d \<notin> causes_in P sts \<longrightarrow> dyn w' d = dyn w1 d" "\<forall>d. control (dyn w' d) = control (dyn w1 d)"
    using Cons.IH [OF stoppedD(1) [OF w1(2)]] Cons.prems(2,3) by auto
  have "uninit_each P e (st # sts) w = Some w'"
    using w1(1) w'(1) Cons.prems(3) by simp
  moreover have "A - set (causes_of P st) - causes_in P sts = A - causes_in P (st # sts)"
    by auto
  moreover have "same_top w w'"
    using stoppedD(2) [OF w1(2)] w'(3) by (rule same_top_trans)
  moreover have "dyn w' d = dyn w d" if "d \<notin> causes_in P (st # sts)" for d
    using that w'(4) stoppedD(3) [OF w1(2)] by simp
  moreover have "control (dyn w' d) = control (dyn w d)" for d
    using w'(5) stoppedD(4) [OF w1(2)] by simp
  ultimately show ?case
    using w'(2) by auto
qed simp

lemma uninit_global_states_ok:
  assumes "tree_ok P" and "engine_env_ok base ar cap e" and "einv base ar nt P X A A w"
    and "set (global_states w) \<subseteq> set (all_states P)" and "\<forall>st \<in> set (global_states w). isGlobal (state_at P st)"
  shows "\<exists>w'. uninit_global_states P e w = Some w' \<and>
    einv base ar nt P X (A - causes_in P (global_states w)) (A - causes_in P (global_states w)) w' \<and>
    same_but_globals w w' \<and> global_states w' = [] \<and>
    (\<forall>d. d \<notin> causes_in P (global_states w) \<longrightarrow> dyn w' d = dyn w d) \<and> (\<forall>d. control (dyn w' d) = control (dyn w d))"
proof -
  obtain w1 where w1: "uninit_each P e (global_states w) w = Some w1"
    "einv base ar nt P X (A - causes_in P (global_states w)) (A - causes_in P (global_states w)) w1" "same_top w w1"
    "\<forall>d. d \<notin> causes_in P (global_states w) \<longrightarrow> dyn w1 d = dyn w d" "\<forall>d. control (dyn w1 d) = control (dyn w d)"
    using uninit_each_ok [OF assms] by blast
  then show ?thesis
    by (auto simp: uninit_global_states_def same_but_globals_def same_top_def)
qed

end
