(* ===== verification/Engine_Machine.thy ===== *)
theory Engine_Machine
  imports Engine_States
begin

text \<open>
  The engine as a machine: the invariant \<open>running\<close> of the states between two samples, its preservation by a
  change of state and by the evaluation of a sample, and what a stop and a continue do. In a running engine
  the started causes are those of the current state and of the global states of the current purpose whose
  measurement counter has not reached zero.
\<close>

section \<open>The running engine\<close>

definition live_states :: "engine \<Rightarrow> state_p list" where
  "live_states w = (case current_state w of None \<Rightarrow> [] | Some st \<Rightarrow> [st]) @ global_states w"

definition active :: "profile \<Rightarrow> engine \<Rightarrow> cause_p set" where
  "active P w = {c \<in> causes_in P (live_states w). measurement_counter (dyn w c) \<noteq> 0}"

definition goto_ids :: "profile \<Rightarrow> int set" where
  "goto_ids P = insert (- 1) {gotoStId (event_at P ev) | ev st. st \<in> set (all_states P) \<and> ev \<in> set (state_events (state_at P st))}"

text \<open>No transition and no initial state is a global state: a global state is started with its purpose, and
  entering it as well would start its causes twice.\<close>

definition profile_ok :: "profile \<Rightarrow> bool" where
  "profile_ok P \<longleftrightarrow> tree_ok P \<and>
     (\<forall>pu \<in> set (purposes P). \<forall>i \<in> goto_ids P. \<forall>st. find_state_by_id P pu i = Some st \<longrightarrow> \<not> isGlobal (state_at P st))"

definition located :: "profile \<Rightarrow> purpose_p \<Rightarrow> state_p \<Rightarrow> engine \<Rightarrow> bool" where
  "located P pu st w \<longleftrightarrow>
     current_purpose w = Some pu \<and> current_state w = Some st \<and> pu \<in> set (purposes P) \<and>
     st \<in> set (states (purpose_at P pu)) \<and> \<not> isGlobal (state_at P st)"

definition running :: "nat \<Rightarrow> nat \<Rightarrow> nat \<Rightarrow> profile \<Rightarrow> addr set \<Rightarrow> engine \<Rightarrow> bool" where
  "running base ar nt P X w \<longleftrightarrow>
     (\<exists>pu st. located P pu st w \<and> global_states w = globals_of P pu) \<and>
     einv base ar nt P X (active P w) (active P w) w \<and>
     (\<forall>c \<in> active P w. biased (cause_at P c) (dyn w c))"

lemma find_state_SomeD:
  assumes "find_state_by_id P pu i = Some st"
  shows "st \<in> set (states (purpose_at P pu))"
    and "stId (state_at P st) = (if i = - 1 then initStId (purpose_at P pu) else i)"
  using assms by (auto simp: find_state_by_id_def Let_def find_Some_iff in_set_conv_nth)

lemma find_purpose_SomeD:
  assumes "find_purpose_by_id P i = Some pu"
  shows "pu \<in> set (purposes P)" and "puId (purpose_at P pu) = (if i = - 1 then initPuId P else i)"
  using assms by (auto simp: find_purpose_by_id_def Let_def find_Some_iff in_set_conv_nth)

lemma globals_all: "pu \<in> set (purposes P) \<Longrightarrow> set (globals_of P pu) \<subseteq> set (all_states P)"
  using states_all by (fastforce simp: globals_of_def)

lemma started_counter: "started cf d \<Longrightarrow> measurement_counter d \<noteq> 0"
  by (simp add: started_def)

lemma control_counter: "control d = control d' \<Longrightarrow> measurement_counter d = measurement_counter d'"
  by (simp add: control_def)

section \<open>Changing state and purpose\<close>

lemma init_purpose_ok:
  assumes "profile_ok P" and "engine_env_ok base ar cap e" and "einv base ar nt P X A A w" and "A \<subseteq> causes_in P (live_states w)"
    and "pu \<in> set (purposes P)" and "find_state_by_id P pu i = Some st" and "i \<in> goto_ids P"
    and "set (live_states w) \<subseteq> set (all_states P)" and "\<forall>s \<in> set (global_states w). isGlobal (state_at P s)"
    and "current_state w \<noteq> Some st" and "\<forall>s. current_state w = Some s \<longrightarrow> \<not> isGlobal (state_at P s)"
    and "nt + length (causes_of P st) \<le> cap"
  shows "\<exists>w'. init_purpose P e pu i w = Some (OK, w') \<and> current_state w' = Some st \<and>
    same_top w (w'\<lparr>current_state := current_state w\<rparr>) \<and>
    einv base ar (nt + length (causes_of P st)) P X (set (causes_of P st) \<union> A \<inter> causes_in P (global_states w))
      (set (causes_of P st) \<union> A \<inter> causes_in P (global_states w)) w' \<and>
    (\<forall>c \<in> causes_in P (global_states w). dyn w' c = dyn w c) \<and>
    (\<forall>c \<in> set (causes_of P st). started (cause_at P c) (dyn w' c))"
proof -
  have tree: "tree_ok P" using assms(1) by (simp add: profile_ok_def)
  have st: "st \<in> set (all_states P)" "\<not> isGlobal (state_at P st)"
    using find_state_SomeD(1) [OF assms(6)] states_all [OF assms(5)] assms(1,5,6,7) by (auto simp: profile_ok_def)
  have out: "st \<notin> set (live_states w)"
    using st(2) assms(9,10) by (auto simp: live_states_def split: option.splits)
  then have none: "set (causes_of P st) \<inter> A = {}" "set (causes_of P st) \<inter> causes_in P (global_states w) = {}"
    using causes_in_disjoint [OF tree st(1) assms(8)] assms(4) by (auto simp: live_states_def)
  let ?B = "A \<inter> causes_in P (global_states w)"
  obtain w1 where w1: "(case current_state w of None \<Rightarrow> Some (OK, w) | Some old \<Rightarrow> init_state P (uninit_cause P e) old w) = Some (OK, w1)"
    "einv base ar nt P X ?B ?B w1" "same_top w w1" "\<forall>d \<in> causes_in P (global_states w). dyn w1 d = dyn w d"
  proof (cases "current_state w")
    case None
    then have "?B = A" using assms(4) by (auto simp: live_states_def)
    then show ?thesis using assms(3) None that [of w] by simp
  next
    case (Some old)
    then have old: "old \<in> set (all_states P)" "old \<notin> set (global_states w)" "set (global_states w) \<subseteq> set (all_states P)"
      using assms(8,9,11) by (auto simp: live_states_def)
    then obtain w1 where "init_state P (uninit_cause P e) old w = Some (OK, w1)" "stopped base ar nt P X A A w (causes_of P old) w1"
      using init_state_uninit_ok [OF tree assms(2,3)] by blast
    moreover have "A - set (causes_of P old) = ?B"
      using assms(4) Some causes_in_disjoint [OF tree old(1,3,2)] by (auto simp: live_states_def)
    moreover have "\<forall>d \<in> causes_in P (global_states w). d \<notin> set (causes_of P old)"
      using causes_in_disjoint [OF tree old(1,3,2)] by blast
    ultimately show ?thesis
      using Some that [of w1] by (auto simp: stopped_def)
  qed
  have "set (causes_of P st) \<inter> ?B = {}" using none by auto
  then obtain w2 where w2: "init_state P (init_cause P e) st w1 = Some (OK, w2)"
    "grown base ar nt P X ?B (\<lambda>c. started (cause_at P c)) w1 (causes_of P st) w2"
    using init_state_init_ok [OF tree assms(2) w1(2) st(1) _ assms(12)] by blast
  let ?w = "w2\<lparr>current_state := Some st\<rparr>"
  have "init_purpose P e pu i w = Some (OK, ?w)"
    using assms(6,10) w1(1) w2(1) by (simp add: init_purpose_def)
  moreover have "same_top w (?w\<lparr>current_state := current_state w\<rparr>)"
    using w1(3) grownD(2) [OF w2(2)] by (auto simp: same_top_def)
  moreover have "dyn ?w c = dyn w c" if "c \<in> causes_in P (global_states w)" for c
  proof -
    have "c \<notin> set (causes_of P st)" using that none(2) by blast
    then show ?thesis using grownD(3) [OF w2(2)] w1(4) that by simp
  qed
  ultimately show ?thesis
    using grownD(1,4) [OF w2(2)] by (intro exI [of _ ?w]) (auto simp: Un_commute)
qed

lemma live_after:
  assumes "current_state w = Some st"
  shows "causes_in P (live_states w) = set (causes_of P st) \<union> causes_in P (global_states w)"
  using assms by (simp add: live_states_def)

lemma finite_prof_causes: "finite (prof_causes P)"
  by (simp add: prof_causes_def)

lemma state_and_globals:
  assumes "tree_ok P" and "pu \<in> set (purposes P)" and "st \<in> set (all_states P)" and "\<not> isGlobal (state_at P st)"
  shows "length (causes_of P st) + card (causes_in P (globals_of P pu)) \<le> card (prof_causes P)"
proof -
  have "card (causes_in P (globals_of P pu @ [st])) \<le> card (prof_causes P)"
    using globals_all [OF assms(2)] assms(3) by (intro card_mono finite_prof_causes) (auto simp: causes_in_def prof_causes_def)
  then show ?thesis
    using card_causes_in [OF assms(1,3) globals_all [OF assms(2)]] assms(4) by (simp add: globals_of_def)
qed

lemma length_causes_of:
  assumes "tree_ok P" and "st \<in> set (all_states P)"
  shows "length (causes_of P st) \<le> card (prof_causes P)"
  using causes_of_distinct [OF assms] causes_of_prof [OF assms(2)] card_mono [OF finite_prof_causes]
  by (metis distinct_card)

lemma running_mono: "running base ar nt P X w \<Longrightarrow> nt \<le> nt' \<Longrightarrow> running base ar nt' P X w"
  by (auto simp: running_def intro: einv_mono)

lemma init_profile_ok:
  assumes "profile_ok P" and "engine_env_ok base ar cap e" and "einv base ar nt P X (active P w) (active P w) w"
    and "set (live_states w) \<subseteq> set (all_states P)" and "\<forall>s \<in> set (global_states w). isGlobal (state_at P s)"
    and "\<forall>s. current_state w = Some s \<longrightarrow> \<not> isGlobal (state_at P s)"
    and "\<forall>p. current_purpose w = Some p \<longrightarrow> global_states w = globals_of P p"
    and "find_purpose_by_id P i = Some pu" and "find_state_by_id P pu j = Some st" and "j \<in> goto_ids P"
    and "current_state w \<noteq> Some st" and "\<forall>c \<in> active P w. biased (cause_at P c) (dyn w c)"
    and "nt + card (prof_causes P) \<le> cap"
  shows "\<exists>w'. init_profile P e i j w = Some (OK, w') \<and> running base ar (nt + card (prof_causes P)) P X w' \<and> located P pu st w' \<and>
    engine_state w' = engine_state w \<and> (\<forall>c \<in> set (causes_of P st). started (cause_at P c) (dyn w' c))"
proof -
  have tree: "tree_ok P" using assms(1) by (simp add: profile_ok_def)
  have pu: "pu \<in> set (purposes P)" using find_purpose_SomeD(1) [OF assms(8)] .
  have st: "st \<in> set (states (purpose_at P pu))" "\<not> isGlobal (state_at P st)"
    using find_state_SomeD(1) [OF assms(9)] assms(1,9,10) pu by (auto simp: profile_ok_def)
  then have stall: "st \<in> set (all_states P)" using states_all [OF pu] by auto
  let ?A = "active P w" and ?G = "causes_in P (global_states w)" and ?S = "set (causes_of P st)"
  let ?l = "length (causes_of P st)"
  have room: "nt + ?l \<le> cap" "nt + ?l + card (causes_in P (globals_of P pu)) \<le> cap"
    using length_causes_of [OF tree stall] state_and_globals [OF tree pu stall st(2)] assms(13) by auto
  have sub: "?A \<subseteq> causes_in P (live_states w)" by (auto simp: active_def)
  have G: "?A \<inter> ?G = {c \<in> ?G. measurement_counter (dyn w c) \<noteq> 0}"
    by (auto simp: active_def live_states_def)
  obtain w1 where w1: "init_purpose P e pu j w = Some (OK, w1)" "current_state w1 = Some st"
    "same_top w (w1\<lparr>current_state := current_state w\<rparr>)" "einv base ar (nt + ?l) P X (?S \<union> ?A \<inter> ?G) (?S \<union> ?A \<inter> ?G) w1"
    "\<forall>c \<in> ?G. dyn w1 c = dyn w c" "\<forall>c \<in> ?S. started (cause_at P c) (dyn w1 c)"
    using init_purpose_ok [OF assms(1-3) sub pu assms(9,10,4,5,11,6) room(1)] by blast
  have top1: "current_purpose w1 = current_purpose w" "global_states w1 = global_states w" "engine_state w1 = engine_state w"
    using w1(3) by (auto simp: same_top_def)
  show ?thesis
  proof (cases "current_purpose w = Some pu")
    case True
    have "active P w1 = ?S \<union> {c \<in> ?G. measurement_counter (dyn w c) \<noteq> 0}"
      unfolding active_def live_after [OF w1(2)] top1 using w1(5,6) by (auto dest: started_counter)
    then have "active P w1 = ?S \<union> ?A \<inter> ?G"
      unfolding G .
    moreover have "located P pu st w1"
      using True top1 w1(2) pu st by (simp add: located_def)
    moreover have "\<forall>c \<in> ?S \<union> ?A \<inter> ?G. biased (cause_at P c) (dyn w1 c)"
      using w1(5,6) assms(12) started_biased by auto
    ultimately have "running base ar (nt + ?l) P X w1"
      using w1(4) assms(7) True top1(2) unfolding running_def by auto
    then have "running base ar (nt + card (prof_causes P)) P X w1"
      by (rule running_mono) (use length_causes_of [OF tree stall] in simp)
    moreover have "init_profile P e i j w = Some (OK, w1)"
      using assms(8) w1(1) True top1(1) by (simp add: init_profile_def)
    ultimately show ?thesis
      using top1 w1(6) \<open>located P pu st w1\<close> by auto
  next
    case False
    let ?g = "globals_of P pu"
    have gl: "set (global_states w1) \<subseteq> set (all_states P)" "\<forall>s \<in> set (global_states w1). isGlobal (state_at P s)"
      using assms(4,5) top1(2) by (auto simp: live_states_def)
    obtain w2 where w2: "uninit_global_states P e w1 = Some w2"
      "einv base ar (nt + ?l) P X ((?S \<union> ?A \<inter> ?G) - ?G) ((?S \<union> ?A \<inter> ?G) - ?G) w2"
      "same_but_globals w1 w2" "global_states w2 = []" "\<forall>d. d \<notin> ?G \<longrightarrow> dyn w2 d = dyn w1 d"
      "\<forall>d. control (dyn w2 d) = control (dyn w1 d)"
      using uninit_global_states_ok [OF tree assms(2) w1(4) gl] top1(2) by auto
    have "st \<notin> set (global_states w)" using st(2) assms(5) by auto
    then have "?S \<inter> ?G = {}"
      using causes_in_disjoint [OF tree stall] gl(1) top1(2) by simp
    then have S: "(?S \<union> ?A \<inter> ?G) - ?G = ?S" by auto
    have "?S \<inter> causes_in P ?g = {}"
      using st(2) by (intro causes_in_disjoint [OF tree stall globals_all [OF pu]]) (simp add: globals_of_def)
    then obtain w3 where w3: "init_global_states P e pu w2 = Some (OK, w3)"
      "einv base ar (nt + ?l + card (causes_in P ?g)) P X (?S \<union> causes_in P ?g) (?S \<union> causes_in P ?g) w3" "same_but_globals w2 w3"
      "global_states w3 = ?g" "\<forall>d. d \<notin> causes_in P ?g \<longrightarrow> dyn w3 d = dyn w2 d"
      "\<forall>c \<in> causes_in P ?g. started (cause_at P c) (dyn w3 c)"
      using init_global_states_ok [OF tree assms(2) w2(2) pu _ room(2)] S w2(4) by (auto simp: Int_commute)
    let ?w = "emit SendPing w3\<lparr>current_purpose := Some pu\<rparr>"
    have top: "current_state ?w = Some st" "engine_state ?w = engine_state w" "global_states ?w = ?g" "dyn ?w = dyn w3"
      using w2(3) w3(3,4) w1(2) top1 by (auto simp: same_but_globals_def same_top_def emit_def)
    have S3: "started (cause_at P c) (dyn w3 c)" if "c \<in> ?S" for c
      using that w1(6) w2(5) w3(5) \<open>?S \<inter> ?G = {}\<close> \<open>?S \<inter> causes_in P ?g = {}\<close> by (metis disjoint_iff)
    have "active P ?w = ?S \<union> causes_in P ?g"
      unfolding active_def live_after [OF top(1)] top(3,4)
      using S3 w3(6) by (auto dest: started_counter)
    moreover have "located P pu st ?w"
      using top(1) pu st by (simp add: located_def emit_def)
    moreover have "\<forall>c \<in> ?S \<union> causes_in P ?g. biased (cause_at P c) (dyn ?w c)"
      using S3 w3(6) top(4) started_biased by auto
    ultimately have "running base ar (nt + ?l + card (causes_in P ?g)) P X ?w"
      using w3(2) top(3) unfolding running_def by auto
    then have "running base ar (nt + card (prof_causes P)) P X ?w"
      by (rule running_mono) (use state_and_globals [OF tree pu stall st(2)] in simp)
    moreover have "init_profile P e i j w = Some (OK, ?w)"
      using assms(8) w1(1) False top1(1) w2(1) w3(1) by (simp add: init_profile_def)
    ultimately show ?thesis
      using top S3 \<open>located P pu st ?w\<close> by auto
  qed
qed

end
