(* ===== verification/Engine_Samples.thy ===== *)
theory Engine_Samples
  imports Engine_Machine
begin

text \<open>
  A sample of an active cause keeps the running engine running: whatever the thresholds decide, the
  counters, the order of causes, the actions of the event and the transition leave the invariant intact and
  nothing aborts. The conditions are on the profile (thresholds that can be evaluated on values of the type
  of the sensor) and on the environment.
\<close>

section \<open>What keeps the engine running\<close>

definition thresholds_ok :: "profile \<Rightarrow> bool" where
  "thresholds_ok P \<longleftrightarrow>
     (\<forall>c \<in> prof_causes P. \<forall>alloc b v. same_type (si_min (sense_info (cause_at P c))) v \<longrightarrow>
        (relative_active b \<longrightarrow> same_type (si_min (sense_info (cause_at P c))) (sense_bias b)) \<longrightarrow>
        check_all alloc b (thresholds (cause_at P c)) v True \<noteq> None)"

lemma running_cong:
  assumes "dyn w' = dyn w" and "core w' = core w" and "active_causes w' = active_causes w"
    and "active_entry w' = active_entry w" and "current_purpose w' = current_purpose w"
    and "current_state w' = current_state w" and "global_states w' = global_states w"
  shows "running base ar nt P X w' = running base ar nt P X w" and "active P w' = active P w"
    and "located P pu st w' = located P pu st w"
proof -
  show act: "active P w' = active P w"
    by (simp add: active_def live_states_def assms)
  show "located P pu st w' = located P pu st w" for pu st
    by (simp add: located_def assms)
  then show "running base ar nt P X w' = running base ar nt P X w"
    unfolding running_def act einv_cong [of w' w, OF assms(1-4)] assms(1,7) by simp
qed

lemma running_frame [simp]:
  "running base ar nt P X (w\<lparr>expected_order_id := f\<rparr>) = running base ar nt P X w"
  "running base ar nt P X (w\<lparr>asked := n\<rparr>) = running base ar nt P X w"
  "running base ar nt P X (w\<lparr>rtc := r\<rparr>) = running base ar nt P X w"
  "running base ar nt P X (w\<lparr>engine_state := s\<rparr>) = running base ar nt P X w"
  "running base ar nt P X (emit a w) = running base ar nt P X w"
  "active P (w\<lparr>expected_order_id := f\<rparr>) = active P w" "active P (w\<lparr>asked := n\<rparr>) = active P w"
  "active P (w\<lparr>rtc := r\<rparr>) = active P w" "active P (emit a w) = active P w"
  by (rule running_cong; simp add: emit_def)+

lemma active_upd:
  assumes "measurement_counter (f (dyn w c)) = 0 \<longleftrightarrow> measurement_counter (dyn w c) = 0"
  shows "active P (upd_dyn c f w) = active P w"
  using assms by (auto simp: active_def live_states_def upd_dyn_def)

lemma running_upd:
  assumes "running base ar nt P X w"
    and "timer_id (f (dyn w c)) = timer_id (dyn w c)" and "cause_fd (f (dyn w c)) = cause_fd (dyn w c)"
    and "measurement_counter (f (dyn w c)) = 0 \<longleftrightarrow> measurement_counter (dyn w c) = 0"
    and "biased (cause_at P c) (dyn w c) \<Longrightarrow> biased (cause_at P c) (f (dyn w c))"
  shows "running base ar nt P X (upd_dyn c f w)"
proof -
  let ?w = "upd_dyn c f w"
  have ein: "einv base ar nt P X (active P w) (active P w) ?w"
  proof -
    have "cause_timers_ok base ar nt P X ?w = cause_timers_ok base ar nt P X w"
      using assms(2) by (intro cause_timers_ok_cong) auto
    moreover have "queues_ok P (active P w) ?w = queues_ok P (active P w) w"
      by (intro queues_ok_cong) auto
    ultimately show ?thesis
      using assms(1-3) by (auto simp: running_def einv_def idle_ok_def)
  qed
  have act: "active P ?w = active P w"
    using assms(4) by (rule active_upd)
  have "located P pu st ?w = located P pu st w" "global_states ?w = global_states w" for pu st
    by (auto simp: located_def upd_dyn_def)
  then show ?thesis
    using assms(1,5) ein unfolding running_def act by auto
qed

lemma activeD:
  assumes "tree_ok P" and "running base ar nt P X w" and "c \<in> active P w"
  shows "\<exists>s. s \<in> set (live_states w) \<and> s \<in> set (all_states P) \<and> c_parent (cause_at P c) \<in> set (state_events (state_at P s)) \<and>
    c \<in> set (causes (event_at P (c_parent (cause_at P c))))"
    and "c \<in> prof_causes P"
proof -
  obtain pu st where l: "located P pu st w" "global_states w = globals_of P pu"
    using assms(2) by (auto simp: running_def)
  have sub: "set (live_states w) \<subseteq> set (all_states P)"
    using l states_all [of pu P] globals_all [of pu P] by (auto simp: located_def live_states_def)
  obtain s where s: "s \<in> set (live_states w)" "c \<in> set (causes_of P s)"
    using assms(3) by (auto simp: active_def causes_in_def)
  then show "c \<in> prof_causes P" using sub by (auto simp: prof_causes_def)
  from s(2) obtain ev where "ev \<in> set (state_events (state_at P s))" "c \<in> set (causes (event_at P ev))"
    by (auto simp: causes_of_def)
  moreover then have "c_parent (cause_at P c) = ev"
    using assms(1) s(1) sub by (auto simp: tree_ok_def)
  ultimately show "\<exists>s. s \<in> set (live_states w) \<and> s \<in> set (all_states P) \<and> c_parent (cause_at P c) \<in> set (state_events (state_at P s)) \<and>
    c \<in> set (causes (event_at P (c_parent (cause_at P c))))"
    using s(1) sub by blast
qed

lemma distinct_event_causes:
  assumes "distinct (causes_of P s)" and "ev \<in> set (state_events (state_at P s))"
  shows "distinct (causes (event_at P ev))"
proof -
  obtain ys zs where "state_events (state_at P s) = ys @ ev # zs" using assms(2) by (meson split_list)
  then show ?thesis using assms(1) by (simp add: causes_of_def)
qed

lemma running_reinit:
  assumes "tree_ok P" and "engine_env_ok base ar cap e" and "running base ar nt P X w"
    and "s \<in> set (live_states w)" and "s \<in> set (all_states P)" and "ev \<in> set (state_events (state_at P s))"
    and "nt + card (prof_causes P) \<le> cap"
  shows "\<exists>w'. init_event P (reinit_cause P e) ev w = Some (OK, w') \<and> running base ar (nt + card (prof_causes P)) P X w' \<and> same_top w w' \<and>
    (\<forall>c \<in> set (causes (event_at P ev)). restarted (cause_at P c) (dyn w' c))"
proof -
  let ?cs = "causes (event_at P ev)" and ?A = "active P w"
  have sub: "set ?cs \<subseteq> set (causes_of P s)" using assms(6) by (auto simp: causes_of_def)
  then have live: "set ?cs \<subseteq> causes_in P (live_states w)"
    using assms(4) by (auto simp: causes_in_def)
  have ein: "einv base ar nt P X ?A ?A w" and bi: "\<forall>c \<in> ?A. biased (cause_at P c) (dyn w c)"
    using assms(3) by (auto simp: running_def)
  have prof: "set ?cs \<subseteq> prof_causes P" using sub causes_of_prof [OF assms(5)] by auto
  have dis: "distinct ?cs" by (rule distinct_event_causes [OF causes_of_distinct [OF assms(1,5)] assms(6)])
  have len: "length ?cs \<le> card (prof_causes P)"
    using dis card_mono [OF finite_prof_causes prof] by (simp add: distinct_card)
  then have room: "nt + length ?cs \<le> cap" using assms(7) by simp
  have cnt: "\<forall>c \<in> set ?cs. measurement_counter (dyn w c) = 0 \<longleftrightarrow> c \<notin> ?A"
    using live by (auto simp: active_def)
  obtain w' where w': "init_event P (reinit_cause P e) ev w = Some (OK, w')"
    "grown base ar nt P X ?A (\<lambda>c. restarted (cause_at P c)) w ?cs w'"
    using init_event_reinit_ok [OF assms(1,2) ein prof dis cnt bi room] by blast
  have top: "same_top w w'" using grownD(2) [OF w'(2)] .
  have lv: "live_states w' = live_states w" using top by (simp add: live_states_def same_top_def)
  have act: "active P w' = ?A \<union> set ?cs"
  proof (rule set_eqI)
    show "c \<in> active P w' \<longleftrightarrow> c \<in> ?A \<union> set ?cs" for c
      using live grownD(3,4) [OF w'(2), of c] unfolding active_def lv
      by (cases "c \<in> set ?cs") (auto simp: restarted_def)
  qed
  have "located P pu st w' = located P pu st w" for pu st
    using top by (simp add: located_def same_top_def)
  moreover have "biased (cause_at P c) (dyn w' c)" if "c \<in> ?A \<union> set ?cs" for c
    using that bi grownD(3,4) [OF w'(2), of c] by (cases "c \<in> set ?cs") (auto simp: restarted_def)
  ultimately have "running base ar (nt + length ?cs) P X w'"
    using assms(3) grownD(1) [OF w'(2)] top unfolding running_def act by (auto simp: same_top_def)
  then have "running base ar (nt + card (prof_causes P)) P X w'"
    by (rule running_mono) (use len in simp)
  then show ?thesis
    using w'(1) top grownD(4) [OF w'(2)] by blast
qed


section \<open>Evaluating a sample\<close>

text \<open>The timers a sample may have started: none when it triggers its cause, else at most one for each cause.\<close>

definition samples_after :: "bool \<Rightarrow> nat \<Rightarrow> profile \<Rightarrow> nat" where
  "samples_after r nt P = (if r then nt else nt + card (prof_causes P))"

lemma running_after: "running base ar nt P X w \<Longrightarrow> running base ar (samples_after r nt P) P X w"
  by (auto simp: samples_after_def intro: running_mono)

lemma reinit_active:
  assumes "tree_ok P" and "engine_env_ok base ar cap e" and "running base ar nt P X w" and "c \<in> active P w"
    and "nt + card (prof_causes P) \<le> cap"
  shows "\<exists>w'. init_event P (reinit_cause P e) (c_parent (cause_at P c)) w = Some (OK, w') \<and>
    running base ar (nt + card (prof_causes P)) P X w' \<and> same_top w w'"
  using activeD(1) [OF assms(1,3,4)] running_reinit [OF assms(1-3) _ _ _ assms(5)] by blast

lemma same_top_simps [simp]:
  "same_top w0 (w\<lparr>asked := n\<rparr>) = same_top w0 w" "same_top w0 (emit a w) = same_top w0 w"
  "same_top w0 (upd_dyn c f w) = same_top w0 w"
  by (simp_all add: same_top_def emit_def upd_dyn_def)

lemma check_order_ok:
  assumes "tree_ok P" and "engine_env_ok base ar cap e" and "running base ar nt P X w" and "c \<in> active P w"
    and "nt + card (prof_causes P) \<le> cap"
  shows "\<exists>r w'. check_order P e c w = Some (r, w') \<and> running base ar (samples_after r nt P) P X w' \<and> same_top w w'"
  using reinit_active [OF assms] running_after [OF assms(3), of True] by (auto simp: check_order_def Let_def samples_after_def)

lemma not_in_limits_ok:
  assumes "tree_ok P" and "engine_env_ok base ar cap e" and "running base ar nt P X w" and "c \<in> active P w"
    and "nt + card (prof_causes P) \<le> cap"
  shows "\<exists>r w'. not_in_limits P e c w = Some (r, w') \<and> running base ar (samples_after r nt P) P X w' \<and> same_top w w'"
proof -
  have "running base ar nt P X (upd_dyn c (threshold_counter_update f) w)" for f
    using assms(3) by (rule running_upd) (auto simp: biased_def)
  then show ?thesis
    using reinit_active [OF assms] running_after [of base ar nt P X _ False]
    by (auto simp: not_in_limits_def Let_def samples_after_def)
qed

lemma in_limits_ok:
  assumes "tree_ok P" and "engine_env_ok base ar cap e" and "running base ar nt P X w" and "c \<in> active P w"
    and "nt + card (prof_causes P) \<le> cap"
  shows "\<exists>r w'. in_limits P e c w = Some (r, w') \<and> running base ar (samples_after r nt P) P X w' \<and> same_top w w'"
proof -
  let ?w = "upd_dyn c (threshold_counter_update (\<lambda>n. n - 1)) w"
  have r: "running base ar nt P X ?w"
    using assms(3) by (rule running_upd) (auto simp: biased_def)
  have "active P ?w = active P w" by (rule active_upd) simp
  then have "c \<in> active P ?w" using assms(4) by simp
  then obtain b w' where w': "check_order P e c ?w = Some (b, w')" "running base ar (samples_after b nt P) P X w'" "same_top ?w w'"
    using check_order_ok [OF assms(1,2) r _ assms(5)] by blast
  moreover have "same_top w w'"
    using w'(3) same_top_trans [OF same_top_upd_dyn] by blast
  ultimately show ?thesis
    using check_order_ok [OF assms] running_after [OF r, of False] by (auto simp: in_limits_def Let_def)
qed

lemma running_last_measurement:
  assumes "tree_ok P" and "engine_env_ok base ar cap e" and "running base ar nt P X w" and "c \<in> active P w"
    and "measurement_counter (dyn w c) = 1"
  shows "\<exists>w'. uninit_cause P e c (upd_dyn c (measurement_counter_update (\<lambda>n. n - 1)) w) = Some (OK, w') \<and>
    running base ar nt P X w' \<and> same_top w w' \<and> active P w' = active P w - {c}"
proof -
  let ?w = "upd_dyn c (measurement_counter_update (\<lambda>n. n - 1)) w" and ?A = "active P w"
  have ein: "einv base ar nt P X ?A ?A w" and bi: "\<forall>c \<in> ?A. biased (cause_at P c) (dyn w c)"
    using assms(3) by (auto simp: running_def)
  have "queues_ok P ?A ?w = queues_ok P ?A w"
    by (rule queues_ok_cong) simp_all
  then have "einv base ar nt P X ?A ?A ?w"
    using ein by (auto simp: einv_def idle_ok_def)
  then obtain w' where w': "uninit_cause P e c ?w = Some (OK, w')" "only c ?w w'" "control (dyn w' c) = control (dyn ?w c)"
    "einv base ar nt P X (?A - {c}) (?A - {c}) w'"
    using uninit_cause_ok [OF assms(1,2) _ activeD(2) [OF assms(1,3,4)]] by blast
  have top: "same_top w w'"
    using w'(2) same_top_trans [OF same_top_upd_dyn] by (auto simp: only_def)
  have other: "dyn w' d = dyn w d" if "d \<noteq> c" for d
    using that w'(2) by (auto simp: only_def)
  have zero: "measurement_counter (dyn w' c) = 0"
    using control_counter [OF w'(3)] assms(5) by simp
  have "d \<in> active P w' \<longleftrightarrow> d \<in> ?A - {c}" for d
    using other zero top by (cases "d = c") (auto simp: active_def live_states_def same_top_def)
  then have act: "active P w' = ?A - {c}" by blast
  have "located P pu st w' = located P pu st w" for pu st
    using top by (simp add: located_def same_top_def)
  then have "running base ar nt P X w'"
    using assms(3) w'(4) top other bi unfolding running_def act by (auto simp: same_top_def)
  then show ?thesis using w'(1) top act by blast
qed

lemma bias_of_ok:
  assumes "biased cf d" and "\<not> measure_bias d"
  obtains b where "bias_of cf d = Some b"
    and "relative_active b \<longrightarrow> same_type (si_min (sense_info cf)) (sense_bias b)"
proof (cases "is_active_relative_cause cf")
  case True
  then obtain b where "bias_value d = Some b" "same_type (si_min (sense_info cf)) b"
    using assms by (auto simp: biased_def)
  then show ?thesis using True by (intro that) (auto simp: bias_of_def)
next
  case False
  then show ?thesis by (intro that) (auto simp: bias_of_def)
qed

lemma check_thresholds_ok:
  assumes "tree_ok P" and "engine_env_ok base ar cap e" and "running base ar nt P X w" and "c \<in> active P w"
    and "thresholds_ok P" and "sense_value (dyn w c) = Some v" and "same_type (si_min (sense_info (cause_at P c))) v"
    and "nt + card (prof_causes P) \<le> cap"
  shows "\<exists>r w'. check_thresholds P e c w = Some (r, w') \<and> running base ar (samples_after r nt P) P X w' \<and> same_top w w'"
proof -
  let ?cf = "cause_at P c" and ?d = "dyn w c"
  have bi: "biased ?cf ?d" using assms(3,4) by (auto simp: running_def)
  consider (bias) "measure_bias ?d" | (count) "\<not> measure_bias ?d" "0 < measurement_counter ?d"
    | (none) "\<not> measure_bias ?d" "\<not> 0 < measurement_counter ?d" "thresholds ?cf = []"
    | (check) "\<not> measure_bias ?d" "\<not> 0 < measurement_counter ?d" "thresholds ?cf \<noteq> []"
    by blast
  then show ?thesis
  proof cases
    case bias
    have "running base ar nt P X (upd_dyn c (\<lambda>d. d\<lparr>bias_value := sense_value d, measure_bias := False\<rparr>) w)"
      using assms(3) by (rule running_upd) (auto simp: biased_def assms(6,7))
    then show ?thesis using bias running_after [of base ar nt P X _ False] by (auto simp: check_thresholds_def Let_def)
  next
    case count
    let ?w = "upd_dyn c (measurement_counter_update (\<lambda>n. n - 1)) w"
    show ?thesis
    proof (cases "measurement_counter ?d = 1")
      case True
      then show ?thesis
        using running_last_measurement [OF assms(1-4) True] count running_after [of base ar nt P X _ True]
        by (auto simp: check_thresholds_def Let_def)
    next
      case False
      have "running base ar nt P X ?w"
        using assms(3) by (rule running_upd) (use count False in \<open>auto simp: biased_def\<close>)
      then show ?thesis using count False running_after [of base ar nt P X _ False] by (auto simp: check_thresholds_def Let_def)
    qed
  next
    case none
    then show ?thesis using running_after [OF assms(3), of False] by (auto simp: check_thresholds_def Let_def)
  next
    case check
    obtain b where b: "bias_of ?cf ?d = Some b" "relative_active b \<longrightarrow> same_type (si_min (sense_info ?cf)) (sense_bias b)"
      using bias_of_ok [OF bi check(1)] .
    let ?ok = "malloc_ok e (asked w)"
    have "check_all ?ok b (thresholds ?cf) v True \<noteq> None"
      using assms(5,7) b(2) activeD(2) [OF assms(1,3,4)] by (simp add: thresholds_ok_def)
    then obtain r u where u: "check_all ?ok b (thresholds ?cf) v True = Some (r, u)" by auto
    let ?w = "upd_dyn c (sense_value_update (\<lambda>_. Some u)) (w\<lparr>asked := Suc (asked w)\<rparr>)"
    have "running base ar nt P X (w\<lparr>asked := Suc (asked w)\<rparr>)" using assms(3) by simp
    then have rw: "running base ar nt P X ?w" by (rule running_upd) (auto simp: biased_def)
    have "active P ?w = active P (w\<lparr>asked := Suc (asked w)\<rparr>)" by (rule active_upd) simp
    then have cw: "c \<in> active P ?w" using assms(4) by simp
    have eq: "check_thresholds P e c w = (if r \<noteq> threshold_negate ?cf then in_limits P e c ?w else not_in_limits P e c ?w)"
      using check b(1) u assms(6) by (simp add: check_thresholds_def Let_def ask_def)
    have top: "same_top w w'" if "same_top ?w w'" for w'
      using that by (simp add: same_top_def upd_dyn_def)
    show ?thesis
      unfolding eq using in_limits_ok [OF assms(1,2) rw cw assms(8)] not_in_limits_ok [OF assms(1,2) rw cw assms(8)] top by auto
  qed
qed

end
