(* ===== verification/Engine_Run.thy ===== *)
theory Engine_Run
  imports Engine_Samples
begin

text \<open>
  The whole of a sample, and the interface of the profile: the actions of an event, the transition it
  requests, stopping and continuing. Each keeps the running engine running.
\<close>

section \<open>Actions\<close>

text \<open>Actions change the trace, the backup registers and the questions asked, and nothing else.\<close>

definition outside :: "engine \<Rightarrow> engine \<Rightarrow> bool" where
  "outside w w' \<longleftrightarrow>
     dyn w' = dyn w \<and> core w' = core w \<and> active_causes w' = active_causes w \<and> active_entry w' = active_entry w \<and>
     expected_order_id w' = expected_order_id w \<and> current_purpose w' = current_purpose w \<and>
     current_state w' = current_state w \<and> global_states w' = global_states w \<and> engine_state w' = engine_state w \<and>
     engine_sms_limit w' = engine_sms_limit w"

lemma outside_refl [simp]: "outside w w"
  by (simp add: outside_def)

lemma outside_emit: "outside w0 w \<Longrightarrow> outside w0 (emit a w)"
  by (simp add: outside_def emit_def)

lemma outside_ask: "outside w0 w \<Longrightarrow> outside w0 (w\<lparr>asked := n\<rparr>)"
  by (simp add: outside_def)

lemma outside_rtc: "outside w0 w \<Longrightarrow> outside w0 (w\<lparr>rtc := r\<rparr>)"
  by (simp add: outside_def)

lemmas outside_intros = outside_emit outside_ask outside_rtc

lemma outsideD:
  assumes "outside w w'"
  shows "dyn w' = dyn w" "core w' = core w" "active_causes w' = active_causes w"
    "active_entry w' = active_entry w" "current_purpose w' = current_purpose w"
    "current_state w' = current_state w" "global_states w' = global_states w" "engine_state w' = engine_state w"
    "expected_order_id w' = expected_order_id w" "live_states w' = live_states w"
  using assms by (auto simp: outside_def live_states_def)

lemma outside_running:
  assumes "outside w w'"
  shows "running base ar nt P X w' = running base ar nt P X w" and "active P w' = active P w"
    and "located P pu st w' = located P pu st w"
  using running_cong [of w' w] outsideD [OF assms] by auto

lemma outside_payloads:
  "outside w0 w \<Longrightarrow> outside w0 (log_event P e ev w)" "outside w0 w \<Longrightarrow> outside w0 (send_event P e ev w)"
  "outside w0 w \<Longrightarrow> outside w0 (log_cause P e c w)" "outside w0 w \<Longrightarrow> outside w0 (send_cause P e c w)"
  "outside w0 w \<Longrightarrow> outside w0 (send_log e url w)"
  by (auto simp: log_event_def log_cause_def send_event_def send_cause_def send_log_def
      generate_event_payload_def generate_cause_payload_def ask_def Let_def intro!: outside_intros)

lemma can_send_sms_total: "can_send_sms limit now r \<noteq> None"
  using gmtime_r_total [of now] gmtime_r_total [of "last_sent_time r"]
  by (auto simp: can_send_sms_def Let_def split: option.splits)

lemma send_sms_outside:
  assumes "outside w0 w"
  shows "\<exists>w'. send_sms e phone txt w = Some w' \<and> outside w0 w'"
proof -
  obtain g r where "can_send_sms (engine_sms_limit w) (wall_clock e (asked w)) (rtc w) = Some (g, r)"
    using can_send_sms_total [of "engine_sms_limit w" "wall_clock e (asked w)" "rtc w"] by auto
  then show ?thesis
    using assms by (auto simp: send_sms_def ask_def Let_def intro!: outside_intros)
qed

lemma do_event_actions_outside: "\<exists>w'. do_event_actions P e ev w = Some w' \<and> outside w w'"
proof -
  let ?cf = "event_at P ev"
  define w1 where "w1 = (if eventLog ?cf \<and> \<not> sendEvent ?cf \<and> \<not> sendPush ?cf then log_event P e ev w else w)"
  define w2 where "w2 = (if sendEvent ?cf \<or> sendPush ?cf then send_event P e ev w1 else w1)"
  define w3 where "w3 = (if sendLog ?cf then send_log e (url_host ?cf) w2 else w2)"
  define w4 where "w4 = (case showText ?cf of None \<Rightarrow> w3 | Some t \<Rightarrow> emit (ShowText t) w3)"
  have "outside w w1" by (auto simp: w1_def intro!: outside_payloads)
  then have "outside w w2" by (auto simp: w2_def intro!: outside_payloads)
  then have "outside w w3" by (auto simp: w3_def intro!: outside_payloads)
  then have "outside w w4" by (auto simp: w4_def intro!: outside_intros split: option.splits)
  moreover have "do_event_actions P e ev w =
      (case (phoneNumber ?cf, sms_text ?cf) of (Some phone, Some txt) \<Rightarrow> send_sms e phone txt w4 | _ \<Rightarrow> Some w4)"
    unfolding do_event_actions_def Let_def w1_def w2_def w3_def w4_def by (rule refl)
  ultimately show ?thesis
    using send_sms_outside [of w w4 e] by (auto split: option.splits)
qed

section \<open>Transitions\<close>

lemma state_purpose_unique:
  assumes "tree_ok P" and "pu \<in> set (purposes P)" and "pu' \<in> set (purposes P)"
    and "st \<in> set (states (purpose_at P pu))" and "st \<in> set (states (purpose_at P pu'))"
  shows "pu = pu'"
proof (rule ccontr)
  assume ne: "pu \<noteq> pu'"
  obtain ys zs where "purposes P = ys @ pu # zs" using assms(2) by (meson split_list)
  moreover then have "pu' \<in> set ys \<union> set zs" using assms(3) ne by auto
  ultimately show False
    using assms(1,4,5) by (auto simp: tree_ok_def all_states_def)
qed

lemma runningD:
  assumes "running base ar nt P X w"
  obtains pu st where "located P pu st w" and "global_states w = globals_of P pu"
    and "einv base ar nt P X (active P w) (active P w) w" and "\<forall>c \<in> active P w. biased (cause_at P c) (dyn w c)"
  using assms by (auto simp: running_def)

lemma located_live:
  assumes "located P pu st w" and "global_states w = globals_of P pu"
  shows "set (live_states w) \<subseteq> set (all_states P)" and "\<forall>s \<in> set (global_states w). isGlobal (state_at P s)"
    and "\<forall>s. current_state w = Some s \<longrightarrow> \<not> isGlobal (state_at P s)"
    and "\<forall>p. current_purpose w = Some p \<longrightarrow> global_states w = globals_of P p"
  using assms states_all [of pu P] globals_all [of pu P]
  by (auto simp: located_def live_states_def globals_of_def)

text \<open>A transition of a running engine: an unknown target leaves it where it is, any other target is entered.\<close>

lemma init_profile_running:
  assumes "profile_ok P" and "engine_env_ok base ar cap e" and "running base ar nt P X w" and "j \<in> goto_ids P"
    and "nt + card (prof_causes P) \<le> cap"
  shows "\<exists>r w'. init_profile P e i j w = Some (r, w') \<and> running base ar (nt + card (prof_causes P)) P X w' \<and> engine_state w' = engine_state w"
proof -
  obtain pu0 st0 where loc: "located P pu0 st0 w" "global_states w = globals_of P pu0"
    and ein: "einv base ar nt P X (active P w) (active P w) w" and bi: "\<forall>c \<in> active P w. biased (cause_at P c) (dyn w c)"
    using runningD [OF assms(3)] .
  have stay: "running base ar (nt + card (prof_causes P)) P X w"
    using assms(3) by (rule running_mono) simp
  have tree: "tree_ok P" using assms(1) by (simp add: profile_ok_def)
  show ?thesis
  proof (cases "find_purpose_by_id P i")
    case None
    then show ?thesis using stay by (auto simp: init_profile_def)
  next
    case pu: (Some pu)
    show ?thesis
    proof (cases "find_state_by_id P pu j")
      case None
      then show ?thesis using stay pu by (auto simp: init_profile_def init_purpose_def)
    next
      case st: (Some st)
      show ?thesis
      proof (cases "current_state w = Some st")
        case True
        then have "pu = pu0"
          using state_purpose_unique [OF tree, of pu pu0 st] loc(1) find_purpose_SomeD(1) [OF pu] find_state_SomeD(1) [OF st]
          by (auto simp: located_def)
        then show ?thesis
          using True pu st stay loc(1) by (auto simp: init_profile_def init_purpose_def located_def)
      next
        case False
        then show ?thesis
          using init_profile_ok [OF assms(1,2) ein located_live [OF loc] pu st assms(4) False bi assms(5)] by auto
      qed
    qed
  qed
qed

lemma fire_event_ok:
  assumes "profile_ok P" and "engine_env_ok base ar cap e" and "running base ar nt P X w"
    and "s \<in> set (live_states w)" and "s \<in> set (all_states P)" and "ev \<in> set (state_events (state_at P s))"
    and "nt + card (prof_causes P) \<le> cap"
  shows "\<exists>r w'. fire_event P e ev w = Some (r, w') \<and> running base ar (nt + card (prof_causes P)) P X w' \<and> engine_state w' = engine_state w"
proof -
  let ?cf = "event_at P ev"
  obtain w1 where w1: "do_event_actions P e ev w = Some w1" "outside w w1"
    using do_event_actions_outside by blast
  have r1: "running base ar nt P X w1" using assms(3) outside_running(1) [OF w1(2)] by simp
  obtain pu st where loc: "current_purpose w1 = Some pu" "current_state w1 = Some st"
    using runningD [OF r1] by (metis located_def)
  define pch where "pch = (gotoPuId ?cf \<noteq> - 1 \<and> puId (purpose_at P pu) \<noteq> gotoPuId ?cf)"
  define sch where "sch = (pch \<or> gotoStId ?cf \<noteq> - 1 \<and> gotoStId ?cf \<noteq> stId (state_at P st))"
  have tree: "tree_ok P" using assms(1) by (simp add: profile_ok_def)
  have gid: "gotoStId ?cf \<in> goto_ids P" using assms(5,6) by (auto simp: goto_ids_def)
  have eq: "fire_event P e ev w =
      (if \<not> sch then map_option (\<lambda>(_, w). (False, w)) (init_event P (reinit_cause P e) ev w1)
       else map_option (\<lambda>(_, w). (True, w)) (init_profile P e (if pch then gotoPuId ?cf else puId (purpose_at P pu)) (gotoStId ?cf) w1))"
    using w1(1) loc by (auto simp: fire_event_def pch_def sch_def Let_def)
  have top: "engine_state w1 = engine_state w" "s \<in> set (live_states w1)"
    using outsideD [OF w1(2)] assms(4) by simp_all
  show ?thesis
  proof (cases sch)
    case True
    then show ?thesis
      using init_profile_running [OF assms(1,2) r1 gid assms(7)] top(1) by (fastforce simp: eq)
  next
    case False
    then show ?thesis
      using running_reinit [OF tree assms(2) r1 top(2) assms(5,6,7)] top(1) by (fastforce simp: eq same_top_def)
  qed
qed

lemma running_control:
  assumes "running base ar nt P X w"
  shows "running base ar nt P X (upd_dyn c (triggered_update f) w)"
    and "running base ar nt P X (upd_dyn c (sense_value_update g) w)"
    and "active P (upd_dyn c (triggered_update f) w) = active P w"
    and "active P (upd_dyn c (sense_value_update g) w) = active P w"
  using assms by (auto intro!: running_upd active_upd simp: biased_def)

lemma live_upd_dyn [simp]: "live_states (upd_dyn c f w) = live_states w" "engine_state (upd_dyn c f w) = engine_state w"
  by (simp_all add: live_states_def upd_dyn_def)

lemma handle_cause_event_ok:
  assumes "profile_ok P" and "engine_env_ok base ar cap e" and "running base ar nt P X w" and "c \<in> active P w"
    and "thresholds_ok P" and "sense_value (dyn w c) = Some v" and "same_type (si_min (sense_info (cause_at P c))) v"
    and "nt + card (prof_causes P) \<le> cap"
  shows "\<exists>r w'. handle_cause_event P e c w = Some (r, w') \<and> running base ar (nt + card (prof_causes P)) P X w' \<and> engine_state w' = engine_state w"
proof -
  let ?cf = "cause_at P c" and ?ev = "c_parent (cause_at P c)"
  have tree: "tree_ok P" using assms(1) by (simp add: profile_ok_def)
  define w0 where "w0 = (if measurement_send ?cf then send_cause P e c w else w)"
  have o0: "outside w w0" by (auto simp: w0_def intro!: outside_payloads)
  have r0: "running base ar nt P X w0" "c \<in> active P w0" "sense_value (dyn w0 c) = Some v" "engine_state w0 = engine_state w"
    using outside_running [OF o0] outsideD [OF o0] assms(3,4,6) by simp_all
  obtain r w1 where w1: "check_thresholds P e c w0 = Some (r, w1)" "running base ar (samples_after r nt P) P X w1" "same_top w0 w1"
    using check_thresholds_ok [OF tree assms(2) r0(1,2) assms(5) r0(3) assms(7,8)] by blast
  define w2 where "w2 = upd_dyn c (triggered_update (\<lambda>_. r)) w1"
  define w3 where "w3 = (if measurement_log ?cf \<or> r \<and> senseLog ?cf then log_cause P e c w2 else w2)"
  have r2: "running base ar (samples_after r nt P) P X w2" unfolding w2_def by (rule running_control(1) [OF w1(2)])
  have o3: "outside w2 w3" by (auto simp: w3_def intro!: outside_payloads)
  then have r3: "running base ar (samples_after r nt P) P X w3" using r2 outside_running by simp
  have e3: "engine_state w3 = engine_state w" "live_states w3 = live_states w0"
    using outsideD [OF o3] r0(4) w1(3) by (auto simp: w2_def same_top_def live_states_def upd_dyn_def)
  obtain s where s: "s \<in> set (live_states w3)" "s \<in> set (all_states P)" "?ev \<in> set (state_events (state_at P s))"
    using activeD(1) [OF tree r0(1,2)] e3(2) by auto
  obtain ch w4 where w4: "(if r \<and> all_causes_triggered P ?ev w3 then fire_event P e ?ev w3 else Some (False, w3)) = Some (ch, w4)"
    "running base ar (nt + card (prof_causes P)) P X w4" "engine_state w4 = engine_state w3"
  proof (cases "r \<and> all_causes_triggered P ?ev w3")
    case True
    then have "running base ar nt P X w3" using r3 by (simp add: samples_after_def)
    from fire_event_ok [OF assms(1,2) this s assms(8)] show ?thesis
      using True that by auto
  next
    case False
    have "running base ar (nt + card (prof_causes P)) P X w3"
      using r3 by (rule running_mono) (simp add: samples_after_def)
    then show ?thesis using False that [of False w3] by auto
  qed
  have "handle_cause_event P e c w = Some (ch, upd_dyn c (sense_value_update (map_option free_valuearray)) w4)"
    unfolding handle_cause_event_def Let_def w0_def [symmetric]
    using w1(1) w4(1) unfolding w2_def w3_def by (simp split del: if_split)
  then show ?thesis
    using running_control(2) [OF w4(2)] w4(3) e3(1) by auto
qed

section \<open>Starting, stopping and continuing\<close>

text \<open>A stopped engine holds no timer and no descriptor, and its active queues are empty.\<close>

definition halted :: "nat \<Rightarrow> nat \<Rightarrow> nat \<Rightarrow> profile \<Rightarrow> addr set \<Rightarrow> engine \<Rightarrow> bool" where
  "halted base ar nt P X w \<longleftrightarrow>
     (\<exists>pu st. located P pu st w) \<and> global_states w = [] \<and> einv base ar nt P X {} {} w"

lemma init_profile_start:
  assumes "profile_ok P" and "engine_env_ok base ar cap e" and "einv base ar nt P X {} {} w"
    and "nt + card (prof_causes P) \<le> cap"
    and "find_purpose_by_id P (- 1) = Some pu" and "find_state_by_id P pu (- 1) = Some st"
  shows "\<exists>w'. profile_main P e limit w = Some (True, w') \<and> running base ar (nt + card (prof_causes P)) P X w' \<and>
    located P pu st w' \<and> engine_state w' = ENGINE_RUNNING \<and>
    (\<forall>c \<in> set (causes_of P st). started (cause_at P c) (dyn w' c))"
proof -
  let ?w = "w\<lparr>current_purpose := None, current_state := None, global_states := [], engine_sms_limit := limit\<rparr>"
  have live: "live_states ?w = []" "active P ?w = {}" by (simp_all add: live_states_def active_def)
  have "einv base ar nt P X (active P ?w) (active P ?w) ?w"
    unfolding live using assms(3) by (simp only: einv_frame)
  moreover have "- 1 \<in> goto_ids P" by (simp add: goto_ids_def)
  ultimately obtain w' where w': "init_profile P e (- 1) (- 1) ?w = Some (OK, w')"
    "running base ar (nt + card (prof_causes P)) P X w'" "located P pu st w'"
    "\<forall>c \<in> set (causes_of P st). started (cause_at P c) (dyn w' c)"
    using init_profile_ok [OF assms(1,2), of nt X ?w "- 1" pu "- 1" st] assms(4-6) live by auto
  let ?w' = "w'\<lparr>engine_state := ENGINE_RUNNING\<rparr>"
  have "profile_main P e limit w = Some (True, ?w')"
    using w'(1) by (simp add: profile_main_def)
  moreover have "located P pu st ?w'" using w'(3) by (simp add: located_def)
  ultimately show ?thesis using w'(2,4) by auto
qed

lemma profile_stop_ok:
  assumes "profile_ok P" and "engine_env_ok base ar cap e" and "running base ar nt P X w"
    and "engine_state w = ENGINE_RUNNING"
  shows "\<exists>w'. profile_stop P e free w = Some (OK, w') \<and> halted base ar nt P X w' \<and>
    engine_state w' = (if free then ENGINE_STOPPED else ENGINE_PAUSED) \<and>
    current_purpose w' = current_purpose w \<and> current_state w' = current_state w"
proof -
  have tree: "tree_ok P" using assms(1) by (simp add: profile_ok_def)
  obtain pu st where loc: "located P pu st w" "global_states w = globals_of P pu"
    and ein: "einv base ar nt P X (active P w) (active P w) w"
    using runningD [OF assms(3)] .
  note live = located_live [OF loc]
  obtain w1 where w1: "uninit_global_states P e w = Some w1"
    "einv base ar nt P X (active P w - causes_in P (global_states w)) (active P w - causes_in P (global_states w)) w1"
    "same_but_globals w w1" "global_states w1 = []"
    using uninit_global_states_ok [OF tree assms(2) ein] live(1,2) by (auto simp: live_states_def)
  have top: "current_state w1 = Some st" "current_purpose w1 = Some pu"
    using w1(3) loc(1) by (auto simp: same_but_globals_def same_top_def located_def)
  have st: "st \<in> set (all_states P)" using loc(1) states_all by (auto simp: located_def)
  obtain w2 where w2: "init_state P (uninit_cause P e) st w1 = Some (OK, w2)"
    "stopped base ar nt P X (active P w - causes_in P (global_states w)) (active P w - causes_in P (global_states w))
       w1 (causes_of P st) w2"
    using init_state_uninit_ok [OF tree assms(2) w1(2) st] by blast
  let ?w = "w2\<lparr>engine_state := (if free then ENGINE_STOPPED else ENGINE_PAUSED)\<rparr>"
  have "active P w - causes_in P (global_states w) - set (causes_of P st) = {}"
    using loc(1) by (auto simp: active_def live_states_def located_def)
  then have "einv base ar nt P X {} {} ?w"
    using stoppedD(1) [OF w2(2)] by (simp only: einv_frame)
  moreover have "located P pu st ?w" "global_states ?w = []"
    using stoppedD(2) [OF w2(2)] top loc(1) w1(4) by (auto simp: located_def same_top_def)
  moreover have "profile_stop P e free w = Some (OK, ?w)"
    using assms(4) w1(1) top(1) w2(1) by (simp add: profile_stop_def)
  ultimately show ?thesis
    using loc(1) by (auto simp: halted_def located_def)
qed

lemma profile_continue_ok:
  assumes "profile_ok P" and "engine_env_ok base ar cap e" and "halted base ar nt P X w"
    and "engine_state w = ENGINE_PAUSED" and "nt + card (prof_causes P) \<le> cap"
  shows "\<exists>w'. profile_continue P e w = Some (OK, w') \<and> running base ar (nt + card (prof_causes P)) P X w' \<and>
    engine_state w' = ENGINE_RUNNING \<and> current_purpose w' = current_purpose w \<and> current_state w' = current_state w \<and>
    (\<forall>c \<in> active P w'. started (cause_at P c) (dyn w' c))"
proof -
  have tree: "tree_ok P" using assms(1) by (simp add: profile_ok_def)
  obtain pu st where loc: "located P pu st w" and w0: "global_states w = []" "einv base ar nt P X {} {} w"
    using assms(3) by (auto simp: halted_def)
  have pu: "pu \<in> set (purposes P)" and st: "st \<in> set (all_states P)" "\<not> isGlobal (state_at P st)"
    using loc states_all by (auto simp: located_def)
  let ?g = "causes_in P (globals_of P pu)"
  have room: "nt + card ?g \<le> cap" "nt + card ?g + length (causes_of P st) \<le> cap"
    using state_and_globals [OF tree pu st] assms(5) by auto
  obtain w1 where w1: "init_global_states P e pu w = Some (OK, w1)" "einv base ar (nt + card ?g) P X ?g ?g w1"
    "same_but_globals w w1" "global_states w1 = globals_of P pu" "\<forall>c \<in> ?g. started (cause_at P c) (dyn w1 c)"
    using init_global_states_ok [OF tree assms(2) w0(2) pu _ room(1)] w0(1) by auto
  have disj: "set (causes_of P st) \<inter> ?g = {}"
    using causes_in_disjoint [OF tree st(1) globals_all [OF pu]] st(2) by (simp add: globals_of_def)
  obtain w2 where w2: "init_state P (init_cause P e) st w1 = Some (OK, w2)"
    "grown base ar (nt + card ?g) P X ?g (\<lambda>c. started (cause_at P c)) w1 (causes_of P st) w2"
    using init_state_init_ok [OF tree assms(2) w1(2) st(1) disj room(2)] by blast
  let ?w = "w2\<lparr>engine_state := ENGINE_RUNNING\<rparr>"
  have top: "current_purpose ?w = Some pu" "current_state ?w = Some st" "global_states ?w = globals_of P pu"
    using grownD(2) [OF w2(2)] w1(3,4) loc by (auto simp: same_but_globals_def same_top_def located_def)
  have fresh: "started (cause_at P c) (dyn w2 c)" if "c \<in> set (causes_of P st) \<union> ?g" for c
    using that grownD(3,4) [OF w2(2), of c] w1(5) by (cases "c \<in> set (causes_of P st)") auto
  have act: "active P ?w = ?g \<union> set (causes_of P st)"
    unfolding active_def live_after [OF top(2)] top(3) using fresh by (auto dest: started_counter)
  have "located P pu st ?w" using loc top by (simp add: located_def)
  moreover have "\<forall>c \<in> active P ?w. biased (cause_at P c) (dyn ?w c)"
    unfolding act using fresh started_biased by auto
  moreover have "einv base ar (nt + card ?g + length (causes_of P st)) P X (active P ?w) (active P ?w) ?w"
    unfolding act using grownD(1) [OF w2(2)] by simp
  ultimately have "running base ar (nt + card ?g + length (causes_of P st)) P X ?w"
    using top(3) unfolding running_def by blast
  then have "running base ar (nt + card (prof_causes P)) P X ?w"
    by (rule running_mono) (use state_and_globals [OF tree pu st] in simp)
  moreover have "profile_continue P e w = Some (OK, ?w)"
    using assms(4) loc w1(1) w1(3) w2(1) by (simp add: profile_continue_def located_def same_but_globals_def same_top_def)
  ultimately show ?thesis
    using top loc fresh act by (auto simp: located_def)
qed

text \<open>What a stopped engine has let go of.\<close>

lemma einv_nothing:
  assumes "einv base ar nt P X {} {} w"
  shows "engine_timers (tq (core w)) \<subseteq> X"
    and "c \<in> prof_causes P \<Longrightarrow> timer_id (dyn w c) < 0 \<and> cause_fd (dyn w c) < 0"
    and "st \<in> set (all_states P) \<Longrightarrow> sq_repr (active_causes w st, active_entry w) []"
proof -
  have idle: "timer_id (dyn w c) < 0 \<and> cause_fd (dyn w c) < 0" if "c \<in> prof_causes P" for c
    using assms that by (auto simp: einv_def idle_ok_def)
  then show "c \<in> prof_causes P \<Longrightarrow> timer_id (dyn w c) < 0 \<and> cause_fd (dyn w c) < 0" .
  have m: "timers_match (prof_causes P) X (\<lambda>c. timer_id (dyn w c)) (tq (core w))" and q: "tq_inv (tq (core w))"
    using assms by (auto simp: einv_def cause_timers_ok_def loop_ok_def core_inv_def)
  show "engine_timers (tq (core w)) \<subseteq> X"
  proof (rule ccontr)
    assume "\<not> engine_timers (tq (core w)) \<subseteq> X"
    then obtain a where a: "a \<in> engine_timers (tq (core w))" "a \<notin> X" by blast
    then have "t_priv (timer_at (tq (core w)) a) \<in> prof_causes P"
      "timer_id (dyn w (t_priv (timer_at (tq (core w)) a))) = t_id (timer_at (tq (core w)) a)"
      using m by (auto simp: timers_match_def)
    moreover have "1 \<le> t_id (timer_at (tq (core w)) a)"
      using timer_id_positive [OF q, of a] a by (auto simp: engine_timers_def armed_def queued_def)
    ultimately show False using idle by fastforce
  qed
  show "st \<in> set (all_states P) \<Longrightarrow> sq_repr (active_causes w st, active_entry w) []"
    using assms by (auto simp: einv_def queues_ok_def)
qed

end
