(* ===== verification/Engine_Sessions.thy ===== *)
theory Engine_Sessions
  imports Engine_Run
begin

text \<open>
  A session of the engine: samples arrive from the callbacks of the event loop, the user interface stops and
  continues the profile, and after each of them the event loop collects the timers that are done. The heap
  has to hold two timers for each cause and the timers of the other components, and then every session runs
  without an abort and keeps the invariant.
\<close>

section \<open>Garbage collection\<close>

definition collect :: "engine \<Rightarrow> engine" where
  "collect w = w\<lparr>core := (core w)\<lparr>tq := ts_core_gc_timers (tq (core w))\<rparr>\<rparr>"

lemma collect_simps [simp]:
  "dyn (collect w) = dyn w" "active_causes (collect w) = active_causes w" "active_entry (collect w) = active_entry w"
  "current_purpose (collect w) = current_purpose w" "current_state (collect w) = current_state w"
  "global_states (collect w) = global_states w" "engine_state (collect w) = engine_state w"
  "core (collect w) = (core w)\<lparr>tq := ts_core_gc_timers (tq (core w))\<rparr>"
  "active P (collect w) = active P w" "located P pu st (collect w) = located P pu st w"
  by (simp_all add: collect_def active_def live_states_def located_def)

lemma collect_einv:
  assumes "einv base ar nt P X A Q w"
  shows "einv base ar (card (prof_causes P) + card X) P (X \<inter> armed (tq (core w))) A Q (collect w)"
proof -
  let ?q = "tq (core w)"
  have t: "loop_ok base ar nt (core w)" "timers_match (prof_causes P) X (\<lambda>c. timer_id (dyn w c)) ?q"
    and o: "idle_ok P A w" "queues_ok P Q w"
    using assms by (auto simp: einv_def cause_timers_ok_def)
  have q: "tq_inv ?q" "in_arena base ?q" using t(1) by (auto simp: loop_ok_def core_inv_def)
  have "armed ?q \<subseteq> dom (tmem ?q)"
    using q(1) by (auto simp: tq_inv_def armed_def queued_def)
  then have "in_arena base (ts_core_gc_timers ?q)"
    using q(2) gc_timers_memory(1) [OF q(1)] by (auto simp: in_arena_def)
  then have "loop_ok base ar (card (prof_causes P) + card X) (core (collect w))"
    using t(1) ts_core_gc_timers_inv [OF q(1)] timers_match_card [OF t(2) q finite_prof_causes] gc_timers_memory(1) [OF q(1)]
    by (simp add: loop_ok_def core_inv_def)
  moreover have "idle_ok P A (collect w)" "queues_ok P Q (collect w)"
    using o by (simp_all add: idle_ok_def queues_ok_def)
  ultimately show ?thesis
    using timers_match_gc [OF t(2) q(1)] by (simp add: einv_def cause_timers_ok_def)
qed

lemma foreign_shrinks:
  assumes "einv base ar nt P X A Q w"
  shows "card (X \<inter> Y) \<le> card X"
proof -
  have "finite X"
    using assms by (auto simp: einv_def cause_timers_ok_def timers_match_def loop_ok_def core_inv_def tq_inv_def intro: finite_subset)
  then show ?thesis by (intro card_mono) auto
qed

section \<open>Sessions\<close>

datatype input = Sample cause_p ts_value | Stop | Continue

text \<open>The driver of the sensor stores the value it has read in the cause and hands the cause to the engine; the
  descriptor or timer whose callback this is belongs to an active cause, so there is nothing to do for any
  other cause.\<close>

definition take_sample :: "profile \<Rightarrow> engine_env \<Rightarrow> cause_p \<Rightarrow> ts_value \<Rightarrow> engine \<Rightarrow> engine option" where
  "take_sample P e c v w =
     map_option snd (handle_cause_event P e c (upd_dyn c (sense_value_update (\<lambda>_. Some v)) w))"

definition awake :: "profile \<Rightarrow> cause_p \<Rightarrow> engine \<Rightarrow> bool" where
  "awake P c w \<longleftrightarrow> engine_state w = ENGINE_RUNNING \<and>
     (c \<in> set (concat (map (causes_of P) (live_states w)))) \<and> measurement_counter (dyn w c) \<noteq> 0"

fun session_step :: "profile \<Rightarrow> engine_env \<Rightarrow> input \<Rightarrow> engine \<Rightarrow> engine option" where
  "session_step P e (Sample c v) w = (if awake P c w then map_option collect (take_sample P e c v w) else Some w)"
| "session_step P e Stop w = map_option (\<lambda>(_, w). collect w) (profile_stop P e False w)"
| "session_step P e Continue w = map_option (\<lambda>(_, w). collect w) (profile_continue P e w)"

fun input_ok :: "profile \<Rightarrow> input \<Rightarrow> bool" where
  "input_ok P (Sample c v) = same_type (si_min (sense_info (cause_at P c))) v"
| "input_ok P _ = True"

definition session_inv :: "nat \<Rightarrow> nat \<Rightarrow> nat \<Rightarrow> profile \<Rightarrow> engine \<Rightarrow> bool" where
  "session_inv base ar foreign P w \<longleftrightarrow>
     (\<exists>X. card X \<le> foreign \<and>
        (if engine_state w = ENGINE_RUNNING then running base ar (card (prof_causes P) + foreign) P X w
         else halted base ar (card (prof_causes P) + foreign) P X w))"

lemma awake_active: "awake P c w \<longleftrightarrow> engine_state w = ENGINE_RUNNING \<and> c \<in> active P w"
  by (auto simp: awake_def active_def causes_in_def)

lemma collect_running:
  assumes "running base ar nt P X w" and "card X \<le> foreign"
  shows "running base ar (card (prof_causes P) + foreign) P (X \<inter> armed (tq (core w))) (collect w)"
    and "card (X \<inter> armed (tq (core w))) \<le> foreign"
proof -
  obtain pu st where l: "located P pu st w" "global_states w = globals_of P pu"
    and ein: "einv base ar nt P X (active P w) (active P w) w" and bi: "\<forall>c \<in> active P w. biased (cause_at P c) (dyn w c)"
    using runningD [OF assms(1)] .
  show "running base ar (card (prof_causes P) + foreign) P (X \<inter> armed (tq (core w))) (collect w)"
    using l bi einv_mono [OF collect_einv [OF ein], of "card (prof_causes P) + foreign"] assms(2)
    by (auto simp: running_def)
  show "card (X \<inter> armed (tq (core w))) \<le> foreign"
    using foreign_shrinks [OF ein] assms(2) by (rule order_trans)
qed

lemma collect_halted:
  assumes "halted base ar nt P X w" and "card X \<le> foreign"
  shows "halted base ar (card (prof_causes P) + foreign) P (X \<inter> armed (tq (core w))) (collect w)"
    and "card (X \<inter> armed (tq (core w))) \<le> foreign"
proof -
  have ein: "einv base ar nt P X {} {} w" using assms(1) by (simp add: halted_def)
  show "halted base ar (card (prof_causes P) + foreign) P (X \<inter> armed (tq (core w))) (collect w)"
    using assms(1) einv_mono [OF collect_einv [OF ein], of "card (prof_causes P) + foreign"] assms(2)
    by (auto simp: halted_def)
  show "card (X \<inter> armed (tq (core w))) \<le> foreign"
    using foreign_shrinks [OF ein] assms(2) by (rule order_trans)
qed

definition session_ok :: "nat \<Rightarrow> nat \<Rightarrow> nat \<Rightarrow> nat \<Rightarrow> profile \<Rightarrow> engine_env \<Rightarrow> bool" where
  "session_ok base ar cap foreign P e \<longleftrightarrow>
     profile_ok P \<and> thresholds_ok P \<and> engine_env_ok base ar cap e \<and> 2 * card (prof_causes P) + foreign \<le> cap"

lemma session_sample:
  assumes "session_ok base ar cap foreign P e" and "session_inv base ar foreign P w" and "input_ok P (Sample c v)"
  shows "\<exists>w'. session_step P e (Sample c v) w = Some w' \<and> session_inv base ar foreign P w'"
proof (cases "awake P c w")
  case True
  let ?nt = "card (prof_causes P) + foreign"
  let ?w = "upd_dyn c (sense_value_update (\<lambda>_. Some v)) w"
  have s: "engine_state w = ENGINE_RUNNING" "c \<in> active P w" using True by (auto simp: awake_active)
  obtain X where X: "card X \<le> foreign" "running base ar ?nt P X w"
    using assms(2) s(1) by (auto simp: session_inv_def)
  have r: "running base ar ?nt P X ?w" "c \<in> active P ?w"
    using running_control(2,4) [OF X(2)] s(2) by auto
  obtain b w' where w': "handle_cause_event P e c ?w = Some (b, w')"
    "running base ar (?nt + card (prof_causes P)) P X w'" "engine_state w' = engine_state ?w"
    using handle_cause_event_ok [OF _ _ r, of cap e v] assms(1,3) by (auto simp: session_ok_def)
  have "session_inv base ar foreign P (collect w')"
    using collect_running [OF w'(2) X(1)] w'(3) s(1) by (auto simp: session_inv_def)
  then show ?thesis using True w'(1) by (simp add: take_sample_def)
qed (use assms(2) in simp)

lemma session_stop:
  assumes "session_ok base ar cap foreign P e" and "session_inv base ar foreign P w"
  shows "\<exists>w'. session_step P e Stop w = Some w' \<and> session_inv base ar foreign P w'"
proof (cases "engine_state w = ENGINE_RUNNING")
  case True
  obtain X where X: "card X \<le> foreign" "running base ar (card (prof_causes P) + foreign) P X w"
    using assms(2) True by (auto simp: session_inv_def)
  obtain w' where w': "profile_stop P e False w = Some (OK, w')"
    "halted base ar (card (prof_causes P) + foreign) P X w'" "engine_state w' = ENGINE_PAUSED"
    using profile_stop_ok [OF _ _ X(2) True, of cap e False] assms(1) by (auto simp: session_ok_def)
  have "session_inv base ar foreign P (collect w')"
    using collect_halted [OF w'(2) X(1)] w'(3) by (auto simp: session_inv_def)
  then show ?thesis using w'(1) by simp
next
  case False
  then obtain X where X: "card X \<le> foreign" "halted base ar (card (prof_causes P) + foreign) P X w"
    using assms(2) by (auto simp: session_inv_def)
  have "session_inv base ar foreign P (collect w)"
    using collect_halted [OF X(2,1)] False by (auto simp: session_inv_def)
  then show ?thesis using False by (simp add: profile_stop_def)
qed

lemma session_continue:
  assumes "session_ok base ar cap foreign P e" and "session_inv base ar foreign P w"
  shows "\<exists>w'. session_step P e Continue w = Some w' \<and> session_inv base ar foreign P w'"
proof (cases "engine_state w = ENGINE_PAUSED")
  case True
  obtain X where X: "card X \<le> foreign" "halted base ar (card (prof_causes P) + foreign) P X w"
    using assms(2) True by (auto simp: session_inv_def)
  obtain w' where w': "profile_continue P e w = Some (OK, w')"
    "running base ar (card (prof_causes P) + foreign + card (prof_causes P)) P X w'" "engine_state w' = ENGINE_RUNNING"
    using profile_continue_ok [OF _ _ X(2) True, of cap e] assms(1) by (auto simp: session_ok_def)
  have "session_inv base ar foreign P (collect w')"
    using collect_running [OF w'(2) X(1)] w'(3) by (auto simp: session_inv_def)
  then show ?thesis using w'(1) by simp
next
  case False
  have "session_inv base ar foreign P (collect w)"
    using assms(2) collect_running [of base ar _ P _ w foreign] collect_halted [of base ar _ P _ w foreign]
    unfolding session_inv_def by (cases "engine_state w = ENGINE_RUNNING") (simp, blast)+
  then show ?thesis using False by (simp add: profile_continue_def)
qed

interpretation session: safe_machine "\<lambda>(e, i). session_step P e i"
    "\<lambda>(e, i). session_ok base ar cap foreign P e \<and> input_ok P i" "session_inv base ar foreign P"
  for base ar cap foreign P
proof unfold_locales
  fix s ei
  assume s: "session_inv base ar foreign P s"
    and ei: "(\<lambda>(e, i). session_ok base ar cap foreign P e \<and> input_ok P i) ei"
  obtain e i where "ei = (e, i)" by (cases ei)
  with s ei show "\<exists>s'. (\<lambda>(e, i). session_step P e i) ei s = Some s' \<and> session_inv base ar foreign P s'"
    using session_sample [of base ar cap foreign P e s] session_stop [of base ar cap foreign P e s]
      session_continue [of base ar cap foreign P e s]
    by (cases i) (simp_all del: session_step.simps)
qed

text \<open>What the invariant of a session says about timers and descriptors.\<close>

lemma running_holds:
  assumes "running base ar nt P X w" and "c \<in> prof_causes P" and "0 \<le> timer_id (dyn w c) \<or> 0 \<le> cause_fd (dyn w c)"
  shows "c \<in> active P w"
proof (rule ccontr)
  assume "c \<notin> active P w"
  moreover have "idle_ok P (active P w) w" using assms(1) by (simp add: running_def einv_def)
  ultimately show False using assms(2,3) by (force simp: idle_ok_def)
qed

lemma einv_armed:
  assumes "einv base ar nt P X A Q w"
  shows "card (armed (tq (core w))) \<le> card (prof_causes P) + card X"
  using assms timers_match_card [OF _ _ _ finite_prof_causes, of P X "\<lambda>c. timer_id (dyn w c)" "tq (core w)" base]
  by (auto simp: einv_def cause_timers_ok_def loop_ok_def core_inv_def)

lemma session_resources:
  assumes "session_inv base ar foreign P w"
  shows "card (armed (tq (core w))) \<le> card (prof_causes P) + foreign"
    and "c \<in> prof_causes P \<Longrightarrow> 0 \<le> timer_id (dyn w c) \<or> 0 \<le> cause_fd (dyn w c) \<Longrightarrow> awake P c w"
proof -
  obtain X where X: "card X \<le> foreign"
    "if engine_state w = ENGINE_RUNNING then running base ar (card (prof_causes P) + foreign) P X w
     else halted base ar (card (prof_causes P) + foreign) P X w"
    using assms by (auto simp: session_inv_def)
  then have "card (armed (tq (core w))) \<le> card (prof_causes P) + card X"
    by (cases "engine_state w = ENGINE_RUNNING") (auto simp: running_def halted_def intro: einv_armed)
  with X(1) show "card (armed (tq (core w))) \<le> card (prof_causes P) + foreign" by simp
  assume c: "c \<in> prof_causes P" "0 \<le> timer_id (dyn w c) \<or> 0 \<le> cause_fd (dyn w c)"
  show "awake P c w"
  proof (cases "engine_state w = ENGINE_RUNNING")
    case True
    then show ?thesis using running_holds [OF _ c] X(2) by (auto simp: awake_active)
  next
    case False
    then have "einv base ar (card (prof_causes P) + foreign) P X {} {} w" using X(2) by (simp add: halted_def)
    from einv_nothing(2) [OF this c(1)] c(2) show ?thesis by simp
  qed
qed

section \<open>Thresholds made from whole numbers\<close>

text \<open>The thresholds of a profile can always be evaluated when they are whole numbers in the range of an integer
  sensor.\<close>

fun integer_type :: "ts_value \<Rightarrow> bool" where
  "integer_type (VUint16 _) = True"
| "integer_type (VUint32 _) = True"
| "integer_type (VInt16 _) = True"
| "integer_type (VInt32 _) = True"
| "integer_type _ = False"

definition numeric :: "ts_value \<Rightarrow> ts_threshold \<Rightarrow> bool" where
  "numeric m t \<longleftrightarrow> (\<exists>ty items limit. t = number_threshold ty items limit \<and> (\<forall>i \<in> set (numbers_of ty items limit). fits m i))"

lemma same_type_fits: "same_type m v \<Longrightarrow> fits m i = fits v i"
  by (cases m; cases v) auto

lemma reading_integer:
  assumes "integer_type m" and "same_type m v" and "relative_active b \<longrightarrow> same_type m (sense_bias b)"
  shows "reading b v \<noteq> None"
  using assms by (cases m; cases v; cases "sense_bias b") auto

lemma check_all_numeric:
  assumes "integer_type m" and "\<forall>t \<in> set ts. numeric m t" and "same_type m v"
    and "relative_active b \<longrightarrow> same_type m (sense_bias b)"
  shows "\<exists>r'. check_all alloc b ts v r = Some (r', v)"
  using assms(2)
proof (induction ts arbitrary: r)
  case (Cons t ts)
  obtain ty items limit where t: "t = number_threshold ty items limit" "\<forall>i \<in> set (numbers_of ty items limit). fits v i"
    using Cons.prems same_type_fits [OF assms(3)] by (auto simp: numeric_def)
  obtain n where "reading b v = Some n" using reading_integer [OF assms(1,3,4)] by blast
  with t have "check_threshold alloc b t v = Some (threshold_spec ty items limit n, v)"
    by (simp add: check_threshold_numbers)
  then show ?case using Cons by simp
qed simp

lemma thresholds_ok_numeric:
  assumes "\<forall>c \<in> prof_causes P. integer_type (si_min (sense_info (cause_at P c))) \<and>
      (\<forall>t \<in> set (thresholds (cause_at P c)). numeric (si_min (sense_info (cause_at P c))) t)"
  shows "thresholds_ok P"
  unfolding thresholds_ok_def
proof (intro ballI allI impI)
  fix c alloc v and b :: bias
  assume "c \<in> prof_causes P" "same_type (si_min (sense_info (cause_at P c))) v"
    "relative_active b \<longrightarrow> same_type (si_min (sense_info (cause_at P c))) (sense_bias b)"
  then show "check_all alloc b (thresholds (cause_at P c)) v True \<noteq> None"
    using check_all_numeric [of "si_min (sense_info (cause_at P c))" "thresholds (cause_at P c)" v b alloc True] assms by auto
qed

end
