(* ===== verification/Engine_Counts.thy ===== *)
theory Engine_Counts
  imports Engine_Sessions
begin

text \<open>
  The threshold counter of a cause over a sequence of samples. The reference counts how many samples in a row
  were within the limits.
\<close>

fun verdicts :: "profile \<Rightarrow> engine_env \<Rightarrow> cause_p \<Rightarrow> ts_value list \<Rightarrow> engine \<Rightarrow> bool list option" where
  "verdicts P e c [] w = Some []"
| "verdicts P e c (v # vs) w =
     do {
       (r, w) \<leftarrow> check_thresholds P e c (upd_dyn c (sense_value_update (\<lambda>_. Some v)) w);
       rs \<leftarrow> verdicts P e c vs w;
       Some (r # rs)
     }"

fun streaks :: "int \<Rightarrow> int \<Rightarrow> bool list \<Rightarrow> bool list" where
  "streaks n run [] = []"
| "streaks n run (b # bs) = (if b then (n \<le> run + 1) # streaks n (run + 1) bs else False # streaks n 0 bs)"

definition no_bias :: bias where
  "no_bias = \<lparr>relative_active = False, sense_bias = VBool False\<rparr>"

definition meets :: "(ts_threshold_t \<times> int list \<times> int) list \<Rightarrow> ts_value \<Rightarrow> bool" where
  "meets specs v \<longleftrightarrow> list_all (\<lambda>(ty, items, limit). threshold_spec ty items limit (the (reading no_bias v))) specs"

lemma check_all_specs:
  assumes "\<forall>(ty, items, limit) \<in> set specs. \<forall>i \<in> set (numbers_of ty items limit). fits v i"
    and "reading no_bias v \<noteq> None"
  shows "check_all alloc no_bias (map (\<lambda>(ty, items, limit). number_threshold ty items limit) specs) v r =
    Some (r \<and> meets specs v, v)"
  using assms(1)
proof (induction specs arbitrary: r)
  case (Cons s specs)
  obtain ty items limit where s: "s = (ty, items, limit)" by (cases s)
  obtain n where n: "reading no_bias v = Some n" using assms(2) by blast
  have "check_threshold alloc no_bias (number_threshold ty items limit) v = Some (threshold_spec ty items limit n, v)"
    using Cons.prems s n by (intro check_threshold_numbers) auto
  with Cons s n show ?case by (auto simp: meets_def)
qed (simp add: meets_def)

text \<open>One sample.\<close>

lemma check_thresholds_count:
  assumes "\<not> is_active_relative_cause (cause_at P c)" and "orderId (cause_at P c) = 0" and "specs \<noteq> []"
    and "thresholds (cause_at P c) = map (\<lambda>(ty, items, limit). number_threshold ty items limit) specs"
    and "\<forall>(ty, items, limit) \<in> set specs. \<forall>i \<in> set (numbers_of ty items limit). fits v i"
    and "reading no_bias v \<noteq> None" and "sense_value (dyn w c) = Some v"
    and "\<not> measure_bias (dyn w c)" and "measurement_counter (dyn w c) \<le> 0"
  shows "\<exists>w'. check_thresholds P e c w =
      Some ((meets specs v \<noteq> threshold_negate (cause_at P c)) \<and> threshold_counter (dyn w c) \<le> 1, w') \<and>
    \<not> measure_bias (dyn w' c) \<and> measurement_counter (dyn w' c) \<le> 0 \<and>
    threshold_counter (dyn w' c) =
      (if meets specs v \<noteq> threshold_negate (cause_at P c)
       then (if 0 < threshold_counter (dyn w c) then threshold_counter (dyn w c) - 1 else threshold_counter (dyn w c))
       else threshold_count (cause_at P c))"
proof -
  let ?cf = "cause_at P c"
  have "bias_of ?cf (dyn w c) = Some no_bias" using assms(1) by (simp add: bias_of_def no_bias_def)
  moreover note check_all_specs [OF assms(5,6), of "malloc_ok e (asked w)" True]
  moreover have "thresholds ?cf \<noteq> []" using assms(3,4) by simp
  ultimately show ?thesis
    using assms(2,4,7-9)
    by (auto simp: check_thresholds_def Let_def ask_def in_limits_def not_in_limits_def check_order_def upd_dyn_def)
qed

lemma verdicts_streaks:
  assumes "\<not> is_active_relative_cause (cause_at P c)" and "orderId (cause_at P c) = 0" and "specs \<noteq> []"
    and "thresholds (cause_at P c) = map (\<lambda>(ty, items, limit). number_threshold ty items limit) specs"
    and "\<forall>(ty, items, limit) \<in> set specs. \<forall>i \<in> set (numbers_of ty items limit). fits (si_min (sense_info (cause_at P c))) i"
    and "integer_type (si_min (sense_info (cause_at P c)))"
    and "\<forall>v \<in> set vs. same_type (si_min (sense_info (cause_at P c))) v"
    and "\<not> measure_bias (dyn w c)" and "measurement_counter (dyn w c) \<le> 0"
    and "if 0 < threshold_counter (dyn w c) then threshold_counter (dyn w c) = threshold_count (cause_at P c) - run
      else threshold_count (cause_at P c) \<le> run"
  shows "verdicts P e c vs w =
    Some (streaks (threshold_count (cause_at P c)) run
      (map (\<lambda>v. meets specs v \<noteq> threshold_negate (cause_at P c)) vs))"
  using assms(7-10)
proof (induction vs arbitrary: w run)
  case (Cons v vs)
  let ?w = "upd_dyn c (sense_value_update (\<lambda>_. Some v)) w" and ?n = "threshold_count (cause_at P c)"
  let ?in = "meets specs v \<noteq> threshold_negate (cause_at P c)"
  have ty: "same_type (si_min (sense_info (cause_at P c))) v" using Cons.prems(1) by simp
  have fit: "\<forall>(ty, items, limit) \<in> set specs. \<forall>i \<in> set (numbers_of ty items limit). fits v i"
    using assms(5) same_type_fits [OF ty] by auto
  have rd: "reading no_bias v \<noteq> None"
    using reading_integer [OF assms(6) ty, of no_bias] by (simp add: no_bias_def)
  have w: "sense_value (dyn ?w c) = Some v" "\<not> measure_bias (dyn ?w c)" "measurement_counter (dyn ?w c) \<le> 0"
    "threshold_counter (dyn ?w c) = threshold_counter (dyn w c)"
    using Cons.prems(2,3) by simp_all
  obtain w' where w': "check_thresholds P e c ?w = Some (?in \<and> threshold_counter (dyn w c) \<le> 1, w')"
    "\<not> measure_bias (dyn w' c)" "measurement_counter (dyn w' c) \<le> 0"
    "threshold_counter (dyn w' c) =
      (if ?in then (if 0 < threshold_counter (dyn w c) then threshold_counter (dyn w c) - 1 else threshold_counter (dyn w c)) else ?n)"
    using check_thresholds_count [OF assms(1-4) fit rd w(1-3), of e] unfolding w(4) by blast
  have next_run: "if 0 < threshold_counter (dyn w' c) then threshold_counter (dyn w' c) = ?n - (if ?in then run + 1 else 0)
      else ?n \<le> (if ?in then run + 1 else 0)"
    using w'(4) Cons.prems(4) by (auto split: if_splits)
  have "verdicts P e c vs w' = Some (streaks ?n (if ?in then run + 1 else 0)
      (map (\<lambda>v. meets specs v \<noteq> threshold_negate (cause_at P c)) vs))"
    using Cons.IH [OF _ w'(2,3) next_run] Cons.prems(1) by simp
  moreover have "?in \<and> threshold_counter (dyn w c) \<le> 1 \<longleftrightarrow> ?in \<and> ?n \<le> run + 1"
    using Cons.prems(4) by (auto split: if_splits)
  ultimately show ?case
    using w'(1) by auto
qed simp

end
