(* ===== verification/Engine_Demo.thy ===== *)
theory Engine_Demo
  imports Engine_Counts
begin

text \<open>
  A small profile for evaluation: one purpose with two states. Each state has one event, which leads to the
  other state, and each event one cause that measures every half second and triggers above a limit. The
  environment has a clock that stands still, an allocator that returns the first free block of a heap of 64,
  and sensors without descriptors.
\<close>

declare sq_find_prev.simps [code] advance_date.simps [code] handle_cause_loop.simps [code]

section \<open>The profile\<close>

definition tracker_sensor :: ts_sense_info where
  "tracker_sensor = \<lparr>si_min = VInt32 0, has_irq_init = False, has_irq_uninit = False, has_active_init = False,
     has_active_uninit = False, has_active_read = True\<rparr>"

definition tracker_cause :: "event_p \<Rightarrow> int \<Rightarrow> ts_threshold list \<Rightarrow> cause_conf" where
  "tracker_cause ev n thr = \<lparr>c_parent = ev, sId = 1, orderId = 0, senseLog = False, measurement_log = False,
     measurement_interval = 500, measurement_count = n, measurement_send = False, threshold_count = 1,
     threshold_negate = False, threshold_relative = False, thresholds = thr, sense_info = tracker_sensor\<rparr>"

definition tracker_event :: "state_p \<Rightarrow> int \<Rightarrow> int \<Rightarrow> cause_p list \<Rightarrow> event_conf" where
  "tracker_event st i goto cs = \<lparr>e_parent = st, evId = i, eventLog = False, sendEvent = True, sendLog = False,
     sendPush = False, url_host = None, gotoStId = goto, gotoPuId = - 1, showText = None, sms_text = None,
     phoneNumber = None, causes = cs\<rparr>"

definition tracker_state :: "int \<Rightarrow> event_p list \<Rightarrow> state_conf" where
  "tracker_state i evs = \<lparr>s_parent = 0, stId = i, isGlobal = False, state_events = evs\<rparr>"

definition tracker_purpose :: "purpose_conf" where
  "tracker_purpose = \<lparr>puId = 1, initStId = 1, states = [0, 1]\<rparr>"

definition tracker :: profile where
  "tracker = \<lparr>initPuId = 1, purposes = [0], purpose_at = (\<lambda>_. tracker_purpose),
     state_at = (\<lambda>s. if s = 0 then tracker_state 1 [0] else tracker_state 2 [1]),
     event_at = (\<lambda>v. if v = 0 then tracker_event 0 1 2 [0] else tracker_event 1 2 1 [1]),
     cause_at = (\<lambda>c. tracker_cause c 0 [number_threshold isGt [] 20])\<rparr>"

section \<open>The environment\<close>

definition tracker_loop :: env where
  "tracker_loop = \<lparr>clk = (\<lambda>_. \<lparr>tv_sec = 100, tv_nsec = 0\<rparr>), calloc = (\<lambda>m. find (\<lambda>a. m a = None) [1000..<1064]),
     arena = 64, timer_cb = (\<lambda>_ _ _ _. (0, [])), fd_cb = (\<lambda>_ _ _ _. (0, [])), hook_fn = (\<lambda>_ _. True),
     poll_fn = (\<lambda>_ _ _. PollError)\<rparr>"

definition tracker_env :: engine_env where
  "tracker_env = \<lparr>evloop = tracker_loop, sense_effect_of = (\<lambda>_ _ _. \<lparr>se_ret = 0, se_fd = None, se_date = None, se_ops = []\<rparr>),
     malloc_ok = (\<lambda>_. True), global_alloc_ok = (\<lambda>_. True), connector_ok = (\<lambda>_. True), have_logs = (\<lambda>_. False),
     wall_clock = (\<lambda>_. 86400)\<rparr>"

definition tracker_dyn :: cause_dyn where
  "tracker_dyn = \<lparr>timer_id = - 1, cause_time = \<lparr>tv_sec = 0, tv_nsec = 0\<rparr>, cause_fd = - 1, triggered = False,
     measure_bias = False, measurement_counter = 0, threshold_counter = 0, sense_value = None, bias_value = None\<rparr>"

definition tracker_core :: ts_core_s where
  "tracker_core = \<lparr>tq = \<lparr>tmem = Map.empty, timers = [], new_timers = [], done_timers = [], heap_size = 0\<rparr>,
     ft = \<lparr>files = [], pollfds = [], nfiles_deleted = 0\<rparr>, deepsleep_hooks = [], ticks = 0, calls = []\<rparr>"

definition tracker_limit :: sms_limit where
  "tracker_limit = \<lparr>min_interval_minutes = 1, max_per_day = 5\<rparr>"

definition tracker_engine :: engine where
  "tracker_engine = \<lparr>current_purpose = None, current_state = None, global_states = [], engine_state = ENGINE_STOPPED,
     engine_sms_limit = tracker_limit, dyn = (\<lambda>_. tracker_dyn), expected_order_id = (\<lambda>_. 0),
     active_causes = (\<lambda>_. sq_init), active_entry = (\<lambda>_. None), core = tracker_core,
     rtc = \<lparr>sent_per_day_count = 0, last_sent_time = 0\<rparr>, asked = 0, trace = []\<rparr>"

section \<open>Two causes of one sensor\<close>

text \<open>The first state has a second event, whose cause measures once with the same sensor and which leads nowhere.\<close>

definition shared :: profile where
  "shared = tracker
     \<lparr>state_at := (\<lambda>s. if s = 0 then tracker_state 1 [0, 1] else tracker_state 2 []),
      event_at := (\<lambda>v. if v = 0 then tracker_event 0 1 2 [0] else tracker_event 0 2 (- 1) [1]),
      cause_at := (\<lambda>c. if c = 0 then tracker_cause 0 0 [number_threshold isGt [] 20] else tracker_cause 1 1 [])\<rparr>"

text \<open>A sample for every cause of the sensor of cause \<open>c\<close>.\<close>

definition shared_sample :: "profile \<Rightarrow> engine_env \<Rightarrow> cause_p \<Rightarrow> ts_value \<Rightarrow> engine \<Rightarrow> engine option" where
  "shared_sample P e c v w = map_option snd (handle_cause P e c (upd_dyn c (sense_value_update (\<lambda>_. Some v)) w))"

text \<open>A cause that triggers after three samples in a row.\<close>

definition counting :: profile where
  "counting = tracker\<lparr>cause_at := (\<lambda>c. (tracker_cause c 0 [number_threshold isGt [] 20])\<lparr>threshold_count := 3\<rparr>)\<rparr>"

section \<open>Evaluation\<close>

text \<open>The simplifier evaluates a monadic program step by step: a continuation is left alone until it is
  applied.\<close>

lemma bind_weak_cong: "m = m' \<Longrightarrow> Option.bind m f = Option.bind m' f" by simp

lemmas tracker_defs = shared_def tracker_def tracker_sensor_def tracker_cause_def tracker_event_def tracker_state_def tracker_purpose_def
  tracker_loop_def tracker_env_def tracker_dyn_def tracker_core_def tracker_limit_def tracker_engine_def
lemmas start_defs = profile_main_def init_profile_def init_purpose_def find_state_by_id_def find_purpose_by_id_def
  init_state_def init_event_def init_cause_def upd_dyn_def fresh_dyn_def is_active_relative_cause_def active_queue_def state_of_def
  set_active_queue_def engine_cause_request_value_def set_valuetype_def clock_gettime_def start_cause_timer_def
  loop_timer_setup_def ts_core_timer_setup_def timer_setup_internal_def ts_core_get_timer_id_def timer_setup_fields_def emit_def
  uninit_global_states_def init_global_states_def sq_init_def

lemmas sample_defs = shared_sample_def handle_cause_def handle_cause_event_def check_thresholds_def
  bias_of_def ask_def check_threshold_def number_threshold_def check_valueint32_threshold_def relative_value_def
  check_type_def number_def dbl_to_i32_def in_limits_def check_order_def all_causes_triggered_def fire_event_def do_event_actions_def
  send_event_def generate_event_payload_def sense_of_def uninit_cause_def sense_uninit_def stop_cause_timer_def
  ts_core_timer_stop_def retire_timer_def timer_at_def reinit_cause_def sq_peek_def sq_next_def truncate_rat_def

lemma handle_cause_loop_None: "handle_cause_loop P e c None changing w = Some (changing, w)"
  by (subst handle_cause_loop.simps) simp

lemma handle_cause_loop_Some:
  "handle_cause_loop P e c (Some a) changing w =
     (if sId (cause_at P a) = sId (cause_at P c)
      then Option.bind (handle_cause_event P e a (upd_dyn a (sense_value_update (\<lambda>_. sense_value (dyn w c))) w))
        (\<lambda>(ch, w). handle_cause_loop P e c (sq_next a (active_queue P a w)) (changing \<or> ch) w)
      else handle_cause_loop P e c (sq_next a (active_queue P a w)) changing w)"
  by (subst handle_cause_loop.simps) simp

section \<open>The demonstration profile is well formed\<close>

lemma tracker_states: "all_states tracker = [0, 1]" "all_states shared = [0, 1]"
  by (simp_all add: all_states_def tracker_defs)

lemma tracker_causes: "causes_of tracker 0 = [0]" "causes_of tracker (Suc 0) = [1]" "causes_of shared 0 = [0, 1]" "causes_of shared (Suc 0) = []"
  "prof_causes tracker = {0, 1}" "prof_causes shared = {0, 1}"
  by (auto simp: causes_of_def prof_causes_def all_states_def tracker_defs)

lemma tracker_profile_ok: "profile_ok tracker" "profile_ok shared"
proof -
  show "profile_ok tracker"
    unfolding profile_ok_def tree_ok_def tracker_states
    by (auto simp: causes_of_def tracker_causes(5,6) find_state_by_id_def Let_def find_Some_iff startable_def tracker_defs)
  show "profile_ok shared"
    unfolding profile_ok_def tree_ok_def tracker_states
    by (auto simp: causes_of_def tracker_causes(5,6) find_state_by_id_def Let_def find_Some_iff startable_def tracker_defs)
qed

lemma tracker_thresholds_ok: "thresholds_ok tracker"
proof (rule thresholds_ok_numeric)
  have "numeric (VInt32 0) (number_threshold isGt [] 20)"
    unfolding numeric_def by (intro exI conjI) (rule refl, simp)
  then show "\<forall>c \<in> prof_causes tracker. integer_type (si_min (sense_info (cause_at tracker c))) \<and>
      (\<forall>t \<in> set (thresholds (cause_at tracker c)). numeric (si_min (sense_info (cause_at tracker c))) t)"
    by (simp add: tracker_causes tracker_defs)
qed

lemma tracker_allocates: "allocates 1000 64 64 tracker_loop"
proof -
  have "\<exists>a. find (\<lambda>a. m a = None) [1000..<1064] = Some a \<and> 1000 \<le> a \<and> a < 1064"
    if "finite (dom m)" "card (dom m) < 64" for m :: "addr \<rightharpoonup> timer_s"
  proof (cases "find (\<lambda>a. m a = None) [1000..<1064]")
    case None
    then have "{1000..<1064} \<subseteq> dom m" by (auto simp: find_None_iff simp del: upt_rec_numeral)
    then have "card {1000..<1064::nat} \<le> card (dom m)" using that(1) by (intro card_mono)
    then show ?thesis using that(2) by (simp del: upt_rec_numeral)
  next
    case (Some a)
    then have "a \<in> set [1000..<1064]" by (metis (no_types, lifting) find_Some_iff nth_mem)
    then show ?thesis using Some by (simp del: upt_rec_numeral)
  qed
  moreover have "a \<notin> dom m" if "find (\<lambda>a. m a = None) [1000..<1064] = Some a" for m :: "addr \<rightharpoonup> timer_s" and a
    using that by (auto simp: find_Some_iff simp del: upt_rec_numeral)
  ultimately show ?thesis
    by (auto simp: allocates_def env_ok_def tracker_loop_def simp del: upt_rec_numeral)
qed

lemma tracker_env_ok: "engine_env_ok 1000 64 64 tracker_env"
  using tracker_allocates
  by (auto simp: engine_env_ok_def clock_good_def senses_ok_def tracker_env_def tracker_loop_def normal_ts_def simp del: upt_rec_numeral)

lemma tracker_engine_ok: "einv 1000 64 0 P {} {} {} tracker_engine"
proof -
  have "tq_inv (tq tracker_core)" "ft_inv (ft tracker_core)"
    using timers_initial_inv [of 0] by (simp_all add: tracker_core_def ft_inv_def nfiles_def)
  moreover have "sq_repr (sq_init, \<lambda>_. None) []" by (rule sq_repr_init)
  ultimately show ?thesis
    by (auto simp: einv_def cause_timers_ok_def loop_ok_def core_inv_def in_arena_def timers_match_def engine_timers_def armed_def
        idle_ok_def queues_ok_def tracker_engine_def tracker_core_def tracker_dyn_def)
qed

lemma tracker_start: "find_purpose_by_id tracker (- 1) = Some 0" "find_state_by_id tracker 0 (- 1) = Some 0"
  "find_purpose_by_id shared (- 1) = Some 0" "find_state_by_id shared 0 (- 1) = Some 0"
  by (simp_all add: find_purpose_by_id_def find_state_by_id_def tracker_defs)

lemma tracker_session_ok: "session_ok 1000 64 64 0 tracker tracker_env"
  by (simp add: session_ok_def tracker_profile_ok tracker_thresholds_ok tracker_env_ok tracker_causes)

lemma tracker_count: "card (prof_causes tracker) = 2" "si_min (sense_info (cause_at tracker c)) = VInt32 0"
  by (simp_all add: tracker_causes) (simp add: tracker_defs)

lemma tracker_running:
  obtains w where "profile_main tracker tracker_env tracker_limit tracker_engine = Some (True, w)" and "running 1000 64 2 tracker {} w"
    and "located tracker 0 0 w" and "engine_state w = ENGINE_RUNNING"
  using init_profile_start [OF tracker_profile_ok(1) tracker_env_ok tracker_engine_ok _ tracker_start(1,2), of tracker_limit]
  unfolding tracker_count by (auto simp: numeral_2_eq_2)

end
