(* ===== verification/Engine_Properties.thy ===== *)
theory Engine_Properties
  imports Engine_Demo
begin

text \<open>
  The properties of the Thingsee engine and of the calendar routines it calls, with an evaluation of each on the
  demonstration profile or on concrete values.
\<close>

section \<open>Sessions\<close>











section \<open>Thresholds\<close>



text \<open>
  C10. The counter of a cause: a cause with an unordered set of thresholds triggers on a sample exactly when this
  and the samples before it, as many as its count says and without interruption, were within the limits; a
  sample outside starts the count anew. (\<open>streaks\<close> is the reference, \<open>verdicts\<close> the results of
  \<open>check_thresholds\<close> on a sequence of samples.)
\<close>

theorem threshold_counts:
  assumes "\<not> is_active_relative_cause (cause_at P c)" and "orderId (cause_at P c) = 0" and "specs \<noteq> []"
    and "thresholds (cause_at P c) = map (\<lambda>(ty, items, limit). number_threshold ty items limit) specs"
    and "\<forall>(ty, items, limit) \<in> set specs. \<forall>i \<in> set (numbers_of ty items limit). fits (si_min (sense_info (cause_at P c))) i"
    and "integer_type (si_min (sense_info (cause_at P c)))"
    and "\<forall>v \<in> set vs. same_type (si_min (sense_info (cause_at P c))) v"
    and "\<not> measure_bias (dyn w c)" and "measurement_counter (dyn w c) \<le> 0"
    and "threshold_counter (dyn w c) = threshold_count (cause_at P c)"
  shows "verdicts P e c vs w =
    Some (streaks (threshold_count (cause_at P c)) 0
      (map (\<lambda>v. meets specs v \<noteq> threshold_negate (cause_at P c)) vs))"
  using verdicts_streaks [OF assms(1-6), of vs w 0 e] assms(7-10) by simp

theorem threshold_counts_witness:
  "verdicts counting tracker_env 0 (map VInt32 [30, 31, 5, 40, 41, 42]) (upd_dyn 0 (threshold_counter_update (\<lambda>_. 3)) tracker_engine)
     = Some [False, False, False, False, False, True]"
  using threshold_counts [of counting 0 "[(isGt, [], 20)]" "map VInt32 [30, 31, 5, 40, 41, 42]"
      "upd_dyn 0 (threshold_counter_update (\<lambda>_. 3)) tracker_engine" tracker_env]
  by (simp add: counting_def meets_def upd_dyn_def is_active_relative_cause_def no_bias_def tracker_defs)





section \<open>Samples shared by causes\<close>


section \<open>Dates, the calendar and text messages\<close>

text \<open>
  C22. The date of the next measurement: the loop ends with the first multiple of the interval after the last date
  that is not in the past, so a cause never measures in the past and skips no more dates than have passed.
\<close>

theorem next_measurement:
  assumes "normal_ts t" and "normal_ts now" and "1000 \<le> interval"
    and "uint (tv_sec t) + interval div 1000 + 1 < 2 ^ 32" and "uint (tv_sec now) + interval div 1000 + 1 < 2 ^ 32"
  shows "\<exists>d k. advance_date interval now t = Some d \<and> normal_ts d \<and> ns_of now \<le> ns_of d \<and> 1 \<le> k \<and>
    ns_of d = ns_of t + k * (interval * 1000000) \<and> (k = 1 \<or> ns_of d < ns_of now + interval * 1000000)"
  by (rule advance_date_correct [OF assms])

theorem next_measurement_witness:
  "\<exists>d k. advance_date 1500 \<lparr>tv_sec = 104, tv_nsec = 7\<rparr> \<lparr>tv_sec = 100, tv_nsec = 0\<rparr> = Some d \<and>
     ns_of d = 100000000000 + k * 1500000000 \<and> 104000000007 \<le> ns_of d \<and> (k = 1 \<or> ns_of d < 105500000007)"
  using next_measurement [of "\<lparr>tv_sec = 100, tv_nsec = 0\<rparr>" "\<lparr>tv_sec = 104, tv_nsec = 7\<rparr>" 1500]
  by (auto simp: normal_ts_def ns_of_def)



text \<open>
  C20. \<open>mktime\<close> is the inverse of \<open>gmtime_r\<close> for every second before 2101.
\<close>

theorem mktime_gmtime:
  assumes "uint t div 86400 < 47847"
  shows "Option.bind (gmtime_r t) mktime = Some t"
  by (rule mktime_inverts [OF assms])

theorem mktime_gmtime_witness: "Option.bind (gmtime_r 951868800) mktime = Some 951868800"
  using mktime_gmtime [of 951868800] by simp


text \<open>
  C21. The limit for text messages: whatever the times of the requests, as long as the clock does not go back, on
  each day at most the configured number of messages is granted, besides those counted before, and two granted
  messages are at least the configured interval apart. The counters survive a reset, so a reset grants no more.
\<close>

theorem sms_limited:
  assumes "sorted (map uint ts)" and "\<forall>t \<in> set ts. calendar_ok t" and "calendar_ok (last_sent_time r)"
    and "\<forall>t \<in> set ts. last_sent_time r \<le> t"
  shows "\<exists>gs. sms_grants limit ts r = Some gs \<and> set gs \<subseteq> set ts \<and>
    (\<forall>day. length (filter (\<lambda>t. day_of t = day) gs) \<le> unat (max_per_day limit) - spent day r) \<and>
    sorted_wrt (\<lambda>s t. uint s + uint (min_interval_minutes limit * 60) \<le> uint t) (last_sent_time r # gs)"
proof -
  obtain gs where gs: "sms_grants limit ts r = Some gs"
    using sms_grants_bounded [OF assms] by blast
  then have "length (filter (\<lambda>t. day_of t = day) gs) \<le> unat (max_per_day limit) - spent day r" for day
    using sms_grants_bounded [OF assms, of limit day] by simp
  with gs show ?thesis
    using sms_grants_apart [OF assms gs] sms_grants_subset [OF gs] by blast
qed

theorem sms_limited_witness:
  "\<exists>gs. sms_grants \<lparr>min_interval_minutes = 1, max_per_day = 2\<rparr> [100, 130, 160, 400, 90000] \<lparr>sent_per_day_count = 0, last_sent_time = 0\<rparr> = Some gs \<and>
     length (filter (\<lambda>t. day_of t = 0) gs) \<le> 2"
proof -
  let ?ts = "[100, 130, 160, 400, 90000] :: u32 list" and ?r = "\<lparr>sent_per_day_count = 0, last_sent_time = 0\<rparr>"
  let ?lim = "\<lparr>min_interval_minutes = 1, max_per_day = 2\<rparr>"
  have "sorted (map uint ?ts)" "\<forall>t \<in> set ?ts. calendar_ok t" "calendar_ok (last_sent_time ?r)" "\<forall>t \<in> set ?ts. last_sent_time ?r \<le> t"
    by (simp_all add: calendar_ok_def day_of_def)
  from sms_limited [OF this, of ?lim] obtain gs where gs: "sms_grants ?lim ?ts ?r = Some gs"
    "length (filter (\<lambda>t. day_of t = 0) gs) \<le> unat (max_per_day ?lim) - spent 0 ?r" by blast
  then have "length (filter (\<lambda>t. day_of t = 0) gs) \<le> 2" by simp
  with gs(1) show ?thesis by blast
qed

end
