(* ===== verification/Spec2Isabelle.thy ===== *)
theory Spec2Isabelle
  imports Event_Loop Modem_Properties Sms_Properties Ubx_Properties Mm_Properties Json_Properties Engine_Properties
begin

text \<open>
  A verification library for the device software of the Thingsee SDK: the applications under \<open>apps/\<close> that
  run on the NuttX kernel of the Thingsee One tracker.

  \<^bold>\<open>The program.\<close> Everything on the device runs in one event loop, \<open>apps/thingsee/lib/ts_core.c\<close>: timers and
  file descriptors with callbacks, deep sleep when nothing is due. The modem library
  (\<open>apps/system/ubmodem\<close>) and the GPS library (\<open>apps/system/ubgps\<close>) are driven from it: each keeps its own
  timers, asks for a poll timeout, and feeds the bytes of its serial port to a parser, the parser of AT
  responses (\<open>ubmodem_parser.c\<close>) and the receiver of UBX messages (\<open>ubx.c\<close>). The modem library also encodes
  short messages (\<open>ubmodem_pdu_util.c\<close>). The Thingsee engine (\<open>apps/ts_engine/engine\<close>) runs a profile of the
  user: purposes with states, states with events, events with causes. A cause measures a sensor with a timer of the
  event loop, its thresholds decide on each sample, and an event whose causes have triggered sends messages and
  changes the state. It counts days with the calendar of the C library. Profiles and the messages to the server are
  JSON texts, read and written by \<open>apps/netutils/json\<close>. All of them keep their entries in the linked queues of NuttX
  (\<open>nuttx/libc/queue\<close>), use its C library and allocate from its heap (\<open>nuttx/mm/mm_heap\<close>).

  \<^bold>\<open>The theories\<close>, in the order of imports:
  \<^item> \<open>Prelude\<close>: integer types, lemmas on lists and words, the contract \<open>safe_machine\<close> of a sequential component;
    \<open>Faults\<close>: results of code that can fail or not return, with weakest preconditions.
  \<^item> \<open>Sq_Queue\<close>: \<open>sq_addlast\<close>, \<open>sq_rem\<close>, ... on a queue header and a store of links. \<open>sq_repr\<close> relates a queue to
    the list of its nodes; every routine refines its list operation; the locale \<open>sq_interface\<close> gives clients
    the first-in first-out law.
  \<^item> \<open>Ts_Time\<close>: \<open>struct timespec\<close> with 32-bit fields, comparison and addition of \<open>ts_core.c\<close>.
  \<^item> \<open>Ts_Timers\<close>, \<open>Ts_Files\<close>: the timer queues (record \<open>timer_queues\<close>) and the descriptor table (record
    \<open>file_table\<close>) of \<open>struct ts_core_s\<close> with the functions that change them and their invariants \<open>tq_inv\<close>
    and \<open>ft_inv\<close>. \<open>gc_insert\<close> is the ordered insertion on the linked queue, \<open>insert_timer\<close> the same on lists.
  \<^item> \<open>Ts_Core\<close>: the record \<open>ts_core_s\<close>, the public functions as operations \<open>api_op\<close>, timer and descriptor
    callbacks, \<open>ts_core_deepsleep\<close>, \<open>ts_core_process\<close> and the main loop; \<open>Event_Loop\<close>: its properties.
  \<^item> \<open>Poll_Timers\<close>: the timers of \<open>ubmodem_poll.c\<close> and \<open>ubgps_poll.c\<close>; the locale \<open>timer_library\<close> holds the walk
    over expired timers once for both, \<open>timer_ids\<close> and \<open>fresh_timer_ids\<close> what their clients may rely on.
  \<^item> \<open>Libc_String\<close>: \<open>strtol\<close>, \<open>strcmp\<close> and what they call; \<open>Modem_Stream\<close>: the response stream, with the locale
    \<open>stream_codec\<close> for its three integer widths.
  \<^item> \<open>Modem_Parser\<close>: the parser, from \<open>__ubparse_buffer\<close> down to each parameter format, the registry of response
    handlers and the command timeout; \<open>Modem_Safety\<close>: it is total and memory safe; \<open>Modem_Responses\<close>: what it
    does with a response, an error and a timeout; \<open>Modem_Properties\<close>: its properties and those of the timers.
  \<^item> \<open>Sms_Pdu\<close>, \<open>Sms_Properties\<close>: UTF-8 to UCS-2, phone numbers, PDUs of single and concatenated messages.
  \<^item> \<open>Ubx\<close>: \<open>ubx_msg_send\<close>, \<open>ubx_msg_receive\<close>, \<open>ubx_timeout\<close>, \<open>ubx_reset\<close>; \<open>Ubx_Receive\<close>: writing, reception of a frame,
    safety for all bytes; \<open>Ubx_Properties\<close>: its properties.
  \<^item> \<open>Mm_Memory\<close>, \<open>Mm_Heap\<close>: a byte memory, and every routine of the heap allocator \<open>nuttx/mm/mm_heap\<close> on it; chunk
    headers and free lists live in the memory as in the C code.
  \<^item> \<open>Mm_List\<close>, \<open>Mm_Buckets\<close>, \<open>Mm_Layout\<close>: what the memory means, from the bottom up: a doubly linked segment, the
    ordered list with its size classes (\<open>flist\<close>), the row of chunks (\<open>layout\<close>); \<open>heap_ok\<close> puts them together.
  \<^item> \<open>Mm_Malloc\<close>, \<open>Mm_Free\<close>, \<open>Mm_Init\<close>, \<open>Mm_Resize\<close>, \<open>Mm_Realloc\<close>, \<open>Mm_Memalign\<close>, \<open>Mm_Info\<close>: each routine refines an
    operation on the row of chunks (\<open>carve\<close>, \<open>coalesce\<close>, \<open>shrunk\<close>, \<open>left_of\<close>, \<open>right_of\<close>) and keeps all user bytes.
  \<^item> \<open>Mm_Invariant\<close>: \<open>heap_inv\<close>, with no two free chunks in a row and granular sizes; \<open>Mm_Client\<close>: the operations as
    changes of a set of blocks (\<open>mm_view\<close>); \<open>Mm_Arrays\<close>: the locale \<open>allocator\<close>, in which clients see
    independent arrays of bytes, and its interpretation by the C routines; \<open>Mm_Properties\<close>: its properties.
  \<^item> \<open>Json_Item\<close>: the items of the JSON library with the formats of their fields, creation, renaming, reading of values;
    \<open>Json_Parse\<close>: the parser of a stream of characters, the buffered reader \<open>getc_fd\<close>; \<open>Json_Print\<close>: the printer.
  \<^item> \<open>Json_Laws\<close>: strings and integers are read back; \<open>Json_Roundtrip\<close>: trees are read back, by induction on the tree;
    \<open>Json_Safety\<close>: every text is parsed with the fuel given; \<open>Json_Unicode\<close>: escapes against the encoder of
    UTF-8 of \<open>Sms_Pdu\<close>; \<open>Json_Properties\<close>: the properties of the library.
  \<^item> \<open>Ieee_Double\<close>: the \<open>double\<close> of C with its rounding; \<open>Engine_Geofence\<close>: \<open>geofence.c\<close>; \<open>Engine_Threshold\<close>: measured
    values and the threshold functions of \<open>execute.c\<close> for every type of value.
  \<^item> \<open>Lib_Time\<close>: \<open>gmtime_r\<close> and \<open>mktime\<close> of \<open>nuttx/libc/time\<close>; \<open>Engine_Sms\<close>: the limit for text messages.
  \<^item> \<open>Engine_State\<close>: the profile as a tree of purposes, states, events and causes, the record \<open>engine\<close> of all that
    changes (the fields \<open>dyn\<close>, the queues of active causes, the event loop, the backup registers) and the
    operations on one cause (\<open>init_cause\<close>, \<open>reinit_cause\<close>, \<open>uninit_cause\<close>); \<open>Engine_Execute\<close>: the functions of
    \<open>execute.c\<close> on events, states, purposes, samples and the profile.
  \<^item> \<open>Engine_Timers\<close>, \<open>Engine_Invariant\<close>, \<open>Engine_States\<close>: the ownership of timers, the invariant \<open>einv\<close> at every point
    inside an operation, and its preservation by the operations on causes, events and states.
  \<^item> \<open>Engine_Machine\<close>, \<open>Engine_Samples\<close>, \<open>Engine_Run\<close>: the invariant \<open>running\<close> between two samples and its preservation
    by transitions, samples, stop and continue; \<open>Engine_Sessions\<close>: sessions, as an interpretation of
    \<open>safe_machine\<close>; \<open>Engine_Counts\<close>: the counter of a cause over a sequence of samples.
  \<^item> \<open>Engine_Demo\<close>: the profiles \<open>tracker\<close>, \<open>shared\<close> and \<open>counting\<close> for evaluation; \<open>Engine_Properties\<close>: the properties of
    the engine and of the calendar.

  \<^bold>\<open>Conventions.\<close> Machine integers are words of their width. A C function that can assert, dereference NULL or
  leave a buffer has a result that says so (\<open>None\<close>, or \<open>Inl Assertion\<close> and \<open>Inl Memory\<close>); loops that need not
  end are partial functions into \<open>option\<close>, and the theorems show that they return. Code outside the model is a
  parameter: clock readings and results of \<open>poll\<close> and \<open>write\<close> by a counter of interactions, the blocks the
  applications get from the allocator, and the callbacks. A callback is unknown code; what it does is a list of calls of the same interface, chosen from the
  whole state, so that reentrancy is covered. Fields such as \<open>calls\<close>, \<open>t_events\<close>, \<open>mevents\<close>, \<open>uout\<close> and
  \<open>delivered\<close> only record what the code does to the outside. The hypotheses on these parameters have names
  (\<open>env_ok\<close>, \<open>cbs_ok\<close>, \<open>clock_ok\<close>, \<open>polls_end\<close>, \<open>timer_env_ok\<close>, \<open>modem_env_ok\<close>, \<open>ubx_env_ok\<close>) and state documented
  behaviour: a monotonic clock within 68 years, unused blocks from \<open>calloc\<close>, no endless \<open>EINTR\<close>, callbacks that
  pass valid arguments. The engine has its parameters in the record \<open>engine_env\<close>: what the drivers of the sensors
  answer and which descriptors and timers they set up, whether allocations of global states succeed, and the
  results of connectors and log. Its hypotheses are \<open>engine_env_ok\<close> (the allocator serves a request as long as fewer
  than \<open>cap\<close> blocks are in use, the clock is within range, drivers do not touch the timers of causes),
  \<open>profile_ok\<close> (the profile is a tree, no transition leads to a global state) and \<open>thresholds_ok\<close> (the thresholds fit
  the type of the sensor); a session needs room for two timers of each cause besides those of the other
  components, because a stopped timer is released by the next round of the event loop. The JSON library has its
  parameters in the record \<open>json_env\<close>: which allocations succeed, \<open>pow\<close> for the base 10, the conversion of doubles out of range
  and the text of a number that is not an integer. \<open>json_ok\<close> says that allocations succeed and that the power with exponent 0 is 1; \<open>short_strings\<close>
  bounds the strings of a text by the length of a name, and \<open>printable\<close> are the trees with
  integer numbers and C strings that fit their fields. The fuel of the parser, more than twice the number of characters,
  counts nested calls, each pair of which reads a character. The fuel of \<open>prepare_all\<close> counts calls of \<open>__ubmodem_prepare_pdu_string\<close> by its caller; one
  more than the number of parts is enough. Assertions are enabled, as in the retail configuration; sizes
  (24 + 8 descriptors, 7 response handlers, 32 bytes of name buffer, 1056 bytes of response stream) are those of
  that configuration.

  \<^bold>\<open>What is shown.\<close> The event loop, with arbitrary callbacks, never fails an assertion and never hangs; timers
  fire when due, in order, and only then; deep sleep and polling never overshoot the next timer; the
  descriptor table keeps exactly the active descriptors. Both timer libraries fire every expired timer and
  end. The AT parser and the UBX receiver cannot be made to leave their buffers or to loop by any input; the
  responses of the modem reach the callback with the right values, UBX messages arrive as they were sent.
  Encoders and decoders are inverse to each other or to reference definitions. The heap serves every sequence of
  requests, gives the client arrays that keep their contents, allocates by best fit, joins free chunks and
  ends all its searches. The engine starts every well-formed profile and runs every session of samples, stops and
  continues without a failed assertion; no cause has two timers, a transition starts exactly the causes of the
  new state, a stop releases everything, a cause triggers after the configured number of samples within its
  limits, and the thresholds decide their reference relations. \<open>gmtime_r\<close> computes the Gregorian date and
  \<open>mktime\<close> inverts it; the limit for text messages holds on every day. The JSON parser returns for every text, without an
  error of memory as long as strings are short; it reads back every tree of integers that the printer writes, and decodes escapes to
  UTF-8. Deviations of the code from its intent are stated as theorems: a descriptor can be
  registered twice behind a deleted entry, very long timeouts expire at once, request sizes wrap, an extended
  heap fails the assertion of its statistics, causes of a state that was left are started again, two kinds of
  threshold stop the program, the calendar is wrong after 2100, surrogate pairs of every other plane give a
  wrong character, a name of 255 bytes is written one byte behind its block, and an item that cannot be renamed
  is deleted twice.

  \<^bold>\<open>Not modelled.\<close> The self-tests, debug output and the optional deep-sleep watchdog; reading and dispatch of
  poll events by the two libraries; the command and network levels of the modem, the GPS state machine,
  the connection manager, the scheduler, drivers, file systems and third-party
  code. Of the engine: the parser of profiles (\<open>parse.c\<close>, \<open>value.c\<close>), which turns JSON items into the tree that the engine runs, the drivers of the sensors, the connectors,
  the log, the display and the cancellation of a running connection; its sessions deliver each
  sample to one cause, and the loop over all causes of one sensor is defined and evaluated, with its
  defect, but not part of them. Of the heap: several regions, a semaphore held by another task, and the debug output. Of
  the JSON library: the storage of children in one packed block, the functions that delete, detach and replace
  items, and the text of numbers that are not integers.
\<close>

end
